(* ===== verification/Prelude.thy ===== *)
theory Prelude
  imports Main "HOL-Library.Word"
begin

text \<open>
  Shared vocabulary of the development: bounds of the C integer types, the collections
  \<open>rv9_defs\<close> and \<open>rv9_inv\<close> used by the automation of several components, a scheme for
  "every operation keeps the invariant, so every run does", and generic facts on bounded
  counters, saturating casts and first-maximum searches, which the scheduler, the process
  table and the wait queues all share.
\<close>

named_theorems rv9_defs \<open>definitions the component proofs unfold\<close>
named_theorems rv9_inv \<open>invariant preservation, one fact per operation\<close>

unbundle bit_operations_syntax

type_synonym u32 = "32 word"

text \<open>The ranges of \<open>uint32_t\<close> and \<open>uint64_t\<close>, and C's casts and saturations.\<close>

abbreviation W32 :: nat where "W32 \<equiv> 4294967296"
abbreviation W64 :: nat where "W64 \<equiv> 18446744073709551616"
abbreviation UINT32_MAX :: nat where "UINT32_MAX \<equiv> 4294967295"
abbreviation UINT64_MAX :: nat where "UINT64_MAX \<equiv> 18446744073709551615"

definition cast32 :: "nat \<Rightarrow> nat" where
  "cast32 n = n mod W32"

text \<open>\<open>(x > UINT32_MAX) ? UINT32_MAX : (uint32_t)x\<close>, an idiom of the timing code.\<close>

definition sat32 :: "nat \<Rightarrow> nat" where
  "sat32 n = (if n > UINT32_MAX then UINT32_MAX else n)"

text \<open>\<open>(a > b) ? a - b : 0\<close>, the guarded subtraction of unsigned values.\<close>

definition clamp_sub :: "nat \<Rightarrow> nat \<Rightarrow> nat" where
  "clamp_sub a b = (if a > b then a - b else 0)"

lemma clamp_sub_eq [simp]: "clamp_sub a b = a - b"
  by (simp add: clamp_sub_def)

lemma cast32_less: "cast32 n < W32"
  by (simp add: cast32_def)

lemma cast32_small [simp]: "n < W32 \<Longrightarrow> cast32 n = n"
  by (simp add: cast32_def)

lemma sat32_le: "sat32 n \<le> UINT32_MAX" "sat32 n \<le> n"
  by (simp_all add: sat32_def)

lemma sat32_small [simp]: "n \<le> UINT32_MAX \<Longrightarrow> sat32 n = n"
  by (simp add: sat32_def)

text \<open>Unsigned 64-bit subtraction, and the cast of an unsigned 32-bit value to \<open>int\<close>.\<close>

definition sub64 :: "nat \<Rightarrow> nat \<Rightarrow> nat" where
  "sub64 a b = (a + W64 - b mod W64) mod W64"

lemma sub64_le [simp]: "b \<le> a \<Longrightarrow> a < W64 \<Longrightarrow> sub64 a b = a - b"
proof -
  assume a: "b \<le> a" "a < W64"
  then have b: "b mod W64 = b" by simp
  have "sub64 a b = ((a - b) + W64) mod W64" unfolding sub64_def b using a by simp
  also have "\<dots> = (a - b) mod W64" by (rule mod_add_self2)
  also have "\<dots> = a - b" using a by simp
  finally show ?thesis .
qed

definition int32 :: "nat \<Rightarrow> int" where
  "int32 n = (if n < 2147483648 then int n else int n - 4294967296)"

text \<open>The KAL's status codes (kal.h, \<open>rv9_err_t\<close>).\<close>

datatype rv9_err = RV9_OK | RV9_ERR_INVAL | RV9_ERR_NOMEM | RV9_ERR_TIMEOUT | RV9_ERR_UNSUPPORTED | RV9_ERR_BUSY

text \<open>Runs of a deterministic step function.\<close>

locale step_invariant =
  fixes step :: "'s \<Rightarrow> 'e \<Rightarrow> 's"
    and inv :: "'s \<Rightarrow> bool"
  assumes step_inv: "inv s \<Longrightarrow> inv (step s e)"
begin

lemma run_inv: "inv s \<Longrightarrow> inv (foldl step s es)"
  by (induction es arbitrary: s) (auto intro: step_inv)

lemma run_prefix_inv: "inv s \<Longrightarrow> es = xs @ ys \<Longrightarrow> inv (foldl step s xs)"
  by (simp add: run_inv)

end

text \<open>
  The C code's search for the best element: the first one, in table order, that no later
  one beats. \<open>better x y\<close> is the loop's test for \<open>x\<close> replacing \<open>y\<close>.
\<close>

fun best_of :: "('a \<Rightarrow> 'a \<Rightarrow> bool) \<Rightarrow> 'a option \<Rightarrow> 'a list \<Rightarrow> 'a option" where
  "best_of better acc [] = acc"
| "best_of better acc (x # xs) =
     best_of better (case acc of None \<Rightarrow> Some x
                     | Some b \<Rightarrow> if better x b then Some x else Some b) xs"

lemma best_of_None [simp]: "best_of better acc xs = None \<longleftrightarrow> acc = None \<and> xs = []"
  by (induction xs arbitrary: acc) (auto split: option.splits if_splits)

lemma best_of_mem: "best_of better acc xs = Some b \<Longrightarrow> acc = Some b \<or> b \<in> set xs"
proof (induction xs arbitrary: acc)
  case (Cons x xs)
  then have "(case acc of None \<Rightarrow> Some x | Some b \<Rightarrow> if better x b then Some x else Some b) = Some b \<or> b \<in> set xs"
    by simp
  then show ?case by (auto split: option.splits if_splits)
qed simp

text \<open>
  With a test that is a strict weak order the result is beaten by nobody.
\<close>

locale strict_better =
  fixes better :: "'a \<Rightarrow> 'a \<Rightarrow> bool"
  assumes irrefl: "\<not> better x x"
    and trans: "better x y \<Longrightarrow> better y z \<Longrightarrow> better x z"
    and neg_trans: "\<not> better x y \<Longrightarrow> \<not> better y z \<Longrightarrow> \<not> better x z"
begin

lemma best_of_acc_unbeaten:
  "best_of better (Some a) xs = Some b \<Longrightarrow> \<not> better a b \<and> (\<forall>x\<in>set xs. \<not> better x b)"
proof (induction xs arbitrary: a)
  case Nil
  then show ?case by (simp add: irrefl)
next
  case (Cons x xs)
  show ?case
  proof (cases "better x a")
    case True
    with Cons.prems have *: "best_of better (Some x) xs = Some b" by simp
    note IH = Cons.IH [OF *]
    moreover have "\<not> better a b"
      using IH True trans irrefl by blast
    ultimately show ?thesis by simp
  next
    case False
    with Cons.prems have *: "best_of better (Some a) xs = Some b" by simp
    note IH = Cons.IH [OF *]
    moreover have "\<not> better x b"
      using IH False neg_trans by blast
    ultimately show ?thesis by simp
  qed
qed

lemma best_of_unbeaten:
  "best_of better None xs = Some b \<Longrightarrow> x \<in> set xs \<Longrightarrow> \<not> better x b"
  by (cases xs) (auto dest: best_of_acc_unbeaten)

text \<open>The winner is the first of its equals: nothing before it in the table ties with it.\<close>

lemma best_of_first:
  "best_of better (Some a) xs = Some b \<Longrightarrow>
   b = a \<or> (\<exists>ys zs. xs = ys @ b # zs \<and> better b a \<and> (\<forall>y\<in>set ys. better b y))"
proof (induction xs arbitrary: a)
  case Nil
  then show ?case by simp
next
  case (Cons x xs)
  show ?case
  proof (cases "better x a")
    case True
    with Cons.prems have "best_of better (Some x) xs = Some b" by simp
    from Cons.IH [OF this] show ?thesis
    proof
      assume "b = x"
      then show ?thesis using True by (metis append_Nil empty_iff empty_set)
    next
      assume "\<exists>ys zs. xs = ys @ b # zs \<and> better b x \<and> (\<forall>y\<in>set ys. better b y)"
      then obtain ys zs where "xs = ys @ b # zs" "better b x" "\<forall>y\<in>set ys. better b y" by blast
      with True have "x # xs = (x # ys) @ b # zs \<and> better b a \<and> (\<forall>y\<in>set (x # ys). better b y)"
        using trans by auto
      then show ?thesis by blast
    qed
  next
    case False
    with Cons.prems have "best_of better (Some a) xs = Some b" by simp
    from Cons.IH [OF this] show ?thesis
    proof
      assume "b = a"
      then show ?thesis ..
    next
      assume "\<exists>ys zs. xs = ys @ b # zs \<and> better b a \<and> (\<forall>y\<in>set ys. better b y)"
      then obtain ys zs where *: "xs = ys @ b # zs" "better b a" "\<forall>y\<in>set ys. better b y" by blast
      have "better b x" using * False neg_trans by blast
      with * have "x # xs = (x # ys) @ b # zs \<and> better b a \<and> (\<forall>y\<in>set (x # ys). better b y)"
        by auto
      then show ?thesis by blast
    qed
  qed
qed

lemma best_of_first_in:
  assumes "best_of better None xs = Some b"
  shows "\<exists>ys zs. xs = ys @ b # zs \<and> (\<forall>y\<in>set ys. better b y)"
proof (cases xs)
  case Nil
  with assms show ?thesis by simp
next
  case (Cons x xs')
  with assms have "best_of better (Some x) xs' = Some b" by simp
  from best_of_first [OF this] show ?thesis
  proof
    assume "b = x"
    then show ?thesis using Cons by (metis append_Nil empty_iff empty_set)
  next
    assume "\<exists>ys zs. xs' = ys @ b # zs \<and> better b x \<and> (\<forall>y\<in>set ys. better b y)"
    then obtain ys zs where "xs' = ys @ b # zs" "better b x" "\<forall>y\<in>set ys. better b y" by blast
    with Cons have "xs = (x # ys) @ b # zs \<and> (\<forall>y\<in>set (x # ys). better b y)" by auto
    then show ?thesis by blast
  qed
qed

end

text \<open>"Highest number first": the comparison of every priority search in the code.\<close>

interpretation by_key: strict_better "\<lambda>x y. f x > (f y :: 'b :: linorder)" for f
  by unfold_locales auto

lemma sum_list_map_update:
  "i < length xs \<Longrightarrow> sum_list (map f (xs[i := x])) + f (xs ! i) = sum_list (map f xs) + (f x :: nat)"
  by (induction xs arbitrary: i) (auto split: nat.splits)

lemma filter_index_update:
  "i < length xs \<Longrightarrow> \<not> P (xs ! i) \<Longrightarrow> \<not> P x \<Longrightarrow> filter P (xs[i := x]) = filter P xs"
  by (induction xs arbitrary: i) (auto split: nat.splits)

text \<open>A table scan for the first entry that passes a test.\<close>

fun find_index :: "('a \<Rightarrow> bool) \<Rightarrow> 'a list \<Rightarrow> nat option" where
  "find_index P [] = None"
| "find_index P (x # xs) = (if P x then Some 0 else map_option Suc (find_index P xs))"

lemma find_index_Some: "find_index P xs = Some i \<Longrightarrow> P (xs ! i) \<and> i < length xs"
  by (induction xs arbitrary: i) (auto split: if_splits)

lemma find_index_None: "find_index P xs = None \<longleftrightarrow> (\<forall>x\<in>set xs. \<not> P x)"
  by (induction xs) auto

end
