(* ===== verification/KHeap.thy ===== *)
theory KHeap
  imports Prelude
begin

text \<open>
  The kernel's own allocator (components/rv9_kernel/src/heap.c): block headers linked
  physically, first fit, splitting on allocation, coalescing both ways on free. The model
  keeps the headers in a memory from addresses to blocks, with the \<open>prev\<close> and \<open>next\<close>
  pointers the code stores; \<open>NULL\<close> is address 0. The abstract view is the list of blocks
  in address order, which \<open>heap_abs\<close> relates to the memory.
\<close>

section \<open>The blocks and the heap\<close>

definition sizeof_block :: nat where "sizeof_block = 16"
definition MIN_PAYLOAD :: nat where "MIN_PAYLOAD = 16"

record block =
  b_prev :: nat
  b_next :: nat
  b_size :: nat
  b_flags :: u32

record kheap =
  s_first :: nat
  s_total :: nat
  h_mem :: "nat \<rightharpoonup> block"

definition flag_used :: "u32 \<Rightarrow> bool" where
  "flag_used f \<longleftrightarrow> f AND 1 \<noteq> 0"

definition in_use :: "block \<Rightarrow> bool" where
  "in_use k \<longleftrightarrow> flag_used (b_flags k)"

text \<open>\<open>size_t\<close> is 32 bits on these cores: adding the mask may wrap.\<close>

definition align_up :: "nat \<Rightarrow> nat" where
  "align_up n = cast32 (n + 7) div 8 * 8"

definition set_prev :: "(nat \<rightharpoonup> block) \<Rightarrow> nat \<Rightarrow> nat \<Rightarrow> (nat \<rightharpoonup> block)" where
  "set_prev m a p = m(a := map_option (\<lambda>k. k\<lparr>b_prev := p\<rparr>) (m a))"

definition heap_init :: "nat \<Rightarrow> nat \<Rightarrow> kheap \<Rightarrow> kheap" where
  "heap_init base bytes h =
     (if base = 0 \<or> bytes < sizeof_block + MIN_PAYLOAD then h\<lparr>s_first := 0, s_total := 0\<rparr>
      else let start = align_up base;
               lost = cast32 (start + W32 - base)
           in if lost \<ge> bytes then h\<lparr>s_first := 0, s_total := 0\<rparr>
              else let bytes' = bytes - lost
                   in h\<lparr>s_first := start, s_total := bytes',
                        h_mem := (h_mem h)(start \<mapsto> \<lparr>b_prev = 0, b_next = 0,
                          b_size = bytes' - sizeof_block, b_flags = 0\<rparr>)\<rparr>)"

section \<open>Allocation\<close>

text \<open>What the loop does with the block it settles on: split if worth it, mark, hand over.\<close>

definition take_block :: "kheap \<Rightarrow> nat \<Rightarrow> nat \<Rightarrow> block \<Rightarrow> kheap" where
  "take_block h want b k =
     (let leftover = b_size k - want in
      if leftover \<ge> sizeof_block + MIN_PAYLOAD then
        let rest = b + sizeof_block + want;
            m1 = (h_mem h)(rest \<mapsto> \<lparr>b_prev = b, b_next = b_next k,
                                     b_size = leftover - sizeof_block, b_flags = 0\<rparr>);
            m2 = (if b_next k \<noteq> 0 then set_prev m1 (b_next k) rest else m1)
        in h\<lparr>h_mem := m2(b \<mapsto> k\<lparr>b_next := rest, b_size := want, b_flags := b_flags k OR 1\<rparr>)\<rparr>
      else h\<lparr>h_mem := (h_mem h)(b \<mapsto> k\<lparr>b_flags := b_flags k OR 1\<rparr>)\<rparr>)"

text \<open>
  The walk over \<open>next\<close>. \<open>None\<close> is a walk that leaves the blocks or never ends, which the
  code would not survive; \<open>Some (h, 0)\<close> is the code's NULL.
\<close>

partial_function (option) alloc_walk :: "kheap \<Rightarrow> nat \<Rightarrow> nat \<Rightarrow> (kheap \<times> nat) option" where
  "alloc_walk h want b =
     (if b = 0 then Some (h, 0)
      else case h_mem h b of
             None \<Rightarrow> None
           | Some k \<Rightarrow>
               if in_use k \<or> b_size k < want then alloc_walk h want (b_next k)
               else Some (take_block h want b k, b + sizeof_block))"

definition want_of :: "nat \<Rightarrow> nat" where
  "want_of bytes = (let w = align_up bytes in if w < MIN_PAYLOAD then MIN_PAYLOAD else w)"

definition kalloc :: "kheap \<Rightarrow> nat \<Rightarrow> (kheap \<times> nat) option" where
  "kalloc h bytes =
     (if bytes = 0 \<or> s_first h = 0 then Some (h, 0)
      else alloc_walk h (want_of bytes) (s_first h))"

text \<open>\<open>rv9k_calloc\<close>: the product is checked; the zeroing is of payload, outside the headers.\<close>

definition kcalloc :: "kheap \<Rightarrow> nat \<Rightarrow> nat \<Rightarrow> (kheap \<times> nat) option" where
  "kcalloc h count elt =
     (let total = cast32 (count * elt) in
      if count \<noteq> 0 \<and> total div count \<noteq> elt then Some (h, 0) else kalloc h total)"

section \<open>Freeing\<close>

definition merge_with_next :: "(nat \<rightharpoonup> block) \<Rightarrow> nat \<Rightarrow> (nat \<rightharpoonup> block)" where
  "merge_with_next m b =
     (case m b of
        None \<Rightarrow> m
      | Some k \<Rightarrow>
          (if b_next k = 0 then m
           else case m (b_next k) of
                  None \<Rightarrow> m
                | Some n \<Rightarrow>
                    if in_use n then m
                    else let m1 = m(b \<mapsto> k\<lparr>b_size := cast32 (b_size k + sizeof_block + b_size n),
                                            b_next := b_next n\<rparr>)
                         in if b_next n \<noteq> 0 then set_prev m1 (b_next n) b else m1))"

text \<open>\<open>None\<close>: the pointer is not one this heap's memory has a header for.\<close>

definition kfree :: "kheap \<Rightarrow> nat \<Rightarrow> kheap option" where
  "kfree h ptr =
     (if ptr = 0 then Some h
      else let b = ptr - sizeof_block in
           case h_mem h b of
             None \<Rightarrow> None
           | Some k \<Rightarrow>
               if \<not> in_use k then Some h
               else let m1 = (h_mem h)(b \<mapsto> k\<lparr>b_flags := b_flags k AND NOT 1\<rparr>);
                        m2 = merge_with_next m1 b;
                        m3 = (if b_prev k = 0 then m2
                              else case m2 (b_prev k) of
                                     None \<Rightarrow> m2
                                   | Some p \<Rightarrow> if in_use p then m2 else merge_with_next m2 (b_prev k))
                    in Some (h\<lparr>h_mem := m3\<rparr>))"

record heap_stats =
  hs_total :: nat
  hs_free_bytes :: nat
  hs_largest_free :: nat
  hs_blocks :: nat
  hs_free_blocks :: nat

partial_function (option) stats_walk :: "(nat \<rightharpoonup> block) \<Rightarrow> nat \<Rightarrow> heap_stats \<Rightarrow> heap_stats option" where
  "stats_walk m b st =
     (if b = 0 then Some st
      else case m b of
             None \<Rightarrow> None
           | Some k \<Rightarrow>
               stats_walk m (b_next k)
                 (if in_use k then st\<lparr>hs_blocks := hs_blocks st + 1\<rparr>
                  else st\<lparr>hs_blocks := hs_blocks st + 1,
                          hs_free_blocks := hs_free_blocks st + 1,
                          hs_free_bytes := hs_free_bytes st + b_size k,
                          hs_largest_free := max (hs_largest_free st) (b_size k)\<rparr>))"

definition heap_stats_of :: "kheap \<Rightarrow> heap_stats option" where
  "heap_stats_of h = stats_walk (h_mem h) (s_first h)
     \<lparr>hs_total = s_total h, hs_free_bytes = 0, hs_largest_free = 0, hs_blocks = 0,
      hs_free_blocks = 0\<rparr>"

section \<open>The abstract heap: blocks in address order\<close>

type_synonym ablk = "nat \<times> nat \<times> bool"   \<comment> \<open>address, payload size, in use\<close>

fun hdaddr :: "ablk list \<Rightarrow> nat" where
  "hdaddr [] = 0"
| "hdaddr (x # xs) = fst x"

fun links :: "(nat \<rightharpoonup> block) \<Rightarrow> nat \<Rightarrow> ablk list \<Rightarrow> bool" where
  "links m pr [] \<longleftrightarrow> True"
| "links m pr ((a, s, u) # bs) \<longleftrightarrow>
     a \<noteq> 0 \<and>
     (\<exists>k. m a = Some k \<and> b_prev k = pr \<and> b_next k = hdaddr bs \<and> b_size k = s \<and> in_use k = u) \<and>
     links m a bs"

fun tiles :: "nat \<Rightarrow> ablk list \<Rightarrow> nat \<Rightarrow> bool" where
  "tiles lo [] hi \<longleftrightarrow> lo = hi"
| "tiles lo ((a, s, u) # bs) hi \<longleftrightarrow> a = lo \<and> tiles (a + 16 + s) bs hi"

definition heap_abs :: "kheap \<Rightarrow> ablk list \<Rightarrow> bool" where
  "heap_abs h bs \<longleftrightarrow>
     bs \<noteq> [] \<and> s_first h = hdaddr bs \<and> links (h_mem h) 0 bs \<and>
     tiles (hdaddr bs) bs (hdaddr bs + s_total h) \<and> hdaddr bs + s_total h \<le> W32 \<and>
     (\<forall>x\<in>set bs. fst x mod 8 = 0)"

definition blk_free :: "ablk \<Rightarrow> bool" where
  "blk_free x \<longleftrightarrow> \<not> snd (snd x)"

definition coalesced :: "ablk list \<Rightarrow> bool" where
  "coalesced bs \<longleftrightarrow> successively (\<lambda>x y. \<not> (blk_free x \<and> blk_free y)) bs"

fun spec_alloc :: "nat \<Rightarrow> ablk list \<Rightarrow> ablk list \<times> nat" where
  "spec_alloc want [] = ([], 0)"
| "spec_alloc want ((a, s, u) # bs) =
     (if u \<or> s < want then
        let r = spec_alloc want bs in ((a, s, u) # fst r, snd r)
      else if s - want \<ge> 32 then
        ((a, want, True) # (a + 16 + want, s - want - 16, False) # bs, a + 16)
      else ((a, s, True) # bs, a + 16))"

fun join_next :: "ablk \<Rightarrow> ablk list \<Rightarrow> ablk list" where
  "join_next (a, s, u) ((a', s', False) # r) = (a, s + 16 + s', u) # r"
| "join_next x r = x # r"

fun join_at :: "nat \<Rightarrow> ablk list \<Rightarrow> ablk list" where
  "join_at b [] = []"
| "join_at b (x # bs) = (if fst x = b then join_next x bs else x # join_at b bs)"

definition set_free :: "nat \<Rightarrow> ablk list \<Rightarrow> ablk list" where
  "set_free b bs = map (\<lambda>x. if fst x = b then (fst x, fst (snd x), False) else x) bs"

fun prev_of :: "nat \<Rightarrow> ablk list \<Rightarrow> ablk option" where
  "prev_of b (x # y # bs) = (if fst y = b then Some x else prev_of b (y # bs))"
| "prev_of b _ = None"

definition spec_free :: "nat \<Rightarrow> ablk list \<Rightarrow> ablk list" where
  "spec_free b bs =
     (if \<exists>x\<in>set bs. fst x = b \<and> snd (snd x) then
        let bs1 = join_at b (set_free b bs) in
        case prev_of b bs of
          None \<Rightarrow> bs1
        | Some p \<Rightarrow> if blk_free p then join_at (fst p) bs1 else bs1
      else bs)"

section \<open>Facts of the two views\<close>

lemma flag_used_odd: "flag_used f \<longleftrightarrow> odd f"
  by (simp add: flag_used_def and_one_eq odd_iff_mod_2_eq_one)

lemma flag_set [simp]: "flag_used (f OR 1)"
  by (simp add: flag_used_odd even_or_iff)

lemma flag_clear [simp]: "\<not> flag_used (f AND NOT 1)" "\<not> flag_used (f AND - 2)"
  by (simp_all add: flag_used_odd even_and_iff)

lemma in_use_upd [simp]:
  "in_use (k\<lparr>b_flags := f\<rparr>) = flag_used f" "in_use (k\<lparr>b_next := n\<rparr>) = in_use k"
  "in_use (k\<lparr>b_size := z\<rparr>) = in_use k" "in_use (k\<lparr>b_prev := p\<rparr>) = in_use k"
  by (simp_all add: in_use_def)

lemma flag_zero [simp]: "\<not> flag_used 0"
  by (simp add: flag_used_odd)

lemma tiles_le: "tiles lo bs hi \<Longrightarrow> lo \<le> hi"
  by (induction lo bs hi rule: tiles.induct) auto

lemma tiles_bounds:
  "tiles lo bs hi \<Longrightarrow> x \<in> set bs \<Longrightarrow> lo \<le> fst x \<and> fst x + 16 + fst (snd x) \<le> hi"
proof (induction lo bs hi rule: tiles.induct)
  case (2 lo a s u bs hi)
  then have a: "a = lo" and t: "tiles (a + 16 + s) bs hi" by auto
  show ?case
  proof (cases "x = (a, s, u)")
    case True
    then show ?thesis using a tiles_le [OF t] by simp
  next
    case False
    with "2.prems" have "x \<in> set bs" by simp
    with "2.IH" [OF t this] a show ?thesis by simp
  qed
qed simp

lemma tiles_append: "tiles lo (xs @ ys) hi \<longleftrightarrow> (\<exists>mid. tiles lo xs mid \<and> tiles mid ys hi)"
  by (induction lo xs hi rule: tiles.induct) auto

lemma tiles_distinct: "tiles lo bs hi \<Longrightarrow> distinct (map fst bs)"
proof (induction lo bs hi rule: tiles.induct)
  case (2 lo a s u bs hi)
  then have t: "tiles (a + 16 + s) bs hi" by auto
  have "a \<notin> fst ` set bs"
  proof
    assume "a \<in> fst ` set bs"
    then obtain x where "x \<in> set bs" "fst x = a" by auto
    with tiles_bounds [OF t] show False by fastforce
  qed
  with "2.IH" [OF t] show ?case by simp
qed simp

lemma links_frame:
  "links m pr bs \<Longrightarrow> (\<And>a. a \<in> fst ` set bs \<Longrightarrow> m' a = m a) \<Longrightarrow> links m' pr bs"
  by (induction m pr bs rule: links.induct) auto

lemma hdaddr_links: "links m pr bs \<Longrightarrow> bs \<noteq> [] \<Longrightarrow> hdaddr bs \<noteq> 0"
  by (cases bs) auto

lemma hdaddr_in: "bs \<noteq> [] \<Longrightarrow> hdaddr bs \<in> fst ` set bs"
  by (cases bs) auto

lemma set_prev_other [simp]: "a \<noteq> b \<Longrightarrow> set_prev m b p a = m a"
  by (simp add: set_prev_def)

lemma set_prev_same: "set_prev m b p b = map_option (\<lambda>k. k\<lparr>b_prev := p\<rparr>) (m b)"
  by (simp add: set_prev_def)

lemma links_set_prev:
  assumes "links m pr bs" "distinct (map fst bs)" "bs \<noteq> []"
  shows "links (set_prev m (hdaddr bs) p) p bs"
proof (cases bs)
  case Nil
  with assms show ?thesis by simp
next
  case (Cons x r)
  obtain a s u where x: "x = (a, s, u)" by (cases x) auto
  have "links (set_prev m a p) a r"
    using assms Cons x by (rule_tac links_frame [of m a r]) (auto simp: set_prev_def image_iff)
  moreover obtain k where "m a = Some k" "b_next k = hdaddr r" "b_size k = s" "in_use k = u" "a \<noteq> 0"
    using assms(1) Cons x by auto
  ultimately show ?thesis using Cons x by (simp add: set_prev_same in_use_def)
qed

lemma links_relink:
  assumes "links m pr bs" "distinct (map fst bs)"
  shows "links (if hdaddr bs \<noteq> 0 then set_prev m (hdaddr bs) p else m) p bs"
proof (cases "bs = []")
  case False
  with links_set_prev [OF assms this, of p] hdaddr_links [OF assms(1) this] show ?thesis by simp
qed simp


section \<open>Allocation refines first fit on the block list\<close>

lemma take_block_links:
  assumes l: "links m pr ((a, s, u) # bs)" and d: "distinct (map fst ((a, s, u) # bs))"
    and k: "m a = Some k" and s: "want \<le> s"
    and rest: "s - want \<ge> 32 \<Longrightarrow> a + 16 + want \<notin> fst ` set ((a, s, u) # bs)"
    and h: "h_mem h = m"
  shows "links (h_mem (take_block h want a k)) pr
           (if s - want \<ge> 32 then (a, want, True) # (a + 16 + want, s - want - 16, False) # bs
            else (a, s, True) # bs)"
proof -
  from l k have k': "b_prev k = pr" "b_next k = hdaddr bs" "b_size k = s" and a0: "a \<noteq> 0"
    and lb: "links m a bs" by auto
  show ?thesis
  proof (cases "s - want \<ge> 32")
    case False
    have "links (m(a \<mapsto> k\<lparr>b_flags := b_flags k OR 1\<rparr>)) a bs"
      by (rule links_frame [OF lb]) (use d in auto)
    with False a0 k' h show ?thesis
      by (simp add: take_block_def sizeof_block_def MIN_PAYLOAD_def Let_def)
  next
    case True
    let ?r = "a + 16 + want"
    let ?m1 = "m(?r \<mapsto> \<lparr>b_prev = a, b_next = hdaddr bs, b_size = s - want - 16, b_flags = 0\<rparr>)"
    let ?m2 = "if hdaddr bs \<noteq> 0 then set_prev ?m1 (hdaddr bs) ?r else ?m1"
    let ?m3 = "?m2(a \<mapsto> k\<lparr>b_next := ?r, b_size := want, b_flags := b_flags k OR 1\<rparr>)"
    from rest [OF True] have r: "?r \<notin> fst ` set bs" "?r \<noteq> a" by auto
    have "links ?m1 a bs" by (rule links_frame [OF lb]) (use r(1) in force)
    then have "links ?m2 ?r bs" by (rule links_relink) (use d in auto)
    then have l3: "links ?m3 ?r bs" by (rule links_frame) (use d in auto)
    have "hdaddr bs \<noteq> ?r"
    proof (cases "bs = []")
      case False
      then show ?thesis using r(1) hdaddr_in [of bs] by metis
    qed simp
    then have "?m3 ?r = ?m1 ?r" using r by auto
    with l3 True a0 k' h show ?thesis
      by (cases "hdaddr bs = 0")
         (simp_all add: take_block_def sizeof_block_def MIN_PAYLOAD_def Let_def in_use_def)
  qed
qed

lemma spec_alloc_hd: "bs \<noteq> [] \<Longrightarrow> hdaddr (fst (spec_alloc want bs)) = hdaddr bs"
  by (cases bs) (auto simp: Let_def)

lemma split_not_in:
  assumes "tiles lo ((a, s, u) # bs) hi" "s - want \<ge> 32"
  shows "a + 16 + want \<notin> fst ` set ((a, s, u) # bs)"
proof -
  from assms have "tiles (a + 16 + s) bs hi" by auto
  then have "\<And>x. x \<in> set bs \<Longrightarrow> a + 16 + s \<le> fst x" using tiles_bounds by blast
  with assms(2) show ?thesis by fastforce
qed

lemma alloc_walk_refines:
  assumes "links (h_mem h) pr bs" "tiles lo bs hi"
  shows "\<exists>h'. alloc_walk h want (hdaddr bs) = Some (h', snd (spec_alloc want bs)) \<and>
              s_first h' = s_first h \<and> s_total h' = s_total h \<and>
              links (h_mem h') pr (fst (spec_alloc want bs)) \<and>
              (\<forall>a. (\<forall>x\<in>set bs. a < fst x \<or> fst x + 16 + fst (snd x) \<le> a) \<longrightarrow> h_mem h' a = h_mem h a)"
  using assms
proof (induction bs arbitrary: pr lo)
  case Nil
  then show ?case by (simp add: alloc_walk.simps)
next
  case (Cons x bs)
  obtain a s u where x: "x = (a, s, u)" by (cases x) auto
  from Cons.prems x obtain k where m: "h_mem h a = Some k" and k: "b_prev k = pr" "b_next k = hdaddr bs" "b_size k = s"
      "in_use k = u" and a0: "a \<noteq> 0" and lb: "links (h_mem h) a bs" by auto
  from Cons.prems(2) x have t: "tiles (a + 16 + s) bs hi" by auto
  show ?case
  proof (cases "u \<or> s < want")
    case True
    from Cons.IH [OF lb t] obtain h' where h': "alloc_walk h want (hdaddr bs) = Some (h', snd (spec_alloc want bs))"
      "s_first h' = s_first h" "s_total h' = s_total h" "links (h_mem h') a (fst (spec_alloc want bs))"
      and fr: "\<And>c. (\<forall>x\<in>set bs. c < fst x \<or> fst x + 16 + fst (snd x) \<le> c) \<Longrightarrow> h_mem h' c = h_mem h c" by blast
    have "h_mem h' a = h_mem h a" using tiles_bounds [OF t] by (intro fr) fastforce
    moreover have "alloc_walk h want a = alloc_walk h want (hdaddr bs)"
      using m k a0 True by (subst alloc_walk.simps) auto
    moreover have "hdaddr (fst (spec_alloc want bs)) = hdaddr bs"
      by (cases "bs = []") (auto simp: spec_alloc_hd)
    ultimately show ?thesis using h' fr m k a0 True x by (auto simp: Let_def)
  next
    case False
    have "alloc_walk h want a = Some (take_block h want a k, a + 16)"
      using m k a0 False by (subst alloc_walk.simps) (auto simp: sizeof_block_def)
    moreover have "links (h_mem (take_block h want a k)) pr (fst (spec_alloc want (x # bs)))"
      using take_block_links [of "h_mem h" pr a s u bs k want h] Cons.prems x m False
        tiles_distinct [OF Cons.prems(2)] split_not_in [of lo a s u bs hi want] by auto
    moreover have "h_mem (take_block h want a k) c = h_mem h c"
      if "\<forall>y\<in>set (x # bs). c < fst y \<or> fst y + 16 + fst (snd y) \<le> c" for c
    proof -
      from that x have "c \<noteq> a" "\<not> (a \<le> c \<and> c < a + 16 + s)" by auto
      moreover have "c \<noteq> hdaddr bs \<or> bs = []" using that by (cases bs) auto
      ultimately show ?thesis using False k
        by (cases "bs = []") (auto simp: take_block_def sizeof_block_def MIN_PAYLOAD_def Let_def)
    qed
    moreover have "s_first (take_block h want a k) = s_first h" "s_total (take_block h want a k) = s_total h"
      by (simp_all add: take_block_def Let_def)
    ultimately show ?thesis using False x by auto
  qed
qed


section \<open>Freeing refines clear, join with the next, join with the previous\<close>

lemma cast_size: "tiles lo ((a, s, u) # (a', s', u') # r) hi \<Longrightarrow> lo > 0 \<Longrightarrow> hi \<le> W32 \<Longrightarrow> s + 16 + s' < W32"
  using tiles_bounds [of lo "(a, s, u) # (a', s', u') # r" hi "(a', s', u')"] by auto

lemma join_at_hd: "hdaddr (join_at b bs) = hdaddr bs"
proof (cases bs)
  case (Cons x r)
  then show ?thesis by (cases "(x, r)" rule: join_next.cases) auto
qed simp

lemma merge_other:
  assumes "links m pr bs" "b \<in> fst ` set bs" "c \<notin> fst ` set bs"
  shows "merge_with_next m b c = m c"
  using assms
proof (induction bs arbitrary: pr)
  case (Cons x r)
  obtain a s u where x: "x = (a, s, u)" by (cases x) auto
  show ?case
  proof (cases "b = a")
    case False
    with Cons x show ?thesis by auto
  next
    case True
    from Cons.prems x obtain k where k: "m a = Some k" "b_next k = hdaddr r" and lr: "links m a r" by auto
    show ?thesis
    proof (cases r)
      case Nil
      with True k show ?thesis by (simp add: merge_with_next_def)
    next
      case (Cons y r')
      obtain a' s' u' where y: "y = (a', s', u')" by (cases y) auto
      from lr Cons y obtain n where n: "m a' = Some n" "b_next n = hdaddr r'" by auto
      have "hdaddr r' \<noteq> 0 \<Longrightarrow> c \<noteq> hdaddr r'"
        using Cons.prems Cons x y by (cases r') auto
      with True k n Cons y Cons.prems x show ?thesis
        by (auto simp: merge_with_next_def Let_def)
    qed
  qed
qed simp

lemma merge_links:
  assumes "links m pr bs" "tiles lo bs hi" "lo > 0" "hi \<le> W32"
  shows "links (merge_with_next m b) pr (if b \<in> fst ` set bs then join_at b bs else bs) \<or> b \<notin> fst ` set bs"
  using assms
proof (induction bs arbitrary: pr lo)
  case (Cons x r)
  obtain a s u where x: "x = (a, s, u)" by (cases x) auto
  from Cons.prems x obtain k where k: "m a = Some k" "b_prev k = pr" "b_next k = hdaddr r" "b_size k = s"
      "in_use k = u" and a0: "a \<noteq> 0" and lr: "links m a r" by auto
  from Cons.prems x have t: "tiles (a + 16 + s) r hi" by auto
  have d: "distinct (map fst (x # r))" using Cons.prems tiles_distinct by blast
  show ?case
  proof (cases "b = a")
    case False
    show ?thesis
    proof (cases "b \<in> fst ` set r")
      case True
      with Cons.IH [OF lr t] Cons.prems have "links (merge_with_next m b) a (join_at b r)" by auto
      moreover have "merge_with_next m b a = m a"
        by (rule merge_other [OF lr True]) (use d x in auto)
      ultimately show ?thesis using False True x k a0 by (auto simp: join_at_hd)
    qed (use False x in auto)
  next
    case True
    show ?thesis
    proof (cases r)
      case Nil
      with True k x a0 show ?thesis by (auto simp: merge_with_next_def)
    next
      case r: (Cons y r')
      obtain a' s' u' where y: "y = (a', s', u')" by (cases y) auto
      from lr r y obtain n where n: "m a' = Some n" "b_next n = hdaddr r'" "b_size n = s'" "in_use n = u'"
        and a0': "a' \<noteq> 0" and lr': "links m a' r'" by auto
      show ?thesis
      proof (cases u')
        case True
        with \<open>b = a\<close> k n r y x a0 a0' lr lr' show ?thesis by (auto simp: merge_with_next_def)
      next
        case False
        let ?m1 = "m(a \<mapsto> k\<lparr>b_size := s + 16 + s', b_next := hdaddr r'\<rparr>)"
        let ?m2 = "if hdaddr r' \<noteq> 0 then set_prev ?m1 (hdaddr r') a else ?m1"
        have c: "cast32 (s + 16 + s') = s + 16 + s'"
          using cast_size [of lo a s u a' s' u' r' hi] Cons.prems x y r by (intro cast32_small) blast
        have m2: "merge_with_next m b = ?m2"
          using \<open>b = a\<close> k n r y False a0' c by (simp add: merge_with_next_def sizeof_block_def)
        have "links ?m1 a' r'" by (rule links_frame [OF lr']) (use d x r in auto)
        then have "links ?m2 a r'" by (rule links_relink) (use d r in auto)
        moreover have "?m2 a = ?m1 a" using d x r y by (cases r') auto
        ultimately show ?thesis using \<open>b = a\<close> m2 x r y False a0 k by (simp add: in_use_def)
      qed
    qed
  qed
qed simp

lemma clear_links:
  assumes "links m pr bs" "distinct (map fst bs)" "m b = Some k"
  shows "links (m(b \<mapsto> k\<lparr>b_flags := b_flags k AND NOT 1\<rparr>)) pr (set_free b bs)"
  using assms
proof (induction bs arbitrary: pr)
  case (Cons x r)
  have "hdaddr (set_free b r) = hdaddr r" by (cases r) (auto simp: set_free_def)
  with Cons show ?case by (cases x) (auto simp: set_free_def)
qed (simp add: set_free_def)

lemma prev_of_absent: "b \<notin> fst ` set (tl bs) \<Longrightarrow> prev_of b bs = None"
  by (induction b bs rule: prev_of.induct) auto

lemma prev_of_links:
  assumes "links m pr bs" "distinct (map fst bs)" "b \<in> fst ` set bs" "m b = Some k"
  shows "b_prev k = (case prev_of b bs of None \<Rightarrow> pr | Some p \<Rightarrow> fst p) \<and> (prev_of b bs = None \<longleftrightarrow> b = hdaddr bs)"
  using assms
proof (induction b bs arbitrary: pr rule: prev_of.induct)
  case (1 b x y bs)
  obtain a s u where x: "x = (a, s, u)" by (cases x) auto
  from "1.prems" x obtain kx where kx: "m a = Some kx" "b_prev kx = pr" and l: "links m a (y # bs)" by auto
  show ?case
  proof (cases "b = a")
    case True
    with "1.prems" x have "prev_of b (x # y # bs) = None" by (intro prev_of_absent) auto
    with True kx "1.prems" x show ?thesis by simp
  next
    case b: False
    show ?thesis
    proof (cases "fst y = b")
      case True
      with l "1.prems" x b show ?thesis by (cases y) auto
    next
      case False
      with "1.IH" [OF False l] "1.prems" b x show ?thesis by (cases y) auto
    qed
  qed
qed auto

lemma prev_of_in: "prev_of b bs = Some p \<Longrightarrow> p \<in> set bs"
  by (induction b bs rule: prev_of.induct) (auto split: if_splits)

lemma links_lookup: "links m pr bs \<Longrightarrow> x \<in> set bs \<Longrightarrow>
  fst x \<noteq> 0 \<and> (\<exists>k. m (fst x) = Some k \<and> b_size k = fst (snd x) \<and> in_use k = snd (snd x))"
  by (induction m pr bs rule: links.induct) auto

lemma set_free_addrs [simp]: "map fst (set_free b bs) = map fst bs" "fst ` set (set_free b bs) = fst ` set bs"
proof -
  show *: "map fst (set_free b bs) = map fst bs" by (simp add: set_free_def)
  show "fst ` set (set_free b bs) = fst ` set bs" using arg_cong [OF *, of set] by simp
qed

lemma tiles_set_free: "tiles lo (set_free b bs) hi = tiles lo bs hi"
  by (induction lo bs hi rule: tiles.induct) (auto simp: set_free_def)

lemma tiles_join_at: "tiles lo bs hi \<Longrightarrow> tiles lo (join_at b bs) hi"
proof (induction lo bs hi rule: tiles.induct)
  case (2 lo a s u bs hi)
  then show ?case by (cases "((a, s, u), bs)" rule: join_next.cases) (auto simp: ac_simps)
qed simp

lemma join_at_free_mem:
  "distinct (map fst bs) \<Longrightarrow> x \<in> set bs \<Longrightarrow> prev_of b bs = Some x \<Longrightarrow>
   \<exists>y\<in>set (join_at b (set_free b bs)). fst y = fst x \<and> snd (snd y) = snd (snd x)"
proof (induction b bs rule: prev_of.induct)
  case (1 b z y bs)
  show ?case
  proof (cases "fst y = b")
    case True
    with 1 have "z = x" "fst z \<noteq> b" by auto
    with True show ?thesis by (auto simp: set_free_def)
  next
    case False
    with 1 have p: "prev_of b (y # bs) = Some x" by simp
    then have "x \<in> set (y # bs)" by (rule prev_of_in)
    with "1.IH" [OF False _ this p] "1.prems" obtain w where
      w: "w \<in> set (join_at b (set_free b (y # bs)))" "fst w = fst x" "snd (snd w) = snd (snd x)" by auto
    show ?thesis
    proof (cases "fst z = b")
      case False
      with w show ?thesis by (auto simp: set_free_def)
    next
      case True
      with "1.prems" have "b \<notin> fst ` set (y # bs)" by auto
      then have "prev_of b (y # bs) = None" by (intro prev_of_absent) auto
      with p show ?thesis by simp
    qed
  qed
qed auto


section \<open>The two refinements on whole heaps\<close>

lemma align_up_mod: "align_up n mod 8 = 0"
  by (simp add: align_up_def)

lemma align_up_ge: "n + 7 < W32 \<Longrightarrow> n \<le> align_up n"
  by (simp add: align_up_def) 

lemma want_of_mod: "want_of n mod 8 = 0" and want_of_ge: "n + 7 < W32 \<Longrightarrow> n \<le> want_of n"
  using align_up_mod [of n] align_up_ge [of n] by (auto simp: want_of_def MIN_PAYLOAD_def Let_def)

lemma want_of_wraps:
  assumes "n < W32" "\<not> n + 7 < W32"
  shows "want_of n = 16"
proof -
  have "(n + 7) mod W32 = (n + 7 - W32) mod W32" using assms(2) by (simp add: mod_if)
  also have "\<dots> \<le> n + 7 - W32" by simp
  finally have "cast32 (n + 7) < 8" using assms(1) by (simp add: cast32_def)
  then show ?thesis by (simp add: want_of_def align_up_def MIN_PAYLOAD_def)
qed

lemma spec_alloc_tiles: "tiles lo bs hi \<Longrightarrow> tiles lo (fst (spec_alloc want bs)) hi"
  by (induction lo bs hi rule: tiles.induct) (auto simp: Let_def ac_simps)

lemma spec_alloc_aligned:
  "want mod 8 = 0 \<Longrightarrow> \<forall>x\<in>set bs. fst x mod 8 = 0 \<Longrightarrow> \<forall>x\<in>set (fst (spec_alloc want bs)). fst x mod 8 = 0"
proof (induction bs)
  case (Cons x bs)
  have "(fst x + 16 + want) mod 8 = 0"
    using Cons.prems by (simp add: mod_add_eq [symmetric])
  with Cons show ?case by (cases x) (auto simp: Let_def)
qed simp

lemma heap_abs_tiles: "heap_abs h bs \<Longrightarrow> tiles (hdaddr bs) bs (hdaddr bs + s_total h)"
  and heap_abs_links: "heap_abs h bs \<Longrightarrow> links (h_mem h) 0 bs"
  by (simp_all add: heap_abs_def)

lemma heap_abs_distinct: "heap_abs h bs \<Longrightarrow> distinct (map fst bs)"
  using heap_abs_tiles tiles_distinct by blast

lemma heap_abs_pos: "heap_abs h bs \<Longrightarrow> 0 < hdaddr bs"
  using hdaddr_links heap_abs_links by (fastforce simp: heap_abs_def)

lemma kalloc_refine:
  assumes "heap_abs h bs" "bytes \<noteq> 0"
  shows "\<exists>h'. kalloc h bytes = Some (h', snd (spec_alloc (want_of bytes) bs)) \<and>
              heap_abs h' (fst (spec_alloc (want_of bytes) bs))"
proof -
  let ?r = "spec_alloc (want_of bytes) bs"
  from alloc_walk_refines [OF heap_abs_links heap_abs_tiles, OF assms(1) assms(1), of "want_of bytes"]
  obtain h' where h': "alloc_walk h (want_of bytes) (hdaddr bs) = Some (h', snd ?r)"
    "s_first h' = s_first h" "s_total h' = s_total h" "links (h_mem h') 0 (fst ?r)" by blast
  have "s_first h \<noteq> 0" using assms(1) heap_abs_pos [OF assms(1)] by (simp add: heap_abs_def)
  then have "kalloc h bytes = Some (h', snd ?r)"
    using h'(1) assms by (simp add: kalloc_def heap_abs_def)
  moreover have "heap_abs h' (fst ?r)"
  proof -
    from assms(1) have ne: "bs \<noteq> []" and a: "\<forall>x\<in>set bs. fst x mod 8 = 0" by (simp_all add: heap_abs_def)
    have hd: "hdaddr (fst ?r) = hdaddr bs" by (rule spec_alloc_hd [OF ne])
    moreover have "fst ?r \<noteq> []" using hd heap_abs_pos [OF assms(1)] by auto
    ultimately show ?thesis
      using assms(1) h' spec_alloc_tiles [OF heap_abs_tiles [OF assms(1)], of "want_of bytes"]
        spec_alloc_aligned [OF want_of_mod a, of bytes]
      unfolding heap_abs_def by simp
  qed
  ultimately show ?thesis by blast
qed

lemma join_next_subset: "fst ` set (join_next x r) \<subseteq> insert (fst x) (fst ` set r)"
  by (cases "(x, r)" rule: join_next.cases) auto

lemma join_at_subset: "fst ` set (join_at b bs) \<subseteq> fst ` set bs"
proof (induction bs)
  case (Cons x bs)
  then show ?case using join_next_subset [of x bs] by (cases "fst x = b") auto
qed simp

lemma spec_free_tiles: "tiles lo bs hi \<Longrightarrow> tiles lo (spec_free b bs) hi"
  by (auto simp: spec_free_def Let_def tiles_set_free tiles_join_at split: option.splits)

lemma spec_free_subset: "fst ` set (spec_free b bs) \<subseteq> fst ` set bs"
proof -
  have 1: "fst ` set (join_at b (set_free b bs)) \<subseteq> fst ` set bs"
    using join_at_subset [of b "set_free b bs"] by simp
  have "fst ` set (join_at c (join_at b (set_free b bs))) \<subseteq> fst ` set bs" for c
    using join_at_subset [of c "join_at b (set_free b bs)"] 1 by (rule order_trans)
  with 1 show ?thesis by (simp add: spec_free_def Let_def split: option.split)
qed

lemma set_free_hd [simp]: "hdaddr (set_free b bs) = hdaddr bs"
  by (cases bs) (auto simp: set_free_def)

lemma spec_free_hd: "hdaddr (spec_free b bs) = hdaddr bs"
  by (auto simp: spec_free_def Let_def join_at_hd split: option.splits)

lemma kfree_refine:
  assumes h: "heap_abs h bs" and x: "(b, s, True) \<in> set bs"
  shows "\<exists>h'. kfree h (b + 16) = Some h' \<and> heap_abs h' (spec_free b bs)"
proof -
  note l = heap_abs_links [OF h] and t = heap_abs_tiles [OF h] and d = heap_abs_distinct [OF h]
  have hi: "hdaddr bs + s_total h \<le> W32" using h by (simp add: heap_abs_def)
  have bin: "b \<in> fst ` set bs" using x by force
  from links_lookup [OF l x] obtain k where k: "h_mem h b = Some k" "in_use k" by auto
  let ?m1 = "(h_mem h)(b \<mapsto> k\<lparr>b_flags := b_flags k AND NOT 1\<rparr>)"
  let ?m2 = "merge_with_next ?m1 b"
  let ?b1 = "join_at b (set_free b bs)"
  have "links ?m1 0 (set_free b bs)" by (rule clear_links [OF l d k(1)])
  from merge_links [OF this, of "hdaddr bs" "hdaddr bs + s_total h" b]
  have l2: "links ?m2 0 ?b1"
    using t hi heap_abs_pos [OF h] bin by (simp add: tiles_set_free)
  have t2: "tiles (hdaddr bs) ?b1 (hdaddr bs + s_total h)"
    using t by (simp add: tiles_set_free tiles_join_at)
  from prev_of_links [OF l d bin k(1)]
  have p: "b_prev k = (case prev_of b bs of None \<Rightarrow> 0 | Some p \<Rightarrow> fst p)" by simp
  let ?m3 = "if b_prev k = 0 then ?m2 else case ?m2 (b_prev k) of None \<Rightarrow> ?m2
             | Some q \<Rightarrow> if in_use q then ?m2 else merge_with_next ?m2 (b_prev k)"
  have "kfree h (b + 16) = Some (h\<lparr>h_mem := ?m3\<rparr>)"
    using k by (auto simp: kfree_def sizeof_block_def Let_def split: option.split)
  moreover have "links ?m3 0 (spec_free b bs)"
  proof (cases "prev_of b bs")
    case None
    with p l2 x show ?thesis by (force simp: spec_free_def)
  next
    case (Some q)
    from join_at_free_mem [OF d prev_of_in [OF Some] Some] obtain y where
      y: "y \<in> set ?b1" "fst y = fst q" "snd (snd y) = snd (snd q)" by blast
    from links_lookup [OF l2 y(1)] y obtain ky where
      ky: "?m2 (fst q) = Some ky" "in_use ky = snd (snd q)" "fst q \<noteq> 0" by auto
    have "fst q \<in> fst ` set ?b1" using y(1,2) by (metis image_eqI)
    with merge_links [OF l2 t2, of "fst q"] hi heap_abs_pos [OF h]
    have "links (merge_with_next ?m2 (fst q)) 0 (join_at (fst q) ?b1)" by simp
    with p Some ky l2 x show ?thesis by (force simp: spec_free_def blk_free_def Let_def)
  qed
  moreover have "spec_free b bs \<noteq> []"
    using spec_free_hd [of b bs] heap_abs_pos [OF h] by auto
  ultimately show ?thesis
    using h spec_free_tiles [OF t, of b] spec_free_subset [of b bs] spec_free_hd [of b bs]
    by (fastforce simp: heap_abs_def)
qed

section \<open>The blocks of a heap, read back\<close>

partial_function (option) blocks_walk :: "(nat \<rightharpoonup> block) \<Rightarrow> nat \<Rightarrow> ablk list option" where
  "blocks_walk m b =
     (if b = 0 then Some []
      else case m b of
             None \<Rightarrow> None
           | Some k \<Rightarrow> Option.bind (blocks_walk m (b_next k)) (\<lambda>r. Some ((b, b_size k, in_use k) # r)))"

definition blocks_of :: "kheap \<Rightarrow> ablk list option" where
  "blocks_of h = blocks_walk (h_mem h) (s_first h)"

lemma blocks_walk_links: "links m pr bs \<Longrightarrow> blocks_walk m (hdaddr bs) = Some bs"
proof (induction m pr bs rule: links.induct)
  case (1 m pr)
  show ?case by (simp add: blocks_walk.simps)
next
  case (2 m pr a s u bs)
  then show ?case by (subst blocks_walk.simps) auto
qed

lemma blocks_of_abs: "heap_abs h bs \<Longrightarrow> blocks_of h = Some bs"
  using blocks_walk_links [OF heap_abs_links] by (simp add: blocks_of_def heap_abs_def)

definition live :: "kheap \<Rightarrow> (nat \<times> nat) set" where
  "live h = (case blocks_of h of None \<Rightarrow> {}
             | Some bs \<Rightarrow> (\<lambda>x. (fst x + 16, fst (snd x))) ` {x \<in> set bs. snd (snd x)})"

lemma live_abs: "heap_abs h bs \<Longrightarrow> (p, s) \<in> live h \<longleftrightarrow> 16 \<le> p \<and> (p - 16, s, True) \<in> set bs"
  by (force simp: live_def blocks_of_abs image_iff)

text \<open>What every reachable heap satisfies: laid out end to end, no two free blocks adjacent.\<close>

definition heap_ok :: "kheap \<Rightarrow> bool" where
  "heap_ok h \<longleftrightarrow> (\<exists>bs. heap_abs h bs \<and> coalesced bs)"

section \<open>First fit on the list\<close>

lemma spec_alloc_zero:
  "\<forall>x\<in>set bs. fst x \<noteq> 0 \<Longrightarrow> snd (spec_alloc want bs) = 0 \<longleftrightarrow> (\<forall>x\<in>set bs. snd (snd x) \<or> fst (snd x) < want)"
  by (induction bs) (auto simp: Let_def split: if_splits)

lemma spec_alloc_none:
  "\<forall>x\<in>set bs. snd (snd x) \<or> fst (snd x) < want \<Longrightarrow> fst (spec_alloc want bs) = bs"
  by (induction bs) (auto simp: Let_def)

text \<open>
  The one description the properties use: the list splits at the first block that fits,
  and only that block changes.
\<close>

lemma spec_alloc_split:
  assumes "snd (spec_alloc want bs) \<noteq> 0"
  shows "\<exists>xs a s ys. bs = xs @ (a, s, False) # ys \<and> want \<le> s \<and> snd (spec_alloc want bs) = a + 16 \<and>
           (\<forall>x\<in>set xs. snd (snd x) \<or> fst (snd x) < want) \<and>
           fst (spec_alloc want bs) =
             xs @ (if s - want \<ge> 32 then (a, want, True) # (a + 16 + want, s - want - 16, False) # ys
                   else (a, s, True) # ys)"
  using assms
proof (induction bs)
  case Nil
  then show ?case by simp
next
  case (Cons x bs)
  obtain a s u where x: "x = (a, s, u)" by (cases x) auto
  show ?case
  proof (cases "u \<or> s < want")
    case True
    with Cons.prems x have "snd (spec_alloc want bs) \<noteq> 0" by (simp add: Let_def)
    from Cons.IH [OF this] obtain xs a' s' ys where
      IH: "bs = xs @ (a', s', False) # ys" "want \<le> s'" "snd (spec_alloc want bs) = a' + 16"
      "\<forall>x\<in>set xs. snd (snd x) \<or> fst (snd x) < want"
      "fst (spec_alloc want bs) =
         xs @ (if s' - want \<ge> 32 then (a', want, True) # (a' + 16 + want, s' - want - 16, False) # ys
               else (a', s', True) # ys)" by blast
    show ?thesis
      by (rule exI [of _ "x # xs"], rule exI [of _ a'], rule exI [of _ s'], rule exI [of _ ys])
         (use IH True x in \<open>simp add: Let_def\<close>)
  next
    case False
    with x show ?thesis
      by (intro exI [of _ "[]"] exI [of _ a] exI [of _ s] exI [of _ bs]) simp
  qed
qed

lemma coalesced_simps [simp]:
  "coalesced []" "coalesced [x]"
  "coalesced (x # y # r) \<longleftrightarrow> \<not> (blk_free x \<and> blk_free y) \<and> coalesced (y # r)"
  by (simp_all add: coalesced_def)

lemma blk_free_simps [simp]: "blk_free (a, s, u) = (\<not> u)"
  by (simp add: blk_free_def)

lemma coalesced_append:
  "coalesced (xs @ ys) \<longleftrightarrow> coalesced xs \<and> coalesced ys \<and>
     (xs = [] \<or> ys = [] \<or> \<not> (blk_free (last xs) \<and> blk_free (hd ys)))"
  by (auto simp: coalesced_def successively_append_iff)

lemma coalesced_Cons:
  "coalesced (x # ys) \<longleftrightarrow> coalesced ys \<and> (ys = [] \<or> \<not> (blk_free x \<and> blk_free (hd ys)))"
  by (cases ys) auto

lemma spec_alloc_coalesced: "coalesced bs \<Longrightarrow> coalesced (fst (spec_alloc want bs))"
proof (cases "snd (spec_alloc want bs) = 0")
  case True
  assume c: "coalesced bs"
  have "fst (spec_alloc want bs) = bs \<or> snd (spec_alloc want bs) \<noteq> 0"
    by (induction bs) (auto simp: Let_def split: if_splits)
  with True c show ?thesis by auto
next
  case False
  assume c: "coalesced bs"
  from spec_alloc_split [OF False] obtain xs a s ys where
    *: "bs = xs @ (a, s, False) # ys"
    "fst (spec_alloc want bs) =
       xs @ (if s - want \<ge> 32 then (a, want, True) # (a + 16 + want, s - want - 16, False) # ys
             else (a, s, True) # ys)" by blast
  from c * show ?thesis by (auto simp: coalesced_append coalesced_Cons)
qed

section \<open>Freeing, as a split\<close>

lemma set_free_split:
  "distinct (map fst (xs @ (b, s, u) # ys)) \<Longrightarrow> set_free b (xs @ (b, s, u) # ys) = xs @ (b, s, False) # ys"
  by (auto simp: set_free_def image_iff intro!: map_idI)

lemma join_at_split: "b \<notin> fst ` set xs \<Longrightarrow> join_at b (xs @ (b, s, u) # ys) = xs @ join_next (b, s, u) ys"
  by (induction xs) auto

lemma prev_of_split: "b \<notin> fst ` set xs \<Longrightarrow>
  prev_of b (xs @ (b, s, u) # ys) = (if xs = [] then prev_of b ((b, s, u) # ys) else Some (last xs))"
proof (induction xs)
  case (Cons x xs)
  then show ?case by (cases xs) auto
qed simp

lemma spec_free_split:
  assumes d: "distinct (map fst (xs @ (b, s, True) # ys))"
  shows "spec_free b (xs @ (b, s, True) # ys) =
    (if xs \<noteq> [] \<and> blk_free (last xs)
     then butlast xs @ join_next (last xs) (join_next (b, s, False) ys)
     else xs @ join_next (b, s, False) ys)"
proof -
  from d have nb: "b \<notin> fst ` set xs" "b \<notin> fst ` set ys" by auto
  have p: "prev_of b ((b, s, True) # ys) = None" by (rule prev_of_absent) (use nb in simp)
  show ?thesis
  proof (cases "xs = []")
    case True
    with nb p show ?thesis
      by (simp add: spec_free_def set_free_split [OF d, simplified] Let_def join_at_split [of b "[]", simplified])
         (use set_free_split [of "[]" b s True ys] d in auto)
  next
    case False
    then obtain zs z where xs: "xs = zs @ [z]" by (metis rev_exhaust)
    from d xs have "fst z \<notin> fst ` set zs" by auto
    then have "join_at (fst z) (zs @ z # r) = zs @ join_next z r" for r
      using join_at_split [of "fst z" zs "fst (snd z)" "snd (snd z)" r] by simp
    moreover have "set_free b bs = zs @ z # (b, s, False) # ys" "prev_of b bs = Some z"
        "join_at b (zs @ z # (b, s, False) # ys) = zs @ z # join_next (b, s, False) ys"
      if "bs = xs @ (b, s, True) # ys" for bs
      using that set_free_split [OF d] prev_of_split [OF nb(1), of s True ys]
        join_at_split [OF nb(1), of s False ys] xs by simp_all
    ultimately show ?thesis
      using False xs unfolding spec_free_def Let_def by simp
  qed
qed

lemma join_next_hd: "hd (join_next x r) = (fst x, fst (snd (hd (join_next x r))), snd (snd x))"
  by (cases "(x, r)" rule: join_next.cases) auto

lemma join_next_ne [simp]: "join_next x r \<noteq> []"
  by (cases "(x, r)" rule: join_next.cases) auto

lemma join_next_coalesced:
  "coalesced r \<Longrightarrow> \<not> snd (snd x) \<Longrightarrow> coalesced (join_next x r)"
  by (cases "(x, r)" rule: join_next.cases) (auto simp: coalesced_Cons)

lemma spec_free_coalesced:
  assumes d: "distinct (map fst bs)" and m: "(b, s, True) \<in> set bs" and c: "coalesced bs"
  shows "coalesced (spec_free b bs)"
proof -
  from m obtain xs ys where bs: "bs = xs @ (b, s, True) # ys" by (meson split_list)
  from c bs have cx: "coalesced xs" and cy: "coalesced ys" by (auto simp: coalesced_append coalesced_Cons)
  let ?j = "join_next (b, s, False) ys"
  have cj: "coalesced ?j" using cy by (simp add: join_next_coalesced)
  show ?thesis
  proof (cases "xs \<noteq> [] \<and> blk_free (last xs)")
    case True
    then have "xs = butlast xs @ [last xs]" by simp
    with cx have cb: "coalesced (butlast xs)" "butlast xs = [] \<or> \<not> blk_free (last (butlast xs))"
      using coalesced_append [of "butlast xs" "[last xs]"] True by auto
    have "\<not> snd (snd (last xs))" using True by (simp add: blk_free_def)
    with cj have "coalesced (join_next (last xs) ?j)" by (rule join_next_coalesced)
    with cb True show ?thesis
      using d bs by (auto simp: spec_free_split coalesced_append)
  next
    case False
    have "hd ?j = (b, fst (snd (hd ?j)), False)" using join_next_hd [of "(b, s, False)" ys] by simp
    with False cx cj show ?thesis
      using d bs by (auto simp: spec_free_split coalesced_append)
  qed
qed

lemma spec_alloc_free:
  assumes c: "coalesced bs" and d: "distinct (map fst bs)"
    and d': "distinct (map fst (fst (spec_alloc want bs)))" and p: "snd (spec_alloc want bs) \<noteq> 0"
  shows "spec_free (snd (spec_alloc want bs) - 16) (fst (spec_alloc want bs)) = bs"
proof -
  from spec_alloc_split [OF p] obtain xs a s ys where
    *: "bs = xs @ (a, s, False) # ys" "want \<le> s" "snd (spec_alloc want bs) = a + 16"
    "fst (spec_alloc want bs) =
       xs @ (if s - want \<ge> 32 then (a, want, True) # (a + 16 + want, s - want - 16, False) # ys
             else (a, s, True) # ys)" by blast
  from c * have x: "xs = [] \<or> \<not> blk_free (last xs)" and y: "ys = [] \<or> \<not> blk_free (hd ys)"
    by (auto simp: coalesced_append coalesced_Cons)
  have "join_next (a, s, False) ys = (a, s, False) # ys"
    using y by (cases ys) (auto split: prod.splits simp: blk_free_def)
  then show ?thesis
    using * x d' by (cases "s - want \<ge> 32") (auto simp: spec_free_split)
qed


section \<open>The heap after initialisation and after any run\<close>

lemma align_up_bounds: "n + 7 < W32 \<Longrightarrow> align_up n < n + 8"
  by (simp add: align_up_def)

lemma heap_init_abs:
  assumes "0 < base" "sizeof_block + MIN_PAYLOAD \<le> bytes" "base + bytes \<le> W32"
  shows "heap_abs (heap_init base bytes h)
           [(align_up base, bytes - (align_up base - base) - 16, False)]"
proof -
  have b: "base + 7 < W32" using assms by (simp add: sizeof_block_def MIN_PAYLOAD_def)
  from align_up_ge [OF b] align_up_bounds [OF b] have a: "base \<le> align_up base" "align_up base - base < 8" by auto
  have "cast32 (align_up base + W32 - base) = align_up base - base"
  proof -
    have "align_up base + W32 - base = (align_up base - base) + W32" using a by simp
    moreover have "((align_up base - base) + W32) mod W32 = align_up base - base"
      using a(2) by (simp only: mod_add_self2) simp
    ultimately show ?thesis by (simp only: cast32_def)
  qed
  then show ?thesis
    using assms a align_up_mod [of base]
    by (auto simp: heap_init_def heap_abs_def Let_def sizeof_block_def MIN_PAYLOAD_def in_use_def)
qed

text \<open>
  The heap under its client: initialised on a region, then allocations of any size and
  frees of memory it handed out and has not been given back.
\<close>

inductive heap_run :: "nat \<Rightarrow> nat \<Rightarrow> kheap \<Rightarrow> bool" for base bytes where
  init: "0 < base \<Longrightarrow> 32 \<le> bytes \<Longrightarrow> base + bytes \<le> W32 \<Longrightarrow> heap_run base bytes (heap_init base bytes h)"
| alloc: "heap_run base bytes h \<Longrightarrow> kalloc h n = Some (h', p) \<Longrightarrow> heap_run base bytes h'"
| free: "heap_run base bytes h \<Longrightarrow> (p, s) \<in> live h \<Longrightarrow> kfree h p = Some h' \<Longrightarrow> heap_run base bytes h'"

lemma kalloc_ok:
  assumes h: "heap_abs h bs" and c: "coalesced bs" and k: "kalloc h n = Some (h', p)" and n: "n \<noteq> 0"
  shows "p = snd (spec_alloc (want_of n) bs) \<and> heap_abs h' (fst (spec_alloc (want_of n) bs)) \<and>
         coalesced (fst (spec_alloc (want_of n) bs))"
  using kalloc_refine [OF h n] k spec_alloc_coalesced [OF c, of "want_of n"] by auto

lemma kfree_ok:
  assumes h: "heap_abs h bs" and c: "coalesced bs" and l: "(p, s) \<in> live h"
  shows "\<exists>h'. kfree h p = Some h' \<and> heap_abs h' (spec_free (p - 16) bs) \<and> coalesced (spec_free (p - 16) bs)"
proof -
  from l live_abs [OF h] have p: "16 \<le> p" "(p - 16, s, True) \<in> set bs" by auto
  from kfree_refine [OF h p(2)] p(1) spec_free_coalesced [OF heap_abs_distinct [OF h] p(2) c]
  show ?thesis by auto
qed

lemma heap_run_ok: "heap_run base bytes h \<Longrightarrow> heap_ok h"
proof (induction rule: heap_run.induct)
  case (init h)
  then have "heap_abs (heap_init base bytes h) [(align_up base, bytes - (align_up base - base) - 16, False)]"
    by (intro heap_init_abs) (auto simp: sizeof_block_def MIN_PAYLOAD_def)
  then show ?case by (auto simp: heap_ok_def intro!: exI [of _ "[(_, _, _)]"])
next
  case (alloc h n h' p)
  then obtain bs where "heap_abs h bs" "coalesced bs" by (auto simp: heap_ok_def)
  with alloc show ?case
    using kalloc_ok [of h bs n h' p] by (cases "n = 0") (auto simp: heap_ok_def kalloc_def)
next
  case (free h p s h')
  then obtain bs where "heap_abs h bs" "coalesced bs" by (auto simp: heap_ok_def)
  with free kfree_ok [of h bs p s] show ?case by (auto simp: heap_ok_def)
qed

section \<open>The allocator as its clients see it\<close>

text \<open>
  What \<open>rv9k_set_allocators\<close> promises whoever allocates through it: live regions never
  overlap, an allocation adds one region at least as big as asked and disturbs no other,
  a free removes exactly its own.
\<close>

locale region_allocator =
  fixes ok :: "'h \<Rightarrow> bool"
    and regions :: "'h \<Rightarrow> (nat \<times> nat) set"
    and alloc :: "'h \<Rightarrow> nat \<Rightarrow> ('h \<times> nat) option"
    and free :: "'h \<Rightarrow> nat \<Rightarrow> 'h option"
  assumes disjoint: "ok h \<Longrightarrow> (a, s) \<in> regions h \<Longrightarrow> (b, t) \<in> regions h \<Longrightarrow> a \<noteq> b \<Longrightarrow> a + s \<le> b \<or> b + t \<le> a"
    and sizes_agree: "ok h \<Longrightarrow> (a, s) \<in> regions h \<Longrightarrow> (a, t) \<in> regions h \<Longrightarrow> s = t"
    and alloc_law: "ok h \<Longrightarrow> 0 < n \<Longrightarrow> n + 7 < W32 \<Longrightarrow>
      \<exists>h' p. alloc h n = Some (h', p) \<and> ok h' \<and>
        (if p = 0 then regions h' = regions h
         else \<exists>s\<ge>n. (\<forall>t. (p, t) \<notin> regions h) \<and> regions h' = insert (p, s) (regions h))"
    and free_law: "ok h \<Longrightarrow> (p, s) \<in> regions h \<Longrightarrow>
      \<exists>h'. free h p = Some h' \<and> ok h' \<and> regions h' = regions h - {(p, s)}"
begin

lemma alloc_then_free:
  assumes "ok h" "0 < n" "n + 7 < W32" "alloc h n = Some (h', p)" "p \<noteq> 0"
  shows "\<exists>h''. free h' p = Some h'' \<and> ok h'' \<and> regions h'' = regions h"
proof -
  from alloc_law [OF assms(1-3)] assms(4,5) obtain s where
    s: "ok h'" "\<forall>t. (p, t) \<notin> regions h" "regions h' = insert (p, s) (regions h)" by auto
  with free_law [of h' p s] show ?thesis by auto
qed

lemma fresh_region_disjoint:
  assumes "ok h" "0 < n" "n + 7 < W32" "alloc h n = Some (h', p)" "p \<noteq> 0" "(b, t) \<in> regions h"
  shows "p + n \<le> b \<or> b + t \<le> p"
proof -
  from alloc_law [OF assms(1-3)] assms(4,5) obtain s where
    s: "ok h'" "n \<le> s" "\<forall>t. (p, t) \<notin> regions h" "regions h' = insert (p, s) (regions h)" by auto
  then have "p \<noteq> b" using assms(6) by auto
  then have "p + s \<le> b \<or> b + t \<le> p"
    using s(1,4) assms(6) by (intro disjoint [of h']) auto
  with s(2) show ?thesis by auto
qed

end

lemma tiles_apart:
  assumes "tiles lo bs hi" "x \<in> set bs" "y \<in> set bs" "fst x \<noteq> fst y"
  shows "fst x + 16 + fst (snd x) \<le> fst y \<or> fst y + 16 + fst (snd y) \<le> fst x"
  using assms
proof (induction lo bs hi rule: tiles.induct)
  case (2 lo a s u bs hi)
  then have t: "tiles (a + 16 + s) bs hi" by auto
  note B = tiles_bounds [OF t]
  from 2 show ?case using B t by (cases "x = (a, s, u)"; cases "y = (a, s, u)") auto
qed simp

lemma spec_alloc_live:
  assumes "snd (spec_alloc want bs) \<noteq> 0" "distinct (map fst (fst (spec_alloc want bs)))"
  shows "\<exists>s\<ge>want. {x \<in> set (fst (spec_alloc want bs)). snd (snd x)} =
           insert (snd (spec_alloc want bs) - 16, s, True) {x \<in> set bs. snd (snd x)} \<and>
           (\<forall>x\<in>set bs. snd (snd x) \<longrightarrow> fst x \<noteq> snd (spec_alloc want bs) - 16)"
proof -
  from spec_alloc_split [OF assms(1)] obtain xs a s ys where
    *: "bs = xs @ (a, s, False) # ys" "want \<le> s" "snd (spec_alloc want bs) = a + 16"
    "fst (spec_alloc want bs) =
       xs @ (if s - want \<ge> 32 then (a, want, True) # (a + 16 + want, s - want - 16, False) # ys
             else (a, s, True) # ys)" by blast
  with assms(2) have "a \<notin> fst ` set xs" "a \<notin> fst ` set ys" by (auto split: if_splits)
  with * show ?thesis
    by (intro exI [of _ "if s - want \<ge> 32 then want else s"]) (auto simp: image_iff)
qed

lemma spec_free_live:
  assumes "distinct (map fst bs)" "(b, s, True) \<in> set bs"
  shows "{x \<in> set (spec_free b bs). snd (snd x)} = {x \<in> set bs. snd (snd x)} - {(b, s, True)}"
proof -
  from assms(2) obtain xs ys where bs: "bs = xs @ (b, s, True) # ys" by (meson split_list)
  have j: "{x \<in> set (join_next z r). snd (snd x)} = {x \<in> set r. snd (snd x)}" if "\<not> snd (snd z)" for z r
    using that by (cases "(z, r)" rule: join_next.cases) auto
  have "b \<notin> fst ` set xs" "b \<notin> fst ` set ys" using assms(1) bs by auto
  then have rhs: "{x \<in> set bs. snd (snd x)} - {(b, s, True)} = {x \<in> set xs. snd (snd x)} \<union> {x \<in> set ys. snd (snd x)}"
    using bs by (auto simp: image_iff)
  show ?thesis
  proof (cases "xs \<noteq> [] \<and> blk_free (last xs)")
    case True
    then have "{x \<in> set xs. snd (snd x)} = {x \<in> set (butlast xs). snd (snd x)}"
      by (subst (1) append_butlast_last_id [of xs, symmetric]) (auto simp: blk_free_def simp del: append_butlast_last_id)
    with True rhs j [of "last xs"] j [of "(b, s, False)" ys] assms(1) bs show ?thesis
      by (simp add: spec_free_split Collect_disj_eq conj_disj_distribR blk_free_def)
  next
    case False
    with rhs j [of "(b, s, False)" ys] assms(1) bs show ?thesis
      by (auto simp: spec_free_split)
  qed
qed

lemma live_eq: "heap_abs h bs \<Longrightarrow> live h = (\<lambda>x. (fst x + 16, fst (snd x))) ` {x \<in> set bs. snd (snd x)}"
  by (simp add: live_def blocks_of_abs)

text \<open>Whatever is asked, what is granted has the rounded size.\<close>

lemma kalloc_live:
  assumes "heap_ok h" "0 < n"
  shows "\<exists>h' p. kalloc h n = Some (h', p) \<and> heap_ok h' \<and>
    (if p = 0 then live h' = live h
     else \<exists>s\<ge>want_of n. (\<forall>t. (p, t) \<notin> live h) \<and> live h' = insert (p, s) (live h))"
proof -
  obtain bs where bs: "heap_abs h bs" "coalesced bs" using assms(1) by (auto simp: heap_ok_def)
  let ?r = "spec_alloc (want_of n) bs"
  from kalloc_refine [OF bs(1)] assms(2) obtain h' where
    h': "kalloc h n = Some (h', snd ?r)" "heap_abs h' (fst ?r)" by blast
  have ok: "heap_ok h'" using h'(2) spec_alloc_coalesced [OF bs(2)] by (auto simp: heap_ok_def)
  have "if snd ?r = 0 then live h' = live h
        else \<exists>s\<ge>want_of n. (\<forall>t. (snd ?r, t) \<notin> live h) \<and> live h' = insert (snd ?r, s) (live h)"
  proof (cases "snd ?r = 0")
    case True
    have "\<forall>x\<in>set bs. fst x \<noteq> 0" using links_lookup [OF heap_abs_links [OF bs(1)]] by blast
    with True have "fst ?r = bs" using spec_alloc_zero spec_alloc_none by blast
    with True h'(2) bs(1) show ?thesis by (simp add: live_eq)
  next
    case False
    from spec_alloc_split [OF False] have g: "16 \<le> snd ?r" by auto
    from spec_alloc_live [OF False heap_abs_distinct [OF h'(2)]] obtain s where
      s: "want_of n \<le> s" "{x \<in> set (fst ?r). snd (snd x)} = insert (snd ?r - 16, s, True) {x \<in> set bs. snd (snd x)}"
      "\<forall>x\<in>set bs. snd (snd x) \<longrightarrow> fst x \<noteq> snd ?r - 16" by blast
    have "live h' = insert (snd ?r, s) (live h)"
      using g s(2) by (simp add: live_eq [OF h'(2)] live_eq [OF bs(1)])
    moreover have "\<forall>t. (snd ?r, t) \<notin> live h" using s(3) by (auto simp: live_abs [OF bs(1)])
    ultimately show ?thesis using False s(1) by auto
  qed
  with h' ok show ?thesis by blast
qed

interpretation kh: region_allocator heap_ok live kalloc kfree
proof
  fix h a s b t
  assume "heap_ok h" "(a, s) \<in> live h" "(b, t) \<in> live h" "a \<noteq> b"
  moreover from this obtain bs where "heap_abs h bs" by (auto simp: heap_ok_def)
  ultimately have "16 \<le> a" "16 \<le> b" "(a - 16, s, True) \<in> set bs" "(b - 16, t, True) \<in> set bs" "heap_abs h bs"
    by (auto simp: live_abs)
  moreover from this have "a - 16 \<noteq> b - 16" using \<open>a \<noteq> b\<close> by linarith
  ultimately have "a - 16 + 16 + s \<le> b - 16 \<or> b - 16 + 16 + t \<le> a - 16"
    using tiles_apart [OF heap_abs_tiles, of h bs "(a - 16, s, True)" "(b - 16, t, True)"] by simp
  then show "a + s \<le> b \<or> b + t \<le> a" by linarith
next
  fix h a s t
  assume "heap_ok h" "(a, s) \<in> live h" "(a, t) \<in> live h"
  moreover from this obtain bs where "heap_abs h bs" by (auto simp: heap_ok_def)
  ultimately show "s = t"
    using heap_abs_distinct [of h bs] by (auto simp: live_abs) (metis eq_key_imp_eq_value prod.inject)
next
  fix h n
  assume a: "heap_ok h" "0 < (n::nat)" "n + 7 < W32"
  from kalloc_live [OF a(1,2)] want_of_ge [OF a(3)]
  show "\<exists>h' p. kalloc h n = Some (h', p) \<and> heap_ok h' \<and>
      (if p = 0 then live h' = live h
       else \<exists>s\<ge>n. (\<forall>t. (p, t) \<notin> live h) \<and> live h' = insert (p, s) (live h))" by (metis (mono_tags, lifting) order_trans)
next
  fix h p s
  assume "heap_ok h" and l: "(p, s) \<in> live h"
  then obtain bs where bs: "heap_abs h bs" "coalesced bs" by (auto simp: heap_ok_def)
  from l live_abs [OF bs(1)] have p: "16 \<le> p" "(p - 16, s, True) \<in> set bs" by auto
  from kfree_ok [OF bs l] obtain h' where
    h': "kfree h p = Some h'" "heap_abs h' (spec_free (p - 16) bs)" "coalesced (spec_free (p - 16) bs)" by blast
  have "inj_on (\<lambda>x. (fst x + 16, fst (snd x))) {x \<in> set bs. snd (snd x)}"
    by (auto simp: inj_on_def)
  then have "live h' = live h - {(p, s)}"
    using p spec_free_live [OF heap_abs_distinct [OF bs(1)] p(2)]
    by (simp add: live_eq [OF h'(2)] live_eq [OF bs(1)] inj_on_image_set_diff [where C = "{x \<in> set bs. snd (snd x)}"])
  with h' show "\<exists>h'. kfree h p = Some h' \<and> heap_ok h' \<and> live h' = live h - {(p, s)}"
    by (auto simp: heap_ok_def)
qed


section \<open>Properties\<close>

text \<open>C1. On any heap the allocator itself built up, an allocation of any 32-bit size returns NULL
  exactly when nothing was asked or no free block holds the rounded request; otherwise it returns
  8-byte aligned memory of at least the rounded size, disjoint from every region in use, and leaves
  every other region in use as it was. The rounded size is no less than the size asked, except
  within seven bytes of 4 GB, where it wraps and is 16.\<close>

theorem kalloc_sound:
  assumes "heap_run base bytes h" "n < W32"
  shows "\<exists>h' p bs. kalloc h n = Some (h', p) \<and> blocks_of h = Some bs \<and>
    (p = 0 \<longleftrightarrow> n = 0 \<or> (\<forall>x\<in>set bs. snd (snd x) \<or> fst (snd x) < want_of n)) \<and>
    (p = 0 \<longrightarrow> live h' = live h) \<and>
    (p \<noteq> 0 \<longrightarrow> p mod 8 = 0 \<and>
       (\<exists>s\<ge>want_of n. live h' = insert (p, s) (live h) \<and> (\<forall>(b, t)\<in>live h. p + s \<le> b \<or> b + t \<le> p))) \<and>
    (if n + 7 < W32 then n \<le> want_of n else want_of n = 16)"
proof -
  from heap_run_ok [OF assms(1)] have ok: "heap_ok h" .
  then obtain bs where bs: "heap_abs h bs" "coalesced bs" by (auto simp: heap_ok_def)
  have w: "if n + 7 < W32 then n \<le> want_of n else want_of n = 16"
  proof (cases "n + 7 < W32")
    case False
    then show ?thesis using want_of_wraps [OF assms(2)] by simp
  qed (simp add: want_of_ge)
  show ?thesis
  proof (cases "n = 0")
    case True
    then show ?thesis using blocks_of_abs [OF bs(1)] w by (simp add: kalloc_def)
  next
    case False
    then obtain h' p where h': "kalloc h n = Some (h', p)" "heap_ok h'"
      and r: "if p = 0 then live h' = live h else \<exists>s\<ge>want_of n. (\<forall>t. (p, t) \<notin> live h) \<and> live h' = insert (p, s) (live h)"
      using kalloc_live [OF ok, of n] by blast
    from kalloc_ok [OF bs h'(1) False] have p: "p = snd (spec_alloc (want_of n) bs)" by simp
    have "\<forall>x\<in>set bs. fst x \<noteq> 0" using links_lookup [OF heap_abs_links [OF bs(1)]] by blast
    from spec_alloc_zero [OF this, of "want_of n"] p False
    have z: "p = 0 \<longleftrightarrow> n = 0 \<or> (\<forall>x\<in>set bs. snd (snd x) \<or> fst (snd x) < want_of n)" by simp
    have nz: "p mod 8 = 0 \<and> (\<exists>s\<ge>want_of n. live h' = insert (p, s) (live h) \<and> (\<forall>(b, t)\<in>live h. p + s \<le> b \<or> b + t \<le> p))"
      if "p \<noteq> 0"
    proof
      from spec_alloc_split [of "want_of n" bs] that p obtain xs a s ys where
        "bs = xs @ (a, s, False) # ys" "p = a + 16" by blast
      moreover from this have "(a, s, False) \<in> set bs" by simp
      moreover from calculation bs(1) have "a mod 8 = 0" by (force simp: heap_abs_def)
      ultimately show "p mod 8 = 0" by presburger
      from r that obtain s where s: "want_of n \<le> s" "\<forall>t. (p, t) \<notin> live h" "live h' = insert (p, s) (live h)" by auto
      have "p + s \<le> b \<or> b + t \<le> p" if "(b, t) \<in> live h" for b t
        using s that kh.disjoint [OF h'(2), of p s b t] by auto
      with s show "\<exists>s\<ge>want_of n. live h' = insert (p, s) (live h) \<and> (\<forall>(b, t)\<in>live h. p + s \<le> b \<or> b + t \<le> p)" by blast
    qed
    from r have null: "p = 0 \<longrightarrow> live h' = live h" by simp
    show ?thesis
      by (rule exI [of _ h'], rule exI [of _ p], rule exI [of _ bs],
          rule conjI [OF h'(1) conjI [OF blocks_of_abs [OF bs(1)] conjI [OF z conjI [OF null conjI [OF impI [OF nz] w]]]]])
  qed
qed

lemma demo_init: "heap_run 4096 1024 (heap_init 4096 1024 \<lparr>s_first = 0, s_total = 0, h_mem = Map.empty\<rparr>)"
  by (rule heap_run.init) simp_all

theorem kalloc_sound_witness:
  "\<exists>h' p bs. kalloc (heap_init 4096 1024 \<lparr>s_first = 0, s_total = 0, h_mem = Map.empty\<rparr>) 100 = Some (h', p) \<and>
     blocks_of (heap_init 4096 1024 \<lparr>s_first = 0, s_total = 0, h_mem = Map.empty\<rparr>) = Some bs \<and>
     (p = 0 \<longleftrightarrow> (100 :: nat) = 0 \<or> (\<forall>x\<in>set bs. snd (snd x) \<or> fst (snd x) < want_of 100))"
proof -
  have "(100 :: nat) < W32" by simp
  from kalloc_sound [OF demo_init this] show ?thesis
    by (elim exE conjE, intro exI conjI) assumption+
qed

text \<open>C2. No operation sequence fragments the heap more than its live regions force: after
  any run the blocks lie end to end over the whole region, each 8-byte aligned, and no two
  neighbours are both free.\<close>

theorem heap_run_tiled:
  assumes "heap_run base bytes h"
  shows "\<exists>bs. blocks_of h = Some bs \<and> bs \<noteq> [] \<and> tiles (hdaddr bs) bs (hdaddr bs + s_total h) \<and>
           (\<forall>x\<in>set bs. fst x mod 8 = 0) \<and> coalesced bs"
proof -
  from heap_run_ok [OF assms] obtain bs where "heap_abs h bs" "coalesced bs" by (auto simp: heap_ok_def)
  then show ?thesis using blocks_of_abs by (auto simp: heap_abs_def)
qed

theorem heap_run_tiled_witness:
  "\<exists>bs. blocks_of (heap_init 4096 1024 \<lparr>s_first = 0, s_total = 0, h_mem = Map.empty\<rparr>) = Some bs \<and> coalesced bs"
  using heap_run_tiled [OF demo_init] by blast

text \<open>C3. Freeing what was just allocated restores the very same blocks: the split is undone
  by the coalescing, whatever the heap looked like.\<close>

theorem kalloc_kfree_restores:
  assumes "heap_run base bytes h" "kalloc h n = Some (h', p)" "p \<noteq> 0"
  shows "\<exists>h''. kfree h' p = Some h'' \<and> blocks_of h'' = blocks_of h"
proof -
  from heap_run_ok [OF assms(1)] obtain bs where bs: "heap_abs h bs" "coalesced bs" by (auto simp: heap_ok_def)
  have n: "n \<noteq> 0" using assms(2,3) by (cases "n = 0") (auto simp: kalloc_def)
  let ?r = "spec_alloc (want_of n) bs"
  from kalloc_ok [OF bs assms(2) n] have p: "p = snd ?r" and a: "heap_abs h' (fst ?r)" by auto
  from spec_alloc_split [of "want_of n" bs] assms(3) p obtain xs a s ys where
    x: "p = a + 16" "fst ?r = xs @ (if s - want_of n \<ge> 32 then (a, want_of n, True) # (a + 16 + want_of n, s - want_of n - 16, False) # ys
             else (a, s, True) # ys)" by auto
  then obtain s' where "(p - 16, s', True) \<in> set (fst ?r)" by (auto split: if_splits)
  from kfree_refine [OF a this] x(1) obtain h'' where
    "kfree h' p = Some h''" "heap_abs h'' (spec_free (p - 16) (fst ?r))" by auto
  moreover have "spec_free (p - 16) (fst ?r) = bs"
    using spec_alloc_free [OF bs(2) heap_abs_distinct [OF bs(1)] heap_abs_distinct [OF a]] assms(3) p by simp
  ultimately show ?thesis using blocks_of_abs bs(1) by metis
qed

lemma demo_alloc:
  "kalloc (heap_init 4096 1024 \<lparr>s_first = 0, s_total = 0, h_mem = Map.empty\<rparr>) 100 =
   Some (take_block (heap_init 4096 1024 \<lparr>s_first = 0, s_total = 0, h_mem = Map.empty\<rparr>) 104 4096
           \<lparr>b_prev = 0, b_next = 0, b_size = 1008, b_flags = 0\<rparr>, 4112)"
  by (simp add: kalloc_def want_of_def align_up_def cast32_def heap_init_def Let_def alloc_walk.simps
      sizeof_block_def MIN_PAYLOAD_def in_use_def)

theorem kalloc_kfree_restores_witness:
  "\<exists>h''. kfree (take_block (heap_init 4096 1024 \<lparr>s_first = 0, s_total = 0, h_mem = Map.empty\<rparr>) 104 4096
           \<lparr>b_prev = 0, b_next = 0, b_size = 1008, b_flags = 0\<rparr>) 4112 = Some h'' \<and>
     blocks_of h'' = blocks_of (heap_init 4096 1024 \<lparr>s_first = 0, s_total = 0, h_mem = Map.empty\<rparr>)"
  by (rule kalloc_kfree_restores [OF demo_init demo_alloc]) simp

text \<open>The size is rounded up before it is compared, and the rounding wraps: a request for
  almost the whole address space is granted with the smallest block there is.\<close>

theorem kalloc_wraps:
  assumes "heap_run base bytes h" "W32 \<le> n + 7" "n < W32"
    and "blocks_of h = Some bs" "(a, s, False) \<in> set bs" "16 \<le> s"
  shows "\<exists>h' p. kalloc h n = Some (h', p) \<and> p \<noteq> 0 \<and> want_of n = 16"
proof -
  from heap_run_ok [OF assms(1)] obtain bs' where bs: "heap_abs h bs'" by (auto simp: heap_ok_def)
  with assms(4) blocks_of_abs have "bs' = bs" by fastforce
  have w: "want_of n = 16" by (rule want_of_wraps) (use assms(2,3) in simp_all)
  have "n \<noteq> 0" using assms(2) by auto
  from kalloc_refine [OF bs this] obtain h' where
    h': "kalloc h n = Some (h', snd (spec_alloc (want_of n) bs'))" by blast
  have "\<forall>x\<in>set bs'. fst x \<noteq> 0" using links_lookup [OF heap_abs_links [OF bs]] by blast
  from spec_alloc_zero [OF this, of "want_of n"] assms(5,6) w \<open>bs' = bs\<close>
  have "snd (spec_alloc (want_of n) bs') \<noteq> 0" by force
  with h' w show ?thesis by blast
qed

theorem kalloc_wraps_witness:
  "\<exists>h' p. kalloc (heap_init 4096 1024 \<lparr>s_first = 0, s_total = 0, h_mem = Map.empty\<rparr>) 4294967295 = Some (h', p) \<and>
     p \<noteq> 0 \<and> want_of 4294967295 = 16"
  by (rule kalloc_wraps [OF demo_init, where bs = "[(4096, 1008, False)]" and a = 4096 and s = 1008])
     (simp_all add: blocks_of_def blocks_walk.simps heap_init_def Let_def align_up_def cast32_def
       sizeof_block_def MIN_PAYLOAD_def in_use_def)


end
