(* ===== verification/KThread.thy ===== *)
theory KThread
  imports Prelude
begin

text \<open>
  Threads of RV-9's own kernel (components/rv9_kernel/include/rv9/kernel.h and
  src/sched.c): the thread control block, the kernel's state, thread creation with its
  painted stack and guard, and the priority law (base, age, inherited boost). Pointers to
  threads and wait queues are indices; \<open>next\<close> links of a wait queue are the list
  \<open>k_waitq\<close> gives for it, head first.
\<close>

section \<open>Constants\<close>

definition RV9K_MAX_THREADS :: nat where "RV9K_MAX_THREADS = 32"
definition RV9K_NAME_LEN :: nat where "RV9K_NAME_LEN = 16"
definition RV9K_PRIO_MIN :: int where "RV9K_PRIO_MIN = 0"
definition RV9K_PRIO_MAX :: int where "RV9K_PRIO_MAX = 15"
definition RV9K_AGE_MAX :: int where "RV9K_AGE_MAX = 10"
definition RV9K_AGE_PERIOD_TICKS :: u32 where "RV9K_AGE_PERIOD_TICKS = 20"
definition RV9K_WAIT_FOREVER :: u32 where "RV9K_WAIT_FOREVER = 0xFFFFFFFF"
definition RV9K_STACK_PAINT :: u32 where "RV9K_STACK_PAINT = 0xA5C3A5C3"
definition RV9K_GUARD_WORDS :: nat where "RV9K_GUARD_WORDS = 4"
definition RV9K_STACK_PAD_WORDS :: nat where "RV9K_STACK_PAD_WORDS = 32"
definition RV9K_FAULT_NONE :: nat where "RV9K_FAULT_NONE = 0"
definition RV9K_FAULT_STACK :: nat where "RV9K_FAULT_STACK = 1"
definition RV9K_FAULT_KILLED :: nat where "RV9K_FAULT_KILLED = 2"
definition PENDING_MAX :: nat where "PENDING_MAX = 16"

text \<open>\<open>flen\<close>: the core has floating point, \<open>__riscv_flen\<close>, and the frame its registers.\<close>

definition CTX_WORDS :: "bool \<Rightarrow> nat" where "CTX_WORDS flen = (if flen then 28 else 14)"

text \<open>\<open>RV9K_MS_TO_TICKS\<close>: at 1000 Hz the 64-bit product and quotient cancel.\<close>

definition RV9K_MS_TO_TICKS :: "u32 \<Rightarrow> u32" where
  "RV9K_MS_TO_TICKS ms = of_nat (unat ms * 1000 div 1000)"

definition RV9K_TICK_REACHED :: "u32 \<Rightarrow> u32 \<Rightarrow> bool" where
  "RV9K_TICK_REACHED now deadline \<longleftrightarrow> sint (now - deadline) \<ge> 0"

section \<open>The thread and the kernel\<close>

datatype kstate = RV9K_DEAD | RV9K_READY | RV9K_RUNNING | RV9K_SLEEPING | RV9K_BLOCKED

record kthread =
  t_sp :: nat                    \<comment> \<open>address of the saved context; 0 is NULL\<close>
  t_stack :: nat                 \<comment> \<open>address of the stack's floor; 0 is NULL\<close>
  t_mem :: "u32 list"            \<comment> \<open>the allocation's words, pad first\<close>
  t_stack_words :: nat
  t_name :: string
  t_state :: kstate
  t_base_priority :: int
  t_age :: int
  t_effective_priority :: int
  t_boost :: int
  t_wake_at_tick :: u32
  t_blocked_on :: "nat option"
  t_has_deadline :: bool
  t_ran_ticks :: u32
  t_entered_tick :: u32
  t_last_ran_seq :: nat
  t_fault :: nat
  t_holds :: nat
  t_cancel :: bool
  t_mem_class :: nat
  t_held :: bool

record kern =
  k_threads :: "kthread list"
  k_current :: "nat option"
  k_ticks :: u32
  k_last_age_tick :: u32
  k_switches :: nat
  k_blocks :: nat
  k_running :: bool
  k_sched_lock :: nat
  k_stack_faults :: u32
  k_waitq :: "nat \<Rightarrow> nat list"
  k_pending :: "nat list"
  k_pend_head :: nat
  k_pend_tail :: nat
  k_pend_lost :: u32
  k_released :: "nat list"       \<comment> \<open>what was handed to s_release, latest first\<close>

abbreviation thr :: "kern \<Rightarrow> nat \<Rightarrow> kthread" where
  "thr k i \<equiv> k_threads k ! i"

definition upd :: "nat \<Rightarrow> (kthread \<Rightarrow> kthread) \<Rightarrow> kern \<Rightarrow> kern" where
  "upd i f k = k\<lparr>k_threads := (k_threads k)[i := f (thr k i)]\<rparr>"

definition each_thread :: "(kthread \<Rightarrow> kthread) \<Rightarrow> kern \<Rightarrow> kern" where
  "each_thread f k = k\<lparr>k_threads := map f (k_threads k)\<rparr>"

lemma upd_frame [simp]:
  "k_current (upd i f k) = k_current k" "k_ticks (upd i f k) = k_ticks k"
  "k_last_age_tick (upd i f k) = k_last_age_tick k" "k_waitq (upd i f k) = k_waitq k"
  "k_switches (upd i f k) = k_switches k" "k_sched_lock (upd i f k) = k_sched_lock k"
  "k_pending (upd i f k) = k_pending k" "k_pend_head (upd i f k) = k_pend_head k"
  "k_pend_tail (upd i f k) = k_pend_tail k" "k_pend_lost (upd i f k) = k_pend_lost k"
  "k_blocks (upd i f k) = k_blocks k" "k_stack_faults (upd i f k) = k_stack_faults k"
  "length (k_threads (upd i f k)) = length (k_threads k)"
  by (simp_all add: upd_def)

lemma thr_upd:
  "j < length (k_threads k) \<Longrightarrow> thr (upd i f k) j = (if i = j then f (thr k i) else thr k j)"
  by (simp add: upd_def nth_list_update)

lemma thr_upd_same [simp]: "i < length (k_threads k) \<Longrightarrow> thr (upd i f k) i = f (thr k i)"
  by (simp add: thr_upd)

lemma thr_upd_other [simp]: "i \<noteq> j \<Longrightarrow> thr (upd i f k) j = thr k j"
  by (simp add: upd_def)

lemma set_upd: "t \<in> set (k_threads (upd i f k)) \<Longrightarrow> t \<in> set (k_threads k) \<or> t = f (thr k i)"
  unfolding upd_def using set_update_subset_insert by fastforce

definition rv9k_init :: "kern \<Rightarrow> kern" where
  "rv9k_init k = (each_thread (\<lambda>t. t\<lparr>t_state := RV9K_DEAD, t_held := False\<rparr>) k)
     \<lparr>k_current := None, k_last_age_tick := k_ticks k, k_switches := 0, k_blocks := 0,
      k_running := False, k_sched_lock := 0\<rparr>"

definition rv9k_tick :: "kern \<Rightarrow> kern" where
  "rv9k_tick k = k\<lparr>k_ticks := k_ticks k + 1\<rparr>"

definition runnable :: "kthread \<Rightarrow> bool" where
  "runnable t \<longleftrightarrow> t_state t = RV9K_READY \<or> t_state t = RV9K_RUNNING"

section \<open>Creating a thread\<close>

definition clamp_prio :: "int \<Rightarrow> int" where
  "clamp_prio p = (if (if p < RV9K_PRIO_MIN then RV9K_PRIO_MIN else p) > RV9K_PRIO_MAX
                   then RV9K_PRIO_MAX else if p < RV9K_PRIO_MIN then RV9K_PRIO_MIN else p)"

definition slot_free :: "kthread \<Rightarrow> bool" where
  "slot_free t \<longleftrightarrow> t_state t = RV9K_DEAD \<and> t_stack t = 0 \<and> \<not> t_held t"

text \<open>The frame a first switch pops: return address, entry and argument, the rest zero.\<close>

definition first_frame :: "bool \<Rightarrow> u32 \<Rightarrow> u32 \<Rightarrow> u32 \<Rightarrow> u32 list" where
  "first_frame flen tramp fn arg = [tramp, fn, arg] @ replicate (CTX_WORDS flen - 3) 0"

text \<open>Index, in the words of the allocation at \<open>base\<close>, of that frame: the top of the stack,
  rounded down to 16 bytes, less the frame.\<close>

definition frame_index :: "bool \<Rightarrow> nat \<Rightarrow> nat \<Rightarrow> nat" where
  "frame_index flen base words =
     ((base + 4 * (RV9K_STACK_PAD_WORDS + words)) div 16 * 16 - base) div 4 - CTX_WORDS flen"

definition write_words :: "u32 list \<Rightarrow> nat \<Rightarrow> u32 list \<Rightarrow> u32 list" where
  "write_words m i ws = take i m @ ws @ drop (i + length ws) m"

definition words_for :: "nat \<Rightarrow> nat" where
  "words_for stack_bytes = (let w = cast32 (stack_bytes + 3) div 4 in if w < 128 then 128 else w)"

definition cname :: "nat \<Rightarrow> string option \<Rightarrow> string" where
  "cname cap s = (case s of None \<Rightarrow> [] | Some n \<Rightarrow> take (cap - 1) (takeWhile (\<lambda>c. c \<noteq> CHR 0x00) n))"

text \<open>The thread block of slot \<open>t\<close> once created over the allocation at \<open>base\<close>.\<close>

definition new_thread ::
  "bool \<Rightarrow> nat \<Rightarrow> nat \<Rightarrow> u32 \<Rightarrow> u32 \<Rightarrow> u32 \<Rightarrow> string option \<Rightarrow> int \<Rightarrow> kthread \<Rightarrow> kthread" where
  "new_thread flen base words tramp fn arg name priority t =
     (let painted = replicate (words + RV9K_STACK_PAD_WORDS) RV9K_STACK_PAINT;
          p = clamp_prio priority
      in t\<lparr>t_stack := base + 4 * RV9K_STACK_PAD_WORDS,
           t_mem := write_words painted (frame_index flen base words) (first_frame flen tramp fn arg),
           t_stack_words := words,
           t_fault := RV9K_FAULT_NONE, t_held := False, t_holds := 0,
           t_cancel := False, t_mem_class := 0,
           t_sp := base + 4 * frame_index flen base words, t_name := cname RV9K_NAME_LEN name,
           t_base_priority := p, t_effective_priority := p, t_age := 0,
           t_boost := 0, t_state := RV9K_READY, t_wake_at_tick := 0,
           t_has_deadline := False, t_blocked_on := None, t_ran_ticks := 0,
           t_entered_tick := 0, t_last_ran_seq := 0\<rparr>)"

text \<open>
  \<open>alloc\<close> is the registered allocator (None: none registered), answering an address or 0.
  The result is the slot, or None for NULL.
\<close>

definition rv9k_thread_create ::
  "bool \<Rightarrow> (nat \<Rightarrow> nat) option \<Rightarrow> u32 \<Rightarrow> u32 \<Rightarrow> u32 \<Rightarrow> string option \<Rightarrow> nat \<Rightarrow> int \<Rightarrow> kern \<Rightarrow> kern \<times> nat option" where
  "rv9k_thread_create flen alloc tramp fn arg name stack_bytes priority k =
     (case alloc of
        None \<Rightarrow> (k, None)
      | Some al \<Rightarrow>
          if fn = 0 then (k, None)
          else case find_index slot_free (k_threads k) of
                 None \<Rightarrow> (k, None)
               | Some i \<Rightarrow>
                   let words = words_for stack_bytes;
                       base = al (cast32 ((words + RV9K_STACK_PAD_WORDS) * 4))
                   in if base = 0 then (k, None)
                      else (upd i (new_thread flen base words tramp fn arg name priority) k, Some i))"

section \<open>Stacks\<close>

definition rv9k_stack_unused :: "kthread \<Rightarrow> nat" where
  "rv9k_stack_unused t =
     (if t_stack t = 0 then 0
      else 4 * length (takeWhile (\<lambda>w. w = RV9K_STACK_PAINT)
                         (take (t_stack_words t) (drop RV9K_STACK_PAD_WORDS (t_mem t)))))"

text \<open>Guard and pad: the words from \<open>stack[3]\<close> down to \<open>stack[-32]\<close>.\<close>

definition stack_intact :: "kthread \<Rightarrow> bool" where
  "stack_intact t \<longleftrightarrow>
     t_stack t = 0 \<or>
     list_all (\<lambda>w. w = RV9K_STACK_PAINT) (take (RV9K_STACK_PAD_WORDS + RV9K_GUARD_WORDS) (t_mem t))"

definition rv9k_stack_size :: "kthread \<Rightarrow> nat" where
  "rv9k_stack_size t = t_stack_words t * 4"

definition stack_fault :: "nat \<Rightarrow> kern \<Rightarrow> kern" where
  "stack_fault i k =
     (upd i (\<lambda>t. t\<lparr>t_fault := RV9K_FAULT_STACK, t_state := RV9K_DEAD, t_held := True\<rparr>) k)
       \<lparr>k_stack_faults := k_stack_faults k + 1\<rparr>"

definition rv9k_thread_release :: "nat \<Rightarrow> kern \<Rightarrow> kern" where
  "rv9k_thread_release i = upd i (\<lambda>t. t\<lparr>t_held := False, t_fault := RV9K_FAULT_NONE, t_name := []\<rparr>)"

definition rv9k_thread_fault :: "kthread \<Rightarrow> nat" where
  "rv9k_thread_fault t = t_fault t"

definition rv9k_thread_alive :: "kthread \<Rightarrow> bool" where
  "rv9k_thread_alive t \<longleftrightarrow> t_state t \<noteq> RV9K_DEAD"

definition rv9k_thread_count :: "kern \<Rightarrow> nat" where
  "rv9k_thread_count k = length (filter (\<lambda>t. t_state t \<noteq> RV9K_DEAD \<or> t_stack t \<noteq> 0) (k_threads k))"

section \<open>Priorities\<close>

definition eff_of :: "kthread \<Rightarrow> int" where
  "eff_of t =
     (let eff = t_base_priority t + t_age t;
          eff1 = (if eff > RV9K_PRIO_MAX then RV9K_PRIO_MAX else eff)
      in if t_boost t > eff1 then t_boost t else eff1)"

definition recompute_priority :: "kthread \<Rightarrow> kthread" where
  "recompute_priority t = t\<lparr>t_effective_priority := eff_of t\<rparr>"

definition rv9k_priority_set :: "nat \<Rightarrow> int \<Rightarrow> kern \<Rightarrow> kern" where
  "rv9k_priority_set i priority =
     upd i (\<lambda>t. recompute_priority (t\<lparr>t_base_priority := clamp_prio priority, t_age := 0\<rparr>))"

definition rv9k_priority_boost :: "nat \<Rightarrow> int \<Rightarrow> kern \<Rightarrow> kern" where
  "rv9k_priority_boost i priority k =
     (let p = (if priority > RV9K_PRIO_MAX then RV9K_PRIO_MAX else priority) in
      if p \<le> t_boost (thr k i) then k
      else upd i (\<lambda>t. recompute_priority (t\<lparr>t_boost := p\<rparr>)) k)"

definition rv9k_priority_unboost :: "nat \<Rightarrow> kern \<Rightarrow> kern" where
  "rv9k_priority_unboost i k =
     (if t_boost (thr k i) = 0 then k
      else upd i (\<lambda>t. recompute_priority (t\<lparr>t_boost := 0\<rparr>)) k)"

section \<open>Aging\<close>

definition indices :: "kern \<Rightarrow> nat list" where
  "indices k = [0..<length (k_threads k)]"

definition top_thread :: "kern \<Rightarrow> nat option" where
  "top_thread k = best_of (\<lambda>i j. t_effective_priority (thr k i) > t_effective_priority (thr k j)) None
                    (filter (\<lambda>i. runnable (thr k i)) (indices k))"

definition age_one :: "bool \<Rightarrow> kthread \<Rightarrow> kthread" where
  "age_one is_top t =
     (if \<not> runnable t then t
      else recompute_priority
             (if is_top then t\<lparr>t_age := 0\<rparr>
              else if t_age t < RV9K_AGE_MAX then t\<lparr>t_age := t_age t + 1\<rparr> else t))"

definition age_threads :: "kern \<Rightarrow> kern" where
  "age_threads k =
     (if k_ticks k - k_last_age_tick k < RV9K_AGE_PERIOD_TICKS then k
      else let tp = top_thread k in
           k\<lparr>k_last_age_tick := k_ticks k,
             k_threads := map (\<lambda>i. age_one (Some i = tp) (thr k i)) (indices k)\<rparr>)"

section \<open>The priority law\<close>

text \<open>What holds of every thread at every moment, whatever was done to it.\<close>

definition prio_ok :: "kthread \<Rightarrow> bool" where
  "prio_ok t \<longleftrightarrow>
     0 \<le> t_base_priority t \<and> t_base_priority t \<le> 15 \<and> 0 \<le> t_age t \<and> t_age t \<le> 10 \<and>
     0 \<le> t_boost t \<and> t_boost t \<le> 15 \<and>
     t_effective_priority t = max (t_boost t) (min 15 (t_base_priority t + t_age t))"

definition all_threads :: "(kthread \<Rightarrow> bool) \<Rightarrow> kern \<Rightarrow> bool" where
  "all_threads P k \<longleftrightarrow> list_all P (k_threads k)"

abbreviation prios_ok :: "kern \<Rightarrow> bool" where
  "prios_ok \<equiv> all_threads prio_ok"

named_theorems k_consts

lemmas [k_consts] = RV9K_PRIO_MIN_def RV9K_PRIO_MAX_def RV9K_AGE_MAX_def

lemma eff_of_law: "eff_of t = max (t_boost t) (min 15 (t_base_priority t + t_age t))"
  by (auto simp: eff_of_def Let_def k_consts max_def min_def)

lemma clamp_prio_range [simp]: "0 \<le> clamp_prio p" "clamp_prio p \<le> 15"
  by (auto simp: clamp_prio_def k_consts)

lemma prio_ok_frame:
  assumes "prio_ok t" "t_base_priority t' = t_base_priority t" "t_age t' = t_age t"
    "t_boost t' = t_boost t" "t_effective_priority t' = t_effective_priority t"
  shows "prio_ok t'"
  using assms by (simp add: prio_ok_def)

lemma all_threads_thr: "all_threads P k \<Longrightarrow> i < length (k_threads k) \<Longrightarrow> P (thr k i)"
  by (simp add: all_threads_def list_all_length)

lemma all_threads_upd:
  assumes "all_threads P k" "i < length (k_threads k) \<Longrightarrow> P (thr k i) \<Longrightarrow> P (f (thr k i))"
  shows "all_threads P (upd i f k)"
proof (cases "i < length (k_threads k)")
  case True
  with assms show ?thesis
    by (auto simp: all_threads_def upd_def list_all_length nth_list_update)
next
  case False
  then have "upd i f k = k" by (simp add: upd_def list_update_beyond)
  then show ?thesis using assms(1) by simp
qed

lemma all_threads_cong: "k_threads k' = k_threads k \<Longrightarrow> all_threads P k' = all_threads P k"
  by (simp add: all_threads_def)

lemma all_threads_map:
  "all_threads P k \<Longrightarrow> (\<And>i. P (thr k i) \<Longrightarrow> P (f i)) \<Longrightarrow>
   k_threads k' = map f (indices k) \<Longrightarrow> all_threads P k'"
  by (auto simp: all_threads_def list_all_length indices_def)

lemma prio_ok_recompute:
  "0 \<le> t_base_priority t \<Longrightarrow> t_base_priority t \<le> 15 \<Longrightarrow> 0 \<le> t_age t \<Longrightarrow> t_age t \<le> 10 \<Longrightarrow>
   0 \<le> t_boost t \<Longrightarrow> t_boost t \<le> 15 \<Longrightarrow> prio_ok (recompute_priority t)"
  by (simp add: prio_ok_def recompute_priority_def eff_of_law)

lemma prio_ok_age_one: "prio_ok t \<Longrightarrow> prio_ok (age_one b t)"
  unfolding age_one_def k_consts
  by (auto simp: prio_ok_def [of t] intro!: prio_ok_recompute)

end
