(* ===== verification/KSched.thy ===== *)
theory KSched
  imports KThread
begin

text \<open>
  The scheduler of RV-9's own kernel (components/rv9_kernel/src/sched.c): wait queues, the
  ring of wakes left by interrupts, sleeping and waking, the choice of the next thread, the
  switch itself, and the ways a thread ends. A C function that gives up the CPU half way is
  modelled up to \<open>rv9_ctx_switch\<close>, with what it loads as a value, and its second half
  (\<open>block_resume\<close>) is an operation of its own. Memory words of a stack change between
  operations at the running thread's pleasure (\<open>OStack\<close>).
\<close>

section \<open>Wait queues\<close>

definition waitq_set :: "nat \<Rightarrow> nat list \<Rightarrow> kern \<Rightarrow> kern" where
  "waitq_set q xs k = k\<lparr>k_waitq := (k_waitq k)(q := xs)\<rparr>"

definition waitq_push :: "nat \<Rightarrow> nat \<Rightarrow> kern \<Rightarrow> kern" where
  "waitq_push q i k = waitq_set q (i # k_waitq k q) k"

definition waitq_remove :: "nat \<Rightarrow> nat \<Rightarrow> kern \<Rightarrow> kern" where
  "waitq_remove q i k = waitq_set q (remove1 i (k_waitq k q)) k"

definition waitq_best :: "nat \<Rightarrow> kern \<Rightarrow> nat option" where
  "waitq_best q k = best_of (\<lambda>i j. t_effective_priority (thr k i) > t_effective_priority (thr k j)) None
                      (k_waitq k q)"

definition waitq_pop_best :: "nat \<Rightarrow> kern \<Rightarrow> kern \<times> nat option" where
  "waitq_pop_best q k =
     (case waitq_best q k of
        None \<Rightarrow> (k, None)
      | Some b \<Rightarrow> (upd b (\<lambda>t. t\<lparr>t_blocked_on := None, t_wake_at_tick := 0, t_state := RV9K_READY\<rparr>)
                     (waitq_remove q b k), Some b))"

section \<open>Wakes from interrupts\<close>

definition pend_wake :: "nat \<Rightarrow> kern \<Rightarrow> kern" where
  "pend_wake q k =
     (if k_waitq k q = [] then k
      else let nxt = (k_pend_head k + 1) mod PENDING_MAX in
           if nxt \<noteq> k_pend_tail k
           then k\<lparr>k_pending := (k_pending k)[k_pend_head k := q], k_pend_head := nxt\<rparr>
           else k\<lparr>k_pend_lost := k_pend_lost k + 1\<rparr>)"

text \<open>One turn of the drain's loop, and the loop: the ring holds fewer than
  \<open>PENDING_MAX\<close> notes, so that many turns empty it.\<close>

definition drain_one :: "kern \<Rightarrow> kern" where
  "drain_one k =
     (let q = k_pending k ! k_pend_tail k in
      fst (waitq_pop_best q (k\<lparr>k_pend_tail := (k_pend_tail k + 1) mod PENDING_MAX\<rparr>)))"

fun drain_turns :: "nat \<Rightarrow> kern \<Rightarrow> kern" where
  "drain_turns 0 k = k"
| "drain_turns (Suc n) k = (if k_pend_tail k = k_pend_head k then k else drain_turns n (drain_one k))"

definition drain_pending :: "kern \<Rightarrow> kern" where
  "drain_pending k = drain_turns PENDING_MAX k"

section \<open>Waking, choosing, reaping\<close>

definition wake_one :: "u32 \<Rightarrow> kthread \<Rightarrow> kthread" where
  "wake_one t th =
     (if t_state th = RV9K_SLEEPING \<and> RV9K_TICK_REACHED t (t_wake_at_tick th)
      then th\<lparr>t_state := RV9K_READY\<rparr>
      else if t_state th = RV9K_BLOCKED \<and> t_has_deadline th \<and> RV9K_TICK_REACHED t (t_wake_at_tick th)
      then th\<lparr>t_state := RV9K_READY\<rparr>
      else th)"

definition wake_sleepers :: "kern \<Rightarrow> kern" where
  "wake_sleepers k = each_thread (wake_one (k_ticks k)) k"

definition picks_over :: "kern \<Rightarrow> nat \<Rightarrow> nat \<Rightarrow> bool" where
  "picks_over k i j \<longleftrightarrow>
     t_effective_priority (thr k i) > t_effective_priority (thr k j) \<or>
     t_effective_priority (thr k i) = t_effective_priority (thr k j) \<and>
     t_last_ran_seq (thr k i) < t_last_ran_seq (thr k j)"

definition pick_next :: "kern \<Rightarrow> nat option" where
  "pick_next k = best_of (picks_over k) None (filter (\<lambda>i. runnable (thr k i)) (indices k))"

definition reapable :: "kern \<Rightarrow> nat \<Rightarrow> bool" where
  "reapable k i \<longleftrightarrow> k_current k \<noteq> Some i \<and> t_state (thr k i) = RV9K_DEAD \<and> t_stack (thr k i) \<noteq> 0"

definition reap_thread :: "kthread \<Rightarrow> kthread" where
  "reap_thread t =
     (let t1 = t\<lparr>t_stack := 0, t_stack_words := 0, t_sp := 0\<rparr>
      in if t_held t then t1 else t1\<lparr>t_name := []\<rparr>)"

definition reap_dead :: "kern \<Rightarrow> kern" where
  "reap_dead k =
     k\<lparr>k_threads := map (\<lambda>i. if reapable k i then reap_thread (thr k i) else thr k i) (indices k),
       k_released := rev (map (\<lambda>i. t_stack (thr k i) - 4 * RV9K_STACK_PAD_WORDS)
                            (filter (reapable k) (indices k))) @ k_released k\<rparr>"

definition any_alive :: "kern \<Rightarrow> bool" where
  "any_alive k \<longleftrightarrow> list_ex (\<lambda>t. t_state t \<noteq> RV9K_DEAD) (k_threads k)"

section \<open>Switching\<close>

text \<open>What \<open>reschedule\<close> does to the CPU: nothing, load the context saved at an address, or
  go back to the host's context.\<close>

datatype switch = Stays | Loads nat | ToHost

definition dispatch :: "nat \<Rightarrow> kern \<Rightarrow> kern" where
  "dispatch n k =
     (upd n (\<lambda>t. t\<lparr>t_state := RV9K_RUNNING, t_entered_tick := k_ticks k,
                 t_last_ran_seq := k_switches k + 1\<rparr>) k)
       \<lparr>k_switches := k_switches k + 1, k_current := Some n\<rparr>"

definition charge_out :: "nat \<Rightarrow> kern \<Rightarrow> kern" where
  "charge_out p k =
     upd p (\<lambda>t. let t1 = t\<lparr>t_ran_ticks := t_ran_ticks t + (k_ticks k - t_entered_tick t)\<rparr>
               in if t_state t = RV9K_RUNNING then t1\<lparr>t_state := RV9K_READY\<rparr> else t1) k"

definition overran :: "kern \<Rightarrow> bool" where
  "overran k = (case k_current k of None \<Rightarrow> False | Some p \<Rightarrow> \<not> stack_intact (thr k p))"

definition sched_round :: "kern \<Rightarrow> kern" where
  "sched_round k = age_threads (wake_sleepers (reap_dead k))"

definition save_sp :: "nat \<Rightarrow> nat \<Rightarrow> kern \<Rightarrow> kern" where
  "save_sp p here = upd p (\<lambda>t. t\<lparr>t_sp := here\<rparr>)"

text \<open>A thread that ran off its stack is stopped as it is left; its context is not saved.\<close>

definition leave_check :: "kern \<Rightarrow> kern" where
  "leave_check k =
     (case k_current k of Some p \<Rightarrow> if overran k then stack_fault p k else k | None \<Rightarrow> k)"

text \<open>\<open>here\<close> is the stack pointer \<open>rv9_ctx_switch\<close> stores for the thread switched out; the
  pointer it loads is evaluated before it is called.\<close>

definition switch_from :: "nat option \<Rightarrow> bool \<Rightarrow> nat \<Rightarrow> kern \<Rightarrow> kern \<times> switch" where
  "switch_from prev abandon here k =
     (case pick_next k of
        None \<Rightarrow>
          let k1 = k\<lparr>k_current := None\<rparr> in
          (case prev of
             None \<Rightarrow> (k1, Stays)
           | Some p \<Rightarrow> if abandon then (k1, ToHost) else (save_sp p here k1, ToHost))
      | Some n \<Rightarrow>
          if prev = Some n \<and> t_state (thr k n) = RV9K_RUNNING then (k, Stays)
          else
            let k1 = dispatch n (case prev of Some p \<Rightarrow> charge_out p k | None \<Rightarrow> k);
                loads = Loads (t_sp (thr k1 n))
            in (case prev of
                  None \<Rightarrow> (k1, loads)
                | Some p \<Rightarrow> if abandon then (k1, loads) else (save_sp p here k1, loads)))"

definition reschedule :: "nat \<Rightarrow> kern \<Rightarrow> kern \<times> switch" where
  "reschedule here k =
     (let k1 = drain_pending k in
      if k_sched_lock k1 > 0 then (k1, Stays)
      else switch_from (k_current k1) (overran k1) here (sched_round (leave_check k1)))"

definition rv9k_sched_lock :: "kern \<Rightarrow> kern" where
  "rv9k_sched_lock k = k\<lparr>k_sched_lock := k_sched_lock k + 1\<rparr>"

definition rv9k_sched_unlock :: "nat \<Rightarrow> kern \<Rightarrow> kern \<times> switch" where
  "rv9k_sched_unlock here k =
     (let k1 = k\<lparr>k_sched_lock := k_sched_lock k - 1\<rparr> in
      if k_sched_lock k1 = 0 \<and> k_current k1 \<noteq> None then reschedule here k1 else (k1, Stays))"

text \<open>One turn of \<open>rv9k_serve\<close>'s and of \<open>rv9k_run\<close>'s loop; \<open>Stays\<close> is the idle turn.\<close>

definition host_turn :: "kern \<Rightarrow> kern \<times> switch" where
  "host_turn k =
     (case pick_next k of
        None \<Rightarrow> (k, Stays)
      | Some n \<Rightarrow> let k1 = dispatch n k in (k1, Loads (t_sp (thr k1 n))))"

definition serve_turn :: "kern \<Rightarrow> kern \<times> switch" where
  "serve_turn k = host_turn (sched_round (drain_pending (k\<lparr>k_running := True\<rparr>)))"

definition run_turn :: "kern \<Rightarrow> kern \<times> switch" where
  "run_turn k = (if any_alive k then host_turn (sched_round k) else (k\<lparr>k_running := False\<rparr>, Stays))"

definition host_back :: "kern \<Rightarrow> kern" where
  "host_back k = k\<lparr>k_current := None\<rparr>"

section \<open>What a thread asks for\<close>

definition rv9k_yield :: "nat \<Rightarrow> kern \<Rightarrow> kern \<times> switch" where
  "rv9k_yield here k = (if k_current k \<noteq> None then reschedule here k else (k, Stays))"

definition rv9k_sleep_ticks :: "u32 \<Rightarrow> nat \<Rightarrow> kern \<Rightarrow> kern \<times> switch" where
  "rv9k_sleep_ticks ticks here k =
     (case k_current k of
        None \<Rightarrow> (k, Stays)
      | Some s \<Rightarrow> reschedule here
          (upd s (\<lambda>t. t\<lparr>t_wake_at_tick := k_ticks k + ticks, t_state := RV9K_SLEEPING\<rparr>) k))"

definition rv9k_sleep_ms :: "u32 \<Rightarrow> nat \<Rightarrow> kern \<Rightarrow> kern \<times> switch" where
  "rv9k_sleep_ms ms = rv9k_sleep_ticks (RV9K_MS_TO_TICKS ms)"

definition rv9k_preempt_point :: "nat \<Rightarrow> kern \<Rightarrow> kern \<times> switch" where
  "rv9k_preempt_point here k =
     (case k_current k of
        None \<Rightarrow> (k, Stays)
      | Some s \<Rightarrow> if k_ticks k = t_entered_tick (thr k s) then (k, Stays) else reschedule here k)"

definition rv9k_exit :: "nat \<Rightarrow> kern \<Rightarrow> kern \<times> switch" where
  "rv9k_exit here k =
     (case k_current k of
        None \<Rightarrow> (k, Stays)
      | Some s \<Rightarrow> reschedule here (upd s (\<lambda>t. t\<lparr>t_state := RV9K_DEAD\<rparr>) k))"

text \<open>\<open>block_on\<close> up to its \<open>reschedule\<close> (None: no thread to block, answers false), and
  from there on.\<close>

definition block_mark :: "nat \<Rightarrow> u32 \<Rightarrow> nat \<Rightarrow> kern \<Rightarrow> kern" where
  "block_mark q ms s k =
     (waitq_push q s
       (upd s (\<lambda>t. let dl = (ms \<noteq> RV9K_WAIT_FOREVER) in
            t\<lparr>t_blocked_on := Some q, t_has_deadline := dl,
              t_wake_at_tick := (if dl then k_ticks k + RV9K_MS_TO_TICKS ms else 0),
              t_state := RV9K_BLOCKED\<rparr>) k))
     \<lparr>k_blocks := k_blocks k + 1\<rparr>"

definition block_enter :: "nat \<Rightarrow> u32 \<Rightarrow> nat \<Rightarrow> kern \<Rightarrow> (kern \<times> switch) option" where
  "block_enter q ms here k = map_option (\<lambda>s. reschedule here (block_mark q ms s k)) (k_current k)"

definition block_resume :: "nat \<Rightarrow> nat \<Rightarrow> kern \<Rightarrow> kern \<times> bool" where
  "block_resume q s k =
     (if t_blocked_on (thr k s) = Some q
      then (upd s (\<lambda>t. t\<lparr>t_blocked_on := None\<rparr>) (waitq_remove q s k), False)
      else (k, True))"

section \<open>Ending another thread\<close>

definition unblock :: "nat \<Rightarrow> kern \<Rightarrow> kern" where
  "unblock i k =
     (case t_blocked_on (thr k i) of
        None \<Rightarrow> k
      | Some q \<Rightarrow> upd i (\<lambda>t. t\<lparr>t_blocked_on := None\<rparr>) (waitq_remove q i k))"

definition rv9k_thread_kill :: "nat \<Rightarrow> nat \<Rightarrow> kern \<Rightarrow> kern \<times> switch" where
  "rv9k_thread_kill here i k =
     (if k_current k = Some i then rv9k_exit here k
      else (upd i (\<lambda>t. t\<lparr>t_state := RV9K_DEAD\<rparr>) (unblock i k), Stays))"

definition rv9k_thread_stop :: "nat \<Rightarrow> kern \<Rightarrow> kern \<times> int" where
  "rv9k_thread_stop i k =
     (if k_current k = Some i \<or> t_state (thr k i) = RV9K_DEAD then (k, - 1)
      else if t_holds (thr k i) > 0 then (upd i (\<lambda>t. t\<lparr>t_cancel := True\<rparr>) k, - 2)
      else (upd i (\<lambda>t. t\<lparr>t_fault := RV9K_FAULT_KILLED, t_held := True, t_state := RV9K_DEAD\<rparr>)
              (unblock i k), 0))"

end
