(* ===== verification/KSchedInv.thy ===== *)
theory KSchedInv
  imports KSched
begin

text \<open>
  What the scheduler keeps true. Three invariants of the kernel's state -- the priority law,
  "only the current thread is running", and the agreement of wait queues with the threads'
  \<open>blocked_on\<close> -- each kept by every operation, and so by every run.
\<close>

section \<open>The operations of a run\<close>

datatype kop =
    OTick
  | OCreate bool "(nat \<Rightarrow> nat) option" u32 u32 u32 "string option" nat int
  | OYield nat | OSleep u32 nat | OPreempt nat | OExit nat
  | OBlock nat u32 nat | OResume nat
  | OWake nat | OIsr nat
  | OKill nat nat | OStop nat | ORelease nat
  | OPrio nat int | OBoost nat int | OUnboost nat
  | OLock | OUnlock nat
  | OHost
  | OStack nat "u32 list"

text \<open>\<open>OHost\<close> is a turn of the host's loop, which runs only while no thread does.\<close>

fun kstep :: "kern \<Rightarrow> kop \<Rightarrow> kern" where
  "kstep k OTick = rv9k_tick k"
| "kstep k (OCreate flen al tramp fn arg name bytes p) = fst (rv9k_thread_create flen al tramp fn arg name bytes p k)"
| "kstep k (OYield sp) = fst (rv9k_yield sp k)"
| "kstep k (OSleep t sp) = fst (rv9k_sleep_ticks t sp k)"
| "kstep k (OPreempt sp) = fst (rv9k_preempt_point sp k)"
| "kstep k (OExit sp) = fst (rv9k_exit sp k)"
| "kstep k (OBlock q ms sp) = (case block_enter q ms sp k of None \<Rightarrow> k | Some r \<Rightarrow> fst r)"
| "kstep k (OResume q) = (case k_current k of None \<Rightarrow> k | Some s \<Rightarrow> fst (block_resume q s k))"
| "kstep k (OWake q) = fst (waitq_pop_best q k)"
| "kstep k (OIsr q) = pend_wake q k"
| "kstep k (OKill sp i) = fst (rv9k_thread_kill sp i k)"
| "kstep k (OStop i) = fst (rv9k_thread_stop i k)"
| "kstep k (ORelease i) = rv9k_thread_release i k"
| "kstep k (OPrio i p) = rv9k_priority_set i p k"
| "kstep k (OBoost i p) = rv9k_priority_boost i p k"
| "kstep k (OUnboost i) = rv9k_priority_unboost i k"
| "kstep k OLock = rv9k_sched_lock k"
| "kstep k (OUnlock sp) = fst (rv9k_sched_unlock sp k)"
| "kstep k OHost = (if k_current k = None then fst (serve_turn k) else k)"
| "kstep k (OStack i m) = (if k_current k = Some i then upd i (\<lambda>t. t\<lparr>t_mem := m\<rparr>) k else k)"

section \<open>A rule for every invariant of threads one at a time\<close>

text \<open>
  A property of single threads that the elementary updates keep is kept by the scheduler's
  composite operations. \<open>waitq_set\<close> and the counters do not touch threads.
\<close>

lemma frames [simp]:
  "k_threads (waitq_set q xs k) = k_threads k" "k_current (waitq_set q xs k) = k_current k"
  "k_ticks (waitq_set q xs k) = k_ticks k" "k_sched_lock (waitq_set q xs k) = k_sched_lock k"
  "k_switches (waitq_set q xs k) = k_switches k"
  "k_pend_head (waitq_set q xs k) = k_pend_head k" "k_pend_tail (waitq_set q xs k) = k_pend_tail k"
  "k_pending (waitq_set q xs k) = k_pending k"
  "k_waitq (waitq_set q xs k) = (k_waitq k)(q := xs)"
  by (simp_all add: waitq_set_def)

lemma waitq_best_mem: "waitq_best q k = Some b \<Longrightarrow> b \<in> set (k_waitq k q)"
  unfolding waitq_best_def using best_of_mem by fastforce

lemma waitq_best_None: "waitq_best q k = None \<longleftrightarrow> k_waitq k q = []"
  by (simp add: waitq_best_def)


lemma reap_frame [simp]:
  "k_current (reap_dead k) = k_current k" "k_ticks (reap_dead k) = k_ticks k"
  "k_waitq (reap_dead k) = k_waitq k" "k_sched_lock (reap_dead k) = k_sched_lock k"
  "k_switches (reap_dead k) = k_switches k"
  "length (k_threads (reap_dead k)) = length (k_threads k)"
  by (simp_all add: reap_dead_def indices_def)

lemma thr_reap:
  "i < length (k_threads k) \<Longrightarrow>
   thr (reap_dead k) i = (if reapable k i then reap_thread (thr k i) else thr k i)"
  by (simp add: reap_dead_def indices_def)

lemma wake_frame [simp]:
  "k_current (wake_sleepers k) = k_current k" "k_ticks (wake_sleepers k) = k_ticks k"
  "k_waitq (wake_sleepers k) = k_waitq k" "k_sched_lock (wake_sleepers k) = k_sched_lock k"
  "k_switches (wake_sleepers k) = k_switches k"
  "length (k_threads (wake_sleepers k)) = length (k_threads k)"
  by (simp_all add: wake_sleepers_def each_thread_def)

lemma thr_wake: "i < length (k_threads k) \<Longrightarrow> thr (wake_sleepers k) i = wake_one (k_ticks k) (thr k i)"
  by (simp add: wake_sleepers_def each_thread_def)

lemma age_frame [simp]:
  "k_current (age_threads k) = k_current k" "k_ticks (age_threads k) = k_ticks k"
  "k_waitq (age_threads k) = k_waitq k" "k_sched_lock (age_threads k) = k_sched_lock k"
  "k_switches (age_threads k) = k_switches k"
  "length (k_threads (age_threads k)) = length (k_threads k)"
  by (simp_all add: age_threads_def Let_def indices_def)

lemma thr_age:
  "i < length (k_threads k) \<Longrightarrow>
   thr (age_threads k) i = thr k i \<or> (\<exists>b. thr (age_threads k) i = age_one b (thr k i))"
  by (auto simp: age_threads_def Let_def indices_def)

lemma round_frame [simp]:
  "k_current (sched_round k) = k_current k" "k_ticks (sched_round k) = k_ticks k"
  "k_waitq (sched_round k) = k_waitq k" "k_sched_lock (sched_round k) = k_sched_lock k"
  "k_switches (sched_round k) = k_switches k"
  "length (k_threads (sched_round k)) = length (k_threads k)"
  by (simp_all add: sched_round_def)

lemma pop_frame [simp]:
  "k_current (fst (waitq_pop_best q k)) = k_current k"
  "k_ticks (fst (waitq_pop_best q k)) = k_ticks k"
  "k_sched_lock (fst (waitq_pop_best q k)) = k_sched_lock k"
  "k_switches (fst (waitq_pop_best q k)) = k_switches k"
  "k_pend_head (fst (waitq_pop_best q k)) = k_pend_head k"
  "k_pend_tail (fst (waitq_pop_best q k)) = k_pend_tail k"
  "k_pending (fst (waitq_pop_best q k)) = k_pending k"
  "length (k_threads (fst (waitq_pop_best q k))) = length (k_threads k)"
  by (simp_all add: waitq_pop_best_def waitq_remove_def split: option.split)

lemma drain_frame [simp]:
  "k_current (drain_turns n k) = k_current k" "k_ticks (drain_turns n k) = k_ticks k"
  "k_sched_lock (drain_turns n k) = k_sched_lock k" "k_switches (drain_turns n k) = k_switches k"
  "length (k_threads (drain_turns n k)) = length (k_threads k)"
  by (induction n arbitrary: k) (simp_all add: drain_one_def Let_def)

lemma drain_pending_frame [simp]:
  "k_current (drain_pending k) = k_current k" "k_ticks (drain_pending k) = k_ticks k"
  "k_sched_lock (drain_pending k) = k_sched_lock k" "k_switches (drain_pending k) = k_switches k"
  "length (k_threads (drain_pending k)) = length (k_threads k)"
  by (simp_all add: drain_pending_def)

lemma charge_frame [simp]:
  "k_current (charge_out p k) = k_current k" "k_switches (charge_out p k) = k_switches k"
  "k_waitq (charge_out p k) = k_waitq k"
  "length (k_threads (charge_out p k)) = length (k_threads k)"
  by (simp_all add: charge_out_def)

lemma dispatch_frame [simp]:
  "k_current (dispatch n k) = Some n" "k_waitq (dispatch n k) = k_waitq k"
  "k_switches (dispatch n k) = k_switches k + 1"
  "length (k_threads (dispatch n k)) = length (k_threads k)"
  by (simp_all add: dispatch_def)

lemma save_frame [simp]:
  "k_current (save_sp p here k) = k_current k" "k_waitq (save_sp p here k) = k_waitq k"
  "k_switches (save_sp p here k) = k_switches k"
  "length (k_threads (save_sp p here k)) = length (k_threads k)"
  by (simp_all add: save_sp_def)

lemma fault_frame [simp]:
  "k_current (stack_fault p k) = k_current k" "k_waitq (stack_fault p k) = k_waitq k"
  "k_switches (stack_fault p k) = k_switches k" "k_ticks (stack_fault p k) = k_ticks k"
  "length (k_threads (stack_fault p k)) = length (k_threads k)"
  by (simp_all add: stack_fault_def)

lemma check_frame [simp]:
  "k_current (leave_check k) = k_current k" "k_waitq (leave_check k) = k_waitq k"
  "k_switches (leave_check k) = k_switches k" "k_ticks (leave_check k) = k_ticks k"
  "length (k_threads (leave_check k)) = length (k_threads k)"
  by (simp_all add: leave_check_def split: option.split)

section \<open>Invariants through a switch\<close>

text \<open>
  A property of the kernel's state that the elementary steps of a switch keep is kept by
  the whole of \<open>reschedule\<close> and by the host's turns.
\<close>

definition charged :: "kern \<Rightarrow> kern" where
  "charged k = (case k_current k of Some p \<Rightarrow> charge_out p k | None \<Rightarrow> k)"

locale switch_stable =
  fixes I :: "kern \<Rightarrow> bool"
  assumes pop: "I k \<Longrightarrow> I (fst (waitq_pop_best q k))"
    and tail: "I k \<Longrightarrow> I (k\<lparr>k_pend_tail := n\<rparr>)"
    and reap: "I k \<Longrightarrow> I (reap_dead k)"
    and wake: "I k \<Longrightarrow> I (wake_sleepers k)"
    and aged: "I k \<Longrightarrow> I (age_threads k)"
    and fault: "I k \<Longrightarrow> k_current k = Some p \<Longrightarrow> overran k \<Longrightarrow> I (stack_fault p k)"
    and to_host: "I k \<Longrightarrow> pick_next k = None \<Longrightarrow> I (k\<lparr>k_current := None\<rparr>)"
    and run_next: "I k \<Longrightarrow> pick_next k = Some n \<Longrightarrow> I (dispatch n (charged k))"
    and save: "I k \<Longrightarrow> I (save_sp p here k)"
    and running: "I k \<Longrightarrow> I (k\<lparr>k_running := b\<rparr>)"
begin

lemma drain: "I k \<Longrightarrow> I (drain_pending k)"
proof -
  have "I k \<Longrightarrow> I (drain_turns n k)" for n
    by (induction n arbitrary: k) (simp_all add: drain_one_def Let_def pop tail)
  then show "I k \<Longrightarrow> I (drain_pending k)" by (simp add: drain_pending_def)
qed

lemma one_round: "I k \<Longrightarrow> I (sched_round k)"
  by (simp add: sched_round_def reap wake aged)

lemma turn: "I k \<Longrightarrow> k_current k = None \<Longrightarrow> I (fst (host_turn k))"
  using run_next [of k] by (auto simp: host_turn_def Let_def charged_def split: option.split)

lemma serve: "I k \<Longrightarrow> k_current k = None \<Longrightarrow> I (fst (serve_turn k))"
  unfolding serve_turn_def by (rule turn) (simp_all add: one_round drain running)

lemma run: "I k \<Longrightarrow> k_current k = None \<Longrightarrow> I (fst (run_turn k))"
  by (auto simp: run_turn_def intro: turn one_round running)

lemma check: "I k \<Longrightarrow> I (leave_check k)"
  by (auto simp: leave_check_def fault split: option.split)

lemma from_switch: "I k \<Longrightarrow> I (fst (switch_from (k_current k) ab here k))"
  using to_host [of k] run_next [of k]
  by (auto simp: switch_from_def Let_def charged_def split: option.splits intro: save)

lemma switch: "I k \<Longrightarrow> I (fst (reschedule here k))"
  using from_switch [of "sched_round (leave_check (drain_pending k))"]
  by (simp add: reschedule_def Let_def drain one_round check)

lemma yielding: "I k \<Longrightarrow> I (fst (rv9k_yield here k))"
  by (simp add: rv9k_yield_def switch)

lemma preempting: "I k \<Longrightarrow> I (fst (rv9k_preempt_point here k))"
  by (simp add: rv9k_preempt_point_def switch split: option.split)

end


section \<open>Laws of single threads\<close>

text \<open>The fields of a thread that its scheduling state does not touch.\<close>

definition core :: "kthread \<Rightarrow> int \<times> int \<times> int \<times> int \<times> nat \<times> u32 list" where
  "core t = (t_base_priority t, t_age t, t_boost t, t_effective_priority t, t_stack t, t_mem t)"

lemma pick_next_range: "pick_next k = Some n \<Longrightarrow> n < length (k_threads k) \<and> runnable (thr k n)"
  unfolding pick_next_def indices_def using best_of_mem by fastforce

locale thread_law =
  fixes P :: "kthread \<Rightarrow> bool"
  assumes frame: "P t \<Longrightarrow> core t' = core t \<Longrightarrow> P t'"
    and reaped: "P t \<Longrightarrow> P (t\<lparr>t_stack := 0\<rparr>)"
    and set_base: "P t \<Longrightarrow> P (recompute_priority (t\<lparr>t_base_priority := clamp_prio p, t_age := 0\<rparr>))"
    and set_boost: "P t \<Longrightarrow> t_boost t < p \<Longrightarrow> p \<le> RV9K_PRIO_MAX \<Longrightarrow> P (recompute_priority (t\<lparr>t_boost := p\<rparr>))"
    and no_boost: "P t \<Longrightarrow> P (recompute_priority (t\<lparr>t_boost := 0\<rparr>))"
    and one_age: "P t \<Longrightarrow> P (age_one b t)"
    and created: "128 \<le> words \<Longrightarrow> P (new_thread flen base words tramp fn arg name p t)"
begin

lemma same: "P t \<Longrightarrow> core (f t) = core t \<Longrightarrow> P (f t)"
  by (rule frame)

lemma law_upd: "all_threads P k \<Longrightarrow> (\<And>t. core (f t) = core t) \<Longrightarrow> all_threads P (upd i f k)"
  by (rule all_threads_upd) (auto intro: frame)

lemma reap_one: "P t \<Longrightarrow> P (reap_thread t)"
  by (rule frame [OF reaped]) (simp_all add: reap_thread_def core_def Let_def)

lemma wake_one_law: "P t \<Longrightarrow> P (wake_one now t)"
  by (rule frame [of t]) (simp_all add: wake_one_def core_def)

lemma law_pop: "all_threads P k \<Longrightarrow> all_threads P (fst (waitq_pop_best q k))"
  by (auto simp: waitq_pop_best_def core_def waitq_remove_def all_threads_cong [OF frames(1)]
      split: option.split intro!: law_upd)

end

sublocale thread_law \<subseteq> switch_stable "all_threads P"
proof unfold_locales
  fix k q assume k: "all_threads P k"
  show "all_threads P (fst (waitq_pop_best q k))" by (rule law_pop [OF k])
next
  fix k n assume "all_threads P k"
  then show "all_threads P (k\<lparr>k_pend_tail := n\<rparr>)" by (simp add: all_threads_def)
next
  fix k assume k: "all_threads P k"
  show "all_threads P (reap_dead k)"
    by (rule all_threads_map [OF k, where f = "\<lambda>i. if reapable k i then reap_thread (thr k i) else thr k i"])
       (auto simp: reap_dead_def reap_one)
next
  fix k assume k: "all_threads P k"
  then show "all_threads P (wake_sleepers k)"
    by (simp add: wake_sleepers_def each_thread_def all_threads_def list_all_length wake_one_law)
next
  fix k assume k: "all_threads P k"
  show "all_threads P (age_threads k)"
  proof (cases "k_ticks k - k_last_age_tick k < RV9K_AGE_PERIOD_TICKS")
    case True
    then show ?thesis using k by (simp add: age_threads_def)
  next
    case False
    show ?thesis
      by (rule all_threads_map [OF k, where f = "\<lambda>i. age_one (Some i = top_thread k) (thr k i)"])
         (use False in \<open>simp_all add: age_threads_def Let_def one_age\<close>)
  qed
next
  fix k p assume "all_threads P k"
  then show "all_threads P (stack_fault p k)"
    unfolding stack_fault_def
    by (subst all_threads_cong, simp) (rule law_upd, simp_all add: core_def)
next
  fix k assume "all_threads P k"
  then show "all_threads P (k\<lparr>k_current := None\<rparr>)" by (simp add: all_threads_def)
next
  fix k n assume k: "all_threads P k"
  have "all_threads P (charged k)"
    using k by (auto simp: charged_def charge_out_def core_def Let_def split: option.split intro!: law_upd)
  then show "all_threads P (dispatch n (charged k))"
    unfolding dispatch_def
    by (subst all_threads_cong, simp) (rule law_upd, simp_all add: core_def)
next
  fix k p here assume "all_threads P k"
  then show "all_threads P (save_sp p here k)"
    unfolding save_sp_def by (rule law_upd) (simp add: core_def)
next
  fix k b assume "all_threads P k"
  then show "all_threads P (k\<lparr>k_running := b\<rparr>)" by (simp add: all_threads_def)
qed


context thread_law
begin

lemma law_unblock: "all_threads P k \<Longrightarrow> all_threads P (unblock i k)"
  by (auto simp: unblock_def core_def waitq_remove_def all_threads_cong [OF frames(1)]
      split: option.split intro!: law_upd)

lemma law_block_mark: "all_threads P k \<Longrightarrow> all_threads P (block_mark q ms s k)"
  unfolding block_mark_def waitq_push_def
  by (subst all_threads_cong, simp) (rule law_upd, simp_all add: core_def Let_def)

lemma law_exit: "all_threads P k \<Longrightarrow> all_threads P (fst (rv9k_exit sp k))"
  by (auto simp: rv9k_exit_def core_def split: option.split intro!: switch law_upd)

lemma law_kill: "all_threads P k \<Longrightarrow> all_threads P (fst (rv9k_thread_kill sp i k))"
  by (auto simp: rv9k_thread_kill_def core_def intro!: law_exit law_upd law_unblock)

lemma law_stop: "all_threads P k \<Longrightarrow> all_threads P (fst (rv9k_thread_stop i k))"
  by (auto simp: rv9k_thread_stop_def core_def intro!: law_upd law_unblock)

lemma law_create:
  "all_threads P k \<Longrightarrow> all_threads P (fst (rv9k_thread_create flen al tramp fn arg name bytes p k))"
  by (auto simp: rv9k_thread_create_def words_for_def Let_def
      split: option.split intro!: all_threads_upd created)

lemma law_boost: "all_threads P k \<Longrightarrow> all_threads P (rv9k_priority_boost i p k)"
  by (auto simp: rv9k_priority_boost_def Let_def intro!: all_threads_upd set_boost)

lemma law_unboost: "all_threads P k \<Longrightarrow> all_threads P (rv9k_priority_unboost i k)"
  by (auto simp: rv9k_priority_unboost_def intro!: all_threads_upd no_boost)

lemma law_unlock: "all_threads P k \<Longrightarrow> all_threads P (fst (rv9k_sched_unlock sp k))"
  using switch [of "k\<lparr>k_sched_lock := k_sched_lock k - 1\<rparr>" sp]
  by (auto simp: rv9k_sched_unlock_def Let_def all_threads_def)

lemma law_tick: "all_threads P k \<Longrightarrow> all_threads P (rv9k_tick k)"
  by (simp add: rv9k_tick_def all_threads_def)

lemma law_sleep: "all_threads P k \<Longrightarrow> all_threads P (fst (rv9k_sleep_ticks t sp k))"
  by (auto simp: rv9k_sleep_ticks_def core_def split: option.split intro!: switch law_upd)

lemma law_block: "all_threads P k \<Longrightarrow> block_enter q ms sp k = Some r \<Longrightarrow> all_threads P (fst r)"
  by (auto simp: block_enter_def intro!: switch law_block_mark)

lemma law_resume: "all_threads P k \<Longrightarrow> all_threads P (fst (block_resume q s k))"
  by (auto simp: block_resume_def core_def waitq_remove_def all_threads_cong [OF frames(1)]
      intro!: law_upd)

lemma law_isr: "all_threads P k \<Longrightarrow> all_threads P (pend_wake q k)"
  by (simp add: pend_wake_def Let_def all_threads_def)

lemma law_init: "all_threads P k \<Longrightarrow> all_threads P (rv9k_init k)"
proof -
  have "P (t\<lparr>t_state := RV9K_DEAD, t_held := False\<rparr>)" if "P t" for t
    by (rule frame [OF that]) (simp add: core_def)
  then show "all_threads P k \<Longrightarrow> all_threads P (rv9k_init k)"
    by (simp add: rv9k_init_def each_thread_def all_threads_def list_all_length)
qed

lemmas law_ops = law_tick law_create yielding law_sleep preempting law_exit law_resume law_pop
  law_isr law_kill law_stop law_boost law_unboost law_unlock

lemma law_step:
  assumes "all_threads P k" "\<And>i m. e = OStack i m \<Longrightarrow> P (thr k i) \<Longrightarrow> P ((thr k i)\<lparr>t_mem := m\<rparr>)"
  shows "all_threads P (kstep k e)"
proof (cases e)
  case (OStack i m)
  with assms show ?thesis by (auto intro: all_threads_upd)
next
  case OLock
  with assms(1) show ?thesis by (simp add: rv9k_sched_lock_def all_threads_def)
next
  case (ORelease i)
  with assms(1) show ?thesis by (simp add: rv9k_thread_release_def law_upd core_def)
next
  case (OPrio i p)
  with assms(1) show ?thesis by (auto simp: rv9k_priority_set_def intro: all_threads_upd set_base)
next
  case OHost
  with assms(1) show ?thesis by (simp add: serve)
next
  case (OBlock q ms sp)
  with assms(1) show ?thesis by (auto split: option.split dest: law_block)
qed (use assms(1) in \<open>simp_all add: law_ops split: option.split\<close>)

end

section \<open>The priority law\<close>

interpretation prio_law: thread_law prio_ok
proof unfold_locales
  fix t t' assume "prio_ok t" "core t' = core t"
  then show "prio_ok t'" by (auto simp: core_def intro: prio_ok_frame)
next
  fix t assume "prio_ok t"
  then show "prio_ok (t\<lparr>t_stack := 0\<rparr>)" by (simp add: prio_ok_def)
next
  fix t p assume "prio_ok t"
  then show "prio_ok (recompute_priority (t\<lparr>t_base_priority := clamp_prio p, t_age := 0\<rparr>))"
    by (intro prio_ok_recompute) (simp_all add: prio_ok_def)
next
  fix t p assume "prio_ok t" "t_boost t < p" "p \<le> RV9K_PRIO_MAX"
  then show "prio_ok (recompute_priority (t\<lparr>t_boost := p\<rparr>))"
    by (intro prio_ok_recompute) (simp_all add: prio_ok_def k_consts)
next
  fix t assume "prio_ok t"
  then show "prio_ok (recompute_priority (t\<lparr>t_boost := 0\<rparr>))"
    by (intro prio_ok_recompute) (simp_all add: prio_ok_def)
next
  fix b t assume "prio_ok t"
  then show "prio_ok (age_one b t)" by (rule prio_ok_age_one)
next
  fix flen and base words :: nat and tramp fn arg name p t assume "128 \<le> words"
  show "prio_ok (new_thread flen base words tramp fn arg name p t)"
    by (simp add: new_thread_def prio_ok_def Let_def)
qed

interpretation prio_run: step_invariant kstep prios_ok
  by unfold_locales (rule prio_law.law_step, simp_all add: prio_ok_def)


section \<open>Stacks stay intact while nobody writes below one\<close>

lemma quarter_bounds:
  fixes w y q r :: nat
  assumes "4 * w < y + 16" "y \<le> 4 * w" "q * 4 + r = y" "r < 4"
  shows "w < q + 5 \<and> q \<le> w"
  using assms by linarith

lemma frame_index_range:
  assumes "128 \<le> words"
  shows "RV9K_STACK_PAD_WORDS + RV9K_GUARD_WORDS \<le> frame_index flen base words"
    "frame_index flen base words + CTX_WORDS flen \<le> words + RV9K_STACK_PAD_WORDS"
proof -
  define e where "e = base + 4 * (RV9K_STACK_PAD_WORDS + words)"
  define y where "y = e div 16 * 16 - base"
  have "e div 16 * 16 + e mod 16 = e" "e mod 16 < 16" by simp_all
  then have "4 * (RV9K_STACK_PAD_WORDS + words) < y + 16" "y \<le> 4 * (RV9K_STACK_PAD_WORDS + words)"
    unfolding y_def e_def by simp_all
  moreover have "y div 4 * 4 + y mod 4 = y" "y mod 4 < 4" by simp_all
  ultimately have "RV9K_STACK_PAD_WORDS + words < y div 4 + 5 \<and>
    y div 4 \<le> RV9K_STACK_PAD_WORDS + words" by (rule quarter_bounds)
  moreover have "frame_index flen base words = y div 4 - CTX_WORDS flen" by (simp only: frame_index_def y_def e_def)
  ultimately show "RV9K_STACK_PAD_WORDS + RV9K_GUARD_WORDS \<le> frame_index flen base words"
    "frame_index flen base words + CTX_WORDS flen \<le> words + RV9K_STACK_PAD_WORDS"
    using assms by (auto simp: RV9K_STACK_PAD_WORDS_def RV9K_GUARD_WORDS_def CTX_WORDS_def)
qed

lemma new_thread_intact: "128 \<le> words \<Longrightarrow> stack_intact (new_thread flen base words tramp fn arg name p t)"
  using frame_index_range [of words flen base]
  by (simp add: stack_intact_def new_thread_def Let_def write_words_def list_all_iff min_def)

interpretation intact_law: thread_law stack_intact
proof unfold_locales
  fix t t' assume "stack_intact t" "core t' = core t"
  then show "stack_intact t'" by (auto simp: core_def stack_intact_def)
qed (simp_all add: stack_intact_def recompute_priority_def age_one_def
       new_thread_intact [unfolded stack_intact_def])

text \<open>A run in which no thread writes the pad or the guard of its stack.\<close>

fun clean_op :: "kop \<Rightarrow> bool" where
  "clean_op (OStack i m) =
     list_all (\<lambda>w. w = RV9K_STACK_PAINT) (take (RV9K_STACK_PAD_WORDS + RV9K_GUARD_WORDS) m)"
| "clean_op _ = True"

lemma intact_step: "all_threads stack_intact k \<Longrightarrow> clean_op e \<Longrightarrow> all_threads stack_intact (kstep k e)"
  by (rule intact_law.law_step) (auto simp: stack_intact_def)

lemma intact_not_overran: "all_threads stack_intact k \<Longrightarrow> k_current k = Some p \<Longrightarrow>
  p < length (k_threads k) \<Longrightarrow> \<not> overran k"
  by (simp add: overran_def all_threads_thr)

section \<open>One thread runs\<close>

definition cur_ok :: "kern \<Rightarrow> bool" where
  "cur_ok k \<longleftrightarrow>
     (\<forall>i. k_current k = Some i \<longrightarrow> i < length (k_threads k)) \<and>
     (\<forall>i<length (k_threads k). k_current k \<noteq> Some i \<longrightarrow> t_state (thr k i) \<noteq> RV9K_RUNNING)"

lemma cur_ok_upd:
  assumes "cur_ok k" "t_state (f (thr k i)) = RV9K_RUNNING \<Longrightarrow> t_state (thr k i) = RV9K_RUNNING"
  shows "cur_ok (upd i f k)"
  using assms by (auto simp: cur_ok_def thr_upd)

lemma cur_ok_cong:
  "k_threads k' = k_threads k \<Longrightarrow> k_current k' = k_current k \<Longrightarrow> cur_ok k' = cur_ok k"
  by (simp add: cur_ok_def)

lemma cur_ok_map:
  assumes "cur_ok k" "length (k_threads k') = length (k_threads k)" "k_current k' = k_current k"
    "\<And>i. i < length (k_threads k) \<Longrightarrow> t_state (thr k' i) = RV9K_RUNNING \<Longrightarrow> t_state (thr k i) = RV9K_RUNNING"
  shows "cur_ok k'"
  using assms unfolding cur_ok_def by metis

lemma age_state [simp]: "i < length (k_threads k) \<Longrightarrow> t_state (thr (age_threads k) i) = t_state (thr k i)"
  using thr_age [of i k] by (auto simp: age_one_def recompute_priority_def)

lemma reap_state [simp]: "i < length (k_threads k) \<Longrightarrow> t_state (thr (reap_dead k) i) = t_state (thr k i)"
  by (simp add: thr_reap reap_thread_def Let_def)

lemma pick_next_None: "pick_next k = None \<longleftrightarrow> (\<forall>i<length (k_threads k). \<not> runnable (thr k i))"
  by (auto simp: pick_next_def indices_def filter_empty_conv)

lemma cur_ok_remove [simp]: "cur_ok (waitq_remove q i k) = cur_ok k" "cur_ok (waitq_set q xs k) = cur_ok k"
  by (simp_all add: waitq_remove_def cur_ok_def)

interpretation cur_switch: switch_stable cur_ok
proof unfold_locales
  fix k q assume "cur_ok k"
  then show "cur_ok (fst (waitq_pop_best q k))"
    by (auto simp: waitq_pop_best_def split: option.split intro!: cur_ok_upd)
next
  fix k n assume "cur_ok k"
  then show "cur_ok (k\<lparr>k_pend_tail := n\<rparr>)" by (simp add: cur_ok_def)
next
  fix k assume k: "cur_ok k"
  show "cur_ok (reap_dead k)" by (rule cur_ok_map [OF k]) simp_all
next
  fix k assume k: "cur_ok k"
  show "cur_ok (wake_sleepers k)"
    by (rule cur_ok_map [OF k]) (auto simp: thr_wake wake_one_def split: if_splits)
next
  fix k assume k: "cur_ok k"
  show "cur_ok (age_threads k)" by (rule cur_ok_map [OF k]) simp_all
next
  fix k p assume "cur_ok k"
  then show "cur_ok (stack_fault p k)"
    unfolding stack_fault_def by (subst cur_ok_cong, simp, simp) (rule cur_ok_upd, simp_all)
next
  fix k assume "cur_ok k" "pick_next k = None"
  then show "cur_ok (k\<lparr>k_current := None\<rparr>)" by (auto simp: cur_ok_def pick_next_None runnable_def)
next
  fix k n assume k: "cur_ok k" and n: "pick_next k = Some n"
  have "t_state (thr (charged k) i) \<noteq> RV9K_RUNNING" if "i < length (k_threads k)" for i
    using k that by (auto simp: cur_ok_def charged_def charge_out_def thr_upd Let_def split: option.split)
  moreover have "length (k_threads (charged k)) = length (k_threads k)"
    by (simp add: charged_def split: option.split)
  ultimately show "cur_ok (dispatch n (charged k))"
    using pick_next_range [OF n] by (auto simp: cur_ok_def dispatch_def thr_upd)
next
  fix k p here assume "cur_ok k"
  then show "cur_ok (save_sp p here k)" unfolding save_sp_def by (rule cur_ok_upd) simp
next
  fix k b assume "cur_ok k"
  then show "cur_ok (k\<lparr>k_running := b\<rparr>)" by (simp add: cur_ok_def)
qed


lemma cur_ok_counters [simp]:
  "cur_ok (k\<lparr>k_ticks := t\<rparr>) = cur_ok k" "cur_ok (k\<lparr>k_sched_lock := n\<rparr>) = cur_ok k"
  "cur_ok (k\<lparr>k_blocks := m\<rparr>) = cur_ok k" "cur_ok (k\<lparr>k_pend_lost := l\<rparr>) = cur_ok k"
  "cur_ok (k\<lparr>k_pending := ps, k_pend_head := h\<rparr>) = cur_ok k"
  by (simp_all add: cur_ok_def)

lemma cur_ok_unblock: "cur_ok k \<Longrightarrow> cur_ok (unblock i k)"
  by (auto simp: unblock_def split: option.split intro!: cur_ok_upd)

lemma cur_ok_block_mark: "cur_ok k \<Longrightarrow> cur_ok (block_mark q ms s k)"
  by (auto simp: block_mark_def waitq_push_def Let_def intro!: cur_ok_upd)

lemma cur_ok_exit: "cur_ok k \<Longrightarrow> cur_ok (fst (rv9k_exit sp k))"
  by (auto simp: rv9k_exit_def split: option.split intro!: cur_switch.switch cur_ok_upd)

lemma cur_ok_create:
  "cur_ok k \<Longrightarrow> cur_ok (fst (rv9k_thread_create flen al tramp fn arg name bytes p k))"
  by (auto simp: rv9k_thread_create_def Let_def new_thread_def split: option.split intro!: cur_ok_upd)

lemma cur_ok_step: "cur_ok k \<Longrightarrow> cur_ok (kstep k e)"
proof (cases e)
  case OTick
  then show "cur_ok k \<Longrightarrow> ?thesis" by (simp add: rv9k_tick_def)
next
  case OCreate
  then show "cur_ok k \<Longrightarrow> ?thesis" by (simp add: cur_ok_create)
next
  case OYield
  then show "cur_ok k \<Longrightarrow> ?thesis" by (simp add: cur_switch.yielding)
next
  case OSleep
  then show "cur_ok k \<Longrightarrow> ?thesis"
    by (auto simp: rv9k_sleep_ticks_def split: option.split intro!: cur_switch.switch cur_ok_upd)
next
  case OPreempt
  then show "cur_ok k \<Longrightarrow> ?thesis" by (simp add: cur_switch.preempting)
next
  case OExit
  then show "cur_ok k \<Longrightarrow> ?thesis" by (simp add: cur_ok_exit)
next
  case OBlock
  then show "cur_ok k \<Longrightarrow> ?thesis"
    by (auto simp: block_enter_def split: option.split intro!: cur_switch.switch cur_ok_block_mark)
next
  case OResume
  then show "cur_ok k \<Longrightarrow> ?thesis"
    by (auto simp: block_resume_def split: option.split intro!: cur_ok_upd)
next
  case OWake
  then show "cur_ok k \<Longrightarrow> ?thesis" by (simp add: cur_switch.pop)
next
  case OIsr
  then show "cur_ok k \<Longrightarrow> ?thesis" by (simp add: pend_wake_def Let_def)
next
  case OKill
  then show "cur_ok k \<Longrightarrow> ?thesis"
    by (auto simp: rv9k_thread_kill_def intro!: cur_ok_exit cur_ok_upd cur_ok_unblock)
next
  case OStop
  then show "cur_ok k \<Longrightarrow> ?thesis"
    by (auto simp: rv9k_thread_stop_def intro!: cur_ok_upd cur_ok_unblock)
next
  case ORelease
  then show "cur_ok k \<Longrightarrow> ?thesis" by (auto simp: rv9k_thread_release_def intro!: cur_ok_upd)
next
  case OPrio
  then show "cur_ok k \<Longrightarrow> ?thesis"
    by (auto simp: rv9k_priority_set_def recompute_priority_def intro!: cur_ok_upd)
next
  case OBoost
  then show "cur_ok k \<Longrightarrow> ?thesis"
    by (auto simp: rv9k_priority_boost_def recompute_priority_def Let_def intro!: cur_ok_upd)
next
  case OUnboost
  then show "cur_ok k \<Longrightarrow> ?thesis"
    by (auto simp: rv9k_priority_unboost_def recompute_priority_def intro!: cur_ok_upd)
next
  case OLock
  then show "cur_ok k \<Longrightarrow> ?thesis" by (simp add: rv9k_sched_lock_def)
next
  case OUnlock
  then show "cur_ok k \<Longrightarrow> ?thesis" by (simp add: rv9k_sched_unlock_def Let_def cur_switch.switch)
next
  case OHost
  then show "cur_ok k \<Longrightarrow> ?thesis" by (simp add: cur_switch.serve)
next
  case OStack
  then show "cur_ok k \<Longrightarrow> ?thesis" by (auto intro!: cur_ok_upd)
qed

interpretation cur_run: step_invariant kstep cur_ok
  by unfold_locales (rule cur_ok_step)

section \<open>Wait queues agree with the threads\<close>

text \<open>
  A thread is on a queue exactly when its \<open>blocked_on\<close> names that queue, at most once, and a
  dead thread is on none. So one \<open>next\<close> link per thread is enough.
\<close>

definition queues_ok :: "kern \<Rightarrow> bool" where
  "queues_ok k \<longleftrightarrow>
     (\<forall>q. distinct (k_waitq k q) \<and> (\<forall>i\<in>set (k_waitq k q). i < length (k_threads k))) \<and>
     (\<forall>q i. i < length (k_threads k) \<longrightarrow> (i \<in> set (k_waitq k q)) = (t_blocked_on (thr k i) = Some q)) \<and>
     (\<forall>i<length (k_threads k). t_state (thr k i) = RV9K_DEAD \<longrightarrow> t_blocked_on (thr k i) = None)"

lemma queues_ok_map:
  assumes "queues_ok k" "length (k_threads k') = length (k_threads k)" "k_waitq k' = k_waitq k"
    "\<And>i. i < length (k_threads k) \<Longrightarrow> t_blocked_on (thr k' i) = t_blocked_on (thr k i)"
    "\<And>i. i < length (k_threads k) \<Longrightarrow> t_state (thr k' i) = RV9K_DEAD \<Longrightarrow>
       t_state (thr k i) = RV9K_DEAD \<or> t_blocked_on (thr k i) = None"
  shows "queues_ok k'"
  using assms unfolding queues_ok_def by metis

lemma queues_ok_upd:
  assumes "queues_ok k" "t_blocked_on (f (thr k i)) = t_blocked_on (thr k i)"
    "t_state (f (thr k i)) = RV9K_DEAD \<Longrightarrow> t_state (thr k i) = RV9K_DEAD \<or> t_blocked_on (thr k i) = None"
  shows "queues_ok (upd i f k)"
  by (rule queues_ok_map [OF assms(1)]) (use assms(2,3) in \<open>auto simp: thr_upd split: if_splits\<close>)

text \<open>Taking a thread off its queue, with whatever else happens to it.\<close>

lemma queues_ok_remove:
  assumes "queues_ok k" "i < length (k_threads k)" "t_blocked_on (thr k i) = Some q"
    "t_blocked_on (f (thr k i)) = None"
  shows "queues_ok (upd i f (waitq_remove q i k))"
proof -
  let ?k = "upd i f (waitq_remove q i k)"
  have w: "k_waitq (waitq_remove q i k) = (k_waitq k)(q := remove1 i (k_waitq k q))" by (simp add: waitq_remove_def)
  have t: "thr ?k j = (if i = j then f (thr k i) else thr k j)" if "j < length (k_threads k)" for j
    using that by (simp add: waitq_remove_def thr_upd)
  have l: "length (k_threads ?k) = length (k_threads k)" by (simp add: waitq_remove_def)
  have d: "distinct (k_waitq k p)" for p using assms(1) by (simp add: queues_ok_def)
  have s: "set (k_waitq (waitq_remove q i k) p) = set (k_waitq k p) - (if p = q then {i} else {})" for p
    using d by (simp add: w)
  have i_off: "i \<notin> set (k_waitq k p)" if "p \<noteq> q" for p
    using assms(1-3) that by (auto simp: queues_ok_def)
  show ?thesis
    unfolding queues_ok_def l
  proof (intro conjI allI impI)
    fix p j
    show "distinct (k_waitq ?k p)" using d by (simp add: w)
    show "\<forall>j\<in>set (k_waitq ?k p). j < length (k_threads k)"
      using assms(1) s by (auto simp: queues_ok_def)
    assume j: "j < length (k_threads k)"
    show "(j \<in> set (k_waitq ?k p)) = (t_blocked_on (thr ?k j) = Some p)"
    proof (cases "j = i")
      case True
      then show ?thesis using j i_off assms(4) by (simp add: s t)
    next
      case False
      then show ?thesis using j assms(1) by (simp add: s queues_ok_def waitq_remove_def)
    qed
    assume "t_state (thr ?k j) = RV9K_DEAD"
    then show "t_blocked_on (thr ?k j) = None"
      using j assms(1,4) by (auto simp: t queues_ok_def split: if_splits)
  qed
qed

lemma queues_ok_unblock:
  assumes "queues_ok k" "i < length (k_threads k)"
  shows "queues_ok (unblock i k)" "t_blocked_on (thr (unblock i k) i) = None"
  using assms queues_ok_remove [OF assms]
  by (auto simp: unblock_def waitq_remove_def split: option.split)


lemma queues_ok_cong:
  "k_threads k' = k_threads k \<Longrightarrow> k_waitq k' = k_waitq k \<Longrightarrow> queues_ok k' = queues_ok k"
  by (simp add: queues_ok_def)

lemma queues_ok_counters [simp]:
  "queues_ok (k\<lparr>k_ticks := t\<rparr>) = queues_ok k" "queues_ok (k\<lparr>k_sched_lock := n\<rparr>) = queues_ok k"
  "queues_ok (k\<lparr>k_blocks := m\<rparr>) = queues_ok k" "queues_ok (k\<lparr>k_pend_lost := l\<rparr>) = queues_ok k"
  "queues_ok (k\<lparr>k_pending := ps, k_pend_head := h\<rparr>) = queues_ok k"
  "queues_ok (k\<lparr>k_pend_tail := h\<rparr>) = queues_ok k" "queues_ok (k\<lparr>k_running := b\<rparr>) = queues_ok k"
  "queues_ok (k\<lparr>k_current := c\<rparr>) = queues_ok k"
  by (simp_all add: queues_ok_def)

lemma queues_ok_on: "queues_ok k \<Longrightarrow> i \<in> set (k_waitq k q) \<Longrightarrow>
   i < length (k_threads k) \<and> t_blocked_on (thr k i) = Some q"
  by (auto simp: queues_ok_def)

lemma queues_ok_pop: "queues_ok k \<Longrightarrow> queues_ok (fst (waitq_pop_best q k))"
  by (auto simp: waitq_pop_best_def dest: waitq_best_mem queues_ok_on
      split: option.split intro!: queues_ok_remove)

text \<open>The current thread blocks: it was on no queue, and goes to the head of this one.\<close>

lemma queues_ok_block_mark:
  assumes k: "queues_ok k" and s: "s < length (k_threads k)" and free: "t_blocked_on (thr k s) = None"
  shows "queues_ok (block_mark q ms s k)"
proof -
  let ?k = "block_mark q ms s k"
  have w: "k_waitq ?k = (k_waitq k)(q := s # k_waitq k q)"
    and l: "length (k_threads ?k) = length (k_threads k)"
    by (simp_all add: block_mark_def waitq_push_def)
  have o: "thr ?k j = thr k j" if "j \<noteq> s" for j
    using that by (simp add: block_mark_def waitq_push_def)
  have b: "t_blocked_on (thr ?k s) = Some q" "t_state (thr ?k s) = RV9K_BLOCKED"
    using s by (simp_all add: block_mark_def waitq_push_def Let_def)
  have off: "s \<notin> set (k_waitq k p)" for p using k s free by (auto simp: queues_ok_def)
  show ?thesis
    unfolding queues_ok_def l
  proof (intro conjI allI impI)
    fix p j
    show "distinct (k_waitq ?k p)" using k off by (simp add: w queues_ok_def)
    show "\<forall>j\<in>set (k_waitq ?k p). j < length (k_threads k)"
      using k s by (simp add: w queues_ok_def)
    assume j: "j < length (k_threads k)"
    show "(j \<in> set (k_waitq ?k p)) = (t_blocked_on (thr ?k j) = Some p)"
      using j k off by (cases "j = s") (auto simp: w b o queues_ok_def)
    assume "t_state (thr ?k j) = RV9K_DEAD"
    then show "t_blocked_on (thr ?k j) = None"
      using j k b by (cases "j = s") (auto simp: o queues_ok_def)
  qed
qed

text \<open>
  A thread that runs is on no queue, unless it has just come back from a wait that timed
  out: then \<open>block_resume\<close> is what it does first.
\<close>

definition calm :: "kern \<Rightarrow> bool" where
  "calm k \<longleftrightarrow> queues_ok k \<and> cur_ok k \<and> all_threads stack_intact k"

lemma calm_not_overran: "calm k \<Longrightarrow> \<not> overran k"
  by (auto simp: calm_def overran_def cur_ok_def all_threads_thr split: option.split)

lemma queues_ok_dispatch: "queues_ok k \<Longrightarrow> queues_ok (dispatch n k)"
  unfolding dispatch_def by (subst queues_ok_cong, simp, simp) (rule queues_ok_upd, simp_all)

lemma queues_ok_charged: "queues_ok k \<Longrightarrow> queues_ok (charged k)"
  by (auto simp: charged_def charge_out_def Let_def split: option.split if_splits intro!: queues_ok_upd)

interpretation calm_switch: switch_stable calm
proof unfold_locales
  fix k q assume "calm k"
  then show "calm (fst (waitq_pop_best q k))"
    unfolding calm_def by (intro conjI queues_ok_pop cur_switch.pop intact_law.pop) simp_all
next
  fix k n assume "calm k"
  then show "calm (k\<lparr>k_pend_tail := n\<rparr>)"
    unfolding calm_def by (intro conjI cur_switch.tail intact_law.tail) simp_all
next
  fix k assume k: "calm k"
  then have kq: "queues_ok k" by (simp add: calm_def)
  have "queues_ok (reap_dead k)"
    by (rule queues_ok_map [OF kq]) (auto simp: thr_reap reap_thread_def Let_def split: if_splits)
  with k show "calm (reap_dead k)" by (simp add: calm_def cur_switch.reap intact_law.reap)
next
  fix k assume k: "calm k"
  then have kq: "queues_ok k" by (simp add: calm_def)
  have "queues_ok (wake_sleepers k)"
    by (rule queues_ok_map [OF kq]) (auto simp: calm_def thr_wake wake_one_def split: if_splits)
  with k show "calm (wake_sleepers k)" by (simp add: calm_def cur_switch.wake intact_law.wake)
next
  fix k assume k: "calm k"
  then have kq: "queues_ok k" by (simp add: calm_def)
  have b: "t_blocked_on (thr (age_threads k) i) = t_blocked_on (thr k i)" if "i < length (k_threads k)" for i
    using thr_age [OF that] by (auto simp: age_one_def recompute_priority_def)
  have "queues_ok (age_threads k)" by (rule queues_ok_map [OF kq]) (simp_all add: b)
  with k show "calm (age_threads k)" by (simp add: calm_def cur_switch.aged intact_law.aged)
next
  fix k p assume "calm k" "overran k"
  then show "calm (stack_fault p k)" by (simp add: calm_not_overran)
next
  fix k assume "calm k" "pick_next k = None"
  then show "calm (k\<lparr>k_current := None\<rparr>)" by (simp add: calm_def cur_switch.to_host intact_law.to_host)
next
  fix k n assume "calm k" "pick_next k = Some n"
  then show "calm (dispatch n (charged k))"
    by (simp add: calm_def cur_switch.run_next intact_law.run_next queues_ok_dispatch queues_ok_charged)
next
  fix k p here assume "calm k"
  then show "calm (save_sp p here k)"
    unfolding calm_def by (intro conjI cur_switch.save intact_law.save) (auto simp: save_sp_def intro!: queues_ok_upd)
next
  fix k b assume "calm k"
  then show "calm (k\<lparr>k_running := b\<rparr>)" by (simp add: calm_def cur_switch.running intact_law.running)
qed


text \<open>The second half of \<open>block_on\<close> comes first when a thread runs again: no other
  operation of the current thread is asked for while it is still on the queue.\<close>

definition free_runner :: "kern \<Rightarrow> bool" where
  "free_runner k = (case k_current k of None \<Rightarrow> True | Some s \<Rightarrow> t_blocked_on (thr k s) = None)"

fun orderly :: "kern \<Rightarrow> kop \<Rightarrow> bool" where
  "orderly k (OBlock q ms sp) = free_runner k"
| "orderly k (OExit sp) = free_runner k"
| "orderly k (OKill sp i) = (free_runner k \<and> i < length (k_threads k))"
| "orderly k (OStop i) = (i < length (k_threads k))"
| "orderly k e = clean_op e"

lemma calm_upd:
  assumes "calm k" "t_blocked_on (f (thr k i)) = t_blocked_on (thr k i)"
    "t_state (f (thr k i)) = RV9K_DEAD \<Longrightarrow> t_state (thr k i) = RV9K_DEAD \<or> t_blocked_on (thr k i) = None"
    "t_state (f (thr k i)) = RV9K_RUNNING \<Longrightarrow> t_state (thr k i) = RV9K_RUNNING"
    "stack_intact (thr k i) \<Longrightarrow> stack_intact (f (thr k i))"
  shows "calm (upd i f k)"
  using assms unfolding calm_def by (auto intro: queues_ok_upd cur_ok_upd all_threads_upd)

lemma calm_unblock:
  assumes "calm k" "i < length (k_threads k)"
  shows "calm (unblock i k)" "t_blocked_on (thr (unblock i k) i) = None"
  using assms queues_ok_unblock [of k i]
  by (simp_all add: calm_def cur_ok_unblock intact_law.law_unblock)

lemma unblock_frame [simp]:
  "length (k_threads (unblock i k)) = length (k_threads k)" "k_current (unblock i k) = k_current k"
  by (simp_all add: unblock_def waitq_remove_def split: option.split)

lemma calm_create:
  assumes "calm k"
  shows "calm (fst (rv9k_thread_create flen al tramp fn arg name bytes p k))"
proof -
  have "queues_ok (upd i (new_thread flen base words tramp fn arg name p) k)"
    if i: "find_index slot_free (k_threads k) = Some i" for i base words
  proof -
    have "slot_free (thr k i) \<and> i < length (k_threads k)" by (rule find_index_Some [OF i])
    then have "t_blocked_on (thr k i) = None" using assms by (simp add: calm_def queues_ok_def slot_free_def)
    with assms show ?thesis by (intro queues_ok_upd) (simp_all add: calm_def new_thread_def Let_def)
  qed
  then show ?thesis using assms cur_ok_create [of k flen al] intact_law.law_create [of k flen al]
    by (auto simp: calm_def rv9k_thread_create_def Let_def split: option.split)
qed

lemma calm_exit: "calm k \<Longrightarrow> free_runner k \<Longrightarrow> calm (fst (rv9k_exit sp k))"
  by (auto simp: rv9k_exit_def free_runner_def stack_intact_def
      split: option.splits intro!: calm_switch.switch calm_upd)

lemma calm_block:
  assumes "calm k" "free_runner k" "block_enter q ms sp k = Some r"
  shows "calm (fst r)"
proof -
  from assms(3) obtain s where s: "k_current k = Some s" "r = reschedule sp (block_mark q ms s k)"
    by (auto simp: block_enter_def)
  then have "s < length (k_threads k)" using assms(1) by (simp add: calm_def cur_ok_def)
  with assms s have "calm (block_mark q ms s k)"
    by (simp add: calm_def free_runner_def queues_ok_block_mark cur_ok_block_mark intact_law.law_block_mark)
  then show ?thesis using s by (simp add: calm_switch.switch)
qed

lemma calm_resume:
  assumes "calm k" "k_current k = Some s"
  shows "calm (fst (block_resume q s k))"
proof -
  have s: "s < length (k_threads k)" using assms by (simp add: calm_def cur_ok_def)
  have "queues_ok (fst (block_resume q s k))"
    using assms s by (auto simp: block_resume_def calm_def intro!: queues_ok_remove)
  moreover have "cur_ok (fst (block_resume q s k))"
    using assms by (auto simp: block_resume_def calm_def intro!: cur_ok_upd)
  ultimately show ?thesis using assms by (simp add: calm_def intact_law.law_resume)
qed

lemma calm_step: "calm k \<Longrightarrow> orderly k e \<Longrightarrow> calm (kstep k e)"
proof (cases e)
  case OHost
  then show "calm k \<Longrightarrow> ?thesis" by (simp add: calm_switch.serve)
next
  case OCreate
  then show "calm k \<Longrightarrow> ?thesis" by (simp add: calm_create)
next
  case OYield
  then show "calm k \<Longrightarrow> ?thesis" by (simp add: calm_switch.yielding)
next
  case OPreempt
  then show "calm k \<Longrightarrow> ?thesis" by (simp add: calm_switch.preempting)
next
  case OSleep
  then show "calm k \<Longrightarrow> ?thesis"
    by (auto simp: rv9k_sleep_ticks_def stack_intact_def split: option.split
        intro!: calm_switch.switch calm_upd)
next
  case OExit
  then show "calm k \<Longrightarrow> orderly k e \<Longrightarrow> ?thesis" by (simp add: calm_exit)
next
  case OBlock
  then show "calm k \<Longrightarrow> orderly k e \<Longrightarrow> ?thesis" by (auto split: option.split dest: calm_block)
next
  case OResume
  then show "calm k \<Longrightarrow> ?thesis"
    by (auto split: option.split intro!: calm_resume)
next
  case OWake
  then show "calm k \<Longrightarrow> ?thesis" by (simp add: calm_switch.pop)
next
  case OKill
  then show "calm k \<Longrightarrow> orderly k e \<Longrightarrow> ?thesis"
    by (auto simp: rv9k_thread_kill_def stack_intact_def calm_unblock
        intro!: calm_exit calm_upd)
next
  case OStop
  then show "calm k \<Longrightarrow> orderly k e \<Longrightarrow> ?thesis"
    by (auto simp: rv9k_thread_stop_def stack_intact_def calm_unblock intro!: calm_upd)
next
  case OUnlock
  then show "calm k \<Longrightarrow> ?thesis"
    using calm_switch.switch [of "k\<lparr>k_sched_lock := k_sched_lock k - 1\<rparr>"]
    by (auto simp: rv9k_sched_unlock_def Let_def calm_def all_threads_def)
next
  case OTick
  then show "calm k \<Longrightarrow> ?thesis" by (simp add: rv9k_tick_def calm_def all_threads_def)
next
  case OIsr
  then show "calm k \<Longrightarrow> ?thesis" by (simp add: pend_wake_def calm_def all_threads_def Let_def)
next
  case OLock
  then show "calm k \<Longrightarrow> ?thesis" by (simp add: rv9k_sched_lock_def calm_def all_threads_def)
next
  case OStack
  then show "calm k \<Longrightarrow> orderly k e \<Longrightarrow> ?thesis" by (auto simp: stack_intact_def intro!: calm_upd)
qed (auto simp: rv9k_thread_release_def rv9k_priority_set_def rv9k_priority_boost_def
    rv9k_priority_unboost_def recompute_priority_def Let_def stack_intact_def intro!: calm_upd)


definition orderly_step :: "kern \<Rightarrow> kop \<Rightarrow> kern" where
  "orderly_step k e = (if orderly k e then kstep k e else k)"

interpretation calm_run: step_invariant orderly_step calm
  by unfold_locales (simp add: orderly_step_def calm_step)


section \<open>The table keeps its length\<close>

definition table_of :: "nat \<Rightarrow> kern \<Rightarrow> bool" where
  "table_of n k \<longleftrightarrow> length (k_threads k) = n"

lemma table_frames [simp]:
  "length (k_threads (fst (rv9k_thread_create flen al tramp fn arg name bytes p k))) = length (k_threads k)"
  "length (k_threads (fst (block_resume q s k))) = length (k_threads k)"
  "length (k_threads (fst (rv9k_thread_stop i k))) = length (k_threads k)"
  "length (k_threads (pend_wake q k)) = length (k_threads k)"
  "length (k_threads (rv9k_priority_boost i pr k)) = length (k_threads k)"
  "length (k_threads (rv9k_priority_unboost i k)) = length (k_threads k)"
  "length (k_threads (block_mark q ms s k)) = length (k_threads k)"
  by (simp_all add: rv9k_thread_create_def block_resume_def rv9k_thread_stop_def pend_wake_def
      rv9k_priority_boost_def rv9k_priority_unboost_def block_mark_def waitq_push_def
      waitq_remove_def Let_def split: option.split)

interpretation table_switch: switch_stable "table_of n" for n
  by unfold_locales (simp_all add: table_of_def charged_def split: option.split)

lemma reschedule_length [simp]: "length (k_threads (fst (reschedule here k))) = length (k_threads k)"
  using table_switch.switch [of "length (k_threads k)" k here] by (simp add: table_of_def)

lemma kstep_length [simp]: "length (k_threads (kstep k e)) = length (k_threads k)"
  using table_switch.serve [of "length (k_threads k)" k]
  by (cases e) (auto simp: rv9k_tick_def rv9k_yield_def rv9k_sleep_ticks_def rv9k_preempt_point_def
      rv9k_exit_def rv9k_thread_kill_def block_enter_def rv9k_thread_release_def rv9k_priority_set_def
      rv9k_sched_lock_def rv9k_sched_unlock_def Let_def table_of_def split: option.split)

lemma run_length [simp]:
  "length (k_threads (foldl kstep k es)) = length (k_threads k)"
  "length (k_threads (foldl orderly_step k es)) = length (k_threads k)"
  by (induction es arbitrary: k) (simp_all add: orderly_step_def)

end
