(* ===== verification/KSchedProps.thy ===== *)
theory KSchedProps
  imports KSchedInv
begin

text \<open>
  The properties of the scheduler: who runs next, what a switch guarantees, how a stack
  overrun ends a thread, aging, and the wait queues -- with the places where the code does
  not do what its comments say.
\<close>

section \<open>Concrete kernels\<close>

definition blank :: kthread where
  "blank = \<lparr>t_sp = 0, t_stack = 0, t_mem = [], t_stack_words = 0, t_name = [], t_state = RV9K_DEAD,
     t_base_priority = 0, t_age = 0, t_effective_priority = 0, t_boost = 0, t_wake_at_tick = 0,
     t_blocked_on = None, t_has_deadline = False, t_ran_ticks = 0, t_entered_tick = 0,
     t_last_ran_seq = 0, t_fault = 0, t_holds = 0, t_cancel = False, t_mem_class = 0, t_held = False\<rparr>"

definition kern_of :: "kthread list \<Rightarrow> nat option \<Rightarrow> kern" where
  "kern_of ts cur = \<lparr>k_threads = ts, k_current = cur, k_ticks = 0, k_last_age_tick = 0, k_switches = 0,
     k_blocks = 0, k_running = True, k_sched_lock = 0, k_stack_faults = 0, k_waitq = (\<lambda>_. []),
     k_pending = replicate PENDING_MAX 0, k_pend_head = 0, k_pend_tail = 0, k_pend_lost = 0,
     k_released = []\<rparr>"

definition ready_thread :: "int \<Rightarrow> nat \<Rightarrow> kthread" where
  "ready_thread p sp = blank\<lparr>t_sp := sp, t_stack := 128,
     t_mem := replicate (RV9K_STACK_PAD_WORDS + RV9K_GUARD_WORDS) RV9K_STACK_PAINT,
     t_stack_words := 128, t_state := RV9K_READY, t_base_priority := p, t_effective_priority := p\<rparr>"

definition running_thread :: "int \<Rightarrow> nat \<Rightarrow> kthread" where
  "running_thread p sp = (ready_thread p sp)\<lparr>t_state := RV9K_RUNNING\<rparr>"

named_theorems concrete

lemmas [concrete] = blank_def kern_of_def ready_thread_def running_thread_def
  RV9K_STACK_PAD_WORDS_def RV9K_GUARD_WORDS_def RV9K_STACK_PAINT_def RV9K_AGE_PERIOD_TICKS_def
  RV9K_AGE_MAX_def RV9K_PRIO_MAX_def RV9K_PRIO_MIN_def RV9K_TICK_REACHED_def PENDING_MAX_def
  all_threads_def prio_ok_def runnable_def indices_def upd_def

section \<open>The priority law, in every run\<close>

text \<open>C4: whatever sequence of ticks, creations, switches, waits, wakes, kills, priority
  changes, boosts and aging rounds happens, every thread's effective priority is the larger of
  its boost and its base plus age capped at 15, its age stays within 0..10 and nothing leaves
  the range 0..15.\<close>

theorem priority_law:
  assumes "prios_ok k" "i < length (k_threads k)"
  shows "let t = thr (foldl kstep k es) i in
     t_effective_priority t = max (t_boost t) (min 15 (t_base_priority t + t_age t)) \<and>
     0 \<le> t_age t \<and> t_age t \<le> 10 \<and> 0 \<le> t_effective_priority t \<and> t_effective_priority t \<le> 15"
  using all_threads_thr [OF prio_run.run_inv [OF assms(1)], of i es] assms(2)
  by (simp add: prio_ok_def Let_def le_max_iff_disj)

lemma length_kstep_const [simp]: "length (k_threads (kern_of ts c)) = length ts"
  by (simp add: kern_of_def)

lemma priority_law_witness:
  "let t = thr (foldl kstep (kern_of [ready_thread 3 64] None) [OBoost 0 9, OTick]) 0 in
     t_effective_priority t = max (t_boost t) (min 15 (t_base_priority t + t_age t)) \<and>
     0 \<le> t_age t \<and> t_age t \<le> 10 \<and> 0 \<le> t_effective_priority t \<and> t_effective_priority t \<le> 15"
  by (rule priority_law) (simp_all add: concrete rv9k_priority_boost_def rv9k_tick_def Let_def)

section \<open>Choosing\<close>

interpretation picks: strict_better "picks_over k" for k
  by unfold_locales (auto simp: picks_over_def)

text \<open>C5: \<open>pick_next\<close> answers NULL exactly when no thread is runnable; otherwise its thread is
  runnable, no runnable thread has a higher effective priority, and among those of the same
  priority none was selected longer ago.\<close>

theorem pick_next_best:
  "(pick_next k = None) = (\<forall>i<length (k_threads k). \<not> runnable (thr k i)) \<and>
   (case pick_next k of None \<Rightarrow> True
    | Some i \<Rightarrow> i < length (k_threads k) \<and> runnable (thr k i) \<and>
        (\<forall>j<length (k_threads k). runnable (thr k j) \<longrightarrow>
           t_effective_priority (thr k j) < t_effective_priority (thr k i) \<or>
           t_effective_priority (thr k j) = t_effective_priority (thr k i) \<and>
           t_last_ran_seq (thr k i) \<le> t_last_ran_seq (thr k j)))"
proof -
  have "\<not> picks_over k j i" if "pick_next k = Some i" "j < length (k_threads k)" "runnable (thr k j)" for i j
    using picks.best_of_unbeaten [OF that(1) [unfolded pick_next_def], of j] that(2,3)
    by (simp add: indices_def)
  then show ?thesis
    using pick_next_range by (fastforce simp: pick_next_None picks_over_def split: option.split)
qed


lemma pick_next_best_witness:
  "let k = kern_of [ready_thread 3 64, ready_thread 7 96, ready_thread 7 128] None in
   pick_next k = Some 1 \<and>
   (\<forall>j<length (k_threads k). runnable (thr k j) \<longrightarrow>
     t_effective_priority (thr k j) < t_effective_priority (thr k 1) \<or>
     t_effective_priority (thr k j) = t_effective_priority (thr k 1) \<and>
     t_last_ran_seq (thr k 1) \<le> t_last_ran_seq (thr k j))"
proof -
  let ?k = "kern_of [ready_thread 3 64, ready_thread 7 96, ready_thread 7 128] None"
  have 1: "pick_next ?k = Some 1"
    by (simp add: pick_next_def picks_over_def concrete)
  show ?thesis
    using pick_next_best [of ?k] by (simp add: 1 Let_def)
qed

section \<open>What a switch guarantees\<close>

lemma runnable_save [simp]: "runnable (thr (save_sp p here k) j) = runnable (thr k j)"
  by (cases "p = j"; cases "j < length (k_threads k)")
     (simp_all add: save_sp_def runnable_def upd_def list_update_beyond)

lemma switch_from_running:
  assumes "cur_ok k" "switch_from (k_current k) ab here k = (k', s)" "pick_next k = Some n"
  shows "k_current k' = Some n \<and> t_state (thr k' n) = RV9K_RUNNING \<and>
    length (k_threads k') = length (k_threads k) \<and>
    (\<forall>j<length (k_threads k). t_effective_priority (thr k' j) = t_effective_priority (thr k j) \<and>
       runnable (thr k' j) = runnable (thr k j))"
proof (cases "k_current k = Some n \<and> t_state (thr k n) = RV9K_RUNNING")
  case True
  then show ?thesis using assms by (simp add: switch_from_def)
next
  case False
  have n: "n < length (k_threads k)" "runnable (thr k n)" using pick_next_range [OF assms(3)] by auto
  have ks: "k' = (case k_current k of None \<Rightarrow> dispatch n k
      | Some p \<Rightarrow> (if ab then dispatch n (charge_out p k) else save_sp p here (dispatch n (charge_out p k))))"
    using False assms(2,3) by (auto simp: switch_from_def Let_def split: option.splits if_splits)
  show ?thesis
    unfolding ks using n
    by (auto simp: dispatch_def charge_out_def save_sp_def thr_upd Let_def runnable_def split: option.split)
qed

lemma switch_from_none:
  "pick_next k = None \<Longrightarrow> switch_from prev ab here k = (k', s) \<Longrightarrow> k_current k' = None \<and> s \<noteq> Loads l"
  by (auto simp: switch_from_def Let_def save_sp_def split: option.splits if_splits)

lemma reschedule_unfold:
  assumes "k_sched_lock k = 0"
  shows "reschedule here k = (let k1 = drain_pending k in
     switch_from (k_current (sched_round (leave_check k1))) (overran k1) here (sched_round (leave_check k1)))"
  using assms by (simp add: reschedule_def Let_def)

text \<open>C6: when the scheduler is not locked, \<open>reschedule\<close> leaves the CPU with a running thread
  whose effective priority no runnable thread exceeds, or, only if nothing is runnable, goes
  back to the host; and at most the current thread is ever in state RUNNING.\<close>

theorem reschedule_runs_best:
  assumes "cur_ok k" "k_sched_lock k = 0" "reschedule here k = (k', s)"
  shows "cur_ok k' \<and>
    (case k_current k' of
       Some n \<Rightarrow> t_state (thr k' n) = RV9K_RUNNING \<and>
         (\<forall>j<length (k_threads k'). runnable (thr k' j) \<longrightarrow>
            t_effective_priority (thr k' j) \<le> t_effective_priority (thr k' n))
     | None \<Rightarrow> (\<forall>j<length (k_threads k'). \<not> runnable (thr k' j)) \<and> (\<forall>sp. s \<noteq> Loads sp))"
proof -
  define k2 where "k2 = sched_round (leave_check (drain_pending k))"
  have ok: "cur_ok k2" unfolding k2_def
    using assms(1) by (simp add: cur_switch.one_round cur_switch.check cur_switch.drain)
  have sw: "switch_from (k_current k2) (overran (drain_pending k)) here k2 = (k', s)"
    using assms(3) reschedule_unfold [OF assms(2)] by (simp add: k2_def Let_def)
  have "cur_ok k'" using cur_switch.switch [OF assms(1), of here] assms(3) by simp
  moreover have ?thesis if "pick_next k2 = None"
  proof -
    have "k_threads k' = k_threads k2 \<or> (\<exists>p. k' = save_sp p here (k2\<lparr>k_current := None\<rparr>))"
      using sw that by (auto simp: switch_from_def Let_def split: option.splits if_splits)
    moreover have "\<forall>i<length (k_threads k2). \<not> runnable (thr k2 i)" using that by (simp add: pick_next_None)
    ultimately have "\<forall>j<length (k_threads k'). \<not> runnable (thr k' j)"
      by auto
    with that sw show ?thesis using \<open>cur_ok k'\<close> switch_from_none [OF that sw] by auto
  qed
  moreover have ?thesis if n: "pick_next k2 = Some n" for n
    using switch_from_running [OF ok sw n] pick_next_best [of k2] n \<open>cur_ok k'\<close> by fastforce
  ultimately show ?thesis by (cases "pick_next k2") auto
qed

definition two_threads :: kern where
  "two_threads = kern_of [running_thread 3 64, ready_thread 7 96] (Some 0)"

lemma drain_empty: "k_pend_tail k = k_pend_head k \<Longrightarrow> drain_pending k = k"
  by (simp add: drain_pending_def PENDING_MAX_def numeral_eq_Suc)

lemmas eval_switch = reschedule_def drain_empty leave_check_def overran_def stack_intact_def
  sched_round_def reap_dead_def reapable_def reap_thread_def wake_sleepers_def each_thread_def
  wake_one_def age_threads_def switch_from_def pick_next_def picks_over_def dispatch_def
  charge_out_def save_sp_def

lemma reschedule_runs_best_witness:
  "cur_ok (fst (reschedule 200 two_threads)) \<and> snd (reschedule 200 two_threads) = Loads 96 \<and>
   k_current (fst (reschedule 200 two_threads)) = Some 1 \<and>
   \<not> (runnable (thr (fst (reschedule 200 two_threads)) 0) \<and>
      t_effective_priority (thr (fst (reschedule 200 two_threads)) 0) >
      t_effective_priority (thr (fst (reschedule 200 two_threads)) 1))"
proof -
  have ok: "cur_ok two_threads" "k_sched_lock two_threads = 0"
    by (auto simp: cur_ok_def two_threads_def concrete nth_Cons split: nat.splits)
  have r: "k_current (fst (reschedule 200 two_threads)) = Some 1"
    "snd (reschedule 200 two_threads) = Loads 96" "length (k_threads two_threads) = 2"
    by code_simp+
  show ?thesis
    using reschedule_runs_best [OF ok prod.collapse [symmetric], of 200] by (auto simp: r not_less)
qed


section \<open>A stack overrun\<close>

text \<open>When the thread being left has written below its stack, \<open>reschedule\<close> stops it: it is
  DEAD with fault STACK and its slot held, it is not the thread that runs next, its context is
  not saved and its stack, still stood on, is not given back by this call.\<close>

theorem overrun_stopped:
  assumes "cur_ok k" "k_sched_lock k = 0" "k_current k = Some p" "t_stack (thr k p) \<noteq> 0"
    "\<not> stack_intact (thr k p)" "k_pend_tail k = k_pend_head k" "reschedule here k = (k', s)"
  shows "t_state (thr k' p) = RV9K_DEAD \<and> t_fault (thr k' p) = RV9K_FAULT_STACK \<and> t_held (thr k' p) \<and>
    k_current k' \<noteq> Some p \<and> t_sp (thr k' p) = t_sp (thr k p) \<and> t_stack (thr k' p) = t_stack (thr k p)"
proof -
  define k1 where "k1 = stack_fault p k"
  define k2 where "k2 = sched_round k1"
  have p: "p < length (k_threads k)" using assms(1,3) by (simp add: cur_ok_def)
  have ab: "overran k" using assms(3,5) by (simp add: overran_def)
  have k1: "thr k1 p = (thr k p)\<lparr>t_fault := RV9K_FAULT_STACK, t_state := RV9K_DEAD, t_held := True\<rparr>"
    "k_current k1 = Some p" "length (k_threads k1) = length (k_threads k)"
    using p assms(3) by (simp_all add: k1_def) (simp add: stack_fault_def)
  have "thr (reap_dead k1) p = thr k1 p" using p k1 by (simp add: thr_reap reapable_def)
  moreover have "thr (wake_sleepers (reap_dead k1)) p = thr k1 p"
    using p k1 calculation by (simp add: thr_wake wake_one_def)
  ultimately have "thr k2 p = thr k1 p"
    using p k1 thr_age [of p "wake_sleepers (reap_dead k1)"]
    by (auto simp: k2_def sched_round_def age_one_def runnable_def)
  note k2 = this
  have sw: "switch_from (Some p) True here k2 = (k', s)"
    using assms(2,3,6,7) ab by (simp add: reschedule_def drain_empty leave_check_def k2_def k1_def)
  have np: "pick_next k2 \<noteq> Some p"
    using pick_next_range [of k2 p] k1 k2 by (auto simp: runnable_def)
  have len: "length (k_threads k2) = length (k_threads k)" by (simp add: k2_def k1)
  show ?thesis
  proof (cases "pick_next k2")
    case None
    then show ?thesis using sw k1 k2 by (auto simp: switch_from_def Let_def)
  next
    case (Some n)
    then have "k' = dispatch n (charge_out p k2)" using sw np by (auto simp: switch_from_def Let_def)
    then show ?thesis using Some np k1 k2 p len
      by (auto simp: dispatch_def charge_out_def thr_upd Let_def)
  qed
qed

definition smashed :: kern where
  "smashed = kern_of [(running_thread 3 64)\<lparr>t_mem := [0]\<rparr>, ready_thread 7 96] (Some 0)"

lemma overrun_stopped_witness:
  "t_state (thr (fst (reschedule 200 smashed)) 0) = RV9K_DEAD \<and>
   t_fault (thr (fst (reschedule 200 smashed)) 0) = RV9K_FAULT_STACK \<and>
   k_current (fst (reschedule 200 smashed)) \<noteq> Some 0"
proof -
  have "cur_ok smashed" by (auto simp: cur_ok_def smashed_def concrete nth_Cons split: nat.splits)
  moreover have "k_sched_lock smashed = 0" "k_current smashed = Some 0" "t_stack (thr smashed 0) \<noteq> 0"
    "\<not> stack_intact (thr smashed 0)" "k_pend_tail smashed = k_pend_head smashed"
    by code_simp+
  ultimately show ?thesis
    using overrun_stopped [of smashed 0 200, OF _ _ _ _ _ _ prod.collapse [symmetric]] by simp
qed

text \<open>But a thread that overruns its stack while going to block stays on the wait queue.
  Once its stack has been given back, the next give finds it there and makes the dead thread
  READY again, with no stack and no context to load.\<close>

theorem overrun_blocked_resurrected:
  "\<exists>k q p. calm k \<and> k_current k = Some p \<and> free_runner k \<and>
     (let k1 = kstep k (OStack p [0]);
          k2 = kstep k1 (OBlock q RV9K_WAIT_FOREVER 200);
          k3 = kstep k2 (OYield 300);
          k4 = kstep k3 (OWake q)
      in t_state (thr k2 p) = RV9K_DEAD \<and> p \<in> set (k_waitq k2 q) \<and>
         t_stack (thr k3 p) = 0 \<and> t_state (thr k4 p) = RV9K_READY \<and> t_sp (thr k4 p) = 0 \<and>
         t_fault (thr k4 p) = RV9K_FAULT_STACK)"
proof (rule exI [of _ two_threads], rule exI [of _ 5], rule exI [of _ 0], intro conjI)
  show "calm two_threads"
    by (auto simp: calm_def queues_ok_def cur_ok_def two_threads_def concrete stack_intact_def
        list_all_iff nth_Cons split: nat.splits)
qed code_simp+


section \<open>Sleeping for no time\<close>

text \<open>A thread with nobody better to run that sleeps for 0 ticks is READY again before the
  switch, is chosen itself, and \<open>rv9_ctx_switch\<close> is given its previous saved context to
  load, not the one saved by this very call.\<close>

theorem sleep_zero_stale_context:
  assumes "cur_ok k" "k_sched_lock k = 0" "k_current k = Some p" "stack_intact (thr k p)"
    "k_pend_tail k = k_pend_head k" "k_ticks k = k_last_age_tick k"
    "\<forall>j<length (k_threads k). j \<noteq> p \<longrightarrow> t_state (thr k j) = RV9K_DEAD"
  shows "snd (rv9k_sleep_ticks 0 here k) = Loads (t_sp (thr k p)) \<and>
         t_sp (thr (fst (rv9k_sleep_ticks 0 here k)) p) = here"
proof -
  define k1 where "k1 = upd p (\<lambda>t. t\<lparr>t_wake_at_tick := k_ticks k + 0, t_state := RV9K_SLEEPING\<rparr>) k"
  define k2 where "k2 = sched_round k1"
  have p: "p < length (k_threads k)" using assms(1,3) by (simp add: cur_ok_def)
  have k1: "thr k1 p = (thr k p)\<lparr>t_wake_at_tick := k_ticks k + 0, t_state := RV9K_SLEEPING\<rparr>"
    "k_current k1 = Some p" "length (k_threads k1) = length (k_threads k)" "k_ticks k1 = k_ticks k"
    "k_last_age_tick k1 = k_last_age_tick k" "\<And>j. j \<noteq> p \<Longrightarrow> thr k1 j = thr k j"
    using p assms(3) by (simp_all add: k1_def)
  have no_age: "age_threads (wake_sleepers (reap_dead k1)) = wake_sleepers (reap_dead k1)"
    using assms(6) k1 by (simp add: age_threads_def wake_sleepers_def each_thread_def reap_dead_def
        RV9K_AGE_PERIOD_TICKS_def)
  have "thr (reap_dead k1) p = thr k1 p" using p k1 by (simp add: thr_reap reapable_def)
  then have k2p: "t_state (thr k2 p) = RV9K_READY" "t_sp (thr k2 p) = t_sp (thr k p)"
    using p k1 by (simp_all add: k2_def sched_round_def no_age thr_wake wake_one_def RV9K_TICK_REACHED_def)
  have dead: "t_state (thr k2 j) = RV9K_DEAD" if "j < length (k_threads k)" "j \<noteq> p" for j
    using that assms(7) k1 by (simp add: k2_def sched_round_def no_age thr_wake wake_one_def)
  have len: "length (k_threads k2) = length (k_threads k)" by (simp add: k2_def k1)
  have "pick_next k2 \<noteq> None" using k2p p len by (auto simp: pick_next_None runnable_def)
  moreover have "pick_next k2 = Some n \<Longrightarrow> n = p" for n
    using pick_next_range [of k2 n] dead len by (cases "n = p") (auto simp: runnable_def)
  ultimately have n: "pick_next k2 = Some p" by auto
  have "\<not> overran k1" using assms(3,4) p k1 by (simp add: overran_def stack_intact_def)
  then have "rv9k_sleep_ticks 0 here k = switch_from (Some p) False here k2"
    using assms(2,3,5) k1 by (simp add: rv9k_sleep_ticks_def reschedule_def drain_empty
        leave_check_def k2_def k1_def)
  then show ?thesis
    using n k2p p len by (simp add: switch_from_def Let_def dispatch_def charge_out_def save_sp_def)
qed

definition one_thread :: kern where
  "one_thread = kern_of [running_thread 3 64] (Some 0)"

lemma sleep_zero_stale_context_witness:
  "snd (rv9k_sleep_ticks 0 200 one_thread) = Loads 64 \<and>
   t_sp (thr (fst (rv9k_sleep_ticks 0 200 one_thread)) 0) = 200"
proof -
  have "cur_ok one_thread" by (simp add: cur_ok_def one_thread_def concrete)
  moreover have "stack_intact (thr one_thread 0)" by code_simp
  ultimately show ?thesis
    using sleep_zero_stale_context [of one_thread 0 200] by (simp add: one_thread_def concrete)
qed


section \<open>Wait queues\<close>

text \<open>C7: in every run where no thread writes below its stack and a thread blocks, exits or is
  killed by itself only off the queues, a thread is on a wait queue exactly when its
  \<open>blocked_on\<close> names that queue, at most once, dead threads are on none, and only the current
  thread is running.\<close>

theorem queues_agree:
  assumes "calm k" "i < length (k_threads k)"
  shows "let k' = foldl orderly_step k es in
    (i \<in> set (k_waitq k' q)) = (t_blocked_on (thr k' i) = Some q) \<and> distinct (k_waitq k' q) \<and>
    \<not> (t_state (thr k' i) = RV9K_DEAD \<and> i \<in> set (k_waitq k' q)) \<and>
    \<not> (t_state (thr k' i) = RV9K_RUNNING \<and> k_current k' \<noteq> Some i)"
  using calm_run.run_inv [OF assms(1), of es] assms(2)
  by (auto simp: calm_def queues_ok_def cur_ok_def Let_def)

lemma calm_two: "calm two_threads"
  by (auto simp: calm_def queues_ok_def cur_ok_def two_threads_def concrete stack_intact_def
      list_all_iff nth_Cons split: nat.splits)

lemma queues_agree_witness:
  "let k' = foldl orderly_step two_threads [OBlock 5 RV9K_WAIT_FOREVER 200, OTick] in
    (0 \<in> set (k_waitq k' 5)) = (t_blocked_on (thr k' 0) = Some 5) \<and> distinct (k_waitq k' 5) \<and>
    \<not> (t_state (thr k' 0) = RV9K_DEAD \<and> 0 \<in> set (k_waitq k' 5)) \<and>
    \<not> (t_state (thr k' 0) = RV9K_RUNNING \<and> k_current k' \<noteq> Some 0)"
  by (rule queues_agree [OF calm_two]) (simp add: two_threads_def)

text \<open>A give wakes a waiter of the highest effective priority: it leaves the queue, is
  READY, off \<open>blocked_on\<close>, and everyone else stays. Among waiters of that priority it is the one
  nearest the head, so the one that came last -- not the one that waited longest.\<close>

theorem pop_best_last_come:
  assumes "queues_ok k" "waitq_pop_best q k = (k', Some b)"
  shows "b \<in> set (k_waitq k q) \<and> t_state (thr k' b) = RV9K_READY \<and> t_blocked_on (thr k' b) = None \<and>
    queues_ok k' \<and> set (k_waitq k' q) = set (k_waitq k q) - {b} \<and>
    (\<forall>j\<in>set (k_waitq k q). t_effective_priority (thr k j) \<le> t_effective_priority (thr k b)) \<and>
    (\<exists>later earlier. k_waitq k q = later @ b # earlier \<and>
       (\<forall>j\<in>set later. t_effective_priority (thr k j) < t_effective_priority (thr k b)))"
proof -
  have wb: "waitq_best q k = Some b"
    and k': "k' = upd b (\<lambda>t. t\<lparr>t_blocked_on := None, t_wake_at_tick := 0, t_state := RV9K_READY\<rparr>)
                    (waitq_remove q b k)"
    using assms(2) by (auto simp: waitq_pop_best_def split: option.splits)
  have b: "b \<in> set (k_waitq k q)" "b < length (k_threads k)"
    using waitq_best_mem [OF wb] queues_ok_on [OF assms(1)] by auto
  have "distinct (k_waitq k q)" using assms(1) by (simp add: queues_ok_def)
  moreover have "queues_ok k'" using queues_ok_pop [OF assms(1), of q] assms(2) by simp
  moreover have "\<forall>j\<in>set (k_waitq k q). \<not> t_effective_priority (thr k j) > t_effective_priority (thr k b)"
    using by_key.best_of_unbeaten [OF wb [unfolded waitq_best_def]] by blast
  moreover have "\<exists>later earlier. k_waitq k q = later @ b # earlier \<and>
       (\<forall>j\<in>set later. t_effective_priority (thr k j) < t_effective_priority (thr k b))"
    using by_key.best_of_first_in [OF wb [unfolded waitq_best_def]] by blast
  ultimately show ?thesis
    using b by (simp add: k' waitq_remove_def not_less)
qed

definition two_waiting :: kern where
  "two_waiting = (kern_of [(ready_thread 3 64)\<lparr>t_state := RV9K_BLOCKED, t_blocked_on := Some 5\<rparr>,
      (ready_thread 3 96)\<lparr>t_state := RV9K_BLOCKED, t_blocked_on := Some 5\<rparr>] None)
    \<lparr>k_waitq := (\<lambda>q. if q = 5 then [1, 0] else [])\<rparr>"

lemma pop_best_last_come_witness:
  "snd (waitq_pop_best 5 two_waiting) = Some 1 \<and>
   set (k_waitq (fst (waitq_pop_best 5 two_waiting)) 5) = {0}"
proof -
  have "queues_ok two_waiting"
    by (auto simp: queues_ok_def two_waiting_def kern_of_def ready_thread_def blank_def less_Suc_eq
        split: if_splits)
  moreover have s: "snd (waitq_pop_best 5 two_waiting) = Some 1" by code_simp
  then have "waitq_pop_best 5 two_waiting = (fst (waitq_pop_best 5 two_waiting), Some 1)"
    by (metis prod.collapse)
  ultimately have "set (k_waitq (fst (waitq_pop_best 5 two_waiting)) 5) = set (k_waitq two_waiting 5) - {1}"
    using pop_best_last_come [of two_waiting 5] by blast
  then show ?thesis using s by (simp add: two_waiting_def)
qed

section \<open>Aging\<close>

text \<open>\<open>n\<close> aging rounds, a full period apart.\<close>

fun age_rounds :: "nat \<Rightarrow> kern \<Rightarrow> kern" where
  "age_rounds 0 k = k"
| "age_rounds (Suc n) k = age_rounds n (age_threads (k\<lparr>k_ticks := k_ticks k + RV9K_AGE_PERIOD_TICKS\<rparr>))"

lemma age_threads_due:
  assumes "k_last_age_tick k = k_ticks k" "i < length (k_threads k)"
  shows "let k' = age_threads (k\<lparr>k_ticks := k_ticks k + RV9K_AGE_PERIOD_TICKS\<rparr>) in
    k_last_age_tick k' = k_ticks k' \<and> length (k_threads k') = length (k_threads k) \<and>
    thr k' i = age_one (Some i = top_thread k) (thr k i)"
  using assms
  by (simp add: age_threads_def Let_def indices_def RV9K_AGE_PERIOD_TICKS_def top_thread_def)

lemma age_one_not_top:
  assumes "prio_ok t" "runnable t"
  shows "t_age (age_one False t) = min 10 (t_age t + 1)" "runnable (age_one False t)"
    "t_base_priority (age_one False t) = t_base_priority t" "prio_ok (age_one False t)"
  using assms prio_ok_age_one [OF assms(1), of False]
  by (auto simp: age_one_def recompute_priority_def k_consts prio_ok_def runnable_def)

text \<open>A runnable thread that is not the top one in any of \<open>n\<close> aging rounds has aged by
  \<open>n\<close>, up to 10, and its effective priority is at least its base plus that age, capped at 15:
  after ten rounds of being passed over it is ten priorities higher, so whatever its base no
  priority in use stays out of reach but by ten.\<close>

theorem aging_catches_up:
  assumes "prios_ok k" "i < length (k_threads k)" "runnable (thr k i)" "k_last_age_tick k = k_ticks k"
    "\<forall>m<n. top_thread (age_rounds m k) \<noteq> Some i"
  shows "t_age (thr (age_rounds n k) i) = min 10 (t_age (thr k i) + int n) \<and>
    t_effective_priority (thr (age_rounds n k) i) \<ge>
      min 15 (t_base_priority (thr k i) + min 10 (t_age (thr k i) + int n))"
  using assms
proof (induction n arbitrary: k)
  case 0
  then show ?case using all_threads_thr [OF 0(1,2)] by (simp add: prio_ok_def)
next
  case (Suc n)
  let ?k = "age_threads (k\<lparr>k_ticks := k_ticks k + RV9K_AGE_PERIOD_TICKS\<rparr>)"
  have t: "thr ?k i = age_one False (thr k i)" "length (k_threads ?k) = length (k_threads k)"
    "k_last_age_tick ?k = k_ticks ?k"
    using age_threads_due [OF Suc.prems(4,2)] Suc.prems(5)[rule_format, of 0] by (auto simp: Let_def)
  have ok: "prios_ok ?k" using Suc.prems(1) by (intro prio_law.aged) (simp add: all_threads_def)
  have p: "prio_ok (thr k i)" using Suc.prems(1,2) by (simp add: all_threads_thr)
  note one = age_one_not_top [OF p Suc.prems(3)]
  have "t_age (thr (age_rounds n ?k) i) = min 10 (t_age (thr ?k i) + int n) \<and>
    t_effective_priority (thr (age_rounds n ?k) i) \<ge>
      min 15 (t_base_priority (thr ?k i) + min 10 (t_age (thr ?k i) + int n))"
  proof (rule Suc.IH [OF ok])
    show "i < length (k_threads ?k)" using Suc.prems(2) t by simp
    show "runnable (thr ?k i)" using one t by simp
    show "k_last_age_tick ?k = k_ticks ?k" by (rule t)
    show "\<forall>m<n. top_thread (age_rounds m ?k) \<noteq> Some i"
      using Suc.prems(5) by (metis age_rounds.simps(2) Suc_less_eq)
  qed
  then show ?case using one t by (simp add: min_def split: if_splits)
qed

lemma aging_catches_up_witness:
  "t_age (thr (age_rounds 3 two_threads) 0) = 3 \<and> t_effective_priority (thr (age_rounds 3 two_threads) 0) \<ge> 6"
proof -
  have "prios_ok two_threads" by (simp add: two_threads_def concrete)
  moreover have "\<forall>m<3. top_thread (age_rounds m two_threads) \<noteq> Some 0" by code_simp
  moreover have "runnable (thr two_threads 0)" "k_last_age_tick two_threads = k_ticks two_threads"
    "t_age (thr two_threads 0) = 0" "t_base_priority (thr two_threads 0) = 3" "0 < length (k_threads two_threads)"
    by code_simp+
  ultimately show ?thesis using aging_catches_up [of two_threads 0 3] by simp
qed

section \<open>Stopping a thread from outside\<close>

text \<open>\<open>rv9k_thread_stop\<close> refuses the caller itself and a dead thread (-1) and changes nothing;
  a thread that holds a lock is not stopped but asked to cancel (-2); any other is DEAD with
  fault KILLED, its slot held, off its queue, and the invariants stand.\<close>

theorem thread_stop_cases:
  assumes "calm k" "i < length (k_threads k)" "rv9k_thread_stop i k = (k', r)"
  shows "calm k' \<and>
    (r = - 1 \<and> k' = k \<and> (k_current k = Some i \<or> t_state (thr k i) = RV9K_DEAD) \<or>
     r = - 2 \<and> t_holds (thr k i) > 0 \<and> thr k' i = (thr k i)\<lparr>t_cancel := True\<rparr> \<or>
     r = 0 \<and> t_holds (thr k i) = 0 \<and> k_current k \<noteq> Some i \<and> t_state (thr k' i) = RV9K_DEAD \<and>
       t_fault (thr k' i) = RV9K_FAULT_KILLED \<and> t_held (thr k' i) \<and> (\<forall>q. i \<notin> set (k_waitq k' q)))"
proof -
  have calm': "calm k'"
    using calm_step [of k "OStop i"] assms by simp
  then have off: "t_state (thr k' i) = RV9K_DEAD \<Longrightarrow> i < length (k_threads k') \<Longrightarrow> i \<notin> set (k_waitq k' q)" for q
    by (auto simp: calm_def queues_ok_def)
  show ?thesis
  proof (cases "k_current k = Some i \<or> t_state (thr k i) = RV9K_DEAD")
    case True
    then show ?thesis using assms(3) calm' by (auto simp: rv9k_thread_stop_def)
  next
    case False
    then show ?thesis using assms calm' off
      by (auto simp: rv9k_thread_stop_def split: if_splits)
  qed
qed

lemma thread_stop_cases_witness:
  "snd (rv9k_thread_stop 1 two_threads) = 0 \<and> calm (fst (rv9k_thread_stop 1 two_threads)) \<and>
   t_fault (thr (fst (rv9k_thread_stop 1 two_threads)) 1) = RV9K_FAULT_KILLED"
proof -
  have r: "snd (rv9k_thread_stop 1 two_threads) = 0" "1 < length (k_threads two_threads)" by code_simp+
  show ?thesis
    using thread_stop_cases [OF calm_two r(2) prod.collapse [symmetric]] r by simp
qed

section \<open>Blocking while the scheduler is locked\<close>

text \<open>With the scheduler locked, a wait without a deadline comes straight back as if timed
  out, but leaves the running thread BLOCKED, on no queue and with no deadline: at the first
  \<open>reschedule\<close> after the lock is released it is switched out, and no tick, give or round of
  the scheduler makes it runnable again.\<close>

theorem locked_wait_hangs:
  "\<exists>k p q. calm k \<and> k_current k = Some p \<and>
     (let k1 = fst (block_resume q p (kstep k (OBlock q RV9K_WAIT_FOREVER 200)));
          k2 = kstep k1 (OUnlock 200)
      in \<not> snd (block_resume q p (kstep k (OBlock q RV9K_WAIT_FOREVER 200))) \<and>
         k_current k1 = Some p \<and> k_current k2 \<noteq> Some p \<and> k_waitq k2 q = [] \<and>
         t_state (thr k2 p) = RV9K_BLOCKED \<and> \<not> t_has_deadline (thr k2 p))"
proof (rule exI [of _ "two_threads\<lparr>k_sched_lock := 1\<rparr>"], rule exI [of _ 0], rule exI [of _ 5], intro conjI)
  show "calm (two_threads\<lparr>k_sched_lock := 1\<rparr>)"
    using calm_two by (simp add: calm_def all_threads_def)
qed code_simp+

end
