(* ===== verification/KSync.thy ===== *)
theory KSync
  imports KSchedInv
begin

text \<open>
  Semaphores, mutexes and message queues of RV-9's own kernel
  (components/rv9_kernel/src/sched.c). A blocking call is a sequence of turns of its loop:
  each turn either finishes or asks to block on a wait queue, and \<open>block_enter\<close> /
  \<open>block_resume\<close> of the scheduler run in between. Wait queues are named by number.
\<close>

section \<open>Outcomes of a loop turn\<close>

text \<open>\<open>Done b\<close>: the call returns \<open>b\<close>. \<open>Block q\<close>: it calls \<open>block_on\<close> on queue \<open>q\<close>.\<close>

datatype turn = Done bool | Block nat

section \<open>Semaphores\<close>

record ksem =
  s_count :: int
  s_max :: int
  s_waiters :: nat

definition rv9k_sem_init :: "int \<Rightarrow> int \<Rightarrow> ksem \<Rightarrow> kern \<Rightarrow> ksem \<times> kern" where
  "rv9k_sem_init initial mx s k =
     (s\<lparr>s_count := initial, s_max := mx\<rparr>, k\<lparr>k_waitq := (k_waitq k)(s_waiters s := [])\<rparr>)"

definition sem_take_turn :: "u32 \<Rightarrow> ksem \<Rightarrow> kern \<Rightarrow> ksem \<times> turn" where
  "sem_take_turn ms s k =
     (if s_count s > 0 then (s\<lparr>s_count := s_count s - 1\<rparr>, Done True)
      else if ms = 0 \<or> k_current k = None then (s, Done False)
      else (s, Block (s_waiters s)))"

text \<open>Back from \<open>block_on\<close>: false ends the call, true tries again.\<close>

definition sem_take_again :: "u32 \<Rightarrow> bool \<Rightarrow> ksem \<Rightarrow> kern \<Rightarrow> ksem \<times> turn" where
  "sem_take_again ms woken s k = (if \<not> woken then (s, Done False) else sem_take_turn ms s k)"

definition sem_room :: "ksem \<Rightarrow> bool" where
  "sem_room s \<longleftrightarrow> s_max s \<le> 0 \<or> s_count s < s_max s"

definition sem_raise :: "ksem \<Rightarrow> ksem" where
  "sem_raise s = (if sem_room s then s\<lparr>s_count := s_count s + 1\<rparr> else s)"

definition rv9k_sem_give :: "ksem \<Rightarrow> kern \<Rightarrow> ksem \<times> kern" where
  "rv9k_sem_give s k = (sem_raise s, fst (waitq_pop_best (s_waiters s) k))"

text \<open>Answers whether there was room, and \<open>woken\<close>: whether anybody waits.\<close>

definition rv9k_sem_give_from_isr :: "ksem \<Rightarrow> kern \<Rightarrow> (ksem \<times> kern) \<times> bool \<times> bool" where
  "rv9k_sem_give_from_isr s k =
     ((sem_raise s, pend_wake (s_waiters s) k), sem_room s, k_waitq k (s_waiters s) \<noteq> [])"

section \<open>Mutexes\<close>

record kmutex =
  m_sem :: ksem
  m_owner :: "nat option"
  m_depth :: nat

definition rv9k_mutex_init :: "kmutex \<Rightarrow> kern \<Rightarrow> kmutex \<times> kern" where
  "rv9k_mutex_init m k =
     (let (s, k') = rv9k_sem_init 1 1 (m_sem m) k
      in (m\<lparr>m_sem := s, m_owner := None, m_depth := 0\<rparr>, k'))"

text \<open>\<open>mutex_taken\<close> is what follows the semaphore's take.\<close>

definition mutex_taken :: "kmutex \<Rightarrow> ksem \<times> turn \<Rightarrow> kern \<Rightarrow> (kmutex \<times> kern) \<times> turn" where
  "mutex_taken m r k =
     (case r of
        (s, Done True) \<Rightarrow>
          ((m\<lparr>m_sem := s, m_owner := k_current k, m_depth := 1\<rparr>,
            case k_current k of None \<Rightarrow> k | Some c \<Rightarrow> upd c (\<lambda>t. t\<lparr>t_holds := t_holds t + 1\<rparr>) k), Done True)
      | (s, Done False) \<Rightarrow> ((m\<lparr>m_sem := s\<rparr>, k), Done False)
      | (s, Block q) \<Rightarrow> ((m\<lparr>m_sem := s\<rparr>, k), Block q))"

definition mutex_lock_turn :: "u32 \<Rightarrow> kmutex \<Rightarrow> kern \<Rightarrow> (kmutex \<times> kern) \<times> turn" where
  "mutex_lock_turn ms m k =
     (if m_owner m \<noteq> None \<and> m_owner m = k_current k
      then ((m\<lparr>m_depth := m_depth m + 1\<rparr>, k), Done True)
      else mutex_taken m (sem_take_turn ms (m_sem m) k) k)"

definition mutex_lock_again :: "u32 \<Rightarrow> bool \<Rightarrow> kmutex \<Rightarrow> kern \<Rightarrow> (kmutex \<times> kern) \<times> turn" where
  "mutex_lock_again ms woken m k = mutex_taken m (sem_take_again ms woken (m_sem m) k) k"

definition rv9k_mutex_unlock :: "kmutex \<Rightarrow> kern \<Rightarrow> kmutex \<times> kern" where
  "rv9k_mutex_unlock m k =
     (if m_depth m = 0 then (m, k)
      else if m_depth m - 1 > 0 then (m\<lparr>m_depth := m_depth m - 1\<rparr>, k)
      else
        let k1 = (case m_owner m of None \<Rightarrow> k
                  | Some w \<Rightarrow> if t_holds (thr k w) > 0 then upd w (\<lambda>t. t\<lparr>t_holds := t_holds t - 1\<rparr>) k else k);
            (s, k2) = rv9k_sem_give (m_sem m) k1
        in (m\<lparr>m_depth := 0, m_owner := None, m_sem := s\<rparr>, k2))"

section \<open>Message queues\<close>

record kqueue =
  q_storage :: "8 word list"
  q_capacity :: nat
  q_item_size :: nat
  q_head :: nat
  q_tail :: nat
  q_count :: nat
  q_not_empty :: nat
  q_not_full :: nat

text \<open>\<open>copy_bytes\<close>, one byte at a time, between offsets of two byte arrays.\<close>

fun copy_bytes :: "8 word list \<Rightarrow> nat \<Rightarrow> 8 word list \<Rightarrow> nat \<Rightarrow> nat \<Rightarrow> 8 word list" where
  "copy_bytes dst d src s 0 = dst"
| "copy_bytes dst d src s (Suc n) = copy_bytes (dst[d := src ! s]) (Suc d) src (Suc s) n"

definition rv9k_queue_init :: "8 word list \<Rightarrow> nat \<Rightarrow> nat \<Rightarrow> kqueue \<Rightarrow> kern \<Rightarrow> kqueue \<times> kern" where
  "rv9k_queue_init storage capacity item_size q k =
     (q\<lparr>q_storage := storage, q_capacity := capacity, q_item_size := item_size,
        q_head := 0, q_tail := 0, q_count := 0\<rparr>,
      k\<lparr>k_waitq := (k_waitq k)(q_not_empty q := [], q_not_full q := [])\<rparr>)"

text \<open>The masked sections: put an item in if there is room, take one out if there is one.\<close>

definition queue_put :: "8 word list \<Rightarrow> kqueue \<Rightarrow> kqueue option" where
  "queue_put item q =
     (if q_count q < q_capacity q
      then Some (q\<lparr>q_storage := copy_bytes (q_storage q) (q_tail q * q_item_size q) item 0 (q_item_size q),
                   q_tail := (q_tail q + 1) mod q_capacity q, q_count := q_count q + 1\<rparr>)
      else None)"

definition queue_get :: "kqueue \<Rightarrow> (8 word list \<times> kqueue) option" where
  "queue_get q =
     (if q_count q > 0
      then Some (copy_bytes (replicate (q_item_size q) 0) 0 (q_storage q) (q_head q * q_item_size q) (q_item_size q),
                 q\<lparr>q_head := (q_head q + 1) mod q_capacity q, q_count := q_count q - 1\<rparr>)
      else None)"

definition queue_send_turn :: "8 word list \<Rightarrow> u32 \<Rightarrow> kqueue \<Rightarrow> kern \<Rightarrow> (kqueue \<times> kern) \<times> turn" where
  "queue_send_turn item ms q k =
     (case queue_put item q of
        Some q' \<Rightarrow> ((q', fst (waitq_pop_best (q_not_empty q) k)), Done True)
      | None \<Rightarrow> if ms = 0 \<or> k_current k = None then ((q, k), Done False)
                else ((q, k), Block (q_not_full q)))"

definition queue_send_again :: "8 word list \<Rightarrow> u32 \<Rightarrow> bool \<Rightarrow> kqueue \<Rightarrow> kern \<Rightarrow> (kqueue \<times> kern) \<times> turn" where
  "queue_send_again item ms woken q k =
     (if \<not> woken then ((q, k), Done False) else queue_send_turn item ms q k)"

definition rv9k_queue_send_from_isr :: "8 word list \<Rightarrow> kqueue \<Rightarrow> kern \<Rightarrow> (kqueue \<times> kern) \<times> bool \<times> bool" where
  "rv9k_queue_send_from_isr item q k =
     (let waiting = (k_waitq k (q_not_empty q) \<noteq> []) in
      case queue_put item q of
        Some q' \<Rightarrow> ((q', pend_wake (q_not_empty q) k), True, waiting)
      | None \<Rightarrow> ((q, k), False, False))"

definition queue_recv_turn :: "u32 \<Rightarrow> kqueue \<Rightarrow> kern \<Rightarrow> (kqueue \<times> kern) \<times> turn \<times> 8 word list" where
  "queue_recv_turn ms q k =
     (case queue_get q of
        Some (item, q') \<Rightarrow> ((q', fst (waitq_pop_best (q_not_full q) k)), Done True, item)
      | None \<Rightarrow> if ms = 0 \<or> k_current k = None then ((q, k), Done False, [])
                else ((q, k), Block (q_not_empty q), []))"

definition queue_recv_again :: "u32 \<Rightarrow> bool \<Rightarrow> kqueue \<Rightarrow> kern \<Rightarrow> (kqueue \<times> kern) \<times> turn \<times> 8 word list" where
  "queue_recv_again ms woken q k =
     (if \<not> woken then ((q, k), Done False, []) else queue_recv_turn ms q k)"

section \<open>First in, first out\<close>

text \<open>The contract of a bounded buffer, and what any sequence of its operations delivers.\<close>

datatype 'a fifo_op = Put 'a | Get

locale fifo =
  fixes ok :: "'s \<Rightarrow> bool"
    and wf :: "'s \<Rightarrow> 'a \<Rightarrow> bool"
    and items :: "'s \<Rightarrow> 'a list"
    and put :: "'a \<Rightarrow> 's \<Rightarrow> 's option"
    and get :: "'s \<Rightarrow> ('a \<times> 's) option"
  assumes put_items: "ok s \<Longrightarrow> wf s x \<Longrightarrow> put x s = Some s' \<Longrightarrow>
      ok s' \<and> items s' = items s @ [x] \<and> wf s' = wf s"
    and get_items: "ok s \<Longrightarrow> get s = Some (x, s') \<Longrightarrow> ok s' \<and> items s = x # items s' \<and> wf s' = wf s"
    and get_empty: "ok s \<Longrightarrow> (get s = None) = (items s = [])"
begin

text \<open>A run, with what was accepted and what was delivered, oldest first.\<close>

fun run :: "'a fifo_op list \<Rightarrow> 's \<Rightarrow> 's \<times> 'a list \<times> 'a list" where
  "run [] s = (s, [], [])"
| "run (Put x # es) s =
     (case put x s of
        None \<Rightarrow> run es s
      | Some s' \<Rightarrow> let (t, ins, outs) = run es s' in (t, x # ins, outs))"
| "run (Get # es) s =
     (case get s of
        None \<Rightarrow> run es s
      | Some (x, s') \<Rightarrow> let (t, ins, outs) = run es s' in (t, ins, x # outs))"

lemma run_fifo:
  "ok s \<Longrightarrow> (\<And>x. Put x \<in> set es \<Longrightarrow> wf s x) \<Longrightarrow> run es s = (t, ins, outs) \<Longrightarrow>
   ok t \<and> items s @ ins = outs @ items t"
proof (induction es s arbitrary: t ins outs rule: run.induct)
  case (1 s)
  then show ?case by simp
next
  case (2 x es s)
  show ?case
  proof (cases "put x s")
    case None
    then show ?thesis using 2 by simp
  next
    case (Some s')
    obtain i where i: "run es s' = (t, i, outs)" "ins = x # i"
      using 2(5) Some by (auto split: prod.splits)
    from put_items [OF 2(3) _ Some] 2(4)
    have s': "ok s'" "items s' = items s @ [x]" "wf s' = wf s" by simp_all
    have "ok t \<and> items s' @ i = outs @ items t"
      using 2(2) [OF Some s'(1) _ i(1)] 2(4) s'(3) by simp
    then show ?thesis using s' i by simp
  qed
next
  case (3 es s)
  show ?case
  proof (cases "get s")
    case None
    then show ?thesis using 3 by simp
  next
    case (Some p)
    then obtain x s' where p: "get s = Some (x, s')" by (cases p) simp
    obtain o' where o': "run es s' = (t, ins, o')" "outs = x # o'"
      using 3(5) p by (auto split: prod.splits)
    from get_items [OF 3(3) p] have s': "ok s'" "items s = x # items s'" "wf s' = wf s" by simp_all
    have "ok t \<and> items s' @ ins = o' @ items t"
      using 3(2) [OF p refl s'(1) _ o'(1)] 3(4) s'(3) by simp
    then show ?thesis using s' o' by simp
  qed
qed

end


section \<open>The ring is a first-in first-out buffer\<close>

lemma copy_bytes_length [simp]: "length (copy_bytes dst d src s n) = length dst"
  by (induction dst d src s n rule: copy_bytes.induct) simp_all

lemma copy_bytes_nth:
  "d + n \<le> length dst \<Longrightarrow> i < length dst \<Longrightarrow>
   copy_bytes dst d src s n ! i = (if d \<le> i \<and> i < d + n then src ! (s + (i - d)) else dst ! i)"
proof (induction dst d src s n rule: copy_bytes.induct)
  case (2 dst d src s n)
  then have IH: "copy_bytes (dst[d := src ! s]) (Suc d) src (Suc s) n ! i =
      (if Suc d \<le> i \<and> i < Suc d + n then src ! (Suc s + (i - Suc d)) else dst[d := src ! s] ! i)"
    by simp
  have "i = d \<or> i < d \<or> Suc d \<le> i" by linarith
  then show ?case
  proof (elim disjE)
    assume "Suc d \<le> i"
    then have "Suc s + (i - Suc d) = s + (i - d)" by linarith
    then show ?thesis using IH \<open>Suc d \<le> i\<close> 2(2,3) by simp
  qed (use IH 2(2,3) in simp_all)
qed auto

text \<open>Item \<open>j\<close> of the storage, and the items of the queue from the head.\<close>

definition slot :: "kqueue \<Rightarrow> nat \<Rightarrow> 8 word list" where
  "slot q j = take (q_item_size q) (drop (j * q_item_size q) (q_storage q))"

definition queue_items :: "kqueue \<Rightarrow> 8 word list list" where
  "queue_items q = map (\<lambda>i. slot q ((q_head q + i) mod q_capacity q)) [0..<q_count q]"

definition queue_ok :: "kqueue \<Rightarrow> bool" where
  "queue_ok q \<longleftrightarrow> q_capacity q > 0 \<and> length (q_storage q) = q_capacity q * q_item_size q \<and>
     q_head q < q_capacity q \<and> q_count q \<le> q_capacity q \<and>
     q_tail q = (q_head q + q_count q) mod q_capacity q"

definition item_ok :: "kqueue \<Rightarrow> 8 word list \<Rightarrow> bool" where
  "item_ok q x \<longleftrightarrow> length x = q_item_size q"

lemma slot_fits: "j < cap \<Longrightarrow> j * sz + sz \<le> cap * (sz :: nat)"
  by (metis Suc_leI add.commute mult_Suc mult_le_mono1)

lemma slot_length: "queue_ok q \<Longrightarrow> j < q_capacity q \<Longrightarrow> length (slot q j) = q_item_size q"
  using slot_fits [of j "q_capacity q" "q_item_size q"] by (simp add: slot_def queue_ok_def)

lemma slot_nth: "queue_ok q \<Longrightarrow> j < q_capacity q \<Longrightarrow> m < q_item_size q \<Longrightarrow>
   slot q j ! m = q_storage q ! (j * q_item_size q + m)"
  using slot_fits [of j "q_capacity q" "q_item_size q"] by (simp add: slot_def queue_ok_def)

lemma other_slot:
  fixes sz j t m :: nat
  assumes "m < sz" "j \<noteq> t"
  shows "\<not> (t * sz \<le> j * sz + m \<and> j * sz + m < t * sz + sz)"
proof
  assume a: "t * sz \<le> j * sz + m \<and> j * sz + m < t * sz + sz"
  consider "j < t" | "t < j" using assms(2) by linarith
  then show False
  proof cases
    case 1
    from slot_fits [OF 1, of sz] assms(1) a show False by linarith
  next
    case 2
    from slot_fits [OF 2, of sz] a show False by linarith
  qed
qed

lemma put_slot:
  assumes "queue_ok q" "item_ok q x" "t < q_capacity q" "j < q_capacity q"
    and "q' = q\<lparr>q_storage := copy_bytes (q_storage q) (t * q_item_size q) x 0 (q_item_size q),
              q_tail := a, q_count := c\<rparr>"
  shows "slot q' j = (if j = t then x else slot q j)"
proof (rule nth_equalityI)
  let ?n = "q_item_size q"
  have l: "length (q_storage q) = q_capacity q * ?n" using assms(1) by (simp add: queue_ok_def)
  have fit: "j * ?n + ?n \<le> length (q_storage q)" "t * ?n + ?n \<le> length (q_storage q)"
    using slot_fits [OF assms(3)] slot_fits [OF assms(4)] by (simp_all add: l)
  show "length (slot q' j) = length (if j = t then x else slot q j)"
    using fit assms(2) by (simp add: slot_def assms(5) item_ok_def)
  fix m assume "m < length (slot q' j)"
  then have m: "m < ?n" using fit by (simp add: slot_def assms(5))
  then have "slot q' j ! m = copy_bytes (q_storage q) (t * ?n) x 0 ?n ! (j * ?n + m)"
    using fit by (simp add: slot_def assms(5))
  also have "\<dots> = (if j = t then x ! m else q_storage q ! (j * ?n + m))"
    using other_slot [OF m, of j t] m fit by (cases "j = t") (auto simp: copy_bytes_nth)
  also have "\<dots> = (if j = t then x else slot q j) ! m"
    using m fit by (simp add: slot_def)
  finally show "slot q' j ! m = (if j = t then x else slot q j) ! m" .
qed

lemma mod_ring_inj:
  assumes "i < c" "c < (n :: nat)"
  shows "(h + i) mod n \<noteq> (h + c) mod n"
proof
  assume "(h + i) mod n = (h + c) mod n"
  then have "n dvd (h + c) - (h + i)" using assms mod_eq_dvd_iff_nat [of "h + i" "h + c" n] by simp
  then have "n dvd c - i" by simp
  then show False using assms by (auto dest!: dvd_imp_le)
qed

lemma queue_put_items:
  assumes q: "queue_ok q" and x: "item_ok q x" and p: "queue_put x q = Some q'"
  shows "queue_ok q' \<and> queue_items q' = queue_items q @ [x] \<and> item_ok q' = item_ok q"
proof -
  let ?n = "q_capacity q"
  have room: "q_count q < ?n" and
    q': "q' = q\<lparr>q_storage := copy_bytes (q_storage q) (q_tail q * q_item_size q) x 0 (q_item_size q),
                q_tail := (q_tail q + 1) mod ?n, q_count := q_count q + 1\<rparr>"
    using p by (auto simp: queue_put_def split: if_splits)
  have t: "q_tail q = (q_head q + q_count q) mod ?n" "q_tail q < ?n"
    using q by (auto simp: queue_ok_def)
  have ok: "queue_ok q'" using q room t(1) by (simp add: queue_ok_def q' mod_Suc_eq)
  have sl: "slot q' j = (if j = q_tail q then x else slot q j)" if "j < ?n" for j
    by (rule put_slot [OF q x t(2) that q'])
  have "map (\<lambda>i. slot q' ((q_head q + i) mod ?n)) [0..<q_count q] =
        map (\<lambda>i. slot q ((q_head q + i) mod ?n)) [0..<q_count q]"
    using room t mod_ring_inj [of _ "q_count q" ?n "q_head q"] q by (auto simp: sl)
  moreover have "slot q' ((q_head q + q_count q) mod ?n) = x" using t sl [of "q_tail q"] by simp
  moreover have "q_head q' = q_head q" "q_capacity q' = ?n" "q_count q' = Suc (q_count q)"
    by (simp_all add: q')
  ultimately have "queue_items q' = queue_items q @ [x]" by (simp add: queue_items_def)
  moreover have "item_ok q' = item_ok q" by (rule ext) (simp add: item_ok_def q')
  ultimately show ?thesis using ok by simp
qed

lemma queue_get_items:
  assumes q: "queue_ok q" and g: "queue_get q = Some (x, q')"
  shows "queue_ok q' \<and> queue_items q = x # queue_items q' \<and> item_ok q' = item_ok q"
proof -
  let ?n = "q_capacity q"
  have c: "q_count q > 0" and
    q': "q' = q\<lparr>q_head := (q_head q + 1) mod ?n, q_count := q_count q - 1\<rparr>" and
    x: "x = copy_bytes (replicate (q_item_size q) 0) 0 (q_storage q) (q_head q * q_item_size q) (q_item_size q)"
    using g by (auto simp: queue_get_def split: if_splits)
  have h: "q_head q < ?n" using q by (simp add: queue_ok_def)
  have "x = slot q (q_head q)"
    by (rule nth_equalityI) (use h q in \<open>simp_all add: x copy_bytes_nth slot_length slot_nth\<close>)
  moreover have "[0..<q_count q] = 0 # map Suc [0..<q_count q - 1]"
    using c by (simp add: map_Suc_upt upt_conv_Cons)
  moreover have "slot q' j = slot q j" for j by (simp add: slot_def q')
  ultimately have "queue_items q = x # queue_items q'"
    using h by (simp add: queue_items_def q' mod_add_left_eq)
  moreover have "(q_head q + q_count q) mod ?n = ((q_head q + 1) mod ?n + (q_count q - 1)) mod ?n"
  proof -
    have "q_head q + q_count q = q_head q + 1 + (q_count q - 1)" using c by simp
    then show ?thesis by (metis mod_add_left_eq)
  qed
  then have "queue_ok q'"
    using q c by (auto simp: queue_ok_def q')
  moreover have "item_ok q' = item_ok q" by (rule ext) (simp add: item_ok_def q')
  ultimately show ?thesis by simp
qed

interpretation kq: fifo queue_ok item_ok queue_items queue_put queue_get
proof unfold_locales
  fix s x s' assume "queue_ok s" "item_ok s x" "queue_put x s = Some s'"
  then show "queue_ok s' \<and> queue_items s' = queue_items s @ [x] \<and> item_ok s' = item_ok s"
    by (rule queue_put_items)
next
  fix s x s' assume "queue_ok s" "queue_get s = Some (x, s')"
  then show "queue_ok s' \<and> queue_items s = x # queue_items s' \<and> item_ok s' = item_ok s"
    by (rule queue_get_items)
next
  fix s assume "queue_ok s"
  then show "(queue_get s = None) = (queue_items s = [])"
    by (simp add: queue_get_def queue_items_def)
qed


section \<open>The ring of interrupt wakes is one too\<close>

definition pend_ok :: "kern \<Rightarrow> bool" where
  "pend_ok k \<longleftrightarrow> length (k_pending k) = PENDING_MAX \<and> k_pend_head k < PENDING_MAX \<and> k_pend_tail k < PENDING_MAX"

definition pend_count :: "kern \<Rightarrow> nat" where
  "pend_count k = (k_pend_head k + PENDING_MAX - k_pend_tail k) mod PENDING_MAX"

definition pend_items :: "kern \<Rightarrow> nat list" where
  "pend_items k = map (\<lambda>i. k_pending k ! ((k_pend_tail k + i) mod PENDING_MAX)) [0..<pend_count k]"

text \<open>A note is kept unless the ring is full; the drain takes the oldest.\<close>

definition pend_put :: "nat \<Rightarrow> kern \<Rightarrow> kern option" where
  "pend_put q k =
     (if k_waitq k q \<noteq> [] \<and> k_pend_lost (pend_wake q k) = k_pend_lost k then Some (pend_wake q k) else None)"

definition pend_get :: "kern \<Rightarrow> (nat \<times> kern) option" where
  "pend_get k =
     (if k_pend_tail k = k_pend_head k then None
      else Some (k_pending k ! k_pend_tail k, k\<lparr>k_pend_tail := (k_pend_tail k + 1) mod PENDING_MAX\<rparr>))"

lemma drain_one_get:
  "k_pend_tail k \<noteq> k_pend_head k \<Longrightarrow>
   drain_one k = (case pend_get k of Some (q, k') \<Rightarrow> fst (waitq_pop_best q k') | None \<Rightarrow> k)"
  by (simp add: drain_one_def pend_get_def Let_def)

lemma ring_count_step:
  fixes h t n :: nat
  assumes "h < n" "t < n"
  shows "(h + 1) mod n \<noteq> t \<Longrightarrow> ((h + 1) mod n + n - t) mod n = (h + n - t) mod n + 1"
    and "t \<noteq> h \<Longrightarrow> (h + n - (t + 1) mod n) mod n + 1 = (h + n - t) mod n"
    and "(t + (h + n - t) mod n) mod n = h"
  using assms by (auto simp: mod_if)

lemma pend_put_items:
  assumes "pend_ok k" "pend_put q k = Some k'"
  shows "pend_ok k' \<and> pend_items k' = pend_items k @ [q]"
proof -
  let ?h = "(k_pend_head k + 1) mod PENDING_MAX"
  have room: "?h \<noteq> k_pend_tail k" and
    k': "k' = k\<lparr>k_pending := (k_pending k)[k_pend_head k := q], k_pend_head := ?h\<rparr>"
    using assms(2) by (auto simp: pend_put_def pend_wake_def Let_def split: if_splits)
  have b: "k_pend_head k < PENDING_MAX" "k_pend_tail k < PENDING_MAX" "length (k_pending k) = PENDING_MAX"
    using assms(1) by (simp_all add: pend_ok_def)
  have c: "pend_count k' = Suc (pend_count k)"
    using ring_count_step(1) [OF b(1,2) room] by (simp add: pend_count_def k')
  have h: "(k_pend_tail k + pend_count k) mod PENDING_MAX = k_pend_head k"
    using ring_count_step(3) [OF b(1,2)] by (simp add: pend_count_def)
  have "pend_count k < PENDING_MAX" by (simp add: pend_count_def PENDING_MAX_def)
  then have ne: "k_pend_head k \<noteq> (k_pend_tail k + i) mod PENDING_MAX" if "i < pend_count k" for i
    using mod_ring_inj [OF that, of PENDING_MAX "k_pend_tail k"] h by (metis)
  have "pend_items k' = map (\<lambda>i. k_pending k' ! ((k_pend_tail k + i) mod PENDING_MAX)) [0..<pend_count k]
      @ [k_pending k' ! k_pend_head k]"
    by (simp add: pend_items_def c h) (simp add: k' h)
  moreover have "map (\<lambda>i. k_pending k' ! ((k_pend_tail k + i) mod PENDING_MAX)) [0..<pend_count k] = pend_items k"
    using ne by (simp add: pend_items_def k')
  moreover have "k_pending k' ! k_pend_head k = q" using b by (simp add: k')
  moreover have "pend_ok k'" using b by (simp add: pend_ok_def k')
  ultimately show ?thesis by simp
qed

lemma pend_get_items:
  assumes "pend_ok k" "pend_get k = Some (q, k')"
  shows "pend_ok k' \<and> pend_items k = q # pend_items k'"
proof -
  let ?t = "(k_pend_tail k + 1) mod PENDING_MAX"
  have ne: "k_pend_tail k \<noteq> k_pend_head k" and q: "q = k_pending k ! k_pend_tail k"
    and k': "k' = k\<lparr>k_pend_tail := ?t\<rparr>"
    using assms(2) by (auto simp: pend_get_def split: if_splits)
  have b: "k_pend_head k < PENDING_MAX" "k_pend_tail k < PENDING_MAX" "length (k_pending k) = PENDING_MAX"
    using assms(1) by (simp_all add: pend_ok_def)
  have c: "pend_count k = Suc (pend_count k')"
    using ring_count_step(2) [OF b(1,2) ne] by (simp add: pend_count_def k')
  have "pend_items k = q # map (\<lambda>i. k_pending k ! ((k_pend_tail k + i) mod PENDING_MAX)) (map Suc [0..<pend_count k'])"
    using b by (simp add: pend_items_def c map_Suc_upt upt_conv_Cons q del: upt_Suc)
  moreover have "(k_pend_tail k + Suc i) mod PENDING_MAX = (?t + i) mod PENDING_MAX" for i
    by (simp add: mod_add_left_eq)
  ultimately have "pend_items k = q # pend_items k'"
    by (simp add: pend_items_def k' o_def)
  moreover have "pend_ok k'" using b by (simp add: pend_ok_def k')
  ultimately show ?thesis by simp
qed

lemma pend_get_empty:
  assumes "pend_ok k"
  shows "(pend_get k = None) = (pend_items k = [])"
proof -
  have b: "k_pend_head k < PENDING_MAX" "k_pend_tail k < PENDING_MAX"
    using assms by (simp_all add: pend_ok_def)
  have "(k_pend_tail k + pend_count k) mod PENDING_MAX = k_pend_head k"
    using ring_count_step(3) [OF b] by (simp add: pend_count_def)
  then have "pend_count k = 0 \<Longrightarrow> k_pend_tail k = k_pend_head k" using b by simp
  moreover have "k_pend_tail k = k_pend_head k \<Longrightarrow> pend_count k = 0" by (simp add: pend_count_def)
  ultimately show ?thesis by (auto simp: pend_get_def pend_items_def)
qed

interpretation pq: fifo pend_ok "\<lambda>k q. True" pend_items pend_put pend_get
proof unfold_locales
  fix s x s' assume "pend_ok s" "pend_put x s = Some s'"
  then show "pend_ok s' \<and> pend_items s' = pend_items s @ [x] \<and> (\<lambda>q :: nat. True) = (\<lambda>q. True)"
    using pend_put_items by blast
next
  fix s x s' assume "pend_ok s" "pend_get s = Some (x, s')"
  then show "pend_ok s' \<and> pend_items s = x # pend_items s' \<and> (\<lambda>q :: nat. True) = (\<lambda>q. True)"
    using pend_get_items by blast
qed (rule pend_get_empty)

text \<open>The drain's loop empties the ring: \<open>PENDING_MAX\<close> turns are enough.\<close>

lemma drain_turns_empty:
  "pend_ok k \<Longrightarrow> pend_count k \<le> n \<Longrightarrow> k_pend_tail (drain_turns n k) = k_pend_head (drain_turns n k)"
proof (induction n arbitrary: k)
  case 0
  then have "pend_items k = []" by (simp add: pend_items_def)
  then show ?case using pend_get_empty [OF 0(1)] by (simp add: pend_get_def split: if_splits)
next
  case (Suc n)
  show ?case
  proof (cases "k_pend_tail k = k_pend_head k")
    case False
    then obtain q k' where g: "pend_get k = Some (q, k')" by (auto simp: pend_get_def)
    have d: "drain_one k = fst (waitq_pop_best q k')" using drain_one_get [OF False] g by simp
    have "pend_ok k'" "length (pend_items k) = Suc (length (pend_items k'))"
      using pend_get_items [OF Suc.prems(1) g] by simp_all
    then have "pend_ok (drain_one k)" "pend_count (drain_one k) \<le> n"
      using Suc.prems(2) by (simp_all add: d pend_ok_def pend_count_def pend_items_def)
    then show ?thesis using Suc.IH False by simp
  qed simp
qed

lemma drain_pending_empties:
  "pend_ok k \<Longrightarrow> k_pend_tail (drain_pending k) = k_pend_head (drain_pending k)"
  unfolding drain_pending_def
  by (rule drain_turns_empty) (simp_all add: pend_count_def PENDING_MAX_def less_imp_le)

end
