(* ===== verification/KSyncProps.thy ===== *)
theory KSyncProps
  imports KSync KSchedProps
begin

text \<open>
  The properties of semaphores, mutexes and message queues: order of delivery, the hand-over
  from a give to the waiter it wakes, mutual exclusion, and a wake that is lost when the
  woken thread is stopped before it runs.
\<close>

section \<open>Queues deliver in order\<close>

text \<open>Any sequence of sends and receives, with what was accepted and what was delivered.\<close>

fun queue_run :: "8 word list fifo_op list \<Rightarrow> kqueue \<Rightarrow> kqueue \<times> 8 word list list \<times> 8 word list list" where
  "queue_run [] q = (q, [], [])"
| "queue_run (Put x # es) q =
     (case queue_put x q of
        None \<Rightarrow> queue_run es q
      | Some q' \<Rightarrow> let (t, ins, outs) = queue_run es q' in (t, x # ins, outs))"
| "queue_run (Get # es) q =
     (case queue_get q of
        None \<Rightarrow> queue_run es q
      | Some (x, q') \<Rightarrow> let (t, ins, outs) = queue_run es q' in (t, ins, x # outs))"

lemma queue_run_kq: "queue_run es q = kq.run es q"
  by (induction es q rule: queue_run.induct) (simp_all split: option.split)

text \<open>C8: whatever sends and receives happen on a queue of \<open>capacity\<close> items, with the head
  and tail wrapping around, the items delivered followed by those still inside are the items
  that were inside followed by those accepted, bytes and order unchanged.\<close>

theorem queue_fifo:
  assumes "queue_ok q" "\<forall>x. Put x \<in> set es \<longrightarrow> length x = q_item_size q"
    "queue_run es q = (q', ins, outs)"
  shows "queue_ok q' \<and> queue_items q @ ins = outs @ queue_items q'"
  using kq.run_fifo [OF assms(1), of es q' ins outs] assms(2,3)
  by (simp add: queue_run_kq item_ok_def)

definition small_queue :: kqueue where
  "small_queue = \<lparr>q_storage = [0, 0, 0, 0], q_capacity = 2, q_item_size = 2, q_head = 0, q_tail = 0,
     q_count = 0, q_not_empty = 1, q_not_full = 2\<rparr>"

lemma queue_fifo_witness:
  "\<exists>q'. queue_run [Put [1, 2], Put [3, 4], Put [5, 6], Get, Put [7, 8], Get] small_queue =
      (q', [[1, 2], [3, 4], [7, 8]], [[1, 2], [3, 4]]) \<and>
    [[1, 2], [3, 4], [7, 8]] = [[1, 2], [3, 4]] @ queue_items q'"
proof -
  let ?es = "[Put [1, 2], Put [3, 4], Put [5, 6], Get, Put [7, 8], Get] :: 8 word list fifo_op list"
  have r: "snd (queue_run ?es small_queue) = ([[1, 2], [3, 4], [7, 8]], [[1, 2], [3, 4]])" by code_simp
  have "queue_ok small_queue" "queue_items small_queue = []" "q_item_size small_queue = 2"
    by (simp_all add: small_queue_def queue_ok_def queue_items_def)
  then show ?thesis
    using queue_fifo [of small_queue ?es "fst (queue_run ?es small_queue)" "[[1, 2], [3, 4], [7, 8]]" "[[1, 2], [3, 4]]"]
      r by (intro exI [of _ "fst (queue_run ?es small_queue)"]) (auto simp: prod_eq_iff)
qed

section \<open>A give reaches the waiter it wakes\<close>

text \<open>A give on a semaphore somebody waits for wakes the best waiter: it is READY, off the
  queue, told it was woken (not timed out), and the unit is there for it to take at once,
  leaving the count as it was before the give -- also when the count was at its maximum, where
  it then falls by one.\<close>

theorem give_hands_over:
  assumes "queues_ok k" "k_waitq k (s_waiters s) \<noteq> []" "0 \<le> s_count s" "rv9k_sem_give s k = (s', k')"
  shows "\<exists>b\<in>set (k_waitq k (s_waiters s)).
    t_state (thr k' b) = RV9K_READY \<and> block_resume (s_waiters s) b k' = (k', True) \<and>
    b \<notin> set (k_waitq k' (s_waiters s)) \<and>
    sem_take_again ms True s' k' =
      (s\<lparr>s_count := (if sem_room s then s_count s else s_count s - 1)\<rparr>, Done True)"
proof -
  obtain b where b: "waitq_best (s_waiters s) k = Some b" using assms(2) waitq_best_None by fastforce
  have s': "s' = sem_raise s" and k': "k' = fst (waitq_pop_best (s_waiters s) k)"
    using assms(4) by (simp_all add: rv9k_sem_give_def)
  have bk: "b \<in> set (k_waitq k (s_waiters s))" "b < length (k_threads k)"
    using waitq_best_mem [OF b] queues_ok_on [OF assms(1)] by auto
  have "distinct (k_waitq k (s_waiters s))" using assms(1) by (simp add: queues_ok_def)
  then have "t_state (thr k' b) = RV9K_READY" "t_blocked_on (thr k' b) = None"
    "b \<notin> set (k_waitq k' (s_waiters s))"
    using b bk by (simp_all add: k' waitq_pop_best_def waitq_remove_def)
  moreover have "s_count s' > 0" "s'\<lparr>s_count := s_count s' - 1\<rparr> =
      s\<lparr>s_count := (if sem_room s then s_count s else s_count s - 1)\<rparr>"
    using assms(3) by (auto simp: s' sem_raise_def sem_room_def)
  ultimately show ?thesis
    using bk by (intro bexI [of _ b]) (simp_all add: block_resume_def sem_take_again_def sem_take_turn_def)
qed

definition empty_sem :: ksem where
  "empty_sem = \<lparr>s_count = 0, s_max = 0, s_waiters = 5\<rparr>"

lemma queues_ok_two_waiting: "queues_ok two_waiting"
  by (auto simp: queues_ok_def two_waiting_def kern_of_def ready_thread_def blank_def less_Suc_eq
      split: if_splits)

lemma give_hands_over_witness:
  "\<exists>b\<in>{0, 1}. t_state (thr (snd (rv9k_sem_give empty_sem two_waiting)) b) = RV9K_READY \<and>
    sem_take_again 0 True (fst (rv9k_sem_give empty_sem two_waiting)) (snd (rv9k_sem_give empty_sem two_waiting)) =
      (empty_sem, Done True)"
  using give_hands_over [OF queues_ok_two_waiting, of empty_sem _ _ 0, OF _ _ prod.collapse [symmetric]]
  by (auto simp: empty_sem_def two_waiting_def sem_room_def)

text \<open>If the woken thread is stopped before it runs, the wake is gone: the count is positive, yet
  the other waiter stays BLOCKED, without a deadline, through every turn of the host.\<close>

lemma stop_loses_wake:
  "let (s1, k1) = rv9k_sem_give empty_sem two_waiting;
       (k2, r) = rv9k_thread_stop 1 k1;
       (k3, sw) = serve_turn k2
   in r = 0 \<and> s_count s1 = 1 \<and> sw = Stays \<and> t_state (thr k3 0) = RV9K_BLOCKED \<and>
      k_waitq k3 5 = [0] \<and> \<not> t_has_deadline (thr k3 0)"
  by code_simp

section \<open>Mutual exclusion\<close>

text \<open>Free with one unit, or held with none; a host context that takes it has no name.\<close>

definition mutex_ok :: "kmutex \<Rightarrow> bool" where
  "mutex_ok m \<longleftrightarrow> s_max (m_sem m) = 1 \<and>
     (m_depth m = 0 \<and> s_count (m_sem m) = 1 \<and> m_owner m = None \<or>
      m_depth m > 0 \<and> s_count (m_sem m) = 0)"

datatype mutex_op = MLock u32 | MAgain u32 bool | MUnlock

fun mutex_step :: "kmutex \<times> kern \<Rightarrow> mutex_op \<times> nat option \<Rightarrow> kmutex \<times> kern" where
  "mutex_step (m, k) (MLock ms, c) = fst (mutex_lock_turn ms m (k\<lparr>k_current := c\<rparr>))"
| "mutex_step (m, k) (MAgain ms w, c) = fst (mutex_lock_again ms w m (k\<lparr>k_current := c\<rparr>))"
| "mutex_step (m, k) (MUnlock, c) = rv9k_mutex_unlock m (k\<lparr>k_current := c\<rparr>)"

lemma mutex_ok_init: "mutex_ok (fst (rv9k_mutex_init m k))"
  by (simp add: rv9k_mutex_init_def rv9k_sem_init_def mutex_ok_def)

lemma mutex_ok_taken:
  "mutex_ok m \<Longrightarrow> mutex_ok (fst (fst (mutex_taken m (sem_take_turn ms (m_sem m) k) k)))"
  by (auto simp: mutex_taken_def sem_take_turn_def mutex_ok_def)

lemma mutex_ok_step: "mutex_ok (fst mk) \<Longrightarrow> mutex_ok (fst (mutex_step mk e))"
proof (induction mk e rule: mutex_step.induct)
  case (1 m k ms c)
  then show ?case
    using mutex_ok_taken [of m] by (auto simp: mutex_lock_turn_def) (simp add: mutex_ok_def)
next
  case (2 m k ms w c)
  then show ?case
    using mutex_ok_taken [of m ms "k\<lparr>k_current := c\<rparr>"]
    by (cases w) (simp_all add: mutex_lock_again_def sem_take_again_def, simp add: mutex_taken_def)
next
  case (3 m k c)
  then show ?case
    by (auto simp: rv9k_mutex_unlock_def rv9k_sem_give_def sem_raise_def sem_room_def mutex_ok_def Let_def)
qed

interpretation mutex_run: step_invariant mutex_step "\<lambda>mk. mutex_ok (fst mk)"
  by unfold_locales (rule mutex_ok_step)

text \<open>From an initialised mutex, after any interleaving of locks, retries and unlocks by any
  threads, a lock attempt succeeds exactly when the mutex is free or already the caller's; it
  then makes the caller its owner one level deeper, and otherwise changes nothing.\<close>

theorem mutex_exclusion:
  assumes "foldl mutex_step (rv9k_mutex_init m0 k0) es = (m, k)"
    "mutex_lock_turn ms m k = ((m', k'), r)"
  shows "(r = Done True) = (m_depth m = 0 \<or> m_owner m \<noteq> None \<and> m_owner m = k_current k) \<and>
    (if r = Done True then m_owner m' = k_current k \<and> m_depth m' = m_depth m + 1
     else m' = m \<and> k' = k)"
proof -
  have ok: "mutex_ok m"
    using mutex_run.run_inv [of "rv9k_mutex_init m0 k0" es] assms(1) by (simp add: mutex_ok_init)
  show ?thesis
    using assms(2) ok
    by (auto simp: mutex_lock_turn_def mutex_taken_def sem_take_turn_def mutex_ok_def split: if_splits)
qed

definition some_mutex :: kmutex where
  "some_mutex = \<lparr>m_sem = empty_sem, m_owner = None, m_depth = 0\<rparr>"

lemma mutex_exclusion_witness:
  "let mk = foldl mutex_step (rv9k_mutex_init some_mutex two_threads) [(MLock 0, Some 1), (MLock 0, Some 0)]
   in snd (mutex_lock_turn 0 (fst mk) (snd mk)) \<noteq> Done True \<and>
      fst (mutex_lock_turn 0 (fst mk) (snd mk)) = mk"
proof -
  let ?mk = "foldl mutex_step (rv9k_mutex_init some_mutex two_threads) [(MLock 0, Some 1), (MLock 0, Some 0)]"
  have "m_depth (fst ?mk) = 1" "m_owner (fst ?mk) = Some 1" "k_current (snd ?mk) = Some 0"
    by code_simp+
  then show ?thesis
    using mutex_exclusion [of some_mutex two_threads "[(MLock 0, Some 1), (MLock 0, Some 0)]" "fst ?mk" "snd ?mk"
        0 "fst (fst (mutex_lock_turn 0 (fst ?mk) (snd ?mk)))" "snd (fst (mutex_lock_turn 0 (fst ?mk) (snd ?mk)))"
        "snd (mutex_lock_turn 0 (fst ?mk) (snd ?mk))"]
    by (simp add: Let_def prod_eq_iff split: if_splits)
qed

end
