(* ===== verification/RtClock.thy ===== *)
theory RtClock
  imports Prelude
begin

text \<open>
  The release clock of real-time tasks (components/rv9_kal/src/kal_rt.c): a table of at most
  five entries driven by one microsecond counter, its alarm, its interrupt, and how entries
  come and go. The counter is the environment: \<open>clk i\<close> is what its \<open>i\<close>-th reading returns.
  Times are 64-bit microsecond counts; none comes near \<open>2 ^ 64\<close>, so sums are not reduced.
\<close>

definition MAX_RT_TASKS :: nat where "MAX_RT_TASKS = 4"
definition CLOCK_SLOTS :: nat where "CLOCK_SLOTS = MAX_RT_TASKS + 1"
definition CLOCK_LEAD_US :: nat where "CLOCK_LEAD_US = 50"
definition WATCH_US :: nat where "WATCH_US = 2000"

text \<open>What an entry calls: the release of the task in a slot, or the watchdog.\<close>

datatype clock_call = Release nat | Watch

record clock_entry =
  c_active :: bool
  c_next :: nat
  c_period :: nat
  c_call :: clock_call

record rtclock =
  ck_entries :: "clock_entry list"
  ck_alarm :: "nat option"         \<comment> \<open>what the timer was last told\<close>

section \<open>Arming\<close>

fun soonest :: "clock_entry list \<Rightarrow> nat \<Rightarrow> nat" where
  "soonest [] s = s"
| "soonest (e # es) s = soonest es (if c_active e \<and> c_next e < s then c_next e else s)"

text \<open>The arming loop, with its tries left and its lead; two readings a try. The Boolean says
  the counter had not passed the alarm when it was looked at again.\<close>

fun arm :: "nat \<Rightarrow> (nat \<Rightarrow> nat) \<Rightarrow> nat \<Rightarrow> nat \<Rightarrow> nat \<Rightarrow> nat option \<Rightarrow> nat option \<times> bool" where
  "arm 0 clk i s lead al = (al, False)"
| "arm (Suc n) clk i s lead al =
     (let now = clk i; at = (if s > now + lead then s else now + lead) in
      if clk (i + 1) < at then (Some at, True)
      else arm n clk (i + 2) s (lead * 2) (Some at))"

definition clock_program_locked :: "(nat \<Rightarrow> nat) \<Rightarrow> nat \<Rightarrow> rtclock \<Rightarrow> rtclock" where
  "clock_program_locked clk i c =
     (let s = soonest (ck_entries c) UINT64_MAX in
      if s = UINT64_MAX then c\<lparr>ck_alarm := None\<rparr>
      else c\<lparr>ck_alarm := fst (arm 8 clk i s CLOCK_LEAD_US (ck_alarm c))\<rparr>)"

section \<open>The interrupt\<close>

definition is_due :: "nat \<Rightarrow> clock_entry \<Rightarrow> bool" where
  "is_due now e \<longleftrightarrow> \<not> (\<not> c_active e \<or> c_next e > now)"

definition advance :: "nat \<Rightarrow> clock_entry \<Rightarrow> clock_entry" where
  "advance now e =
     (if is_due now e
      then let behind = (now - c_next e) div c_period e
           in e\<lparr>c_next := c_next e + (behind + 1) * c_period e\<rparr>
      else e)"

text \<open>The table and the alarm after it, and the calls it makes, in slot order.\<close>

definition clock_isr :: "(nat \<Rightarrow> nat) \<Rightarrow> rtclock \<Rightarrow> rtclock \<times> clock_call list" where
  "clock_isr clk c =
     (let now = clk 0; es = ck_entries c in
      (clock_program_locked clk 1 (c\<lparr>ck_entries := map (advance now) es\<rparr>),
       map c_call (filter (is_due now) es)))"

section \<open>Entries\<close>

fun free_entry :: "clock_entry list \<Rightarrow> nat option" where
  "free_entry [] = None"
| "free_entry (e # es) = (if \<not> c_active e then Some 0 else map_option Suc (free_entry es))"

text \<open>\<open>started\<close> is what \<open>clock_start\<close> answers: whether the timer hardware is running.\<close>

definition clock_add :: "bool \<Rightarrow> (nat \<Rightarrow> nat) \<Rightarrow> nat \<Rightarrow> clock_call \<Rightarrow> rtclock \<Rightarrow> rtclock \<times> nat option" where
  "clock_add started clk period call c =
     (if period = 0 \<or> \<not> started then (c, None)
      else case free_entry (ck_entries c) of
             None \<Rightarrow> (c, None)
           | Some i \<Rightarrow>
               (clock_program_locked clk 1
                  (c\<lparr>ck_entries := (ck_entries c)
                       [i := \<lparr>c_active = True, c_next = clk 0 + period, c_period = period, c_call = call\<rparr>]\<rparr>),
                Some i))"

definition clock_remove :: "bool \<Rightarrow> (nat \<Rightarrow> nat) \<Rightarrow> nat option \<Rightarrow> rtclock \<Rightarrow> rtclock" where
  "clock_remove started clk slot c =
     (case slot of
        None \<Rightarrow> c
      | Some i \<Rightarrow>
          if i \<ge> CLOCK_SLOTS \<or> \<not> started then c
          else clock_program_locked clk 0
                 (c\<lparr>ck_entries := (ck_entries c)[i := (ck_entries c ! i)\<lparr>c_active := False\<rparr>]\<rparr>))"

section \<open>Lemmas\<close>

lemma soonest_le: "soonest es s \<le> s"
  by (induction es s rule: soonest.induct) (auto split: if_splits)

lemma soonest_all: "e \<in> set es \<Longrightarrow> c_active e \<Longrightarrow> soonest es s \<le> c_next e"
proof (induction es arbitrary: s)
  case (Cons a es)
  then show ?case using soonest_le [of es "if c_active a \<and> c_next a < s then c_next a else s"]
    by (auto split: if_splits)
qed simp

lemma soonest_mem: "soonest es s = s \<or> (\<exists>e\<in>set es. c_active e \<and> soonest es s = c_next e)"
proof (induction es arbitrary: s)
  case (Cons a es)
  from Cons [of "if c_active a \<and> c_next a < s then c_next a else s"] show ?case by auto
qed simp

lemma clock_program_entries [simp]: "ck_entries (clock_program_locked clk i c) = ck_entries c"
  by (simp add: clock_program_locked_def Let_def)

text \<open>The alarm of try \<open>j\<close>, and the try the loop ends with: the first that the counter has not overtaken, or
  the last.\<close>

lemma arm_ends:
  "0 < n \<Longrightarrow> \<exists>j<n. let at = max s (clk (i + 2 * j) + lead * 2 ^ j) in
     arm n clk i s lead al = (Some at, clk (i + 2 * j + 1) < at) \<and>
     (\<forall>m<j. max s (clk (i + 2 * m) + lead * 2 ^ m) \<le> clk (i + 2 * m + 1)) \<and>
     (clk (i + 2 * j + 1) < at \<or> j = n - 1)"
proof (induction n arbitrary: i lead al)
  case (Suc n)
  define at where "at = max s (clk i + lead)"
  have at: "(if s > clk i + lead then s else clk i + lead) = at" by (simp add: at_def)
  show ?case
  proof (cases "clk (i + 1) < at")
    case True
    then show ?thesis by (intro exI [of _ 0]) (simp add: at Let_def at_def [symmetric])
  next
    case False
    then have step: "arm (Suc n) clk i s lead al = arm n clk (i + 2) s (lead * 2) (Some at)" by (simp add: at Let_def)
    show ?thesis
    proof (cases "n = 0")
      case True
      then show ?thesis using False step by (intro exI [of _ 0]) (simp add: Let_def at_def [symmetric])
    next
      case n: False
      then obtain j where j: "j < n" "let at = max s (clk (i + 2 + 2 * j) + lead * 2 * 2 ^ j) in
          arm n clk (i + 2) s (lead * 2) (Some (max s (clk i + lead))) = (Some at, clk (i + 2 + 2 * j + 1) < at) \<and>
          (\<forall>m<j. max s (clk (i + 2 + 2 * m) + lead * 2 * 2 ^ m) \<le> clk (i + 2 + 2 * m + 1)) \<and>
          (clk (i + 2 + 2 * j + 1) < at \<or> j = n - 1)" using Suc.IH [of "i + 2" "lead * 2" "Some at"] by (auto simp: at_def)
      have "max s (clk (i + 2 * m) + lead * 2 ^ m) \<le> clk (i + 2 * m + 1)" if m: "m < Suc j" for m
      proof (cases m)
        case 0
        then show ?thesis using False by (simp add: at_def not_less)
      next
        case (Suc m')
        then show ?thesis using j(2) m by (simp add: Let_def add.assoc mult.assoc)
      qed
      then show ?thesis using j step n by (intro exI [of _ "Suc j"]) (auto simp: Let_def at_def add.assoc mult.assoc)
    qed
  qed
qed simp

lemma advance_due:
  assumes "c_period e > 0" "is_due now e"
  shows "now < c_next (advance now e)" "c_next (advance now e) \<le> now + c_period e"
    "c_next e < c_next (advance now e)" "(c_next (advance now e) - c_next e) mod c_period e = 0"
proof -
  define p where "p = c_period e"
  define b where "b = (now - c_next e) div p"
  have n: "c_next (advance now e) = c_next e + (b + 1) * p"
    using assms(2) by (simp add: advance_def b_def p_def Let_def)
  have le: "c_next e \<le> now" using assms(2) by (simp add: is_due_def)
  have "b * p + (now - c_next e) mod p = now - c_next e" by (simp add: b_def)
  moreover have "(now - c_next e) mod p < p" using assms(1) by (simp add: p_def)
  ultimately have "now - c_next e < b * p + p" "b * p \<le> now - c_next e" by linarith+
  moreover have "(b + 1) * p = b * p + p" by simp
  ultimately show "now < c_next (advance now e)" "c_next (advance now e) \<le> now + c_period e"
    "c_next e < c_next (advance now e)"
    using le assms(1) unfolding n p_def [symmetric] by linarith+
  show "(c_next (advance now e) - c_next e) mod c_period e = 0" by (simp add: n p_def [symmetric])
qed

section \<open>Properties\<close>

text \<open>C9: after the clock's interrupt every active entry whose time had come, now included, is due
  strictly after the moment it looked, moved by a whole number of its periods and to no more than one
  period after now; the entries whose time had not come, and those not active, are unchanged; and the
  calls made are exactly those of the entries whose time had come, each once, in slot order.\<close>

theorem clock_isr_advances:
  assumes "\<forall>e\<in>set (ck_entries c). c_active e \<longrightarrow> c_period e > 0" "clock_isr clk c = (c', calls)"
  shows "length (ck_entries c') = length (ck_entries c) \<and>
    calls = map c_call (filter (\<lambda>e. c_active e \<and> c_next e \<le> clk 0) (ck_entries c)) \<and>
    (\<forall>i<length (ck_entries c). let e = ck_entries c ! i; e' = ck_entries c' ! i in
       e' = e\<lparr>c_next := c_next e'\<rparr> \<and>
       (if c_active e \<and> c_next e \<le> clk 0
        then clk 0 < c_next e' \<and> c_next e' \<le> clk 0 + c_period e \<and> c_period e dvd c_next e' - c_next e
        else e' = e))"
proof -
  have es: "ck_entries c' = map (advance (clk 0)) (ck_entries c)"
    and calls: "calls = map c_call (filter (is_due (clk 0)) (ck_entries c))"
    using assms(2) by (auto simp: clock_isr_def Let_def)
  have "let e = ck_entries c ! i; e' = advance (clk 0) e in
       e' = e\<lparr>c_next := c_next e'\<rparr> \<and>
       (if is_due (clk 0) e
        then clk 0 < c_next e' \<and> c_next e' \<le> clk 0 + c_period e \<and> c_period e dvd c_next e' - c_next e
        else e' = e)" if "i < length (ck_entries c)" for i
  proof -
    have "is_due (clk 0) (ck_entries c ! i) \<Longrightarrow> c_period (ck_entries c ! i) > 0"
      using assms(1) that by (simp add: is_due_def)
    then have due: "is_due (clk 0) (ck_entries c ! i) \<Longrightarrow>
        clk 0 < c_next (advance (clk 0) (ck_entries c ! i)) \<and>
        c_next (advance (clk 0) (ck_entries c ! i)) \<le> clk 0 + c_period (ck_entries c ! i) \<and>
        c_period (ck_entries c ! i) dvd c_next (advance (clk 0) (ck_entries c ! i)) - c_next (ck_entries c ! i)"
      using advance_due [of "ck_entries c ! i" "clk 0"] by (simp add: dvd_eq_mod_eq_0)
    have same: "advance (clk 0) (ck_entries c ! i) =
        (ck_entries c ! i)\<lparr>c_next := c_next (advance (clk 0) (ck_entries c ! i))\<rparr>"
      by (simp add: advance_def Let_def)
    show ?thesis
    proof (cases "is_due (clk 0) (ck_entries c ! i)")
      case True
      with due same show ?thesis unfolding Let_def by simp
    next
      case False
      then show ?thesis by (simp add: advance_def)
    qed
  qed
  note adv = this
  have due: "is_due (clk 0) = (\<lambda>e. c_active e \<and> c_next e \<le> clk 0)" by (auto simp: is_due_def)
  show ?thesis using adv unfolding es calls due by simp
qed

definition demo_clock :: rtclock where
  "demo_clock = \<lparr>ck_entries = [\<lparr>c_active = True, c_next = 1000, c_period = 1000, c_call = Release 0\<rparr>,
      \<lparr>c_active = True, c_next = 9000, c_period = 2000, c_call = Watch\<rparr>], ck_alarm = None\<rparr>"

lemma clock_isr_advances_witness:
  "snd (clock_isr (\<lambda>i. 3500 + i) demo_clock) = [Release 0] \<and>
   3500 < c_next (ck_entries (fst (clock_isr (\<lambda>i. 3500 + i) demo_clock)) ! 0) \<and>
   c_next (ck_entries (fst (clock_isr (\<lambda>i. 3500 + i) demo_clock)) ! 0) \<le> 4500"
proof -
  have "\<forall>e\<in>set (ck_entries demo_clock). c_active e \<longrightarrow> c_period e > 0" by (simp add: demo_clock_def)
  note * = clock_isr_advances [OF this prod.collapse [symmetric], of "\<lambda>i. 3500 + i"]
  show ?thesis using * by (auto simp: Let_def demo_clock_def)
qed

text \<open>C10: the alarm is set for the soonest active entry, or a lead after a reading of the counter when
  that is later. The lead is 50 microseconds and doubles each time the counter is found to have reached
  the alarm just set; the loop ends with the first alarm that it had not, or with the eighth. So the
  alarm is left in the past only when all eight were overtaken, the last with a lead of 6400.\<close>

theorem alarm_ahead:
  assumes "a \<in> set (ck_entries c)" "c_active a" "c_next a < UINT64_MAX"
  shows "\<exists>s j at. (\<exists>e\<in>set (ck_entries c). c_active e \<and> c_next e = s) \<and> (\<forall>e\<in>set (ck_entries c). c_active e \<longrightarrow> s \<le> c_next e) \<and>
    j < 8 \<and> at = max s (clk (i + 2 * j) + 50 * 2 ^ j) \<and> ck_alarm (clock_program_locked clk i c) = Some at \<and>
    (\<forall>m<j. max s (clk (i + 2 * m) + 50 * 2 ^ m) \<le> clk (i + 2 * m + 1)) \<and>
    (clk (i + 2 * j + 1) < at \<or> j = 7)"
proof -
  let ?s = "soonest (ck_entries c) UINT64_MAX"
  have lt: "?s < UINT64_MAX" using soonest_all [OF assms(1,2), of UINT64_MAX] assms(3) by simp
  then have mem: "\<exists>e\<in>set (ck_entries c). c_active e \<and> c_next e = ?s" using soonest_mem [of "ck_entries c" UINT64_MAX] by fastforce
  have least: "\<forall>e\<in>set (ck_entries c). c_active e \<longrightarrow> ?s \<le> c_next e" using soonest_all by blast
  obtain j where j: "j < 8" "let at = max ?s (clk (i + 2 * j) + CLOCK_LEAD_US * 2 ^ j) in
     arm 8 clk i ?s CLOCK_LEAD_US (ck_alarm c) = (Some at, clk (i + 2 * j + 1) < at) \<and>
     (\<forall>m<j. max ?s (clk (i + 2 * m) + CLOCK_LEAD_US * 2 ^ m) \<le> clk (i + 2 * m + 1)) \<and>
     (clk (i + 2 * j + 1) < at \<or> j = 8 - 1)"
    using arm_ends [of 8 ?s clk i CLOCK_LEAD_US "ck_alarm c"] by auto
  have "ck_alarm (clock_program_locked clk i c) = Some (max ?s (clk (i + 2 * j) + 50 * 2 ^ j))"
    using lt j(2) by (simp add: clock_program_locked_def CLOCK_LEAD_US_def Let_def del: arm.simps)
  then show ?thesis using mem least j
    by - (rule exI [of _ ?s], rule exI [of _ j], rule exI [of _ "max ?s (clk (i + 2 * j) + 50 * 2 ^ j)"], simp add: CLOCK_LEAD_US_def Let_def)
qed

text \<open>An entry long past, and a counter that moves on 60 microseconds between two readings: the second try
  is ahead of it.\<close>

lemma alarm_ahead_witness:
  "\<exists>j at. j < 8 \<and> at = max 1000 (3500 + 60 * (2 * j) + 50 * 2 ^ j) \<and>
     ck_alarm (clock_program_locked (\<lambda>i. 3500 + 60 * i) 0 demo_clock) = Some at \<and> (3500 + 60 * (2 * j + 1) < at \<or> j = 7)"
proof -
  let ?e = "\<lparr>c_active = True, c_next = 1000, c_period = 1000, c_call = Release 0\<rparr>"
  have e: "?e \<in> set (ck_entries demo_clock)" "c_active ?e" "c_next ?e < UINT64_MAX" by (simp_all add: demo_clock_def)
  obtain s j at where "\<exists>e\<in>set (ck_entries demo_clock). c_active e \<and> c_next e = s" "\<forall>e\<in>set (ck_entries demo_clock). c_active e \<longrightarrow> s \<le> c_next e"
    and r: "j < 8" "at = max s (3500 + 60 * (0 + 2 * j) + 50 * 2 ^ j)" "ck_alarm (clock_program_locked (\<lambda>i. 3500 + 60 * i) 0 demo_clock) = Some at"
      "3500 + 60 * (0 + 2 * j + 1) < at \<or> j = 7"
    using alarm_ahead [OF e, of "\<lambda>i. 3500 + 60 * i" 0] by blast
  then have "s = 1000" by (auto simp: demo_clock_def)
  then show ?thesis using r by auto
qed

end
