(* ===== verification/RtTask.thy ===== *)
theory RtTask
  imports RtClock
begin

text \<open>
  Real-time tasks and the events that release them (components/rv9_kal/src/kal_rt.c). The
  host's semaphores and scheduler are the environment: a wait is modelled up to the point
  where it sleeps (\<open>rt_wait_enter\<close>) and from where it wakes (\<open>rt_wait_periodic\<close>,
  \<open>rt_event_turn\<close>), with the clock readings it makes as arguments. A task handle is a
  number, 0 the NULL handle. 64-bit counters and times do not wrap here.
\<close>

definition MAX_EVENTS :: nat where "MAX_EVENTS = 8"
definition RV9_RT_DEADLINE :: int where "RV9_RT_DEADLINE = - 2"
definition RV9_RT_STOPPED :: int where "RV9_RT_STOPPED = - 3"
definition RV9_RT_RUNAWAY :: int where "RV9_RT_RUNAWAY = - 4"
definition RV9_RT_RUNAWAY_MS :: nat where "RV9_RT_RUNAWAY_MS = 250"

section \<open>Events\<close>

record event_impl =
  e_at_us :: nat
  e_pending :: nat
  e_last_us :: nat
  e_in_use :: bool

definition no_event :: event_impl where
  "no_event = \<lparr>e_at_us = 0, e_pending = 0, e_last_us = 0, e_in_use = False\<rparr>"

text \<open>\<open>sem_made\<close>: the host gave the semaphore. The event is its index in the pool.\<close>

definition rv9_event_create :: "bool \<Rightarrow> event_impl list \<Rightarrow> event_impl list \<times> (rv9_err \<times> nat option)" where
  "rv9_event_create sem_made es =
     (case find_index (\<lambda>e. \<not> e_in_use e) es of
        None \<Rightarrow> (es, RV9_ERR_NOMEM, None)
      | Some i \<Rightarrow>
          if \<not> sem_made then (es[i := no_event], RV9_ERR_NOMEM, None)
          else (es[i := no_event\<lparr>e_in_use := True\<rparr>], RV9_OK, Some i))"

definition rv9_event_destroy :: "nat \<Rightarrow> event_impl list \<Rightarrow> event_impl list" where
  "rv9_event_destroy i es =
     (if \<not> e_in_use (es ! i) then es else es[i := (es ! i)\<lparr>e_in_use := False\<rparr>])"

definition rv9_event_id :: "nat \<Rightarrow> event_impl list \<Rightarrow> int" where
  "rv9_event_id i es = (if \<not> e_in_use (es ! i) then 0 else int i + 1)"

definition rv9_event_by_id :: "int \<Rightarrow> event_impl list \<Rightarrow> nat option" where
  "rv9_event_by_id eid es =
     (if eid < 1 \<or> eid > int MAX_EVENTS then None
      else let i = nat (eid - 1) in if e_in_use (es ! i) then Some i else None)"

text \<open>\<open>rv9_event_signal\<close> and \<open>rv9_event_signal_from_isr\<close>, whose semaphore give follows.
  \<open>pending\<close> is 32 bits.\<close>

definition event_signal :: "nat \<Rightarrow> event_impl \<Rightarrow> event_impl" where
  "event_signal now e =
     (let e1 = (if e_pending e = 0 then e\<lparr>e_at_us := now\<rparr> else e)
      in e1\<lparr>e_pending := cast32 (e_pending e + 1)\<rparr>)"

section \<open>The task record\<close>

record rt_task =
  r_task :: nat
  r_clock_slot :: "nat option"
  r_period :: nat
  r_event :: "nat option"
  r_activations :: nat
  r_overruns :: nat
  r_max_jitter :: nat
  r_max_exec :: nat
  r_last_exec :: nat
  r_min_interval :: nat
  r_floods :: nat
  r_flood_reported :: bool
  r_released_at :: nat
  r_due :: nat
  r_late :: nat
  r_deadline :: nat
  r_fault_on_miss :: bool
  r_misses :: nat
  r_max_response :: nat
  r_last_response :: nat
  r_stop :: bool
  r_active :: bool
  r_samples :: nat
  r_flagged :: int
  r_first_isr :: nat
  r_worst_stall :: nat
  r_stall_isr_late :: nat
  r_stall_sched_late :: nat
  r_urgent :: bool
  r_bound :: nat
  r_in_use :: bool

definition zero_task :: rt_task where
  "zero_task = \<lparr>r_task = 0, r_clock_slot = Some 0, r_period = 0, r_event = None, r_activations = 0,
     r_overruns = 0, r_max_jitter = 0, r_max_exec = 0, r_last_exec = 0, r_min_interval = 0,
     r_floods = 0, r_flood_reported = False, r_released_at = 0, r_due = 0, r_late = 0,
     r_deadline = 0, r_fault_on_miss = False, r_misses = 0, r_max_response = 0,
     r_last_response = 0, r_stop = False, r_active = False, r_samples = 0, r_flagged = 0,
     r_first_isr = 0, r_worst_stall = 0, r_stall_isr_late = 0, r_stall_sched_late = 0,
     r_urgent = False, r_bound = 0, r_in_use = False\<rparr>"

record rtsys =
  y_rt :: "rt_task list"
  y_events :: "event_impl list"
  y_clock :: rtclock
  y_watch_slot :: "nat option"
  y_watch_running :: bool

definition slot_for :: "nat \<Rightarrow> rtsys \<Rightarrow> nat option" where
  "slot_for h y = find_index (\<lambda>r. r_in_use r \<and> r_task r = h) (y_rt y)"

definition rt_upd :: "nat \<Rightarrow> (rt_task \<Rightarrow> rt_task) \<Rightarrow> rtsys \<Rightarrow> rtsys" where
  "rt_upd i f y = y\<lparr>y_rt := (y_rt y)[i := f (y_rt y ! i)]\<rparr>"

section \<open>Waiting: what is settled before the task sleeps\<close>

definition rt_charge :: "nat \<Rightarrow> rt_task \<Rightarrow> rt_task" where
  "rt_charge now r =
     (let exec = cast32 (sub64 now (r_released_at r));
          r1 = r\<lparr>r_active := False, r_last_exec := exec\<rparr>
      in if exec > r_max_exec r then r1\<lparr>r_max_exec := exec\<rparr> else r1)"

definition rt_answer :: "rt_task \<Rightarrow> rt_task" where
  "rt_answer r =
     (let response = sat32 (r_last_exec r + r_late r);
          r1 = r\<lparr>r_last_response := response\<rparr>;
          r2 = (if response > r_max_response r then r1\<lparr>r_max_response := response\<rparr> else r1)
      in if r_deadline r \<noteq> 0 \<and> response > r_deadline r then r2\<lparr>r_misses := r_misses r + 1\<rparr> else r2)"

definition missed_it :: "rt_task \<Rightarrow> bool" where
  "missed_it r \<longleftrightarrow> r_deadline r \<noteq> 0 \<and> r_last_response r > r_deadline r"

text \<open>None: it goes on to wait.\<close>

definition rt_wait_enter :: "nat \<Rightarrow> rt_task \<Rightarrow> rt_task \<times> int option" where
  "rt_wait_enter now r =
     (let r1 = rt_charge now r in
      if r_stop r1 then (r1, Some RV9_RT_STOPPED)
      else
        let r2 = (if r_activations r1 > 0 then rt_answer r1 else r1) in
        if r_activations r1 > 0 \<and> missed_it r2 \<and> r_fault_on_miss r2 then (r2, Some RV9_RT_DEADLINE)
        else if r_flagged r2 \<noteq> 0 then (r2, Some (r_flagged r2))
        else (r2, None))"

section \<open>Waking: a periodic release\<close>

definition rt_stall :: "nat \<Rightarrow> nat \<Rightarrow> rt_task \<Rightarrow> rt_task" where
  "rt_stall woken missed r =
     (let first_isr = r_first_isr r; r1 = r\<lparr>r_first_isr := 0\<rparr> in
      if missed > 0 \<and> first_isr \<noteq> 0 \<and> first_isr \<le> woken \<and> missed \<ge> r_worst_stall r
      then r1\<lparr>r_worst_stall := missed,
              r_stall_isr_late := sat32 (clamp_sub first_isr (r_due r)),
              r_stall_sched_late := cast32 (woken - first_isr)\<rparr>
      else r1)"

definition rt_wait_periodic :: "nat \<Rightarrow> rt_task \<Rightarrow> rt_task \<times> int" where
  "rt_wait_periodic woken r =
     (if r_stop r then (r, RV9_RT_STOPPED)
      else
        let over = clamp_sub woken (r_due r);
            jitter = sat32 over;
            r1 = (if jitter > r_max_jitter r then r\<lparr>r_max_jitter := jitter\<rparr> else r);
            missed = jitter div r_period r;
            first = (r_activations r = 0);
            r2 = (rt_stall woken missed r1)
                   \<lparr>r_late := jitter - missed * r_period r,
                    r_due := r_due r + cast32 (missed + 1) * r_period r,
                    r_released_at := woken,
                    r_activations := r_activations r + 1,
                    r_overruns := r_overruns r + missed\<rparr>;
            r3 = (if missed > 0 \<and> \<not> first \<and> r_deadline r \<noteq> 0
                  then r2\<lparr>r_misses := r_misses r + missed\<rparr> else r2)
        in if missed > 0 \<and> \<not> first \<and> r_deadline r \<noteq> 0 \<and> r_fault_on_miss r then (r3, RV9_RT_DEADLINE)
           else (r3\<lparr>r_samples := 0, r_active := True\<rparr>, int32 missed))"

section \<open>Waking: an event\<close>

definition rt_gap :: "nat \<Rightarrow> nat \<Rightarrow> rt_task \<Rightarrow> rt_task" where
  "rt_gap prev at r =
     (if prev \<noteq> 0 \<and> at > prev
      then let g = sat32 (at - prev);
               r1 = (if g < r_min_interval r then r\<lparr>r_min_interval := g\<rparr> else r)
           in if r_period r \<noteq> 0 \<and> g < r_period r
              then r1\<lparr>r_floods := r_floods r + 1, r_flood_reported := True\<rparr> else r1
      else r)"

text \<open>One turn of the loop, the semaphore taken; None: nothing was signalled, wait again.\<close>

definition rt_event_turn :: "nat \<Rightarrow> rt_task \<Rightarrow> event_impl \<Rightarrow> rt_task \<times> event_impl \<times> int option" where
  "rt_event_turn woken r e =
     (if r_stop r then (r, e, Some RV9_RT_STOPPED)
      else if e_pending e = 0 then (r, e, None)
      else
        let at = e_at_us e;
            latency = (if woken > at then cast32 (woken - at) else 0);
            r1 = (if latency > r_max_jitter r then r\<lparr>r_max_jitter := latency\<rparr> else r);
            r2 = rt_gap (e_last_us e) at (r1\<lparr>r_late := latency\<rparr>);
            coalesced = (if e_pending e > 1 then e_pending e - 1 else 0)
        in (r2\<lparr>r_released_at := woken, r_activations := r_activations r + 1,
               r_overruns := r_overruns r + coalesced, r_samples := 0, r_active := True\<rparr>,
            e\<lparr>e_last_us := at, e_pending := 0\<rparr>, Some (int32 coalesced)))"

section \<open>The watchdog\<close>

definition watch_sees :: "rt_task \<Rightarrow> bool" where
  "watch_sees r \<longleftrightarrow> r_in_use r \<and> r_active r \<and> r_flagged r = 0"

definition watch_one :: "nat \<Rightarrow> nat \<Rightarrow> rt_task \<Rightarrow> rt_task" where
  "watch_one cur now r =
     (if \<not> watch_sees r then r
      else
        let r1 = (if r_task r = cur then r\<lparr>r_samples := r_samples r + 1\<rparr> else r);
            ran = clamp_sub now (r_released_at r)
        in if r_fault_on_miss r \<and> r_deadline r \<noteq> 0 \<and> r_activations r > 0 \<and> ran + r_late r > r_deadline r
           then r1\<lparr>r_flagged := RV9_RT_DEADLINE\<rparr>
           else if ran > RV9_RT_RUNAWAY_MS * 1000 \<and> r_samples r1 * WATCH_US * 2 \<ge> ran
           then r1\<lparr>r_flagged := RV9_RT_RUNAWAY\<rparr>
           else r1)"

text \<open>The table afterwards, and whether the watchdog's task is woken.\<close>

definition watch_fire :: "nat \<Rightarrow> nat \<Rightarrow> rt_task list \<Rightarrow> rt_task list \<times> bool" where
  "watch_fire cur now rs =
     (map (watch_one cur now) rs,
      list_ex (\<lambda>r. watch_sees r \<and> r_flagged (watch_one cur now r) \<noteq> 0) rs)"

text \<open>One pass of \<open>watch_task\<close>: whom it hands over and why, and whether to ask again.\<close>

definition watch_pass :: "(nat \<Rightarrow> int \<Rightarrow> bool) option \<Rightarrow> rt_task list \<Rightarrow> (nat \<times> int) list \<times> bool" where
  "watch_pass overrun rs =
     (let fs = filter (\<lambda>r. r_in_use r \<and> r_flagged r \<noteq> 0 \<and> r_task r \<noteq> 0) rs in
      case overrun of
        None \<Rightarrow> ([], False)
      | Some h \<Rightarrow> (map (\<lambda>r. (r_task r, r_flagged r)) fs,
                  list_ex (\<lambda>r. \<not> h (r_task r) (r_flagged r)) fs))"

text \<open>\<open>release_fire\<close>: the first release since the task last woke is stamped.\<close>

definition release_fire :: "nat \<Rightarrow> rt_task \<Rightarrow> rt_task" where
  "release_fire now r = (if r_first_isr r = 0 then r\<lparr>r_first_isr := now\<rparr> else r)"


section \<open>Slots\<close>

text \<open>The watchdog's entry of the release clock is there while some slot is claimed.\<close>

definition watch_arm :: "bool \<Rightarrow> (nat \<Rightarrow> nat) \<Rightarrow> rtsys \<Rightarrow> rtsys" where
  "watch_arm started clk y =
     (if y_watch_running y then y
      else let (c, slot) = clock_add started clk WATCH_US Watch (y_clock y)
           in y\<lparr>y_clock := c, y_watch_slot := slot, y_watch_running := (slot \<noteq> None)\<rparr>)"

definition watch_disarm_if_idle :: "bool \<Rightarrow> (nat \<Rightarrow> nat) \<Rightarrow> rtsys \<Rightarrow> rtsys" where
  "watch_disarm_if_idle started clk y =
     (if list_all (\<lambda>r. r_task r = 0) (y_rt y) \<and> y_watch_running y
      then y\<lparr>y_clock := clock_remove started clk (y_watch_slot y) (y_clock y),
             y_watch_slot := None, y_watch_running := False\<rparr>
      else y)"

definition claim_slot :: "bool \<Rightarrow> (nat \<Rightarrow> nat) \<Rightarrow> nat \<Rightarrow> rtsys \<Rightarrow> rtsys \<times> nat option" where
  "claim_slot started clk self y =
     (if slot_for self y \<noteq> None then (y, None)
      else case find_index (\<lambda>r. \<not> r_in_use r) (y_rt y) of
             None \<Rightarrow> (y, None)
           | Some i \<Rightarrow>
               (watch_arm started clk
                  (rt_upd i (\<lambda>_. zero_task\<lparr>r_task := self, r_min_interval := UINT32_MAX\<rparr>) y), Some i))"

definition rv9_rt_declare_event ::
  "bool \<Rightarrow> (nat \<Rightarrow> nat) \<Rightarrow> nat \<Rightarrow> nat \<Rightarrow> nat \<Rightarrow> nat \<Rightarrow> rtsys \<Rightarrow> rtsys \<times> rv9_err" where
  "rv9_rt_declare_event started clk self now ev min_interval y =
     (if \<not> e_in_use (y_events y ! ev) then (y, RV9_ERR_INVAL)
      else case claim_slot started clk self y of
             (y1, None) \<Rightarrow> (y1, RV9_ERR_NOMEM)
           | (y1, Some i) \<Rightarrow>
               (rt_upd i (\<lambda>r. r\<lparr>r_event := Some ev, r_period := min_interval, r_released_at := now,
                              r_in_use := True, r_active := True\<rparr>) y1, RV9_OK))"

text \<open>\<open>clk\<close> is read for the watchdog's entry, \<open>clk'\<close> for the task's own; \<open>sem_made\<close> as above.\<close>

definition rv9_rt_declare ::
  "bool \<Rightarrow> (nat \<Rightarrow> nat) \<Rightarrow> (nat \<Rightarrow> nat) \<Rightarrow> bool \<Rightarrow> nat \<Rightarrow> nat \<Rightarrow> nat \<Rightarrow> rtsys \<Rightarrow> rtsys \<times> rv9_err" where
  "rv9_rt_declare started clk clk' sem_made self t0 period y =
     (if period = 0 then (y, RV9_ERR_INVAL)
      else case claim_slot started clk self y of
             (y1, None) \<Rightarrow> (y1, RV9_ERR_NOMEM)
           | (y1, Some i) \<Rightarrow>
               let y2 = rt_upd i (\<lambda>r. r\<lparr>r_period := period\<rparr>) y1 in
               if \<not> sem_made then (y2, RV9_ERR_NOMEM)
               else
                 let y3 = rt_upd i (\<lambda>r. r\<lparr>r_clock_slot := None, r_in_use := True\<rparr>) y2;
                     (c, slot) = clock_add started clk' period (Release i) (y_clock y3);
                     y4 = rt_upd i (\<lambda>r. r\<lparr>r_clock_slot := slot\<rparr>) (y3\<lparr>y_clock := c\<rparr>)
                 in if slot = None then (rt_upd i (\<lambda>r. r\<lparr>r_in_use := False\<rparr>) y4, RV9_ERR_NOMEM)
                    else (rt_upd i (\<lambda>r. r\<lparr>r_released_at := t0, r_due := t0 + period, r_active := True\<rparr>) y4,
                          RV9_OK))"

definition release_slot :: "bool \<Rightarrow> (nat \<Rightarrow> nat) \<Rightarrow> nat \<Rightarrow> rtsys \<Rightarrow> rtsys" where
  "release_slot started clk i y =
     (let y1 = rt_upd i (\<lambda>r. r\<lparr>r_active := False\<rparr>) y;
          r = y_rt y1 ! i;
          y2 = (if r_event r = None
                then rt_upd i (\<lambda>r. r\<lparr>r_clock_slot := None\<rparr>)
                       (y1\<lparr>y_clock := clock_remove started clk (r_clock_slot r) (y_clock y1)\<rparr>)
                else y1)
      in watch_disarm_if_idle started (\<lambda>n. clk (n + 16))
           (rt_upd i (\<lambda>r. r\<lparr>r_in_use := False, r_task := 0, r_event := None\<rparr>) y2))"

definition rv9_rt_release :: "bool \<Rightarrow> (nat \<Rightarrow> nat) \<Rightarrow> nat \<Rightarrow> rtsys \<Rightarrow> rtsys" where
  "rv9_rt_release started clk self y =
     (case slot_for self y of None \<Rightarrow> y | Some i \<Rightarrow> release_slot started clk i y)"

definition rv9_rt_release_task :: "bool \<Rightarrow> (nat \<Rightarrow> nat) \<Rightarrow> nat \<Rightarrow> rtsys \<Rightarrow> rtsys" where
  "rv9_rt_release_task started clk task y =
     (if task = 0 then y else rv9_rt_release started clk task y)"

definition rv9_rt_deadline :: "nat \<Rightarrow> nat \<Rightarrow> bool \<Rightarrow> rtsys \<Rightarrow> rtsys \<times> rv9_err" where
  "rv9_rt_deadline self deadline fault y =
     (case slot_for self y of
        None \<Rightarrow> (y, RV9_ERR_INVAL)
      | Some i \<Rightarrow> (rt_upd i (\<lambda>r. r\<lparr>r_deadline := deadline, r_fault_on_miss := (fault \<and> deadline \<noteq> 0)\<rparr>) y, RV9_OK))"

definition rv9_rt_stop :: "nat \<Rightarrow> rtsys \<Rightarrow> rtsys \<times> rv9_err" where
  "rv9_rt_stop task y =
     (if task = 0 then (y, RV9_ERR_INVAL)
      else case slot_for task y of
             None \<Rightarrow> (y, RV9_ERR_INVAL)
           | Some i \<Rightarrow> (rt_upd i (\<lambda>r. r\<lparr>r_stop := True\<rparr>) y, RV9_OK))"

text \<open>What the host is told to do with the task.\<close>

datatype host_act = Suspend nat | Lower nat | SetPrio nat bool

text \<open>\<open>pc\<close> is the program counter saved for the task; code at \<open>code\<close> (0: none), \<open>len\<close> bytes.\<close>

definition rv9_rt_seize ::
  "nat \<Rightarrow> nat \<Rightarrow> nat \<Rightarrow> nat \<Rightarrow> nat \<Rightarrow> bool \<Rightarrow> rtsys \<Rightarrow> rtsys \<times> host_act list \<times> rv9_err" where
  "rv9_rt_seize self task pc code len lower y =
     (if task = 0 \<or> task = self then (y, [], RV9_ERR_INVAL)
      else case slot_for task y of
             None \<Rightarrow> (y, [], RV9_ERR_INVAL)
           | Some i \<Rightarrow>
               if code \<noteq> 0 \<and> pc \<ge> code \<and> pc < code + len
               then (rt_upd i (\<lambda>r. r\<lparr>r_active := False\<rparr>) y, [Suspend task], RV9_OK)
               else (y, if lower then [Lower task] else [], RV9_ERR_BUSY))"

definition rv9_rt_set_class :: "nat \<Rightarrow> bool \<Rightarrow> nat \<Rightarrow> rtsys \<Rightarrow> rtsys \<times> host_act list" where
  "rv9_rt_set_class task urgent bound y =
     (if task = 0 then (y, [])
      else case slot_for task y of
             None \<Rightarrow> (y, [SetPrio task urgent])
           | Some i \<Rightarrow>
               (rt_upd i (\<lambda>r. r\<lparr>r_urgent := urgent, r_bound := bound\<rparr>) y,
                if r_flagged (y_rt y ! i) \<noteq> 0 then [] else [SetPrio task urgent]))"

text \<open>The priorities the KAL gives real-time work, for a host of \<open>maxprio\<close> priorities.\<close>

definition rt_prio :: "nat \<Rightarrow> bool \<Rightarrow> nat" where
  "rt_prio maxprio urgent = (if urgent then maxprio - 1 else maxprio - 4)"

definition rv9_rt_in_realtime :: "nat \<Rightarrow> nat \<Rightarrow> bool" where
  "rv9_rt_in_realtime maxprio prio \<longleftrightarrow> prio = rt_prio maxprio True \<or> prio = rt_prio maxprio False"

section \<open>What is reported\<close>

record rt_stats =
  rs_period :: nat
  rs_activations :: nat
  rs_overruns :: nat
  rs_max_jitter :: nat
  rs_max_exec :: nat
  rs_last_exec :: nat
  rs_event_driven :: bool
  rs_floods :: nat
  rs_min_interval :: nat
  rs_deadline :: nat
  rs_misses :: nat
  rs_max_response :: nat
  rs_last_response :: nat
  rs_urgent :: bool
  rs_bound :: nat
  rs_stall_isr_late :: nat
  rs_stall_sched_late :: nat

definition fill_stats :: "rt_task \<Rightarrow> rt_stats" where
  "fill_stats r = \<lparr>rs_period = r_period r, rs_activations = r_activations r, rs_overruns = r_overruns r,
     rs_max_jitter = r_max_jitter r, rs_max_exec = r_max_exec r, rs_last_exec = r_last_exec r,
     rs_event_driven = (r_event r \<noteq> None), rs_floods = r_floods r,
     rs_min_interval = (if r_min_interval r = UINT32_MAX then 0 else r_min_interval r),
     rs_deadline = r_deadline r, rs_misses = r_misses r, rs_max_response = r_max_response r,
     rs_last_response = r_last_response r, rs_urgent = r_urgent r, rs_bound = r_bound r,
     rs_stall_isr_late = r_stall_isr_late r, rs_stall_sched_late = r_stall_sched_late r\<rparr>"

definition rv9_rt_stats_for :: "nat \<Rightarrow> rtsys \<Rightarrow> rt_stats option" where
  "rv9_rt_stats_for task y =
     (if task = 0 then None else map_option (\<lambda>i. fill_stats (y_rt y ! i)) (slot_for task y))"

definition rv9_rt_slots_used :: "rtsys \<Rightarrow> nat" where
  "rv9_rt_slots_used y = length (filter r_in_use (y_rt y))"

text \<open>Inl: refused. Otherwise whether the slot is in use, with its figures if it is.\<close>

definition rv9_rt_stats_by_index :: "int \<Rightarrow> rtsys \<Rightarrow> rv9_err + rt_stats option" where
  "rv9_rt_stats_by_index index y =
     (if index < 0 \<or> index \<ge> int MAX_RT_TASKS then Inl RV9_ERR_INVAL
      else let r = y_rt y ! nat index in
           if \<not> r_in_use r then Inr None else Inr (Some (fill_stats r)))"

section \<open>Interrupts held off, and the heartbeat\<close>

record rtguard =
  g_tick_last :: nat
  g_irqoff_seen :: nat
  g_irqoff_gap :: nat
  g_irqoff_at :: nat
  g_ticks :: nat
  g_beat :: nat
  g_beat_seen :: nat
  g_stale :: nat
  g_wakes :: nat

definition irqoff_tick :: "nat \<Rightarrow> rtguard \<Rightarrow> rtguard" where
  "irqoff_tick now g =
     (let last = g_tick_last g; g1 = g\<lparr>g_tick_last := now\<rparr> in
      if last = 0 \<or> sub64 now last < 5000 then g1
      else g1\<lparr>g_irqoff_gap := sat32 (sub64 now last), g_irqoff_at := now,
              g_irqoff_seen := cast32 (g_irqoff_seen g + 1)\<rparr>)"

definition guard_beat :: "rtguard \<Rightarrow> rtguard" where
  "guard_beat g = g\<lparr>g_beat := cast32 (g_beat g + 1)\<rparr>"

text \<open>One tick; the Boolean says esp_timer's task is woken.\<close>

definition guard_tick :: "nat \<Rightarrow> rtguard \<Rightarrow> rtguard \<times> bool" where
  "guard_tick now g =
     (let g1 = irqoff_tick now g; g2 = g1\<lparr>g_ticks := cast32 (g_ticks g1 + 1)\<rparr> in
      if g_ticks g2 < 100 then (g2, False)
      else
        let g3 = g2\<lparr>g_ticks := 0\<rparr> in
        if g_beat g3 \<noteq> g_beat_seen g3 then (g3\<lparr>g_beat_seen := g_beat g3, g_stale := 0\<rparr>, False)
        else
          let g4 = g3\<lparr>g_stale := cast32 (g_stale g3 + 1)\<rparr> in
          if g_stale g4 < 3 then (g4, False)
          else (g4\<lparr>g_stale := 0, g_wakes := cast32 (g_wakes g4 + 1)\<rparr>, True))"

end
