(* ===== verification/RtProps.thy ===== *)
theory RtProps
  imports RtTask
begin

text \<open>
  What the measurements of a real-time task mean: the schedule accounts for every period,
  lateness is against the schedule, a late answer is never unreported, every signal of an
  event is counted, and the watchdog flags exactly what it should.
\<close>

section \<open>The schedule\<close>

definition on_schedule :: "nat \<Rightarrow> nat \<Rightarrow> rt_task \<Rightarrow> bool" where
  "on_schedule t0 p r \<longleftrightarrow> r_period r = p \<and> r_due r = t0 + (r_activations r + r_overruns r + 1) * p"

lemma rt_charge_frame [simp]:
  "r_period (rt_charge now r) = r_period r" "r_due (rt_charge now r) = r_due r"
  "r_activations (rt_charge now r) = r_activations r" "r_overruns (rt_charge now r) = r_overruns r"
  "r_stop (rt_charge now r) = r_stop r" "r_deadline (rt_charge now r) = r_deadline r"
  "r_fault_on_miss (rt_charge now r) = r_fault_on_miss r" "r_late (rt_charge now r) = r_late r"
  "r_misses (rt_charge now r) = r_misses r" "r_flagged (rt_charge now r) = r_flagged r"
  "r_last_exec (rt_charge now r) = cast32 (sub64 now (r_released_at r))"
  "r_max_exec (rt_charge now r) = max (r_max_exec r) (cast32 (sub64 now (r_released_at r)))"
  "r_active (rt_charge now r) = False" "r_max_response (rt_charge now r) = r_max_response r"
  by (simp_all add: rt_charge_def Let_def)

lemma rt_answer_frame [simp]:
  "r_period (rt_answer r) = r_period r" "r_due (rt_answer r) = r_due r"
  "r_activations (rt_answer r) = r_activations r" "r_overruns (rt_answer r) = r_overruns r"
  "r_stop (rt_answer r) = r_stop r" "r_deadline (rt_answer r) = r_deadline r"
  "r_fault_on_miss (rt_answer r) = r_fault_on_miss r" "r_flagged (rt_answer r) = r_flagged r"
  "r_last_response (rt_answer r) = sat32 (r_last_exec r + r_late r)" "r_active (rt_answer r) = r_active r"
  by (simp_all add: rt_answer_def Let_def)

lemma rt_stall_frame [simp]:
  "r_period (rt_stall w m r) = r_period r" "r_due (rt_stall w m r) = r_due r"
  "r_activations (rt_stall w m r) = r_activations r" "r_overruns (rt_stall w m r) = r_overruns r"
  "r_misses (rt_stall w m r) = r_misses r"
  by (simp_all add: rt_stall_def Let_def)

lemma rt_wait_enter_frame:
  "rt_wait_enter now r = (r', c) \<Longrightarrow> r_period r' = r_period r \<and> r_due r' = r_due r \<and>
     r_activations r' = r_activations r \<and> r_overruns r' = r_overruns r \<and> r_stop r' = r_stop r"
  by (auto simp: rt_wait_enter_def Let_def split: if_splits)

text \<open>The whole periods gone by, and the schedule advanced past the wakeup.\<close>

lemma rt_wait_periodic_frame:
  assumes "rt_wait_periodic woken r = (r', c)" "\<not> r_stop r" "0 < r_period r"
    "woken < r_due r + UINT32_MAX"
  defines "m \<equiv> (woken - r_due r) div r_period r"
  shows "r_period r' = r_period r" "r_due r' = r_due r + (m + 1) * r_period r"
    "r_activations r' = r_activations r + 1" "r_overruns r' = r_overruns r + m"
    "r_late r' = (woken - r_due r) - m * r_period r"
    "c \<noteq> RV9_RT_DEADLINE \<Longrightarrow> r_released_at r' = woken"
    "c = (if m > 0 \<and> 0 < r_activations r \<and> r_deadline r \<noteq> 0 \<and> r_fault_on_miss r
          then RV9_RT_DEADLINE else int32 m)"
    "r_misses r' = (if m > 0 \<and> 0 < r_activations r \<and> r_deadline r \<noteq> 0 then r_misses r + m else r_misses r)"
proof -
  have j: "sat32 (woken - r_due r) = woken - r_due r" using assms(4) by simp
  have "m \<le> woken - r_due r" by (simp add: m_def)
  then have "m + 1 < W32" using assms(4) by linarith
  then have m: "cast32 (m + 1) = m + 1" by simp
  note u = assms(1) [unfolded rt_wait_periodic_def Let_def clamp_sub_eq j m_def [symmetric] m]
  show "r_period r' = r_period r" "r_due r' = r_due r + (m + 1) * r_period r"
    "r_activations r' = r_activations r + 1" "r_overruns r' = r_overruns r + m"
    "r_late r' = (woken - r_due r) - m * r_period r"
    "c \<noteq> RV9_RT_DEADLINE \<Longrightarrow> r_released_at r' = woken"
    "c = (if m > 0 \<and> 0 < r_activations r \<and> r_deadline r \<noteq> 0 \<and> r_fault_on_miss r
          then RV9_RT_DEADLINE else int32 m)"
    "r_misses r' = (if m > 0 \<and> 0 < r_activations r \<and> r_deadline r \<noteq> 0 then r_misses r + m else r_misses r)"
    using u assms(2) by (auto split: if_splits)
qed

text \<open>One pass through \<open>rv9_rt_wait\<close>: entered at \<open>now\<close>, woken (if it waits) at \<open>woken\<close>, at most
  71 minutes after the release was due.\<close>

definition rt_cycle :: "rt_task \<Rightarrow> nat \<times> nat \<Rightarrow> rt_task" where
  "rt_cycle r nw =
     (if snd nw < r_due r + UINT32_MAX
      then case rt_wait_enter (fst nw) r of
             (r', Some c) \<Rightarrow> r'
           | (r', None) \<Rightarrow> fst (rt_wait_periodic (snd nw) r')
      else r)"

lemma on_schedule_cycle:
  assumes "0 < p" "on_schedule t0 p r"
  shows "on_schedule t0 p (rt_cycle r nw)"
proof (cases "snd nw < r_due r + UINT32_MAX")
  case True
  obtain r' c where e: "rt_wait_enter (fst nw) r = (r', c)" by force
  note f = rt_wait_enter_frame [OF e]
  show ?thesis
  proof (cases "c = None \<and> \<not> r_stop r'")
    case True
    obtain r'' d where w: "rt_wait_periodic (snd nw) r' = (r'', d)" by force
    have "rt_cycle r nw = r''" using \<open>snd nw < _\<close> e w True by (simp add: rt_cycle_def)
    moreover have "0 < r_period r'" using assms f by (simp add: on_schedule_def)
    moreover have "snd nw < r_due r' + UINT32_MAX" using \<open>snd nw < _\<close> f by simp
    ultimately show ?thesis
      using rt_wait_periodic_frame [OF w] True f assms(2) by (simp add: on_schedule_def algebra_simps)
  next
    case False
    then have "rt_cycle r nw = r'"
      using \<open>snd nw < _\<close> e by (auto simp: rt_cycle_def rt_wait_periodic_def split: option.split)
    then show ?thesis using f assms(2) by (simp add: on_schedule_def)
  qed
next
  case False
  then show ?thesis using assms(2) by (simp add: rt_cycle_def)
qed

interpretation schedule_run: step_invariant rt_cycle "\<lambda>r. 0 < p \<and> on_schedule t0 p r" for t0 p
  by unfold_locales (simp add: on_schedule_cycle)

text \<open>C11: through any number of waits, however late each wakes, the next due time of a periodic task is
  the time it was declared plus one period for every activation, every missed period and the one
  ahead. Whenever it wakes to work with its release due, at most 71 minutes late, there is one
  activation more, the activations and the periods missed together are the whole periods that have
  passed since it was declared, and its lateness is the rest; woken before its release, it has
  missed nothing more and is not late. A period missed counts as a missed deadline, when there is one,
  except before the first activation.\<close>

theorem schedule_accounts:
  assumes "0 < r_period r" "r_due r = t0 + (r_activations r + r_overruns r + 1) * r_period r"
    and "r1 = foldl rt_cycle r nws" "r2 = rt_cycle r1 (now, woken)"
  shows "r_period r2 = r_period r \<and> r_due r2 = t0 + (r_activations r2 + r_overruns r2 + 1) * r_period r \<and>
    (\<not> r_stop r1 \<and> snd (rt_wait_enter now r1) = None \<and> woken < r_due r1 + UINT32_MAX \<longrightarrow>
       r_activations r2 = r_activations r1 + 1 \<and>
       (if r_due r1 \<le> woken
        then r_activations r2 + r_overruns r2 = (woken - t0) div r_period r \<and> r_late r2 = (woken - t0) mod r_period r
        else r_overruns r2 = r_overruns r1 \<and> r_late r2 = 0) \<and>
       r_misses r2 = r_misses (fst (rt_wait_enter now r1)) +
         (if r_activations r1 = 0 \<or> r_deadline r1 = 0 then 0 else r_overruns r2 - r_overruns r1))"
proof -
  have s1: "on_schedule t0 (r_period r) r1" and s2: "on_schedule t0 (r_period r) r2"
    using schedule_run.run_inv [of "r_period r" t0 r nws] on_schedule_cycle assms by (simp_all add: on_schedule_def)
  let ?p = "r_period r"
  have woke: "r_activations r2 = r_activations r1 + 1 \<and>
       (if r_due r1 \<le> woken
        then r_activations r2 + r_overruns r2 = (woken - t0) div ?p \<and> r_late r2 = (woken - t0) mod ?p
        else r_overruns r2 = r_overruns r1 \<and> r_late r2 = 0) \<and>
       r_misses r2 = r_misses (fst (rt_wait_enter now r1)) +
         (if r_activations r1 = 0 \<or> r_deadline r1 = 0 then 0 else r_overruns r2 - r_overruns r1)"
    if w: "\<not> r_stop r1" "snd (rt_wait_enter now r1) = None" "woken < r_due r1 + UINT32_MAX"
  proof -
    obtain q where e: "rt_wait_enter now r1 = (q, None)" using w(2) by (metis prod.collapse)
    note f = rt_wait_enter_frame [OF e]
    have dl: "r_deadline q = r_deadline r1" using e by (auto simp: rt_wait_enter_def Let_def split: if_splits)
    obtain c where wp: "rt_wait_periodic woken q = (r2, c)"
      using assms(4) w(3) e by (metis (no_types, lifting) case_prod_conv option.simps(4) prod.collapse rt_cycle_def snd_conv fst_conv)
    have pq: "r_period q = ?p" using f s1 by (simp add: on_schedule_def)
    have q: "\<not> r_stop q" "0 < r_period q" "woken < r_due q + UINT32_MAX" using f w(1,3) assms(1) pq by simp_all
    define m where "m = (woken - r_due r1) div ?p"
    note F = rt_wait_periodic_frame [OF wp q]
    have o: "r_overruns r2 = r_overruns r1 + m" "r_activations r2 = r_activations r1 + 1" "r_late r2 = (woken - r_due r1) - m * ?p"
      using F(3-5) f pq by (simp_all add: m_def)
    have ms: "r_misses r2 = r_misses q + (if r_activations r1 = 0 \<or> r_deadline r1 = 0 then 0 else r_overruns r2 - r_overruns r1)"
      using F(8) f dl pq o(1) by (auto simp: m_def)
    have due: "r_due r1 = t0 + (r_activations r1 + r_overruns r1 + 1) * ?p" using s1 by (simp add: on_schedule_def)
    have "if r_due r1 \<le> woken
        then r_activations r2 + r_overruns r2 = (woken - t0) div ?p \<and> r_late r2 = (woken - t0) mod ?p
        else r_overruns r2 = r_overruns r1 \<and> r_late r2 = 0"
    proof (cases "r_due r1 \<le> woken")
      case True
      have el: "woken - t0 = (woken - r_due r1) + (r_activations r1 + r_overruns r1 + 1) * ?p" using True due by simp
      have "(woken - t0) div ?p = (r_activations r1 + r_overruns r1 + 1) + m"
        unfolding el m_def by (rule div_mult_self1) (use assms(1) in simp)
      moreover have "(woken - t0) mod ?p = (woken - r_due r1) mod ?p" unfolding el by (rule mod_mult_self1)
      moreover have "(woken - r_due r1) - m * ?p = (woken - r_due r1) mod ?p" by (simp add: m_def minus_div_mult_eq_mod)
      ultimately show ?thesis using True o by simp
    next
      case False
      then have "m = 0" by (simp add: m_def)
      then show ?thesis using False o by simp
    qed
    then show ?thesis using o(2) ms e by simp
  qed
  show ?thesis
  proof (intro conjI)
    show "r_period r2 = ?p" "r_due r2 = t0 + (r_activations r2 + r_overruns r2 + 1) * ?p" using s2 by (simp_all add: on_schedule_def)
  qed (use woke in blast)
qed

definition demo_task :: rt_task where
  "demo_task = zero_task\<lparr>r_task := 7, r_period := 1000, r_due := 6000, r_released_at := 5000,
     r_in_use := True, r_active := True, r_deadline := 900\<rparr>"

lemmas rt_eval = rt_cycle_def rt_wait_enter_def rt_wait_periodic_def rt_charge_def rt_answer_def
  rt_stall_def missed_it_def int32_def demo_task_def zero_task_def Let_def

lemma schedule_accounts_witness:
  "let r' = rt_cycle (foldl rt_cycle demo_task [(5100, 6010), (6200, 9500)]) (9600, 12301) in
    r_activations r' = 3 \<and> r_overruns r' = 4 \<and> r_activations r' + r_overruns r' = (12301 - 5000) div 1000 \<and> r_late r' = 301 \<and>
    r_due r' = 5000 + (r_activations r' + r_overruns r' + 1) * 1000"
proof -
  let ?r1 = "foldl rt_cycle demo_task [(5100, 6010), (6200, 9500)]" and ?r2 = "rt_cycle (foldl rt_cycle demo_task [(5100, 6010), (6200, 9500)]) (9600, 12301)"
  have r: "0 < r_period demo_task" "r_due demo_task = 5000 + (r_activations demo_task + r_overruns demo_task + 1) * r_period demo_task" "r_period demo_task = 1000"
    by (simp_all add: demo_task_def zero_task_def)
  have w: "\<not> r_stop ?r1" "snd (rt_wait_enter 9600 ?r1) = None" "12301 < r_due ?r1 + UINT32_MAX" "r_due ?r1 \<le> 12301" "r_activations ?r1 = 2"
    by (simp_all add: rt_eval)
  note S = schedule_accounts [OF r(1,2) refl refl, of "[(5100, 6010), (6200, 9500)]" 9600 12301, unfolded r(3)]
  note A = S [THEN conjunct2, THEN conjunct2, THEN mp, OF conjI [OF w(1) conjI [OF w(2,3)]], unfolded w(5) if_P [OF w(4)]]
  have "r_activations ?r2 = 3" "r_activations ?r2 + r_overruns ?r2 = (12301 - 5000) div 1000" "r_late ?r2 = (12301 - 5000) mod 1000"
    using A by simp_all
  moreover have "r_due ?r2 = 5000 + (r_activations ?r2 + r_overruns ?r2 + 1) * 1000" using S by blast
  ultimately show ?thesis unfolding Let_def by simp
qed

text \<open>On waking, the lateness charged to the activation is measured from the latest release
  that was due, so it is less than a period; the next release is after now and at most a
  period away; the answer is the number of whole periods skipped, unless that miss ends the
  task with its deadline.\<close>

theorem wake_lateness:
  assumes "\<not> r_stop r" "0 < r_period r" "r_due r \<le> woken" "woken < r_due r + 2147483648"
    "rt_wait_periodic woken r = (r', c)"
  shows "r_late r' < r_period r \<and> r_due r' = (woken - r_late r') + r_period r \<and> woken < r_due r' \<and>
    (c = int (r_overruns r' - r_overruns r) \<or>
     c = RV9_RT_DEADLINE \<and> r_fault_on_miss r \<and> r_deadline r \<noteq> 0 \<and> r_misses r < r_misses r')"
proof -
  define m where "m = (woken - r_due r) div r_period r"
  have w: "woken < r_due r + UINT32_MAX" using assms(4) by simp
  note f = rt_wait_periodic_frame [OF assms(5,1,2) w, folded m_def]
  have d: "m * r_period r + (woken - r_due r) mod r_period r = woken - r_due r" by (simp add: m_def)
  have late: "r_late r' = (woken - r_due r) mod r_period r" using f(5) d by linarith
  have lt: "r_late r' < r_period r" using assms(2) by (simp add: late)
  have "m \<le> woken - r_due r" by (simp add: m_def)
  then have "m < 2147483648" using assms(3,4) by linarith
  then have "int32 m = int m" by (simp add: int32_def)
  moreover have "(m + 1) * r_period r = m * r_period r + r_period r" by simp
  ultimately show ?thesis
    using f(2,4,7,8) d lt late assms(3) by (auto split: if_splits)
qed

lemma wake_lateness_witness:
  "r_late (fst (rt_wait_periodic 9500 demo_task)) < 1000 \<and> 9500 < r_due (fst (rt_wait_periodic 9500 demo_task)) \<and>
   snd (rt_wait_periodic 9500 demo_task) = 3"
proof -
  have *: "\<not> r_stop demo_task" "0 < r_period demo_task" "r_due demo_task \<le> 9500"
    "9500 < r_due demo_task + 2147483648" "r_period demo_task = 1000"
    by (simp_all add: demo_task_def zero_task_def)
  have "snd (rt_wait_periodic 9500 demo_task) = 3" by (simp add: rt_eval)
  then show ?thesis
    using wake_lateness [OF *(1-4) prod.collapse [symmetric]] unfolding *(5) by blast
qed

section \<open>Deadlines\<close>


definition late_task :: rt_task where
  "late_task = demo_task\<lparr>r_activations := 5, r_late := 300, r_fault_on_miss := True\<rparr>"


text \<open>But execution time is charged modulo \<open>2 ^ 32\<close> microseconds, where every other figure
  saturates: a loop without fault-on-miss that comes back after 71 minutes 35 seconds and a
  half is charged 500 microseconds and no miss, whatever its deadline above that.\<close>

theorem long_activation_forgiven:
  assumes "\<not> r_stop r" "0 < r_activations r" "r_late r = 0" "r_flagged r = 0" "500 \<le> r_deadline r"
    "r_released_at r + W32 + 500 < W64"
  shows "rt_wait_enter (r_released_at r + W32 + 500) r = (r', c) \<Longrightarrow>
    c = None \<and> r_misses r' = r_misses r \<and> r_last_exec r' = 500 \<and> r_last_response r' = 500"
proof -
  assume e: "rt_wait_enter (r_released_at r + W32 + 500) r = (r', c)"
  have "cast32 (sub64 (r_released_at r + W32 + 500) (r_released_at r)) = 500"
    using assms(6) by (simp add: cast32_def)
  then show "c = None \<and> r_misses r' = r_misses r \<and> r_last_exec r' = 500 \<and> r_last_response r' = 500"
    using e assms by (auto simp: rt_wait_enter_def Let_def missed_it_def rt_answer_def rt_charge_def
        split: if_splits)
qed

lemma long_activation_forgiven_witness:
  "snd (rt_wait_enter (5000 + W32 + 500) (demo_task\<lparr>r_activations := 5\<rparr>)) = None"
  using long_activation_forgiven [of "demo_task\<lparr>r_activations := 5\<rparr>", OF _ _ _ _ _ _ prod.collapse [symmetric]]
  by (simp add: demo_task_def zero_task_def)


section \<open>Events\<close>

lemma event_signal_many:
  assumes "e_pending e + length ts < W32"
  shows "e_pending (foldl (\<lambda>e t. event_signal t e) e ts) = e_pending e + length ts \<and>
    e_at_us (foldl (\<lambda>e t. event_signal t e) e ts) = (if e_pending e = 0 \<and> ts \<noteq> [] then hd ts else e_at_us e) \<and>
    e_last_us (foldl (\<lambda>e t. event_signal t e) e ts) = e_last_us e"
  using assms
proof (induction ts arbitrary: e)
  case (Cons t ts)
  have p: "e_pending (event_signal t e) = e_pending e + 1"
    "e_at_us (event_signal t e) = (if e_pending e = 0 then t else e_at_us e)"
    "e_last_us (event_signal t e) = e_last_us e"
    using Cons.prems by (simp_all add: event_signal_def Let_def)
  show ?case using Cons.IH [of "event_signal t e"] Cons.prems p by auto
qed simp

lemma rt_gap_frame [simp]:
  "r_overruns (rt_gap a b r) = r_overruns r" "r_activations (rt_gap a b r) = r_activations r"
  "r_late (rt_gap a b r) = r_late r" "r_max_jitter (rt_gap a b r) = r_max_jitter r"
  by (simp_all add: rt_gap_def Let_def)

text \<open>Signals that arrive at \<open>t # ts\<close> before an event's task looks are one activation and
  \<open>length ts\<close> overruns, none lost and none left over, and the lateness charged runs from the
  first of them, not the last; a wakeup with nothing signalled changes nothing and waits on.\<close>

theorem event_signals_counted:
  assumes "e_pending e = 0" "\<not> r_stop r" "length ts < 2147483648" "t < woken" "woken - t < W32"
    "rt_event_turn woken r (foldl (\<lambda>e t. event_signal t e) e (t # ts)) = (r', e', c)"
  shows "c = Some (int (length ts)) \<and> r_activations r' = r_activations r + 1 \<and>
    r_overruns r' = r_overruns r + length ts \<and> r_late r' = woken - t \<and> r_late r' \<le> r_max_jitter r' \<and>
    r_released_at r' = woken \<and> e_pending e' = 0 \<and> e_last_us e' = t \<and>
    rt_event_turn woken r e = (r, e, None)"
proof -
  define e1 where "e1 = foldl (\<lambda>e t. event_signal t e) e (t # ts)"
  have e1: "e_pending e1 = Suc (length ts)" "e_at_us e1 = t" "e_last_us e1 = e_last_us e"
    using event_signal_many [of e "t # ts"] assms(1,3) unfolding e1_def by auto
  have c: "cast32 (woken - t) = woken - t" using assms(5) by simp
  have i: "int32 (length ts) = int (length ts)" using assms(3) by (simp add: int32_def)
  have "rt_event_turn woken r e1 = (r', e', c)" using assms(6) by (simp add: e1_def)
  then show ?thesis
    using assms(1,2,4) e1 c i by (auto simp: rt_event_turn_def Let_def)
qed

lemma event_signals_counted_witness:
  "\<exists>r' e'. rt_event_turn 900 demo_task (foldl (\<lambda>e t. event_signal t e) no_event [700, 750, 800]) = (r', e', Some 2) \<and>
    r_late r' = 200 \<and> r_overruns r' = 2"
proof -
  let ?x = "rt_event_turn 900 demo_task (foldl (\<lambda>e t. event_signal t e) no_event (700 # [750, 800]))"
  have "e_pending no_event = 0" "\<not> r_stop demo_task" "length [750, 800 :: nat] < 2147483648"
    "700 < (900 :: nat)" "900 - 700 < W32" "r_overruns demo_task = 0"
    by (simp_all add: no_event_def demo_task_def zero_task_def)
  note * = event_signals_counted [OF this(1-5), of "fst ?x" "fst (snd ?x)" "snd (snd ?x)"] this(6)
  then show ?thesis
    by (intro exI [of _ "fst ?x"] exI [of _ "fst (snd ?x)"]) (auto simp: prod_eq_iff)
qed

section \<open>The watchdog\<close>

text \<open>The watchdog flags a task DEADLINE exactly when it is in an activation, is to be
  stopped on a miss, and the time since its release plus the lateness it started with exceeds
  its deadline; RUNAWAY exactly when not, but it has run past the limit and at least half of
  that time was sampled on the CPU. A task already flagged, waiting, or not in use is left
  alone, and the watchdog's task is woken exactly when somebody was newly flagged.\<close>

theorem watch_flags:
  assumes "watch_fire cur now rs = (rs', wake)" "i < length rs" "r_released_at (rs ! i) \<le> now"
  shows "let r = rs ! i; ran = now - r_released_at r;
      over = (r_fault_on_miss r \<and> r_deadline r \<noteq> 0 \<and> r_activations r > 0 \<and> ran + r_late r > r_deadline r);
      spin = (ran > 250000 \<and> (r_samples r + (if r_task r = cur then 1 else 0)) * 4000 \<ge> ran)
    in r_flagged (rs' ! i) =
         (if \<not> (r_in_use r \<and> r_active r \<and> r_flagged r = 0) then r_flagged r
          else if over then RV9_RT_DEADLINE else if spin then RV9_RT_RUNAWAY else 0) \<and>
       wake = (\<exists>j<length rs. r_flagged (rs ! j) = 0 \<and> r_flagged (rs' ! j) \<noteq> 0)"
proof -
  have rs': "rs' = map (watch_one cur now) rs"
    and wake: "wake = list_ex (\<lambda>r. watch_sees r \<and> r_flagged (watch_one cur now r) \<noteq> 0) rs"
    using assms(1) by (simp_all add: watch_fire_def)
  have new: "(watch_sees r \<and> r_flagged (watch_one cur now r) \<noteq> 0) =
      (r_flagged r = 0 \<and> r_flagged (watch_one cur now r) \<noteq> 0)" for r
    by (auto simp: watch_one_def watch_sees_def Let_def)
  have ne: "RV9_RT_DEADLINE \<noteq> 0" "RV9_RT_RUNAWAY \<noteq> 0" by (simp_all add: RV9_RT_DEADLINE_def RV9_RT_RUNAWAY_def)
  have "wake = (\<exists>j<length rs. r_flagged (rs ! j) = 0 \<and> r_flagged (rs' ! j) \<noteq> 0)"
    unfolding wake rs' new by (auto simp: list_ex_length)
  then show ?thesis
    using assms(2,3) ne
    by (simp add: rs' Let_def) (simp add: watch_one_def watch_sees_def Let_def RV9_RT_RUNAWAY_MS_def WATCH_US_def)
qed

lemma watch_flags_witness:
  "r_flagged (fst (watch_fire 7 5700 [late_task]) ! 0) = RV9_RT_DEADLINE"
  using watch_flags [of 7 5700 "[late_task]", OF prod.collapse [symmetric], of 0]
  by (simp add: late_task_def demo_task_def zero_task_def Let_def)

end
