(* ===== verification/ProcTable.thy ===== *)
theory ProcTable
  imports Prelude
begin

text \<open>
  The process table of components/rv9_proc/src/proc.c: descriptors, pids, how long the dead
  are remembered, memory budgets, signals, aging. A descriptor pointer is the pid it carries
  (pids in the table are distinct, which is proved); \<open>t_procs\<close> is the linked list, head first.
  Tasks are KAL handles, 0 for NULL. The lock that guards the table is not modelled: every
  definition is one critical section.
\<close>

section \<open>Constants and types\<close>

definition RV9_PID_NONE :: nat where "RV9_PID_NONE = 0"
definition AGE_MAX :: int where "AGE_MAX = 10"
definition PRIO_CEILING :: int where "PRIO_CEILING = 13"
definition PROC_HISTORY :: nat where "PROC_HISTORY = 16"
definition PROC_HISTORY_MAX :: nat where "PROC_HISTORY_MAX = 32"
definition PROC_BUDGET_DEFAULT :: nat where "PROC_BUDGET_DEFAULT = 32768"
definition PROC_EXT_UNBOUNDED :: nat where "PROC_EXT_UNBOUNDED = UINT32_MAX"
definition PROC_ANCESTORS :: nat where "PROC_ANCESTORS = 8"
definition PROC_DEFAULT_STACK :: nat where "PROC_DEFAULT_STACK = 8192"

definition RV9_FAULT_NONE :: nat where "RV9_FAULT_NONE = 0"
definition RV9_FAULT_STACK :: nat where "RV9_FAULT_STACK = 1"
definition RV9_FAULT_KILLED :: nat where "RV9_FAULT_KILLED = 2"
definition RV9_FAULT_DEADLINE :: nat where "RV9_FAULT_DEADLINE = 3"
definition RV9_FAULT_RUNAWAY :: nat where "RV9_FAULT_RUNAWAY = 4"

datatype proc_err =
    RV9_PROC_OK | RV9_PROC_ERR_NOTFOUND | RV9_PROC_ERR_NOMEM | RV9_PROC_ERR_MODULE
  | RV9_PROC_ERR_TIMEOUT | RV9_PROC_ERR_INVAL | RV9_PROC_ERR_FAULT | RV9_PROC_ERR_NOSLOT
  | RV9_PROC_ERR_CONTRACT | RV9_PROC_ERR_UTILISATION | RV9_PROC_ERR_NODEV | RV9_PROC_ERR_BUSY
  | RV9_PROC_ERR_KILLED | RV9_PROC_ERR_DEADLINE | RV9_PROC_ERR_RUNAWAY | RV9_PROC_ERR_NOPUB
  | RV9_PROC_ERR_UNSCHEDULABLE | RV9_PROC_ERR_BUDGET | RV9_PROC_ERR_MEANING

fun err_code :: "proc_err \<Rightarrow> int" where
  "err_code RV9_PROC_OK = 0" | "err_code RV9_PROC_ERR_NOTFOUND = 1"
| "err_code RV9_PROC_ERR_NOMEM = 2" | "err_code RV9_PROC_ERR_MODULE = 3"
| "err_code RV9_PROC_ERR_TIMEOUT = 4" | "err_code RV9_PROC_ERR_INVAL = 5"
| "err_code RV9_PROC_ERR_FAULT = 6" | "err_code RV9_PROC_ERR_NOSLOT = 7"
| "err_code RV9_PROC_ERR_CONTRACT = 8" | "err_code RV9_PROC_ERR_UTILISATION = 9"
| "err_code RV9_PROC_ERR_NODEV = 10" | "err_code RV9_PROC_ERR_BUSY = 11"
| "err_code RV9_PROC_ERR_KILLED = 12" | "err_code RV9_PROC_ERR_DEADLINE = 13"
| "err_code RV9_PROC_ERR_RUNAWAY = 14" | "err_code RV9_PROC_ERR_NOPUB = 15"
| "err_code RV9_PROC_ERR_UNSCHEDULABLE = 16" | "err_code RV9_PROC_ERR_BUDGET = 17"
| "err_code RV9_PROC_ERR_MEANING = 18"

datatype proc_state = RV9_PROC_ACTIVE | RV9_PROC_WAITING | RV9_PROC_EXITED

record proc =
  p_pid :: nat
  p_parent :: nat
  p_name :: string
  p_module :: "nat option"
  p_statics :: bool
  p_task :: nat
  p_realtime :: bool
  p_period :: nat
  p_wcet :: nat
  p_deadline :: nat
  p_on_deadline :: nat
  p_urgent :: bool
  p_bound :: nat
  p_place :: nat
  p_stack_bytes :: nat
  p_base :: int
  p_age :: int
  p_eff :: int
  p_state :: proc_state
  p_exit_status :: int
  p_signals :: u32
  p_fault :: nat
  p_collecting :: bool
  p_noted :: bool
  p_since :: nat
  p_refs :: nat
  p_waited :: bool
  p_ended_seq :: nat
  p_serial :: nat
  p_footprint :: nat
  p_held :: nat
  p_budget :: nat
  p_ancestors :: "nat list"
  p_ext_footprint :: nat
  p_ext_held :: nat
  p_ext_budget :: nat
  p_arena :: bool
  p_arena_size :: nat
  p_heap_given :: nat
  p_arena_external :: bool
  p_started :: nat
  p_arg :: string
  p_chain_to :: string
  p_chain_pending :: bool

record ptable =
  t_procs :: "proc list"
  t_next_pid :: nat
  t_ended_seq :: nat
  t_next_serial :: nat
  t_aging :: bool

section \<open>Looking things up\<close>

definition find_locked :: "nat \<Rightarrow> ptable \<Rightarrow> proc option" where
  "find_locked pid t = find (\<lambda>p. p_pid p = pid) (t_procs t)"

definition current_locked :: "nat \<Rightarrow> ptable \<Rightarrow> proc option" where
  "current_locked self t = find (\<lambda>p. p_task p = self) (t_procs t)"

text \<open>Updating the first descriptor that passes a test: what a loop with \<open>break\<close> does.\<close>

fun upd_first :: "('a \<Rightarrow> bool) \<Rightarrow> ('a \<Rightarrow> 'a) \<Rightarrow> 'a list \<Rightarrow> 'a list" where
  "upd_first P f [] = []"
| "upd_first P f (x # xs) = (if P x then f x # xs else x # upd_first P f xs)"

definition upd_proc :: "nat \<Rightarrow> (proc \<Rightarrow> proc) \<Rightarrow> ptable \<Rightarrow> ptable" where
  "upd_proc pid f t = t\<lparr>t_procs := upd_first (\<lambda>p. p_pid p = pid) f (t_procs t)\<rparr>"

definition rv9_proc_current_pid :: "nat \<Rightarrow> ptable \<Rightarrow> nat" where
  "rv9_proc_current_pid self t =
     (case current_locked self t of None \<Rightarrow> RV9_PID_NONE | Some p \<Rightarrow> p_pid p)"

definition hold_locked :: "proc \<Rightarrow> proc" where
  "hold_locked p = p\<lparr>p_refs := p_refs p + 1\<rparr>"

definition put :: "nat \<Rightarrow> ptable \<Rightarrow> ptable" where
  "put pid = upd_proc pid (\<lambda>p. if p_refs p > 0 then p\<lparr>p_refs := p_refs p - 1\<rparr> else p)"

section \<open>Ending\<close>

definition uncharge_one :: "nat \<Rightarrow> nat \<Rightarrow> nat \<Rightarrow> proc list \<Rightarrow> proc list" where
  "uncharge_one a bytes ext =
     upd_first (\<lambda>q. p_serial q = a)
       (\<lambda>q. q\<lparr>p_held := clamp_sub (p_held q) bytes, p_ext_held := clamp_sub (p_ext_held q) ext\<rparr>)"

definition uncharge_locked :: "nat list \<Rightarrow> nat \<Rightarrow> nat \<Rightarrow> ptable \<Rightarrow> ptable" where
  "uncharge_locked ancestors bytes ext t =
     t\<lparr>t_procs := foldl (\<lambda>ps a. uncharge_one a bytes ext ps) (t_procs t) ancestors\<rparr>"

definition ended_locked :: "nat \<Rightarrow> ptable \<Rightarrow> ptable" where
  "ended_locked pid t =
     (case find_locked pid t of
        None \<Rightarrow> t
      | Some p \<Rightarrow>
          let t1 = (upd_proc pid (\<lambda>p. p\<lparr>p_state := RV9_PROC_EXITED, p_ended_seq := cast32 (t_ended_seq t + 1)\<rparr>) t)
                     \<lparr>t_ended_seq := cast32 (t_ended_seq t + 1)\<rparr>;
              t2 = uncharge_locked (p_ancestors p) (p_footprint p) (p_ext_footprint p) t1
          in upd_proc pid (\<lambda>p. p\<lparr>p_ancestors := [], p_held := 0, p_ext_held := 0\<rparr>) t2)"

definition parent_may_wait_locked :: "ptable \<Rightarrow> proc \<Rightarrow> bool" where
  "parent_may_wait_locked t p \<longleftrightarrow>
     p_parent p = RV9_PID_NONE \<or>
     (case find_locked (p_parent p) t of None \<Rightarrow> False | Some q \<Rightarrow> p_state q \<noteq> RV9_PROC_EXITED)"

section \<open>How long a process is remembered\<close>

definition exited :: "proc \<Rightarrow> bool" where
  "exited p \<longleftrightarrow> p_state p = RV9_PROC_EXITED"

definition forgettable :: "proc \<Rightarrow> bool" where
  "forgettable p \<longleftrightarrow> exited p \<and> \<not> (p_refs p \<noteq> 0 \<or> p_collecting p)"

definition older :: "proc \<Rightarrow> proc \<Rightarrow> bool" where
  "older p q \<longleftrightarrow> p_ended_seq p < p_ended_seq q"

definition oldest_any :: "ptable \<Rightarrow> proc option" where
  "oldest_any t = best_of older None (filter forgettable (t_procs t))"

definition oldest_done :: "ptable \<Rightarrow> proc option" where
  "oldest_done t = best_of older None
     (filter (\<lambda>p. forgettable p \<and> (p_waited p \<or> \<not> parent_may_wait_locked t p)) (t_procs t))"

definition prune_victim :: "ptable \<Rightarrow> proc option" where
  "prune_victim t =
     (let n = length (filter exited (t_procs t)) in
      if n > PROC_HISTORY_MAX then oldest_any t
      else if n > PROC_HISTORY then oldest_done t
      else None)"

lemma prune_victim_mem: "prune_victim t = Some v \<Longrightarrow> v \<in> set (t_procs t) \<and> forgettable v"
  using best_of_mem [of older None _ v]
  by (fastforce simp: prune_victim_def oldest_any_def oldest_done_def Let_def split: if_splits)

function prune_locked :: "ptable \<Rightarrow> ptable" where
  "prune_locked t =
     (case prune_victim t of
        None \<Rightarrow> t
      | Some v \<Rightarrow> prune_locked (t\<lparr>t_procs := remove1 v (t_procs t)\<rparr>))"
  by auto
termination
proof (relation "measure (\<lambda>t. length (t_procs t))")
  fix t v assume "prune_victim t = Some v"
  then have "v \<in> set (t_procs t)" using prune_victim_mem by blast
  then have "0 < length (t_procs t)" "v \<in> set (t_procs t)" by (auto simp: length_pos_if_in_set)
  then show "(t\<lparr>t_procs := remove1 v (t_procs t)\<rparr>, t) \<in> measure (\<lambda>t. length (t_procs t))"
    by (simp add: length_remove1)
qed simp

declare prune_locked.simps [simp del]

section \<open>Pids\<close>

definition pid_after :: "nat \<Rightarrow> nat" where
  "pid_after s = (if s \<ge> 65535 then 1 else s + 1)"

fun pid_scan :: "nat \<Rightarrow> ptable \<Rightarrow> ptable \<times> nat" where
  "pid_scan 0 t = (t, RV9_PID_NONE)"
| "pid_scan (Suc n) t =
     (let pid = t_next_pid t; t1 = t\<lparr>t_next_pid := pid_after pid\<rparr> in
      if pid \<noteq> RV9_PID_NONE \<and> find_locked pid t1 = None then (t1, pid) else pid_scan n t1)"

definition next_pid_locked :: "ptable \<Rightarrow> ptable \<times> nat" where
  "next_pid_locked t = pid_scan 65536 t"

definition rv9_proc_set_next_pid :: "nat \<Rightarrow> ptable \<Rightarrow> ptable" where
  "rv9_proc_set_next_pid pid t = t\<lparr>t_next_pid := (if pid = RV9_PID_NONE then 1 else pid)\<rparr>"

section \<open>Budgets\<close>

record charge =
  c_serial :: nat
  c_bytes :: nat
  c_ext :: nat
  c_ancestors :: "nat list"

text \<open>Whose budget a charge would break.\<close>

datatype blame = Own | OwnExternal | Its nat | ItsExternal nat

definition charge_ancestors :: "nat \<Rightarrow> ptable \<Rightarrow> nat list" where
  "charge_ancestors self t =
     (case current_locked self t of
        None \<Rightarrow> []
      | Some p \<Rightarrow> if p_state p = RV9_PROC_EXITED then [] else take PROC_ANCESTORS (p_serial p # p_ancestors p))"

definition over_budget :: "nat \<Rightarrow> nat \<Rightarrow> ptable \<Rightarrow> nat \<Rightarrow> blame option" where
  "over_budget bytes ext t a =
     (case find (\<lambda>q. p_serial q = a) (t_procs t) of
        None \<Rightarrow> None
      | Some q \<Rightarrow>
          if p_state q = RV9_PROC_EXITED then None
          else if p_held q + bytes > p_budget q then Some (Its (p_pid q))
          else if p_ext_held q + ext > p_ext_budget q then Some (ItsExternal (p_pid q))
          else None)"

fun first_some :: "('a \<Rightarrow> 'b option) \<Rightarrow> 'a list \<Rightarrow> 'b option" where
  "first_some f [] = None"
| "first_some f (x # xs) = (case f x of None \<Rightarrow> first_some f xs | Some y \<Rightarrow> Some y)"

definition charge_one :: "nat \<Rightarrow> nat \<Rightarrow> nat \<Rightarrow> proc list \<Rightarrow> proc list" where
  "charge_one a bytes ext =
     upd_first (\<lambda>q. p_serial q = a)
       (\<lambda>q. q\<lparr>p_held := cast32 (p_held q + bytes), p_ext_held := cast32 (p_ext_held q + ext)\<rparr>)"

definition charge_locked ::
  "nat \<Rightarrow> nat \<Rightarrow> nat \<Rightarrow> nat \<Rightarrow> nat \<Rightarrow> ptable \<Rightarrow> ptable \<times> (blame + charge)" where
  "charge_locked self bytes budget ext ext_budget t =
     (if bytes > budget then (t, Inl Own)
      else if ext > ext_budget then (t, Inl OwnExternal)
      else
        let as = charge_ancestors self t in
        case first_some (over_budget bytes ext t) as of
          Some w \<Rightarrow> (t, Inl w)
        | None \<Rightarrow>
            (t\<lparr>t_procs := foldl (\<lambda>ps a. charge_one a bytes ext ps) (t_procs t) as,
               t_next_serial := cast32 (t_next_serial t + 1)\<rparr>,
             Inr \<lparr>c_serial = t_next_serial t, c_bytes = bytes, c_ext = ext, c_ancestors = as\<rparr>))"

definition refuse_charge :: "charge \<Rightarrow> ptable \<Rightarrow> ptable" where
  "refuse_charge c = uncharge_locked (c_ancestors c) (c_bytes c) (c_ext c)"

section \<open>Signals, chaining, aging\<close>

definition env_signals_take :: "nat \<Rightarrow> ptable \<Rightarrow> ptable \<times> u32" where
  "env_signals_take self t =
     (case current_locked self t of
        None \<Rightarrow> (t, 0)
      | Some p \<Rightarrow> (t\<lparr>t_procs := upd_first (\<lambda>q. p_task q = self) (\<lambda>q. q\<lparr>p_signals := 0\<rparr>) (t_procs t)\<rparr>, p_signals p))"

definition rv9_proc_signal :: "nat \<Rightarrow> u32 \<Rightarrow> ptable \<Rightarrow> ptable \<times> proc_err" where
  "rv9_proc_signal pid signals t =
     (case find_locked pid t of
        None \<Rightarrow> (t, RV9_PROC_ERR_NOTFOUND)
      | Some p \<Rightarrow>
          if p_state p = RV9_PROC_EXITED then (t, RV9_PROC_ERR_NOTFOUND)
          else (upd_proc pid (\<lambda>p. p\<lparr>p_signals := p_signals p OR signals\<rparr>) t, RV9_PROC_OK))"

definition cstr :: "nat \<Rightarrow> string \<Rightarrow> string" where
  "cstr cap s = take (cap - 1) (takeWhile (\<lambda>c. c \<noteq> CHR 0x00) s)"

definition rv9_proc_chain :: "nat \<Rightarrow> string option \<Rightarrow> ptable \<Rightarrow> ptable \<times> proc_err" where
  "rv9_proc_chain self name t =
     (case name of
        None \<Rightarrow> (t, RV9_PROC_ERR_INVAL)
      | Some n \<Rightarrow>
          (case current_locked self t of
             None \<Rightarrow> (t, RV9_PROC_ERR_NOTFOUND)
           | Some p \<Rightarrow>
               (t\<lparr>t_procs := upd_first (\<lambda>q. p_task q = self)
                    (\<lambda>q. q\<lparr>p_chain_to := cstr 32 n, p_chain_pending := True\<rparr>) (t_procs t)\<rparr>, RV9_PROC_OK)))"

text \<open>One pass of the ager, and what it tells the KAL.\<close>

definition ager_top :: "ptable \<Rightarrow> proc option" where
  "ager_top t = best_of (\<lambda>p q. p_eff p > p_eff q) None (filter (\<lambda>p. p_state p = RV9_PROC_ACTIVE) (t_procs t))"

definition ager_one :: "bool \<Rightarrow> proc \<Rightarrow> proc" where
  "ager_one is_top p =
     (if p_state p \<noteq> RV9_PROC_ACTIVE then p
      else
        let age = (if is_top then 0 else if p_age p < AGE_MAX then p_age p + 1 else p_age p);
            eff = (if p_base p + age > PRIO_CEILING then PRIO_CEILING else p_base p + age)
        in p\<lparr>p_age := age, p_eff := eff\<rparr>)"

definition ager_pass :: "ptable \<Rightarrow> ptable \<times> (nat \<times> int) list" where
  "ager_pass t =
     (let tp = map_option p_pid (ager_top t);
          ps = map (\<lambda>p. ager_one (Some (p_pid p) = tp) p) (t_procs t)
      in (t\<lparr>t_procs := ps\<rparr>,
          map (\<lambda>(p, q). (p_task q, p_eff q)) (filter (\<lambda>(p, q). p_eff q \<noteq> p_eff p) (zip (t_procs t) ps))))"

text \<open>\<open>ages\<close>: the kernel underneath ages threads itself.\<close>

definition rv9_proc_aging_set :: "bool \<Rightarrow> bool \<Rightarrow> ptable \<Rightarrow> ptable" where
  "rv9_proc_aging_set ages enabled t =
     (if ages then t
      else let t1 = t\<lparr>t_aging := enabled\<rparr> in
           if enabled then t1
           else t1\<lparr>t_procs := map (\<lambda>p. if p_state p \<noteq> RV9_PROC_ACTIVE then p
                                     else p\<lparr>p_age := 0, p_eff := p_base p\<rparr>) (t_procs t)\<rparr>)"

definition rv9_proc_aging_get :: "bool \<Rightarrow> ptable \<Rightarrow> bool" where
  "rv9_proc_aging_get ages t = (if ages then True else t_aging t)"

section \<open>What is told about processes\<close>

record proc_info =
  i_pid :: nat
  i_parent :: nat
  i_name :: string
  i_state :: proc_state
  i_exit_status :: int
  i_fault :: nat
  i_waited :: bool
  i_urgent :: bool
  i_bound :: nat
  i_footprint :: nat
  i_held :: nat
  i_budget :: nat
  i_arena_size :: nat
  i_ext_footprint :: nat
  i_ext_held :: nat
  i_ext_budget :: nat

definition info_of :: "proc \<Rightarrow> proc_info" where
  "info_of p = \<lparr>i_pid = p_pid p, i_parent = p_parent p, i_name = p_name p, i_state = p_state p,
     i_exit_status = p_exit_status p, i_fault = p_fault p, i_waited = p_waited p,
     i_urgent = p_urgent p, i_bound = p_bound p, i_footprint = p_footprint p, i_held = p_held p,
     i_budget = p_budget p, i_arena_size = p_arena_size p, i_ext_footprint = p_ext_footprint p,
     i_ext_held = p_ext_held p, i_ext_budget = p_ext_budget p\<rparr>"

definition rv9_proc_info :: "nat \<Rightarrow> ptable \<Rightarrow> proc_info option" where
  "rv9_proc_info pid t = map_option info_of (find_locked pid t)"

definition rv9_proc_statics :: "nat \<Rightarrow> ptable \<Rightarrow> bool" where
  "rv9_proc_statics pid t = (case find_locked pid t of None \<Rightarrow> False | Some p \<Rightarrow> p_statics p)"

text \<open>The list, the stacks and the budgets, at most \<open>mx\<close> records (None: count only). The
  budgets' count goes on past the room; the other two stop there.\<close>

definition proc_list_op :: "nat option \<Rightarrow> ptable \<Rightarrow> proc list \<times> nat" where
  "proc_list_op mx t =
     (case mx of
        None \<Rightarrow> ([], length (t_procs t))
      | Some m \<Rightarrow> (take m (t_procs t), length (take m (t_procs t))))"

definition proc_stacks_op :: "nat option \<Rightarrow> ptable \<Rightarrow> proc list \<times> nat" where
  "proc_stacks_op mx t =
     (let ps = filter (\<lambda>p. \<not> (p_state p = RV9_PROC_EXITED \<or> p_task p = 0)) (t_procs t) in
      case mx of None \<Rightarrow> ([], length ps) | Some m \<Rightarrow> (take m ps, length (take m ps)))"

definition proc_budgets_op :: "nat option \<Rightarrow> ptable \<Rightarrow> proc list \<times> nat" where
  "proc_budgets_op mx t =
     (let ps = filter (\<lambda>p. p_state p \<noteq> RV9_PROC_EXITED) (t_procs t) in
      (case mx of None \<Rightarrow> [] | Some m \<Rightarrow> take m ps, length ps))"

text \<open>The pid a module passes is cut to 16 bits on its way in.\<close>

definition cast_pid :: "int \<Rightarrow> nat" where
  "cast_pid pid = nat (pid mod 65536)"

definition proc_signal_op :: "int \<Rightarrow> u32 \<Rightarrow> ptable \<Rightarrow> ptable \<times> int" where
  "proc_signal_op pid signals t =
     (if pid \<le> 0 then (t, - err_code RV9_PROC_ERR_INVAL)
      else case rv9_proc_signal (cast_pid pid) signals t of
             (t', e) \<Rightarrow> (t', if e = RV9_PROC_OK then 0 else - err_code RV9_PROC_ERR_NOTFOUND))"

end
