(* ===== verification/ProcProps.thy ===== *)
theory ProcProps
  imports ProcTable
begin

text \<open>
  The process table's promises: a pid is fresh and one is found if any is free; the dead are
  forgotten in order, the living and the held never; and memory charges balance.
\<close>

section \<open>Pids\<close>

definition pids :: "ptable \<Rightarrow> nat set" where
  "pids t = p_pid ` set (t_procs t)"

lemma find_locked_None: "find_locked pid t = None \<longleftrightarrow> pid \<notin> pids t"
  by (auto simp: find_locked_def pids_def find_None_iff)

lemma find_locked_Some: "find_locked pid t = Some p \<Longrightarrow> p \<in> set (t_procs t) \<and> p_pid p = pid"
  by (auto simp: find_locked_def find_Some_iff)

text \<open>The pid looked at in turn \<open>k\<close> of the scan.\<close>

definition pid_at :: "nat \<Rightarrow> nat \<Rightarrow> nat" where
  "pid_at s k = (pid_after ^^ k) s"

lemma pid_at_Suc: "pid_at s (Suc k) = pid_at (pid_after s) k"
  by (simp add: pid_at_def funpow_swap1)

lemma pid_at_closed: "1 \<le> s \<Longrightarrow> s \<le> 65535 \<Longrightarrow> pid_at s k = (s - 1 + k) mod 65535 + 1"
proof (induction k arbitrary: s)
  case (Suc k)
  then show ?case
  proof (cases "s = 65535")
    case True
    have "(65534 + Suc k) mod 65535 = k mod 65535"
      by (metis add.commute add_Suc_right mod_add_self1 numeral_nat(7) plus_1_eq_Suc eval_nat_numeral(3) add_Suc semiring_norm(5))
    then show ?thesis using Suc.IH [of 1] True by (simp add: pid_at_Suc pid_after_def)
  next
    case False
    then show ?thesis using Suc.IH [of "s + 1"] Suc.prems by (simp add: pid_at_Suc pid_after_def)
  qed
qed (simp add: pid_at_def)

lemma pid_scan_result:
  assumes "pid_scan n t = (t', pid)"
  shows "t_procs t' = t_procs t \<and>
    (pid \<noteq> 0 \<longrightarrow> pid \<notin> pids t \<and> (\<exists>k<n. pid = pid_at (t_next_pid t) k)) \<and>
    (pid = 0 \<longrightarrow> (\<forall>k<n. pid_at (t_next_pid t) k = 0 \<or> pid_at (t_next_pid t) k \<in> pids t))"
  using assms
proof (induction n t arbitrary: t' pid rule: pid_scan.induct)
  case (1 t)
  then show ?case by (simp add: RV9_PID_NONE_def)
next
  case (2 n t)
  define t1 where "t1 = t\<lparr>t_next_pid := pid_after (t_next_pid t)\<rparr>"
  have t1: "t_procs t1 = t_procs t" "pids t1 = pids t" "t_next_pid t1 = pid_after (t_next_pid t)"
    by (simp_all add: t1_def pids_def)
  show ?case
  proof (cases "t_next_pid t \<noteq> 0 \<and> t_next_pid t \<notin> pids t")
    case True
    then have "t' = t1" "pid = t_next_pid t"
      using 2(2) t1 by (auto simp: t1_def [symmetric] find_locked_None RV9_PID_NONE_def Let_def)
    then show ?thesis using True t1 by (auto simp: pid_at_def intro!: exI [of _ 0])
  next
    case False
    then have s: "pid_scan n t1 = (t', pid)"
      using 2(2) t1 by (auto simp: t1_def [symmetric] find_locked_None RV9_PID_NONE_def Let_def split: if_splits)
    have "\<not> (t_next_pid t \<noteq> RV9_PID_NONE \<and> find_locked (t_next_pid t) t1 = None)"
      using False t1 by (simp add: find_locked_None RV9_PID_NONE_def)
    note IH = 2(1) [OF refl t1_def this s]
    have all: "P (pid_at (t_next_pid t) k)"
      if "P (t_next_pid t)" "\<forall>j<n. P (pid_at (t_next_pid t1) j)" "k < Suc n" for P k
      using that by (cases k) (simp_all add: pid_at_Suc t1, simp add: pid_at_def)
    show ?thesis
      using IH False all [of "\<lambda>x. x = 0 \<or> x \<in> pids t"] t1
      by (auto simp: pid_at_Suc [symmetric])
  qed
qed

text \<open>C13: the pid handed to a new process is never 0, is in 1..65535 and names no process in
  the table, running or remembered; 0 ("none") comes back only when all 65535 are taken. The
  search leaves the table itself alone.\<close>

theorem next_pid_fresh:
  assumes "1 \<le> t_next_pid t" "t_next_pid t \<le> 65535" "next_pid_locked t = (t', pid)"
  shows "t_procs t' = t_procs t \<and>
    (if pid = 0 then {1..65535} \<subseteq> pids t else 1 \<le> pid \<and> pid \<le> 65535 \<and> pid \<notin> pids t)"
proof -
  have r: "pid_scan 65536 t = (t', pid)" using assms(3) by (simp add: next_pid_locked_def)
  note R = pid_scan_result [OF r]
  have at: "pid_at (t_next_pid t) k = (t_next_pid t - 1 + k) mod 65535 + 1" for k
    by (rule pid_at_closed [OF assms(1,2)])
  show ?thesis
  proof (cases "pid = 0")
    case False
    then obtain k where "pid = pid_at (t_next_pid t) k" using R by auto
    then have "1 \<le> pid \<and> pid \<le> 65535" using mod_less_divisor [of 65535 "t_next_pid t - 1 + k"]
      by (simp add: at Suc_le_eq)
    then show ?thesis using R False by simp
  next
    case True
    have "x \<in> pids t" if x: "x \<in> {1..65535}" for x
    proof -
      define k where "k = (if t_next_pid t \<le> x then x - t_next_pid t else x + 65535 - t_next_pid t)"
      have k: "k < 65536" using x assms(1,2) by (auto simp: k_def)
      have "pid_at (t_next_pid t) k = x"
      proof (cases "t_next_pid t \<le> x")
        case True
        then have "t_next_pid t - 1 + k = x - 1" "x - 1 < 65535" using assms(1) x by (auto simp: k_def)
        then show ?thesis using x by (simp add: at)
      next
        case False
        then have "t_next_pid t - 1 + k = (x - 1) + 65535" "x - 1 < 65535"
          using assms(1,2) x by (auto simp: k_def)
        then have "(t_next_pid t - 1 + k) mod 65535 = x - 1" by (metis mod_add_self2 mod_less)
        then show ?thesis using x by (simp add: at)
      qed
      then show ?thesis using R True k x by auto
    qed
    then show ?thesis using R True by auto
  qed
qed


definition blank_proc :: proc where
  "blank_proc = \<lparr>p_pid = 0, p_parent = 0, p_name = [], p_module = None, p_statics = False, p_task = 0,
     p_realtime = False, p_period = 0, p_wcet = 0, p_deadline = 0, p_on_deadline = 0, p_urgent = False,
     p_bound = 0, p_place = 0, p_stack_bytes = 0, p_base = 0, p_age = 0, p_eff = 0,
     p_state = RV9_PROC_ACTIVE, p_exit_status = 0, p_signals = 0, p_fault = 0, p_collecting = False,
     p_noted = False, p_since = 0, p_refs = 0, p_waited = False, p_ended_seq = 0, p_serial = 0,
     p_footprint = 0, p_held = 0, p_budget = 0, p_ancestors = [], p_ext_footprint = 0,
     p_ext_held = 0, p_ext_budget = 0, p_arena = False, p_arena_size = 0, p_heap_given = 0,
     p_arena_external = False, p_started = 0, p_arg = [], p_chain_to = [], p_chain_pending = False\<rparr>"

definition table_with :: "proc list \<Rightarrow> ptable" where
  "table_with ps = \<lparr>t_procs = ps, t_next_pid = 1, t_ended_seq = 0, t_next_serial = 1, t_aging = True\<rparr>"

lemma next_pid_fresh_witness:
  "snd (next_pid_locked ((table_with [blank_proc\<lparr>p_pid := 65535\<rparr>, blank_proc\<lparr>p_pid := 1\<rparr>])\<lparr>t_next_pid := 65535\<rparr>)) \<notin> {1, 65535}"
proof -
  let ?t = "(table_with [blank_proc\<lparr>p_pid := 65535\<rparr>, blank_proc\<lparr>p_pid := 1\<rparr>])\<lparr>t_next_pid := 65535\<rparr>"
  have "1 \<le> t_next_pid ?t" "t_next_pid ?t \<le> 65535" "pids ?t = {1, 65535}"
    by (auto simp: table_with_def pids_def)
  then show ?thesis
    using next_pid_fresh [of ?t, OF _ _ prod.collapse [symmetric]] by (auto split: if_splits)
qed

section \<open>How long a process is remembered\<close>

lemma prune_kept: "p \<in> set (t_procs t) \<Longrightarrow> \<not> forgettable p \<Longrightarrow> p \<in> set (t_procs (prune_locked t))"
proof (induction t rule: prune_locked.induct)
  case (1 t)
  show ?case
  proof (cases "prune_victim t")
    case None
    then show ?thesis using 1(2) by (simp add: prune_locked.simps [of t])
  next
    case (Some v)
    then have "v \<noteq> p" using prune_victim_mem 1(3) by blast
    then have "p \<in> set (t_procs (t\<lparr>t_procs := remove1 v (t_procs t)\<rparr>))" using 1(2) by simp
    then show ?thesis using 1(1) [OF Some] 1(3) Some by (simp add: prune_locked.simps [of t])
  qed
qed

lemma prune_done: "prune_victim (prune_locked t) = None"
proof (induction t rule: prune_locked.induct)
  case (1 t)
  then show ?case by (cases "prune_victim t") (simp_all add: prune_locked.simps [of t])
qed

lemma prune_subset: "set (t_procs (prune_locked t)) \<subseteq> set (t_procs t)"
proof (induction t rule: prune_locked.induct)
  case (1 t)
  show ?case
  proof (cases "prune_victim t")
    case None
    then show ?thesis by (simp add: prune_locked.simps [of t])
  next
    case (Some v)
    then show ?thesis
      using 1 [OF Some] set_remove1_subset [of v "t_procs t"] by (auto simp: prune_locked.simps [of t])
  qed
qed

text \<open>Pruning ends, forgets only exited processes nobody holds or is collecting, and leaves
  at most 32 exited ones unless every exited one that is left is held or being collected; if
  more than 16 are left, nobody still to be forgotten has been waited for and the parent of
  each can still ask.\<close>

theorem prune_bounds_history:
  "(\<forall>p\<in>set (t_procs t). p \<in> set (t_procs (prune_locked t)) \<or> forgettable p) \<and>
   set (t_procs (prune_locked t)) \<subseteq> set (t_procs t) \<and>
   (let t' = prune_locked t; n = length (filter exited (t_procs t')) in
    (n \<le> 32 \<or> (\<forall>p\<in>set (t_procs t'). \<not> forgettable p)) \<and>
    (n \<le> 16 \<or> (\<forall>p\<in>set (t_procs t'). \<not> (forgettable p \<and> (p_waited p \<or> \<not> parent_may_wait_locked t' p)))))"
proof -
  have v: "prune_victim (prune_locked t) = None" by (rule prune_done)
  show ?thesis
    using v prune_kept [of _ t] prune_subset [of t]
    by (auto simp: prune_victim_def oldest_any_def oldest_done_def Let_def PROC_HISTORY_def
        PROC_HISTORY_MAX_def filter_empty_conv split: if_splits)
qed

definition dead :: "nat \<Rightarrow> proc" where
  "dead i = blank_proc\<lparr>p_pid := i, p_state := RV9_PROC_EXITED, p_ended_seq := i, p_waited := True\<rparr>"

lemma prune_bounds_history_witness:
  "length (filter exited (t_procs (prune_locked (table_with (map dead [1..<40]))))) \<le> 16"
proof -
  let ?t = "table_with (map dead [1..<40])"
  have all: "forgettable p \<and> p_waited p" if "p \<in> set (t_procs (prune_locked ?t))" for p
    using that prune_subset [of ?t] by (auto simp: table_with_def dead_def forgettable_def exited_def blank_proc_def)
  show ?thesis
  proof (rule ccontr)
    assume n: "\<not> ?thesis"
    then have "\<forall>p\<in>set (t_procs (prune_locked ?t)). \<not> (forgettable p \<and> (p_waited p \<or> \<not> parent_may_wait_locked (prune_locked ?t) p))"
      using prune_bounds_history [of ?t] by (simp add: Let_def)
    then have "t_procs (prune_locked ?t) = []" using all by (metis list.set_intros(1) neq_Nil_conv)
    then show False using n by simp
  qed
qed


section \<open>Memory balances\<close>

text \<open>What the descendants of the process with serial \<open>a\<close> are charging it: the live ones, and
  the forks in progress, each with the budget it was checked against.\<close>

definition owed :: "nat \<Rightarrow> proc list \<Rightarrow> (charge \<times> nat) list \<Rightarrow> nat" where
  "owed a ps cs = (\<Sum>p\<leftarrow>ps. if a \<in> set (p_ancestors p) then p_footprint p else 0) +
     (\<Sum>c\<leftarrow>cs. if a \<in> set (c_ancestors (fst c)) then c_bytes (fst c) else 0)"

text \<open>Serials in use: given to a process, or to a fork in progress.\<close>

definition known_ancestors :: "nat \<Rightarrow> nat set \<Rightarrow> nat list \<Rightarrow> bool" where
  "known_ancestors n pending as \<longleftrightarrow> distinct as \<and> (\<forall>a\<in>set as. a < n \<and> a \<notin> pending)"

definition pending_serials :: "(charge \<times> nat) list \<Rightarrow> nat set" where
  "pending_serials cs = (c_serial \<circ> fst) ` set cs"

definition serials_ok :: "ptable \<Rightarrow> (charge \<times> nat) list \<Rightarrow> bool" where
  "serials_ok t cs \<longleftrightarrow>
     distinct (map p_serial (t_procs t)) \<and> distinct (map (c_serial \<circ> fst) cs) \<and>
     (\<forall>p\<in>set (t_procs t). p_serial p < t_next_serial t \<and> p_serial p \<notin> pending_serials cs \<and>
        p_serial p \<notin> set (p_ancestors p) \<and>
        known_ancestors (t_next_serial t) (pending_serials cs) (p_ancestors p)) \<and>
     (\<forall>c\<in>set cs. c_serial (fst c) < t_next_serial t \<and>
        known_ancestors (t_next_serial t) (pending_serials cs) (c_ancestors (fst c))) \<and>
     t_next_serial t < W32"

text \<open>A live process holds its own footprint and \<open>n\<close> more, within its budget.\<close>

definition balanced :: "nat \<Rightarrow> proc \<Rightarrow> bool" where
  "balanced n p \<longleftrightarrow> \<not> exited p \<longrightarrow>
     p_held p = p_footprint p + n \<and> p_held p \<le> p_budget p \<and> p_budget p < W32"

definition books :: "ptable \<times> (charge \<times> nat) list \<Rightarrow> bool" where
  "books tc \<longleftrightarrow> (case tc of (t, cs) \<Rightarrow>
     serials_ok t cs \<and> (\<forall>p\<in>set (t_procs t). exited p \<longrightarrow> p_ancestors p = []) \<and>
     (\<forall>c\<in>set cs. c_bytes (fst c) \<le> snd c \<and> snd c < W32) \<and>
     (\<forall>p\<in>set (t_procs t). balanced (owed (p_serial p) (t_procs t) cs) p))"

text \<open>A fork charges; then its process enters the table, or the charge is refused. Processes
  end, and are forgotten.\<close>

datatype book_op = BCharge nat nat nat nat nat | BEnter proc | BRefuse | BEnd nat | BPrune

definition enter_proc :: "charge \<Rightarrow> nat \<Rightarrow> proc \<Rightarrow> proc" where
  "enter_proc c budget p =
     p\<lparr>p_state := RV9_PROC_ACTIVE, p_serial := c_serial c, p_footprint := c_bytes c, p_held := c_bytes c,
       p_budget := budget, p_ancestors := c_ancestors c\<rparr>"

fun book_step :: "ptable \<times> (charge \<times> nat) list \<Rightarrow> book_op \<Rightarrow> ptable \<times> (charge \<times> nat) list" where
  "book_step (t, cs) (BCharge self bytes budget ext ext_budget) =
     (if t_next_serial t + 1 < W32 \<and> budget < W32
      then case charge_locked self bytes budget ext ext_budget t of
             (t', Inl w) \<Rightarrow> (t', cs)
           | (t', Inr c) \<Rightarrow> (t', (c, budget) # cs)
      else (t, cs))"
| "book_step (t, cs) (BEnter p) =
     (case cs of [] \<Rightarrow> (t, cs)
      | (c, b) # cs' \<Rightarrow> (t\<lparr>t_procs := enter_proc c b p # t_procs t\<rparr>, cs'))"
| "book_step (t, cs) BRefuse =
     (case cs of [] \<Rightarrow> (t, cs) | (c, b) # cs' \<Rightarrow> (refuse_charge c t, cs'))"
| "book_step (t, cs) (BEnd pid) = (ended_locked pid t, cs)"
| "book_step (t, cs) BPrune = (prune_locked t, cs)"

lemma upd_first_map:
  "distinct (map k xs) \<Longrightarrow> upd_first (\<lambda>x. k x = a) f xs = map (\<lambda>x. if k x = a then f x else x) xs"
proof (induction xs)
  case (Cons x xs)
  then have "k x = a \<Longrightarrow> \<forall>y\<in>set xs. k y \<noteq> a" by (metis (no_types, lifting) distinct.simps(2) imageI list.simps(9) list.set_map)
  then show ?case using Cons by (auto simp: map_idI)
qed simp

definition add_held :: "nat \<Rightarrow> nat \<Rightarrow> proc \<Rightarrow> proc" where
  "add_held b e q = q\<lparr>p_held := cast32 (p_held q + b), p_ext_held := cast32 (p_ext_held q + e)\<rparr>"

definition sub_held :: "nat \<Rightarrow> nat \<Rightarrow> proc \<Rightarrow> proc" where
  "sub_held b e q = q\<lparr>p_held := p_held q - b, p_ext_held := p_ext_held q - e\<rparr>"

lemma held_frame [simp]:
  "p_serial (add_held b e q) = p_serial q" "p_serial (sub_held b e q) = p_serial q"
  "p_ancestors (add_held b e q) = p_ancestors q" "p_ancestors (sub_held b e q) = p_ancestors q"
  "p_footprint (add_held b e q) = p_footprint q" "p_footprint (sub_held b e q) = p_footprint q"
  "p_budget (add_held b e q) = p_budget q" "p_budget (sub_held b e q) = p_budget q"
  "p_pid (add_held b e q) = p_pid q" "p_pid (sub_held b e q) = p_pid q"
  "p_state (add_held b e q) = p_state q" "p_state (sub_held b e q) = p_state q"
  "exited (add_held b e q) = exited q" "exited (sub_held b e q) = exited q"
  "p_held (add_held b e q) = cast32 (p_held q + b)" "p_held (sub_held b e q) = p_held q - b"
  by (simp_all add: add_held_def sub_held_def exited_def)

lemma foldl_first_map:
  assumes "\<And>q. p_serial (f q) = p_serial q" "distinct as" "distinct (map p_serial ps)"
  shows "foldl (\<lambda>ps a. upd_first (\<lambda>q. p_serial q = a) f ps) ps as =
    map (\<lambda>q. if p_serial q \<in> set as then f q else q) ps"
  using assms(2,3)
proof (induction as arbitrary: ps)
  case (Cons a as)
  let ?ps = "map (\<lambda>q. if p_serial q = a then f q else q) ps"
  have s: "map p_serial ?ps = map p_serial ps" by (simp add: assms(1))
  have "foldl (\<lambda>ps a. upd_first (\<lambda>q. p_serial q = a) f ps) ps (a # as) =
      foldl (\<lambda>ps a. upd_first (\<lambda>q. p_serial q = a) f ps) ?ps as"
    by (simp add: upd_first_map [OF Cons.prems(2)])
  also have "\<dots> = map (\<lambda>q. if p_serial q \<in> set as then f q else q) ?ps"
  proof (rule Cons.IH)
    show "distinct as" using Cons.prems(1) by simp
    show "distinct (map p_serial ?ps)" unfolding s by (rule Cons.prems(2))
  qed
  also have "\<dots> = map (\<lambda>q. if p_serial q \<in> set (a # as) then f q else q) ps"
    using Cons.prems(1) by (auto simp: assms(1))
  finally show ?case .
qed simp

lemma charge_map:
  "distinct as \<Longrightarrow> distinct (map p_serial ps) \<Longrightarrow>
   foldl (\<lambda>ps a. charge_one a b e ps) ps as =
   map (\<lambda>q. if p_serial q \<in> set as then add_held b e q else q) ps"
  using foldl_first_map [of "add_held b e" as ps]
  by (simp add: charge_one_def add_held_def [abs_def])

lemma uncharge_map:
  "distinct as \<Longrightarrow> distinct (map p_serial ps) \<Longrightarrow>
   foldl (\<lambda>ps a. uncharge_one a b e ps) ps as =
   map (\<lambda>q. if p_serial q \<in> set as then sub_held b e q else q) ps"
  using foldl_first_map [of "sub_held b e" as ps]
  by (simp add: uncharge_one_def sub_held_def [abs_def])

lemma owed_map:
  assumes "\<And>q. p_ancestors (f q) = p_ancestors q" "\<And>q. p_footprint (f q) = p_footprint q"
  shows "owed a (map f ps) cs = owed a ps cs"
  by (simp add: owed_def o_def assms cong: if_cong)

lemma first_some_None: "first_some f xs = None \<longleftrightarrow> (\<forall>x\<in>set xs. f x = None)"
  by (induction xs) (auto split: option.splits)

lemma find_distinct:
  "distinct (map k xs) \<Longrightarrow> x \<in> set xs \<Longrightarrow> find (\<lambda>y. k y = k x) xs = Some x"
  by (induction xs) auto

lemma over_budget_None:
  assumes "distinct (map p_serial (t_procs t))" "q \<in> set (t_procs t)" "\<not> exited q"
    "over_budget b e t (p_serial q) = None"
  shows "p_held q + b \<le> p_budget q"
  using assms find_distinct [OF assms(1,2)]
  by (auto simp: over_budget_def exited_def split: if_splits)

lemma balanced_add:
  assumes "balanced n q" "s \<in> A \<Longrightarrow> \<not> exited q \<Longrightarrow> p_held q + b \<le> p_budget q"
  shows "balanced (n + (if s \<in> A then b else 0)) (if s \<in> A then add_held b e q else q)"
  using assms by (auto simp: balanced_def)

lemma balanced_sub:
  assumes "balanced n q" "n = m + (if s \<in> A then b else 0)"
  shows "balanced m (if s \<in> A then sub_held b e q else q)"
  using assms by (auto simp: balanced_def)

lemma books_charge:
  assumes "books (t, cs)" "t_next_serial t + 1 < W32" "budget < W32"
    "charge_locked self bytes budget ext ext_budget t = (t', Inr c)"
  shows "books (t', (c, budget) # cs)"
proof -
  define as where "as = charge_ancestors self t"
  have d: "distinct (map p_serial (t_procs t))" using assms(1) by (simp add: books_def serials_ok_def)
  have ok: "bytes \<le> budget" "first_some (over_budget bytes ext t) as = None"
    and c: "c = \<lparr>c_serial = t_next_serial t, c_bytes = bytes, c_ext = ext, c_ancestors = as\<rparr>"
    and t': "t' = t\<lparr>t_procs := foldl (\<lambda>ps a. charge_one a bytes ext ps) (t_procs t) as,
        t_next_serial := cast32 (t_next_serial t + 1)\<rparr>"
    using assms(4) by (auto simp: charge_locked_def as_def [symmetric] Let_def split: if_splits option.splits)
  have as: "known_ancestors (t_next_serial t) (pending_serials cs) as"
  proof -
    have "as = [] \<or> (\<exists>p\<in>set (t_procs t). as = take PROC_ANCESTORS (p_serial p # p_ancestors p))"
      by (auto simp: as_def charge_ancestors_def current_locked_def find_Some_iff split: option.splits if_splits)
    moreover have "known_ancestors (t_next_serial t) (pending_serials cs) (take n (p_serial p # p_ancestors p))"
      if "p \<in> set (t_procs t)" for p n
    proof -
      have "known_ancestors (t_next_serial t) (pending_serials cs) (p_serial p # p_ancestors p)"
        using assms(1) that by (auto simp: books_def serials_ok_def known_ancestors_def)
      then show ?thesis by (auto simp: known_ancestors_def intro: distinct_take dest!: in_set_takeD)
    qed
    ultimately show ?thesis by (auto simp: known_ancestors_def)
  qed
  then have as1: "distinct as" by (simp add: known_ancestors_def)
  have ps: "t_procs t' = map (\<lambda>q. if p_serial q \<in> set as then add_held bytes ext q else q) (t_procs t)"
    using charge_map [OF as1 d] by (simp add: t')
  let ?f = "\<lambda>q. if p_serial q \<in> set as then add_held bytes ext q else q"
  have owed: "owed a (t_procs t') ((c, budget) # cs) =
      owed a (t_procs t) cs + (if a \<in> set as then bytes else 0)" for a
    using owed_map [of ?f a "t_procs t" cs] by (simp add: ps owed_def c)
  have same: "\<exists>q\<in>set (t_procs t). p_serial q = p_serial q' \<and> p_ancestors q = p_ancestors q'"
    if "q' \<in> set (t_procs t')" for q'
    using that by (auto simp: ps)
  have n: "t_next_serial t' = t_next_serial t + 1" using assms(2) by (simp add: t')
  have pend: "pending_serials ((c, budget) # cs) = insert (t_next_serial t) (pending_serials cs)"
    by (simp add: pending_serials_def c)
  have grow: "known_ancestors (t_next_serial t) (pending_serials cs) bs \<Longrightarrow>
      known_ancestors (t_next_serial t') (pending_serials ((c, budget) # cs)) bs" for bs
    by (auto simp: known_ancestors_def n pend)
  have old: "serials_ok t cs" using assms(1) by (simp add: books_def)
  have ser: "serials_ok t' ((c, budget) # cs)"
    unfolding serials_ok_def
  proof (intro conjI ballI)
    show "distinct (map p_serial (t_procs t'))" using d by (simp add: ps o_def if_distrib cong: if_cong)
    have "\<forall>x\<in>set cs. c_serial (fst x) < t_next_serial t" using old by (simp add: serials_ok_def)
    then show "distinct (map (c_serial \<circ> fst) ((c, budget) # cs))"
      using old by (auto simp: serials_ok_def c)
    fix q' assume "q' \<in> set (t_procs t')"
    from same [OF this] obtain q where q: "q \<in> set (t_procs t)" "p_serial q = p_serial q'"
      "p_ancestors q = p_ancestors q'" by blast
    have "p_serial q < t_next_serial t \<and> p_serial q \<notin> pending_serials cs \<and>
        p_serial q \<notin> set (p_ancestors q) \<and>
        known_ancestors (t_next_serial t) (pending_serials cs) (p_ancestors q)"
      using old q(1) by (simp add: serials_ok_def)
    then show "p_serial q' < t_next_serial t'" "p_serial q' \<notin> pending_serials ((c, budget) # cs)"
      "p_serial q' \<notin> set (p_ancestors q')"
      "known_ancestors (t_next_serial t') (pending_serials ((c, budget) # cs)) (p_ancestors q')"
      using q grow by (auto simp: n pend)
  next
    fix x assume x: "x \<in> set ((c, budget) # cs)"
    then show "c_serial (fst x) < t_next_serial t'"
      using old by (auto simp: serials_ok_def n c)
    have "known_ancestors (t_next_serial t) (pending_serials cs) (c_ancestors (fst x))"
      using x old as by (auto simp: serials_ok_def c)
    then show "known_ancestors (t_next_serial t') (pending_serials ((c, budget) # cs)) (c_ancestors (fst x))"
      by (rule grow)
  next
    show "t_next_serial t' < W32" using assms(2) n by simp
  qed
  moreover have "balanced (owed (p_serial q') (t_procs t') ((c, budget) # cs)) q'"
    if q': "q' \<in> set (t_procs t')" for q'
  proof -
    obtain q where q: "q \<in> set (t_procs t)" "q' = ?f q" using q' by (auto simp: ps)
    have b: "balanced (owed (p_serial q) (t_procs t) cs) q" using assms(1) q(1) by (simp add: books_def)
    have "p_serial q \<in> set as \<Longrightarrow> \<not> exited q \<Longrightarrow> p_held q + bytes \<le> p_budget q"
      using ok(2) over_budget_None [OF d q(1), of bytes ext] by (simp add: first_some_None)
    then have "balanced (owed (p_serial q) (t_procs t) cs + (if p_serial q \<in> set as then bytes else 0)) (?f q)"
      by (intro balanced_add b)
    then show ?thesis using q(2) by (auto simp: owed split: if_splits)
  qed
  moreover have "\<forall>q'\<in>set (t_procs t'). exited q' \<longrightarrow> p_ancestors q' = []"
    using assms(1) by (auto simp: ps books_def split: if_splits)
  moreover have "\<forall>x\<in>set ((c, budget) # cs). c_bytes (fst x) \<le> snd x \<and> snd x < W32"
    using assms(1,3) ok(1) by (simp add: books_def c)
  ultimately show ?thesis by (simp add: books_def)
qed

text \<open>Taking a fork in progress off the list, into the table or away.\<close>

lemma serials_ok_tail:
  assumes "serials_ok t (x # cs)"
  shows "serials_ok t cs"
proof -
  have "pending_serials cs \<subseteq> pending_serials (x # cs)" by (auto simp: pending_serials_def)
  then have "known_ancestors n (pending_serials (x # cs)) as \<Longrightarrow> known_ancestors n (pending_serials cs) as" for n as
    by (auto simp: known_ancestors_def)
  then show ?thesis using assms \<open>pending_serials cs \<subseteq> _\<close> unfolding serials_ok_def by auto
qed

lemma owed_unknown:
  assumes "\<forall>p\<in>set ps. a \<notin> set (p_ancestors p)" "\<forall>c\<in>set cs. a \<notin> set (c_ancestors (fst c))"
  shows "owed a ps cs = 0"
  using assms by (simp add: owed_def sum_list_eq_0_iff)

lemma books_enter:
  assumes "books (t, (c, b) # cs)"
  shows "books (t\<lparr>t_procs := enter_proc c b p # t_procs t\<rparr>, cs)"
proof -
  let ?p = "enter_proc c b p"
  have old: "serials_ok t ((c, b) # cs)" using assms by (simp add: books_def)
  have fresh: "c_serial c \<notin> set (p_ancestors q)" if "q \<in> set (t_procs t)" for q
    using old that by (auto simp: serials_ok_def known_ancestors_def pending_serials_def)
  have fresh': "c_serial c \<notin> set (c_ancestors (fst x))" if "x \<in> set ((c, b) # cs)" for x
    using old that unfolding serials_ok_def known_ancestors_def pending_serials_def by auto
  have new: "c_serial c \<notin> p_serial ` set (t_procs t)" "c_serial c \<notin> pending_serials cs"
    using old by (auto simp: serials_ok_def pending_serials_def)
  have "serials_ok (t\<lparr>t_procs := ?p # t_procs t\<rparr>) cs"
    using serials_ok_tail [OF old] old new fresh'
    by (auto simp: serials_ok_def enter_proc_def known_ancestors_def pending_serials_def)
  moreover have ow: "owed a (?p # t_procs t) cs = owed a (t_procs t) ((c, b) # cs)" for a
    by (simp add: owed_def enter_proc_def)
  moreover have "owed (c_serial c) (t_procs t) ((c, b) # cs) = 0"
    using owed_unknown fresh fresh' by simp
  moreover have "\<forall>q\<in>set (t_procs t). balanced (owed (p_serial q) (?p # t_procs t) cs) q"
    using assms by (simp add: books_def ow)
  moreover have "\<forall>q\<in>set (t_procs t). exited q \<longrightarrow> p_ancestors q = []" "c_bytes c \<le> b" "b < W32"
    "\<forall>x\<in>set cs. c_bytes (fst x) \<le> snd x \<and> snd x < W32"
    using assms by (simp_all add: books_def)
  moreover from this have "balanced 0 ?p" by (simp add: balanced_def enter_proc_def)
  moreover have "p_serial ?p = c_serial c" "\<not> exited ?p" by (simp_all add: enter_proc_def exited_def)
  ultimately show ?thesis by (simp add: books_def)
qed

lemma serials_ok_map:
  assumes "serials_ok t cs" "t_procs t' = map f (t_procs t)" "t_next_serial t' = t_next_serial t"
    "\<And>q. p_serial (f q) = p_serial q" "\<And>q. p_ancestors (f q) = p_ancestors q \<or> p_ancestors (f q) = []"
  shows "serials_ok t' cs"
proof -
  have "map p_serial (t_procs t') = map p_serial (t_procs t)" by (simp add: assms)
  moreover have "p_serial q' < t_next_serial t \<and> p_serial q' \<notin> pending_serials cs \<and>
        p_serial q' \<notin> set (p_ancestors q') \<and>
        known_ancestors (t_next_serial t) (pending_serials cs) (p_ancestors q')"
    if "q' \<in> set (t_procs t')" for q'
  proof -
    obtain q where "q \<in> set (t_procs t)" "q' = f q" using \<open>q' \<in> _\<close> by (auto simp: assms(2))
    then show ?thesis using assms(1,4) assms(5) [of q] by (auto simp: serials_ok_def known_ancestors_def)
  qed
  ultimately show ?thesis using assms(1,3) unfolding serials_ok_def by simp
qed

lemma books_refuse:
  assumes "books (t, (c, b) # cs)"
  shows "books (refuse_charge c t, cs)"
proof -
  let ?f = "\<lambda>q. if p_serial q \<in> set (c_ancestors c) then sub_held (c_bytes c) (c_ext c) q else q"
  have old: "serials_ok t ((c, b) # cs)" using assms by (simp add: books_def)
  then have d: "distinct (c_ancestors c)" "distinct (map p_serial (t_procs t))"
    by (auto simp: serials_ok_def known_ancestors_def)
  have t': "refuse_charge c t = t\<lparr>t_procs := map ?f (t_procs t)\<rparr>"
    using uncharge_map [OF d] by (simp add: refuse_charge_def uncharge_locked_def)
  have ow: "owed a (map ?f (t_procs t)) cs = owed a (t_procs t) cs" for a
    by (rule owed_map) simp_all
  have "serials_ok (refuse_charge c t) cs"
    by (rule serials_ok_map [OF serials_ok_tail [OF old], of _ ?f]) (simp_all add: t')
  moreover have "balanced (owed (p_serial q') (map ?f (t_procs t)) cs) q'" if q': "q' \<in> set (map ?f (t_procs t))" for q'
  proof -
    obtain q where q: "q \<in> set (t_procs t)" "q' = ?f q" using q' by auto
    have "balanced (owed (p_serial q) (t_procs t) ((c, b) # cs)) q" using assms q(1) by (simp add: books_def)
    then have "balanced (owed (p_serial q) (t_procs t) cs) (?f q)"
      by (rule balanced_sub) (simp add: owed_def)
    then show ?thesis using q(2) by (auto simp: ow split: if_splits)
  qed
  moreover have "\<forall>q'\<in>set (map ?f (t_procs t)). exited q' \<longrightarrow> p_ancestors q' = []"
    using assms by (auto simp: books_def)
  moreover have "\<forall>x\<in>set cs. c_bytes (fst x) \<le> snd x \<and> snd x < W32"
    using assms by (simp add: books_def)
  ultimately show ?thesis by (simp add: books_def t')
qed

lemma find_skip: "\<forall>y\<in>set ys. \<not> P y \<Longrightarrow> P x \<Longrightarrow> find P (ys @ x # zs) = Some x"
  by (induction ys) auto

lemma find_split:
  "find P xs = Some x \<Longrightarrow> \<exists>ys zs. xs = ys @ x # zs \<and> P x \<and> (\<forall>y\<in>set ys. \<not> P y)"
proof (induction xs)
  case (Cons a xs)
  show ?case
  proof (cases "P a")
    case True
    then show ?thesis using Cons.prems by (intro exI [of _ "[]"] exI [of _ xs]) simp
  next
    case False
    then obtain ys zs where "xs = ys @ x # zs" "P x" "\<forall>y\<in>set ys. \<not> P y" using Cons by auto
    then show ?thesis using False by (intro exI [of _ "a # ys"] exI [of _ zs]) simp
  qed
qed simp

lemma upd_first_split:
  "\<forall>y\<in>set ys. \<not> P y \<Longrightarrow> P x \<Longrightarrow> upd_first P f (ys @ x # zs) = ys @ f x # zs"
  by (induction ys) auto

text \<open>What ending the process in the middle does to the table, in one step.\<close>

lemma ended_locked_split:
  assumes "t_procs t = ys @ p # zs" "p_pid p = pid" "\<forall>y\<in>set ys. p_pid y \<noteq> pid"
    "distinct (map p_serial (t_procs t))" "distinct (p_ancestors p)" "p_serial p \<notin> set (p_ancestors p)"
  defines "f \<equiv> \<lambda>q. if p_serial q \<in> set (p_ancestors p) then sub_held (p_footprint p) (p_ext_footprint p) q else q"
  shows "\<exists>n. ended_locked pid t = t\<lparr>t_ended_seq := n,
    t_procs := map f ys @ p\<lparr>p_state := RV9_PROC_EXITED, p_ended_seq := n, p_ancestors := [], p_held := 0,
      p_ext_held := 0\<rparr> # map f zs\<rparr>"
proof -
  define n where "n = cast32 (t_ended_seq t + 1)"
  define p1 where "p1 = p\<lparr>p_state := RV9_PROC_EXITED, p_ended_seq := n\<rparr>"
  have fnd: "find_locked pid t = Some p"
    using assms(1-3) by (simp add: find_locked_def find_skip)
  have 1: "t_procs (upd_proc pid (\<lambda>p. p\<lparr>p_state := RV9_PROC_EXITED, p_ended_seq := n\<rparr>) t) = ys @ p1 # zs"
    using assms(1-3) by (simp add: upd_proc_def upd_first_split p1_def)
  have ser: "distinct (map p_serial (ys @ p1 # zs))" using assms(1,4) by (simp add: p1_def)
  have 2: "foldl (\<lambda>ps a. uncharge_one a (p_footprint p) (p_ext_footprint p) ps) (ys @ p1 # zs) (p_ancestors p) =
      map f ys @ p1 # map f zs"
    using uncharge_map [OF assms(5) ser] assms(6) by (simp add: f_def p1_def)
  have pid: "p_pid (f q) = p_pid q" for q by (simp add: f_def)
  have 3: "upd_first (\<lambda>q. p_pid q = pid) (\<lambda>p. p\<lparr>p_ancestors := [], p_held := 0, p_ext_held := 0\<rparr>)
      (map f ys @ p1 # map f zs) =
      map f ys @ p1\<lparr>p_ancestors := [], p_held := 0, p_ext_held := 0\<rparr> # map f zs"
    using assms(2,3) by (intro upd_first_split) (simp_all add: pid p1_def)
  have "ended_locked pid t = t\<lparr>t_ended_seq := n,
    t_procs := map f ys @ p1\<lparr>p_ancestors := [], p_held := 0, p_ext_held := 0\<rparr> # map f zs\<rparr>"
    using 1 2 3 by (simp add: ended_locked_def fnd Let_def uncharge_locked_def upd_proc_def n_def)
  then show ?thesis by (intro exI [of _ n]) (simp add: p1_def)
qed

text \<open>A process that owes nothing more, wherever it stands.\<close>

lemma owed_split:
  "owed a (ys @ p # zs) cs = owed a (ys @ zs) cs + (if a \<in> set (p_ancestors p) then p_footprint p else 0)"
  by (simp add: owed_def)

lemma serials_ok_drop:
  assumes "serials_ok t cs" "t_procs t = ys @ p # zs" "t_procs t' = ys @ zs" "t_next_serial t' = t_next_serial t"
  shows "serials_ok t' cs"
  using assms by (auto simp: serials_ok_def)

lemma books_end:
  assumes "books (t, cs)"
  shows "books (ended_locked pid t, cs)"
proof (cases "find_locked pid t")
  case None
  then show ?thesis using assms by (simp add: ended_locked_def)
next
  case (Some p)
  then obtain ys zs where sp: "t_procs t = ys @ p # zs" "p_pid p = pid" "\<forall>y\<in>set ys. p_pid y \<noteq> pid"
    using find_split [of "\<lambda>q. p_pid q = pid" "t_procs t" p] by (auto simp: find_locked_def)
  define as where "as = p_ancestors p"
  define f where "f = (\<lambda>q. if p_serial q \<in> set as then sub_held (p_footprint p) (p_ext_footprint p) q else q)"
  have old: "serials_ok t cs" using assms by (simp add: books_def)
  then have d: "distinct (map p_serial (t_procs t))" "distinct as" "p_serial p \<notin> set as"
    by (auto simp: serials_ok_def known_ancestors_def sp as_def)
  obtain n where e: "ended_locked pid t = t\<lparr>t_ended_seq := n,
    t_procs := map f ys @ p\<lparr>p_state := RV9_PROC_EXITED, p_ended_seq := n, p_ancestors := [], p_held := 0,
      p_ext_held := 0\<rparr> # map f zs\<rparr>" (is "_ = t\<lparr>t_ended_seq := n, t_procs := map f ys @ ?p # map f zs\<rparr>")
    using ended_locked_split [OF sp d(1)] d(2,3) unfolding f_def as_def by blast
  define g where "g q = (if q = p then ?p else f q)" for q
  have frame: "p_serial (f q) = p_serial q" "p_ancestors (f q) = p_ancestors q"
    "p_footprint (f q) = p_footprint q" "exited (f q) = exited q" for q
    by (simp_all add: f_def)
  have "p \<notin> set ys" "p \<notin> set zs" using d(1) by (auto simp: sp)
  then have "t_procs (ended_locked pid t) = map g (t_procs t)"
    by (auto simp: e sp g_def)
  then have "serials_ok (ended_locked pid t) cs"
    by (rule serials_ok_map [OF old]) (auto simp: e g_def frame)
  moreover have ow: "owed a (map f ys @ ?p # map f zs) cs = owed a (ys @ zs) cs" for a
    using owed_map [of f a "ys @ zs" cs] frame by (simp add: owed_def)
  moreover have "balanced (owed (p_serial q) (ys @ zs) cs) (f q)" if "q \<in> set ys \<union> set zs" for q
    unfolding f_def
  proof (rule balanced_sub)
    show "balanced (owed (p_serial q) (t_procs t) cs) q" using assms that by (auto simp: books_def sp)
    show "owed (p_serial q) (t_procs t) cs =
        owed (p_serial q) (ys @ zs) cs + (if p_serial q \<in> set as then p_footprint p else 0)"
      by (simp add: sp owed_split as_def)
  qed
  moreover have "balanced m ?p" for m by (simp add: balanced_def exited_def)
  moreover have "\<forall>q\<in>set ys \<union> set zs. exited q \<longrightarrow> p_ancestors q = []"
    "\<forall>x\<in>set cs. c_bytes (fst x) \<le> snd x \<and> snd x < W32"
    using assms by (auto simp: books_def sp)
  ultimately show ?thesis by (auto simp: books_def e frame)
qed

lemma books_prune: "books (t, cs) \<Longrightarrow> books (prune_locked t, cs)"
proof (induction t rule: prune_locked.induct)
  case (1 t)
  show ?case
  proof (cases "prune_victim t")
    case None
    then show ?thesis using 1 by (simp add: prune_locked.simps [of t])
  next
    case (Some v)
    then have v: "v \<in> set (t_procs t)" "exited v" using prune_victim_mem by (auto simp: forgettable_def)
    then obtain ys zs where sp: "t_procs t = ys @ v # zs" "v \<notin> set ys" by (meson split_list_first)
    have rm: "remove1 v (t_procs t) = ys @ zs" using sp by (simp add: remove1_append)
    have "p_ancestors v = []" using 1(2) v by (simp add: books_def)
    then have ow: "owed a (t_procs t) cs = owed a (ys @ zs) cs" for a by (simp add: sp owed_split)
    have "serials_ok (t\<lparr>t_procs := ys @ zs\<rparr>) cs"
      using 1(2) serials_ok_drop [OF _ sp(1)] by (simp add: books_def)
    then have "books (t\<lparr>t_procs := ys @ zs\<rparr>, cs)"
      using 1(2) unfolding books_def by (simp add: ow) (simp add: sp)
    then show ?thesis using 1(1) [OF Some] Some rm by (simp add: prune_locked.simps [of t])
  qed
qed

lemma books_step: "books tc \<Longrightarrow> books (book_step tc x)"
proof (cases tc)
  case (Pair t cs)
  assume b: "books tc"
  show ?thesis
  proof (cases x)
    case (BCharge self bytes budget ext ext_budget)
    then show ?thesis using b books_charge [of t cs budget self bytes ext ext_budget] Pair
      by (auto simp: charge_locked_def Let_def split: option.splits if_splits)
  qed (use b Pair books_enter books_refuse books_end books_prune in \<open>auto split: list.splits\<close>)
qed

interpretation book_run: step_invariant book_step books
  by unfold_locales (rule books_step)

text \<open>C14. However forks, refused forks, endings and the forgetting of the dead interleave, every
  live process holds exactly its own footprint and what its live descendants and the forks in
  progress below it were charged, and never more than its budget: nothing leaks and nothing is
  given back twice. The bounds are the 32-bit counters the code keeps.\<close>

theorem memory_balances:
  assumes "books (t, cs)" "foldl book_step (t, cs) ops = (t', cs')"
    and "p \<in> set (t_procs t')" "p_state p \<noteq> RV9_PROC_EXITED"
  shows "p_held p = p_footprint p + owed (p_serial p) (t_procs t') cs' \<and> p_held p \<le> p_budget p"
proof -
  have "books (t', cs')" using book_run.run_inv [OF assms(1), of ops] assms(2) by simp
  then have "balanced (owed (p_serial p) (t_procs t') cs') p" using assms(3) by (simp add: books_def)
  then show ?thesis using assms(4) unfolding balanced_def exited_def by blast
qed

text \<open>A parent of 1000 bytes forks a child of 300, and starts forking another of 200.\<close>

definition fork_ops :: "book_op list" where
  "fork_ops = [BCharge 7 1000 4096 0 0, BEnter (blank_proc\<lparr>p_pid := 1, p_task := 8\<rparr>),
     BCharge 8 300 4096 0 0, BEnter (blank_proc\<lparr>p_pid := 2, p_task := 9\<rparr>), BCharge 8 200 4096 0 0]"

lemma memory_balances_witness:
  "\<exists>t' cs' p. foldl book_step (table_with [], []) fork_ops = (t', cs') \<and> p \<in> set (t_procs t') \<and>
     p_pid p = 1 \<and> p_held p = 1500 \<and> p_held p = p_footprint p + owed (p_serial p) (t_procs t') cs'"
proof -
  let ?r = "foldl book_step (table_with [], []) fork_ops"
  have b: "books (table_with [], [])" by (simp add: books_def serials_ok_def table_with_def pending_serials_def)
  define p where "p = last (t_procs (fst ?r))"
  have "p \<in> set (t_procs (fst ?r)) \<and> p_state p \<noteq> RV9_PROC_EXITED \<and> p_pid p = 1 \<and> p_held p = 1500"
    by (simp add: p_def fork_ops_def table_with_def charge_locked_def charge_ancestors_def current_locked_def
        enter_proc_def blank_proc_def charge_one_def over_budget_def PROC_ANCESTORS_def Let_def)
  then show ?thesis
    using memory_balances [OF b, of fork_ops "fst ?r" "snd ?r" p] by (metis prod.collapse)
qed

end
