(* ===== verification/Manifest.thy ===== *)
theory Manifest
  imports Prelude
begin

text \<open>
  Module images, components/rv9_module: the checksum of src/crc32.c, the header of
  include/rv9/module.h, and the manifest walker, its lookups and the verification of
  src/module.c. An image is the list of its bytes; a pointer into it is an offset, NULL is
  None. Offsets and lengths are the unsigned 32-bit values of the code, sums wrapping where
  it lets them.
\<close>

type_synonym image = "8 word list"

section \<open>Checksum\<close>

definition crc_bit :: "u32 \<Rightarrow> u32" where
  "crc_bit crc = drop_bit 1 crc XOR (0xEDB88320 AND - (crc AND 1))"

fun crc_bits :: "nat \<Rightarrow> u32 \<Rightarrow> u32" where
  "crc_bits 0 crc = crc"
| "crc_bits (Suc i) crc = crc_bits i (crc_bit crc)"

definition crc_byte :: "u32 \<Rightarrow> 8 word \<Rightarrow> u32" where
  "crc_byte crc b = crc_bits 8 (crc XOR ucast b)"

definition rv9_crc32 :: "u32 \<Rightarrow> image \<Rightarrow> u32" where
  "rv9_crc32 crc data = NOT (foldl crc_byte (NOT crc) data)"

section \<open>The header\<close>

definition RV9_MODULE_MAGIC :: nat where "RV9_MODULE_MAGIC = 0x4D395652"
definition RV9_MODULE_ABI :: nat where "RV9_MODULE_ABI = 15"
definition RV9_MODULE_HDR_LEN :: nat where "RV9_MODULE_HDR_LEN = 40"

definition byte_at :: "image \<Rightarrow> nat \<Rightarrow> nat" where
  "byte_at img i = (if i < length img then unat (img ! i) else 0)"

definition le16 :: "image \<Rightarrow> nat \<Rightarrow> nat" where
  "le16 img i = byte_at img i + 256 * byte_at img (i + 1)"

definition le32 :: "image \<Rightarrow> nat \<Rightarrow> nat" where
  "le32 img i = le16 img i + 65536 * le16 img (i + 2)"

record mod_header =
  h_magic :: nat
  h_header_len :: nat
  h_abi_version :: nat
  h_module_len :: nat
  h_name_offset :: nat
  h_entry_offset :: nat
  h_static_size :: nat
  h_stack_size :: nat
  h_type :: nat
  h_attr :: nat
  h_revision :: nat
  h_crc32 :: nat
  h_manifest_offset :: nat

definition header_of :: "image \<Rightarrow> mod_header" where
  "header_of img = \<lparr>h_magic = le32 img 0, h_header_len = le16 img 4, h_abi_version = le16 img 6,
     h_module_len = le32 img 8, h_name_offset = le32 img 12, h_entry_offset = le32 img 16,
     h_static_size = le32 img 20, h_stack_size = le32 img 24, h_type = byte_at img 28,
     h_attr = byte_at img 29, h_revision = byte_at img 30, h_crc32 = le32 img 32,
     h_manifest_offset = le32 img 36\<rparr>"

datatype mod_err =
    RV9_MOD_OK | RV9_MOD_ERR_NOTFOUND | RV9_MOD_ERR_BADMAGIC | RV9_MOD_ERR_BADCRC
  | RV9_MOD_ERR_BADABI | RV9_MOD_ERR_NOMEM | RV9_MOD_ERR_IO | RV9_MOD_ERR_INVAL
  | RV9_MOD_ERR_CONTRACT

section \<open>The manifest\<close>

definition tag_number :: "nat \<Rightarrow> nat" where
  "tag_number t = t mod 0x8000"

definition tag_mandatory :: "nat \<Rightarrow> bool" where
  "tag_mandatory t \<longleftrightarrow> t mod 0x10000 \<ge> 0x8000"

definition RV9_MTAG_END :: nat where "RV9_MTAG_END = 0"
definition RV9_MTAG_HEAP_MAX :: nat where "RV9_MTAG_HEAP_MAX = 4"
definition RV9_MTAG_CLASS :: nat where "RV9_MTAG_CLASS = 5"
definition RV9_MTAG_DEADLINE_US :: nat where "RV9_MTAG_DEADLINE_US = 7"
definition RV9_MTAG_WCET_US :: nat where "RV9_MTAG_WCET_US = 9"
definition RV9_MTAG_PLACEMENT :: nat where "RV9_MTAG_PLACEMENT = 20"
definition RV9_MTAG_MAX :: nat where "RV9_MTAG_MAX = 22"

definition tlv_next :: "nat \<Rightarrow> nat" where
  "tlv_next e = cast32 (e + (4 - e mod 4) mod 4)"

lemma next_down: "\<not> tlv_next e \<le> off \<Longrightarrow> W32 - tlv_next e < W32 - off"
  using cast32_less [of "e + (4 - e mod 4) mod 4"] unfolding tlv_next_def by linarith

function walk_from :: "(nat \<Rightarrow> nat \<Rightarrow> nat \<Rightarrow> 'c \<Rightarrow> bool \<times> 'c) \<Rightarrow> image \<Rightarrow> nat \<Rightarrow> 'c \<Rightarrow> 'c" where
  "walk_from fn img off ctx =
     (let mlen = h_module_len (header_of img); v = cast32 (off + 4) in
      if v > mlen then ctx else
      let tag = le16 img off; len = le16 img (off + 2) in
      if tag_number tag = RV9_MTAG_END then ctx
      else if cast32 (v + len) > mlen then ctx
      else
        let r = fn tag v len ctx in
        if \<not> fst r then snd r else
        let nx = tlv_next (cast32 (v + len)) in
        if nx \<le> off then snd r else walk_from fn img nx (snd r))"
  by pat_completeness auto
termination
proof (relation "measure (\<lambda>(fn, img, off, ctx). W32 - off)", goal_cases)
  case (2 fn img off ctx mlen v tag len r nx)
  from 2(11) have "W32 - nx < W32 - off" unfolding 2(10) by (rule next_down)
  then show ?case by (simp only: in_measure prod.case)
qed (rule wf_measure)

declare walk_from.simps [simp del]

definition manifest_walk ::
  "image option \<Rightarrow> (nat \<Rightarrow> nat \<Rightarrow> nat \<Rightarrow> 'c \<Rightarrow> bool \<times> 'c) \<Rightarrow> 'c \<Rightarrow> 'c" where
  "manifest_walk im fn ctx =
     (case im of
        None \<Rightarrow> ctx
      | Some img \<Rightarrow>
          let h = header_of img; off = h_manifest_offset h in
          if off = 0 then ctx
          else if off < h_header_len h \<or> off \<ge> h_module_len h then ctx
          else walk_from fn img off ctx)"

record find_ctx =
  f_want :: nat
  f_after :: "nat option"
  f_armed :: bool
  f_found :: "nat option"
  f_len :: nat

definition find_visit :: "nat \<Rightarrow> nat \<Rightarrow> nat \<Rightarrow> find_ctx \<Rightarrow> bool \<times> find_ctx" where
  "find_visit tag v len c =
     (if tag_number tag \<noteq> f_want c then (True, c)
      else if \<not> f_armed c then (True, if Some v = f_after c then c\<lparr>f_armed := True\<rparr> else c)
      else (False, c\<lparr>f_found := Some v, f_len := len\<rparr>))"

definition rv9_mod_manifest_find :: "image option \<Rightarrow> nat \<Rightarrow> nat option \<Rightarrow> (nat \<times> nat) option" where
  "rv9_mod_manifest_find im tag after =
     (let c = manifest_walk im find_visit
         \<lparr>f_want = tag_number tag, f_after = after, f_armed = (after = None), f_found = None, f_len = 0\<rparr>
      in map_option (\<lambda>v. (v, f_len c)) (f_found c))"

definition rv9_mod_manifest_u32 :: "image option \<Rightarrow> nat \<Rightarrow> nat option" where
  "rv9_mod_manifest_u32 im tag =
     (case (im, rv9_mod_manifest_find im tag None) of
        (Some img, Some (v, len)) \<Rightarrow> if len \<noteq> 4 then None else Some (le32 img v)
      | _ \<Rightarrow> None)"

definition rv9_mod_manifest_u8 :: "image option \<Rightarrow> nat \<Rightarrow> nat option" where
  "rv9_mod_manifest_u8 im tag =
     (case (im, rv9_mod_manifest_find im tag None) of
        (Some img, Some (v, len)) \<Rightarrow> if len \<noteq> 1 then None else Some (byte_at img v)
      | _ \<Rightarrow> None)"

definition contract_visit :: "nat \<Rightarrow> nat \<Rightarrow> nat \<Rightarrow> nat \<Rightarrow> bool \<times> nat" where
  "contract_visit tag v len offender =
     (if \<not> tag_mandatory tag then (True, offender)
      else if tag_number tag \<le> RV9_MTAG_MAX then (True, offender)
      else (False, tag_number tag))"

definition manifest_check :: "image option \<Rightarrow> mod_err" where
  "manifest_check im =
     (if manifest_walk im contract_visit 0 \<noteq> 0 then RV9_MOD_ERR_CONTRACT else RV9_MOD_OK)"

section \<open>Verification\<close>

definition image_crc :: "image \<Rightarrow> u32" where
  "image_crc img =
     (let crc = rv9_crc32 0 (take 32 img);
          crc = rv9_crc32 crc (replicate 4 0)
      in rv9_crc32 crc (take (h_module_len (header_of img) - 36) (drop 36 img)))"

definition rv9_mod_verify :: "image option \<Rightarrow> nat \<Rightarrow> mod_err" where
  "rv9_mod_verify im avail =
     (case im of
        None \<Rightarrow> RV9_MOD_ERR_INVAL
      | Some img \<Rightarrow>
          if avail < RV9_MODULE_HDR_LEN then RV9_MOD_ERR_INVAL else
          let h = header_of img in
          if h_magic h \<noteq> RV9_MODULE_MAGIC then RV9_MOD_ERR_BADMAGIC
          else if h_header_len h \<noteq> RV9_MODULE_HDR_LEN then RV9_MOD_ERR_INVAL
          else if h_abi_version h > RV9_MODULE_ABI then RV9_MOD_ERR_BADABI
          else if h_module_len h < RV9_MODULE_HDR_LEN then RV9_MOD_ERR_INVAL
          else if h_module_len h > avail then RV9_MOD_ERR_INVAL
          else if h_entry_offset h \<ge> h_module_len h then RV9_MOD_ERR_INVAL
          else if h_name_offset h \<ge> h_module_len h then RV9_MOD_ERR_INVAL
          else if unat (image_crc img) \<noteq> h_crc32 h then RV9_MOD_ERR_BADCRC
          else manifest_check (Some img))"

end
