(* ===== verification/Modules.thy ===== *)
theory Modules
  imports Manifest
begin

text \<open>
  The module directory and loader of components/rv9_module/src/module.c. A directory entry's
  pointer is its index, for entries are only ever appended. An image pointer is its address
  with the bytes there; what the allocator, the flash driver and the mapping answer are
  arguments. Executable
  memory taken is recorded in \<open>m_taken\<close>, memory handed back in \<open>m_freed\<close>.
\<close>

section \<open>State\<close>

definition RV9_MOD_PROGRAM :: nat where "RV9_MOD_PROGRAM = 1"
definition RV9_MCLASS_REALTIME :: nat where "RV9_MCLASS_REALTIME = 3"
definition MANIFEST_SCAN_MAX :: nat where "MANIFEST_SCAN_MAX = 1024"

record mod_entry =
  m_name :: string
  m_type :: nat
  m_revision :: nat
  m_size :: nat
  m_store_offset :: nat
  m_link_count :: nat
  m_image :: "(nat \<times> image) option"
  m_resident :: bool
  m_in_place :: bool
  m_entry :: "nat option"
  m_stack_given :: nat
  m_stack_peak :: nat
  m_stack_runs :: nat

record modsys =
  m_dir :: "mod_entry list"
  m_store :: "image option"
  m_store_map :: nat
  m_xip :: bool
  m_taken :: "nat list"
  m_freed :: "nat list"

definition zero_entry :: mod_entry where
  "zero_entry = \<lparr>m_name = [], m_type = 0, m_revision = 0, m_size = 0, m_store_offset = 0, m_link_count = 0,
     m_image = None, m_resident = False, m_in_place = False, m_entry = None, m_stack_given = 0,
     m_stack_peak = 0, m_stack_runs = 0\<rparr>"

definition upd_entry :: "nat \<Rightarrow> (mod_entry \<Rightarrow> mod_entry) \<Rightarrow> modsys \<Rightarrow> modsys" where
  "upd_entry i f s = s\<lparr>m_dir := (m_dir s)[i := f (m_dir s ! i)]\<rparr>"

text \<open>\<open>strncpy\<close> of a name out of an image into 32 zeroed bytes.\<close>

definition name_at :: "image \<Rightarrow> nat \<Rightarrow> string" where
  "name_at img off = map (\<lambda>b. char_of (unat b)) (takeWhile (\<lambda>b. b \<noteq> 0) (take 31 (drop off img)))"

definition take_exec :: "nat \<Rightarrow> modsys \<Rightarrow> modsys" where
  "take_exec addr s = s\<lparr>m_taken := addr # m_taken s\<rparr>"

definition give_back :: "nat \<Rightarrow> modsys \<Rightarrow> modsys" where
  "give_back addr s = s\<lparr>m_freed := addr # m_freed s\<rparr>"

definition dir_append :: "mod_entry \<Rightarrow> modsys \<Rightarrow> modsys" where
  "dir_append e s = s\<lparr>m_dir := m_dir s @ [e]\<rparr>"

section \<open>Scanning the store\<close>

definition align4 :: "nat \<Rightarrow> nat" where
  "align4 n = cast32 (n + 3) div 4 * 4"

definition store_entry :: "mod_header \<Rightarrow> image \<Rightarrow> nat \<Rightarrow> mod_entry" where
  "store_entry h buf off =
     zero_entry\<lparr>m_name := name_at buf (h_name_offset h), m_type := h_type h, m_revision := h_revision h,
       m_size := h_module_len h, m_store_offset := off\<rparr>"

text \<open>The loop of \<open>rv9_mod_dir_init\<close>: \<open>rd\<close> is \<open>esp_partition_read\<close>, \<open>mem\<close> whether an allocation of
  so many bytes, or of an entry (None), succeeds. The answer is the directory and how many were added.\<close>

partial_function (option) scan_store ::
  "(nat \<Rightarrow> nat \<Rightarrow> image option) \<Rightarrow> (nat option \<Rightarrow> bool) \<Rightarrow> nat \<Rightarrow> nat \<Rightarrow> nat \<Rightarrow> modsys \<Rightarrow> (modsys \<times> nat) option" where
  "scan_store rd mem sz off found s =
     (if cast32 (off + RV9_MODULE_HDR_LEN) > sz then Some (s, found)
      else case rd off RV9_MODULE_HDR_LEN of
        None \<Rightarrow> Some (s, found)
      | Some hb \<Rightarrow>
          let h = header_of hb; len = h_module_len h in
          if h_magic h = UINT32_MAX \<or> h_magic h = 0 then Some (s, found)
          else if h_magic h \<noteq> RV9_MODULE_MAGIC then Some (s, found)
          else if len < RV9_MODULE_HDR_LEN \<or> cast32 (off + len) > sz then Some (s, found)
          else if \<not> mem (Some len) then Some (s, found)
          else case rd off len of
            None \<Rightarrow> scan_store rd mem sz (cast32 (off + align4 len)) found s
          | Some buf \<Rightarrow>
              if rv9_mod_verify (Some buf) len \<noteq> RV9_MOD_OK
              then scan_store rd mem sz (cast32 (off + align4 len)) found s
              else if \<not> mem None then Some (s, found)
              else scan_store rd mem sz (cast32 (off + align4 len)) (found + 1)
                     (dir_append (store_entry h buf off) s))"

text \<open>\<open>locked\<close>: there is a lock or one could be made; \<open>part\<close>: the partition, if there is one; \<open>mapped\<close>: where it was mapped, if it could be.\<close>

definition rv9_mod_dir_init ::
  "(nat \<Rightarrow> nat \<Rightarrow> image option) \<Rightarrow> (nat option \<Rightarrow> bool) \<Rightarrow> bool \<Rightarrow> image option \<Rightarrow> nat option \<Rightarrow> modsys \<Rightarrow> (modsys \<times> nat) option" where
  "rv9_mod_dir_init rd mem locked part mapped s =
     (if \<not> locked then Some (s, 0) else case part of
        None \<Rightarrow> Some (s\<lparr>m_store := None\<rparr>, 0)
      | Some flash \<Rightarrow>
          let s1 = s\<lparr>m_store := Some flash\<rparr>;
              s2 = (case mapped of None \<Rightarrow> s1 | Some a \<Rightarrow> s1\<lparr>m_store_map := a, m_xip := True\<rparr>)
          in scan_store rd mem (length flash) 0 0 s2)"

section \<open>Finding\<close>

definition newer :: "modsys \<Rightarrow> nat \<Rightarrow> nat \<Rightarrow> bool" where
  "newer s i j \<longleftrightarrow> m_revision (m_dir s ! i) > m_revision (m_dir s ! j)"

definition rv9_mod_find :: "string \<Rightarrow> modsys \<Rightarrow> nat option" where
  "rv9_mod_find name s =
     best_of (newer s) None (filter (\<lambda>i. m_name (m_dir s ! i) = name) [0..<length (m_dir s)])"

section \<open>Loading\<close>

text \<open>\<open>addr\<close> answers \<open>rv9_alloc_exec\<close> (0 is NULL), \<open>room\<close> the allocation of the entry.\<close>

definition rv9_mod_register_image :: "nat \<Rightarrow> bool \<Rightarrow> image \<Rightarrow> nat \<Rightarrow> modsys \<Rightarrow> modsys \<times> mod_err" where
  "rv9_mod_register_image addr room img len s =
     (let err = rv9_mod_verify (Some img) len in
      if err \<noteq> RV9_MOD_OK then (s, err)
      else if addr = 0 then (s, RV9_MOD_ERR_NOMEM)
      else if \<not> room then (give_back addr (take_exec addr s), RV9_MOD_ERR_NOMEM)
      else
        let h = header_of img; copy = take (h_module_len h) img in
        (dir_append
           (zero_entry\<lparr>m_name := name_at copy (h_name_offset h), m_type := h_type h, m_revision := h_revision h,
              m_size := h_module_len h, m_image := Some (addr, copy),
              m_entry := Some (addr + h_entry_offset h), m_resident := True\<rparr>) (take_exec addr s), RV9_MOD_OK))"

text \<open>Where a module's bytes lie in the mapped store.\<close>

definition mapped_image :: "modsys \<Rightarrow> mod_entry \<Rightarrow> image" where
  "mapped_image s e = (case m_store s of None \<Rightarrow> [] | Some flash \<Rightarrow> drop (m_store_offset e) flash)"

definition runs_in_place :: "modsys \<Rightarrow> mod_entry \<Rightarrow> bool" where
  "runs_in_place s e \<longleftrightarrow>
     m_xip s \<and>
     rv9_mod_manifest_u8 (Some (mapped_image s e)) RV9_MTAG_CLASS \<noteq> Some RV9_MCLASS_REALTIME \<and>
     rv9_mod_verify (Some (mapped_image s e)) (m_size e) = RV9_MOD_OK"

definition link_set :: "nat \<Rightarrow> image \<Rightarrow> bool \<Rightarrow> mod_entry \<Rightarrow> mod_entry" where
  "link_set addr img in_place e =
     e\<lparr>m_image := Some (addr, img), m_in_place := in_place,
       m_entry := Some (addr + h_entry_offset (header_of img)), m_link_count := 1\<rparr>"

definition rv9_mod_link ::
  "(nat \<Rightarrow> nat \<Rightarrow> image option) \<Rightarrow> nat \<Rightarrow> string option \<Rightarrow> modsys \<Rightarrow> modsys \<times> (mod_err + nat)" where
  "rv9_mod_link rd addr name s =
     (case name of
        None \<Rightarrow> (s, Inl RV9_MOD_ERR_INVAL)
      | Some n \<Rightarrow>
          (case rv9_mod_find n s of
             None \<Rightarrow> (s, Inl RV9_MOD_ERR_NOTFOUND)
           | Some i \<Rightarrow>
               let e = m_dir s ! i in
               if m_image e \<noteq> None
               then (upd_entry i (\<lambda>e. e\<lparr>m_link_count := cast32 (m_link_count e + 1)\<rparr>) s, Inr i)
               else if runs_in_place s e
               then (upd_entry i (link_set (m_store_map s + m_store_offset e) (mapped_image s e) True) s, Inr i)
               else if addr = 0 then (s, Inl RV9_MOD_ERR_NOMEM)
               else
                 (case rd (m_store_offset e) (m_size e) of
                    None \<Rightarrow> (give_back addr (take_exec addr s), Inl RV9_MOD_ERR_IO)
                  | Some img \<Rightarrow>
                      let err = rv9_mod_verify (Some img) (m_size e) in
                      if err \<noteq> RV9_MOD_OK then (give_back addr (take_exec addr s), Inl err)
                      else (upd_entry i (link_set addr img False) (take_exec addr s), Inr i))))"

definition rv9_mod_unlink :: "nat option \<Rightarrow> modsys \<Rightarrow> modsys \<times> mod_err" where
  "rv9_mod_unlink entry s =
     (case entry of
        None \<Rightarrow> (s, RV9_MOD_ERR_INVAL)
      | Some i \<Rightarrow>
          let e = m_dir s ! i; n = m_link_count e - 1 in
          if m_link_count e = 0 then (s, RV9_MOD_ERR_INVAL)
          else if n = 0 \<and> \<not> m_resident e \<and> \<not> m_in_place e
          then (upd_entry i (\<lambda>e. e\<lparr>m_link_count := n, m_image := None, m_entry := None\<rparr>)
                  (case m_image e of None \<Rightarrow> s | Some (a, _) \<Rightarrow> give_back a s), RV9_MOD_OK)
          else if n = 0 \<and> m_in_place e
          then (upd_entry i (\<lambda>e. e\<lparr>m_link_count := n, m_image := None, m_entry := None, m_in_place := False\<rparr>) s,
                RV9_MOD_OK)
          else (upd_entry i (\<lambda>e. e\<lparr>m_link_count := n\<rparr>) s, RV9_MOD_OK))"

definition rv9_mod_note_stack :: "nat option \<Rightarrow> nat \<Rightarrow> nat \<Rightarrow> modsys \<Rightarrow> modsys" where
  "rv9_mod_note_stack entry given used s =
     (case entry of
        None \<Rightarrow> s
      | Some i \<Rightarrow> upd_entry i (\<lambda>e. e\<lparr>m_stack_given := given,
          m_stack_peak := (if used > m_stack_peak e then used else m_stack_peak e),
          m_stack_runs := cast32 (m_stack_runs e + 1)\<rparr>) s)"

section \<open>Who declares a resource\<close>

definition path_of :: "image \<Rightarrow> image" where
  "path_of d = takeWhile (\<lambda>b. b \<noteq> 58) d"

definition unit_of :: "image \<Rightarrow> nat \<Rightarrow> image" where
  "unit_of d cap = take (cap - 1) (drop (length (path_of d) + 1) d)"

text \<open>The inner loop: the first declaration of this path after \<open>after\<close>.\<close>

partial_function (option) declares_loop ::
  "image \<Rightarrow> nat \<Rightarrow> image \<Rightarrow> nat option \<Rightarrow> image option option" where
  "declares_loop img tag path after =
     (case rv9_mod_manifest_find (Some img) tag after of
        None \<Rightarrow> Some None
      | Some (v, len) \<Rightarrow>
          let d = take len (drop v img) in
          if path_of d = path then Some (Some d) else declares_loop img tag path (Some v))"

text \<open>The bytes a directory entry is searched in: its image, or the front of its module in the
  store with the header's length cut to match.\<close>

definition put_len :: "nat \<Rightarrow> image \<Rightarrow> image" where
  "put_len n img = take 8 img @ map (\<lambda>i. word_of_nat (n div 256 ^ i)) [0..<4] @ drop 12 img"

definition searched ::
  "(nat \<Rightarrow> nat \<Rightarrow> image option) \<Rightarrow> (nat \<Rightarrow> bool) \<Rightarrow> modsys \<Rightarrow> mod_entry \<Rightarrow> image option" where
  "searched rd mem s e =
     (case m_image e of
        Some (_, img) \<Rightarrow> Some img
      | None \<Rightarrow>
          if m_store s = None then None
          else case rd (m_store_offset e) RV9_MODULE_HDR_LEN of
            None \<Rightarrow> None
          | Some hb \<Rightarrow>
              let h = header_of hb; lim = cast32 (h_manifest_offset h + MANIFEST_SCAN_MAX);
                  n = (if h_module_len h > lim then lim else h_module_len h) in
              if h_manifest_offset h = 0 \<or> h_manifest_offset h \<ge> h_module_len h then None
              else if \<not> mem n then None
              else map_option (put_len n) (rd (m_store_offset e) n))"

fun declares_dir ::
  "(nat \<Rightarrow> nat \<Rightarrow> image option) \<Rightarrow> (nat \<Rightarrow> bool) \<Rightarrow> modsys \<Rightarrow> nat \<Rightarrow> image \<Rightarrow> mod_entry list \<Rightarrow> image option option" where
  "declares_dir rd mem s tag path [] = Some None"
| "declares_dir rd mem s tag path (e # es) =
     (if m_type e \<noteq> RV9_MOD_PROGRAM then declares_dir rd mem s tag path es
      else case searched rd mem s e of
        None \<Rightarrow> declares_dir rd mem s tag path es
      | Some img \<Rightarrow>
          (case declares_loop img tag path None of
             None \<Rightarrow> None
           | Some (Some d) \<Rightarrow> Some (Some d)
           | Some None \<Rightarrow> declares_dir rd mem s tag path es))"

definition rv9_mod_any_declares ::
  "(nat \<Rightarrow> nat \<Rightarrow> image option) \<Rightarrow> (nat \<Rightarrow> bool) \<Rightarrow> modsys \<Rightarrow> nat \<Rightarrow> image option \<Rightarrow> bool option" where
  "rv9_mod_any_declares rd mem s tag path =
     (case path of None \<Rightarrow> Some False | Some p \<Rightarrow> map_option (\<lambda>d. d \<noteq> None) (declares_dir rd mem s tag p (m_dir s)))"

text \<open>With the unit it is declared in, as much as \<open>cap\<close> bytes hold.\<close>

definition rv9_mod_declared_meaning ::
  "(nat \<Rightarrow> nat \<Rightarrow> image option) \<Rightarrow> (nat \<Rightarrow> bool) \<Rightarrow> modsys \<Rightarrow> nat \<Rightarrow> image option \<Rightarrow> nat \<Rightarrow> (bool \<times> image) option" where
  "rv9_mod_declared_meaning rd mem s tag path cap =
     (case path of
        None \<Rightarrow> Some (False, [])
      | Some p \<Rightarrow>
          map_option (\<lambda>d. case d of None \<Rightarrow> (False, []) | Some d' \<Rightarrow> (True, unit_of d' cap))
            (declares_dir rd mem s tag p (m_dir s)))"

end
