(* ===== verification/ManifestProps.thy ===== *)
theory ManifestProps
  imports Manifest
begin

text \<open>
  What the checksum catches, and what the manifest walker may be trusted with: entries inside
  the module whatever its bytes are, exactly the entries that were encoded, in order.
\<close>

section \<open>Checksum\<close>

lemma xor_cancel: "s XOR a = s XOR b \<Longrightarrow> a = b" for a b s :: u32
proof -
  assume "s XOR a = s XOR b"
  then have "s XOR (s XOR a) = s XOR (s XOR b)" by (rule arg_cong)
  then show "a = b" by (simp add: xor.assoc [symmetric])
qed

lemma crc_bit_alt: "crc_bit c = (if odd c then drop_bit 1 c XOR 0xEDB88320 else drop_bit 1 c)"
  by (cases "odd c") (simp_all add: crc_bit_def and_one_eq odd_iff_mod_2_eq_one even_iff_mod_2_eq_zero)

lemma crc_bit_xor: "crc_bit (c XOR d) = crc_bit c XOR crc_bit d"
proof -
  have "odd (c XOR d) \<longleftrightarrow> odd c \<noteq> odd d" by (simp add: even_xor_iff)
  moreover have "drop_bit 1 (c XOR d) = drop_bit 1 c XOR drop_bit 1 d" by (simp add: drop_bit_xor)
  ultimately show ?thesis
    by (simp only: crc_bit_alt) (simp add: ac_simps)
qed

lemma crc_bit_zero: "crc_bit 0 = 0" by (simp add: crc_bit_def)

text \<open>The top bit out is the low bit in, so a step loses nothing.\<close>

lemma crc_bit_nonzero: "crc_bit c = 0 \<Longrightarrow> c = 0"
proof -
  assume z: "crc_bit c = 0"
  have top: "\<not> bit (drop_bit 1 c) 31" using bit_imp_le_length [of c 32] by (auto simp: bit_drop_bit_eq)
  have "bit (0xEDB88320 :: u32) 31" by (simp add: bit_numeral_rec)
  then have "odd c \<Longrightarrow> bit (crc_bit c) 31" using top by (simp add: crc_bit_alt bit_xor_iff)
  then have even: "even c" using z by auto
  then have "drop_bit 1 c = 0" using z by (simp add: crc_bit_alt)
  have "bit (drop_bit 1 c) j = bit c (Suc j)" for j by (simp add: bit_drop_bit_eq)
  then have "\<not> bit c (Suc j)" for j using \<open>drop_bit 1 c = 0\<close> by (metis bit_0_eq bot_apply bot_bool_def)
  moreover have "\<not> bit c 0" using even by (simp add: bit_0)
  ultimately have "\<not> bit c i" for i by (cases i) simp_all
  then show "c = 0" by (simp add: bit_eq_iff)
qed

lemma crc_bits_xor: "crc_bits n (c XOR d) = crc_bits n c XOR crc_bits n d"
  by (induction n arbitrary: c d) (simp_all add: crc_bit_xor)

lemma crc_bits_nonzero: "crc_bits n c = 0 \<Longrightarrow> c = 0"
  by (induction n arbitrary: c) (auto dest: crc_bit_nonzero)

lemma crc_bits_inj:
  assumes "crc_bits n c = crc_bits n d"
  shows "c = d"
proof -
  have "c XOR d = 0" by (rule crc_bits_nonzero [of n]) (simp add: crc_bits_xor assms)
  then have "c XOR d = c XOR c" by simp
  then have "d = c" by (rule xor_cancel)
  then show ?thesis by (rule sym)
qed

lemma crc_bits_add: "crc_bits (m + n) c = crc_bits n (crc_bits m c)"
  by (induction m arbitrary: c) simp_all

text \<open>Eight steps shift a byte out that is zero, so up to four bytes are taken in as one word.\<close>

lemma crc_bits_shift:
  "\<forall>i<n. \<not> bit c i \<Longrightarrow> crc_bits n c = drop_bit n c"
proof (induction n arbitrary: c)
  case (Suc n)
  have "even c" using Suc.prems by (metis bit_0 zero_less_Suc)
  then have "crc_bit c = drop_bit 1 c" by (simp add: crc_bit_alt)
  moreover have "\<forall>i<n. \<not> bit (drop_bit 1 c) i" using Suc.prems by (simp add: bit_drop_bit_eq)
  ultimately show ?case using Suc.IH [of "drop_bit 1 c"] by simp
qed simp

fun le_word :: "image \<Rightarrow> u32" where
  "le_word [] = 0"
| "le_word (b # ys) = ucast b OR push_bit 8 (le_word ys)"

lemma bit_le_word: "bit (le_word ys) i \<Longrightarrow> i < 8 * length ys"
proof (induction ys arbitrary: i)
  case (Cons b ys)
  then show ?case
    using Cons.IH [of "i - 8"] bit_imp_le_length [of b i]
    by (auto simp: bit_or_iff bit_push_bit_iff bit_ucast_iff dest!: Cons.IH)
qed simp

lemma crc_fold_word:
  "length ys \<le> 4 \<Longrightarrow> foldl crc_byte s ys = crc_bits (8 * length ys) (s XOR le_word ys)"
proof (induction ys arbitrary: s)
  case (Cons b ys)
  let ?hi = "push_bit 8 (le_word ys) :: u32"
  have low: "\<forall>i<8. \<not> bit ?hi i" by (simp add: bit_push_bit_iff)
  have "drop_bit 8 ?hi = le_word ys"
  proof (rule bit_eqI)
    fix i
    show "bit (drop_bit 8 ?hi) i = bit (le_word ys) i"
      using bit_le_word [of ys i] Cons.prems by (auto simp: bit_drop_bit_eq bit_push_bit_iff)
  qed
  then have hi: "crc_bits 8 ?hi = le_word ys" using crc_bits_shift [OF low] by simp
  have "le_word (b # ys) = ucast b XOR ?hi"
  proof (rule bit_eqI)
    fix i
    show "bit (le_word (b # ys)) i = bit (ucast b XOR ?hi) i"
      using bit_imp_le_length [of b i] by (auto simp: bit_or_iff bit_xor_iff bit_push_bit_iff bit_ucast_iff)
  qed
  then have "crc_bits (8 * length (b # ys)) (s XOR le_word (b # ys)) =
      crc_bits (8 * length ys) (crc_bits 8 (s XOR ucast b) XOR le_word ys)"
    using crc_bits_add [of 8 "8 * length ys"] hi by (simp add: crc_bits_xor xor.assoc)
  also have "\<dots> = foldl crc_byte (crc_byte s b) ys" using Cons by (simp add: crc_byte_def [of s])
  finally show ?case by simp
qed simp

lemma le_word_inj: "length xs = length ys \<Longrightarrow> length ys \<le> 4 \<Longrightarrow> le_word xs = le_word ys \<Longrightarrow> xs = ys"
proof (induction xs ys rule: list_induct2)
  case (Cons a xs b ys)
  have len: "length xs \<le> 3" "length ys \<le> 3" using Cons by simp_all
  have bitat: "bit (ucast c OR push_bit 8 (le_word cs) :: u32) i =
      (if i < 8 then bit c i else i < 32 \<and> bit (le_word cs) (i - 8))" for c :: "8 word" and cs i
    using bit_imp_le_length [of c i] by (auto simp: bit_or_iff bit_push_bit_iff bit_ucast_iff)
  have eq: "bit (ucast a OR push_bit 8 (le_word xs) :: u32) i = bit (ucast b OR push_bit 8 (le_word ys) :: u32) i" for i
    using Cons.prems by simp
  have "a = b"
  proof (rule bit_word_eqI)
    fix i assume "i < LENGTH(8)"
    then show "bit a i = bit b i" using eq [of i] by (simp add: bitat)
  qed
  moreover have "le_word xs = le_word ys"
  proof (rule bit_word_eqI)
    fix i
    show "bit (le_word xs) i = bit (le_word ys) i"
    proof (cases "i < 24")
      case True
      then show ?thesis using eq [of "i + 8"] by (simp add: bitat)
    next
      case False
      then show ?thesis using bit_le_word [of xs i] bit_le_word [of ys i] len by auto
    qed
  qed
  ultimately show ?case using Cons by simp
qed simp

lemma crc_byte_inj: "crc_byte s b = crc_byte s' b \<Longrightarrow> s = s'"
  using crc_bits_inj [of 8 "s XOR ucast b" "s' XOR ucast b"] xor_cancel [of "ucast b" s s']
  by (simp add: crc_byte_def xor.commute)

lemma crc_fold_inj: "foldl crc_byte s ys = foldl crc_byte s' ys \<Longrightarrow> s = s'"
  by (induction ys arbitrary: s s') (auto dest: crc_byte_inj)

text \<open>The checksum of a run of spans is the checksum of the bytes put together.\<close>

lemma crc_append: "rv9_crc32 (rv9_crc32 c xs) ys = rv9_crc32 c (xs @ ys)"
  by (simp add: rv9_crc32_def)

text \<open>Two messages that differ in at most four bytes in a row have different checksums: any
  damage of up to 32 bits in a burst is seen.\<close>

lemma crc_catches_burst:
  assumes "length xs = length ys" "length ys \<le> 4" "xs \<noteq> ys"
  shows "rv9_crc32 c (pre @ xs @ post) \<noteq> rv9_crc32 c (pre @ ys @ post)"
proof
  assume eq: "rv9_crc32 c (pre @ xs @ post) = rv9_crc32 c (pre @ ys @ post)"
  define s where "s = foldl crc_byte (NOT c) pre"
  have "foldl crc_byte s xs = foldl crc_byte s ys"
    using eq crc_fold_inj [of "foldl crc_byte s xs" post] by (simp add: rv9_crc32_def s_def)
  then have "s XOR le_word xs = s XOR le_word ys"
    using assms crc_bits_inj by (simp add: crc_fold_word)
  then have "le_word xs = le_word ys" by (rule xor_cancel)
  then show False using le_word_inj [OF assms(1,2)] assms(3) by simp
qed

section \<open>What the walker sees\<close>

text \<open>The entries from an offset on, and what a visitor does with them.\<close>

type_synonym tlv = "nat \<times> nat \<times> nat"

definition collect :: "nat \<Rightarrow> nat \<Rightarrow> nat \<Rightarrow> tlv list \<Rightarrow> bool \<times> tlv list" where
  "collect tag v len es = (True, es @ [(tag, v, len)])"

definition entries_from :: "image \<Rightarrow> nat \<Rightarrow> tlv list" where
  "entries_from img off = walk_from collect img off []"

definition manifest_entries :: "image \<Rightarrow> tlv list" where
  "manifest_entries img = manifest_walk (Some img) collect []"

fun visit :: "(nat \<Rightarrow> nat \<Rightarrow> nat \<Rightarrow> 'c \<Rightarrow> bool \<times> 'c) \<Rightarrow> tlv list \<Rightarrow> 'c \<Rightarrow> 'c" where
  "visit fn [] ctx = ctx"
| "visit fn ((tag, v, len) # es) ctx = (let r = fn tag v len ctx in if fst r then visit fn es (snd r) else snd r)"

definition entry_at :: "image \<Rightarrow> nat \<Rightarrow> bool" where
  "entry_at img off \<longleftrightarrow> cast32 (off + 4) \<le> h_module_len (header_of img) \<and>
     tag_number (le16 img off) \<noteq> RV9_MTAG_END \<and>
     cast32 (cast32 (off + 4) + le16 img (off + 2)) \<le> h_module_len (header_of img)"

definition next_entry :: "image \<Rightarrow> nat \<Rightarrow> nat" where
  "next_entry img off = tlv_next (cast32 (cast32 (off + 4) + le16 img (off + 2)))"

lemma walk_stop: "\<not> entry_at img off \<Longrightarrow> walk_from fn img off c = c"
  by (subst walk_from.simps) (auto simp: entry_at_def Let_def not_le)

lemma walk_go:
  "entry_at img off \<Longrightarrow> walk_from fn img off c =
     (let r = fn (le16 img off) (cast32 (off + 4)) (le16 img (off + 2)) c in
      if fst r then if next_entry img off \<le> off then snd r else walk_from fn img (next_entry img off) (snd r)
      else snd r)"
  by (subst walk_from.simps) (auto simp: entry_at_def next_entry_def Let_def not_le)

lemma next_entry_down: "\<not> next_entry img off \<le> off \<Longrightarrow> W32 - next_entry img off < W32 - off"
  unfolding next_entry_def by (rule next_down)

lemma walk_collect: "walk_from collect img off es = es @ entries_from img off"
proof (induction "W32 - off" arbitrary: off es rule: less_induct)
  case less
  let ?x = "(le16 img off, cast32 (off + 4), le16 img (off + 2))" and ?n = "next_entry img off"
  show ?case
  proof (cases "entry_at img off \<and> \<not> ?n \<le> off")
    case True
    then have step: "walk_from collect img off zs = walk_from collect img ?n (zs @ [?x])" for zs
      by (simp add: walk_go collect_def Let_def)
    have IH: "walk_from collect img ?n zs = zs @ entries_from img ?n" for zs
      by (rule less) (rule next_entry_down, use True in simp)
    show ?thesis unfolding entries_from_def [of img off] step IH by simp
  next
    case False
    then show ?thesis by (cases "entry_at img off") (simp_all add: walk_stop walk_go entries_from_def collect_def Let_def)
  qed
qed

lemma entries_from_rec:
  "entries_from img off =
     (if entry_at img off
      then (le16 img off, cast32 (off + 4), le16 img (off + 2)) #
        (if next_entry img off \<le> off then [] else entries_from img (next_entry img off))
      else [])"
proof (cases "entry_at img off")
  case True
  show ?thesis
    unfolding entries_from_def [of img off] walk_go [OF True] walk_collect
    using True by (simp add: collect_def Let_def)
next
  case False
  then show ?thesis unfolding entries_from_def walk_stop [OF False] by simp
qed

lemma walk_visits: "walk_from fn img off c = visit fn (entries_from img off) c"
proof (induction "W32 - off" arbitrary: off c rule: less_induct)
  case less
  let ?n = "next_entry img off"
  have IH: "\<not> ?n \<le> off \<Longrightarrow> walk_from fn img ?n c = visit fn (entries_from img ?n) c" for c
    by (rule less) (rule next_entry_down)
  show ?case
  proof (cases "entry_at img off")
    case True
    then show ?thesis
      unfolding entries_from_rec [of img off] walk_go [OF True] by (cases "?n \<le> off") (simp_all add: IH Let_def)
  next
    case False
    then show ?thesis unfolding entries_from_rec [of img off] walk_stop [OF False] by simp
  qed
qed

lemma manifest_entries_eq:
  "manifest_entries img =
     (let h = header_of img; off = h_manifest_offset h in
      if off = 0 \<or> off < h_header_len h \<or> h_module_len h \<le> off then [] else entries_from img off)"
  by (simp add: manifest_entries_def manifest_walk_def Let_def entries_from_def)

lemma manifest_visits: "manifest_walk (Some img) fn c = visit fn (manifest_entries img) c"
  by (simp add: manifest_walk_def manifest_entries_eq Let_def walk_visits)

lemma byte_at_less: "byte_at img i < 256"
  using unsigned_less [of "img ! i", where 'a = nat] by (simp add: byte_at_def)

lemma le16_less: "le16 img i < 65536"
  using byte_at_less [of img i] byte_at_less [of img "i + 1"] by (simp add: le16_def)

text \<open>With room for one more entry above the module, none of the sums wraps.\<close>

lemma entry_inside:
  assumes "entry_at img off" "h_module_len (header_of img) + 65536 \<le> W32" "off \<le> h_module_len (header_of img)"
  shows "cast32 (off + 4) = off + 4" "off + 4 + le16 img (off + 2) \<le> h_module_len (header_of img)"
    "off + 4 + le16 img (off + 2) \<le> next_entry img off"
    "next_entry img off = off + 4 + le16 img (off + 2) + (4 - (off + 4 + le16 img (off + 2)) mod 4) mod 4"
proof -
  show 1: "cast32 (off + 4) = off + 4" using assms(2,3) by simp
  have 2: "cast32 (off + 4 + le16 img (off + 2)) = off + 4 + le16 img (off + 2)"
    using assms(1,2) le16_less [of img "off + 2"] by (simp add: entry_at_def 1)
  show 3: "off + 4 + le16 img (off + 2) \<le> h_module_len (header_of img)"
    using assms(1) unfolding entry_at_def 1 2 by blast
  define e where "e = off + 4 + le16 img (off + 2)"
  have "(4 - e mod 4) mod 4 < (4::nat)" by simp
  then have "cast32 (e + (4 - e mod 4) mod 4) = e + (4 - e mod 4) mod 4"
    using 3 assms(2) by (intro cast32_small) (unfold e_def [symmetric], linarith)
  then have "next_entry img off = e + (4 - e mod 4) mod 4"
    unfolding next_entry_def 1 2 tlv_next_def unfolding e_def .
  then show "next_entry img off = off + 4 + le16 img (off + 2) + (4 - (off + 4 + le16 img (off + 2)) mod 4) mod 4"
    "off + 4 + le16 img (off + 2) \<le> next_entry img off" by (simp_all add: e_def)
qed

definition entry_sound :: "image \<Rightarrow> nat \<Rightarrow> tlv \<Rightarrow> bool" where
  "entry_sound img lo e \<longleftrightarrow> (case e of (tag, v, len) \<Rightarrow>
     lo + 4 \<le> v \<and> v + len \<le> h_module_len (header_of img) \<and>
     tag = le16 img (v - 4) \<and> len = le16 img (v - 2) \<and> tag_number tag \<noteq> RV9_MTAG_END)"

lemma entry_sound_mono: "entry_sound img n e \<Longrightarrow> lo \<le> n \<Longrightarrow> entry_sound img lo e"
  by (auto simp: entry_sound_def)

definition apart :: "tlv \<Rightarrow> tlv \<Rightarrow> bool" where
  "apart e e' \<longleftrightarrow> fst (snd e) + snd (snd e) + 4 \<le> fst (snd e')"

lemma entries_sound:
  assumes "h_module_len (header_of img) + 65536 \<le> W32" "off \<le> h_module_len (header_of img)"
  shows "(\<forall>e\<in>set (entries_from img off). entry_sound img off e) \<and> sorted_wrt apart (entries_from img off)"
  using assms(2)
proof (induction "W32 - off" arbitrary: off rule: less_induct)
  case less
  let ?n = "next_entry img off" and ?x = "(le16 img off, cast32 (off + 4), le16 img (off + 2))"
  show ?case
  proof (cases "entry_at img off")
    case True
    note in' = entry_inside [OF True assms(1) less.prems]
    have x: "entry_sound img off ?x"
      using in'(2) True unfolding entry_sound_def entry_at_def prod.case in'(1) by (simp add: add_2_eq_Suc')
    show ?thesis
    proof (cases "?n \<le> h_module_len (header_of img)")
      case le: True
      have IH: "(\<forall>e\<in>set (entries_from img ?n). entry_sound img ?n e) \<and> sorted_wrt apart (entries_from img ?n)"
        if "\<not> ?n \<le> off" by (rule less.hyps [OF next_entry_down [OF that] le])
      have "\<forall>e\<in>set (entries_from img ?n). entry_sound img off e \<and> apart ?x e" if "\<not> ?n \<le> off"
      proof
        fix e assume e: "e \<in> set (entries_from img ?n)"
        then have s: "entry_sound img ?n e" using IH [OF that] by blast
        then have "entry_sound img off e" using that by (intro entry_sound_mono [OF s]) simp
        moreover have "apart ?x e" using s in'(1,3) by (auto simp: entry_sound_def apart_def)
        ultimately show "entry_sound img off e \<and> apart ?x e" ..
      qed
      then show ?thesis using IH x unfolding entries_from_rec [of img off] by (simp add: True)
    next
      case False
      have "\<not> entry_at img ?n"
      proof
        assume "entry_at img ?n"
        have "?n + 4 < W32" using in'(2,4) assms(1)
            mod_less_divisor [of 4 "4 - (off + 4 + le16 img (off + 2)) mod 4"] by linarith
        then have "cast32 (?n + 4) = ?n + 4" by simp
        then show False using \<open>entry_at img ?n\<close> False by (simp add: entry_at_def)
      qed
      then have "entries_from img ?n = []" unfolding entries_from_rec [of img ?n] by (rule if_not_P)
      then show ?thesis using x True unfolding entries_from_rec [of img off] by simp
    qed
  next
    case False
    then show ?thesis by (simp add: entries_from_rec [of img off])
  qed
qed

text \<open>C15: whatever the bytes of a module no longer than \<open>2 ^ 32 - 65536\<close>, every visitor of the
  manifest sees the same entries in the same order until it stops; each lies with its tag and
  length inside the module, after the header and the manifest's start, none is the END tag,
  and each begins after the one before it ends. The walk itself always ends.\<close>

theorem manifest_walk_inside:
  assumes "h_module_len (header_of img) + 65536 \<le> W32"
  shows "\<exists>es. (\<forall>c. manifest_walk (Some img) fn c = visit fn es c) \<and> sorted_wrt apart es \<and>
    (\<forall>(tag, v, len)\<in>set es. h_header_len (header_of img) \<le> h_manifest_offset (header_of img) \<and>
       h_manifest_offset (header_of img) + 4 \<le> v \<and> v + len \<le> h_module_len (header_of img) \<and>
       tag = le16 img (v - 4) \<and> len = le16 img (v - 2) \<and> tag_number tag \<noteq> RV9_MTAG_END)"
proof (intro exI conjI allI)
  show "manifest_walk (Some img) fn c = visit fn (manifest_entries img) c" for c by (rule manifest_visits)
  let ?h = "header_of img"
  have "sorted_wrt apart (manifest_entries img) \<and>
    (\<forall>e\<in>set (manifest_entries img). h_header_len ?h \<le> h_manifest_offset ?h \<and> entry_sound img (h_manifest_offset ?h) e)"
    using entries_sound [OF assms, of "h_manifest_offset ?h"] by (auto simp: manifest_entries_eq Let_def)
  then show "sorted_wrt apart (manifest_entries img)"
    "\<forall>(tag, v, len)\<in>set (manifest_entries img). h_header_len ?h \<le> h_manifest_offset ?h \<and>
       h_manifest_offset ?h + 4 \<le> v \<and> v + len \<le> h_module_len ?h \<and>
       tag = le16 img (v - 4) \<and> len = le16 img (v - 2) \<and> tag_number tag \<noteq> RV9_MTAG_END"
    by (auto simp: entry_sound_def)
qed

section \<open>Round trip\<close>

text \<open>The entries as tools/mkmodule.py lays them out: tag, length, value, padding to four bytes.\<close>

definition enc16 :: "nat \<Rightarrow> image" where
  "enc16 n = [word_of_nat (n mod 256), word_of_nat (n div 256)]"

definition encode_tlv :: "nat \<times> image \<Rightarrow> image" where
  "encode_tlv e = enc16 (fst e) @ enc16 (length (snd e)) @ snd e @ replicate ((4 - length (snd e) mod 4) mod 4) 0"

definition good_tlv :: "nat \<times> image \<Rightarrow> bool" where
  "good_tlv e \<longleftrightarrow> fst e < 65536 \<and> tag_number (fst e) \<noteq> RV9_MTAG_END \<and> length (snd e) < 65536"

definition decode_tlv :: "image \<Rightarrow> tlv \<Rightarrow> nat \<times> image" where
  "decode_tlv img e = (fst e, take (snd (snd e)) (drop (fst (snd e)) img))"

lemma decode_tlv_pair: "decode_tlv img (t, v, len) = (t, take len (drop v img))"
  by (simp add: decode_tlv_def)

lemma byte_at_drop: "drop i img = b # rest \<Longrightarrow> byte_at img i = unat b"
  by (metis byte_at_def drop_eq_Nil2 hd_drop_conv_nth list.distinct(1) list.sel(1) not_le)

lemma le16_drop:
  assumes "drop i img = enc16 n @ rest" "n < 65536"
  shows "le16 img i = n"
proof -
  have "drop (i + 1) img = word_of_nat (n div 256) # rest"
    using assms(1) by (metis add.commute append_Cons append_Nil drop_drop drop_Suc_Cons drop0 enc16_def plus_1_eq_Suc)
  then have "byte_at img (i + 1) = unat (word_of_nat (n div 256) :: 8 word)" by (rule byte_at_drop)
  moreover have "byte_at img i = unat (word_of_nat (n mod 256) :: 8 word)"
    using assms(1) by (intro byte_at_drop) (simp add: enc16_def)
  moreover have "n div 256 < 256" using assms(2) by simp
  ultimately show ?thesis by (simp add: le16_def unat_of_nat take_bit_nat_def)
qed

lemma length_encode_tlv: "length (encode_tlv e) = 4 + length (snd e) + (4 - length (snd e) mod 4) mod 4"
  by (simp add: encode_tlv_def enc16_def)

lemma drop_shift: "drop i xs = ys @ zs \<Longrightarrow> drop (i + length ys) xs = zs"
  by (metis add.commute append_eq_conv_conj drop_drop)

lemma pad4: "4 dvd l + (4 - l mod 4) mod (4::nat)"
proof -
  have "l mod 4 < 4" by simp
  then consider "l mod 4 = 0" | "l mod 4 = 1" | "l mod 4 = 2" | "l mod 4 = 3" by linarith
  then show ?thesis by cases (simp_all add: mod_eq_0_iff_dvd, presburger+)
qed

lemma entries_of_encoded:
  assumes "drop off img = concat (map encode_tlv es) @ enc16 0 @ enc16 0 @ rest" "4 dvd off"
    "list_all good_tlv es" "h_module_len (header_of img) = length img" "length img + 65536 \<le> W32"
  shows "map (decode_tlv img) (entries_from img off) = es"
  using assms(1-3)
proof (induction es arbitrary: off)
  case Nil
  then have "le16 img off = 0" by (intro le16_drop) simp_all
  then have "\<not> entry_at img off" by (simp add: entry_at_def tag_number_def RV9_MTAG_END_def)
  then show ?case unfolding entries_from_rec [of img off] by simp
next
  case (Cons e es)
  obtain t val where e: "e = (t, val)" by (cases e)
  let ?pad = "(4 - length val mod 4) mod 4"
  let ?rest = "concat (map encode_tlv es) @ enc16 0 @ enc16 0 @ rest"
  have d0: "drop off img = enc16 t @ enc16 (length val) @ val @ replicate ?pad 0 @ ?rest"
    using Cons.prems(1) by (simp add: encode_tlv_def [of "(t, val)"] e)
  have good: "t < 65536" "tag_number t \<noteq> RV9_MTAG_END" "length val < 65536"
    using Cons.prems(3) by (simp_all add: good_tlv_def e)
  have d2: "drop (off + 2) img = enc16 (length val) @ val @ replicate ?pad 0 @ ?rest"
    using drop_shift [OF d0] by (simp add: enc16_def)
  have "off + 4 = off + 2 + length (enc16 (length val))" by (simp add: enc16_def)
  then have d4: "drop (off + 4) img = val @ replicate ?pad 0 @ ?rest"
    by (simp only: drop_shift [OF d2])
  have d5: "drop (off + 4 + length val + ?pad) img = ?rest"
    using drop_shift [OF drop_shift [OF d4]] by simp
  have tag: "le16 img off = t" using d0 good(1) by (rule le16_drop)
  have len: "le16 img (off + 2) = length val" using d2 good(3) by (rule le16_drop)
  have inside: "off + 4 + length val + 4 \<le> length img"
  proof -
    have "length (drop (off + 4) img) = length val + ?pad + length ?rest" by (simp add: d4)
    then show ?thesis by (simp add: enc16_def)
  qed
  have "off + 4 + length val < W32" using inside assms(5) by linarith
  then have at: "entry_at img off"
    using good inside assms(4) unfolding entry_at_def tag len by simp
  have nx: "next_entry img off = off + 4 + length val + ?pad"
  proof -
    have "off mod 4 = 0" using Cons.prems(2) by (simp add: dvd_eq_mod_eq_0)
    then have "(off + 4 + length val) mod 4 = length val mod 4" by presburger
    moreover have "next_entry img off = off + 4 + length val + (4 - (off + 4 + length val) mod 4) mod 4"
      using entry_inside(4) [OF at] assms(4,5) inside unfolding len by linarith
    ultimately show ?thesis by (simp only:)
  qed
  have al: "4 dvd (off + 4 + length val + ?pad)" using dvd_add [OF Cons.prems(2) pad4 [of "4 + length val"]] by (simp add: add.assoc)
  have "map (decode_tlv img) (entries_from img (off + 4 + length val + ?pad)) = es"
    using Cons.IH [OF d5 al] Cons.prems(3) by simp
  moreover have "cast32 (off + 4) = off + 4" using inside assms(5) by simp
  moreover have "take (length val) (drop (off + 4) img) = val" using d4 by simp
  ultimately show ?case
    using at unfolding entries_from_rec [of img off] nx tag len by (simp add: decode_tlv_pair e)
qed

text \<open>The first entry of a number, looked up in a list of entries.\<close>

definition lookup :: "nat \<Rightarrow> (nat \<times> 'v) list \<Rightarrow> 'v option" where
  "lookup tag es = map_option snd (find (\<lambda>e. tag_number (fst e) = tag_number tag) es)"

lemma visit_find:
  "f_armed c \<Longrightarrow> visit find_visit es c =
     (case find (\<lambda>e. tag_number (fst e) = f_want c) es of
        None \<Rightarrow> c | Some e \<Rightarrow> c\<lparr>f_found := Some (fst (snd e)), f_len := snd (snd e)\<rparr>)"
  by (induction es) (auto simp: find_visit_def)

lemma manifest_find_first: "rv9_mod_manifest_find (Some img) tag None = lookup tag (manifest_entries img)"
  by (simp add: rv9_mod_manifest_find_def manifest_visits visit_find lookup_def Let_def split: option.splits)

lemma tag_number_idem [simp]: "tag_number (tag_number t) = tag_number t"
  by (simp add: tag_number_def)

lemma lookup_decode: "lookup tag (map (decode_tlv img) es) = map_option (\<lambda>(v, len). take len (drop v img)) (lookup tag es)"
  by (induction es) (auto simp: lookup_def decode_tlv_def split: if_splits)

lemma le32_take: "v + 4 \<le> length img \<Longrightarrow> le32 (take 4 (drop v img)) 0 = le32 img v"
  by (simp add: le32_def le16_def byte_at_def ac_simps)

lemma byte_take: "v + 1 \<le> length img \<Longrightarrow> byte_at (take 1 (drop v img)) 0 = byte_at img v"
  by (simp add: byte_at_def)

lemma lookup_mem: "lookup tag es = Some x \<Longrightarrow> \<exists>t. (t, x) \<in> set es"
  by (auto simp: lookup_def find_Some_iff) (metis nth_mem prod.collapse)

definition holds_manifest :: "image \<Rightarrow> (nat \<times> image) list \<Rightarrow> image \<Rightarrow> bool" where
  "holds_manifest img es rest \<longleftrightarrow>
     drop (h_manifest_offset (header_of img)) img = concat (map encode_tlv es) @ enc16 0 @ enc16 0 @ rest \<and>
     0 < h_manifest_offset (header_of img) \<and> 4 dvd h_manifest_offset (header_of img) \<and>
     h_header_len (header_of img) \<le> h_manifest_offset (header_of img) \<and>
     h_module_len (header_of img) = length img \<and> length img + 65536 \<le> W32 \<and> list_all good_tlv es"

text \<open>C16: reading a manifest gives back what was written: the entries the walker presents are
  exactly those encoded, tags and values, in order; and a numeric lookup answers with the value
  of the first entry of that number, advisory or mandatory, if it has the right length.\<close>

theorem manifest_roundtrip:
  assumes "holds_manifest img es rest"
  shows "map (decode_tlv img) (manifest_entries img) = es \<and>
    rv9_mod_manifest_u32 (Some img) tag =
      (case lookup tag es of None \<Rightarrow> None | Some val \<Rightarrow> if length val = 4 then Some (le32 val 0) else None) \<and>
    rv9_mod_manifest_u8 (Some img) tag =
      (case lookup tag es of None \<Rightarrow> None | Some val \<Rightarrow> if length val = 1 then Some (byte_at val 0) else None)"
proof -
  let ?off = "h_manifest_offset (header_of img)"
  note h = assms [unfolded holds_manifest_def]
  have "drop ?off img \<noteq> []" using h by (simp add: enc16_def)
  then have "\<not> length img \<le> ?off" by (metis drop_all)
  then have "?off < h_module_len (header_of img)" using h by simp
  then have me: "manifest_entries img = entries_from img ?off" using h by (simp add: manifest_entries_eq Let_def)
  have es: "map (decode_tlv img) (manifest_entries img) = es"
    unfolding me using h by (intro entries_of_encoded) simp_all
  have look: "lookup tag es = map_option (\<lambda>(v, len). take len (drop v img)) (lookup tag (manifest_entries img))"
    using lookup_decode [of tag img "manifest_entries img"] by (simp add: es)
  show ?thesis
  proof (cases "lookup tag (manifest_entries img)")
    case None
    then show ?thesis
      using es look by (simp add: rv9_mod_manifest_u32_def rv9_mod_manifest_u8_def manifest_find_first)
  next
    case (Some e)
    obtain v len where e: "e = (v, len)" by (cases e)
    obtain t where "(t, v, len) \<in> set (manifest_entries img)" using lookup_mem [OF Some] by (auto simp: e)
    then have "entry_sound img ?off (t, v, len)"
      using entries_sound [of img ?off] h \<open>?off < _\<close> unfolding me by auto
    then have fit: "v + len \<le> length img" using h by (simp add: entry_sound_def)
    have val: "lookup tag es = Some (take len (drop v img))" using look Some by (simp add: e)
    have "rv9_mod_manifest_u32 (Some img) tag = (if len = 4 then Some (le32 (take len (drop v img)) 0) else None)"
      using Some fit by (auto simp: rv9_mod_manifest_u32_def manifest_find_first e le32_take)
    moreover have "rv9_mod_manifest_u8 (Some img) tag = (if len = 1 then Some (byte_at (take len (drop v img)) 0) else None)"
      using Some fit byte_take [of v img] by (auto simp: rv9_mod_manifest_u8_def manifest_find_first e)
    moreover have "length (take len (drop v img)) = len" using fit by simp
    ultimately show ?thesis using es val by simp
  qed
qed

text \<open>A module of four bytes of code whose manifest is a mandatory deadline and a class.\<close>

definition demo_entries :: "(nat \<times> image) list" where
  "demo_entries = [(0x8007, [132, 3, 0, 0]), (5, [1])]"

definition demo_front :: image where
  "demo_front = [0x52, 0x56, 0x39, 0x4D, 40, 0, 15, 0, 68, 0, 0, 0, 40, 0, 0, 0, 64, 0, 0, 0, 0, 0, 0, 0, 0, 0, 0, 0,
     1, 0, 1, 0, 0, 0, 0, 0, 44, 0, 0, 0, 0x61, 0, 0, 0]"

definition demo_image :: image where
  "demo_image = demo_front @ concat (map encode_tlv demo_entries) @ enc16 0 @ enc16 0 @ [0x13, 0, 0, 0]"

lemma demo_front_length: "length demo_front = 44"
  by (simp add: demo_front_def)

lemma byte_at_front: "i < length xs \<Longrightarrow> byte_at (xs @ ys) i = byte_at xs i"
  by (simp add: byte_at_def nth_append)

lemma demo_header:
  "h_manifest_offset (header_of demo_image) = 44" "h_header_len (header_of demo_image) = 40"
  "h_module_len (header_of demo_image) = 68" "length demo_image = 68"
proof -
  have b: "byte_at demo_image i = byte_at demo_front i" if "i < 44" for i
    unfolding demo_image_def using that by (intro byte_at_front) (simp add: demo_front_length)
  have l: "i < 43 \<Longrightarrow> le16 demo_image i = byte_at demo_front i + 256 * byte_at demo_front (i + 1)" for i
    by (simp add: le16_def b)
  show "h_manifest_offset (header_of demo_image) = 44" "h_header_len (header_of demo_image) = 40"
    "h_module_len (header_of demo_image) = 68"
    by (simp_all add: header_of_def le32_def l) (simp_all add: byte_at_def demo_front_def)
  show "length demo_image = 68"
    by (simp add: demo_image_def demo_front_length demo_entries_def length_encode_tlv enc16_def)
qed

lemma demo_holds: "holds_manifest demo_image demo_entries [0x13, 0, 0, 0]"
  by (simp add: holds_manifest_def demo_header) (simp add: demo_image_def demo_front_length
      demo_entries_def good_tlv_def tag_number_def RV9_MTAG_END_def)

lemma manifest_walk_inside_witness:
  "\<exists>es. manifest_walk (Some demo_image) contract_visit 0 = visit contract_visit es 0 \<and> sorted_wrt apart es"
  using manifest_walk_inside [of demo_image contract_visit] by (auto simp: demo_header)

lemma manifest_roundtrip_witness:
  "rv9_mod_manifest_u32 (Some demo_image) RV9_MTAG_DEADLINE_US = Some 900 \<and>
   map (decode_tlv demo_image) (manifest_entries demo_image) = demo_entries"
  using manifest_roundtrip [OF demo_holds, of RV9_MTAG_DEADLINE_US]
  by (simp add: lookup_def demo_entries_def tag_number_def RV9_MTAG_DEADLINE_US_def le32_def le16_def byte_at_def)

lemma image_crc_joined:
  "image_crc img = rv9_crc32 0 (take 32 img @ replicate 4 0 @ take (h_module_len (header_of img) - 36) (drop 36 img))"
  by (simp add: image_crc_def crc_append Let_def)

section \<open>Only the module's own bytes matter\<close>

lemma entries_beyond:
  assumes "h_module_len (header_of img) < off" "off + 4 < W32"
  shows "entries_from img off = []"
proof -
  have "\<not> entry_at img off" using assms by (simp add: entry_at_def)
  then show ?thesis unfolding entries_from_rec [of img off] by simp
qed

lemma entries_agree:
  assumes "header_of a = header_of b" "\<And>i. i < h_module_len (header_of b) \<Longrightarrow> byte_at a i = byte_at b i"
    "h_module_len (header_of b) + 65536 \<le> W32" "off \<le> h_module_len (header_of b)"
  shows "entries_from a off = entries_from b off"
  using assms(4)
proof (induction "W32 - off" arbitrary: off rule: less_induct)
  case less
  let ?m = "h_module_len (header_of b)" and ?n = "next_entry b off"
  show ?case
  proof (cases "off + 4 \<le> ?m")
    case True
    then have le: "le16 a off = le16 b off" "le16 a (off + 2) = le16 b (off + 2)"
      using assms(2) by (simp_all add: le16_def)
    have at: "entry_at a off = entry_at b off" and nx: "next_entry a off = ?n"
      by (simp_all only: entry_at_def next_entry_def le assms(1))
    have "entries_from a ?n = entries_from b ?n" if "entry_at b off" "\<not> ?n \<le> off"
    proof (cases "?n \<le> ?m")
      case True
      show ?thesis by (rule less.hyps [OF next_entry_down [OF that(2)] True])
    next
      case False
      have "?n + 4 < W32" using entry_inside(2,4) [OF that(1) assms(3) less.prems] assms(3)
          mod_less_divisor [of 4 "4 - (off + 4 + le16 b (off + 2)) mod 4"] by linarith
      then show ?thesis using False assms(1) by (simp add: entries_beyond)
    qed
    then show ?thesis unfolding entries_from_rec [of a off] entries_from_rec [of b off] at nx le by auto
  next
    case False
    then have "\<not> entry_at a off" "\<not> entry_at b off" using assms(1,3) less.prems by (simp_all add: entry_at_def)
    then show ?thesis unfolding entries_from_rec [of a off] entries_from_rec [of b off] by simp
  qed
qed

lemma byte_at_take: "i < n \<Longrightarrow> byte_at (take n img) i = byte_at img i"
  by (simp add: byte_at_def)

text \<open>What verified in a larger buffer verifies on its own.\<close>

lemma verify_cut:
  assumes "rv9_mod_verify (Some img) len = RV9_MOD_OK" "len + 65536 \<le> W32"
  shows "header_of (take (h_module_len (header_of img)) img) = header_of img"
    "rv9_mod_verify (Some (take (h_module_len (header_of img)) img)) (h_module_len (header_of img)) = RV9_MOD_OK"
proof -
  define m where "m = h_module_len (header_of img)"
  let ?c = "take m img"
  have m: "40 \<le> m" "m \<le> len" using assms(1)
    by (auto simp: rv9_mod_verify_def Let_def RV9_MODULE_HDR_LEN_def m_def split: if_splits)
  have b: "byte_at ?c i = byte_at img i" if "i < 40" for i using that m by (intro byte_at_take) simp
  show h: "header_of (take (h_module_len (header_of img)) img) = header_of img"
    unfolding m_def [symmetric] by (simp add: header_of_def le32_def le16_def b)
  have "image_crc ?c = image_crc img"
    using m h by (simp add: image_crc_def Let_def m_def [symmetric] min_def drop_take)
  moreover have "manifest_entries ?c = manifest_entries img"
    using entries_agree [of ?c img "h_manifest_offset (header_of img)"] h m assms(2)
    by (auto simp: manifest_entries_eq Let_def m_def [symmetric] byte_at_take)
  then have "manifest_check (Some ?c) = manifest_check (Some img)"
    by (simp add: manifest_check_def manifest_visits)
  ultimately have "rv9_mod_verify (Some ?c) m = RV9_MOD_OK"
    using assms(1) m h by (auto simp: rv9_mod_verify_def Let_def m_def [symmetric] RV9_MODULE_HDR_LEN_def split: if_splits)
  then show "rv9_mod_verify (Some (take (h_module_len (header_of img)) img)) (h_module_len (header_of img)) = RV9_MOD_OK"
    by (simp add: m_def)
qed

section \<open>Verification sees damage\<close>

lemma byte_outside:
  assumes "length xs = length ys" "i < length pre \<or> length pre + length xs \<le> i"
  shows "byte_at (pre @ xs @ post) i = byte_at (pre @ ys @ post) i"
  using assms by (auto simp: byte_at_def nth_append)

lemma le32_bytes:
  "le32 img i = byte_at img i + 256 * (byte_at img (i + 1) + 256 * (byte_at img (i + 2) + 256 * byte_at img (i + 3)))"
proof -
  have "i + 2 + 1 = i + 3" by simp
  then show ?thesis unfolding le32_def le16_def by (simp add: numeral_3_eq_3)
qed

lemma byte_inside: "k < length xs \<Longrightarrow> byte_at (pre @ xs @ post) (length pre + k) = unat (xs ! k)"
  by (simp add: byte_at_def nth_append)

lemma le32_outside:
  assumes "length xs = length ys" "i + 4 \<le> length pre \<or> length pre + length xs \<le> i"
  shows "le32 (pre @ xs @ post) i = le32 (pre @ ys @ post) i"
proof -
  have "byte_at (pre @ xs @ post) (i + j) = byte_at (pre @ ys @ post) (i + j)" if "j < 4" for j
    using that assms by (intro byte_outside) auto
  from this [of 0] this [of 1] this [of 2] this [of 3] show ?thesis
    unfolding le32_bytes by simp
qed

text \<open>Four bytes determine, and are determined by, the number they spell.\<close>

lemma le32_inj:
  assumes "le32 img i = le32 img' i" "j < 4"
  shows "byte_at img (i + j) = byte_at img' (i + j)"
proof -
  have digits: "a = a' \<and> b = b'" if "a + 256 * b = a' + 256 * b'" "a < 256" "a' < 256" for a b a' b' :: nat
  proof -
    have "a = a'" using that by (metis mod_less mod_mult_self2)
    then show ?thesis using that(1) by simp
  qed
  have e: "byte_at img i + 256 * (byte_at img (i + 1) + 256 * (byte_at img (i + 2) + 256 * byte_at img (i + 3))) =
      byte_at img' i + 256 * (byte_at img' (i + 1) + 256 * (byte_at img' (i + 2) + 256 * byte_at img' (i + 3)))"
    using assms(1) unfolding le32_bytes .
  note d0 = digits [OF e byte_at_less byte_at_less]
  note d1 = digits [OF d0 [THEN conjunct2] byte_at_less byte_at_less]
  note d2 = digits [OF d1 [THEN conjunct2] byte_at_less byte_at_less]
  have "j = 0 \<or> j = 1 \<or> j = 2 \<or> j = 3" using assms(2) by linarith
  then show ?thesis using d0 d1 d2 by auto
qed

lemma verified:
  "rv9_mod_verify (Some img) avail = RV9_MOD_OK \<Longrightarrow>
   unat (image_crc img) = h_crc32 (header_of img) \<and> 40 \<le> h_module_len (header_of img) \<and>
   h_module_len (header_of img) \<le> avail"
  by (auto simp: rv9_mod_verify_def Let_def RV9_MODULE_HDR_LEN_def split: if_splits)

text \<open>C17: an image that verifies is no longer accepted after damage to up to four bytes in a row
  anywhere in the module, provided the bytes are not those of its length, and either all or
  none of them belong to the stored checksum.\<close>

theorem damage_caught:
  assumes "rv9_mod_verify (Some (pre @ xs @ post)) avail = RV9_MOD_OK"
    and "length ys = length xs" "length xs \<le> 4" "ys \<noteq> xs"
    and "length pre + length xs \<le> h_module_len (header_of (pre @ xs @ post))"
    and "length pre + length xs \<le> 8 \<or> 12 \<le> length pre"
    and "length pre + length xs \<le> 32 \<or> 32 \<le> length pre \<and> length pre + length xs \<le> 36 \<or> 36 \<le> length pre"
  shows "rv9_mod_verify (Some (pre @ ys @ post)) avail \<noteq> RV9_MOD_OK"
proof
  let ?g = "pre @ xs @ post" and ?b = "pre @ ys @ post"
  assume "rv9_mod_verify (Some ?b) avail = RV9_MOD_OK"
  then have b: "unat (image_crc ?b) = le32 ?b 32" using verified by (fastforce simp: header_of_def)
  have g: "unat (image_crc ?g) = le32 ?g 32" using verified [OF assms(1)] by (simp add: header_of_def)
  have "le32 ?g 8 = le32 ?b 8" using assms(2,6) by (intro le32_outside) auto
  then have len: "h_module_len (header_of ?b) = h_module_len (header_of ?g)" by (simp add: header_of_def)
  define m where "m = h_module_len (header_of ?g)"
  have crc: "image_crc (pre @ zs @ post) = rv9_crc32 0 (take 32 (pre @ zs @ post) @ replicate 4 0 @ take (m - 36) (drop 36 (pre @ zs @ post)))"
    if "zs = xs \<or> zs = ys" for zs
    using that len unfolding image_crc_joined m_def by auto
  note crcs = crc [of xs, OF disjI1 [OF refl]] crc [of ys, OF disjI2 [OF refl]]
  consider "length pre + length xs \<le> 32" | "32 \<le> length pre" "length pre + length xs \<le> 36" | "36 \<le> length pre"
    using assms(7) by blast
  then show False
  proof cases
    case 1
    then have parts: "take 32 (pre @ zs @ post) = pre @ zs @ take (32 - (length pre + length xs)) post \<and>
        drop 36 (pre @ zs @ post) = drop (36 - (length pre + length xs)) post" if "length zs = length xs" for zs
      using that by (simp add: diff_diff_add)
    have "image_crc ?b \<noteq> image_crc ?g"
      unfolding crcs using crc_catches_burst [OF assms(2,3,4), of 0 pre]
      by (simp only: parts [OF refl] parts [OF assms(2)] append_assoc simp_thms)
    moreover have "le32 ?g 32 = le32 ?b 32" using 1 assms(2) by (intro le32_outside) auto
    ultimately show False using g b by (metis word_unat_eq_iff)
  next
    case 2
    then have parts: "take 32 (pre @ zs @ post) = take 32 pre \<and> drop 36 (pre @ zs @ post) = drop (36 - (length pre + length xs)) post"
      if "length zs = length xs" for zs using that by (simp add: diff_diff_add)
    have "image_crc ?g = image_crc ?b"
      unfolding crcs by (simp only: parts [OF refl] parts [OF assms(2)])
    then have le: "le32 ?g 32 = le32 ?b 32" using g b by simp
    have "xs ! k = ys ! k" if "k < length xs" for k
    proof -
      have k: "length pre - 32 + k < 4" "32 + (length pre - 32 + k) = length pre + k" using 2 that by linarith+
      then have "unat (xs ! k) = unat (ys ! k)"
        using le32_inj [OF le k(1)] byte_inside [OF that] byte_inside [of k ys] that assms(2) by simp
      then show ?thesis by (simp add: word_unat_eq_iff)
    qed
    then show False using assms(2,4) by (metis nth_equalityI)
  next
    case 3
    then have parts: "take 32 (pre @ zs @ post) = take 32 pre \<and>
        take (m - 36) (drop 36 (pre @ zs @ post)) = drop 36 pre @ zs @ take (m - (length pre + length xs)) post"
      if "length zs = length xs" for zs
      using that assms(5) by (simp add: m_def diff_diff_add take_all)
    have "image_crc ?b \<noteq> image_crc ?g"
      unfolding crcs using crc_catches_burst [OF assms(2,3,4), of 0 "take 32 pre @ replicate 4 0 @ drop 36 pre"]
      by (simp only: parts [OF refl] parts [OF assms(2)] append_assoc simp_thms)
    moreover have "le32 ?g 32 = le32 ?b 32" using 3 assms(2) by (intro le32_outside) auto
    ultimately show False using g b by (metis word_unat_eq_iff)
  qed
qed

text \<open>A module of four bytes of code and four of statics, sealed with the checksum of its own bytes.\<close>

definition small_head :: image where
  "small_head = [82, 86, 57, 77, 40, 0, 15, 0, 48, 0, 0, 0, 40, 0, 0, 0, 44, 0, 0, 0, 4, 0, 0, 0, 0, 0, 0, 0, 1, 0, 1, 0]"

definition small_crc :: u32 where
  "small_crc = rv9_crc32 0 (small_head @ replicate 4 0 @ [0, 0, 0, 0, 97, 0, 0, 0] @ [19] @ [0, 0, 0])"

definition small_seal :: image where
  "small_seal = enc16 (unat small_crc mod 65536) @ enc16 (unat small_crc div 65536)"

definition small_module :: "8 word \<Rightarrow> image" where
  "small_module b = (small_head @ small_seal @ [0, 0, 0, 0, 97, 0, 0, 0]) @ [b] @ [0, 0, 0]"

lemma small_lengths: "length small_head = 32" "length small_seal = 4" "length (small_module b) = 48"
  by (simp_all add: small_head_def small_seal_def small_module_def enc16_def)

lemma small_header:
  "header_of (small_module b) = \<lparr>h_magic = 0x4D395652, h_header_len = 40, h_abi_version = 15, h_module_len = 48,
     h_name_offset = 40, h_entry_offset = 44, h_static_size = 4, h_stack_size = 0, h_type = 1, h_attr = 0,
     h_revision = 1, h_crc32 = unat small_crc, h_manifest_offset = 0\<rparr>"
proof -
  have f: "byte_at (small_module b) i = byte_at small_head i" if "i < 32" for i
    using that byte_at_front [of i small_head] by (simp add: small_module_def small_lengths)
  have d32: "drop 32 (small_module b) = enc16 (unat small_crc mod 65536) @ enc16 (unat small_crc div 65536) @
      [0, 0, 0, 0, 97, 0, 0, 0] @ [b] @ [0, 0, 0]"
    by (simp add: small_module_def small_lengths small_seal_def)
  then have d34: "drop (32 + 2) (small_module b) = enc16 (unat small_crc div 65536) @ [0, 0, 0, 0, 97, 0, 0, 0] @ [b] @ [0, 0, 0]"
    using drop_shift [OF d32] by (simp add: enc16_def)
  have "unat small_crc < W32" using unsigned_less [of small_crc, where 'a = nat] by simp
  then have "unat small_crc div 65536 < 65536" by (simp add: less_mult_imp_div_less)
  then have crc: "le32 (small_module b) 32 = unat small_crc"
    using le16_drop [OF d32] le16_drop [OF d34] by (simp add: le32_def)
  have man: "le32 (small_module b) 36 = 0"
    by (simp add: le32_def le16_def byte_at_def small_module_def nth_append small_lengths)
  have w: "i < 31 \<Longrightarrow> le16 (small_module b) i = byte_at small_head i + 256 * byte_at small_head (i + 1)" for i
    by (simp add: le16_def f)
  show ?thesis
    unfolding header_of_def crc man by (simp add: le32_def w f) (simp add: byte_at_def small_head_def)
qed

lemma small_verifies: "rv9_mod_verify (Some (small_module 19)) 48 = RV9_MOD_OK"
proof -
  have "image_crc (small_module 19) = small_crc"
    unfolding image_crc_joined small_header
    by (simp add: small_module_def small_lengths small_crc_def)
  then show ?thesis
    by (simp add: rv9_mod_verify_def small_header Let_def RV9_MODULE_HDR_LEN_def RV9_MODULE_MAGIC_def
        RV9_MODULE_ABI_def manifest_check_def manifest_walk_def)
qed

lemma damage_caught_witness: "rv9_mod_verify (Some (small_module 20)) 48 \<noteq> RV9_MOD_OK"
  using damage_caught [OF small_verifies [unfolded small_module_def], of "[20]"] small_header [of 19]
  by (simp add: small_module_def small_lengths)

end
