(* ===== verification/ModuleProps.thy ===== *)
theory ModuleProps
  imports Modules ManifestProps "HOL-Library.Multiset"
begin

text \<open>Links and images: what is loaded stays, whole and verified, while anybody holds it.\<close>

section \<open>Runs\<close>

text \<open>A registered image is at most the 64 KB that \<open>rv9_mod_load_path\<close> reads.\<close>

datatype mod_op = MLink nat "string option" | MUnlink nat | MRegister nat bool image nat | MStack nat nat nat

fun mod_step :: "(nat \<Rightarrow> nat \<Rightarrow> image option) \<Rightarrow> modsys \<Rightarrow> mod_op \<Rightarrow> modsys" where
  "mod_step rd s (MLink addr name) = fst (rv9_mod_link rd addr name s)"
| "mod_step rd s (MUnlink i) = (if i < length (m_dir s) then fst (rv9_mod_unlink (Some i) s) else s)"
| "mod_step rd s (MRegister addr room img len) =
     (if len \<le> 65536 then fst (rv9_mod_register_image addr room img len s) else s)"
| "mod_step rd s (MStack i given used) =
     (if i < length (m_dir s) then rv9_mod_note_stack (Some i) given used s else s)"

text \<open>The executable block an entry holds.\<close>

definition block_of :: "mod_entry \<Rightarrow> nat list" where
  "block_of e = (case m_image e of None \<Rightarrow> [] | Some (a, _) \<Rightarrow> if m_in_place e then [] else [a])"

definition held_blocks :: "modsys \<Rightarrow> nat list" where
  "held_blocks s = concat (map block_of (m_dir s))"

definition entry_ok :: "mod_entry \<Rightarrow> bool" where
  "entry_ok e \<longleftrightarrow>
     (m_resident e \<longrightarrow> m_image e \<noteq> None \<and> \<not> m_in_place e) \<and>
     (\<not> m_resident e \<longrightarrow> (m_image e = None) = (m_link_count e = 0)) \<and>
     (m_image e = None \<longrightarrow> \<not> m_in_place e \<and> m_entry e = None) \<and>
     (\<forall>a img. m_image e = Some (a, img) \<longrightarrow>
        m_entry e = Some (a + h_entry_offset (header_of img)) \<and> rv9_mod_verify (Some img) (m_size e) = RV9_MOD_OK)"

definition mods_ok :: "nat \<Rightarrow> modsys \<Rightarrow> bool" where
  "mods_ok n s \<longleftrightarrow>
     list_all entry_ok (m_dir s) \<and> list_all (\<lambda>e. m_link_count e \<le> n) (m_dir s) \<and>
     mset (m_taken s) = mset (held_blocks s) + mset (m_freed s)"

lemma mods_mono: "mods_ok n s \<Longrightarrow> n \<le> m \<Longrightarrow> mods_ok m s"
  by (auto simp: mods_ok_def list_all_iff)

lemma mset_blocks_update:
  "i < length es \<Longrightarrow> mset (concat (map block_of (es[i := e]))) + mset (block_of (es ! i)) =
     mset (concat (map block_of es)) + mset (block_of e)"
  by (induction es arbitrary: i) (auto split: nat.splits simp: ac_simps)

lemma list_all_update: "list_all P es \<Longrightarrow> P e \<Longrightarrow> list_all P (es[i := e])"
  by (auto simp: list_all_iff dest: subsetD [OF set_update_subset_insert])

text \<open>Changing one entry, what it holds and what was taken and freed in step.\<close>

lemma mods_update:
  assumes "mods_ok n s" "i < length (m_dir s)" "n \<le> n'"
    and "entry_ok (f (m_dir s ! i))" "m_link_count (f (m_dir s ! i)) \<le> n'"
    and "m_dir s' = m_dir s" "mset (m_taken s') = mset (m_taken s) + mset t" "mset (m_freed s') = mset (m_freed s) + mset g"
    and "mset t + mset (block_of (m_dir s ! i)) = mset g + mset (block_of (f (m_dir s ! i)))"
  shows "mods_ok n' (upd_entry i f s')"
proof -
  have dir: "m_dir (upd_entry i f s') = (m_dir s)[i := f (m_dir s ! i)]"
    and tf: "m_taken (upd_entry i f s') = m_taken s'" "m_freed (upd_entry i f s') = m_freed s'"
    using assms(6) by (simp_all add: upd_entry_def)
  have old: "list_all entry_ok (m_dir s)" "list_all (\<lambda>e. m_link_count e \<le> n) (m_dir s)"
    "mset (m_taken s) = mset (held_blocks s) + mset (m_freed s)" using assms(1) by (simp_all add: mods_ok_def)
  then have "list_all (\<lambda>e. m_link_count e \<le> n') (m_dir s)" using assms(3) by (auto simp: list_all_iff)
  moreover have "mset (held_blocks (upd_entry i f s')) + mset (block_of (m_dir s ! i)) =
      mset (held_blocks s) + mset (block_of (f (m_dir s ! i)))"
    using mset_blocks_update [OF assms(2), of "f (m_dir s ! i)"] by (simp add: held_blocks_def dir)
  then have "mset (m_taken s') = mset (held_blocks (upd_entry i f s')) + mset (m_freed s')"
  proof -
    let ?B = "mset (block_of (m_dir s ! i))" and ?B' = "mset (block_of (f (m_dir s ! i)))"
      and ?H' = "mset (held_blocks (upd_entry i f s'))"
    assume h: "?H' + ?B = mset (held_blocks s) + ?B'"
    have "mset (m_taken s') + ?B = mset (held_blocks s) + mset (m_freed s) + (mset t + ?B)"
      using old(3) assms(7) by (simp add: ac_simps)
    also have "\<dots> = (mset (held_blocks s) + ?B') + (mset (m_freed s) + mset g)"
      unfolding assms(9) by (simp add: ac_simps)
    also have "\<dots> = (?H' + mset (m_freed s')) + ?B" unfolding h [symmetric] assms(8) by (simp add: ac_simps)
    finally show ?thesis by simp
  qed
  ultimately show ?thesis
    using old(1) assms(4,5) by (simp add: mods_ok_def dir tf list_all_update)
qed

lemma mods_entry: "mods_ok n s \<Longrightarrow> i < length (m_dir s) \<Longrightarrow> entry_ok (m_dir s ! i) \<and> m_link_count (m_dir s ! i) \<le> n"
  by (simp add: mods_ok_def list_all_length)

lemma mod_find_some:
  "rv9_mod_find name s = Some i \<Longrightarrow> i < length (m_dir s) \<and> m_name (m_dir s ! i) = name"
  using best_of_mem [of "newer s" None _ i] by (fastforce simp: rv9_mod_find_def)

lemma mods_link:
  assumes "mods_ok n s" "n + 1 < W32"
  shows "mods_ok (n + 1) (fst (rv9_mod_link rd addr name s))"
proof -
  have skip: "mods_ok (n + 1) s" using assms(1) by (rule mods_mono) simp
  have gone: "mods_ok (n + 1) (give_back addr (take_exec addr s))"
    using skip by (simp add: mods_ok_def give_back_def take_exec_def held_blocks_def)
  show ?thesis
  proof (cases "name = None \<or> (\<exists>m. name = Some m \<and> rv9_mod_find m s = None)")
    case True
    then show ?thesis using skip by (auto simp: rv9_mod_link_def)
  next
    case False
    then obtain m i where m: "name = Some m" "rv9_mod_find m s = Some i" by auto
    let ?e = "m_dir s ! i"
    have i: "i < length (m_dir s)" using mod_find_some [OF m(2)] by simp
    have e: "entry_ok ?e" "m_link_count ?e \<le> n" using mods_entry [OF assms(1) i] by simp_all
    have res: "m_image ?e = None \<Longrightarrow> \<not> m_resident ?e" using e by (auto simp: entry_ok_def)
    show ?thesis
    proof (cases "m_image ?e")
      case (Some x)
      let ?f = "\<lambda>e. e\<lparr>m_link_count := cast32 (m_link_count e + 1)\<rparr>"
      have c: "cast32 (m_link_count ?e + 1) = m_link_count ?e + 1" using e(2) assms(2) by simp
      have "mods_ok (n + 1) (upd_entry i ?f s)"
        by (rule mods_update [OF assms(1) i, where t = "[]" and g = "[]"])
          (use e Some c in \<open>auto simp: entry_ok_def block_of_def\<close>)
      then show ?thesis using m Some by (simp add: rv9_mod_link_def Let_def)
    next
      case None
      have set: "mods_ok (n + 1) (upd_entry i (link_set a img ip) s')"
        if "rv9_mod_verify (Some img) (m_size ?e) = RV9_MOD_OK" "m_dir s' = m_dir s" "m_freed s' = m_freed s"
          "m_taken s' = (if ip then [] else [a]) @ m_taken s" for a img ip s'
        by (rule mods_update [OF assms(1) i, where t = "if ip then [] else [a]" and g = "[]"])
          (use that e None res in \<open>auto simp: entry_ok_def block_of_def link_set_def\<close>)
      show ?thesis
        using m None gone skip set [of "mapped_image s ?e" s True] set [of _ "take_exec addr s" False]
        by (auto simp: rv9_mod_link_def Let_def runs_in_place_def take_exec_def split: option.splits)
    qed
  qed
qed

lemma mods_unlink:
  assumes "mods_ok n s" "i < length (m_dir s)"
  shows "mods_ok n (fst (rv9_mod_unlink (Some i) s))"
proof -
  let ?e = "m_dir s ! i"
  have e: "entry_ok ?e" "m_link_count ?e \<le> n" using mods_entry [OF assms] by simp_all
  show ?thesis
  proof (cases "m_link_count ?e = 0")
    case True
    then show ?thesis using assms(1) by (simp add: rv9_mod_unlink_def Let_def)
  next
    case False
    define c where "c = m_link_count ?e - 1"
    consider "c = 0" "\<not> m_resident ?e" "\<not> m_in_place ?e" | "c = 0" "m_in_place ?e" | "c \<noteq> 0 \<or> m_resident ?e"
      by blast
    then show ?thesis
    proof cases
      case 1
      obtain a img where im: "m_image ?e = Some (a, img)" using e 1 False by (auto simp: entry_ok_def)
      have "mods_ok n (upd_entry i (\<lambda>e. e\<lparr>m_link_count := c, m_image := None, m_entry := None\<rparr>) (give_back a s))"
        by (rule mods_update [OF assms order_refl, where t = "[]" and g = "[a]"])
          (use e 1 im in \<open>auto simp: entry_ok_def block_of_def give_back_def\<close>)
      then show ?thesis using 1 False im by (simp add: rv9_mod_unlink_def Let_def c_def)
    next
      case 2
      have "mods_ok n (upd_entry i (\<lambda>e. e\<lparr>m_link_count := c, m_image := None, m_entry := None, m_in_place := False\<rparr>) s)"
        by (rule mods_update [OF assms order_refl, where t = "[]" and g = "[]"])
          (use e 2 in \<open>auto simp: entry_ok_def block_of_def split: option.splits\<close>)
      then show ?thesis using 2 False e by (auto simp: rv9_mod_unlink_def Let_def c_def entry_ok_def)
    next
      case 3
      have np: "c = 0 \<Longrightarrow> \<not> m_in_place ?e" using 3 e by (auto simp: entry_ok_def)
      have "mods_ok n (upd_entry i (\<lambda>e. e\<lparr>m_link_count := c\<rparr>) s)"
        by (rule mods_update [OF assms order_refl, where t = "[]" and g = "[]"])
          (use e 3 False in \<open>auto simp: entry_ok_def block_of_def c_def split: option.splits\<close>)
      then show ?thesis using 3 False np by (auto simp: rv9_mod_unlink_def Let_def c_def)
    qed
  qed
qed

lemma mods_append:
  "mods_ok n s \<Longrightarrow> entry_ok e \<Longrightarrow> m_link_count e \<le> n \<Longrightarrow> m_taken s' = block_of e @ m_taken s \<Longrightarrow>
   m_dir s' = m_dir s \<Longrightarrow> m_freed s' = m_freed s \<Longrightarrow> mods_ok n (dir_append e s')"
  by (auto simp: mods_ok_def dir_append_def held_blocks_def)

lemma mods_register:
  assumes "mods_ok n s" "len + 65536 \<le> W32"
  shows "mods_ok n (fst (rv9_mod_register_image addr room img len s))"
proof (cases "rv9_mod_verify (Some img) len = RV9_MOD_OK")
  case True
  note cut = verify_cut [OF True assms(2)]
  have "mods_ok n (give_back addr (take_exec addr s))"
    using assms(1) by (simp add: mods_ok_def give_back_def take_exec_def held_blocks_def)
  then show ?thesis
    using assms(1) True cut
    by (auto simp: rv9_mod_register_image_def Let_def take_exec_def intro!: mods_append [OF assms(1)]
        simp: entry_ok_def zero_entry_def block_of_def)
qed (use assms in \<open>simp add: rv9_mod_register_image_def\<close>)

lemma mods_stack:
  assumes "mods_ok n s" "i < length (m_dir s)"
  shows "mods_ok n (rv9_mod_note_stack (Some i) given used s)"
  unfolding rv9_mod_note_stack_def option.case
  by (rule mods_update [OF assms order_refl, where t = "[]" and g = "[]"])
    (use mods_entry [OF assms] in \<open>auto simp: entry_ok_def block_of_def\<close>)

lemma mods_step: "mods_ok n s \<Longrightarrow> n + 1 < W32 \<Longrightarrow> mods_ok (n + 1) (mod_step rd s x)"
  using mods_mono [of n s "n + 1"]
  by (cases x) (auto intro!: mods_link [simplified] mods_mono [OF mods_unlink] mods_mono [OF mods_register] mods_mono [OF mods_stack])

lemma mods_run: "mods_ok n s \<Longrightarrow> n + length ops < W32 \<Longrightarrow> mods_ok (n + length ops) (foldl (mod_step rd) s ops)"
proof (induction ops arbitrary: n s)
  case (Cons x ops)
  have "mods_ok (n + 1) (mod_step rd s x)" using Cons.prems by (intro mods_step) simp_all
  then show ?case using Cons.IH [of "n + 1" "mod_step rd s x"] Cons.prems(2) by simp
qed simp

definition unloaded :: "mod_entry \<Rightarrow> bool" where
  "unloaded e \<longleftrightarrow> m_image e = None \<and> m_link_count e = 0 \<and> \<not> m_resident e \<and> \<not> m_in_place e \<and> m_entry e = None"

definition holds_right :: "mod_entry \<Rightarrow> bool" where
  "holds_right e \<longleftrightarrow>
     (if m_link_count e = 0 \<and> \<not> m_resident e then m_image e = None \<and> m_entry e = None
      else \<exists>a img. m_image e = Some (a, img) \<and> rv9_mod_verify (Some img) (m_size e) = RV9_MOD_OK \<and>
        m_entry e = Some (a + h_entry_offset (header_of img)) \<and>
        h_entry_offset (header_of img) < h_module_len (header_of img) \<and> h_module_len (header_of img) \<le> m_size e)"

lemma entry_ok_holds:
  assumes "entry_ok e"
  shows "holds_right e"
proof (cases "m_image e")
  case None
  then show ?thesis using assms by (auto simp: entry_ok_def holds_right_def)
next
  case (Some x)
  obtain a img where x: "x = (a, img)" by (cases x)
  have v: "rv9_mod_verify (Some img) (m_size e) = RV9_MOD_OK" using assms Some x by (simp add: entry_ok_def)
  then have "h_entry_offset (header_of img) < h_module_len (header_of img)" "h_module_len (header_of img) \<le> m_size e"
    by (auto simp: rv9_mod_verify_def Let_def split: if_splits)
  then show ?thesis using assms Some x v by (auto simp: entry_ok_def holds_right_def)
qed

text \<open>C18: from a directory just scanned, after any links, unlinks and loads with whatever the
  allocator and the flash answer: every executable block taken is held by exactly one entry or
  was given back exactly once, a module that is linked or resident has an image that passes
  verification and an entry point inside it, and any other holds nothing.\<close>

theorem loaded_modules_hold:
  assumes "list_all unloaded (m_dir s)" "m_taken s = []" "m_freed s = []" "length ops < W32"
    "foldl (mod_step rd) s ops = s'"
  shows "mset (m_taken s') = mset (held_blocks s') + mset (m_freed s') \<and>
    list_all (\<lambda>e. if m_link_count e = 0 \<and> \<not> m_resident e then m_image e = None \<and> m_entry e = None
      else \<exists>a img. m_image e = Some (a, img) \<and> rv9_mod_verify (Some img) (m_size e) = RV9_MOD_OK \<and>
        m_entry e = Some (a + h_entry_offset (header_of img)) \<and>
        h_entry_offset (header_of img) < h_module_len (header_of img) \<and> h_module_len (header_of img) \<le> m_size e)
      (m_dir s')"
proof -
  have "concat (map block_of es) = []" if "list_all unloaded es" for es
    using that by (induction es) (auto simp: unloaded_def block_of_def)
  then have "mods_ok 0 s"
    using assms(1-3) by (auto simp: mods_ok_def held_blocks_def list_all_iff unloaded_def entry_ok_def)
  then have ok: "mods_ok (length ops) s'" using mods_run [of 0 s ops rd] assms(4,5) by simp
  then have "list_all entry_ok (m_dir s')" by (simp add: mods_ok_def)
  then have "list_all holds_right (m_dir s')" using entry_ok_holds by (auto simp: list_all_iff)
  then show ?thesis using ok by (simp add: mods_ok_def holds_right_def [abs_def])
qed

definition one_store :: modsys where
  "one_store = \<lparr>m_dir = [zero_entry\<lparr>m_name := ''a'', m_type := 1, m_revision := 1, m_size := 48\<rparr>],
     m_store = Some (small_module 19), m_store_map = 0, m_xip = False, m_taken = [], m_freed = []\<rparr>"

definition one_read :: "nat \<Rightarrow> nat \<Rightarrow> image option" where
  "one_read off n = Some (take n (drop off (small_module 19)))"

lemma one_link:
  "rv9_mod_link one_read 4096 (Some ''a'') one_store =
     (upd_entry 0 (link_set 4096 (small_module 19) False) (take_exec 4096 one_store), Inr 0)"
proof -
  have "rv9_mod_find ''a'' one_store = Some 0" by (simp add: rv9_mod_find_def one_store_def)
  moreover have "one_read 0 48 = Some (small_module 19)" by (simp add: one_read_def small_lengths)
  ultimately show ?thesis
    using small_verifies by (simp add: rv9_mod_link_def one_store_def zero_entry_def runs_in_place_def)
qed

lemma loaded_modules_hold_witness:
  "let s' = foldl (mod_step one_read) one_store [MLink 4096 (Some ''a'')] in
     m_taken s' = [4096] \<and> m_freed s' = [] \<and> mset (m_taken s') = mset (held_blocks s') + mset (m_freed s')"
proof -
  have "list_all unloaded (m_dir one_store)" "m_taken one_store = []" "m_freed one_store = []"
    by (simp_all add: one_store_def unloaded_def zero_entry_def)
  from loaded_modules_hold [OF this, of "[MLink 4096 (Some ''a'')]" one_read, OF _ refl] show ?thesis
    by (simp add: one_link Let_def) (simp add: upd_entry_def take_exec_def one_store_def)
qed

interpretation newest: strict_better "newer s" for s
  by unfold_locales (auto simp: newer_def)

lemma find_newest:
  assumes "rv9_mod_find name s = Some i" "j < length (m_dir s)" "m_name (m_dir s ! j) = name"
  shows "m_revision (m_dir s ! j) \<le> m_revision (m_dir s ! i)"
    "j < i \<Longrightarrow> m_revision (m_dir s ! j) < m_revision (m_dir s ! i)"
proof -
  let ?xs = "filter (\<lambda>i. m_name (m_dir s ! i) = name) [0..<length (m_dir s)]"
  have j: "j \<in> set ?xs" using assms(2,3) by simp
  show "m_revision (m_dir s ! j) \<le> m_revision (m_dir s ! i)"
    using newest.best_of_unbeaten [OF assms(1) [unfolded rv9_mod_find_def] j] by (simp add: newer_def)
  assume "j < i"
  obtain ys zs where xs: "?xs = ys @ i # zs" "\<forall>y\<in>set ys. newer s i y"
    using newest.best_of_first_in [OF assms(1) [unfolded rv9_mod_find_def]] by blast
  have "sorted_wrt (<) (ys @ i # zs)" unfolding xs(1) [symmetric] by (simp add: sorted_wrt_filter)
  then have "\<forall>z\<in>set zs. i < z" by (simp add: sorted_wrt_append)
  then have "j \<in> set ys" using j \<open>j < i\<close> unfolding xs(1) by auto
  then show "m_revision (m_dir s ! j) < m_revision (m_dir s ! i)" using xs(2) by (simp add: newer_def)
qed

lemma link_found:
  assumes "rv9_mod_link rd addr (Some name) s = (s', Inr i)"
  shows "rv9_mod_find name s = Some i"
  using assms by (auto simp: rv9_mod_link_def Let_def split: option.splits if_splits)

text \<open>A link is to the entry of that name with the highest revision, the first of them on a
  tie; it counts one more holder, every other entry is as it was, and an image already loaded
  is shared, not loaded again. A link that fails leaves the directory as it was, with every
  block it took given back.\<close>

theorem link_newest:
  assumes "rv9_mod_link rd addr (Some name) s = (s', r)"
  shows "case r of
      Inr i \<Rightarrow> i < length (m_dir s) \<and> m_name (m_dir s ! i) = name \<and>
        (\<forall>j<length (m_dir s). m_name (m_dir s ! j) = name \<longrightarrow> m_revision (m_dir s ! j) \<le> m_revision (m_dir s ! i) \<and>
           (j < i \<longrightarrow> m_revision (m_dir s ! j) < m_revision (m_dir s ! i))) \<and>
        (\<forall>j. j \<noteq> i \<longrightarrow> m_dir s' ! j = m_dir s ! j) \<and> m_image (m_dir s' ! i) \<noteq> None \<and>
        m_link_count (m_dir s' ! i) = (if m_image (m_dir s ! i) = None then 1 else cast32 (m_link_count (m_dir s ! i) + 1)) \<and>
        (m_image (m_dir s ! i) \<noteq> None \<longrightarrow> m_image (m_dir s' ! i) = m_image (m_dir s ! i) \<and> m_taken s' = m_taken s)
    | Inl e \<Rightarrow> m_dir s' = m_dir s \<and> (\<exists>t. m_taken s' = t @ m_taken s \<and> m_freed s' = t @ m_freed s)"
proof (cases r)
  case (Inl e)
  have "s' = s \<or> s' = give_back addr (take_exec addr s)"
    using assms Inl by (auto simp: rv9_mod_link_def Let_def split: option.splits if_splits)
  then show ?thesis using Inl by (auto simp: give_back_def take_exec_def)
next
  case (Inr i)
  have found: "rv9_mod_find name s = Some i" using link_found assms Inr by simp
  have i: "i < length (m_dir s)" "m_name (m_dir s ! i) = name" using mod_find_some [OF found] by simp_all
  have "(\<forall>j. j \<noteq> i \<longrightarrow> m_dir s' ! j = m_dir s ! j) \<and> m_image (m_dir s' ! i) \<noteq> None \<and>
      m_link_count (m_dir s' ! i) = (if m_image (m_dir s ! i) = None then 1 else cast32 (m_link_count (m_dir s ! i) + 1)) \<and>
      (m_image (m_dir s ! i) \<noteq> None \<longrightarrow> m_image (m_dir s' ! i) = m_image (m_dir s ! i) \<and> m_taken s' = m_taken s)"
  proof (cases "m_image (m_dir s ! i)")
    case None
    then have "\<exists>a img ip. m_dir s' = (m_dir s)[i := link_set a img ip (m_dir s ! i)]"
      using assms Inr found by (auto simp: rv9_mod_link_def Let_def take_exec_def upd_entry_def split: option.splits if_splits)
        (rule exI, rule exI, rule exI, rule refl)+
    then show ?thesis using None i(1) by (auto simp: link_set_def)
  next
    case (Some x)
    then have "s' = upd_entry i (\<lambda>e. e\<lparr>m_link_count := cast32 (m_link_count e + 1)\<rparr>) s"
      using assms Inr found by (simp add: rv9_mod_link_def Let_def)
    then show ?thesis using Some i(1) by (simp add: upd_entry_def)
  qed
  then show ?thesis using Inr i find_newest [OF found] by simp
qed

lemma link_newest_witness:
  "snd (rv9_mod_link one_read 4096 (Some ''a'') one_store) = Inr 0 \<and>
   m_link_count (m_dir (fst (rv9_mod_link one_read 4096 (Some ''a'') one_store)) ! 0) = 1"
  using link_newest [OF one_link] by (simp add: one_link) (simp add: one_store_def zero_entry_def)

end
