(* ===== verification/ScanProps.thy ===== *)
theory ScanProps
  imports ModuleProps
begin

text \<open>The scan of the module store at boot: it ends, and lists what verifies.\<close>

section \<open>One turn of the scan\<close>

lemma align4_bounds: "n + 3 < W32 \<Longrightarrow> n \<le> align4 n \<and> align4 n \<le> n + 3"
proof -
  assume "n + 3 < W32"
  then have "align4 n = (n + 3) div 4 * 4" by (simp add: align4_def)
  then show ?thesis by presburger
qed

text \<open>Either the scan is over, or it goes on past the module, which may have been added.\<close>

lemma scan_turn:
  assumes "off \<le> sz + 3" "sz + 64 < W32" "\<forall>n. mem (Some n) \<longrightarrow> n + sz + 64 < W32"
  shows "scan_store rd mem sz off found s = Some (s, found) \<or>
    (\<exists>off' es. off < off' \<and> off' \<le> sz + 3 \<and> length es \<le> 1 \<and>
      scan_store rd mem sz off found s =
        scan_store rd mem sz off' (found + length es) (s\<lparr>m_dir := m_dir s @ es\<rparr>) \<and>
      (\<forall>e\<in>set es. unloaded e \<and> m_store_offset e = off \<and> off + m_size e \<le> off' \<and> off + m_size e \<le> sz \<and>
         (\<exists>buf. rd off (m_size e) = Some buf \<and> rv9_mod_verify (Some buf) (m_size e) = RV9_MOD_OK)))"
proof -
  let ?go = "scan_store rd mem sz off found s"
  consider "?go = Some (s, found)"
    | hb where "off + RV9_MODULE_HDR_LEN \<le> sz" "rd off RV9_MODULE_HDR_LEN = Some hb"
        "RV9_MODULE_HDR_LEN \<le> h_module_len (header_of hb)" "cast32 (off + h_module_len (header_of hb)) \<le> sz"
        "mem (Some (h_module_len (header_of hb)))"
        "?go = (let len = h_module_len (header_of hb) in case rd off len of
            None \<Rightarrow> scan_store rd mem sz (cast32 (off + align4 len)) found s
          | Some buf \<Rightarrow>
              if rv9_mod_verify (Some buf) len \<noteq> RV9_MOD_OK
              then scan_store rd mem sz (cast32 (off + align4 len)) found s
              else if \<not> mem None then Some (s, found)
              else scan_store rd mem sz (cast32 (off + align4 len)) (found + 1)
                     (dir_append (store_entry (header_of hb) buf off) s))"
  proof (cases "cast32 (off + RV9_MODULE_HDR_LEN) > sz \<or> rd off RV9_MODULE_HDR_LEN = None")
    case True
    then show ?thesis using that(1) unfolding scan_store.simps [of rd mem sz off found s] by auto
  next
    case False
    then obtain hb where hb: "\<not> cast32 (off + RV9_MODULE_HDR_LEN) > sz" "rd off RV9_MODULE_HDR_LEN = Some hb" by auto
    have head: "off + RV9_MODULE_HDR_LEN \<le> sz" using hb(1) assms(1,2) by (simp add: RV9_MODULE_HDR_LEN_def)
    let ?h = "header_of hb"
    let ?bad = "h_magic ?h = UINT32_MAX \<or> h_magic ?h = 0 \<or> h_magic ?h \<noteq> RV9_MODULE_MAGIC \<or>
      h_module_len ?h < RV9_MODULE_HDR_LEN \<or> cast32 (off + h_module_len ?h) > sz \<or> \<not> mem (Some (h_module_len ?h))"
    show ?thesis
    proof (cases ?bad)
      case True
      then have "?go = Some (s, found)"
        unfolding scan_store.simps [of rd mem sz off found s] Let_def using hb by auto
      then show ?thesis by (rule that(1))
    next
      case False
      then have fine: "\<not> (h_magic ?h = UINT32_MAX \<or> h_magic ?h = 0)" "\<not> h_magic ?h \<noteq> RV9_MODULE_MAGIC"
          "\<not> (h_module_len ?h < RV9_MODULE_HDR_LEN \<or> cast32 (off + h_module_len ?h) > sz)" "mem (Some (h_module_len ?h))"
        by blast+
      show ?thesis
      proof (rule that(2) [OF head hb(2)], goal_cases)
        case 4
        show ?case
          unfolding scan_store.simps [of rd mem sz off found s] Let_def if_not_P [OF hb(1)] hb(2) option.case
            if_not_P [OF fine(1)] if_not_P [OF fine(2)] if_not_P [OF fine(3)]
          using fine(4) by (simp only: not_True_eq_False if_False)
      qed (use fine in auto)
    qed
  qed
  then show ?thesis
  proof cases
    case 1
    then show ?thesis by simp
  next
    case 2
    let ?len = "h_module_len (header_of hb)" and ?e = "\<lambda>buf. store_entry (header_of hb) buf off"
    have len: "?len + sz + 64 < W32" using assms(3) 2(5) by blast
    then have sum: "off + ?len \<le> sz" using 2(1,4) by simp
    have al: "?len \<le> align4 ?len" "align4 ?len \<le> ?len + 3" using align4_bounds [of ?len] len by simp_all
    have off': "cast32 (off + align4 ?len) = off + align4 ?len" using al sum assms(2) by simp
    have fwd: "off < off + align4 ?len" "off + align4 ?len \<le> sz + 3"
      using al sum 2(3) by (simp_all add: RV9_MODULE_HDR_LEN_def)
    have over: "?thesis" if "?go = scan_store rd mem sz (off + align4 ?len) found s"
      using that fwd by (intro disjI2 exI [of _ "off + align4 ?len"] exI [of _ "[]"]) simp
    show ?thesis
    proof (cases "rd off ?len")
      case None
      then show ?thesis using 2(6) over off' by (simp add: Let_def)
    next
      case (Some buf)
      have "unloaded (?e buf) \<and> m_store_offset (?e buf) = off \<and> m_size (?e buf) = ?len"
        by (simp add: store_entry_def zero_entry_def unloaded_def)
      then show ?thesis
        using 2(6) Some over off' fwd sum al
        by (cases "rv9_mod_verify (Some buf) ?len = RV9_MOD_OK"; cases "mem None")
          (auto simp: Let_def dir_append_def intro!: exI [of _ "off + align4 ?len"] exI [of _ "[?e buf]"])
    qed
  qed
qed

section \<open>The scan\<close>

definition apart_in_store :: "mod_entry \<Rightarrow> mod_entry \<Rightarrow> bool" where
  "apart_in_store e f \<longleftrightarrow> m_store_offset e + m_size e \<le> m_store_offset f"

definition stored_well :: "(nat \<Rightarrow> nat \<Rightarrow> image option) \<Rightarrow> nat \<Rightarrow> mod_entry \<Rightarrow> bool" where
  "stored_well rd sz e \<longleftrightarrow> unloaded e \<and> m_store_offset e + m_size e \<le> sz \<and>
     (\<exists>buf. rd (m_store_offset e) (m_size e) = Some buf \<and> rv9_mod_verify (Some buf) (m_size e) = RV9_MOD_OK)"

lemma scan_from:
  assumes "off \<le> sz + 3" "sz + 64 < W32" "\<forall>n. mem (Some n) \<longrightarrow> n + sz + 64 < W32"
  shows "\<exists>es. scan_store rd mem sz off found s = Some (s\<lparr>m_dir := m_dir s @ es\<rparr>, found + length es) \<and>
    list_all (stored_well rd sz) es \<and> sorted_wrt apart_in_store es \<and> (\<forall>e\<in>set es. off \<le> m_store_offset e)"
  using assms(1)
proof (induction "sz + 3 - off" arbitrary: off found s rule: less_induct)
  case less
  from scan_turn [OF less.prems assms(2,3), of rd found s] show ?case
  proof (elim disjE exE conjE, goal_cases)
    case 1
    then show ?case by (intro exI [of _ "[]"]) simp
  next
    case (2 off' new)
    let ?s = "s\<lparr>m_dir := m_dir s @ new\<rparr>"
    have "sz + 3 - off' < sz + 3 - off" using 2(1,2) by simp
    from less.hyps [OF this 2(2), of "found + length new" ?s] obtain es where
      es: "scan_store rd mem sz off' (found + length new) ?s =
          Some (?s\<lparr>m_dir := m_dir ?s @ es\<rparr>, found + length new + length es)"
        "list_all (stored_well rd sz) es" "sorted_wrt apart_in_store es" "\<forall>e\<in>set es. off' \<le> m_store_offset e"
      by blast
    have "list_all (stored_well rd sz) new" using 2(5) by (simp add: list_all_iff stored_well_def)
    moreover have "sorted_wrt apart_in_store new" using 2(3) by (cases new) auto
    moreover have "\<forall>e\<in>set new. \<forall>f\<in>set es. apart_in_store e f"
      using 2(5) es(4) by (fastforce simp: apart_in_store_def)
    ultimately show ?case
      using 2 es by (intro exI [of _ "new @ es"]) (auto simp: sorted_wrt_append intro: le_trans less_imp_le)
  qed
qed

section \<open>What the scan is to find\<close>

text \<open>The first header of the store is at its start; after a header whose module fits in the store comes the
  next, at the next multiple of four.\<close>

definition header_at :: "(nat \<Rightarrow> nat \<Rightarrow> image option) \<Rightarrow> nat \<Rightarrow> nat \<Rightarrow> mod_header \<Rightarrow> bool" where
  "header_at rd sz off h \<longleftrightarrow> off + RV9_MODULE_HDR_LEN \<le> sz \<and> (\<exists>hb. rd off RV9_MODULE_HDR_LEN = Some hb \<and> h = header_of hb) \<and>
     h_magic h = RV9_MODULE_MAGIC \<and> RV9_MODULE_HDR_LEN \<le> h_module_len h \<and> off + h_module_len h \<le> sz"

inductive header_place :: "(nat \<Rightarrow> nat \<Rightarrow> image option) \<Rightarrow> nat \<Rightarrow> nat \<Rightarrow> nat \<Rightarrow> bool" for rd sz start where
  first: "header_place rd sz start start"
| after: "header_place rd sz start off \<Longrightarrow> header_at rd sz off h \<Longrightarrow> header_place rd sz start (off + align4 (h_module_len h))"

text \<open>The entries for the modules that verify, at the places of headers from \<open>start\<close> on.\<close>

definition to_find :: "(nat \<Rightarrow> nat \<Rightarrow> image option) \<Rightarrow> nat \<Rightarrow> nat \<Rightarrow> mod_entry set" where
  "to_find rd sz start = {store_entry h buf off | h buf off. header_place rd sz start off \<and> header_at rd sz off h \<and>
     rd off (h_module_len h) = Some buf \<and> rv9_mod_verify (Some buf) (h_module_len h) = RV9_MOD_OK}"

lemma header_unique: "header_at rd sz off h \<Longrightarrow> header_at rd sz off h' \<Longrightarrow> h = h'"
  by (auto simp: header_at_def)

lemma header_place_from:
  assumes "header_at rd sz start h"
  shows "header_place rd sz start off \<longleftrightarrow> off = start \<or> header_place rd sz (start + align4 (h_module_len h)) off"
proof
  assume "header_place rd sz start off"
  then show "off = start \<or> header_place rd sz (start + align4 (h_module_len h)) off"
    by induction (use assms header_unique in \<open>blast intro: header_place.intros\<close>)+
next
  assume "off = start \<or> header_place rd sz (start + align4 (h_module_len h)) off"
  then show "header_place rd sz start off"
  proof
    assume "header_place rd sz (start + align4 (h_module_len h)) off"
    then show ?thesis by induction (use assms in \<open>blast intro: header_place.intros\<close>)+
  qed (simp add: header_place.first)
qed

lemma header_place_end:
  assumes "\<And>h. \<not> header_at rd sz start h" "header_place rd sz start off"
  shows "off = start"
  using assms(2) by induction (use assms(1) in auto)

definition found_here :: "(nat \<Rightarrow> nat \<Rightarrow> image option) \<Rightarrow> nat \<Rightarrow> mod_header \<Rightarrow> mod_entry list" where
  "found_here rd off h =
     (case rd off (h_module_len h) of
        None \<Rightarrow> []
      | Some buf \<Rightarrow> if rv9_mod_verify (Some buf) (h_module_len h) = RV9_MOD_OK then [store_entry h buf off] else [])"

lemma to_find_from:
  assumes "header_at rd sz start h"
  shows "to_find rd sz start = set (found_here rd start h) \<union> to_find rd sz (start + align4 (h_module_len h))"
proof -
  define Q where "Q off = {store_entry h buf off | h buf. header_at rd sz off h \<and> rd off (h_module_len h) = Some buf \<and>
    rv9_mod_verify (Some buf) (h_module_len h) = RV9_MOD_OK}" for off
  have t: "to_find rd sz st = (\<Union>off\<in>{off. header_place rd sz st off}. Q off)" for st by (auto simp: to_find_def Q_def)
  have "Q start = {store_entry h buf start | buf. rd start (h_module_len h) = Some buf \<and> rv9_mod_verify (Some buf) (h_module_len h) = RV9_MOD_OK}"
    unfolding Q_def using assms header_unique [OF assms] by blast
  also have "\<dots> = set (found_here rd start h)" by (cases "rd start (h_module_len h)") (simp_all add: found_here_def)
  finally have q: "Q start = set (found_here rd start h)" .
  have "{off. header_place rd sz start off} = insert start {off. header_place rd sz (start + align4 (h_module_len h)) off}"
    using header_place_from [OF assms] by blast
  then show ?thesis unfolding t q [symmetric] by simp
qed

lemma to_find_end:
  assumes "\<And>h. \<not> header_at rd sz start h"
  shows "to_find rd sz start = {}"
  using header_place_end [OF assms] assms by (auto simp: to_find_def)

text \<open>With memory for what the store can hold the scan stops only where there is no header.\<close>

lemma scan_turn_full:
  assumes "off \<le> sz + 3" "sz + 64 < W32" "\<forall>n. mem (Some n) \<longrightarrow> n + sz + 64 < W32" "\<forall>n\<le> sz. mem (Some n)" "mem None"
  shows "header_at rd sz off h \<Longrightarrow> scan_store rd mem sz off found s =
      scan_store rd mem sz (off + align4 (h_module_len h)) (found + length (found_here rd off h)) (s\<lparr>m_dir := m_dir s @ found_here rd off h\<rparr>)"
    "(\<And>h. \<not> header_at rd sz off h) \<Longrightarrow> scan_store rd mem sz off found s = Some (s, found)"
proof -
  assume h: "header_at rd sz off h"
  then obtain hb where hb: "off + RV9_MODULE_HDR_LEN \<le> sz" "rd off RV9_MODULE_HDR_LEN = Some hb" "h = header_of hb"
    "h_magic h = RV9_MODULE_MAGIC" "RV9_MODULE_HDR_LEN \<le> h_module_len h" "off + h_module_len h \<le> sz" by (auto simp: header_at_def)
  have c: "\<not> cast32 (off + RV9_MODULE_HDR_LEN) > sz" "\<not> cast32 (off + h_module_len h) > sz" using hb(1,6) assms(2) by simp_all
  have al: "cast32 (off + align4 (h_module_len h)) = off + align4 (h_module_len h)"
    using align4_bounds [of "h_module_len h"] hb(6) assms(2) by simp
  have m: "\<not> (h_magic h = UINT32_MAX \<or> h_magic h = 0)" using hb(4) by (simp add: RV9_MODULE_MAGIC_def)
  show "scan_store rd mem sz off found s =
      scan_store rd mem sz (off + align4 (h_module_len h)) (found + length (found_here rd off h)) (s\<lparr>m_dir := m_dir s @ found_here rd off h\<rparr>)"
    by (subst scan_store.simps)
      (use c m hb(2,4,5) assms(4,5) hb(6) in \<open>simp add: hb(3) [symmetric] al found_here_def dir_append_def Let_def split: option.splits\<close>)
next
  assume n: "\<And>h. \<not> header_at rd sz off h"
  show "scan_store rd mem sz off found s = Some (s, found)"
  proof (cases "cast32 (off + RV9_MODULE_HDR_LEN) > sz \<or> rd off RV9_MODULE_HDR_LEN = None")
    case True
    then show ?thesis by (subst scan_store.simps) auto
  next
    case False
    then obtain hb where hb: "\<not> cast32 (off + RV9_MODULE_HDR_LEN) > sz" "rd off RV9_MODULE_HDR_LEN = Some hb" by auto
    let ?h = "header_of hb"
    have head: "off + RV9_MODULE_HDR_LEN \<le> sz" using hb(1) assms(1,2) by (simp add: RV9_MODULE_HDR_LEN_def)
    have "h_magic ?h = RV9_MODULE_MAGIC \<and> RV9_MODULE_HDR_LEN \<le> h_module_len ?h \<and> cast32 (off + h_module_len ?h) \<le> sz \<longrightarrow> \<not> mem (Some (h_module_len ?h))"
    proof (intro impI notI)
      assume a: "h_magic ?h = RV9_MODULE_MAGIC \<and> RV9_MODULE_HDR_LEN \<le> h_module_len ?h \<and> cast32 (off + h_module_len ?h) \<le> sz" "mem (Some (h_module_len ?h))"
      then have "h_module_len ?h + sz + 64 < W32" using assms(3) by blast
      then have "cast32 (off + h_module_len ?h) = off + h_module_len ?h" using assms(1) by simp
      then have "header_at rd sz off ?h" using a(1) head hb(2) by (auto simp: header_at_def)
      then show False using n by blast
    qed
    then show ?thesis by (subst scan_store.simps) (use hb in \<open>auto simp: Let_def\<close>)
  qed
qed

lemma scan_finds:
  assumes "off \<le> sz + 3" "sz + 64 < W32" "\<forall>n. mem (Some n) \<longrightarrow> n + sz + 64 < W32" "\<forall>n\<le> sz. mem (Some n)" "mem None"
  shows "\<exists>es. scan_store rd mem sz off found s = Some (s\<lparr>m_dir := m_dir s @ es\<rparr>, found + length es) \<and> set es = to_find rd sz off"
  using assms(1)
proof (induction "sz + 3 - off" arbitrary: off found s rule: less_induct)
  case less
  note T = scan_turn_full [OF less.prems assms(2-5)]
  show ?case
  proof (cases "\<exists>h. header_at rd sz off h")
    case False
    then show ?thesis using T(2) to_find_end by (intro exI [of _ "[]"]) auto
  next
    case True
    then obtain h where h: "header_at rd sz off h" by blast
    let ?new = "found_here rd off h" and ?off = "off + align4 (h_module_len h)"
    have l: "RV9_MODULE_HDR_LEN \<le> h_module_len h" "off + h_module_len h \<le> sz" using h by (auto simp: header_at_def)
    have al: "h_module_len h \<le> align4 (h_module_len h)" "align4 (h_module_len h) \<le> h_module_len h + 3"
      using align4_bounds [of "h_module_len h"] l(2) assms(2) by simp_all
    have "sz + 3 - ?off < sz + 3 - off" "?off \<le> sz + 3" using al l by (simp_all add: RV9_MODULE_HDR_LEN_def)
    from less.hyps [OF this, of "found + length ?new" "s\<lparr>m_dir := m_dir s @ ?new\<rparr>"] obtain es where
      "scan_store rd mem sz ?off (found + length ?new) (s\<lparr>m_dir := m_dir s @ ?new\<rparr>) =
         Some (s\<lparr>m_dir := m_dir s @ ?new @ es\<rparr>, found + length ?new + length es)" "set es = to_find rd sz ?off" by auto
    then show ?thesis using T(1) [OF h] to_find_from [OF h] by (intro exI [of _ "?new @ es"]) (simp add: add.assoc)
  qed
qed

text \<open>C19: the scan of the store at boot ends, whatever the flash holds, if no allocation of
  nearly 4 GB can succeed. It appends, counted in its answer, entries in the order of the
  store: each lies in the partition, has read as a module that verifies, is not loaded, and
  overlaps no other. And it misses none: when memory for the store can be had, the entries are
  exactly those of the modules that verify, with their names, types and revisions, at the places
  of headers, which run from the start of the store as long as each module fits in it; one that
  does not verify or cannot be read is passed over.\<close>

theorem scan_ends:
  assumes "length flash + 64 < W32" "\<forall>n. mem (Some n) \<longrightarrow> n + length flash + 64 < W32"
  shows "\<exists>s' es. rv9_mod_dir_init rd mem True (Some flash) mapped s = Some (s', length es) \<and>
    m_dir s' = m_dir s @ es \<and> m_store s' = Some flash \<and> m_xip s' = (m_xip s \<or> mapped \<noteq> None) \<and>
    sorted_wrt apart_in_store es \<and>
    list_all (\<lambda>e. m_link_count e = 0 \<and> m_image e = None \<and> \<not> m_resident e \<and>
      m_store_offset e + m_size e \<le> length flash \<and>
      (\<exists>buf. rd (m_store_offset e) (m_size e) = Some buf \<and> rv9_mod_verify (Some buf) (m_size e) = RV9_MOD_OK)) es \<and>
    ((\<forall>n\<le>length flash. mem (Some n)) \<and> mem None \<longrightarrow> set es = to_find rd (length flash) 0)"
proof -
  let ?s = "case mapped of None \<Rightarrow> s\<lparr>m_store := Some flash\<rparr>
    | Some a \<Rightarrow> s\<lparr>m_store := Some flash, m_store_map := a, m_xip := True\<rparr>"
  obtain es where es: "scan_store rd mem (length flash) 0 0 ?s = Some (?s\<lparr>m_dir := m_dir ?s @ es\<rparr>, 0 + length es)"
      "list_all (stored_well rd (length flash)) es" "sorted_wrt apart_in_store es"
    using scan_from [OF _ assms, of 0 rd 0 ?s] by blast
  have all: "set es = to_find rd (length flash) 0" if m: "(\<forall>n\<le>length flash. mem (Some n)) \<and> mem None"
  proof -
    obtain es' where "scan_store rd mem (length flash) 0 0 ?s = Some (?s\<lparr>m_dir := m_dir ?s @ es'\<rparr>, 0 + length es')" "set es' = to_find rd (length flash) 0"
      using scan_finds [OF _ assms conjunct1 [OF m] conjunct2 [OF m], of 0 rd 0 ?s] by blast
    moreover have "es = es'" if "?s\<lparr>m_dir := m_dir ?s @ es\<rparr> = ?s\<lparr>m_dir := m_dir ?s @ es'\<rparr>"
      using arg_cong [OF that, of m_dir] by simp
    ultimately show ?thesis using es(1) by simp
  qed
  from es(2) have "list_all (\<lambda>e. m_link_count e = 0 \<and> m_image e = None \<and> \<not> m_resident e \<and>
      m_store_offset e + m_size e \<le> length flash \<and>
      (\<exists>buf. rd (m_store_offset e) (m_size e) = Some buf \<and> rv9_mod_verify (Some buf) (m_size e) = RV9_MOD_OK)) es"
    by (simp add: list_all_iff stored_well_def unloaded_def)
  then show ?thesis using es(1,3) all
    by (intro exI [of _ "?s\<lparr>m_dir := m_dir ?s @ es\<rparr>"] exI [of _ es])
      (simp add: rv9_mod_dir_init_def Let_def split: option.splits)
qed

lemma scan_ends_witness:
  "let flash = small_module 19; mem = (\<lambda>n. case n of None \<Rightarrow> True | Some k \<Rightarrow> k \<le> 4096) in
     length flash + 64 < W32 \<and>
     (\<exists>s' es. rv9_mod_dir_init one_read mem True (Some flash) None (one_store\<lparr>m_dir := []\<rparr>) = Some (s', length es) \<and>
       m_dir s' = es \<and> m_store s' = Some flash)"
proof -
  let ?mem = "\<lambda>n. case n of None \<Rightarrow> True | Some k \<Rightarrow> k \<le> (4096 :: nat)"
  have "length (small_module 19) + 64 < W32" "\<forall>n. ?mem (Some n) \<longrightarrow> n + length (small_module 19) + 64 < W32"
    by (simp_all add: small_lengths)
  from scan_ends [OF this, of one_read None "one_store\<lparr>m_dir := []\<rparr>"] this(1) show ?thesis
    by (auto simp: Let_def)
qed

end
