(* ===== verification/Admission.thy ===== *)
theory Admission
  imports RtTask ProcTable Manifest
begin

text \<open>
  Admission of real-time processes (components/rv9_proc/src/proc.c, "Admission"): what is
  promised already, the response-time analysis, the placement of the real-time tasks on the
  host's two priorities, and the decision itself. A pointer to a process in an item is its
  pid. \<open>avail\<close> is \<open>rv9_heap_available\<close>.
\<close>

section \<open>Load\<close>

definition RT_UTIL_MAX_PERMILLE :: nat where "RT_UTIL_MAX_PERMILLE = 700"
definition RT_MAX_ANALYSED :: nat where "RT_MAX_ANALYSED = 8"
definition RV9_PLACE_DERIVED :: nat where "RV9_PLACE_DERIVED = 0"
definition RV9_PLACE_URGENT :: nat where "RV9_PLACE_URGENT = 1"
definition RV9_PLACE_ROUTINE :: nat where "RV9_PLACE_ROUTINE = 2"

definition permille :: "nat \<Rightarrow> nat \<Rightarrow> nat" where
  "permille cost interval =
     (if interval = 0 then 0
      else let u = cost * 1000 div interval in if u > 1000 then 1000 else u)"

record load_sums =
  l_total :: nat
  l_declared :: nat
  l_measured :: nat
  l_unknown :: nat

definition live_rt :: "proc \<Rightarrow> bool" where
  "live_rt p \<longleftrightarrow> \<not> (p_state p = RV9_PROC_EXITED \<or> \<not> p_realtime p)"

definition load_one :: "rtsys \<Rightarrow> load_sums \<Rightarrow> proc \<Rightarrow> load_sums" where
  "load_one y l p =
     (if \<not> live_rt p then l
      else if p_period p \<noteq> 0 \<and> p_wcet p \<noteq> 0
      then l\<lparr>l_total := cast32 (l_total l + permille (p_wcet p) (p_period p)), l_declared := l_declared l + 1\<rparr>
      else case if p_period p \<noteq> 0 \<and> p_task p \<noteq> 0 then rv9_rt_stats_for (p_task p) y else None of
        None \<Rightarrow> l\<lparr>l_unknown := l_unknown l + 1\<rparr>
      | Some st \<Rightarrow>
          if rs_activations st > 0
          then l\<lparr>l_total := cast32 (l_total l + permille (rs_max_exec st) (p_period p)), l_measured := l_measured l + 1\<rparr>
          else l\<lparr>l_unknown := l_unknown l + 1\<rparr>)"

definition rt_load :: "rtsys \<Rightarrow> ptable \<Rightarrow> load_sums" where
  "rt_load y t = foldl (load_one y) \<lparr>l_total = 0, l_declared = 0, l_measured = 0, l_unknown = 0\<rparr> (t_procs t)"

record rt_load_info =
  li_used :: nat
  li_ceiling :: nat
  li_declared :: nat
  li_measured :: nat
  li_unaccounted :: nat
  li_slots_used :: nat
  li_slots_total :: nat

definition rv9_proc_rt_load :: "rtsys \<Rightarrow> ptable \<Rightarrow> rt_load_info" where
  "rv9_proc_rt_load y t =
     (let l = rt_load y t in
      \<lparr>li_used = l_total l, li_ceiling = RT_UTIL_MAX_PERMILLE, li_declared = l_declared l, li_measured = l_measured l,
       li_unaccounted = l_unknown l, li_slots_used = rv9_rt_slots_used y, li_slots_total = MAX_RT_TASKS\<rparr>)"

text \<open>The system call: None is -1, and Some the figures the caller's buffer of \<open>len\<close> bytes gets a prefix of.\<close>

definition proc_rt_load_op :: "bool \<Rightarrow> nat \<Rightarrow> rtsys \<Rightarrow> ptable \<Rightarrow> rt_load_info option" where
  "proc_rt_load_op null len y t = (if null \<or> len < 8 then None else Some (rv9_proc_rt_load y t))"

section \<open>Response times\<close>

record rt_item =
  it_proc :: "nat option"
  it_c :: nat
  it_t :: nat
  it_d :: nat
  it_bounded :: bool
  it_urgent :: bool
  it_pin :: nat
  it_bound :: nat

text \<open>Whom item \<open>i\<close> may wait for.\<close>

definition waits_for :: "rt_item list \<Rightarrow> nat \<Rightarrow> nat \<Rightarrow> bool" where
  "waits_for items i j \<longleftrightarrow>
     \<not> (j = i \<or> \<not> it_bounded (items ! j)) \<and> \<not> (it_urgent (items ! i) \<and> \<not> it_urgent (items ! j))"

text \<open>What \<open>j\<close> adds in a window; the sums are 64-bit.\<close>

definition demand :: "rt_item \<Rightarrow> nat \<Rightarrow> nat" where
  "demand x r = (let window = (if r = 0 then 1 else r) in (window + it_t x - 1) div it_t x * it_c x)"

definition response_next :: "rt_item list \<Rightarrow> nat \<Rightarrow> nat \<Rightarrow> nat" where
  "response_next items i r =
     foldl (\<lambda>nx j. if waits_for items i j then (nx + demand (items ! j) r) mod W64 else nx)
       (it_c (items ! i)) [0..<length items]"

fun response_iter :: "nat \<Rightarrow> rt_item list \<Rightarrow> nat \<Rightarrow> nat \<Rightarrow> nat" where
  "response_iter 0 items i r = r"
| "response_iter (Suc k) items i r =
     (let nx = response_next items i r in
      if nx = r then r else if nx > it_d (items ! i) then nx else response_iter k items i nx)"

definition response_bound :: "rt_item list \<Rightarrow> nat \<Rightarrow> nat" where
  "response_bound items i = sat32 (response_iter 64 items i (it_c (items ! i)))"

section \<open>Placement\<close>

text \<open>The items with the bounds filled in, and the first that does not meet its deadline.\<close>

fun level_scan :: "bool \<Rightarrow> nat list \<Rightarrow> rt_item list \<Rightarrow> rt_item list \<times> nat option" where
  "level_scan urgent [] items = (items, None)"
| "level_scan urgent (i # is) items =
     (if \<not> it_bounded (items ! i) \<or> it_urgent (items ! i) \<noteq> urgent then level_scan urgent is items
      else let items' = items[i := (items ! i)\<lparr>it_bound := response_bound items i\<rparr>] in
        if it_bound (items' ! i) > it_d (items' ! i) then (items', Some i) else level_scan urgent is items')"

definition level_meets :: "bool \<Rightarrow> rt_item list \<Rightarrow> rt_item list \<times> nat option" where
  "level_meets urgent items = level_scan urgent [0..<length items] items"

definition urgent_bounded :: "rt_item list \<Rightarrow> nat list" where
  "urgent_bounded items = filter (\<lambda>i. it_bounded (items ! i) \<and> it_urgent (items ! i)) [0..<length items]"

text \<open>The movable urgent task of the longest deadline, the first of them.\<close>

definition place_victim :: "rt_item list \<Rightarrow> nat option" where
  "place_victim items =
     best_of (\<lambda>i v. it_d (items ! i) > it_d (items ! v)) None
       (filter (\<lambda>i. it_pin (items ! i) = RV9_PLACE_DERIVED) (urgent_bounded items))"

definition demote :: "nat \<Rightarrow> rt_item list \<Rightarrow> rt_item list" where
  "demote v items = items[v := (items ! v)\<lparr>it_urgent := False\<rparr>]"

lemma bound_self: "\<exists>b. x = x\<lparr>it_bound := b\<rparr>" for x :: rt_item
  by (rule exI [of _ "it_bound x"]) simp

lemma level_scan_shape:
  assumes "level_scan u is items = (items', r)" "set is \<subseteq> {..<length items}"
  shows "length items' = length items \<and> (\<forall>j<length items. \<exists>b. items' ! j = (items ! j)\<lparr>it_bound := b\<rparr>)"
  using assms
proof (induction u "is" items rule: level_scan.induct)
  case (1 u items)
  then show ?case by (auto intro: bound_self)
next
  case (2 u i "is" items)
  let ?new = "items[i := (items ! i)\<lparr>it_bound := response_bound items i\<rparr>]"
  have i: "i < length items" and "is": "set is \<subseteq> {..<length items}" using 2(4) by auto
  have new: "length ?new = length items \<and> (\<forall>j<length items. \<exists>b. ?new ! j = (items ! j)\<lparr>it_bound := b\<rparr>)"
    using i by (auto simp: nth_list_update intro: bound_self)
  show ?case
  proof (cases "\<not> it_bounded (items ! i) \<or> it_urgent (items ! i) \<noteq> u")
    case True
    then show ?thesis using 2(1) 2(3) "is" by simp
  next
    case False
    show ?thesis
    proof (cases "it_bound (?new ! i) > it_d (?new ! i)")
      case True
      then have "items' = ?new" using 2(3) False by (simp add: Let_def split: if_splits)
      then show ?thesis using new by simp
    next
      case over: False
      then have "level_scan u is ?new = (items', r)" using 2(3) False by (simp add: Let_def split: if_splits)
      from 2(2) [OF False refl over this] "is" have
        "length items' = length ?new \<and> (\<forall>j<length ?new. \<exists>b. items' ! j = (?new ! j)\<lparr>it_bound := b\<rparr>)" by simp
      then show ?thesis using new by fastforce
    qed
  qed
qed

lemma level_meets_shape:
  "level_meets u items = (items', r) \<Longrightarrow>
     length items' = length items \<and> (\<forall>j<length items. \<exists>b. items' ! j = (items ! j)\<lparr>it_bound := b\<rparr>)"
  by (rule level_scan_shape [of u "[0..<length items]"]) (auto simp: level_meets_def)

lemma level_meets_urgents:
  assumes "level_meets u items = (items', r)"
  shows "urgent_bounded items' = urgent_bounded items"
proof -
  have len: "length items' = length items" and sh: "\<And>j. j < length items \<Longrightarrow> \<exists>b. items' ! j = (items ! j)\<lparr>it_bound := b\<rparr>"
    using level_meets_shape [OF assms] by auto
  have "it_bounded (items' ! j) = it_bounded (items ! j) \<and> it_urgent (items' ! j) = it_urgent (items ! j)"
    if "j < length items" for j
    using sh [OF that] by auto
  then show ?thesis unfolding urgent_bounded_def len by (intro filter_cong) simp_all
qed

lemma demote_fewer:
  assumes "v \<in> set (urgent_bounded items)"
  shows "length (urgent_bounded (demote v items)) < length (urgent_bounded items)"
proof -
  have v: "v < length items" "it_urgent (items ! v)" using assms by (auto simp: urgent_bounded_def)
  have "urgent_bounded (demote v items) = filter (\<lambda>i. i \<noteq> v) (urgent_bounded items)"
    using v(1) by (auto simp: urgent_bounded_def demote_def nth_list_update intro!: filter_cong)
  also have "length \<dots> < length (urgent_bounded items)" by (rule length_filter_less [OF assms]) simp
  finally show ?thesis .
qed

lemma place_victim_urgent: "place_victim items = Some v \<Longrightarrow> v \<in> set (urgent_bounded items)"
  by (auto simp: place_victim_def dest: best_of_mem)

function place_loop :: "rt_item list \<Rightarrow> rt_item list \<times> nat option" where
  "place_loop items =
     (case level_meets True items of
        (items', None) \<Rightarrow> level_meets False items'
      | (items', Some bad) \<Rightarrow>
          (case place_victim items' of
             None \<Rightarrow> (items', Some bad)
           | Some v \<Rightarrow>
               if length (urgent_bounded items') \<le> 1 then (items', Some bad) else place_loop (demote v items')))"
  by pat_completeness auto
termination
proof (relation "measure (\<lambda>items. length (urgent_bounded items))", goal_cases)
  case (2 items q items' r v)
  then show ?case using demote_fewer [OF place_victim_urgent] level_meets_urgents by (metis in_measure)
qed simp

declare place_loop.simps [simp del]

definition place_rt :: "rt_item list \<Rightarrow> rt_item list \<times> nat option" where
  "place_rt items = place_loop (map (\<lambda>x. x\<lparr>it_urgent := it_pin x \<noteq> RV9_PLACE_ROUTINE\<rparr>) items)"

section \<open>The decision\<close>

record admit_out =
  ao_wcet :: nat
  ao_deadline :: nat
  ao_urgent :: bool
  ao_bound :: nat
  ao_place :: nat

text \<open>The item of a process in the table, and of the one being admitted.\<close>

definition item_of :: "rtsys \<Rightarrow> proc \<Rightarrow> rt_item" where
  "item_of y p =
     \<lparr>it_proc = Some (p_pid p),
      it_c = (if p_wcet p = 0 \<and> p_task p \<noteq> 0
              then (case rv9_rt_stats_for (p_task p) y of None \<Rightarrow> 0 | Some st \<Rightarrow> rs_max_exec st) else p_wcet p),
      it_t = p_period p,
      it_d = (if p_deadline p \<noteq> 0 \<and> p_deadline p < p_period p then p_deadline p else p_period p),
      it_bounded = (p_period p \<noteq> 0), it_urgent = False, it_pin = p_place p, it_bound = 0\<rparr>"

definition new_item :: "nat \<Rightarrow> nat option \<Rightarrow> nat option \<Rightarrow> nat \<Rightarrow> rt_item" where
  "new_item interval deadline wcet place =
     \<lparr>it_proc = None, it_c = (case wcet of None \<Rightarrow> 0 | Some w \<Rightarrow> w), it_t = interval,
      it_d = (case deadline of None \<Rightarrow> interval | Some d \<Rightarrow> if d < interval then d else interval),
      it_bounded = True, it_urgent = False, it_pin = place, it_bound = 0\<rparr>"

definition analysed :: "rtsys \<Rightarrow> ptable \<Rightarrow> rt_item list" where
  "analysed y t = map (item_of y) (take (RT_MAX_ANALYSED - 1) (filter live_rt (t_procs t)))"

text \<open>What the placement says of a process already running.\<close>

definition settle_one :: "rtsys \<times> ptable \<times> host_act list \<Rightarrow> rt_item \<Rightarrow> rtsys \<times> ptable \<times> host_act list" where
  "settle_one st it =
     (case st of (y, t, acts) \<Rightarrow>
        case it_proc it of
          None \<Rightarrow> st
        | Some pid \<Rightarrow>
            (case find_locked pid t of
               None \<Rightarrow> st
             | Some p \<Rightarrow>
                 if p_urgent p = it_urgent it \<and> p_bound p = it_bound it then st
                 else
                   let t' = upd_proc pid (\<lambda>p. p\<lparr>p_urgent := it_urgent it, p_bound := it_bound it\<rparr>) t in
                   if p_task p = 0 then (y, t', acts)
                   else (case rv9_rt_set_class (p_task p) (it_urgent it) (it_bound it) y of
                           (y', a) \<Rightarrow> (y', t', acts @ a))))"

text \<open>The load with this process: what it adds, and whether it stays under the ceiling.\<close>

definition own_permille :: "nat option \<Rightarrow> nat \<Rightarrow> nat" where
  "own_permille wcet interval = (case wcet of None \<Rightarrow> 0 | Some w \<Rightarrow> if interval = 0 then 0 else permille w interval)"

definition place_all ::
  "nat \<Rightarrow> nat option \<Rightarrow> nat option \<Rightarrow> admit_out \<Rightarrow> rtsys \<times> ptable \<Rightarrow> (rtsys \<times> ptable \<times> host_act list) \<times> (proc_err \<times> admit_out)" where
  "place_all interval deadline wcet out s =
     (case s of (y, t) \<Rightarrow>
        case place_rt (analysed y t @ [new_item interval deadline wcet (ao_place out)]) of
          (_, Some bad) \<Rightarrow> ((y, t, []), RV9_PROC_ERR_UNSCHEDULABLE, out)
        | (items, None) \<Rightarrow>
            (foldl settle_one (y, t, []) (butlast items), RV9_PROC_OK,
             out\<lparr>ao_urgent := it_urgent (last items), ao_bound := it_bound (last items)\<rparr>))"

text \<open>\<open>out\<close> holds what the caller's variables had. \<open>stack + heap_max\<close> is a 32-bit sum.\<close>

definition admit_rt ::
  "bool \<Rightarrow> nat \<Rightarrow> image \<Rightarrow> nat \<Rightarrow> nat \<Rightarrow> admit_out \<Rightarrow> rtsys \<times> ptable \<Rightarrow> (rtsys \<times> ptable \<times> host_act list) \<times> (proc_err \<times> admit_out)" where
  "admit_rt derive avail img interval stack out s =
     (case s of (y, t) \<Rightarrow>
        let same = (y, t, []);
            place = (case rv9_mod_manifest_u8 (Some img) RV9_MTAG_PLACEMENT of None \<Rightarrow> RV9_PLACE_DERIVED | Some v \<Rightarrow> v)
        in if place > RV9_PLACE_ROUTINE then (same, RV9_PROC_ERR_CONTRACT, out) else
        let o1 = out\<lparr>ao_place := place, ao_urgent := place \<noteq> RV9_PLACE_ROUTINE, ao_bound := 0\<rparr>
        in if rv9_rt_slots_used y \<ge> MAX_RT_TASKS then (same, RV9_PROC_ERR_NOSLOT, o1) else
        let deadline = rv9_mod_manifest_u32 (Some img) RV9_MTAG_DEADLINE_US;
            wcet = rv9_mod_manifest_u32 (Some img) RV9_MTAG_WCET_US;
            heap = rv9_mod_manifest_u32 (Some img) RV9_MTAG_HEAP_MAX;
            o2 = o1\<lparr>ao_wcet := (case wcet of None \<Rightarrow> 0 | Some w \<Rightarrow> w),
                     ao_deadline := (case deadline of None \<Rightarrow> 0 | Some d \<Rightarrow> d)\<rparr>;
            finish_in = (case deadline of None \<Rightarrow> interval | Some d \<Rightarrow> d);
            wants = cast32 (stack + (case heap of None \<Rightarrow> 0 | Some h \<Rightarrow> h));
            mine = own_permille wcet interval
        in if (case deadline of None \<Rightarrow> False | Some d \<Rightarrow> interval \<noteq> 0 \<and> d > interval)
           then (same, RV9_PROC_ERR_CONTRACT, o2)
           else if (case wcet of None \<Rightarrow> False | Some w \<Rightarrow> finish_in \<noteq> 0 \<and> w > finish_in)
           then (same, RV9_PROC_ERR_CONTRACT, o2)
           else if wants > avail then (same, RV9_PROC_ERR_NOMEM, o2)
           else if cast32 (l_total (rt_load y t) + mine) > RT_UTIL_MAX_PERMILLE
           then (same, RV9_PROC_ERR_UTILISATION, o2)
           else if derive \<and> interval \<noteq> 0 then place_all interval deadline wcet o2 (y, t)
           else (same, RV9_PROC_OK, o2))"

end
