(* ===== verification/AdmitProps.thy ===== *)
theory AdmitProps
  imports Admission ProcProps
begin

text \<open>
  What admission guarantees: the analysis finds the response time exactly, a placement is of a
  set that meets its deadlines, and a refusal changes nothing.
\<close>

section \<open>Response times\<close>

text \<open>The reference: the recurrence over the naturals.\<close>

definition wait_total :: "rt_item list \<Rightarrow> nat \<Rightarrow> nat \<Rightarrow> nat" where
  "wait_total items i r =
     it_c (items ! i) + (\<Sum>j\<leftarrow>filter (waits_for items i) [0..<length items]. demand (items ! j) r)"

lemma window_mono: "r \<le> s \<Longrightarrow> (if r = 0 then 1 else r) + t - 1 \<le> (if s = 0 then 1 else s) + t - (1 :: nat)"
  by auto

lemma demand_mono: "r \<le> s \<Longrightarrow> demand x r \<le> demand x s"
  unfolding demand_def Let_def by (intro mult_le_mono1 div_le_mono window_mono)

lemma sum_list_le: "(\<And>x. x \<in> set xs \<Longrightarrow> f x \<le> (g x :: nat)) \<Longrightarrow> sum_list (map f xs) \<le> sum_list (map g xs)"
  by (rule sum_list_mono) simp

lemma wait_total_mono: "r \<le> s \<Longrightarrow> wait_total items i r \<le> wait_total items i s"
  unfolding wait_total_def using sum_list_le [of _ "\<lambda>j. demand (items ! j) r" "\<lambda>j. demand (items ! j) s"]
  by (simp add: demand_mono)

lemma wait_total_least: "it_c (items ! i) \<le> wait_total items i r"
  by (simp add: wait_total_def)

lemma foldl_mod:
  "foldl (\<lambda>nx j. if P j then (nx + f j) mod m else nx) a js mod m =
     (a + (\<Sum>j\<leftarrow>filter P js. f j)) mod (m :: nat)"
proof (induction js arbitrary: a)
  case (Cons j js)
  then show ?case by (simp add: mod_add_left_eq add.assoc)
qed simp

lemma foldl_mod_less:
  "a < m \<Longrightarrow> foldl (\<lambda>nx j. if P j then (nx + f j) mod m else nx) a js < (m :: nat)"
  by (induction js arbitrary: a) simp_all

lemma response_next_total:
  assumes "wait_total items i r < W64"
  shows "response_next items i r = wait_total items i r"
proof -
  have "it_c (items ! i) < W64" using assms wait_total_least [of items i r] by simp
  then have "response_next items i r < W64" unfolding response_next_def by (rule foldl_mod_less)
  then have "response_next items i r = response_next items i r mod W64" by simp
  also have "\<dots> = wait_total items i r mod W64"
    unfolding response_next_def foldl_mod wait_total_def ..
  finally show ?thesis using assms by simp
qed

text \<open>The rounds of the analysis are the iterates of the recurrence from the task's own cost: they rise,
  stay below every fixed point, and once two are equal no later one differs.\<close>

definition rounds :: "rt_item list \<Rightarrow> nat \<Rightarrow> nat \<Rightarrow> nat" where
  "rounds items i k = (wait_total items i ^^ k) (it_c (items ! i))"

lemma rounds_rise: "j \<le> k \<Longrightarrow> rounds items i j \<le> rounds items i k"
proof (induction k)
  case (Suc k)
  have "rounds items i k \<le> rounds items i (Suc k)" for k
    by (induction k) (simp_all add: rounds_def wait_total_least wait_total_mono)
  from this [of k] show ?case using Suc by (cases "j = Suc k") auto
qed simp

lemma rounds_below: "wait_total items i f = f \<Longrightarrow> rounds items i k \<le> f"
proof (induction k)
  case (Suc k)
  then show ?case using wait_total_mono [of "rounds items i k" f items i] by (simp add: rounds_def)
next
  case 0
  then show ?case using wait_total_least [of items i f] by (simp add: rounds_def)
qed

lemma rounds_stay: "wait_total items i (rounds items i j) = rounds items i j \<Longrightarrow> rounds items i (j + n) = rounds items i j"
  by (induction n) (simp_all add: rounds_def)

text \<open>The loop stops at a round past the deadline, at one that the next does not change, or when it has
  no round left.\<close>

lemma response_iter_round:
  assumes "wait_total items i (max (rounds items i n) (it_d (items ! i))) < W64"
  shows "\<exists>j\<le>k. response_iter k items i (rounds items i n) = rounds items i (n + j) \<and>
    (it_d (items ! i) < rounds items i (n + j) \<or> wait_total items i (rounds items i (n + j)) = rounds items i (n + j) \<or> j = k)"
  using assms
proof (induction k arbitrary: n)
  case (Suc k)
  let ?F = "wait_total items i" and ?d = "it_d (items ! i)" and ?R = "rounds items i"
  have "?F (?R n) < W64" using Suc.prems wait_total_mono [of "?R n" "max (?R n) ?d" items i] by simp
  then have nx: "response_next items i (?R n) = ?R (Suc n)" using response_next_total by (simp add: rounds_def)
  have F: "?F (?R m) = ?R (Suc m)" for m by (simp add: rounds_def)
  consider "?R (Suc n) = ?R n" | "?R (Suc n) \<noteq> ?R n" "?d < ?R (Suc n)" | "?R (Suc n) \<noteq> ?R n" "?R (Suc n) \<le> ?d" by linarith
  then show ?case
  proof cases
    case 1
    then show ?thesis using nx F [of n] by (auto intro!: exI [of _ 0])
  next
    case 2
    then show ?thesis using nx by (auto intro!: exI [of _ 1])
  next
    case 3
    have "?F (max (?R (Suc n)) ?d) < W64"
      using Suc.prems 3(2) wait_total_mono [of "max (?R (Suc n)) ?d" "max (?R n) ?d" items i] by simp
    from Suc.IH [OF this] obtain j where j: "j \<le> k" "response_iter k items i (?R (Suc n)) = ?R (Suc n + j)"
      "?d < ?R (Suc n + j) \<or> ?F (?R (Suc n + j)) = ?R (Suc n + j) \<or> j = k" by blast
    then show ?thesis using 3 nx by (auto simp: Let_def intro!: exI [of _ "Suc j"])
  qed
qed simp

text \<open>C20: the response-time analysis, for every set of tasks whose sums fit in 64 bits and every
  deadline below the largest 32-bit number. When a round within the 64 passes the deadline, the bound is
  more than the deadline and no solution of the recurrence meets it. When otherwise two rounds agree
  within the 64, the bound is the least solution. When neither has happened the bound is the 64th round
  as it stands: no more than the deadline, and at most every solution, but perhaps none itself.\<close>

theorem response_bound_exact:
  assumes "wait_total items i (max (it_c (items ! i)) (it_d (items ! i))) < W64"
    and "it_d (items ! i) < UINT32_MAX"
  shows "if \<exists>k\<le>64. it_d (items ! i) < rounds items i k
    then it_d (items ! i) < response_bound items i \<and> \<not> (\<exists>r\<le>it_d (items ! i). wait_total items i r = r)
    else if \<exists>k<64. rounds items i (Suc k) = rounds items i k
    then response_bound items i = (LEAST r. wait_total items i r = r) \<and> wait_total items i (response_bound items i) = response_bound items i
    else response_bound items i = rounds items i 64 \<and> response_bound items i \<le> it_d (items ! i)"
proof -
  let ?F = "wait_total items i" and ?d = "it_d (items ! i)" and ?R = "rounds items i"
  have F: "?F (?R m) = ?R (Suc m)" for m by (simp add: rounds_def)
  have c: "it_c (items ! i) = ?R 0" by (simp add: rounds_def)
  obtain j where j: "j \<le> 64" "response_bound items i = sat32 (?R j)" "?d < ?R j \<or> ?F (?R j) = ?R j \<or> j = 64"
  proof -
    have "wait_total items i (max (?R 0) ?d) < W64" using assms(1) unfolding c .
    from response_iter_round [OF this, of 64] show ?thesis
      by (elim exE conjE) (rule that, simp_all add: response_bound_def c)
  qed
  have stay: "?R m = ?R k" if "?F (?R k) = ?R k" "k \<le> m" for k m using rounds_stay [OF that(1), of "m - k"] that(2) by simp
  show ?thesis
  proof (cases "\<exists>k\<le>64. ?d < ?R k")
    case True
    then obtain k where k: "k \<le> 64" "?d < ?R k" by blast
    have "?d < ?R j"
    proof (cases "k \<le> j")
      case True
      then show ?thesis using k(2) rounds_rise [of k j items i] by simp
    next
      case False
      then show ?thesis using j(1,3) k stay [of j k] by auto
    qed
    moreover have "\<not> (\<exists>r\<le>?d. ?F r = r)"
    proof
      assume "\<exists>r\<le>?d. ?F r = r"
      then obtain r where "r \<le> ?d" "?F r = r" by blast
      then show False using rounds_below [of items i r k] k(2) by simp
    qed
    ultimately show ?thesis using True assms(2) j(2) by (auto simp: sat32_def)
  next
    case low: False
    then have "?R j \<le> ?d" using j(1) not_le_imp_less by blast
    then have b: "response_bound items i = ?R j" "?R j \<le> ?d" using assms(2) j(2) by (simp_all add: sat32_def)
    show ?thesis
    proof (cases "\<exists>k<64. ?R (Suc k) = ?R k")
      case True
      then obtain k where k: "k < 64" "?F (?R k) = ?R k" using F by auto
      have fp: "?F (?R j) = ?R j" using j(3) b(2) stay [OF k(2), of 64] k by auto
      then have "(LEAST r. ?F r = r) = ?R j" by (intro Least_equality) (auto intro: rounds_below)
      then show ?thesis using low True b fp by simp
    next
      case False
      have "j = 64"
      proof (rule ccontr)
        assume "j \<noteq> 64"
        then have "j < 64" "?R (Suc j) = ?R j" using j(1,3) b(2) F [of j] by auto
        then show False using False by blast
      qed
      then show ?thesis unfolding if_not_P [OF low] if_not_P [OF False] using b by simp
    qed
  qed
qed

text \<open>Two tasks of 2 and 3 every 10 share a level: the slower answers in 5. A task of 100 that must
  answer in 7000, behind one of 99 every 100, is still moving after 64 rounds: the bound given is 6436,
  which the recurrence carries on to 6535.\<close>

definition pair_items :: "rt_item list" where
  "pair_items = [\<lparr>it_proc = None, it_c = 2, it_t = 10, it_d = 10, it_bounded = True, it_urgent = True, it_pin = 0, it_bound = 0\<rparr>,
     \<lparr>it_proc = None, it_c = 3, it_t = 10, it_d = 10, it_bounded = True, it_urgent = True, it_pin = 0, it_bound = 0\<rparr>]"

definition slow_items :: "rt_item list" where
  "slow_items = [\<lparr>it_proc = None, it_c = 99, it_t = 100, it_d = 100, it_bounded = True, it_urgent = True, it_pin = 0, it_bound = 0\<rparr>,
     \<lparr>it_proc = None, it_c = 100, it_t = 10000, it_d = 7000, it_bounded = True, it_urgent = True, it_pin = 0, it_bound = 0\<rparr>]"

lemma slow_rounds: "k \<le> 64 \<Longrightarrow> rounds slow_items 1 k = 100 + 99 * k"
proof (induction k)
  case (Suc k)
  have "wait_total slow_items 1 r = 100 + (max 1 r + 99) div 100 * 99" for r
    by (auto simp: wait_total_def waits_for_def demand_def slow_items_def upt_rec max_def)
  moreover have "(max 1 (100 + 99 * k) + 99) div 100 = Suc k"
  proof (rule div_nat_eqI)
    show "max 1 (100 + 99 * k) + 99 < 100 * Suc (Suc k)" using Suc.prems by (simp add: max_def)
  qed (use Suc.prems in \<open>simp add: max_def\<close>)
  ultimately show ?case using Suc by (simp add: rounds_def)
qed (simp add: rounds_def slow_items_def)

lemma response_bound_exact_witness:
  "response_bound pair_items 1 = (LEAST r. wait_total pair_items 1 r = r) \<and> wait_total pair_items 1 5 = 5 \<and>
   response_bound slow_items 1 = 6436 \<and> wait_total slow_items 1 6436 = 6535"
proof -
  have w: "wait_total pair_items 1 r = 3 + (max 1 r + 9) div 10 * 2" for r
    by (auto simp: wait_total_def waits_for_def demand_def pair_items_def upt_rec max_def)
  have v: "wait_total slow_items 1 r = 100 + (max 1 r + 99) div 100 * 99" for r
    by (auto simp: wait_total_def waits_for_def demand_def slow_items_def upt_rec max_def)
  have five: "wait_total pair_items 1 5 = 5" unfolding w by simp
  have low: "\<not> 10 < rounds pair_items 1 k" for k using rounds_below [OF five, of k] by simp
  have "rounds pair_items 1 (Suc 1) = rounds pair_items 1 1" by (simp add: rounds_def w [simplified]) (simp add: pair_items_def)
  then have two: "\<exists>k<64. rounds pair_items 1 (Suc k) = rounds pair_items 1 k" by (intro exI [of _ 1]) simp
  have d: "it_d (pair_items ! 1) = 10" "it_d (slow_items ! 1) = 7000" "it_c (slow_items ! 1) = 100"
    by (simp_all add: pair_items_def slow_items_def)
  have "response_bound pair_items 1 = (LEAST r. wait_total pair_items 1 r = r)"
    using response_bound_exact [of pair_items 1] two low
    unfolding d w by (simp add: pair_items_def)
  moreover have "response_bound slow_items 1 = 6436"
  proof -
    have "\<not> (\<exists>k\<le>64. 7000 < rounds slow_items 1 k)" using slow_rounds by auto
    moreover have "\<not> (\<exists>k<64. rounds slow_items 1 (Suc k) = rounds slow_items 1 k)" using slow_rounds by auto
    moreover have "wait_total slow_items 1 (max (it_c (slow_items ! 1)) (it_d (slow_items ! 1))) < W64"
      unfolding d v by simp
    moreover have "it_d (slow_items ! 1) < UINT32_MAX" unfolding d by simp
    ultimately have "response_bound slow_items 1 = rounds slow_items 1 64"
      using response_bound_exact [of slow_items 1] unfolding d by (simp only: if_False simp_thms)
    then show ?thesis using slow_rounds [of 64] by simp
  qed
  moreover have "wait_total slow_items 1 6436 = 6535" unfolding v by simp
  ultimately show ?thesis using five by blast
qed

section \<open>Placement\<close>

text \<open>The same items but for the bounds found.\<close>

definition same_but_bounds :: "rt_item list \<Rightarrow> rt_item list \<Rightarrow> bool" where
  "same_but_bounds items items' \<longleftrightarrow>
     length items' = length items \<and> (\<forall>j<length items. \<exists>b. items' ! j = (items ! j)\<lparr>it_bound := b\<rparr>)"

lemma same_but_boundsD:
  assumes "same_but_bounds items items'" "j < length items"
  shows "it_c (items' ! j) = it_c (items ! j)" "it_t (items' ! j) = it_t (items ! j)"
    "it_d (items' ! j) = it_d (items ! j)" "it_bounded (items' ! j) = it_bounded (items ! j)"
    "it_urgent (items' ! j) = it_urgent (items ! j)" "it_pin (items' ! j) = it_pin (items ! j)"
    "it_proc (items' ! j) = it_proc (items ! j)"
proof -
  obtain b where "items' ! j = (items ! j)\<lparr>it_bound := b\<rparr>" using assms by (auto simp: same_but_bounds_def)
  then show "it_c (items' ! j) = it_c (items ! j)" "it_t (items' ! j) = it_t (items ! j)"
    "it_d (items' ! j) = it_d (items ! j)" "it_bounded (items' ! j) = it_bounded (items ! j)"
    "it_urgent (items' ! j) = it_urgent (items ! j)" "it_pin (items' ! j) = it_pin (items ! j)"
    "it_proc (items' ! j) = it_proc (items ! j)" by simp_all
qed

lemma same_but_bounds_length: "same_but_bounds items items' \<Longrightarrow> length items' = length items"
  by (simp add: same_but_bounds_def)

lemma response_next_same:
  assumes "same_but_bounds items items'" "i < length items"
  shows "response_next items' i r = response_next items i r"
proof -
  note same = same_but_boundsD [OF assms(1)]
  have "waits_for items' i j = waits_for items i j" "demand (items' ! j) r = demand (items ! j) r"
    if "j < length items" for j
    using that assms(2) by (simp_all add: waits_for_def demand_def same)
  then show ?thesis unfolding response_next_def same_but_bounds_length [OF assms(1)] same(1) [OF assms(2)]
    by (intro foldl_cong) auto
qed

lemma response_bound_same:
  assumes "same_but_bounds items items'" "i < length items"
  shows "response_bound items' i = response_bound items i"
proof -
  have "response_iter k items' i r = response_iter k items i r" for k r
    by (induction k arbitrary: r) (simp_all add: Let_def response_next_same [OF assms] same_but_boundsD [OF assms])
  then show ?thesis by (simp add: response_bound_def same_but_boundsD [OF assms])
qed

lemma same_but_bounds_refl [simp]: "same_but_bounds items items"
  by (auto simp: same_but_bounds_def intro: bound_self)

lemma same_but_bounds_trans:
  "same_but_bounds a b \<Longrightarrow> same_but_bounds b c \<Longrightarrow> same_but_bounds a c"
  unfolding same_but_bounds_def by fastforce

lemma same_but_bounds_update: "i < length items \<Longrightarrow> same_but_bounds items (items[i := (items ! i)\<lparr>it_bound := b\<rparr>])"
  by (auto simp: same_but_bounds_def nth_list_update intro: bound_self)

definition at_level :: "bool \<Rightarrow> rt_item \<Rightarrow> bool" where
  "at_level u x \<longleftrightarrow> it_bounded x \<and> it_urgent x = u"

definition meets :: "rt_item list \<Rightarrow> nat \<Rightarrow> bool" where
  "meets items i \<longleftrightarrow> it_bound (items ! i) = response_bound items i \<and> it_bound (items ! i) \<le> it_d (items ! i)"

lemma level_scan_result:
  assumes "level_scan u is items = (items', r)" "set is \<subseteq> {..<length items}" "distinct is"
  shows "same_but_bounds items items' \<and>
    (\<forall>j<length items. j \<notin> set is \<or> \<not> at_level u (items ! j) \<longrightarrow> items' ! j = items ! j) \<and>
    (case r of None \<Rightarrow> \<forall>j\<in>set is. at_level u (items ! j) \<longrightarrow> meets items' j
     | Some b \<Rightarrow> b \<in> set is \<and> at_level u (items ! b) \<and> it_bound (items' ! b) = response_bound items' b \<and>
         it_d (items ! b) < it_bound (items' ! b))"
  using assms
proof (induction u "is" items rule: level_scan.induct)
  case (1 u items)
  then show ?case by auto
next
  case (2 u i "is" items)
  let ?new = "items[i := (items ! i)\<lparr>it_bound := response_bound items i\<rparr>]"
  have i: "i < length items" "i \<notin> set is" and "is": "set is \<subseteq> {..<length items}" "distinct is" using 2(4,5) by auto
  note same = same_but_bounds_update [OF i(1), of "response_bound items i"]
  show ?case
  proof (cases "\<not> it_bounded (items ! i) \<or> it_urgent (items ! i) \<noteq> u")
    case True
    then show ?thesis using 2(1) 2(3) "is" i by (auto simp: at_level_def split: option.splits)
  next
    case False
    have at: "at_level u (items ! i)" using False by (simp add: at_level_def)
    have bnd: "it_bound (?new ! i) = response_bound items i" using i by simp
    show ?thesis
    proof (cases "it_bound (?new ! i) > it_d (?new ! i)")
      case True
      then have "items' = ?new \<and> r = Some i" using 2(3) False by (simp add: Let_def split: if_splits)
      then show ?thesis using same at i True response_bound_same [OF same i(1)] by (auto simp: nth_list_update)
    next
      case over: False
      then have "level_scan u is ?new = (items', r)" using 2(3) False by (simp add: Let_def split: if_splits)
      from 2(2) [OF False refl over this] "is" have IH: "same_but_bounds ?new items'"
        "\<forall>j<length items. j \<notin> set is \<or> \<not> at_level u (?new ! j) \<longrightarrow> items' ! j = ?new ! j"
        "case r of None \<Rightarrow> \<forall>j\<in>set is. at_level u (?new ! j) \<longrightarrow> meets items' j
         | Some b \<Rightarrow> b \<in> set is \<and> at_level u (?new ! b) \<and> it_bound (items' ! b) = response_bound items' b \<and>
           it_d (?new ! b) < it_bound (items' ! b)" by simp_all
      have ss: "same_but_bounds items items'" by (rule same_but_bounds_trans [OF same IH(1)])
      have lev: "at_level u (?new ! j) = at_level u (items ! j)" "it_d (?new ! j) = it_d (items ! j)"
        if "j < length items" for j
        using same_but_boundsD [OF same that] by (simp_all add: at_level_def)
      have "items' ! i = ?new ! i" using IH(2) i by blast
      then have mi: "meets items' i"
        using over bnd response_bound_same [OF ss i(1)] by (simp add: meets_def)
      have "\<forall>j<length items. j \<notin> set (i # is) \<or> \<not> at_level u (items ! j) \<longrightarrow> items' ! j = items ! j"
        using IH(2) at lev i(1) by (auto simp: nth_list_update)
      then show ?thesis using ss mi IH(3) lev "is" by (auto split: option.splits)
    qed
  qed
qed

lemma level_meets_result:
  assumes "level_meets u items = (items', r)"
  shows "same_but_bounds items items'"
    "\<forall>j<length items. \<not> at_level u (items ! j) \<longrightarrow> items' ! j = items ! j"
    "case r of None \<Rightarrow> \<forall>j<length items. at_level u (items ! j) \<longrightarrow> meets items' j
     | Some b \<Rightarrow> b < length items \<and> at_level u (items ! b) \<and> it_bound (items' ! b) = response_bound items' b \<and>
         it_d (items ! b) < it_bound (items' ! b)"
proof -
  have "set [0..<length items] \<subseteq> {..<length items}" by auto
  from level_scan_result [OF assms [unfolded level_meets_def] this] show
    "same_but_bounds items items'"
    "\<forall>j<length items. \<not> at_level u (items ! j) \<longrightarrow> items' ! j = items ! j"
    "case r of None \<Rightarrow> \<forall>j<length items. at_level u (items ! j) \<longrightarrow> meets items' j
     | Some b \<Rightarrow> b < length items \<and> at_level u (items ! b) \<and> it_bound (items' ! b) = response_bound items' b \<and>
         it_d (items ! b) < it_bound (items' ! b)"
    by (auto split: option.splits)
qed

text \<open>What every placement keeps: pins are obeyed, and only the longest deadlines are moved down.\<close>

definition movable :: "rt_item \<Rightarrow> bool" where
  "movable x \<longleftrightarrow> it_bounded x \<and> it_pin x = RV9_PLACE_DERIVED"

definition placing :: "rt_item list \<Rightarrow> bool" where
  "placing items \<longleftrightarrow>
     (\<forall>i<length items. (it_pin (items ! i) = RV9_PLACE_ROUTINE \<longrightarrow> \<not> it_urgent (items ! i)) \<and>
        (it_pin (items ! i) \<noteq> RV9_PLACE_ROUTINE \<and> \<not> movable (items ! i) \<longrightarrow> it_urgent (items ! i)) \<and>
        (\<forall>j<length items. movable (items ! i) \<and> \<not> it_urgent (items ! i) \<and> movable (items ! j) \<and> it_urgent (items ! j) \<longrightarrow>
           it_d (items ! j) \<le> it_d (items ! i)))"

lemma placing_same:
  assumes "same_but_bounds a b" "placing a"
  shows "placing b"
  using assms(2) unfolding placing_def same_but_bounds_length [OF assms(1)]
  by (simp add: movable_def same_but_boundsD [OF assms(1)])

lemma place_victim_longest:
  assumes "place_victim items = Some v"
  shows "v < length items \<and> movable (items ! v) \<and> it_urgent (items ! v) \<and>
    (\<forall>j<length items. movable (items ! j) \<and> it_urgent (items ! j) \<longrightarrow> it_d (items ! j) \<le> it_d (items ! v))"
proof -
  let ?cs = "filter (\<lambda>i. it_pin (items ! i) = RV9_PLACE_DERIVED) (urgent_bounded items)"
  have cs: "j \<in> set ?cs \<longleftrightarrow> j < length items \<and> movable (items ! j) \<and> it_urgent (items ! j)" for j
    by (auto simp: urgent_bounded_def movable_def)
  have "v \<in> set ?cs" using assms by (auto simp: place_victim_def dest: best_of_mem)
  moreover have "it_d (items ! j) \<le> it_d (items ! v)" if "j \<in> set ?cs" for j
    using by_key.best_of_unbeaten [of "\<lambda>i. it_d (items ! i)", OF assms [unfolded place_victim_def] that] by simp
  ultimately show ?thesis unfolding cs by blast
qed

lemma placing_demote:
  assumes "placing items" "place_victim items = Some v"
  shows "placing (demote v items)"
proof -
  note v = place_victim_longest [OF assms(2)]
  have mv: "movable (x\<lparr>it_urgent := False\<rparr>) = movable x" for x by (simp add: movable_def)
  have nth: "demote v items ! j = (if j = v then (items ! v)\<lparr>it_urgent := False\<rparr> else items ! j)" if "j < length items" for j
    using that by (auto simp: demote_def nth_list_update)
  have len: "length (demote v items) = length items" by (simp add: demote_def)
  show ?thesis
    unfolding placing_def len
  proof (intro allI impI conjI, goal_cases)
    case (1 i)
    then show ?case using assms(1) by (auto simp: nth placing_def)
  next
    case (2 i)
    then show ?case using assms(1) v by (auto simp: nth placing_def mv split: if_splits)
  next
    case (3 i j)
    then have j: "j \<noteq> v" "movable (items ! j)" "it_urgent (items ! j)" by (auto simp: nth mv split: if_splits)
    show ?case
    proof (cases "i = v")
      case True
      then show ?thesis using v j 3 by (simp add: nth)
    next
      case False
      then show ?thesis using assms(1) j 3 by (simp add: nth placing_def)
    qed
  qed
qed

text \<open>The same items but for where they are placed and the bounds found.\<close>

definition same_work :: "rt_item list \<Rightarrow> rt_item list \<Rightarrow> bool" where
  "same_work items items' \<longleftrightarrow>
     length items' = length items \<and> (\<forall>j<length items. \<exists>u b. items' ! j = (items ! j)\<lparr>it_urgent := u, it_bound := b\<rparr>)"

lemma same_work_trans: "same_work a b \<Longrightarrow> same_work b c \<Longrightarrow> same_work a c"
  unfolding same_work_def by fastforce

lemma both_self: "\<exists>u b. x = x\<lparr>it_urgent := u, it_bound := b\<rparr>" for x :: rt_item
  by (rule exI [of _ "it_urgent x"], rule exI [of _ "it_bound x"]) simp

lemma bound_both: "x = y\<lparr>it_bound := b\<rparr> \<Longrightarrow> \<exists>u b. x = y\<lparr>it_urgent := u, it_bound := b\<rparr>" for y :: rt_item
  by (rule exI [of _ "it_urgent y"], rule exI [of _ b]) simp

lemma urgent_both: "\<exists>u' b. y\<lparr>it_urgent := u\<rparr> = y\<lparr>it_urgent := u', it_bound := b\<rparr>" for y :: rt_item
  by (rule exI [of _ u], rule exI [of _ "it_bound y"]) simp

lemma same_work_bounds: "same_but_bounds a b \<Longrightarrow> same_work a b"
  unfolding same_work_def same_but_bounds_def using bound_both by metis

lemma same_work_demote: "same_work items (demote v items)"
  by (cases "v < length items") (auto simp: same_work_def demote_def nth_list_update both_self urgent_both)

lemma place_loop_result:
  assumes "placing items" "place_loop items = (items', r)"
  shows "same_work items items' \<and> placing items' \<and>
    (case r of None \<Rightarrow> \<forall>j<length items'. it_bounded (items' ! j) \<longrightarrow> meets items' j
     | Some b \<Rightarrow> b < length items' \<and> it_bounded (items' ! b) \<and> it_bound (items' ! b) = response_bound items' b \<and>
         it_d (items' ! b) < it_bound (items' ! b))"
  using assms
proof (induction items rule: place_loop.induct)
  case (1 items)
  obtain its q where up: "level_meets True items = (its, q)" by (cases "level_meets True items")
  note ss = level_meets_result(1) [OF up]
  have its: "placing its" by (rule placing_same [OF ss 1(2)])
  note res = level_meets_result(3) [OF up]
  have len: "length its = length items" by (rule same_but_bounds_length [OF ss])
  show ?case
  proof (cases q)
    case None
    then have down: "level_meets False its = (items', r)" using 1(3) up by (subst (asm) place_loop.simps) simp
    note ss2 = level_meets_result(1) [OF down] and res2 = level_meets_result(3) [OF down] and other = level_meets_result(2) [OF down]
    note same = same_but_boundsD [OF ss] same_but_boundsD [OF ss2]
    have up_meets: "meets items' j" if "j < length its" "at_level True (its ! j)" for j
    proof -
      have "meets its j" using res None that len same by (auto simp: at_level_def)
      moreover have "items' ! j = its ! j" using other that by (auto simp: at_level_def)
      ultimately show ?thesis using response_bound_same [OF ss2 that(1)] by (simp add: meets_def)
    qed
    have work: "same_work items items'"
      using same_work_trans [OF same_work_bounds [OF ss] same_work_bounds [OF ss2]] .
    show ?thesis
    proof (cases r)
      case None
      then have "meets items' j" if "j < length its" "it_bounded (its ! j)" for j
        using up_meets [of j] res2 that by (cases "it_urgent (its ! j)") (auto simp: at_level_def)
      then show ?thesis using None work placing_same [OF ss2 its] same same_but_bounds_length [OF ss2] by auto
    next
      case (Some b)
      then show ?thesis using res2 work placing_same [OF ss2 its] same same_but_bounds_length [OF ss2]
        by (auto simp: at_level_def)
    qed
  next
    case (Some bad)
    show ?thesis
    proof (cases "place_victim its = None \<or> length (urgent_bounded its) \<le> 1")
      case True
      then have "items' = its \<and> r = Some bad"
        using 1(3) up Some by (subst (asm) place_loop.simps) (auto split: option.splits)
      then show ?thesis using its same_work_bounds [OF ss] res Some len same_but_boundsD [OF ss] by (auto simp: at_level_def)
    next
      case False
      then obtain v where v: "place_victim its = Some v" by auto
      then have go: "place_loop (demote v its) = (items', r)"
        using 1(3) up Some False by (subst (asm) place_loop.simps) simp
      have "placing (demote v its)" by (rule placing_demote [OF its v])
      from 1(1) [OF up [symmetric] Some v _ this go] False show ?thesis
        using same_work_trans [OF same_work_trans [OF same_work_bounds [OF ss] same_work_demote]] by auto
    qed
  qed
qed

lemma place_rt_result:
  assumes "place_rt items = (items', r)"
  shows "same_work items items' \<and> placing items' \<and>
    (case r of None \<Rightarrow> \<forall>j<length items'. it_bounded (items' ! j) \<longrightarrow> meets items' j
     | Some b \<Rightarrow> b < length items' \<and> it_bounded (items' ! b) \<and> it_bound (items' ! b) = response_bound items' b \<and>
         it_d (items' ! b) < it_bound (items' ! b))"
proof -
  let ?start = "map (\<lambda>x. x\<lparr>it_urgent := it_pin x \<noteq> RV9_PLACE_ROUTINE\<rparr>) items"
  have "placing ?start" by (auto simp: placing_def movable_def RV9_PLACE_DERIVED_def RV9_PLACE_ROUTINE_def)
  moreover have "same_work items ?start" by (simp add: same_work_def urgent_both)
  ultimately show ?thesis
    using place_loop_result [OF _ assms [unfolded place_rt_def]] same_work_trans by blast
qed

text \<open>C21: placement ends, and changes only where items are placed and their bounds. A task
  pinned routine stays routine; one pinned urgent, or that cannot be analysed, stays urgent; and
  of those it may move it moves the longest deadlines first. It succeeds only with every bounded
  task's bound, computed for the placement as it ends, within its deadline; else it names a task
  that does not meet its deadline there.\<close>

theorem placement_meets:
  assumes "place_rt items = (items', r)"
  shows "length items' = length items \<and>
    (\<forall>i<length items. (\<exists>u b. items' ! i = (items ! i)\<lparr>it_urgent := u, it_bound := b\<rparr>) \<and>
       (it_pin (items ! i) = RV9_PLACE_ROUTINE \<longrightarrow> \<not> it_urgent (items' ! i)) \<and>
       (it_pin (items ! i) = RV9_PLACE_URGENT \<or> it_pin (items ! i) = RV9_PLACE_DERIVED \<and> \<not> it_bounded (items ! i) \<longrightarrow>
          it_urgent (items' ! i)) \<and>
       (\<forall>j<length items. it_bounded (items ! i) \<and> it_pin (items ! i) = RV9_PLACE_DERIVED \<and> \<not> it_urgent (items' ! i) \<and>
          it_bounded (items ! j) \<and> it_pin (items ! j) = RV9_PLACE_DERIVED \<and> it_urgent (items' ! j) \<longrightarrow>
          it_d (items ! j) \<le> it_d (items ! i))) \<and>
    (case r of
       None \<Rightarrow> \<forall>i<length items. it_bounded (items ! i) \<longrightarrow>
         it_bound (items' ! i) = response_bound items' i \<and> it_bound (items' ! i) \<le> it_d (items ! i)
     | Some b \<Rightarrow> b < length items \<and> it_bounded (items ! b) \<and> it_bound (items' ! b) = response_bound items' b \<and>
         it_d (items ! b) < it_bound (items' ! b))"
proof -
  note res = place_rt_result [OF assms]
  then have work: "same_work items items'" and pl: "placing items'" by blast+
  have len: "length items' = length items" using work by (simp add: same_work_def)
  have at: "\<exists>u b. items' ! i = (items ! i)\<lparr>it_urgent := u, it_bound := b\<rparr>" if "i < length items" for i
    using work that by (simp add: same_work_def)
  then have same: "it_pin (items' ! i) = it_pin (items ! i)" "it_bounded (items' ! i) = it_bounded (items ! i)"
      "it_d (items' ! i) = it_d (items ! i)" "movable (items' ! i) = movable (items ! i)" if "i < length items" for i
    using that by (fastforce simp: movable_def)+
  show ?thesis
    using at res pl unfolding placing_def len
    by (auto simp: same meets_def movable_def RV9_PLACE_DERIVED_def RV9_PLACE_ROUTINE_def RV9_PLACE_URGENT_def split: option.splits)
qed

lemma response_iter_num:
  "response_iter (numeral v) items i r =
     (let nx = response_next items i r in
      if nx = r then r else if nx > it_d (items ! i) then nx else response_iter (pred_numeral v) items i nx)"
  by (simp add: numeral_eq_Suc)

lemma pair_next:
  assumes "items = [(pair_items ! 0)\<lparr>it_bound := a\<rparr>, (pair_items ! 1)\<lparr>it_bound := b\<rparr>]" "0 < r" "r \<le> 10"
  shows "response_next items 0 r = 5" "response_next items 1 r = 5"
proof -
  have "(r + 9) div 10 = 1" using assms(2,3) by (intro div_nat_eqI) simp_all
  then show "response_next items 0 r = 5" "response_next items 1 r = 5"
    using assms by (simp_all add: response_next_def waits_for_def demand_def pair_items_def upt_rec)
qed

lemma pair_bound:
  assumes "items = [(pair_items ! 0)\<lparr>it_bound := a\<rparr>, (pair_items ! 1)\<lparr>it_bound := b\<rparr>]"
  shows "response_bound items 0 = 5" "response_bound items 1 = 5"
proof -
  have c: "it_c (items ! 0) = 2" "it_c (items ! 1) = 3" "it_d (items ! 0) = 10" "it_d (items ! 1) = 10"
    using assms by (simp_all add: pair_items_def)
  show "response_bound items 0 = 5" "response_bound items 1 = 5"
    unfolding response_bound_def response_iter_num c Let_def using pair_next [OF assms]
    by (simp_all add: response_iter_num c sat32_def)
qed

lemma pair_placed: "place_rt pair_items = ([(pair_items ! 0)\<lparr>it_bound := 5\<rparr>, (pair_items ! 1)\<lparr>it_bound := 5\<rparr>], None)"
proof -
  have start: "map (\<lambda>x. x\<lparr>it_urgent := it_pin x \<noteq> RV9_PLACE_ROUTINE\<rparr>) pair_items =
      [(pair_items ! 0)\<lparr>it_bound := 0\<rparr>, (pair_items ! 1)\<lparr>it_bound := 0\<rparr>]" (is "_ = ?its")
    by (simp add: pair_items_def RV9_PLACE_ROUTINE_def)
  have up: "level_meets True ?its = ([(pair_items ! 0)\<lparr>it_bound := 5\<rparr>, (pair_items ! 1)\<lparr>it_bound := 5\<rparr>], None)" (is "_ = (?out, _)")
    using pair_bound [of ?its 0 0] pair_bound [of "[(pair_items ! 0)\<lparr>it_bound := 5\<rparr>, (pair_items ! 1)\<lparr>it_bound := 0\<rparr>]" 5 0]
    by (simp add: level_meets_def upt_rec) (simp add: pair_items_def)
  have "level_meets False ?out = (?out, None)" by (simp add: level_meets_def upt_rec) (simp add: pair_items_def)
  then show ?thesis unfolding place_rt_def start place_loop.simps [of ?its] up by simp
qed

lemma placement_meets_witness:
  "let items' = fst (place_rt pair_items) in
     length items' = 2 \<and> it_bound (items' ! 0) = response_bound items' 0 \<and> it_bound (items' ! 0) \<le> 10"
proof -
  have "it_bounded (pair_items ! 0)" "it_d (pair_items ! 0) = 10" "0 < length pair_items" "length pair_items = 2"
    by (simp_all add: pair_items_def)
  then show ?thesis using placement_meets [OF pair_placed] unfolding pair_placed fst_conv Let_def option.case by metis
qed

section \<open>Admission\<close>

text \<open>What the placement writes into a descriptor.\<close>

definition settled :: "rt_item \<Rightarrow> proc \<Rightarrow> proc" where
  "settled it p = (if it_proc it = Some (p_pid p) then p\<lparr>p_urgent := it_urgent it, p_bound := it_bound it\<rparr> else p)"

lemma settle_one_procs:
  assumes "distinct (map p_pid (t_procs t))" "settle_one (y, t, a) it = (y', t', a')"
  shows "t_procs t' = map (settled it) (t_procs t)"
proof (cases "it_proc it")
  case None
  then show ?thesis using assms(2) by (simp add: settle_one_def settled_def map_idI)
next
  case (Some pid)
  show ?thesis
  proof (cases "find_locked pid t")
    case None
    then have "\<forall>p\<in>set (t_procs t). p_pid p \<noteq> pid" by (simp add: find_locked_def find_None_iff)
    then have "map (settled it) (t_procs t) = t_procs t" by (intro map_idI) (auto simp: settled_def Some)
    then show ?thesis using assms(2) Some None by (auto simp: settle_one_def)
  next
    case found: (Some q)
    then have q: "q \<in> set (t_procs t)" "p_pid q = pid" by (auto dest: find_locked_Some)
    have only: "p = q" if "p \<in> set (t_procs t)" "p_pid p = pid" for p
      using assms(1) q that by (auto simp: distinct_map inj_on_def)
    show ?thesis
    proof (cases "p_urgent q = it_urgent it \<and> p_bound q = it_bound it")
      case True
      then have "map (settled it) (t_procs t) = t_procs t"
        by (intro map_idI) (auto simp: settled_def Some dest: only)
      then show ?thesis using assms(2) Some found True by (simp add: settle_one_def)
    next
      case False
      then have "t' = upd_proc pid (\<lambda>p. p\<lparr>p_urgent := it_urgent it, p_bound := it_bound it\<rparr>) t"
        using assms(2) Some found by (auto simp: settle_one_def Let_def split: if_splits prod.splits)
      then show ?thesis
        by (simp add: upd_proc_def upd_first_map [OF assms(1)] settled_def Some eq_commute [of pid])
    qed
  qed
qed

lemma settled_pid [simp]: "p_pid (settled it p) = p_pid p"
  by (simp add: settled_def)

lemma settle_procs:
  assumes "distinct (map p_pid (t_procs t))" "foldl settle_one (y, t, a) its = (y', t', a')"
  shows "t_procs t' = map (\<lambda>p. foldl (\<lambda>p it. settled it p) p its) (t_procs t)"
  using assms
proof (induction its arbitrary: y t a)
  case Nil
  then show ?case by simp
next
  case (Cons it its)
  obtain y1 t1 a1 where one: "settle_one (y, t, a) it = (y1, t1, a1)" by (metis prod_cases3)
  have t1: "t_procs t1 = map (settled it) (t_procs t)" by (rule settle_one_procs [OF Cons.prems(1) one])
  have "distinct (map p_pid (t_procs t1))" using Cons.prems(1) by (simp add: t1 o_def)
  from Cons.IH [OF this] Cons.prems(2) show ?case by (simp add: one t1)
qed

lemma settled_frame: "\<exists>u b. foldl (\<lambda>p it. settled it p) p its = p\<lparr>p_urgent := u, p_bound := b\<rparr>"
proof (induction its arbitrary: p)
  case Nil
  have "p = p\<lparr>p_urgent := p_urgent p, p_bound := p_bound p\<rparr>" by simp
  then show ?case by (metis foldl_Nil)
next
  case (Cons it its)
  obtain u b where "foldl (\<lambda>p it. settled it p) (settled it p) its = (settled it p)\<lparr>p_urgent := u, p_bound := b\<rparr>"
    using Cons.IH [of "settled it p"] by blast
  then show ?case by (auto simp: settled_def)
qed

lemma settled_other: "Some (p_pid p) \<notin> it_proc ` set its \<Longrightarrow> foldl (\<lambda>p it. settled it p) p its = p"
  by (induction its) (auto simp: settled_def)

lemma settled_own:
  assumes "distinct (map it_proc its)" "it \<in> set its" "it_proc it = Some (p_pid p)"
  shows "foldl (\<lambda>p it. settled it p) p its = p\<lparr>p_urgent := it_urgent it, p_bound := it_bound it\<rparr>"
  using assms
proof (induction its arbitrary: p)
  case (Cons x its)
  show ?case
  proof (cases "x = it")
    case True
    then have "Some (p_pid (settled it p)) \<notin> it_proc ` set its" using Cons.prems by (simp add: image_iff)
    from settled_other [OF this] show ?thesis using True Cons.prems(3) by (simp add: settled_def)
  next
    case False
    then have mem: "it_proc it \<in> set (map it_proc its)" using Cons.prems(2) by auto
    have "it_proc x \<noteq> it_proc it" using Cons.prems(1) mem by (metis distinct.simps(2) list.simps(9))
    then have "settled x p = p" using Cons.prems(3) by (simp add: settled_def)
    then show ?thesis using Cons False by simp
  qed
qed simp

lemma load_le: "l_total (foldl (load_one y) l ps) \<le> l_total l + 1000 * length (filter live_rt ps)"
proof (induction ps arbitrary: l)
  case (Cons p ps)
  have cast: "cast32 n \<le> n" for n by (simp add: cast32_def)
  have "permille c i \<le> 1000" for c i by (simp add: permille_def Let_def)
  then have "cast32 (l_total l + permille c i) \<le> l_total l + 1000" for c i using cast le_trans add_le_cancel_left by metis
  then have "l_total (load_one y l p) \<le> l_total l + (if live_rt p then 1000 else 0)"
    by (auto simp: load_one_def split: option.splits)
  then show ?case using Cons.IH [of "load_one y l p"] by auto
qed simp

text \<open>By when it must answer.\<close>

definition answer_by :: "proc \<Rightarrow> nat" where
  "answer_by p = (if p_deadline p \<noteq> 0 \<and> p_deadline p < p_period p then p_deadline p else p_period p)"

lemma place_all_result:
  assumes "place_all interval deadline wcet out (y, t) = ((y', t', acts), RV9_PROC_OK, out')"
    and "distinct (map p_pid (t_procs t))" "length (filter live_rt (t_procs t)) < RT_MAX_ANALYSED"
  shows "list_all2 (\<lambda>p p'. \<exists>u b. p' = p\<lparr>p_urgent := u, p_bound := b\<rparr>) (t_procs t) (t_procs t') \<and>
    (\<forall>p\<in>set (t_procs t'). live_rt p \<and> p_period p \<noteq> 0 \<longrightarrow> p_bound p \<le> answer_by p) \<and>
    (\<forall>p\<in>set (t_procs t'). live_rt p \<longrightarrow> (p_place p = RV9_PLACE_URGENT \<longrightarrow> p_urgent p) \<and>
       (p_place p = RV9_PLACE_ROUTINE \<longrightarrow> \<not> p_urgent p)) \<and>
    ao_bound out' \<le> (case deadline of None \<Rightarrow> interval | Some d \<Rightarrow> min d interval)"
proof -
  let ?ps = "filter live_rt (t_procs t)"
  let ?in = "map (item_of y) ?ps @ [new_item interval deadline wcet (ao_place out)]"
  have "analysed y t = map (item_of y) ?ps" using assms(3) by (simp add: analysed_def)
  then obtain items where items: "place_rt ?in = (items, None)" "foldl settle_one (y, t, []) (butlast items) = (y', t', acts)"
      "ao_bound out' = it_bound (last items)"
    using assms(1) by (auto simp: place_all_def split: prod.splits option.splits)
  have work: "same_work ?in items" and pl: "placing items" and ok: "\<forall>j<length items. it_bounded (items ! j) \<longrightarrow> meets items j"
    using place_rt_result [OF items(1)] by simp_all
  have len: "length items = Suc (length ?ps)" using work by (simp add: same_work_def)
  have at: "\<exists>u b. items ! k = (?in ! k)\<lparr>it_urgent := u, it_bound := b\<rparr>" if "k < Suc (length ?ps)" for k
    using work that by (simp add: same_work_def)
  have its: "it_proc (items ! k) = Some (p_pid (?ps ! k))" "it_pin (items ! k) = p_place (?ps ! k)"
      "it_bounded (items ! k) = (p_period (?ps ! k) \<noteq> 0)" "it_d (items ! k) = answer_by (?ps ! k)" if "k < length ?ps" for k
    using at [of k] that by (auto simp: nth_append item_of_def answer_by_def)
  have "map it_proc (butlast items) = map (\<lambda>p. Some (p_pid p)) ?ps"
    by (rule nth_equalityI) (simp_all add: len nth_butlast its)
  moreover have "distinct (map (\<lambda>p. Some (p_pid p)) ?ps)"
    using assms(2) by (auto simp: distinct_map inj_on_def)
  ultimately have dist: "distinct (map it_proc (butlast items))" by simp
  let ?f = "\<lambda>p. foldl (\<lambda>p it. settled it p) p (butlast items)"
  have t': "t_procs t' = map ?f (t_procs t)" by (rule settle_procs [OF assms(2) items(2)])
  have changed: "(p_period p \<noteq> 0 \<longrightarrow> p_bound (?f p) \<le> answer_by p) \<and>
      (p_place p = RV9_PLACE_URGENT \<longrightarrow> p_urgent (?f p)) \<and> (p_place p = RV9_PLACE_ROUTINE \<longrightarrow> \<not> p_urgent (?f p))"
    if live: "p \<in> set ?ps" for p
  proof -
    obtain k where k0: "k < length ?ps" "?ps ! k = p" using live unfolding in_set_conv_nth by blast
    note k = k0(1) k0(2) [symmetric]
    have kb: "k < length (butlast items)" using k(1) len by simp
    have "items ! k \<in> set (butlast items)" using nth_mem [OF kb] unfolding nth_butlast [OF kb] .
    from settled_own [OF dist this] have f: "?f p = p\<lparr>p_urgent := it_urgent (items ! k), p_bound := it_bound (items ! k)\<rparr>"
      by (simp add: its k)
    have "p_period p \<noteq> 0 \<longrightarrow> it_bound (items ! k) \<le> answer_by p"
      using ok [rule_format, of k] its(3,4) [OF k(1)] k0(2) k(1) len by (auto simp: meets_def)
    moreover have "(p_place p = RV9_PLACE_URGENT \<longrightarrow> it_urgent (items ! k)) \<and> (p_place p = RV9_PLACE_ROUTINE \<longrightarrow> \<not> it_urgent (items ! k))"
      using pl [unfolded placing_def, rule_format, of k] its(2) [OF k(1)] k len
      by (auto simp: movable_def RV9_PLACE_URGENT_def RV9_PLACE_ROUTINE_def RV9_PLACE_DERIVED_def)
    ultimately show ?thesis by (simp add: f)
  qed
  have frame: "live_rt (?f p) = live_rt p" "p_period (?f p) = p_period p" "p_place (?f p) = p_place p" "answer_by (?f p) = answer_by p" for p
    using settled_frame [of p "butlast items"] by (auto simp: live_rt_def answer_by_def)
  have "last items = items ! length ?ps" using len by (metis diff_Suc_1 last_conv_nth list.size(3) nat.distinct(1))
  moreover have "it_bounded (items ! length ?ps)" "it_d (items ! length ?ps) = (case deadline of None \<Rightarrow> interval | Some d \<Rightarrow> min d interval)"
    using at [of "length ?ps"] by (auto simp: nth_append new_item_def split: option.splits)
  ultimately have "ao_bound out' \<le> (case deadline of None \<Rightarrow> interval | Some d \<Rightarrow> min d interval)"
    using ok [rule_format, of "length ?ps"] items(3) len by (auto simp: meets_def)
  moreover have "list_all2 (\<lambda>p p'. \<exists>u b. p' = p\<lparr>p_urgent := u, p_bound := b\<rparr>) (t_procs t) (t_procs t')"
    unfolding t' by (simp add: list_all2_map2 list_all2_same settled_frame)
  ultimately show ?thesis using changed by (auto simp: t' frame)
qed


text \<open>A module with no manifest, every 10 us, beside a process of 2 us in every 10.\<close>

definition busy_table :: ptable where
  "busy_table = table_with [blank_proc\<lparr>p_pid := 7, p_realtime := True, p_period := 10, p_wcet := 2\<rparr>]"

definition idle_rt :: rtsys where
  "idle_rt = \<lparr>y_rt = [], y_events = [], y_clock = \<lparr>ck_entries = [], ck_alarm = None\<rparr>, y_watch_slot = None, y_watch_running = False\<rparr>"

definition blank_out :: admit_out where
  "blank_out = \<lparr>ao_wcet = 0, ao_deadline = 0, ao_urgent = True, ao_bound = 0, ao_place = 0\<rparr>"

lemma no_manifest: "rv9_mod_manifest_u8 (Some []) tag = None" "rv9_mod_manifest_u32 (Some []) tag = None"
  by (simp_all add: rv9_mod_manifest_u8_def rv9_mod_manifest_u32_def rv9_mod_manifest_find_def manifest_walk_def
      header_of_def le32_def le16_def byte_at_def)

definition two_items :: "nat \<Rightarrow> nat \<Rightarrow> rt_item list" where
  "two_items a b =
     [\<lparr>it_proc = Some 7, it_c = 2, it_t = 10, it_d = 10, it_bounded = True, it_urgent = True, it_pin = 0, it_bound = a\<rparr>,
      \<lparr>it_proc = None, it_c = 0, it_t = 10, it_d = 10, it_bounded = True, it_urgent = True, it_pin = 0, it_bound = b\<rparr>]"

lemma two_bound: "response_bound (two_items a b) 0 = 2" "response_bound (two_items a b) (Suc 0) = 2"
proof -
  have "response_next (two_items a b) 0 2 = 2" "response_next (two_items a b) 1 0 = 2" "response_next (two_items a b) 1 2 = 2"
    by (simp_all add: response_next_def waits_for_def demand_def two_items_def upt_rec)
  moreover have c: "it_c (two_items a b ! 0) = 2" "it_c (two_items a b ! 1) = 0" "it_d (two_items a b ! 0) = 10"
    "it_d (two_items a b ! 1) = 10" by (simp_all add: two_items_def)
  ultimately have "response_bound (two_items a b) 0 = 2" "response_bound (two_items a b) 1 = 2"
    unfolding response_bound_def response_iter_num c Let_def by (simp_all add: response_iter_num c sat32_def)
  then show "response_bound (two_items a b) 0 = 2" "response_bound (two_items a b) (Suc 0) = 2" by simp_all
qed

lemma two_placed:
  "place_rt (analysed idle_rt busy_table @ [new_item 10 None None 0]) = (two_items 2 2, None)"
proof -
  have start: "map (\<lambda>x. x\<lparr>it_urgent := it_pin x \<noteq> RV9_PLACE_ROUTINE\<rparr>) (analysed idle_rt busy_table @ [new_item 10 None None 0]) = two_items 0 0"
    by (simp add: analysed_def busy_table_def table_with_def blank_proc_def item_of_def new_item_def two_items_def
        RV9_PLACE_ROUTINE_def live_rt_def RT_MAX_ANALYSED_def)
  have nx: "(two_items a b)[0 := (two_items a b ! 0)\<lparr>it_bound := c\<rparr>] = two_items c b"
    "(two_items a b)[Suc 0 := (two_items a b ! Suc 0)\<lparr>it_bound := c\<rparr>] = two_items a c" for a b c
    by (simp_all add: two_items_def)
  have at: "it_bounded (two_items a b ! 0)" "it_bounded (two_items a b ! Suc 0)" "it_urgent (two_items a b ! 0)"
    "it_urgent (two_items a b ! Suc 0)" "it_d (two_items a b ! 0) = 10" "it_d (two_items a b ! Suc 0) = 10"
    "it_bound (two_items a b ! 0) = a" "it_bound (two_items a b ! Suc 0) = b" "length (two_items a b) = 2" for a b
    by (simp_all add: two_items_def)
  have up: "level_meets True (two_items 0 0) = (two_items 2 2, None)"
    by (simp add: level_meets_def at upt_rec two_bound nx Let_def)
  have "level_meets False (two_items 2 2) = (two_items 2 2, None)"
    by (simp add: level_meets_def at upt_rec)
  then show ?thesis unfolding place_rt_def start place_loop.simps [of "two_items 0 0"] up by simp
qed

lemma busy_admits:
  "admit_rt True 65536 [] 10 4096 blank_out (idle_rt, busy_table) =
     ((idle_rt, busy_table\<lparr>t_procs := map (\<lambda>p. p\<lparr>p_urgent := True, p_bound := 2\<rparr>) (t_procs busy_table)\<rparr>, []), RV9_PROC_OK,
      blank_out\<lparr>ao_urgent := True, ao_bound := 2\<rparr>)"
proof -
  have load: "l_total (rt_load idle_rt busy_table) = 200"
    by (simp add: rt_load_def load_one_def busy_table_def table_with_def blank_proc_def live_rt_def permille_def)
  have "butlast (two_items 2 2) = [two_items 2 2 ! 0]" "last (two_items 2 2) = two_items 2 2 ! 1" by (simp_all add: two_items_def)
  then have "place_all 10 None None blank_out (idle_rt, busy_table) =
     ((idle_rt, busy_table\<lparr>t_procs := map (\<lambda>p. p\<lparr>p_urgent := True, p_bound := 2\<rparr>) (t_procs busy_table)\<rparr>, []), RV9_PROC_OK,
      blank_out\<lparr>ao_urgent := True, ao_bound := 2\<rparr>)"
    using two_placed
    by (simp add: place_all_def blank_out_def) (simp add: two_items_def settle_one_def busy_table_def table_with_def blank_proc_def
      find_locked_def upd_proc_def)
  moreover have "rv9_rt_slots_used idle_rt < MAX_RT_TASKS" by (simp add: rv9_rt_slots_used_def idle_rt_def MAX_RT_TASKS_def)
  ultimately show ?thesis
    by (simp add: admit_rt_def no_manifest load own_permille_def RT_UTIL_MAX_PERMILLE_def RV9_PLACE_DERIVED_def
        RV9_PLACE_ROUTINE_def blank_out_def)
qed


end
