(* ===== verification/ProcLife.thy ===== *)
theory ProcLife
  imports Admission Modules
begin

text \<open>
  How a process begins (components/rv9_proc/src/proc.c): fork, from the link of its module to
  its task. The process table, the module directory and the real-time tasks are one state;
  what is asked of other parts (hooks, the host, the allocator's frees) is recorded in
  \<open>w_log\<close> in the order it happens. What they answer is the environment of the call.
\<close>

section \<open>The state of the system\<close>

datatype life_act =
    AskClaim nat | ForkHook nat nat | ExitHook nat | EndedHook nat nat
  | MemClass nat | FreeStatics nat | FreeArena nat | StartTask nat | ForgetTask nat | DeleteTask nat | ReapTask nat
  | KillTask nat | UncancelTask nat | Host host_act

record world =
  w_pt :: ptable
  w_mod :: modsys
  w_rt :: rtsys
  w_log :: "life_act list"

definition tell :: "life_act list \<Rightarrow> world \<Rightarrow> world" where
  "tell as w = w\<lparr>w_log := w_log w @ as\<rparr>"

definition on_pt :: "(ptable \<Rightarrow> ptable) \<Rightarrow> world \<Rightarrow> world" where
  "on_pt f w = w\<lparr>w_pt := f (w_pt w)\<rparr>"

definition unlink_mod :: "nat option \<Rightarrow> world \<Rightarrow> world" where
  "unlink_mod m w = w\<lparr>w_mod := fst (rv9_mod_unlink m (w_mod w))\<rparr>"

section \<open>What the module asks for\<close>

definition RV9_MTAG_STACK :: nat where "RV9_MTAG_STACK = 2"
definition RV9_MTAG_PERIOD_US :: nat where "RV9_MTAG_PERIOD_US = 6"
definition RV9_MTAG_MIN_INTER_US :: nat where "RV9_MTAG_MIN_INTER_US = 8"
definition RV9_MTAG_ON_DEADLINE :: nat where "RV9_MTAG_ON_DEADLINE = 16"
definition RV9_MTAG_MEM_MAX :: nat where "RV9_MTAG_MEM_MAX = 19"
definition RV9_MTAG_HEAP_IN :: nat where "RV9_MTAG_HEAP_IN = 21"
definition RV9_MTAG_EXT_MAX :: nat where "RV9_MTAG_EXT_MAX = 22"
definition RV9_HEAP_INTERNAL :: nat where "RV9_HEAP_INTERNAL = 0"
definition RV9_HEAP_EXTERNAL :: nat where "RV9_HEAP_EXTERNAL = 1"
definition RV9_ON_DEADLINE_REPORT :: nat where "RV9_ON_DEADLINE_REPORT = 0"
definition RV9_ON_DEADLINE_FAULT :: nat where "RV9_ON_DEADLINE_FAULT = 1"
definition RV9_PRIO_MAX :: int where "RV9_PRIO_MAX = 15"
definition RV9_MEM_REALTIME :: nat where "RV9_MEM_REALTIME = 1"

text \<open>A manifest value, or what the variable had.\<close>

definition u32_or :: "image \<Rightarrow> nat \<Rightarrow> nat \<Rightarrow> nat" where
  "u32_or img tag d = (case rv9_mod_manifest_u32 (Some img) tag of None \<Rightarrow> d | Some v \<Rightarrow> v)"

definition u8_or :: "image \<Rightarrow> nat \<Rightarrow> nat \<Rightarrow> nat" where
  "u8_or img tag d = (case rv9_mod_manifest_u8 (Some img) tag of None \<Rightarrow> d | Some v \<Rightarrow> v)"

record fork_plan =
  fp_period :: nat
  fp_stack :: nat
  fp_heap :: nat
  fp_external :: bool
  fp_footprint :: nat
  fp_ext :: nat
  fp_budget :: nat
  fp_ext_budget :: nat

text \<open>\<open>overhead\<close> is \<open>PROC_OVERHEAD\<close>.\<close>

definition plan_fork :: "nat \<Rightarrow> bool \<Rightarrow> nat \<Rightarrow> image \<Rightarrow> proc_err + fork_plan" where
  "plan_fork overhead rt period img =
     (let h = header_of img;
          period' = (if rt \<and> period = 0 then u32_or img RV9_MTAG_PERIOD_US 0 else period);
          stack1 = (if h_stack_size h = 0 then u32_or img RV9_MTAG_STACK 0 else h_stack_size h);
          stack = (if stack1 = 0 then PROC_DEFAULT_STACK else stack1);
          heap = u32_or img RV9_MTAG_HEAP_MAX 0;
          heap_in = u8_or img RV9_MTAG_HEAP_IN RV9_HEAP_INTERNAL;
          external = (heap_in = RV9_HEAP_EXTERNAL \<and> heap > 0)
      in if heap_in > RV9_HEAP_EXTERNAL then Inl RV9_PROC_ERR_CONTRACT
         else if external \<and> rt then Inl RV9_PROC_ERR_CONTRACT
         else if heap > 0x7FFFFFFF then Inl RV9_PROC_ERR_NOMEM
         else Inr \<lparr>fp_period = period', fp_stack = stack, fp_heap = heap, fp_external = external,
                fp_footprint = cast32 (cast32 (stack + h_static_size h + overhead) + (if external then 0 else heap)),
                fp_ext = (if external then heap else 0),
                fp_budget = u32_or img RV9_MTAG_MEM_MAX PROC_BUDGET_DEFAULT,
                fp_ext_budget = u32_or img RV9_MTAG_EXT_MAX PROC_EXT_UNBOUNDED\<rparr>)"

section \<open>Fork\<close>

text \<open>The environment of a fork: the flash, the address \<open>rv9_alloc_exec\<close> gives, the claim
  hook's answer if there is a hook, whether descriptor, statics and arena can be had, the
  time, the task the host makes, and the forking task.\<close>

record fork_env =
  fe_read :: "nat \<Rightarrow> nat \<Rightarrow> image option"
  fe_exec :: nat
  fe_claim :: "(nat \<Rightarrow> image \<Rightarrow> proc_err) option"
  fe_overhead :: nat
  fe_room :: bool
  fe_statics :: bool
  fe_arena :: bool
  fe_now :: nat
  fe_task :: "nat option"
  fe_self :: nat
  fe_avail :: nat
  fe_derive :: bool

definition undo_fork :: "nat \<Rightarrow> world \<Rightarrow> world" where
  "undo_fork pid = tell [ExitHook pid, EndedHook pid RV9_FAULT_NONE]"

definition refuse_fork :: "nat \<Rightarrow> charge \<Rightarrow> world \<Rightarrow> world" where
  "refuse_fork pid c w = undo_fork pid (on_pt (refuse_charge c) w)"

text \<open>Timing admission, for a real-time process only: its deadline policy, then \<open>admit_rt\<close>.\<close>

definition admit_fork ::
  "fork_env \<Rightarrow> bool \<Rightarrow> image \<Rightarrow> fork_plan \<Rightarrow> world \<Rightarrow> world \<times> (proc_err + nat \<times> admit_out)" where
  "admit_fork env rt img plan w =
     (let out = \<lparr>ao_wcet = 0, ao_deadline = 0, ao_urgent = True, ao_bound = 0, ao_place = RV9_PLACE_DERIVED\<rparr>;
          on_deadline = u8_or img RV9_MTAG_ON_DEADLINE RV9_ON_DEADLINE_REPORT;
          interval = (if fp_period plan = 0 then u32_or img RV9_MTAG_MIN_INTER_US 0 else fp_period plan)
      in if \<not> rt then (w, Inr (RV9_ON_DEADLINE_REPORT, out))
         else if on_deadline > RV9_ON_DEADLINE_FAULT then (w, Inl RV9_PROC_ERR_CONTRACT)
         else case admit_rt (fe_derive env) (fe_avail env) img interval (fp_stack plan) out (w_rt w, w_pt w) of
           ((y, t, acts), err, out') \<Rightarrow>
             (tell (map Host acts) (w\<lparr>w_rt := y, w_pt := t\<rparr>),
              if err = RV9_PROC_OK then Inr (on_deadline, out') else Inl err))"

definition new_proc ::
  "fork_env \<Rightarrow> bool \<Rightarrow> string \<Rightarrow> int \<Rightarrow> string option \<Rightarrow> nat \<Rightarrow> image \<Rightarrow> fork_plan \<Rightarrow> charge \<Rightarrow> nat \<Rightarrow> nat \<Rightarrow> nat \<Rightarrow> admit_out \<Rightarrow> proc" where
  "new_proc env rt name priority arg m img plan c pid parent on_deadline out =
     \<lparr>p_pid = pid, p_parent = parent, p_name = cstr 32 name, p_module = Some m,
      p_statics = (h_static_size (header_of img) > 0), p_task = 0, p_realtime = rt, p_period = fp_period plan,
      p_wcet = ao_wcet out, p_deadline = ao_deadline out, p_on_deadline = on_deadline,
      p_urgent = (rt \<and> ao_urgent out), p_bound = ao_bound out, p_place = ao_place out, p_stack_bytes = fp_stack plan,
      p_base = priority, p_age = 0, p_eff = priority, p_state = RV9_PROC_ACTIVE, p_exit_status = 0, p_signals = 0,
      p_fault = 0, p_collecting = False, p_noted = False, p_since = 0, p_refs = 1, p_waited = False, p_ended_seq = 0,
      p_serial = c_serial c, p_footprint = fp_footprint plan, p_held = fp_footprint plan, p_budget = fp_budget plan,
      p_ancestors = c_ancestors c, p_ext_footprint = fp_ext plan, p_ext_held = fp_ext plan,
      p_ext_budget = fp_ext_budget plan, p_arena = (fp_heap plan > 0), p_arena_size = fp_heap plan,
      p_heap_given = fp_heap plan, p_arena_external = fp_external plan, p_started = fe_now env,
      p_arg = (case arg of None \<Rightarrow> [] | Some a \<Rightarrow> cstr 64 a), p_chain_to = [], p_chain_pending = False\<rparr>"

text \<open>The memory, then the table, then the task; a task that cannot be made leaves the dead
  descriptor to pruning.\<close>

definition start_proc ::
  "fork_env \<Rightarrow> bool \<Rightarrow> string \<Rightarrow> int \<Rightarrow> string option \<Rightarrow> nat \<Rightarrow> image \<Rightarrow> fork_plan \<Rightarrow> charge \<Rightarrow> nat \<Rightarrow> nat \<Rightarrow> admit_out \<Rightarrow> world \<Rightarrow> world \<times> (proc_err + nat)" where
  "start_proc env rt name priority arg m img plan c pid on_deadline out w =
     (if \<not> fe_room env \<or> (h_static_size (header_of img) > 0 \<and> \<not> fe_statics env)
      then (unlink_mod (Some m) (refuse_fork pid c w), Inl RV9_PROC_ERR_NOMEM)
      else if fp_heap plan > 0 \<and> \<not> fe_arena env
      then (unlink_mod (Some m)
              (refuse_fork pid c (tell (if h_static_size (header_of img) > 0 then [FreeStatics pid] else []) w)),
            Inl RV9_PROC_ERR_NOMEM)
      else
        let parent = rv9_proc_current_pid (fe_self env) (w_pt w);
            p = new_proc env rt name priority arg m img plan c pid parent on_deadline out;
            w1 = tell [ForkHook parent pid] (on_pt (\<lambda>t. t\<lparr>t_procs := p # t_procs t\<rparr>) w)
        in case fe_task env of
             None \<Rightarrow>
               (unlink_mod (Some m)
                  (undo_fork pid
                    (tell ((if p_statics p then [FreeStatics pid] else []) @ (if p_arena p then [FreeArena pid] else []))
                      (on_pt (upd_proc pid (\<lambda>p. p\<lparr>p_statics := False, p_arena := False\<rparr>))
                        (on_pt (\<lambda>t. ended_locked pid (upd_proc pid (\<lambda>p. p\<lparr>p_exit_status := - 1, p_refs := 0\<rparr>) t)) w1)))),
                Inl RV9_PROC_ERR_NOMEM)
           | Some task \<Rightarrow>
               (tell [StartTask task] (on_pt (upd_proc pid (\<lambda>p. p\<lparr>p_task := task\<rparr>)) w1), Inr pid))"

text \<open>Claims, then timing, for a pid that has been charged.\<close>

definition claim_fork ::
  "fork_env \<Rightarrow> bool \<Rightarrow> string \<Rightarrow> int \<Rightarrow> string option \<Rightarrow> nat \<Rightarrow> image \<Rightarrow> fork_plan \<Rightarrow> charge \<Rightarrow> nat \<Rightarrow> world \<Rightarrow> world \<times> (proc_err + nat)" where
  "claim_fork env rt name priority arg m img plan c pid w =
     (let w1 = (if fe_claim env = None then w else tell [AskClaim pid] w);
          claim = (case fe_claim env of None \<Rightarrow> RV9_PROC_OK | Some f \<Rightarrow> f pid img)
      in if claim \<noteq> RV9_PROC_OK then (unlink_mod (Some m) (refuse_fork pid c w1), Inl claim)
         else case admit_fork env rt img plan w1 of
           (w2, Inl err) \<Rightarrow> (unlink_mod (Some m) (refuse_fork pid c w2), Inl err)
         | (w2, Inr (on_deadline, out)) \<Rightarrow> start_proc env rt name priority arg m img plan c pid on_deadline out w2)"

definition fork_inner ::
  "fork_env \<Rightarrow> string option \<Rightarrow> int \<Rightarrow> string option \<Rightarrow> bool \<Rightarrow> nat \<Rightarrow> world \<Rightarrow> world \<times> (proc_err + nat)" where
  "fork_inner env name priority arg rt period w =
     (case name of
        None \<Rightarrow> (w, Inl RV9_PROC_ERR_INVAL)
      | Some nm \<Rightarrow>
          (case rv9_mod_link (fe_read env) (fe_exec env) (Some nm) (w_mod w) of
             (s, Inl merr) \<Rightarrow>
               (w\<lparr>w_mod := s\<rparr>, Inl (if merr = RV9_MOD_ERR_NOMEM then RV9_PROC_ERR_NOMEM else RV9_PROC_ERR_MODULE))
           | (s, Inr m) \<Rightarrow>
               let w1 = w\<lparr>w_mod := s\<rparr>;
                   img = (case m_image (m_dir s ! m) of None \<Rightarrow> [] | Some (_, img) \<Rightarrow> img)
               in case plan_fork (fe_overhead env) rt period img of
                    Inl err \<Rightarrow> (unlink_mod (Some m) w1, Inl err)
                  | Inr plan \<Rightarrow>
                      (case next_pid_locked (prune_locked (w_pt w1)) of
                         (t, pid) \<Rightarrow>
                           if pid = RV9_PID_NONE
                           then (unlink_mod (Some m) (w1\<lparr>w_pt := t\<rparr>), Inl RV9_PROC_ERR_NOMEM)
                           else
                             (case charge_locked (fe_self env) (fp_footprint plan) (fp_budget plan) (fp_ext plan)
                                     (fp_ext_budget plan) t of
                                (t', Inl _) \<Rightarrow> (unlink_mod (Some m) (w1\<lparr>w_pt := t'\<rparr>), Inl RV9_PROC_ERR_BUDGET)
                              | (t', Inr c) \<Rightarrow> claim_fork env rt nm priority arg m img plan c pid (w1\<lparr>w_pt := t'\<rparr>)))))"

text \<open>A real-time child is forked with the real-time reserve open; \<open>prev\<close> is the caller's class.\<close>

definition fork_common ::
  "fork_env \<Rightarrow> nat \<Rightarrow> string option \<Rightarrow> int \<Rightarrow> string option \<Rightarrow> bool \<Rightarrow> nat \<Rightarrow> world \<Rightarrow> world \<times> (proc_err + nat)" where
  "fork_common env prev name priority arg rt period w =
     (let raise = (rt \<and> prev < RV9_MEM_REALTIME) in
      case fork_inner env name priority arg rt period (if raise then tell [MemClass RV9_MEM_REALTIME] w else w) of
        (w', r) \<Rightarrow> (if raise then tell [MemClass prev] w' else w', r))"

definition rv9_proc_fork ::
  "fork_env \<Rightarrow> nat \<Rightarrow> string option \<Rightarrow> int \<Rightarrow> string option \<Rightarrow> world \<Rightarrow> world \<times> (proc_err + nat)" where
  "rv9_proc_fork env prev name priority arg = fork_common env prev name priority arg False 0"

definition rv9_proc_fork_rt ::
  "fork_env \<Rightarrow> nat \<Rightarrow> string option \<Rightarrow> nat \<Rightarrow> string option \<Rightarrow> world \<Rightarrow> world \<times> (proc_err + nat)" where
  "rv9_proc_fork_rt env prev name period arg = fork_common env prev name RV9_PRIO_MAX arg True period"

end
