(* ===== verification/ProcEnd.thy ===== *)
theory ProcEnd
  imports ProcLife
begin

text \<open>
  How a process runs on and ends (components/rv9_proc/src/proc.c): real-time declarations,
  chaining, returning, ending inside a wait, being collected, being stopped from outside,
  and the wait and kill of others, whose loops are modelled a turn at a time.
\<close>

text \<open>The environment of an ending: the release clock (see \<open>rv9_rt_release\<close>), the task it runs
  on, what the KAL measured of its stack, the time.\<close>

record end_env =
  ee_started :: bool
  ee_clk :: "nat \<Rightarrow> nat"
  ee_self :: nat
  ee_stack :: "(nat \<times> nat) option"
  ee_now :: nat

definition on_rt :: "(rtsys \<Rightarrow> rtsys) \<Rightarrow> world \<Rightarrow> world" where
  "on_rt f w = w\<lparr>w_rt := f (w_rt w)\<rparr>"

section \<open>Declaring a release\<close>

definition hold_to_deadline :: "nat \<Rightarrow> nat \<Rightarrow> nat \<Rightarrow> bool \<Rightarrow> rtsys \<Rightarrow> rtsys" where
  "hold_to_deadline self deadline interval fatal y =
     fst (rv9_rt_deadline self (if deadline = 0 \<or> (interval \<noteq> 0 \<and> deadline > interval) then interval else deadline) fatal y)"

text \<open>What follows a declaration that succeeded: the deadline, and the placement recorded.\<close>

definition declared :: "proc \<Rightarrow> nat \<Rightarrow> nat \<Rightarrow> rtsys \<Rightarrow> rtsys" where
  "declared p self interval y =
     fst (rv9_rt_set_class self (p_urgent p) (p_bound p)
       (hold_to_deadline self (p_deadline p) interval (p_on_deadline p = RV9_ON_DEADLINE_FAULT) y))"

definition upd_self :: "nat \<Rightarrow> (proc \<Rightarrow> proc) \<Rightarrow> ptable \<Rightarrow> ptable" where
  "upd_self self f t = t\<lparr>t_procs := upd_first (\<lambda>p. p_task p = self) f (t_procs t)\<rparr>"

definition env_rt_declare :: "end_env \<Rightarrow> (nat \<Rightarrow> nat) \<Rightarrow> bool \<Rightarrow> nat \<Rightarrow> world \<Rightarrow> world \<times> int" where
  "env_rt_declare env clk' sem_made period w =
     (let self = ee_self env in
      case current_locked self (w_pt w) of
        None \<Rightarrow> (w, - 1)
      | Some p \<Rightarrow>
          if \<not> p_realtime p then (w, - 1)
          else
            let interval = (if period = 0 then p_period p else period);
                w1 = on_pt (upd_self self (\<lambda>p. p\<lparr>p_period := interval\<rparr>)) w
            in if interval = 0 then (w1, - 4)
               else case rv9_rt_declare (ee_started env) (ee_clk env) clk' sem_made self (ee_now env) interval (w_rt w1) of
                 (y, e) \<Rightarrow>
                   if e \<noteq> RV9_OK then (w1\<lparr>w_rt := y\<rparr>, - 2)
                   else (w1\<lparr>w_rt := declared p self interval y\<rparr>, 0))"

definition env_rt_declare_event :: "end_env \<Rightarrow> int \<Rightarrow> nat \<Rightarrow> world \<Rightarrow> world \<times> int" where
  "env_rt_declare_event env event_id min_interval w =
     (let self = ee_self env in
      case current_locked self (w_pt w) of
        None \<Rightarrow> (w, - 1)
      | Some p \<Rightarrow>
          if \<not> p_realtime p then (w, - 1)
          else
            let w1 = on_pt (upd_self self (\<lambda>p. p\<lparr>p_period := min_interval\<rparr>)) w
            in case rv9_event_by_id event_id (y_events (w_rt w1)) of
                 None \<Rightarrow> (w1, - 3)
               | Some ev \<Rightarrow>
                   (case rv9_rt_declare_event (ee_started env) (ee_clk env) self (ee_now env) ev min_interval (w_rt w1) of
                      (y, e) \<Rightarrow>
                        if e \<noteq> RV9_OK then (w1\<lparr>w_rt := y\<rparr>, - 2)
                        else (w1\<lparr>w_rt := declared p self min_interval y\<rparr>, 0)))"

section \<open>Ending\<close>

definition frees :: "proc \<Rightarrow> life_act list" where
  "frees p = (if p_statics p then [FreeStatics (p_pid p)] else []) @ (if p_arena p then [FreeArena (p_pid p)] else [])"

text \<open>The descriptor of an ended process: why, and nothing more of its own.\<close>

definition publish_end :: "nat \<Rightarrow> int \<Rightarrow> nat \<Rightarrow> ptable \<Rightarrow> ptable" where
  "publish_end pid rc fault t = ended_locked pid (upd_proc pid (\<lambda>p. p\<lparr>p_exit_status := rc, p_fault := fault\<rparr>) t)"

definition note_stack :: "(nat \<times> nat) option \<Rightarrow> proc \<Rightarrow> world \<Rightarrow> world" where
  "note_stack stack p w =
     (case stack of
        None \<Rightarrow> w
      | Some (size0, unused) \<Rightarrow>
          let size = (if size0 = 0 then p_stack_bytes p else size0);
              used = (if size > unused then size - unused else 0)
          in w\<lparr>w_mod := rv9_mod_note_stack (p_module p) (cast32 size) (cast32 used) (w_mod w)\<rparr>)"

definition finish :: "end_env \<Rightarrow> nat \<Rightarrow> int \<Rightarrow> nat \<Rightarrow> world \<Rightarrow> world" where
  "finish env pid rc fault w =
     (case find_locked pid (w_pt w) of
        None \<Rightarrow> w
      | Some p \<Rightarrow>
          let w1 = (if p_realtime p then on_rt (rv9_rt_release (ee_started env) (ee_clk env) (ee_self env)) w else w);
              w2 = on_pt (publish_end pid rc fault) (tell [ExitHook pid] w1);
              w3 = unlink_mod (p_module p) (note_stack (ee_stack env) p (tell [EndedHook pid fault] w2));
              w4 = on_pt (upd_proc pid (\<lambda>p. p\<lparr>p_statics := False, p_arena := False\<rparr>)) (tell (frees p) w3)
          in tell [ForgetTask (ee_self env), DeleteTask (ee_self env)] (on_pt (put pid) w4))"

definition end_here :: "end_env \<Rightarrow> int \<Rightarrow> world \<Rightarrow> world" where
  "end_here env why w =
     (case current_locked (ee_self env) (w_pt w) of
        None \<Rightarrow> tell [DeleteTask (ee_self env)] (on_rt (rv9_rt_release (ee_started env) (ee_clk env) (ee_self env)) w)
      | Some p \<Rightarrow>
          if why = RV9_RT_DEADLINE then finish env (p_pid p) (- err_code RV9_PROC_ERR_DEADLINE) RV9_FAULT_DEADLINE w
          else if why = RV9_RT_RUNAWAY then finish env (p_pid p) (- err_code RV9_PROC_ERR_RUNAWAY) RV9_FAULT_RUNAWAY w
          else finish env (p_pid p) (- err_code RV9_PROC_ERR_KILLED) RV9_FAULT_KILLED w)"

text \<open>What \<open>rv9_rt_wait\<close> answered decides whether the module sees it.\<close>

definition env_rt_wait :: "end_env \<Rightarrow> int \<Rightarrow> world \<Rightarrow> world" where
  "env_rt_wait env r w =
     (if r = RV9_RT_DEADLINE \<or> r = RV9_RT_STOPPED \<or> r = RV9_RT_RUNAWAY then end_here env r w else w)"

section \<open>The life of the task\<close>

definition trampoline_begin :: "nat \<Rightarrow> nat \<Rightarrow> world \<Rightarrow> world" where
  "trampoline_begin self pid w =
     (case find_locked pid (w_pt w) of
        None \<Rightarrow> w
      | Some p \<Rightarrow> tell (if p_realtime p then [MemClass RV9_MEM_REALTIME] else []) (on_pt (upd_proc pid (\<lambda>p. p\<lparr>p_task := self\<rparr>)) w))"

text \<open>After the module returned \<open>rc\<close>: None, and it goes on as the module it chained to, or the
  status it leaves with.\<close>

definition swap_module :: "fork_env \<Rightarrow> nat \<Rightarrow> proc \<Rightarrow> nat \<Rightarrow> image \<Rightarrow> world \<Rightarrow> world \<times> int option" where
  "swap_module env pid p nxt img w =
     (let statics = (h_static_size (header_of img) > 0);
          w1 = on_pt (upd_proc pid (\<lambda>p. p\<lparr>p_statics := False, p_heap_given := u32_or img RV9_MTAG_HEAP_MAX 0\<rparr>))
                 (tell (if p_statics p then [FreeStatics pid] else []) (unlink_mod (p_module p) w))
      in if statics \<and> \<not> fe_statics env then (unlink_mod (Some nxt) w1, Some (- 1))
         else (on_pt (upd_proc pid (\<lambda>q. q\<lparr>p_statics := statics, p_module := Some nxt, p_name := cstr 32 (p_chain_to p)\<rparr>)) w1, None))"

definition chain_turn :: "fork_env \<Rightarrow> nat \<Rightarrow> int \<Rightarrow> world \<Rightarrow> world \<times> int option" where
  "chain_turn env pid rc w =
     (case find_locked pid (w_pt w) of
        None \<Rightarrow> (w, Some rc)
      | Some p \<Rightarrow>
          if \<not> p_chain_pending p then (w, Some rc)
          else
            let w1 = on_pt (upd_proc pid (\<lambda>p. p\<lparr>p_chain_pending := False\<rparr>)) w in
            case rv9_mod_link (fe_read env) (fe_exec env) (Some (p_chain_to p)) (w_mod w1) of
              (s, Inl _) \<Rightarrow> (w1\<lparr>w_mod := s\<rparr>, Some (- 1))
            | (s, Inr nxt) \<Rightarrow>
                let img = (case m_image (m_dir s ! nxt) of None \<Rightarrow> [] | Some (_, img) \<Rightarrow> img);
                    w2 = (if fe_claim env = None then w1\<lparr>w_mod := s\<rparr> else tell [AskClaim pid] (w1\<lparr>w_mod := s\<rparr>));
                    claim = (case fe_claim env of None \<Rightarrow> RV9_PROC_OK | Some f \<Rightarrow> f pid img);
                    heap = u32_or img RV9_MTAG_HEAP_MAX 0;
                    heap_in = u8_or img RV9_MTAG_HEAP_IN RV9_HEAP_INTERNAL
                in if claim \<noteq> RV9_PROC_OK then (unlink_mod (Some nxt) w2, Some (- err_code claim))
                   else if heap > 0 \<and> (heap > p_arena_size p \<or> (heap_in = RV9_HEAP_EXTERNAL) \<noteq> p_arena_external p)
                   then (unlink_mod (Some nxt) w2, Some (- err_code RV9_PROC_ERR_CONTRACT))
                   else swap_module env pid p nxt img w2)"

definition trampoline_end :: "end_env \<Rightarrow> bool \<Rightarrow> nat \<Rightarrow> int \<Rightarrow> world \<Rightarrow> world" where
  "trampoline_end env stack_ok pid rc =
     (if stack_ok then finish env pid rc RV9_FAULT_NONE
      else finish env pid (- err_code RV9_PROC_ERR_FAULT) RV9_FAULT_STACK)"

section \<open>Collecting the killed\<close>

text \<open>\<open>alive\<close> and \<open>fault_of\<close> are \<open>rv9_task_alive\<close> and \<open>rv9_task_fault\<close>; the caller's task is
  \<open>ee_self\<close>.\<close>

definition faulted :: "(nat \<Rightarrow> bool) \<Rightarrow> proc \<Rightarrow> bool" where
  "faulted alive p \<longleftrightarrow> \<not> (p_state p = RV9_PROC_EXITED \<or> p_collecting p) \<and> \<not> (p_task p = 0 \<or> alive (p_task p))"

definition claim_faulted_locked :: "(nat \<Rightarrow> bool) \<Rightarrow> nat \<Rightarrow> ptable \<Rightarrow> ptable \<times> bool" where
  "claim_faulted_locked alive pid t =
     (case find_locked pid t of
        None \<Rightarrow> (t, False)
      | Some p \<Rightarrow> if faulted alive p then (upd_proc pid (\<lambda>p. p\<lparr>p_collecting := True\<rparr>) t, True) else (t, False))"

definition collect_faulted :: "end_env \<Rightarrow> (nat \<Rightarrow> nat) \<Rightarrow> nat \<Rightarrow> world \<Rightarrow> world" where
  "collect_faulted env fault_of pid w =
     (case find_locked pid (w_pt w) of
        None \<Rightarrow> w
      | Some p \<Rightarrow>
          let fault = fault_of (p_task p);
              rc = (if fault = RV9_FAULT_KILLED then - err_code RV9_PROC_ERR_KILLED else - err_code RV9_PROC_ERR_FAULT);
              why = (if fault \<noteq> 0 then fault else RV9_FAULT_STACK);
              w1 = (if p_realtime p then on_rt (rv9_rt_release (ee_started env) (ee_clk env) (ee_self env)) w else w);
              w2 = on_pt (upd_proc pid (\<lambda>p. p\<lparr>p_collecting := False\<rparr>))
                     (on_pt (publish_end pid rc why)
                       (on_pt (upd_proc pid (\<lambda>p. p\<lparr>p_statics := False, p_arena := False, p_task := 0\<rparr>)) (tell [ExitHook pid] w1)));
              w3 = (if p_module p = None then tell [EndedHook pid why] w2 else unlink_mod (p_module p) (tell [EndedHook pid why] w2))
          in on_pt (put pid) (tell (frees p @ [ReapTask (p_task p)]) w3))"

text \<open>The sweep: each round ends one process, so as many rounds as there are processes are enough.\<close>

fun collect_rounds :: "nat \<Rightarrow> end_env \<Rightarrow> (nat \<Rightarrow> bool) \<Rightarrow> (nat \<Rightarrow> nat) \<Rightarrow> world \<Rightarrow> world" where
  "collect_rounds 0 env alive fault_of w = w"
| "collect_rounds (Suc k) env alive fault_of w =
     (case find (faulted alive) (t_procs (w_pt w)) of
        None \<Rightarrow> w
      | Some p \<Rightarrow>
          collect_rounds k env alive fault_of
            (collect_faulted env fault_of (p_pid p) (on_pt (upd_proc (p_pid p) (\<lambda>p. p\<lparr>p_collecting := True\<rparr>)) w)))"

definition collect_faulted_all :: "end_env \<Rightarrow> (nat \<Rightarrow> bool) \<Rightarrow> (nat \<Rightarrow> nat) \<Rightarrow> world \<Rightarrow> world" where
  "collect_faulted_all env alive fault_of w = collect_rounds (length (t_procs (w_pt w))) env alive fault_of w"

section \<open>Stopped from outside\<close>

text \<open>The watchdog's handler. \<open>pc\<close> is the task's saved program counter, \<open>later\<close> the time after the
  descriptor was looked at. False: ask again.\<close>

definition code_of :: "modsys \<Rightarrow> nat option \<Rightarrow> nat \<times> nat" where
  "code_of s m = (case m of
       None \<Rightarrow> (0, 0)
     | Some i \<Rightarrow> (case m_image (m_dir s ! i) of None \<Rightarrow> 0 | Some (a, _) \<Rightarrow> a, m_size (m_dir s ! i)))"

definition stop_overrun :: "end_env \<Rightarrow> proc \<Rightarrow> int \<Rightarrow> world \<Rightarrow> world" where
  "stop_overrun env p why w =
     (let pid = p_pid p; task = p_task p;
          fault = (if why = RV9_RT_DEADLINE then RV9_FAULT_DEADLINE
                   else if why = RV9_RT_RUNAWAY then RV9_FAULT_RUNAWAY else RV9_FAULT_KILLED);
          status = (if why = RV9_RT_DEADLINE then - err_code RV9_PROC_ERR_DEADLINE
                    else if why = RV9_RT_RUNAWAY then - err_code RV9_PROC_ERR_RUNAWAY else - err_code RV9_PROC_ERR_KILLED);
          w1 = tell [ExitHook pid] (on_rt (rv9_rt_release_task (ee_started env) (ee_clk env) task) w);
          w2 = on_pt (publish_end pid status fault)
                 (on_pt (upd_proc pid (\<lambda>p. p\<lparr>p_statics := False, p_arena := False, p_task := 0\<rparr>)) w1);
          w3 = tell [EndedHook pid fault, ForgetTask task, DeleteTask task] w2;
          w4 = tell (frees p) (if p_module p = None then w3 else unlink_mod (p_module p) w3)
      in on_pt (put pid) (on_pt (put pid) w4))"

definition overruns :: "nat \<Rightarrow> proc \<Rightarrow> bool" where
  "overruns task p \<longleftrightarrow> p_task p = task \<and> p_realtime p \<and> p_state p \<noteq> RV9_PROC_EXITED"

definition rt_overrun :: "end_env \<Rightarrow> nat \<Rightarrow> int \<Rightarrow> nat \<Rightarrow> nat \<Rightarrow> world \<Rightarrow> world \<times> bool" where
  "rt_overrun env task why pc later w =
     (case find (overruns task) (t_procs (w_pt w)) of
        None \<Rightarrow> (w, True)
      | Some p \<Rightarrow>
          let pid = p_pid p; known = (p_module p \<noteq> None);
              since = (if \<not> known then 0 else if p_since p = 0 then ee_now env else p_since p);
              w1 = on_pt (upd_proc pid (\<lambda>q. (hold_locked q)\<lparr>p_since := (if known then since else p_since q)\<rparr>)) w;
              lower = (why = RV9_RT_RUNAWAY \<or> sub64 later since \<ge> RV9_RT_RUNAWAY_MS)
          in case code_of (w_mod w) (p_module p) of (code, len) \<Rightarrow>
             (case rv9_rt_seize (ee_self env) task pc code len lower (w_rt w1) of (y, acts, err) \<Rightarrow>
                let w2 = tell (map Host acts) (w1\<lparr>w_rt := y\<rparr>) in
                if err = RV9_ERR_BUSY
                then (on_pt (put pid)
                        (if lower \<and> \<not> (known \<and> p_noted p) then on_pt (upd_proc pid (\<lambda>q. q\<lparr>p_noted := True\<rparr>)) w2 else w2),
                      False)
                else if err \<noteq> RV9_OK then (on_pt (put pid) w2, True)
                else (stop_overrun env p why w2, True)))"

section \<open>Waiting for a process\<close>

text \<open>Inr: held, and to be watched a turn at a time until a turn answers.\<close>

definition wait_begin :: "nat \<Rightarrow> world \<Rightarrow> world \<times> proc_err option" where
  "wait_begin pid w =
     (case find_locked pid (w_pt w) of
        None \<Rightarrow> (w, Some RV9_PROC_ERR_NOTFOUND)
      | Some _ \<Rightarrow> (on_pt (upd_proc pid hold_locked) w, None))"

definition wait_turn :: "end_env \<Rightarrow> (nat \<Rightarrow> bool) \<Rightarrow> (nat \<Rightarrow> nat) \<Rightarrow> nat \<Rightarrow> nat \<Rightarrow> nat \<Rightarrow> world \<Rightarrow> world \<times> proc_err option" where
  "wait_turn env alive fault_of pid timeout deadline w =
     (case find_locked pid (w_pt w) of
        None \<Rightarrow> (w, Some RV9_PROC_OK)
      | Some p \<Rightarrow>
          if p_state p = RV9_PROC_EXITED then (w, Some RV9_PROC_OK)
          else if timeout \<noteq> UINT32_MAX \<and> ee_now env \<ge> deadline then (w, Some RV9_PROC_ERR_TIMEOUT)
          else case claim_faulted_locked alive pid (w_pt w) of (t, mine) \<Rightarrow>
            (if mine then collect_faulted env fault_of pid (w\<lparr>w_pt := t\<rparr>) else w\<lparr>w_pt := t\<rparr>, None))"

definition wait_end :: "nat \<Rightarrow> proc_err \<Rightarrow> world \<Rightarrow> world \<times> int option" where
  "wait_end pid result w =
     (let st = (if result = RV9_PROC_OK then map_option p_exit_status (find_locked pid (w_pt w)) else None)
      in (on_pt (put pid) (on_pt (upd_proc pid (\<lambda>p. if result = RV9_PROC_OK then p\<lparr>p_waited := True\<rparr> else p)) w), st))"

text \<open>The fault is read in a critical section of its own, after the wait's.\<close>

definition wait_why_fault :: "nat \<Rightarrow> proc_err \<Rightarrow> world \<Rightarrow> nat" where
  "wait_why_fault pid err w =
     (if err \<noteq> RV9_PROC_OK then RV9_FAULT_NONE
      else case find_locked pid (w_pt w) of None \<Rightarrow> RV9_FAULT_NONE | Some p \<Rightarrow> p_fault p)"

section \<open>Killing\<close>

definition KILL_WAIT_MS :: nat where "KILL_WAIT_MS = 500"

text \<open>Inl: refused at once. Inr: held, with its class and task.\<close>

definition kill_begin :: "nat \<Rightarrow> nat \<Rightarrow> world \<Rightarrow> world \<times> (proc_err + bool \<times> nat)" where
  "kill_begin self pid w =
     (case find_locked pid (w_pt w) of
        None \<Rightarrow> (w, Inl RV9_PROC_ERR_NOTFOUND)
      | Some p \<Rightarrow>
          if p_state p = RV9_PROC_EXITED then (w, Inl RV9_PROC_ERR_NOTFOUND)
          else if map_option p_pid (current_locked self (w_pt w)) = Some (p_pid p) then (w, Inl RV9_PROC_ERR_INVAL)
          else (on_pt (upd_proc pid hold_locked) w, Inr (p_realtime p, p_task p)))"

definition kill_rt :: "nat \<Rightarrow> world \<Rightarrow> world \<times> proc_err option" where
  "kill_rt task w =
     (if task = 0 then (w, Some RV9_PROC_ERR_INVAL)
      else case rv9_rt_stop task (w_rt w) of
        (y, e) \<Rightarrow> (w\<lparr>w_rt := y\<rparr>, if e \<noteq> RV9_OK then Some RV9_PROC_ERR_INVAL else None))"

text \<open>A turn of watching for the end, of either loop that does.\<close>

definition kill_watch :: "nat \<Rightarrow> nat \<Rightarrow> nat \<Rightarrow> world \<Rightarrow> proc_err option" where
  "kill_watch pid now until w =
     (case find_locked pid (w_pt w) of
        None \<Rightarrow> Some RV9_PROC_OK
      | Some p \<Rightarrow>
          if p_state p = RV9_PROC_EXITED then Some RV9_PROC_OK
          else if now \<ge> until then Some RV9_PROC_ERR_TIMEOUT else None)"

text \<open>A turn of trying to stop an ordinary process; \<open>answer\<close> is \<open>rv9_task_kill\<close>'s. None: again;
  Some None: on to the funeral.\<close>

definition kill_turn :: "rv9_err \<Rightarrow> nat \<Rightarrow> nat \<Rightarrow> nat \<Rightarrow> world \<Rightarrow> world \<times> proc_err option option" where
  "kill_turn answer pid now until w =
     (case find_locked pid (w_pt w) of
        None \<Rightarrow> (w, Some None)
      | Some p \<Rightarrow>
          let ended = (p_state p = RV9_PROC_EXITED \<or> p_collecting p \<or> p_task p = 0);
              w1 = (if ended then w else tell [KillTask (p_task p)] w)
          in if ended \<or> answer = RV9_OK then (w1, Some None)
             else if answer \<noteq> RV9_ERR_BUSY then (w1, Some (Some RV9_PROC_ERR_INVAL))
             else if now \<ge> until then (tell [UncancelTask (p_task p)] w1, Some (Some RV9_PROC_ERR_TIMEOUT))
             else (w1, None))"

definition kill_funeral :: "end_env \<Rightarrow> (nat \<Rightarrow> bool) \<Rightarrow> (nat \<Rightarrow> nat) \<Rightarrow> nat \<Rightarrow> world \<Rightarrow> world" where
  "kill_funeral env alive fault_of pid w =
     (case claim_faulted_locked alive pid (w_pt w) of (t, mine) \<Rightarrow>
        if mine then collect_faulted env fault_of pid (w\<lparr>w_pt := t\<rparr>) else w\<lparr>w_pt := t\<rparr>)"

definition kill_end :: "nat \<Rightarrow> world \<Rightarrow> world" where
  "kill_end pid = on_pt (put pid)"

end
