(* ===== verification/LifeProps.thy ===== *)
theory LifeProps
  imports ProcEnd ScanProps AdmitProps
begin

text \<open>
  Processes and the modules they run: in every run a module is linked once for each process
  that lives on it, so the code of a living process stays loaded; and the one path of
  \<open>chain\<close> on which it does not.
\<close>

section \<open>Who holds what\<close>

text \<open>What the links depend on: pid, whether ended, module.\<close>

definition view_of :: "proc \<Rightarrow> nat \<times> bool \<times> nat option" where
  "view_of p = (p_pid p, exited p, p_module p)"

definition view :: "ptable \<Rightarrow> (nat \<times> bool \<times> nat option) list" where
  "view t = map view_of (t_procs t)"

definition holding :: "nat \<Rightarrow> nat \<times> bool \<times> nat option \<Rightarrow> bool" where
  "holding i v = (case v of (pid, ended, m) \<Rightarrow> \<not> ended \<and> m = Some i)"

definition holders :: "nat \<Rightarrow> ptable \<Rightarrow> nat" where
  "holders i t = length (filter (holding i) (view t))"

definition same_view :: "ptable \<Rightarrow> ptable \<Rightarrow> bool" where
  "same_view t t' \<longleftrightarrow> view t' = view t \<and> t_next_pid t' = t_next_pid t"

lemma same_view_refl [simp]: "same_view t t"
  by (simp add: same_view_def)

lemma same_view_trans: "same_view a b \<Longrightarrow> same_view b c \<Longrightarrow> same_view a c"
  by (simp add: same_view_def)

lemma upd_first_view: "(\<And>p. view_of (f p) = view_of p) \<Longrightarrow> map view_of (upd_first P f ps) = map view_of ps"
  by (induction ps) auto

lemma view_upd_proc [simp]:
  "(\<And>p. view_of (f p) = view_of p) \<Longrightarrow> same_view t (upd_proc pid f t)"
  by (simp add: same_view_def view_def upd_proc_def upd_first_view)

lemma view_of_frame [simp]:
  "view_of (p\<lparr>p_exit_status := a\<rparr>) = view_of p" "view_of (p\<lparr>p_fault := b\<rparr>) = view_of p"
  "view_of (p\<lparr>p_statics := c\<rparr>) = view_of p" "view_of (p\<lparr>p_arena := c\<rparr>) = view_of p"
  "view_of (p\<lparr>p_task := b\<rparr>) = view_of p" "view_of (p\<lparr>p_collecting := c\<rparr>) = view_of p"
  "view_of (p\<lparr>p_refs := b\<rparr>) = view_of p" "view_of (p\<lparr>p_held := b\<rparr>) = view_of p" "view_of (p\<lparr>p_ext_held := b\<rparr>) = view_of p"
  "view_of (p\<lparr>p_urgent := c\<rparr>) = view_of p" "view_of (p\<lparr>p_bound := b\<rparr>) = view_of p" "view_of (p\<lparr>p_since := b\<rparr>) = view_of p"
  "view_of (p\<lparr>p_noted := c\<rparr>) = view_of p" "view_of (p\<lparr>p_chain_pending := c\<rparr>) = view_of p"
  "view_of (p\<lparr>p_heap_given := b\<rparr>) = view_of p" "view_of (p\<lparr>p_name := n\<rparr>) = view_of p"
  "view_of (p\<lparr>p_ancestors := as\<rparr>) = view_of p" "view_of (p\<lparr>p_period := b\<rparr>) = view_of p" "view_of (p\<lparr>p_waited := c\<rparr>) = view_of p"
  by (simp_all add: view_of_def exited_def)

lemma view_hold [simp]: "view_of (hold_locked p) = view_of p"
  by (simp add: hold_locked_def)

lemma view_put [simp]: "same_view t (put pid t)"
  unfolding put_def by (rule view_upd_proc) simp

lemma view_foldl:
  assumes "\<And>ps a. map view_of (g ps a) = map view_of ps"
  shows "map view_of (foldl g ps as) = map view_of ps"
  by (induction as arbitrary: ps) (simp_all add: assms)

lemma view_uncharge [simp]: "same_view t (uncharge_locked as b e t)"
  by (simp add: same_view_def view_def uncharge_locked_def view_foldl uncharge_one_def upd_first_view)

lemma view_refuse_charge [simp]: "same_view t (refuse_charge c t)"
  by (simp add: refuse_charge_def)

lemma view_charge: "charge_locked self b bud e ebud t = (t', r) \<Longrightarrow> same_view t t'"
  by (auto simp: charge_locked_def Let_def same_view_def view_def view_foldl charge_one_def upd_first_view
      split: if_splits option.splits)

lemma view_settle: "settle_one (y, t, a) it = (y', t', a') \<Longrightarrow> same_view t t'"
  by (auto simp: settle_one_def Let_def split: option.splits if_splits prod.splits)

lemma view_settle_all: "foldl settle_one (y, t, a) its = (y', t', a') \<Longrightarrow> same_view t t'"
proof (induction its arbitrary: y t a)
  case (Cons it its)
  obtain y1 t1 a1 where one: "settle_one (y, t, a) it = (y1, t1, a1)" by (metis prod_cases3)
  show ?case using same_view_trans [OF view_settle [OF one] Cons.IH [of y1 t1 a1]] Cons.prems by (simp add: one)
qed simp

lemma view_admit: "admit_rt derive avail img interval stack out (y, t) = ((y', t', acts), r) \<Longrightarrow> same_view t t'"
  by (auto simp: admit_rt_def Let_def place_all_def split: if_splits prod.splits option.splits intro: view_settle_all)

text \<open>An ending, and what it lets go.\<close>

definition end_view :: "nat \<Rightarrow> (nat \<times> bool \<times> nat option) list \<Rightarrow> (nat \<times> bool \<times> nat option) list" where
  "end_view pid = map (\<lambda>(q, ended, m). (q, ended \<or> q = pid, m))"

lemma pids_view: "map p_pid (t_procs t) = map fst (view t)"
  by (simp add: view_def view_of_def o_def)

lemma view_ended:
  assumes "distinct (map p_pid (t_procs t))"
  shows "view (ended_locked pid t) = end_view pid (view t) \<and> t_next_pid (ended_locked pid t) = t_next_pid t"
proof (cases "find_locked pid t")
  case None
  then have "\<forall>p\<in>set (t_procs t). p_pid p \<noteq> pid" by (simp add: find_locked_def find_None_iff)
  then show ?thesis using None by (auto simp: ended_locked_def view_def end_view_def view_of_def)
next
  case (Some p)
  let ?f = "\<lambda>p. p\<lparr>p_state := RV9_PROC_EXITED, p_ended_seq := cast32 (t_ended_seq t + 1)\<rparr>"
  let ?t1 = "upd_proc pid ?f t\<lparr>t_ended_seq := cast32 (t_ended_seq t + 1)\<rparr>"
  have "map view_of (t_procs ?t1) = end_view pid (view t)"
    using upd_first_map [OF assms, of pid ?f]
    by (auto simp: upd_proc_def view_def end_view_def view_of_def exited_def)
  then have 1: "view ?t1 = end_view pid (view t)" "t_next_pid ?t1 = t_next_pid t"
    by (simp_all add: view_def upd_proc_def)
  have "same_view ?t1 (upd_proc pid (\<lambda>p. p\<lparr>p_ancestors := [], p_held := 0, p_ext_held := 0\<rparr>)
      (uncharge_locked (p_ancestors p) (p_footprint p) (p_ext_footprint p) ?t1))"
    by (rule same_view_trans [OF view_uncharge view_upd_proc]) simp
  then show ?thesis using 1 Some by (simp add: ended_locked_def Let_def same_view_def)
qed

lemma holders_end:
  assumes "distinct (map fst v)" "(pid, False, Some m) \<in> set v"
  shows "length (filter (holding i) v) = length (filter (holding i) (end_view pid v)) + (if i = m then 1 else 0)"
  using assms
proof (induction v)
  case (Cons x v)
  obtain q e mm where x: "x = (q, e, mm)" by (cases x)
  show ?case
  proof (cases "q = pid")
    case True
    then have no: "pid \<notin> fst ` set v" using Cons.prems(1) x by simp
    then have "end_view pid v = v" by (induction v) (auto simp: end_view_def)
    moreover have "x = (pid, False, Some m)" using Cons.prems(2) no x True by force
    ultimately show ?thesis by (simp add: end_view_def holding_def)
  next
    case False
    then have "(pid, False, Some m) \<in> set v" using Cons.prems(2) x by simp
    then show ?thesis using Cons.IH Cons.prems(1) x False by (auto simp: end_view_def holding_def)
  qed
qed simp

section \<open>Links\<close>

definition links :: "modsys \<Rightarrow> nat list" where
  "links s = map m_link_count (m_dir s)"

lemma links_length [simp]: "length (links s) = length (m_dir s)"
  by (simp add: links_def)

lemma links_nth [simp]: "i < length (m_dir s) \<Longrightarrow> links s ! i = m_link_count (m_dir s ! i)"
  by (simp add: links_def)

lemma links_upd: "i < length (m_dir s) \<Longrightarrow> links (upd_entry i f s) = (links s)[i := m_link_count (f (m_dir s ! i))]"
  by (simp add: links_def upd_entry_def map_update)

lemma links_memory [simp]: "links (give_back a s) = links s" "links (take_exec a s) = links s"
  "m_dir (give_back a s) = m_dir s" "m_dir (take_exec a s) = m_dir s"
  by (simp_all add: links_def give_back_def take_exec_def)

lemma links_note_stack: "links (rv9_mod_note_stack m g u s) = links s"
proof (cases m)
  case (Some i)
  show ?thesis
  proof (cases "i < length (m_dir s)")
    case True
    then show ?thesis using Some links_nth [OF True] by (simp add: rv9_mod_note_stack_def links_upd list_update_same_conv)
  qed (simp add: Some rv9_mod_note_stack_def upd_entry_def links_def list_update_beyond)
qed (simp add: rv9_mod_note_stack_def)

lemma links_link:
  assumes "rv9_mod_link rd addr name s = (s', r)" "list_all entry_ok (m_dir s)" "\<forall>i<length (m_dir s). links s ! i + 1 < W32"
  shows "case r of Inl _ \<Rightarrow> links s' = links s | Inr i \<Rightarrow> i < length (m_dir s) \<and> links s' = (links s)[i := links s ! i + 1]"
proof (cases r)
  case (Inl e)
  then show ?thesis using assms(1) by (auto simp: rv9_mod_link_def Let_def split: option.splits if_splits)
next
  case (Inr i)
  then obtain n where n: "name = Some n" "rv9_mod_find n s = Some i"
    using assms(1) by (auto simp: rv9_mod_link_def Let_def split: option.splits if_splits)
  have i: "i < length (m_dir s)" using mod_find_some [OF n(2)] by simp
  have e: "entry_ok (m_dir s ! i)" "m_link_count (m_dir s ! i) + 1 < W32"
    using assms(2,3) i by (auto simp: list_all_length)
  show ?thesis
  proof (cases "m_image (m_dir s ! i)")
    case None
    then have "m_link_count (m_dir s ! i) = 0" using e(1) by (auto simp: entry_ok_def)
    moreover have "links s' = (links s)[i := 1]"
      using assms(1) n Inr None i
      by (auto simp: rv9_mod_link_def Let_def links_upd link_set_def split: option.splits if_splits)
    ultimately show ?thesis using Inr i by simp
  next
    case (Some x)
    then have "s' = upd_entry i (\<lambda>e. e\<lparr>m_link_count := cast32 (m_link_count e + 1)\<rparr>) s"
      using assms(1) n Inr by (simp add: rv9_mod_link_def Let_def)
    then show ?thesis using Inr i e(2) by (simp add: links_upd)
  qed
qed

lemma links_unlink:
  assumes "i < length (m_dir s)" "0 < links s ! i"
  shows "links (fst (rv9_mod_unlink (Some i) s)) = (links s)[i := links s ! i - 1]"
  using assms by (auto simp: rv9_mod_unlink_def Let_def links_upd split: option.splits)

lemma mods_tight: "mods_ok n s \<Longrightarrow> \<forall>i<length (m_dir s). links s ! i \<le> k \<Longrightarrow> mods_ok k s"
  by (auto simp: mods_ok_def list_all_length)

section \<open>The invariant\<close>

text \<open>\<open>X\<close>: the links held by the call in progress.\<close>

definition life_ok :: "nat list \<Rightarrow> world \<Rightarrow> bool" where
  "life_ok X w \<longleftrightarrow>
     mods_ok 70000 (w_mod w) \<and> length X \<le> 4 \<and> t_next_pid (w_pt w) \<le> 65535 \<and>
     distinct (map fst (view (w_pt w))) \<and> fst ` set (view (w_pt w)) \<subseteq> {1..65535} \<and>
     (\<forall>(q, e, m)\<in>set (view (w_pt w)). \<exists>i<length (m_dir (w_mod w)). m = Some i) \<and>
     (\<forall>i<length (m_dir (w_mod w)). links (w_mod w) ! i = holders i (w_pt w) + count_list X i) \<and>
     set X \<subseteq> {..<length (m_dir (w_mod w))}"

lemma life_few:
  assumes "life_ok X w"
  shows "holders i (w_pt w) + count_list X i \<le> 65539"
proof -
  have d: "distinct (map fst (view (w_pt w)))" "fst ` set (view (w_pt w)) \<subseteq> {1..65535}" "length X \<le> 4"
    using assms by (auto simp: life_ok_def)
  have "holders i (w_pt w) \<le> length (map fst (view (w_pt w)))" by (simp add: holders_def)
  also have "\<dots> = card (set (map fst (view (w_pt w))))" using distinct_card [OF d(1)] by simp
  also have "\<dots> \<le> card {1..65535 :: nat}" using d(2) by (intro card_mono) auto
  finally have "holders i (w_pt w) \<le> 65535" by simp
  moreover have "count_list X i \<le> length X" by (induction X) auto
  ultimately show ?thesis using d(3) by linarith
qed

lemma life_links: "life_ok X w \<Longrightarrow> \<forall>i<length (m_dir (w_mod w)). links (w_mod w) ! i \<le> 65539"
  using life_few [of X w] by (auto simp: life_ok_def)

lemma life_entries: "life_ok X w \<Longrightarrow> list_all entry_ok (m_dir (w_mod w))"
  by (simp add: life_ok_def mods_ok_def)

lemma life_same:
  assumes "life_ok X w" "w_mod w' = w_mod w" "same_view (w_pt w) (w_pt w')"
  shows "life_ok X w'"
  using assms by (simp add: life_ok_def same_view_def holders_def)

lemma life_tell [simp]: "life_ok X (tell as w) = life_ok X w"
  by (simp add: life_ok_def tell_def)

lemma life_on_rt [simp]: "life_ok X (on_rt f w) = life_ok X w"
  by (simp add: life_ok_def on_rt_def)

lemma life_rt [simp]: "life_ok X (w\<lparr>w_rt := y\<rparr>) = life_ok X w"
  by (simp add: life_ok_def)

lemma life_on_pt: "life_ok X w \<Longrightarrow> same_view (w_pt w) (f (w_pt w)) \<Longrightarrow> life_ok X (on_pt f w)"
  by (erule life_same) (simp_all add: on_pt_def)

lemma life_link:
  assumes "life_ok X w" "rv9_mod_link rd addr name (w_mod w) = (s, r)" "length X \<le> 3"
  shows "case r of Inl _ \<Rightarrow> life_ok X (w\<lparr>w_mod := s\<rparr>)
    | Inr i \<Rightarrow> i < length (m_dir (w_mod w)) \<and> life_ok (i # X) (w\<lparr>w_mod := s\<rparr>)"
proof -
  have "mods_ok 65539 (w_mod w)" using assms(1) life_links mods_tight by (auto simp: life_ok_def)
  then have "mods_ok 65540 s" using mods_link [of 65539 "w_mod w" rd addr name] assms(2) by simp
  then have ok: "mods_ok 70000 s" by (rule mods_mono) simp
  have few: "\<forall>i<length (m_dir (w_mod w)). links (w_mod w) ! i + 1 < W32" using life_links [OF assms(1)] by fastforce
  have ls: "case r of Inl _ \<Rightarrow> links s = links (w_mod w)
      | Inr i \<Rightarrow> i < length (m_dir (w_mod w)) \<and> links s = (links (w_mod w))[i := links (w_mod w) ! i + 1]"
    by (rule links_link [OF assms(2) life_entries [OF assms(1)] few])
  then have "length (links s) = length (links (w_mod w))" by (cases r) simp_all
  then have len: "length (m_dir s) = length (m_dir (w_mod w))" by simp
  show ?thesis
  proof (cases r)
    case (Inl e)
    then show ?thesis using assms(1) ok ls len by (simp add: life_ok_def)
  next
    case (Inr i)
    then show ?thesis using assms(1,3) ok ls len
      by (auto simp: life_ok_def nth_list_update simp del: links_nth)
  qed
qed

lemma life_unlink:
  assumes "life_ok (m # X) w"
  shows "life_ok X (unlink_mod (Some m) w)"
proof -
  let ?s = "fst (rv9_mod_unlink (Some m) (w_mod w))"
  have m: "m < length (m_dir (w_mod w))" "links (w_mod w) ! m = holders m (w_pt w) + count_list X m + 1"
    using assms by (auto simp: life_ok_def)
  have ls: "links ?s = (links (w_mod w))[m := links (w_mod w) ! m - 1]" using m by (intro links_unlink) simp_all
  then have "length (links ?s) = length (links (w_mod w))" by simp
  then have len: "length (m_dir ?s) = length (m_dir (w_mod w))" by simp
  have "mods_ok 70000 ?s" using assms m(1) by (intro mods_unlink) (simp_all add: life_ok_def)
  then show ?thesis using assms m ls len
    by (auto simp: life_ok_def unlink_mod_def nth_list_update simp del: links_nth split: if_splits)
qed

lemma life_end:
  assumes "life_ok X w" "(pid, False, Some m) \<in> set (view (w_pt w))" "length X \<le> 3"
    "view (w_pt w') = end_view pid (view (w_pt w))" "t_next_pid (w_pt w') = t_next_pid (w_pt w)" "w_mod w' = w_mod w"
  shows "life_ok (m # X) w'"
proof -
  have d: "distinct (map fst (view (w_pt w)))" using assms(1) by (simp add: life_ok_def)
  have "holders i (w_pt w) = holders i (w_pt w') + (if i = m then 1 else 0)" for i
    unfolding holders_def assms(4) by (rule holders_end [OF d assms(2)])
  moreover have "map fst (end_view pid v) = map fst v" for v by (induction v) (auto simp: end_view_def)
  moreover have "fst ` set (end_view pid v) = fst ` set v" for v by (force simp: end_view_def)
  moreover have "m < length (m_dir (w_mod w))" using assms(1,2) by (fastforce simp: life_ok_def)
  moreover have "\<forall>(q, e, m)\<in>set (end_view pid (view (w_pt w))). \<exists>i<length (m_dir (w_mod w)). m = Some i"
    using assms(1) by (fastforce simp: life_ok_def end_view_def)
  ultimately show ?thesis using assms(1,3-6) by (auto simp: life_ok_def)
qed

lemma life_enter:
  assumes "life_ok (m # X) w" "p_pid p \<notin> fst ` set (view (w_pt w))" "p_pid p \<in> {1..65535}" "\<not> exited p" "p_module p = Some m"
  shows "life_ok X (on_pt (\<lambda>t. t\<lparr>t_procs := p # t_procs t\<rparr>) w)"
proof -
  let ?t = "w_pt w\<lparr>t_procs := p # t_procs (w_pt w)\<rparr>"
  have "view ?t = (p_pid p, False, Some m) # view (w_pt w)" using assms(4,5) by (simp add: view_def view_of_def)
  moreover from this have "holders i ?t = holders i (w_pt w) + (if i = m then 1 else 0)" for i
    by (simp add: holders_def holding_def)
  ultimately show ?thesis using assms by (auto simp: life_ok_def on_pt_def)
qed

section \<open>The table's own operations\<close>

lemma find_view: "find_locked pid t = Some p \<Longrightarrow> (pid, exited p, p_module p) \<in> set (view t)"
  by (auto simp: view_def view_of_def dest!: find_locked_Some)

lemma life_module: "life_ok X w \<Longrightarrow> find_locked pid (w_pt w) = Some p \<Longrightarrow> \<exists>m<length (m_dir (w_mod w)). p_module p = Some m"
  by (drule find_view) (fastforce simp: life_ok_def)

lemma remove1_view:
  assumes "v \<in> set ps" "exited v"
  shows "filter (holding i) (map view_of (remove1 v ps)) = filter (holding i) (map view_of ps)"
  using assms by (induction ps) (auto simp: holding_def view_of_def)

lemma life_prune: "life_ok X w \<Longrightarrow> life_ok X (w\<lparr>w_pt := prune_locked (w_pt w)\<rparr>)"
proof (induction "w_pt w" arbitrary: w rule: prune_locked.induct)
  case 1
  show ?case
  proof (cases "prune_victim (w_pt w)")
    case None
    then show ?thesis using 1(2) by (simp add: prune_locked.simps [of "w_pt w"])
  next
    case (Some v)
    let ?t = "w_pt w\<lparr>t_procs := remove1 v (t_procs (w_pt w))\<rparr>"
    have v: "v \<in> set (t_procs (w_pt w))" "exited v" using prune_victim_mem [OF Some] by (simp_all add: forgettable_def)
    have "holders i ?t = holders i (w_pt w)" for i
      using remove1_view [OF v] by (simp add: holders_def view_def)
    moreover have "distinct (map p_pid (remove1 v ps))" if "distinct (map p_pid ps)" for ps
      using that by (induction ps) (auto dest: set_remove1_subset [THEN subsetD])
    then have "distinct (map p_pid (t_procs ?t))" using 1(2) by (simp add: life_ok_def pids_view [symmetric])
    then have "distinct (map fst (view ?t))" by (simp only: pids_view)
    moreover have sub: "set (view ?t) \<subseteq> set (view (w_pt w))" using set_remove1_subset by (fastforce simp: view_def)
    then have "fst ` set (view ?t) \<subseteq> {1..65535}" using 1(2) image_mono [OF sub, of fst] unfolding life_ok_def by (meson order_trans)
    moreover have "\<forall>(q, e, m)\<in>set (view ?t). \<exists>i<length (m_dir (w_mod w)). m = Some i"
      using 1(2) sub unfolding life_ok_def by (meson subsetD)
    ultimately have "life_ok X (w\<lparr>w_pt := ?t\<rparr>)" using 1(2) unfolding life_ok_def by simp
    with 1(1) [OF Some, of "w\<lparr>w_pt := ?t\<rparr>"] show ?thesis by (simp add: prune_locked.simps [of "w_pt w"] Some)
  qed
qed

lemma pid_scan_range:
  assumes "pid_scan n t = (t', pid)" "t_next_pid t \<le> 65535"
  shows "pid \<le> 65535 \<and> t_next_pid t' \<le> 65535"
  using assms
proof (induction n t arbitrary: t' pid rule: pid_scan.induct)
  case (2 n t)
  have "pid_after (t_next_pid t) \<le> 65535" by (simp add: pid_after_def)
  then show ?case using 2 by (auto simp: Let_def split: if_splits)
qed (simp add: RV9_PID_NONE_def)

lemma life_pid:
  assumes "life_ok X w" "next_pid_locked (w_pt w) = (t', pid)"
  shows "life_ok X (w\<lparr>w_pt := t'\<rparr>) \<and> pid \<le> 65535 \<and> (pid \<noteq> 0 \<longrightarrow> pid \<notin> fst ` set (view t'))"
proof -
  have "t_procs t' = t_procs (w_pt w) \<and> (pid \<noteq> 0 \<longrightarrow> pid \<notin> pids (w_pt w))"
    using pid_scan_result [OF assms(2) [unfolded next_pid_locked_def]] by blast
  moreover have "pid \<le> 65535 \<and> t_next_pid t' \<le> 65535"
    using pid_scan_range [OF assms(2) [unfolded next_pid_locked_def]] assms(1) by (simp add: life_ok_def)
  moreover have "fst ` set (view t) = pids t" for t by (simp add: view_def view_of_def pids_def image_image)
  ultimately show ?thesis using assms(1) by (simp add: life_ok_def view_def holders_def pids_def)
qed

lemma view_publish:
  assumes "distinct (map fst (view t))"
  shows "view (publish_end pid rc fault t) = end_view pid (view t) \<and> t_next_pid (publish_end pid rc fault t) = t_next_pid t"
proof -
  let ?t = "upd_proc pid (\<lambda>p. p\<lparr>p_exit_status := rc, p_fault := fault\<rparr>) t"
  have same: "same_view t ?t" by (rule view_upd_proc) simp
  then have "distinct (map p_pid (t_procs ?t))" using assms by (simp add: pids_view same_view_def)
  from view_ended [OF this, of pid] same show ?thesis by (simp add: publish_end_def same_view_def)
qed

text \<open>An ending written into a table that has only been looked after before and after.\<close>

lemma life_publish:
  assumes "life_ok X w" "find_locked pid (w_pt w) = Some p" "\<not> exited p" "p_module p = Some m" "length X \<le> 3"
    and "same_view (w_pt w) t" "same_view (publish_end pid rc fault t) (w_pt w')" "w_mod w' = w_mod w"
  shows "life_ok (m # X) w'"
proof -
  have "distinct (map fst (view t))" using assms(1,6) by (simp add: life_ok_def same_view_def)
  from view_publish [OF this, of pid rc fault] have "view (w_pt w') = end_view pid (view (w_pt w))"
      "t_next_pid (w_pt w') = t_next_pid (w_pt w)"
    using assms(6,7) by (simp_all add: same_view_def)
  moreover have "(pid, False, Some m) \<in> set (view (w_pt w))" using find_view [OF assms(2)] assms(3,4) by simp
  ultimately show ?thesis using life_end [OF assms(1) _ assms(5)] assms(8) by blast
qed

section \<open>Fork\<close>

lemma life_unlink_of [simp]: "w_pt (unlink_mod m w) = w_pt w" "w_pt (tell as w) = w_pt w" "w_mod (tell as w) = w_mod w"
  "w_pt (on_pt f w) = f (w_pt w)" "w_mod (on_pt f w) = w_mod w" "w_pt (on_rt g w) = w_pt w" "w_mod (on_rt g w) = w_mod w"
  by (simp_all add: unlink_mod_def tell_def on_pt_def on_rt_def)

lemma life_refuse: "life_ok X w \<Longrightarrow> life_ok X (refuse_fork pid c w)"
  by (simp add: refuse_fork_def undo_fork_def life_on_pt)

lemma start_proc_life:
  assumes "life_ok (m # X) w" "pid \<in> {1..65535}" "pid \<notin> fst ` set (view (w_pt w))" "length X \<le> 2"
    and "start_proc env rt name priority arg m img plan c pid od out w = (w', r)"
  shows "life_ok X w'"
proof -
  let ?p = "new_proc env rt name priority arg m img plan c pid (rv9_proc_current_pid (fe_self env) (w_pt w)) od out"
  let ?w1 = "tell [ForkHook (rv9_proc_current_pid (fe_self env) (w_pt w)) pid] (on_pt (\<lambda>t. t\<lparr>t_procs := ?p # t_procs t\<rparr>) w)"
  have p: "p_pid ?p = pid" "\<not> exited ?p" "p_module ?p = Some m" by (simp_all add: new_proc_def exited_def)
  have w1: "life_ok X ?w1" using assms(1-3) p by (simp only: life_tell) (intro life_enter, simp_all)
  have fnd: "find_locked pid (w_pt ?w1) = Some ?p" by (simp add: find_locked_def p)
  let ?t = "upd_proc pid (\<lambda>p. p\<lparr>p_exit_status := - 1, p_refs := 0\<rparr>) (w_pt ?w1)"
  let ?we = "on_pt (upd_proc pid (\<lambda>p. p\<lparr>p_statics := False, p_arena := False\<rparr>)) (on_pt (\<lambda>t. ended_locked pid (upd_proc pid (\<lambda>p. p\<lparr>p_exit_status := - 1, p_refs := 0\<rparr>) t)) ?w1)"
  have sv: "same_view (w_pt ?w1) ?t" by (rule view_upd_proc) simp
  have d: "distinct (map p_pid (t_procs ?t))" using w1 sv by (simp add: life_ok_def same_view_def pids_view)
  have "same_view (ended_locked pid ?t) (w_pt ?we)" by simp
  then have v: "view (w_pt ?we) = end_view pid (view (w_pt ?w1))" "t_next_pid (w_pt ?we) = t_next_pid (w_pt ?w1)"
    using view_ended [OF d, of pid] sv by (simp_all add: same_view_def)
  have "life_ok (m # X) ?we"
    using life_end [OF w1 _ _ v] find_view [OF fnd] p assms(4) by simp
  then have dead: "life_ok X (unlink_mod (Some m) (undo_fork pid (tell as ?we)))" for as
    by (intro life_unlink) (simp add: undo_fork_def)
  have started: "life_ok X (tell as (on_pt (upd_proc pid (\<lambda>p. p\<lparr>p_task := tk\<rparr>)) ?w1))" for as tk
    using w1 by (simp add: life_on_pt)
  have refused: "life_ok X (unlink_mod (Some m) (refuse_fork pid c w))"
      "life_ok X (unlink_mod (Some m) (refuse_fork pid c (tell as w)))" for as
    using assms(1) by (auto intro!: life_unlink life_refuse)
  note go = assms(5) [unfolded start_proc_def Let_def]
  show ?thesis
  proof (cases "\<not> fe_room env \<or> h_static_size (header_of img) > 0 \<and> \<not> fe_statics env")
    case True
    then show ?thesis using go refused by simp
  next
    case room: False
    show ?thesis
    proof (cases "fp_heap plan > 0 \<and> \<not> fe_arena env")
      case True
      then show ?thesis using go [unfolded if_not_P [OF room] if_P [OF True]] refused by auto
    next
      case False
      note go = go [unfolded if_not_P [OF room] if_not_P [OF False]]
      show ?thesis
      proof (cases "fe_task env")
        case None
        show ?thesis using go [unfolded None option.case prod.inject] dead by blast
      next
        case (Some tk)
        show ?thesis using go [unfolded Some option.case prod.inject] started by blast
      qed
    qed
  qed
qed

lemma life_admit_fork:
  assumes "life_ok X w" "admit_fork env rt img plan w = (w', r)"
  shows "life_ok X w' \<and> view (w_pt w') = view (w_pt w)"
proof (cases "rt \<and> u8_or img RV9_MTAG_ON_DEADLINE RV9_ON_DEADLINE_REPORT \<le> RV9_ON_DEADLINE_FAULT")
  case True
  let ?out = "\<lparr>ao_wcet = 0, ao_deadline = 0, ao_urgent = True, ao_bound = 0, ao_place = RV9_PLACE_DERIVED\<rparr>"
  let ?i = "if fp_period plan = 0 then u32_or img RV9_MTAG_MIN_INTER_US 0 else fp_period plan"
  obtain y t acts e where ad: "admit_rt (fe_derive env) (fe_avail env) img ?i (fp_stack plan) ?out (w_rt w, w_pt w) = ((y, t, acts), e)"
    by (metis prod_cases3 surj_pair)
  then have "w' = tell (map Host acts) (w\<lparr>w_rt := y, w_pt := t\<rparr>)"
    using assms(2) True by (auto simp: admit_fork_def Let_def split: prod.splits)
  moreover have "same_view (w_pt w) t" by (rule view_admit [OF ad])
  ultimately show ?thesis using life_same [OF assms(1), of "w\<lparr>w_rt := y, w_pt := t\<rparr>"] by (simp add: same_view_def)
next
  case False
  then have "w' = w" using assms(2) by (auto simp: admit_fork_def Let_def split: if_splits)
  then show ?thesis using assms(1) by simp
qed

lemma claim_fork_life:
  assumes "life_ok (m # X) w" "pid \<in> {1..65535}" "pid \<notin> fst ` set (view (w_pt w))" "length X \<le> 2"
    and "claim_fork env rt name priority arg m img plan c pid w = (w', r)"
  shows "life_ok X w'"
proof -
  define w1 where "w1 = (if fe_claim env = None then w else tell [AskClaim pid] w)"
  have w1: "life_ok (m # X) w1" "view (w_pt w1) = view (w_pt w)" using assms(1) by (simp_all add: w1_def)
  have drop: "life_ok X (unlink_mod (Some m) (refuse_fork pid c w2))" if "life_ok (m # X) w2" for w2
    using that by (intro life_unlink life_refuse)
  note go = assms(5) [unfolded claim_fork_def Let_def, folded w1_def]
  show ?thesis
  proof (cases "(case fe_claim env of None \<Rightarrow> RV9_PROC_OK | Some f \<Rightarrow> f pid img) = RV9_PROC_OK")
    case False
    then show ?thesis using go drop [OF w1(1)] by (auto split: if_splits)
  next
    case True
    obtain w2 q where ad: "admit_fork env rt img plan w1 = (w2, q)" by (cases "admit_fork env rt img plan w1")
    note w2 = life_admit_fork [OF w1(1) ad]
    show ?thesis
    proof (cases q)
      case (Inl err)
      then show ?thesis using go True ad drop [of w2] w2 by auto
    next
      case (Inr x)
      then obtain od out where "q = Inr (od, out)" by (cases x) auto
      then have "start_proc env rt name priority arg m img plan c pid od out w2 = (w', r)" using go True ad by simp
      then show ?thesis using start_proc_life [OF _ assms(2) _ assms(4)] w2 w1(2) assms(3) by metis
    qed
  qed
qed

lemma fork_life:
  assumes "life_ok [] w" "fork_inner env name priority arg rt period w = (w', r)"
  shows "life_ok [] w'"
proof (cases name)
  case None
  then show ?thesis using assms by (simp add: fork_inner_def)
next
  case (Some nm)
  obtain s q where lk: "rv9_mod_link (fe_read env) (fe_exec env) (Some nm) (w_mod w) = (s, q)"
    by (cases "rv9_mod_link (fe_read env) (fe_exec env) (Some nm) (w_mod w)")
  note linked = life_link [OF assms(1) lk]
  show ?thesis
  proof (cases q)
    case (Inl e)
    then show ?thesis using assms(2) Some lk linked by (auto simp: fork_inner_def)
  next
    case (Inr m)
    define w1 where "w1 = w\<lparr>w_mod := s\<rparr>"
    have w1: "life_ok [m] w1" using linked Inr by (simp add: w1_def)
    let ?img = "case m_image (m_dir s ! m) of None \<Rightarrow> [] | Some (_, img) \<Rightarrow> img"
    show ?thesis
    proof (cases "plan_fork (fe_overhead env) rt period ?img")
      case (Inl e)
      then have "w' = unlink_mod (Some m) w1" using assms(2) Some lk Inr by (simp add: fork_inner_def w1_def)
      then show ?thesis using life_unlink [OF w1] by simp
    next
      case plan: (Inr plan)
      obtain t pid where np: "next_pid_locked (prune_locked (w_pt w1)) = (t, pid)"
        by (cases "next_pid_locked (prune_locked (w_pt w1))")
      have w2: "life_ok [m] (w1\<lparr>w_pt := t\<rparr>)" and pid: "pid \<le> 65535" "pid \<noteq> 0 \<longrightarrow> pid \<notin> fst ` set (view t)"
        using life_pid [OF life_prune [OF w1]] np by simp_all
      obtain t' ch where charge: "charge_locked (fe_self env) (fp_footprint plan) (fp_budget plan) (fp_ext plan) (fp_ext_budget plan) t = (t', ch)"
        by (cases "charge_locked (fe_self env) (fp_footprint plan) (fp_budget plan) (fp_ext plan) (fp_ext_budget plan) t")
      have sv: "same_view t t'" by (rule view_charge [OF charge])
      have w3: "life_ok [m] (w1\<lparr>w_pt := t'\<rparr>)" using life_same [OF w2] sv by simp
      note go = assms(2) [unfolded fork_inner_def Some option.case lk prod.case Inr sum.case Let_def, folded w1_def,
          unfolded plan sum.case np prod.case charge]
      show ?thesis
      proof (cases "pid = RV9_PID_NONE")
        case True
        then show ?thesis using go life_unlink [OF w2] by auto
      next
        case False
        show ?thesis
        proof (cases ch)
          case (Inl e)
          then show ?thesis using go False life_unlink [OF w3] by auto
        next
          case (Inr c)
          then have "claim_fork env rt nm priority arg m ?img plan c pid (w1\<lparr>w_pt := t'\<rparr>) = (w', r)" using go False by simp
          moreover have "pid \<in> {1..65535}" "pid \<notin> fst ` set (view t')"
            using pid False sv by (auto simp: RV9_PID_NONE_def same_view_def)
          ultimately show ?thesis using claim_fork_life [OF w3] by simp
        qed
      qed
    qed
  qed
qed

section \<open>Endings\<close>

lemma unlink_on_pt: "on_pt f (unlink_mod m w) = unlink_mod m (on_pt f w)"
  by (simp add: on_pt_def unlink_mod_def)

lemma mods_note_stack:
  assumes "mods_ok n s"
  shows "mods_ok n (rv9_mod_note_stack m g u s)"
proof (cases m)
  case (Some i)
  show ?thesis
  proof (cases "i < length (m_dir s)")
    case True
    then show ?thesis unfolding Some by (rule mods_stack [OF assms])
  next
    case False
    then have "upd_entry i f s = s" for f by (simp add: upd_entry_def list_update_beyond)
    then show ?thesis using assms by (simp only: Some rv9_mod_note_stack_def option.case)
  qed
qed (use assms in \<open>simp add: rv9_mod_note_stack_def\<close>)

lemma note_stack_dir: "length (m_dir (rv9_mod_note_stack m g u s)) = length (m_dir s)"
  by (cases m) (simp_all add: rv9_mod_note_stack_def upd_entry_def)

lemma life_note_stack: "life_ok X w \<Longrightarrow> life_ok X (note_stack st p w)"
proof (cases st)
  case (Some x)
  assume ok: "life_ok X w"
  obtain m g u where "note_stack st p w = w\<lparr>w_mod := rv9_mod_note_stack m g u (w_mod w)\<rparr>"
    using Some by (cases x) (auto simp: note_stack_def Let_def)
  then show ?thesis using ok mods_note_stack [of 70000 "w_mod w" m g u] links_note_stack [of m g u "w_mod w"]
    by (simp add: life_ok_def note_stack_dir del: links_nth)
qed (simp add: note_stack_def)

lemma note_stack_frame [simp]: "w_pt (note_stack st p w) = w_pt w"
  by (cases st) (auto simp: note_stack_def Let_def)

lemma finish_life:
  assumes "life_ok [] w" "find_locked pid (w_pt w) = Some p" "\<not> exited p"
  shows "life_ok [] (finish env pid rc fault w)"
proof -
  obtain m where m: "p_module p = Some m" using life_module [OF assms(1,2)] by blast
  define w1 where "w1 = (if p_realtime p then on_rt (rv9_rt_release (ee_started env) (ee_clk env) (ee_self env)) w else w)"
  have w1: "life_ok [] w1" "w_pt w1 = w_pt w" using assms(1) by (simp_all add: w1_def)
  let ?w2 = "on_pt (publish_end pid rc fault) (tell [ExitHook pid] w1)"
  have "life_ok [m] ?w2"
    by (rule life_publish [where t = "w_pt w1" and pid = pid and rc = rc and fault = fault, OF w1(1) _ assms(3) m])
      (simp_all add: w1 assms(2))
  then have "life_ok [] (unlink_mod (Some m) (note_stack (ee_stack env) p (tell [EndedHook pid fault] ?w2)))"
    by (intro life_unlink life_note_stack) simp
  then show ?thesis
    unfolding finish_def assms(2) option.case Let_def w1_def [symmetric] m
    by (simp only: life_tell) (intro life_on_pt, simp_all)
qed

lemma end_here_life:
  assumes "life_ok [] w" "\<And>p. current_locked (ee_self env) (w_pt w) = Some p \<Longrightarrow> find_locked (p_pid p) (w_pt w) = Some p \<and> \<not> exited p"
  shows "life_ok [] (end_here env why w)"
proof (cases "current_locked (ee_self env) (w_pt w)")
  case None
  then show ?thesis using assms(1) by (simp add: end_here_def)
next
  case (Some p)
  then show ?thesis using finish_life [OF assms(1)] assms(2) by (simp add: end_here_def)
qed

lemma collect_life:
  assumes "life_ok [] w" "find_locked pid (w_pt w) = Some p" "\<not> exited p"
  shows "life_ok [] (collect_faulted env fault_of pid w)"
proof -
  obtain m where m: "p_module p = Some m" using life_module [OF assms(1,2)] by blast
  define w1 where "w1 = (if p_realtime p then on_rt (rv9_rt_release (ee_started env) (ee_clk env) (ee_self env)) w else w)"
  have w1: "life_ok [] w1" "w_pt w1 = w_pt w" using assms(1) by (simp_all add: w1_def)
  let ?why = "if fault_of (p_task p) \<noteq> 0 then fault_of (p_task p) else RV9_FAULT_STACK"
  let ?rc = "if fault_of (p_task p) = RV9_FAULT_KILLED then - err_code RV9_PROC_ERR_KILLED else - err_code RV9_PROC_ERR_FAULT"
  let ?w2 = "on_pt (upd_proc pid (\<lambda>p. p\<lparr>p_collecting := False\<rparr>)) (on_pt (publish_end pid ?rc ?why)
      (on_pt (upd_proc pid (\<lambda>p. p\<lparr>p_statics := False, p_arena := False, p_task := 0\<rparr>)) (tell [ExitHook pid] w1)))"
  have "life_ok [m] ?w2"
    by (rule life_publish [where t = "upd_proc pid (\<lambda>p. p\<lparr>p_statics := False, p_arena := False, p_task := 0\<rparr>) (w_pt w1)"
          and pid = pid and rc = ?rc and fault = ?why, OF w1(1) _ assms(3) m]) (simp_all only: w1(2) assms(2) life_unlink_of list.size
            zero_le view_upd_proc view_of_frame)
  then have "life_ok [] (unlink_mod (Some m) (tell [EndedHook pid ?why] ?w2))" by (intro life_unlink) simp
  then show ?thesis
    unfolding collect_faulted_def assms(2) option.case Let_def w1_def [symmetric] m
    by (intro life_on_pt) (simp_all only: life_tell option.distinct if_False view_put simp_thms)
qed

lemma find_upd_first:
  "find P xs = Some x \<Longrightarrow> P (f x) \<Longrightarrow> find P (upd_first P f xs) = Some (f x)"
  by (induction xs) (auto split: if_splits)

lemma collect_rounds_life:
  assumes "life_ok [] w"
  shows "life_ok [] (collect_rounds k env alive fault_of w)"
  using assms
proof (induction k arbitrary: w)
  case (Suc k)
  show ?case
  proof (cases "find (faulted alive) (t_procs (w_pt w))")
    case (Some p)
    then have p: "faulted alive p" "p \<in> set (t_procs (w_pt w))" by (auto simp: find_Some_iff)
    let ?w = "on_pt (upd_proc (p_pid p) (\<lambda>p. p\<lparr>p_collecting := True\<rparr>)) w"
    have w: "life_ok [] ?w" using Suc.prems by (intro life_on_pt) simp_all
    have d: "distinct (map p_pid (t_procs (w_pt w)))" using Suc.prems by (simp add: life_ok_def pids_view)
    have fnd: "find_locked (p_pid p) (w_pt ?w) = Some (p\<lparr>p_collecting := True\<rparr>)"
      using find_distinct [OF d p(2)] by (simp add: find_locked_def upd_proc_def find_upd_first)
    have "life_ok [] (collect_faulted env fault_of (p_pid p) ?w)"
      by (rule collect_life [OF w fnd]) (use p(1) in \<open>simp add: faulted_def exited_def\<close>)
    then show ?thesis using Suc.IH Some by simp
  qed (use Suc.prems in simp)
qed simp

lemma find_mem:
  assumes "life_ok X w" "p \<in> set (t_procs (w_pt w))"
  shows "find_locked (p_pid p) (w_pt w) = Some p"
proof -
  have d: "distinct (map p_pid (t_procs (w_pt w)))" using assms(1) by (simp add: life_ok_def pids_view)
  show ?thesis using find_distinct [OF d assms(2)] by (simp add: find_locked_def)
qed

lemma find_after_upd:
  "find_locked pid t = Some p \<Longrightarrow> p_pid (f p) = p_pid p \<Longrightarrow> find_locked pid (upd_proc pid f t) = Some (f p)"
  using find_locked_Some [of pid t p] by (simp add: find_locked_def upd_proc_def find_upd_first)

lemma stop_life:
  assumes "life_ok [] w" "find_locked (p_pid p) (w_pt w) = Some q" "\<not> exited q" "p_module q = p_module p"
  shows "life_ok [] (stop_overrun env p why w)"
proof -
  obtain m where m: "p_module q = Some m" "p_module p = Some m" using life_module [OF assms(1,2)] assms(4) by auto
  let ?pid = "p_pid p"
  let ?fault = "if why = RV9_RT_DEADLINE then RV9_FAULT_DEADLINE else if why = RV9_RT_RUNAWAY then RV9_FAULT_RUNAWAY else RV9_FAULT_KILLED"
  let ?rc = "if why = RV9_RT_DEADLINE then - err_code RV9_PROC_ERR_DEADLINE else if why = RV9_RT_RUNAWAY then - err_code RV9_PROC_ERR_RUNAWAY
    else - err_code RV9_PROC_ERR_KILLED"
  let ?w1 = "tell [ExitHook ?pid] (on_rt (rv9_rt_release_task (ee_started env) (ee_clk env) (p_task p)) w)"
  let ?f = "\<lambda>p. p\<lparr>p_statics := False, p_arena := False, p_task := 0\<rparr>"
  let ?w2 = "on_pt (publish_end ?pid ?rc ?fault) (on_pt (upd_proc ?pid ?f) ?w1)"
  have w1: "life_ok [] ?w1" using assms(1) by simp
  have "life_ok [m] ?w2"
    by (rule life_publish [where t = "upd_proc ?pid ?f (w_pt ?w1)" and pid = ?pid and rc = ?rc and fault = ?fault, OF w1 _ assms(3) m(1)])
      (simp_all only: life_unlink_of assms(2) list.size zero_le view_upd_proc view_of_frame same_view_refl)
  then have "life_ok [] (unlink_mod (Some m) (tell as ?w2))" for as by (intro life_unlink) simp
  then show ?thesis
    unfolding stop_overrun_def Let_def m
    by (intro life_on_pt) (simp_all only: life_tell option.distinct if_False view_put)
qed

lemma overrun_life:
  assumes "life_ok [] w"
  shows "life_ok [] (fst (rt_overrun env task why pc later w))"
proof (cases "find (overruns task) (t_procs (w_pt w))")
  case None
  then show ?thesis using assms by (simp add: rt_overrun_def)
next
  case (Some p)
  then have p: "overruns task p" "p \<in> set (t_procs (w_pt w))" by (auto simp: find_Some_iff)
  let ?known = "p_module p \<noteq> None"
  define since where "since = (if \<not> ?known then 0 else if p_since p = 0 then ee_now env else p_since p)"
  let ?f = "\<lambda>q. (hold_locked q)\<lparr>p_since := (if ?known then since else p_since q)\<rparr>"
  define w1 where "w1 = on_pt (upd_proc (p_pid p) ?f) w"
  have w1: "life_ok [] w1" unfolding w1_def using assms by (intro life_on_pt) simp_all
  have "find_locked (p_pid p) (w_pt w1) = Some (?f p)"
    unfolding w1_def life_unlink_of by (rule find_after_upd [OF find_mem [OF assms p(2)]]) (simp add: hold_locked_def)
  moreover have "\<not> exited (?f p)" "p_module (?f p) = p_module p" using p(1) by (simp_all add: overruns_def exited_def hold_locked_def)
  ultimately have stop: "life_ok [] (stop_overrun env p why (tell as (w1\<lparr>w_rt := y\<rparr>)))" for as y
    using w1 by (intro stop_life [where q = "?f p"]) simp_all
  have put: "life_ok [] (on_pt (put pid) w')" if "life_ok [] w'" for w' pid using that by (intro life_on_pt) simp_all
  have noted: "life_ok [] (on_pt (upd_proc pid (\<lambda>q. q\<lparr>p_noted := True\<rparr>)) w')" if "life_ok [] w'" for w' pid
    using that by (intro life_on_pt) simp_all
  obtain code len where code: "code_of (w_mod w) (p_module p) = (code, len)" by (cases "code_of (w_mod w) (p_module p)")
  let ?lower = "why = RV9_RT_RUNAWAY \<or> sub64 later since \<ge> RV9_RT_RUNAWAY_MS"
  obtain y acts err where sz: "rv9_rt_seize (ee_self env) task pc code len ?lower (w_rt w1) = (y, acts, err)"
    by (metis prod_cases3)
  show ?thesis
    unfolding rt_overrun_def Some option.case Let_def since_def [symmetric] w1_def [symmetric] code prod.case sz
    using put noted stop w1 by simp
qed

section \<open>Chaining\<close>

lemma holders_swap:
  assumes "distinct (map fst v)" "(pid, False, Some m) \<in> set v"
  shows "length (filter (holding i) v) + (if i = nxt then 1 else 0) =
    length (filter (holding i) (map (\<lambda>(q, e, m). if q = pid then (q, e, Some nxt) else (q, e, m)) v)) + (if i = m then 1 else 0)"
  using assms
proof (induction v)
  case (Cons x v)
  obtain q e mm where x: "x = (q, e, mm)" by (cases x)
  let ?f = "\<lambda>(q, e, m). if q = pid then (q, e, Some nxt) else (q, e, m)"
  show ?case
  proof (cases "q = pid")
    case True
    then have no: "pid \<notin> fst ` set v" using Cons.prems(1) x by simp
    then have "map ?f v = v" by (intro map_idI) force
    moreover have "x = (pid, False, Some m)" using Cons.prems(2) no x True by force
    ultimately show ?thesis by (simp add: holding_def)
  next
    case False
    then have "(pid, False, Some m) \<in> set v" using Cons.prems(2) x by simp
    then show ?thesis using Cons.IH Cons.prems(1) x False by (auto simp: holding_def)
  qed
qed simp

lemma life_swap:
  assumes "life_ok (nxt # X) w" "find_locked pid (w_pt w) = Some p" "\<not> exited p" "p_module p = Some m"
    and "\<And>q. view_of (f q) = (p_pid q, exited q, Some nxt)"
  shows "life_ok (m # X) (on_pt (upd_proc pid f) w)"
proof -
  let ?g = "\<lambda>(q, e, m). if q = pid then (q, e, Some nxt) else (q, e, m)" and ?t = "upd_proc pid f (w_pt w)"
  have d: "distinct (map fst (view (w_pt w)))" using assms(1) by (simp add: life_ok_def)
  have mem: "(pid, False, Some m) \<in> set (view (w_pt w))" using find_view [OF assms(2)] assms(3,4) by simp
  have v: "view ?t = map ?g (view (w_pt w))"
    using upd_first_map [OF d [folded pids_view], of pid f] assms(5) by (auto simp: view_def upd_proc_def view_of_def)
  have h: "holders i (w_pt w) + (if i = nxt then 1 else 0) = holders i ?t + (if i = m then 1 else 0)" for i
    unfolding holders_def v by (rule holders_swap [OF d mem])
  have "map fst (map ?g vs) = map fst vs" for vs by (induction vs) auto
  then have fs: "map fst (view ?t) = map fst (view (w_pt w))" unfolding v .
  then have fs': "fst ` set (view ?t) = fst ` set (view (w_pt w))" by (metis list.set_map)
  have m: "m < length (m_dir (w_mod w))" using assms(1) mem by (fastforce simp: life_ok_def)
  have nxt: "nxt < length (m_dir (w_mod w))" using assms(1) by (simp add: life_ok_def)
  have all: "\<forall>(q, e, m)\<in>set (view (w_pt w)). \<exists>i<length (m_dir (w_mod w)). m = Some i" using assms(1) by (simp add: life_ok_def)
  have all': "\<forall>(q, e, m)\<in>set (view ?t). \<exists>i<length (m_dir (w_mod w)). m = Some i"
    using all nxt unfolding v by (auto split: if_splits)
  have ct: "holders i (w_pt w) + count_list (nxt # X) i = holders i ?t + count_list (m # X) i" for i
    using h [of i] by (auto split: if_splits)
  have ls: "links (w_mod w) ! i = holders i ?t + count_list (m # X) i" if "i < length (m_dir (w_mod w))" for i
    using assms(1) that unfolding life_ok_def ct by blast
  show ?thesis
    unfolding life_ok_def life_unlink_of fs fs'
  proof (intro conjI)
    show "mods_ok 70000 (w_mod w)" "length (m # X) \<le> 4" "distinct (map fst (view (w_pt w)))"
      "fst ` set (view (w_pt w)) \<subseteq> {1..65535}"
      using assms(1) by (simp_all add: life_ok_def)
    show "t_next_pid ?t \<le> 65535" "set (m # X) \<subseteq> {..<length (m_dir (w_mod w))}"
      using assms(1) m by (simp_all add: life_ok_def upd_proc_def)
  qed (use ls all' in blast)+
qed

lemma chain_life:
  assumes "life_ok [] w" "find_locked pid (w_pt w) = Some p" "\<not> exited p" "fe_statics env"
  shows "life_ok [] (fst (chain_turn env pid rc w))"
proof (cases "p_chain_pending p")
  case False
  then show ?thesis using assms(1,2) by (simp add: chain_turn_def)
next
  case True
  obtain m where m: "p_module p = Some m" using life_module [OF assms(1,2)] by blast
  define w1 where "w1 = on_pt (upd_proc pid (\<lambda>p. p\<lparr>p_chain_pending := False\<rparr>)) w"
  have w1: "life_ok [] w1" unfolding w1_def using assms(1) by (intro life_on_pt) simp_all
  have f1: "find_locked pid (w_pt w1) = Some (p\<lparr>p_chain_pending := False\<rparr>)"
    unfolding w1_def life_unlink_of by (rule find_after_upd [OF assms(2)]) simp
  obtain s q where lk: "rv9_mod_link (fe_read env) (fe_exec env) (Some (p_chain_to p)) (w_mod w1) = (s, q)"
    by (cases "rv9_mod_link (fe_read env) (fe_exec env) (Some (p_chain_to p)) (w_mod w1)")
  note linked = life_link [OF w1 lk]
  show ?thesis
  proof (cases q)
    case (Inl e)
    then show ?thesis using True assms(2) linked lk by (simp add: chain_turn_def Let_def w1_def)
  next
    case (Inr nxt)
    define w2 where "w2 = (if fe_claim env = None then w1\<lparr>w_mod := s\<rparr> else tell [AskClaim pid] (w1\<lparr>w_mod := s\<rparr>))"
    have w2: "life_ok [nxt] w2" "w_pt w2 = w_pt w1" using linked Inr by (simp_all add: w2_def)
    have drop: "life_ok [] (unlink_mod (Some nxt) w2)" by (rule life_unlink [OF w2(1)])
    have "life_ok [] (fst (swap_module env pid p nxt img w2))" for img
    proof -
      let ?f = "\<lambda>p. p\<lparr>p_statics := False, p_heap_given := u32_or img RV9_MTAG_HEAP_MAX 0\<rparr>"
      let ?g = "\<lambda>q. q\<lparr>p_statics := h_static_size (header_of img) > 0, p_module := Some nxt, p_name := cstr 32 (p_chain_to p)\<rparr>"
      let ?t = "tell (if p_statics p then [FreeStatics pid] else []) w2"
      have a: "life_ok [nxt] (on_pt (upd_proc pid ?f) ?t)" using w2(1) by (intro life_on_pt) simp_all
      have "find_locked pid (w_pt (on_pt (upd_proc pid ?f) ?t)) = Some (?f (p\<lparr>p_chain_pending := False\<rparr>))"
        using find_after_upd [OF f1, of ?f] w2(2) by simp
      then have "life_ok [m] (on_pt (upd_proc pid ?g) (on_pt (upd_proc pid ?f) ?t))"
        by (rule life_swap [OF a]) (use assms(3) m in \<open>simp_all add: view_of_def exited_def\<close>)
      then have "life_ok [] (unlink_mod (Some m) (on_pt (upd_proc pid ?g) (on_pt (upd_proc pid ?f) ?t)))" by (rule life_unlink)
      moreover have "tell as (unlink_mod x y) = unlink_mod x (tell as y)" for as x y by (simp add: tell_def unlink_mod_def)
      ultimately show ?thesis using assms(4) by (simp add: swap_module_def Let_def m unlink_on_pt split del: if_split)
    qed
    then show ?thesis
      unfolding chain_turn_def assms(2) option.case if_not_P [OF notI [OF notE [OF _ True]]] Let_def w1_def [symmetric] lk prod.case Inr sum.case w2_def [symmetric]
      using drop True by simp
  qed
qed

section \<open>Runs\<close>

datatype life_op =
    LFork fork_env nat "string option" int "string option" bool nat
  | LBegin nat nat
  | LDeclare end_env "nat \<Rightarrow> nat" bool nat
  | LRtWait end_env int
  | LChain fork_env nat int
  | LFinish end_env bool nat int
  | LSweep end_env "nat \<Rightarrow> bool" "nat \<Rightarrow> nat"
  | LOverrun end_env nat int nat nat
  | LWaitTurn end_env "nat \<Rightarrow> bool" "nat \<Rightarrow> nat" nat nat nat
  | LFuneral end_env "nat \<Rightarrow> bool" "nat \<Rightarrow> nat" nat
  | LHold nat
  | LPut nat

text \<open>Only the task of a process that lives finishes, chains or waits.\<close>

definition lives :: "nat \<Rightarrow> world \<Rightarrow> bool" where
  "lives pid w \<longleftrightarrow> (case find_locked pid (w_pt w) of None \<Rightarrow> False | Some p \<Rightarrow> \<not> exited p)"

fun life_step :: "world \<Rightarrow> life_op \<Rightarrow> world" where
  "life_step w (LFork env prev name priority arg rt period) = fst (fork_common env prev name priority arg rt period w)"
| "life_step w (LBegin self pid) = (if lives pid w then trampoline_begin self pid w else w)"
| "life_step w (LDeclare env clk' sem period) = fst (env_rt_declare env clk' sem period w)"
| "life_step w (LRtWait env r) =
     (case current_locked (ee_self env) (w_pt w) of
        None \<Rightarrow> env_rt_wait env r w
      | Some p \<Rightarrow> if exited p then w else env_rt_wait env r w)"
| "life_step w (LChain env pid rc) = (if lives pid w then fst (chain_turn env pid rc w) else w)"
| "life_step w (LFinish env ok pid rc) = (if lives pid w then trampoline_end env ok pid rc w else w)"
| "life_step w (LSweep env alive fault_of) = collect_faulted_all env alive fault_of w"
| "life_step w (LOverrun env task why pc later) = fst (rt_overrun env task why pc later w)"
| "life_step w (LWaitTurn env alive fault_of pid timeout deadline) = fst (wait_turn env alive fault_of pid timeout deadline w)"
| "life_step w (LFuneral env alive fault_of pid) = kill_funeral env alive fault_of pid w"
| "life_step w (LHold pid) = on_pt (upd_proc pid hold_locked) w"
| "life_step w (LPut pid) = kill_end pid w"

text \<open>A chain that is not refused the statics of the module it goes on to.\<close>

fun fed :: "life_op \<Rightarrow> bool" where
  "fed (LChain env pid rc) = fe_statics env"
| "fed _ = True"

lemma current_mem: "current_locked self t = Some p \<Longrightarrow> p \<in> set (t_procs t)"
  by (auto simp: current_locked_def find_Some_iff)

lemma claim_collect_life:
  assumes "life_ok [] w" "claim_faulted_locked alive pid (w_pt w) = (t, mine)"
  shows "life_ok [] (if mine then collect_faulted env fault_of pid (w\<lparr>w_pt := t\<rparr>) else w\<lparr>w_pt := t\<rparr>)"
proof (cases "find_locked pid (w_pt w)")
  case None
  then show ?thesis using assms(2) life_same [OF assms(1), of "w\<lparr>w_pt := t\<rparr>"] by (simp add: claim_faulted_locked_def)
next
  case (Some p)
  show ?thesis
  proof (cases "faulted alive p")
    case True
    let ?f = "\<lambda>p. p\<lparr>p_collecting := True\<rparr>"
    have t: "t = upd_proc pid ?f (w_pt w)" "mine" using assms(2) Some True by (simp_all add: claim_faulted_locked_def)
    have "life_ok [] (w\<lparr>w_pt := t\<rparr>)" using assms(1) by (rule life_same) (simp_all add: t)
    moreover have "find_locked pid t = Some (?f p)" unfolding t by (rule find_after_upd [OF Some]) simp
    moreover have "\<not> exited (?f p)" using True by (simp add: faulted_def exited_def)
    ultimately show ?thesis using t(2) collect_life [of "w\<lparr>w_pt := t\<rparr>" pid "?f p"] by simp
  qed (use assms(2) Some life_same [OF assms(1), of "w\<lparr>w_pt := t\<rparr>"] in \<open>simp add: claim_faulted_locked_def\<close>)
qed

lemma view_upd_self: "same_view t (upd_self self (\<lambda>p. p\<lparr>p_period := n\<rparr>) t)"
  by (simp add: same_view_def view_def upd_self_def upd_first_view)

lemma declare_life:
  assumes "life_ok [] w"
  shows "life_ok [] (fst (env_rt_declare env clk' sem period w))"
proof -
  have "life_ok [] (on_pt (upd_self (ee_self env) (\<lambda>p. p\<lparr>p_period := n\<rparr>)) w)" for n
    by (rule life_on_pt [OF assms]) (rule view_upd_self)
  then show ?thesis using assms by (auto simp: env_rt_declare_def Let_def split: option.splits if_splits prod.splits)
qed

lemma fork_common_life:
  assumes "life_ok [] w"
  shows "life_ok [] (fst (fork_common env prev name priority arg rt period w))"
proof -
  have "life_ok [] (fst (fork_inner env name priority arg r period v))" if "life_ok [] v" for v r
    using fork_life [OF that] by (metis prod.collapse)
  then show ?thesis using assms by (simp add: fork_common_def Let_def split_beta)
qed

lemma life_step_ok:
  assumes "life_ok [] w" "fed x"
  shows "life_ok [] (life_step w x)"
proof (cases x)
  case (LFork env prev name priority arg rt period)
  then show ?thesis using fork_common_life [OF assms(1)] by simp
next
  case (LBegin self pid)
  then show ?thesis using assms(1) by (auto simp: trampoline_begin_def life_on_pt split: option.splits)
next
  case (LDeclare env clk' sem period)
  then show ?thesis using declare_life [OF assms(1)] by simp
next
  case (LRtWait env r)
  then show ?thesis
    using end_here_life [OF assms(1), of env r] find_mem [OF assms(1) current_mem] assms(1)
    by (auto simp: env_rt_wait_def split: option.splits)
next
  case (LChain env pid rc)
  then show ?thesis using chain_life [OF assms(1)] assms by (auto simp: lives_def split: option.splits)
next
  case (LFinish env ok pid rc)
  then show ?thesis using finish_life [OF assms(1)] assms(1) by (auto simp: lives_def trampoline_end_def split: option.splits)
next
  case (LSweep env alive fault_of)
  then show ?thesis using collect_rounds_life [OF assms(1)] by (simp add: collect_faulted_all_def)
next
  case (LOverrun env task why pc later)
  then show ?thesis using overrun_life [OF assms(1)] by simp
next
  case (LWaitTurn env alive fault_of pid timeout deadline)
  then show ?thesis using claim_collect_life [OF assms(1)] assms(1)
    by (auto simp: wait_turn_def split: option.splits prod.splits)
next
  case (LFuneral env alive fault_of pid)
  then show ?thesis using claim_collect_life [OF assms(1)] by (auto simp: kill_funeral_def split: prod.splits)
next
  case (LHold pid)
  then show ?thesis using assms(1) by (simp add: life_on_pt)
next
  case (LPut pid)
  then show ?thesis using assms(1) by (simp add: life_on_pt kill_end_def)
qed

lemma life_run: "life_ok [] w \<Longrightarrow> list_all fed ops \<Longrightarrow> life_ok [] (foldl life_step w ops)"
  by (induction ops arbitrary: w) (simp_all add: life_step_ok)

lemma holders_count: "holders i t = length (filter (\<lambda>p. p_state p \<noteq> RV9_PROC_EXITED \<and> p_module p = Some i) (t_procs t))"
proof -
  have "filter (holding i) (map view_of ps) = map view_of (filter (\<lambda>p. p_state p \<noteq> RV9_PROC_EXITED \<and> p_module p = Some i) ps)" for ps
    by (induction ps) (auto simp: holding_def view_of_def exited_def)
  then show ?thesis by (simp add: holders_def view_def)
qed

lemma boot_life:
  assumes "t_procs (w_pt w) = []" "t_next_pid (w_pt w) = 1" "list_all unloaded (m_dir (w_mod w))"
    "m_taken (w_mod w) = []" "m_freed (w_mod w) = []"
  shows "life_ok [] w"
proof -
  have "concat (map block_of es) = []" if "list_all unloaded es" for es
    using that by (induction es) (auto simp: unloaded_def block_of_def)
  then have "mods_ok 70000 (w_mod w)"
    using assms(3-5) by (auto simp: mods_ok_def held_blocks_def list_all_iff unloaded_def entry_ok_def)
  moreover have "\<forall>i<length (m_dir (w_mod w)). m_link_count (m_dir (w_mod w) ! i) = 0"
    using assms(3) by (auto simp: list_all_length unloaded_def)
  ultimately show ?thesis using assms(1,2) by (simp add: life_ok_def view_def holders_def)
qed

text \<open>C23: from boot, after any forks, declarations, waits, chains, ends, collections and stops,
  whatever memory, flash, hooks and the host answer, as long as no chain runs out of memory for
  statics: every module is linked exactly once for each process that lives on it, so the image
  a living process runs is loaded and passes verification; pids are distinct; and no executable
  block is lost or given back twice.\<close>

theorem living_code_loaded:
  assumes "t_procs (w_pt w) = []" "t_next_pid (w_pt w) = 1" "list_all unloaded (m_dir (w_mod w))"
    "m_taken (w_mod w) = []" "m_freed (w_mod w) = []" "list_all fed ops" "foldl life_step w ops = w'"
  shows "(\<forall>i<length (m_dir (w_mod w')). m_link_count (m_dir (w_mod w') ! i) =
      length (filter (\<lambda>p. p_state p \<noteq> RV9_PROC_EXITED \<and> p_module p = Some i) (t_procs (w_pt w')))) \<and>
    (\<forall>p\<in>set (t_procs (w_pt w')). p_state p \<noteq> RV9_PROC_EXITED \<longrightarrow>
      (\<exists>i a img. p_module p = Some i \<and> i < length (m_dir (w_mod w')) \<and> m_image (m_dir (w_mod w') ! i) = Some (a, img) \<and>
         rv9_mod_verify (Some img) (m_size (m_dir (w_mod w') ! i)) = RV9_MOD_OK)) \<and>
    distinct (map p_pid (t_procs (w_pt w'))) \<and>
    mset (m_taken (w_mod w')) = mset (held_blocks (w_mod w')) + mset (m_freed (w_mod w'))"
proof -
  have ok: "life_ok [] w'" using life_run [OF boot_life [OF assms(1-5)] assms(6)] assms(7) by simp
  have ls: "m_link_count (m_dir (w_mod w') ! i) = holders i (w_pt w')" if "i < length (m_dir (w_mod w'))" for i
    using ok that by (simp add: life_ok_def)
  have "\<exists>i a img. p_module p = Some i \<and> i < length (m_dir (w_mod w')) \<and> m_image (m_dir (w_mod w') ! i) = Some (a, img) \<and>
      rv9_mod_verify (Some img) (m_size (m_dir (w_mod w') ! i)) = RV9_MOD_OK"
    if p: "p \<in> set (t_procs (w_pt w'))" "p_state p \<noteq> RV9_PROC_EXITED" for p
  proof -
    obtain i where i: "i < length (m_dir (w_mod w'))" "p_module p = Some i" using life_module [OF ok find_mem [OF ok p(1)]] by blast
    have "p \<in> set (filter (\<lambda>p. p_state p \<noteq> RV9_PROC_EXITED \<and> p_module p = Some i) (t_procs (w_pt w')))" using p i by simp
    then have "m_link_count (m_dir (w_mod w') ! i) \<noteq> 0" using ls [OF i(1)] by (auto simp: holders_count filter_empty_conv)
    moreover have "entry_ok (m_dir (w_mod w') ! i)" using life_entries [OF ok] i(1) by (simp add: list_all_length)
    ultimately obtain a img where "m_image (m_dir (w_mod w') ! i) = Some (a, img)"
        "rv9_mod_verify (Some img) (m_size (m_dir (w_mod w') ! i)) = RV9_MOD_OK"
      by (auto simp: entry_ok_def)
    then show ?thesis using i by blast
  qed
  moreover have "mset (m_taken (w_mod w')) = mset (held_blocks (w_mod w')) + mset (m_freed (w_mod w'))"
    "distinct (map p_pid (t_procs (w_pt w')))"
    using ok by (simp_all add: life_ok_def mods_ok_def pids_view)
  ultimately show ?thesis using ls by (simp add: holders_count)
qed

text \<open>A module forked once at boot.\<close>

definition boot_world :: world where
  "boot_world = \<lparr>w_pt = table_with [], w_mod = one_store, w_rt = idle_rt, w_log = []\<rparr>"

definition plain_env :: fork_env where
  "plain_env = \<lparr>fe_read = one_read, fe_exec = 4096, fe_claim = None, fe_overhead = 400, fe_room = True, fe_statics = True,
     fe_arena = True, fe_now = 0, fe_task = Some 77, fe_self = 0, fe_avail = 0, fe_derive = True\<rparr>"

lemma small_no_manifest: "rv9_mod_manifest_u8 (Some (small_module b)) tag = None" "rv9_mod_manifest_u32 (Some (small_module b)) tag = None"
  by (simp_all add: rv9_mod_manifest_u8_def rv9_mod_manifest_u32_def rv9_mod_manifest_find_def manifest_walk_def small_header Let_def)

lemma small_plan:
  "plan_fork 400 False 0 (small_module 19) =
     Inr \<lparr>fp_period = 0, fp_stack = 8192, fp_heap = 0, fp_external = False, fp_footprint = 8596, fp_ext = 0,
          fp_budget = 32768, fp_ext_budget = UINT32_MAX\<rparr>"
  by (simp add: plan_fork_def small_no_manifest small_header u32_or_def u8_or_def PROC_DEFAULT_STACK_def RV9_HEAP_EXTERNAL_def
      RV9_HEAP_INTERNAL_def PROC_BUDGET_DEFAULT_def PROC_EXT_UNBOUNDED_def)

lemma boot_pid: "next_pid_locked (prune_locked (table_with [])) = ((table_with [])\<lparr>t_next_pid := 2\<rparr>, 1)"
proof -
  have "prune_locked (table_with []) = table_with []"
    by (subst prune_locked.simps) (simp add: prune_victim_def table_with_def PROC_HISTORY_MAX_def PROC_HISTORY_def)
  moreover have "pid_scan (Suc n) (table_with []) = ((table_with [])\<lparr>t_next_pid := 2\<rparr>, 1)" for n
    by (simp add: table_with_def RV9_PID_NONE_def find_locked_def pid_after_def)
  from this [of 65535] have "pid_scan 65536 (table_with []) = ((table_with [])\<lparr>t_next_pid := 2\<rparr>, 1)" by (simp only: numeral_eq_Suc pred_numeral_simps) simp
  ultimately show ?thesis by (simp add: next_pid_locked_def)
qed

lemma boot_fork:
  "let w' = life_step boot_world (LFork plain_env 1 (Some ''a'') 5 None False 0) in
     map (\<lambda>p. (p_pid p, p_state p, p_module p, p_task p)) (t_procs (w_pt w')) = [(1, RV9_PROC_ACTIVE, Some 0, 77)] \<and>
     length (m_dir (w_mod w')) = 1"
proof -
  define s where "s = upd_entry 0 (link_set 4096 (small_module 19) False) (take_exec 4096 one_store)"
  define t where "t = (table_with [])\<lparr>t_next_pid := 2\<rparr>"
  define t1 where "t1 = t\<lparr>t_next_serial := 2\<rparr>"
  define c where "c = \<lparr>c_serial = 1, c_bytes = 8596, c_ext = 0, c_ancestors = []\<rparr>"
  have link: "rv9_mod_link (fe_read plain_env) (fe_exec plain_env) (Some ''a'') (w_mod boot_world) = (s, Inr 0)"
    using one_link by (simp add: plain_env_def boot_world_def s_def)
  have img: "m_image (m_dir s ! 0) = Some (4096, small_module 19)" "length (m_dir s) = 1"
    by (simp_all add: s_def one_store_def upd_entry_def take_exec_def link_set_def)
  have env: "fe_overhead plain_env = 400" "fe_self plain_env = 0" "fe_claim plain_env = None" "fe_room plain_env"
    "fe_statics plain_env" "fe_task plain_env = Some 77" by (simp_all add: plain_env_def)
  have charge: "charge_locked 0 8596 32768 0 UINT32_MAX t = (t1, Inr c)"
    by (simp add: charge_locked_def charge_ancestors_def current_locked_def t_def t1_def c_def table_with_def)
  have pid: "next_pid_locked (prune_locked (w_pt (boot_world\<lparr>w_mod := s\<rparr>))) = (t, 1)"
    using boot_pid by (simp add: boot_world_def t_def)
  let ?w = "boot_world\<lparr>w_mod := s, w_pt := t1\<rparr>"
  have "fork_common plain_env 1 (Some ''a'') 5 None False 0 boot_world = fork_inner plain_env (Some ''a'') 5 None False 0 boot_world"
    by (simp add: fork_common_def)
  also have "\<dots> = claim_fork plain_env False ''a'' 5 None 0 (small_module 19)
        \<lparr>fp_period = 0, fp_stack = 8192, fp_heap = 0, fp_external = False, fp_footprint = 8596, fp_ext = 0,
          fp_budget = 32768, fp_ext_budget = UINT32_MAX\<rparr> c 1 ?w"
    unfolding fork_inner_def option.case link prod.case sum.case Let_def img env small_plan pid
    by (simp add: charge RV9_PID_NONE_def)
  finally have "fork_common plain_env 1 (Some ''a'') 5 None False 0 boot_world =
      claim_fork plain_env False ''a'' 5 None 0 (small_module 19)
        \<lparr>fp_period = 0, fp_stack = 8192, fp_heap = 0, fp_external = False, fp_footprint = 8596, fp_ext = 0,
          fp_budget = 32768, fp_ext_budget = UINT32_MAX\<rparr> c 1 ?w" .
  moreover have "t_procs t1 = []" by (simp add: t1_def t_def table_with_def)
  ultimately show ?thesis
    by (simp add: Let_def claim_fork_def env admit_fork_def start_proc_def new_proc_def on_pt_def tell_def upd_proc_def img)
qed

lemma living_code_loaded_witness:
  "let w' = life_step boot_world (LFork plain_env 1 (Some ''a'') 5 None False 0) in
     (\<exists>p\<in>set (t_procs (w_pt w')). p_module p = Some 0) \<and> m_link_count (m_dir (w_mod w') ! 0) = 1 \<and> m_image (m_dir (w_mod w') ! 0) \<noteq> None"
proof -
  define w' where "w' = life_step boot_world (LFork plain_env 1 (Some ''a'') 5 None False 0)"
  have b: "map (\<lambda>p. (p_pid p, p_state p, p_module p, p_task p)) (t_procs (w_pt w')) = [(1, RV9_PROC_ACTIVE, Some 0, 77)]"
    "length (m_dir (w_mod w')) = 1" using boot_fork [folded w'_def, unfolded Let_def] by blast+
  then obtain p where p: "t_procs (w_pt w') = [p]" "p_state p = RV9_PROC_ACTIVE" "p_module p = Some 0" by (auto simp: map_eq_Cons_conv)
  have boot: "t_procs (w_pt boot_world) = []" "t_next_pid (w_pt boot_world) = 1" "list_all unloaded (m_dir (w_mod boot_world))"
    "m_taken (w_mod boot_world) = []" "m_freed (w_mod boot_world) = []"
    by (simp_all add: boot_world_def table_with_def one_store_def unloaded_def zero_entry_def)
  have "foldl life_step boot_world [LFork plain_env 1 (Some ''a'') 5 None False 0] = w'" by (simp add: w'_def)
  from living_code_loaded [OF boot _ this] show ?thesis
    unfolding w'_def [symmetric] Let_def using p b(2) by auto
qed

end
