(* ===== verification/ChainProps.thy ===== *)
theory ChainProps
  imports LifeProps
begin

text \<open>
  Chaining with no memory left (components/rv9_proc/src/proc.c, \<open>proc_trampoline\<close>): the old
  module is let go before the new one's statics are had, and \<open>finish\<close> lets it go again.
\<close>

section \<open>Links, ends and entries\<close>

lemma upd_entry_nth: "m_dir (upd_entry i f s) ! j = (if i = j \<and> i < length (m_dir s) then f (m_dir s ! j) else m_dir s ! j)"
  by (cases "i < length (m_dir s)") (auto simp: upd_entry_def nth_list_update list_update_beyond)

lemma link_resident:
  "rv9_mod_link rd addr name s = (s', r) \<Longrightarrow> m_resident (m_dir s' ! i) = m_resident (m_dir s ! i)"
  by (auto simp: rv9_mod_link_def Let_def upd_entry_nth link_set_def give_back_def take_exec_def
      split: option.splits if_splits)

lemma unlink_resident: "m_resident (m_dir (fst (rv9_mod_unlink m s)) ! i) = m_resident (m_dir s ! i)"
  by (auto simp: rv9_mod_unlink_def Let_def upd_entry_nth give_back_def split: option.splits)

lemma unlink_last:
  assumes "i < length (m_dir s)" "m_link_count (m_dir s ! i) = 1" "\<not> m_resident (m_dir s ! i)"
  shows "m_image (m_dir (fst (rv9_mod_unlink (Some i) s)) ! i) = None"
  using assms by (auto simp: rv9_mod_unlink_def Let_def upd_entry_nth give_back_def split: option.splits)

lemma unlink_length [simp]: "length (m_dir (fst (rv9_mod_unlink m s))) = length (m_dir s)"
  by (auto simp: rv9_mod_unlink_def Let_def upd_entry_def give_back_def split: option.splits)

lemma note_stack_entry:
  "links (w_mod (note_stack st p w)) = links (w_mod w) \<and> length (m_dir (w_mod (note_stack st p w))) = length (m_dir (w_mod w)) \<and>
   m_resident (m_dir (w_mod (note_stack st p w)) ! i) = m_resident (m_dir (w_mod w) ! i)"
proof (cases st)
  case (Some x)
  then obtain m g u where "w_mod (note_stack st p w) = rv9_mod_note_stack m g u (w_mod w)"
    by (cases x) (auto simp: note_stack_def Let_def)
  moreover have "m_resident (m_dir (rv9_mod_note_stack m g u s) ! i) = m_resident (m_dir s ! i)" for s
    by (cases m) (simp_all add: rv9_mod_note_stack_def upd_entry_nth)
  ultimately show ?thesis by (simp add: links_note_stack note_stack_dir)
qed (simp add: note_stack_def)

lemma w_mod_unlink [simp]: "w_mod (unlink_mod m w) = fst (rv9_mod_unlink m (w_mod w))"
  by (simp add: unlink_mod_def)

text \<open>What an end does to a module: one link less.\<close>

lemma finish_mod:
  assumes "find_locked pid (w_pt w) = Some p" "p_module p = Some i" "i < length (m_dir (w_mod w))" "0 < links (w_mod w) ! i"
  shows "links (w_mod (finish env pid rc fault w)) = (links (w_mod w))[i := links (w_mod w) ! i - 1]"
    and "links (w_mod w) ! i = 1 \<Longrightarrow> \<not> m_resident (m_dir (w_mod w) ! i) \<Longrightarrow> m_image (m_dir (w_mod (finish env pid rc fault w)) ! i) = None"
proof -
  define w1 where "w1 = (if p_realtime p then on_rt (rv9_rt_release (ee_started env) (ee_clk env) (ee_self env)) w else w)"
  define s where "s = w_mod (note_stack (ee_stack env) p (tell [EndedHook pid fault] (on_pt (publish_end pid rc fault) (tell [ExitHook pid] w1))))"
  have "w_mod w1 = w_mod w" by (simp add: w1_def)
  then have s: "links s = links (w_mod w)" "length (m_dir s) = length (m_dir (w_mod w))" "m_resident (m_dir s ! i) = m_resident (m_dir (w_mod w) ! i)"
    using note_stack_entry by (simp_all add: s_def)
  have f: "w_mod (finish env pid rc fault w) = fst (rv9_mod_unlink (Some i) s)"
    unfolding finish_def assms(1) option.case Let_def w1_def [symmetric] assms(2) by (simp add: s_def)
  show "links (w_mod (finish env pid rc fault w)) = (links (w_mod w))[i := links (w_mod w) ! i - 1]"
    unfolding f using assms(3,4) s by (subst links_unlink) (simp_all del: links_nth)
  assume "links (w_mod w) ! i = 1" "\<not> m_resident (m_dir (w_mod w) ! i)"
  moreover have "m_link_count (m_dir s ! i) = links s ! i" using assms(3) s(2) by simp
  ultimately show "m_image (m_dir (w_mod (finish env pid rc fault w)) ! i) = None"
    unfolding f using assms(3) s by (intro unlink_last) (simp_all del: links_nth)
qed


text \<open>What an end does to the table.\<close>

lemma finish_view:
  assumes "find_locked pid (w_pt w) = Some p" "distinct (map fst (view (w_pt w)))"
  shows "view (w_pt (finish env pid rc fault w)) = end_view pid (view (w_pt w))"
proof -
  have "same_view (publish_end pid rc fault (w_pt w)) (w_pt (finish env pid rc fault w))"
    unfolding finish_def assms(1) option.case Let_def
    by (auto intro!: same_view_trans [OF view_upd_proc view_put])
  then show ?thesis using view_publish [OF assms(2)] by (simp add: same_view_def)
qed

lemma view_alive: "(q, False, Some i) \<in> set (view t) \<longleftrightarrow> (\<exists>p\<in>set (t_procs t). p_pid p = q \<and> p_state p \<noteq> RV9_PROC_EXITED \<and> p_module p = Some i)"
  by (auto simp: view_def view_of_def exited_def image_iff)

section \<open>The module a chain lets go twice\<close>

text \<open>C24: a process whose chain finds no memory for the new module's statics ends with its old
  module unlinked twice. When one other process runs that module and it is not resident, its
  last link is gone and its code is given back, while that process still runs it.\<close>

theorem starved_chain_unlinks_twice:
  assumes "find_locked pid (w_pt w) = Some p" "p_chain_pending p" "p_module p = Some i"
    and "i < length (m_dir (w_mod w))" "list_all entry_ok (m_dir (w_mod w))" "\<forall>j<length (m_dir (w_mod w)). links (w_mod w) ! j + 1 < W32"
    and "links (w_mod w) ! i = 2" "\<not> m_resident (m_dir (w_mod w) ! i)"
    and "rv9_mod_link (fe_read env) (fe_exec env) (Some (p_chain_to p)) (w_mod w) = (s, Inr nxt)"
    and "m_image (m_dir s ! nxt) = Some (a, img)" "rv9_mod_manifest_u32 (Some img) RV9_MTAG_HEAP_MAX = None"
    and "h_static_size (header_of img) > 0" "fe_claim env = None" "\<not> fe_statics env"
    and "distinct (map p_pid (t_procs (w_pt w)))" "q \<in> set (t_procs (w_pt w))" "p_pid q \<noteq> pid" "p_state q \<noteq> RV9_PROC_EXITED" "p_module q = Some i"
  shows "let r = chain_turn env pid rc w; w' = trampoline_end env' ok pid (- 1) (fst r) in
    snd r = Some (- 1) \<and> m_link_count (m_dir (w_mod w') ! i) = 0 \<and> m_image (m_dir (w_mod w') ! i) = None \<and>
    (\<exists>r\<in>set (t_procs (w_pt w')). p_pid r = p_pid q \<and> p_state r \<noteq> RV9_PROC_EXITED \<and> p_module r = Some i)"
proof -
  define w1 where "w1 = on_pt (upd_proc pid (\<lambda>p. p\<lparr>p_chain_pending := False\<rparr>)) w"
  have f1: "find_locked pid (w_pt w1) = Some (p\<lparr>p_chain_pending := False\<rparr>)"
    unfolding w1_def life_unlink_of by (rule find_after_upd [OF assms(1)]) simp
  let ?f = "\<lambda>p. p\<lparr>p_statics := False, p_heap_given := 0\<rparr>"
  define w2 where "w2 = on_pt (upd_proc pid ?f) (tell (if p_statics p then [FreeStatics pid] else []) (unlink_mod (Some i) (w1\<lparr>w_mod := s\<rparr>)))"
  define w3 where "w3 = unlink_mod (Some nxt) w2"
  have turn: "chain_turn env pid rc w = (w3, Some (- 1))"
    using assms(2,3,10-14) unfolding chain_turn_def assms(1) option.case Let_def w1_def [symmetric]
    by (simp add: assms(9) w1_def w3_def w2_def swap_module_def u32_or_def Let_def)
  obtain p3 where p3: "find_locked pid (w_pt w3) = Some p3" "p_module p3 = Some i"
    using find_after_upd [OF f1, of ?f] assms(3) by (auto simp: w3_def w2_def)
  let ?L = "links (w_mod w)"
  have nxt: "nxt < length (m_dir (w_mod w))" "links s = ?L[nxt := ?L ! nxt + 1]"
    using links_link [OF assms(9,5,6)] by (simp_all del: links_nth)
  have len: "length (m_dir s) = length (m_dir (w_mod w))" using arg_cong [OF nxt(2), of length] by simp
  have mod3: "w_mod w3 = fst (rv9_mod_unlink (Some nxt) (fst (rv9_mod_unlink (Some i) s)))" by (simp add: w3_def w2_def)
  have "links (fst (rv9_mod_unlink (Some i) s)) = (links s)[i := links s ! i - 1]"
    using assms(4,7) len nxt by (intro links_unlink) (simp_all add: nth_list_update del: links_nth)
  then have "links (w_mod w3) ! i = 1"
    unfolding mod3 using assms(4,7) len nxt
    by (subst links_unlink) (auto simp: nth_list_update simp del: links_nth)
  moreover have "\<not> m_resident (m_dir (w_mod w3) ! i)" using assms(8) link_resident [OF assms(9)] by (simp add: mod3 unlink_resident)
  moreover have i3: "i < length (m_dir (w_mod w3))" using assms(4) len by (simp add: mod3)
  ultimately have fin: "m_link_count (m_dir (w_mod (finish env' pid c f w3)) ! i) = 0"
      "m_image (m_dir (w_mod (finish env' pid c f w3)) ! i) = None" for c f
  proof -
    assume one: "links (w_mod w3) ! i = 1" "\<not> m_resident (m_dir (w_mod w3) ! i)"
    have l: "links (w_mod (finish env' pid c f w3)) = (links (w_mod w3))[i := 0]"
      using finish_mod(1) [OF p3 i3, of env' c f] one(1) by (simp del: links_nth)
    have "i < length (m_dir (w_mod (finish env' pid c f w3)))" using arg_cong [OF l, of length] i3 by simp
    then show "m_link_count (m_dir (w_mod (finish env' pid c f w3)) ! i) = 0"
      using arg_cong [OF l, of "\<lambda>ls. ls ! i"] i3 by simp
    show "m_image (m_dir (w_mod (finish env' pid c f w3)) ! i) = None"
      using finish_mod(2) [OF p3 i3] one by (simp del: links_nth)
  qed
  have "m_link_count (m_dir (w_mod (trampoline_end env' ok pid (- 1) w3)) ! i) = 0 \<and>
      m_image (m_dir (w_mod (trampoline_end env' ok pid (- 1) w3)) ! i) = None"
    using fin by (simp add: trampoline_end_def)
  moreover have "(p_pid q, False, Some i) \<in> set (view (w_pt (trampoline_end env' ok pid (- 1) w3)))"
  proof -
    have d: "distinct (map fst (view (w_pt w)))" using assms(15) by (simp add: pids_view)
    have v3: "view (w_pt w3) = view (w_pt w)"
      using same_view_trans [OF view_upd_proc view_upd_proc, of "\<lambda>p. p\<lparr>p_chain_pending := False\<rparr>" ?f "w_pt w" pid pid]
      by (simp add: w3_def w2_def w1_def same_view_def)
    have "(p_pid q, False, Some i) \<in> set (view (w_pt w))" using assms(16,18,19) by (auto simp: view_alive)
    then have "(p_pid q, False, Some i) \<in> set (end_view pid (view (w_pt w)))" using assms(17) by (force simp: end_view_def)
    then show ?thesis using finish_view [OF p3(1), of env'] d v3 by (simp add: trampoline_end_def)
  qed
  ultimately show ?thesis by (simp add: turn view_alive)
qed

text \<open>Two processes running one module, one of which chains to it with no memory left.\<close>

definition twice_store :: modsys where
  "twice_store = upd_entry 0 (\<lambda>e. e\<lparr>m_link_count := 2\<rparr>) (upd_entry 0 (link_set 4096 (small_module 19) False) (take_exec 4096 one_store))"

definition twin :: proc where
  "twin = blank_proc\<lparr>p_module := Some 0, p_chain_to := ''a'', p_chain_pending := True\<rparr>"

definition chain_world :: world where
  "chain_world = \<lparr>w_pt = table_with [twin\<lparr>p_pid := 2\<rparr>, twin\<lparr>p_pid := 1\<rparr>], w_mod = twice_store, w_rt = idle_rt, w_log = []\<rparr>"

definition quiet_end :: end_env where
  "quiet_end = \<lparr>ee_started = True, ee_clk = (\<lambda>_. 0), ee_self = 0, ee_stack = None, ee_now = 0\<rparr>"

lemma starved_chain_unlinks_twice_witness:
  "let w' = trampoline_end quiet_end True 1 (- 1) (fst (chain_turn (plain_env\<lparr>fe_statics := False\<rparr>) 1 0 chain_world)) in
     m_link_count (m_dir (w_mod w') ! 0) = 0 \<and> m_image (m_dir (w_mod w') ! 0) = None \<and>
     (\<exists>r\<in>set (t_procs (w_pt w')). p_pid r = 2 \<and> p_state r \<noteq> RV9_PROC_EXITED \<and> p_module r = Some 0)"
proof -
  let ?p = "twin\<lparr>p_pid := 1\<rparr>" and ?env = "plain_env\<lparr>fe_statics := False\<rparr>"
  define s where "s = upd_entry 0 (\<lambda>e. e\<lparr>m_link_count := cast32 (m_link_count e + 1)\<rparr>) twice_store"
  have len: "length (m_dir twice_store) = 1" by (simp add: twice_store_def upd_entry_def take_exec_def one_store_def)
  have e: "m_image (m_dir twice_store ! 0) = Some (4096, small_module 19)" "m_link_count (m_dir twice_store ! 0) = 2"
    "m_size (m_dir twice_store ! 0) = 48" "\<not> m_resident (m_dir twice_store ! 0)" "entry_ok (m_dir twice_store ! 0)"
    using small_verifies
    by (simp_all add: twice_store_def upd_entry_def take_exec_def one_store_def link_set_def zero_entry_def entry_ok_def)
  have "rv9_mod_find ''a'' twice_store = Some 0"
    by (simp add: twice_store_def rv9_mod_find_def upd_entry_def take_exec_def one_store_def link_set_def zero_entry_def)
  then have link: "rv9_mod_link (fe_read ?env) (fe_exec ?env) (Some (p_chain_to ?p)) (w_mod chain_world) = (s, Inr 0)"
    by (simp add: chain_world_def rv9_mod_link_def twin_def e s_def)
  have img: "m_image (m_dir s ! 0) = Some (4096, small_module 19)" using e len by (simp add: s_def upd_entry_nth)
  have w: "w_mod chain_world = twice_store" "t_procs (w_pt chain_world) = [twin\<lparr>p_pid := 2\<rparr>, ?p]"
    by (simp_all add: chain_world_def table_with_def)
  have "let r = chain_turn ?env 1 0 chain_world; w' = trampoline_end quiet_end True 1 (- 1) (fst r) in
    snd r = Some (- 1) \<and> m_link_count (m_dir (w_mod w') ! 0) = 0 \<and> m_image (m_dir (w_mod w') ! 0) = None \<and>
    (\<exists>r\<in>set (t_procs (w_pt w')). p_pid r = p_pid (twin\<lparr>p_pid := 2\<rparr>) \<and> p_state r \<noteq> RV9_PROC_EXITED \<and> p_module r = Some 0)"
    by (rule starved_chain_unlinks_twice [where p = ?p and s = s and nxt = 0 and a = 4096 and img = "small_module 19"])
      (use link img in \<open>simp_all add: find_locked_def w len e list_all_length twin_def blank_proc_def plain_env_def small_no_manifest small_header\<close>)
  then show ?thesis by (simp add: Let_def)
qed


end
