(* ===== verification/Claims.thy ===== *)
theory Claims
  imports ProcTable
begin

text \<open>
  Who owns a device (components/rv9_io/src/claim.c): one record per owner of a resource, with
  references from open paths and from a reservation made at fork. A record is found by its
  address, \<open>cl_at\<close>, which is what a path keeps; \<open>alloc\<close> is what \<open>rv9_calloc\<close> answers. A string
  is the characters before its NUL. Every definition is one critical section.
\<close>

section \<open>Errors and records\<close>

datatype io_err =
    RV9_IO_OK | RV9_IO_ERR_NOTFOUND | RV9_IO_ERR_BADPATH | RV9_IO_ERR_NOPATHS | RV9_IO_ERR_NOMEM
  | RV9_IO_ERR_MODE | RV9_IO_ERR_UNSUPPORTED | RV9_IO_ERR_WOULDBLOCK | RV9_IO_ERR_IO | RV9_IO_ERR_INVAL
  | RV9_IO_ERR_EXISTS | RV9_IO_ERR_TIMEOUT | RV9_IO_ERR_BUSY

definition RV9_CLAIM_NAME_MAX :: nat where "RV9_CLAIM_NAME_MAX = 48"

record claim =
  cl_at :: nat
  cl_name :: string
  cl_owner :: nat
  cl_exclusive :: bool
  cl_reserved :: bool
  cl_refs :: nat
  cl_failsafe :: "nat option"

text \<open>\<open>cs_up\<close>: the table's lock has been made.\<close>

record claimsys =
  cs_up :: bool
  cs_claims :: "claim list"

definition rv9_claim_init :: "bool \<Rightarrow> claimsys \<Rightarrow> claimsys \<times> io_err" where
  "rv9_claim_init lock_made s =
     (if cs_up s then (s, RV9_IO_OK)
      else if lock_made then (s\<lparr>cs_up := True\<rparr>, RV9_IO_OK) else (s, RV9_IO_ERR_NOMEM))"

definition find_claim :: "nat \<Rightarrow> claim list \<Rightarrow> claim option" where
  "find_claim a cs = find (\<lambda>c. cl_at c = a) cs"

definition upd_claim :: "nat \<Rightarrow> (claim \<Rightarrow> claim) \<Rightarrow> claim list \<Rightarrow> claim list" where
  "upd_claim a f cs = upd_first (\<lambda>c. cl_at c = a) f cs"

text \<open>The name of a resource: \<open>/gpio\<close> and \<open>2\<close> are \<open>/gpio/2\<close>, cut to fit.\<close>

definition rv9_claim_resource :: "nat \<Rightarrow> string \<Rightarrow> string \<Rightarrow> string option" where
  "rv9_claim_resource cap dev rest =
     (if cap = 0 then None
      else Some (take (cap - 1) (take (cap - 1) dev @ (if rest = [] then [] else CHR ''/'' # rest))))"

section \<open>Taking and dropping\<close>

text \<open>The loop over the table: the owner in the way, or the caller's own record.\<close>

fun take_scan :: "string \<Rightarrow> nat \<Rightarrow> bool \<Rightarrow> claim option \<Rightarrow> claim list \<Rightarrow> nat + claim option" where
  "take_scan res owner exclusive mine [] = Inr mine"
| "take_scan res owner exclusive mine (c # cs) =
     (if cl_name c \<noteq> res then take_scan res owner exclusive mine cs
      else if cl_owner c = owner then take_scan res owner exclusive (Some c) cs
      else if cl_exclusive c \<or> exclusive then Inl (cl_owner c)
      else take_scan res owner exclusive mine cs)"

definition take_locked :: "nat option \<Rightarrow> string \<Rightarrow> nat \<Rightarrow> bool \<Rightarrow> claim list \<Rightarrow> claim list \<times> (io_err + nat)" where
  "take_locked alloc res owner exclusive cs =
     (case take_scan res owner exclusive None cs of
        Inl blocker \<Rightarrow> (cs, Inl RV9_IO_ERR_BUSY)
      | Inr (Some mine) \<Rightarrow>
          (upd_claim (cl_at mine)
             (\<lambda>c. c\<lparr>cl_exclusive := (cl_exclusive c \<or> exclusive), cl_refs := (cl_refs c + 1) mod 65536\<rparr>) cs,
           Inr (cl_at mine))
      | Inr None \<Rightarrow>
          (case alloc of
             None \<Rightarrow> (cs, Inl RV9_IO_ERR_NOMEM)
           | Some a \<Rightarrow>
               (\<lparr>cl_at = a, cl_name = cstr RV9_CLAIM_NAME_MAX res, cl_owner = owner, cl_exclusive = exclusive,
                  cl_reserved = False, cl_refs = 1, cl_failsafe = None\<rparr> # cs, Inr a)))"

text \<open>Before the table exists nothing conflicts and nothing is recorded.\<close>

definition rv9_claim_take ::
  "nat option \<Rightarrow> string option \<Rightarrow> nat \<Rightarrow> bool \<Rightarrow> claimsys \<Rightarrow> claimsys \<times> (io_err + nat option)" where
  "rv9_claim_take alloc resource owner exclusive s =
     (case resource of
        None \<Rightarrow> (s, Inl RV9_IO_ERR_INVAL)
      | Some res \<Rightarrow>
          if \<not> cs_up s then (s, Inr None)
          else case take_locked alloc res owner exclusive (cs_claims s) of
            (cs, Inl e) \<Rightarrow> (s\<lparr>cs_claims := cs\<rparr>, Inl e)
          | (cs, Inr a) \<Rightarrow> (s\<lparr>cs_claims := cs\<rparr>, Inr (Some a)))"

definition drop_locked :: "nat \<Rightarrow> claim list \<Rightarrow> claim list" where
  "drop_locked a cs =
     (case find_claim a cs of
        None \<Rightarrow> cs
      | Some c \<Rightarrow>
          let refs = (if cl_refs c > 0 then cl_refs c - 1 else 0)
          in if refs > 0 then upd_claim a (\<lambda>c. c\<lparr>cl_refs := refs\<rparr>) cs else remove1 c cs)"

definition rv9_claim_drop :: "nat option \<Rightarrow> claimsys \<Rightarrow> claimsys" where
  "rv9_claim_drop c s =
     (case c of
        None \<Rightarrow> s
      | Some a \<Rightarrow> if \<not> cs_up s then s else s\<lparr>cs_claims := drop_locked a (cs_claims s)\<rparr>)"

section \<open>Reservations and failsafes\<close>

definition rv9_claim_reserve :: "nat option \<Rightarrow> string option \<Rightarrow> nat \<Rightarrow> bool \<Rightarrow> claimsys \<Rightarrow> claimsys \<times> io_err" where
  "rv9_claim_reserve alloc resource owner exclusive s =
     (case resource of
        None \<Rightarrow> (s, RV9_IO_ERR_INVAL)
      | Some res \<Rightarrow>
          if \<not> cs_up s then (s, RV9_IO_OK)
          else
            (case find (\<lambda>c. cl_owner c = owner \<and> cl_name c = res \<and> cl_reserved c) (cs_claims s) of
               Some c \<Rightarrow>
                 (s\<lparr>cs_claims := upd_claim (cl_at c) (\<lambda>c. c\<lparr>cl_exclusive := (cl_exclusive c \<or> exclusive)\<rparr>) (cs_claims s)\<rparr>,
                  RV9_IO_OK)
             | None \<Rightarrow>
                 (case take_locked alloc res owner exclusive (cs_claims s) of
                    (cs, Inl e) \<Rightarrow> (s\<lparr>cs_claims := cs\<rparr>, e)
                  | (cs, Inr a) \<Rightarrow>
                      (s\<lparr>cs_claims := upd_claim a (\<lambda>c. c\<lparr>cl_reserved := True\<rparr>) cs\<rparr>, RV9_IO_OK))))"

text \<open>The walk remembers the next record before it may free this one.\<close>

definition release_one :: "nat \<Rightarrow> claim list \<Rightarrow> nat \<Rightarrow> claim list" where
  "release_one owner cs a =
     (case find_claim a cs of
        None \<Rightarrow> cs
      | Some c \<Rightarrow>
          if cl_owner c = owner \<and> cl_reserved c
          then drop_locked a (upd_claim a (\<lambda>c. c\<lparr>cl_reserved := False\<rparr>) cs) else cs)"

definition rv9_claim_release_pid :: "nat \<Rightarrow> claimsys \<Rightarrow> claimsys" where
  "rv9_claim_release_pid owner s =
     (if \<not> cs_up s then s
      else s\<lparr>cs_claims := foldl (release_one owner) (cs_claims s) (map cl_at (cs_claims s))\<rparr>)"

definition rv9_claim_failsafe :: "string option \<Rightarrow> nat \<Rightarrow> nat \<Rightarrow> claimsys \<Rightarrow> claimsys \<times> io_err" where
  "rv9_claim_failsafe resource owner v s =
     (case resource of
        None \<Rightarrow> (s, RV9_IO_ERR_INVAL)
      | Some res \<Rightarrow>
          if \<not> cs_up s then (s, RV9_IO_ERR_NOTFOUND)
          else if find (\<lambda>c. cl_owner c = owner \<and> cl_name c = res) (cs_claims s) = None then (s, RV9_IO_ERR_NOTFOUND)
          else (s\<lparr>cs_claims := upd_first (\<lambda>c. cl_owner c = owner \<and> cl_name c = res)
                  (\<lambda>c. c\<lparr>cl_failsafe := Some v\<rparr>) (cs_claims s)\<rparr>, RV9_IO_OK))"

text \<open>How many an owner promised, and the first \<open>mx\<close> of them.\<close>

definition rv9_claim_failsafes :: "nat \<Rightarrow> nat \<Rightarrow> claimsys \<Rightarrow> nat \<times> (string \<times> nat) list" where
  "rv9_claim_failsafes owner mx s =
     (if \<not> cs_up s then (0, [])
      else
        let mine = filter (\<lambda>c. cl_owner c = owner \<and> cl_failsafe c \<noteq> None) (cs_claims s)
        in (length mine, take mx (map (\<lambda>c. (cstr RV9_CLAIM_NAME_MAX (cl_name c), the (cl_failsafe c))) mine)))"

section \<open>Asking\<close>

record sys_claim =
  sc_name :: string
  sc_owner :: nat
  sc_exclusive :: nat
  sc_reserved :: nat
  sc_refs :: nat
  sc_has_failsafe :: nat
  sc_failsafe_value :: nat

definition rv9_claim_list :: "nat \<Rightarrow> claimsys \<Rightarrow> nat \<times> sys_claim list" where
  "rv9_claim_list mx s =
     (if \<not> cs_up s then (0, [])
      else (length (cs_claims s),
            take mx (map (\<lambda>c. \<lparr>sc_name = cstr RV9_CLAIM_NAME_MAX (cl_name c), sc_owner = cl_owner c,
                sc_exclusive = (if cl_exclusive c then 1 else 0), sc_reserved = (if cl_reserved c then 1 else 0),
                sc_refs = cl_refs c, sc_has_failsafe = (if cl_failsafe c \<noteq> None then 1 else 0),
                sc_failsafe_value = (case cl_failsafe c of None \<Rightarrow> 0 | Some v \<Rightarrow> v)\<rparr>) (cs_claims s))))"

text \<open>An exclusive owner ends the search; among sharers the last seen is the answer.\<close>

fun owner_scan :: "string \<Rightarrow> (nat \<times> bool) option \<Rightarrow> claim list \<Rightarrow> (nat \<times> bool) option" where
  "owner_scan res found [] = found"
| "owner_scan res found (c # cs) =
     (if cl_name c \<noteq> res then owner_scan res found cs
      else if cl_exclusive c then Some (cl_owner c, True)
      else owner_scan res (Some (cl_owner c, False)) cs)"

definition rv9_claim_owner :: "string option \<Rightarrow> claimsys \<Rightarrow> (nat \<times> bool) option" where
  "rv9_claim_owner resource s =
     (case resource of
        None \<Rightarrow> None
      | Some res \<Rightarrow> if \<not> cs_up s then None else owner_scan res None (cs_claims s))"

end
