(* ===== verification/ClaimProps.thy ===== *)
theory ClaimProps
  imports Claims ProcProps
begin

text \<open>
  Ownership of devices: exclusion, and who holds a record. \<open>H\<close> lists the handles that
  opens were given and have not dropped.
\<close>

section \<open>The table in order\<close>

definition fits :: "string \<Rightarrow> bool" where
  "fits res \<longleftrightarrow> length res < RV9_CLAIM_NAME_MAX \<and> CHR 0x00 \<notin> set res"

definition sole :: "claim \<Rightarrow> claim list \<Rightarrow> bool" where
  "sole c cs \<longleftrightarrow> (\<forall>d\<in>set cs. cl_name d = cl_name c \<longrightarrow> cl_owner d = cl_owner c)"

definition counted :: "nat list \<Rightarrow> claim \<Rightarrow> bool" where
  "counted H c \<longleftrightarrow> cl_refs c = count_list H (cl_at c) + (if cl_reserved c then 1 else 0) \<and> 0 < cl_refs c \<and>
     (cl_reserved c \<longrightarrow> cl_exclusive c)"

definition claims_ok :: "nat list \<Rightarrow> claim list \<Rightarrow> bool" where
  "claims_ok H cs \<longleftrightarrow>
     distinct (map cl_at cs) \<and> distinct (map (\<lambda>c. (cl_name c, cl_owner c)) cs) \<and>
     (\<forall>c\<in>set cs. fits (cl_name c) \<and> counted H c \<and> (cl_exclusive c \<longrightarrow> sole c cs)) \<and>
     set H \<subseteq> cl_at ` set cs"

lemma fits_cstr: "fits res \<Longrightarrow> cstr RV9_CLAIM_NAME_MAX res = res"
proof -
  assume "fits res"
  then have "takeWhile (\<lambda>c. c \<noteq> CHR 0x00) res = res" "length res \<le> RV9_CLAIM_NAME_MAX - 1"
    by (auto simp: fits_def takeWhile_eq_all_conv)
  then show ?thesis unfolding cstr_def by (metis take_all)
qed

lemma find_claim_Some: "find_claim a cs = Some c \<Longrightarrow> c \<in> set cs \<and> cl_at c = a"
  by (auto simp: find_claim_def find_Some_iff)

lemma find_claim_mem: "distinct (map cl_at cs) \<Longrightarrow> c \<in> set cs \<Longrightarrow> find_claim (cl_at c) cs = Some c"
proof (induction cs)
  case (Cons d cs)
  then show ?case by (auto simp: find_claim_def)
qed simp

lemma upd_claim_map: "distinct (map cl_at cs) \<Longrightarrow> upd_claim a f cs = map (\<lambda>c. if cl_at c = a then f c else c) cs"
  by (simp add: upd_claim_def upd_first_map)

lemma same_claim: "claims_ok H cs \<Longrightarrow> c \<in> set cs \<Longrightarrow> d \<in> set cs \<Longrightarrow> cl_at c = cl_at d \<Longrightarrow> c = d"
  by (auto simp: claims_ok_def distinct_map dest: inj_onD)

text \<open>A change to one record.\<close>

lemma ok_upd:
  assumes ok: "claims_ok H cs" and c: "c \<in> set cs"
    and f: "cl_at (f c) = cl_at c" "cl_name (f c) = cl_name c" "cl_owner (f c) = cl_owner c"
    and H: "\<And>b. b \<noteq> cl_at c \<Longrightarrow> count_list H' b = count_list H b" "set H' \<subseteq> cl_at ` set cs"
    and fc: "counted H' (f c)" "cl_exclusive (f c) \<Longrightarrow> sole c cs"
  shows "claims_ok H' (upd_claim (cl_at c) f cs)"
proof -
  define g where "g d = (if cl_at d = cl_at c then f d else d)" for d
  have d: "distinct (map cl_at cs)" "distinct (map (\<lambda>c. (cl_name c, cl_owner c)) cs)" using ok by (simp_all add: claims_ok_def)
  have g: "cl_at (g d) = cl_at d" "cl_name (g d) = cl_name d" "cl_owner (g d) = cl_owner d" if "d \<in> set cs" for d
    using same_claim [OF ok that c] f by (auto simp: g_def)
  have m: "map cl_at (map g cs) = map cl_at cs" "map (\<lambda>c. (cl_name c, cl_owner c)) (map g cs) = map (\<lambda>c. (cl_name c, cl_owner c)) cs"
    by (simp_all add: g)
  have img: "cl_at ` g ` set cs = cl_at ` set cs" using m(1) by (metis list.set_map)
  have sole: "sole (g e) (map g cs) = sole e cs" if "e \<in> set cs" for e by (simp add: sole_def g that)
  have "fits (cl_name (g e)) \<and> counted H' (g e) \<and> (cl_exclusive (g e) \<longrightarrow> sole (g e) (map g cs))" if e: "e \<in> set cs" for e
  proof (cases "cl_at e = cl_at c")
    case True
    then have "e = c" using same_claim [OF ok e c] by simp
    moreover have "g c = f c" by (simp add: g_def)
    moreover have "fits (cl_name c)" using ok c by (simp add: claims_ok_def)
    ultimately show ?thesis using fc sole [OF c] f(2) by metis
  next
    case False
    then have ge: "g e = e" by (simp add: g_def)
    have "counted H e" "fits (cl_name e)" "cl_exclusive e \<longrightarrow> sole e cs" using ok e by (simp_all add: claims_ok_def)
    moreover have "counted H' e = counted H e" using H(1) [OF False] by (simp add: counted_def)
    ultimately show ?thesis using sole [OF e] ge by simp
  qed
  then have "\<forall>e\<in>set (map g cs). fits (cl_name e) \<and> counted H' e \<and> (cl_exclusive e \<longrightarrow> sole e (map g cs))" by simp
  then have "claims_ok H' (map g cs)"
    unfolding claims_ok_def m using d H(2) img by simp
  then show ?thesis by (simp add: upd_claim_map [OF d(1)] g_def [abs_def])
qed

lemma ok_new:
  assumes "claims_ok H cs" "cl_at c \<notin> cl_at ` set cs" "fits (cl_name c)" "counted H' c" "cl_exclusive c \<Longrightarrow> sole c cs"
    "\<forall>d\<in>set cs. cl_name d = cl_name c \<longrightarrow> cl_owner d \<noteq> cl_owner c \<and> \<not> cl_exclusive d"
    "\<And>b. b \<noteq> cl_at c \<Longrightarrow> count_list H' b = count_list H b" "set H' \<subseteq> insert (cl_at c) (cl_at ` set cs)"
  shows "claims_ok H' (c # cs)"
proof -
  have "counted H' d" if d: "d \<in> set cs" for d
  proof -
    have "cl_at d \<noteq> cl_at c" using assms(2) d by (metis image_eqI)
    from assms(7) [OF this] have "counted H' d = counted H d" by (simp add: counted_def)
    then show ?thesis using assms(1) d by (simp add: claims_ok_def)
  qed
  moreover have "sole d (c # cs)" if d: "d \<in> set cs" "cl_exclusive d" for d
  proof -
    have "sole d cs" using assms(1) d by (simp add: claims_ok_def)
    moreover have "cl_name c \<noteq> cl_name d" using assms(6) d by metis
    ultimately show ?thesis by (simp add: sole_def)
  qed
  moreover have "sole c (c # cs)" if "cl_exclusive c" using assms(5) that by (simp add: sole_def)
  moreover have "(cl_name c, cl_owner c) \<notin> (\<lambda>c. (cl_name c, cl_owner c)) ` set cs" using assms(6) by auto
  ultimately show ?thesis using assms(1-5,8) by (simp add: claims_ok_def)
qed

lemma ok_remove:
  assumes "claims_ok H cs" "c \<in> set cs" "\<And>b. b \<noteq> cl_at c \<Longrightarrow> count_list H' b = count_list H b" "set H' \<subseteq> set H - {cl_at c}"
  shows "claims_ok H' (remove1 c cs)"
proof -
  have d: "distinct (map cl_at cs)" "distinct (map (\<lambda>c. (cl_name c, cl_owner c)) cs)" using assms(1) by (simp_all add: claims_ok_def)
  have dc: "distinct cs" using d(1) by (simp add: distinct_map)
  then have s: "set (remove1 c cs) = set cs - {c}" by simp
  have "counted H' e" if "e \<in> set cs - {c}" for e
  proof -
    have "cl_at e \<noteq> cl_at c" using that same_claim [OF assms(1) _ assms(2), of e] by auto
    from assms(3) [OF this] show ?thesis using assms(1) that by (auto simp: claims_ok_def counted_def)
  qed
  moreover have "sole e (remove1 c cs)" if "e \<in> set cs" "cl_exclusive e" for e
  proof -
    have "sole e cs" using assms(1) that by (simp add: claims_ok_def)
    then show ?thesis by (simp add: sole_def s)
  qed
  moreover have "set H' \<subseteq> cl_at ` (set cs - {c})" using assms(1,4) by (fastforce simp: claims_ok_def)
  moreover have "fits (cl_name e)" if "e \<in> set cs" for e using assms(1) that by (simp add: claims_ok_def)
  moreover have "distinct (map f (remove1 c cs))" if "distinct (map f cs)" for f :: "claim \<Rightarrow> nat"
    using that dc by (simp add: distinct_map inj_on_diff)
  moreover have "distinct (map f (remove1 c cs))" if "distinct (map f cs)" for f :: "claim \<Rightarrow> string \<times> nat"
    using that dc by (simp add: distinct_map inj_on_diff)
  ultimately show ?thesis using d unfolding claims_ok_def s by blast
qed

section \<open>The operations keep it\<close>

lemma scan_refused: "take_scan res owner exclusive mine cs = Inl b \<Longrightarrow>
    \<exists>c\<in>set cs. cl_name c = res \<and> cl_owner c \<noteq> owner \<and> (cl_exclusive c \<or> exclusive) \<and> cl_owner c = b"
  by (induction cs arbitrary: mine) (auto split: if_splits)

lemma scan_granted: "take_scan res owner exclusive mine cs = Inr m \<Longrightarrow>
    (\<forall>c\<in>set cs. cl_name c = res \<and> cl_owner c \<noteq> owner \<longrightarrow> \<not> cl_exclusive c \<and> \<not> exclusive) \<and>
    (case m of None \<Rightarrow> mine = None \<and> (\<forall>c\<in>set cs. \<not> (cl_name c = res \<and> cl_owner c = owner))
     | Some c \<Rightarrow> Some c = mine \<or> c \<in> set cs \<and> cl_name c = res \<and> cl_owner c = owner)"
proof (induction cs arbitrary: mine)
  case (Cons c cs)
  consider "cl_name c \<noteq> res" | "cl_name c = res" "cl_owner c = owner"
    | "cl_name c = res" "cl_owner c \<noteq> owner" "\<not> cl_exclusive c" "\<not> exclusive"
    using Cons.prems by (auto split: if_splits)
  then show ?case
  proof cases
    case 2
    then have "take_scan res owner exclusive (Some c) cs = Inr m" using Cons.prems by simp
    from Cons.IH [OF this] show ?thesis using 2 by (auto split: option.splits)
  qed (use Cons.prems Cons.IH [of mine] in \<open>auto split: option.splits\<close>)
qed (auto split: option.splits)

lemma ok_take:
  assumes ok: "claims_ok H cs" and t: "take_locked alloc res owner exclusive cs = (cs', r)"
    and fits: "fits res" and fresh: "\<And>a. alloc = Some a \<Longrightarrow> a \<notin> cl_at ` set cs" and few: "length H < 65534"
  shows "case r of Inl e \<Rightarrow> cs' = cs | Inr a \<Rightarrow> claims_ok (a # H) cs' \<and>
    (\<exists>c\<in>set cs'. cl_at c = a \<and> cl_name c = res \<and> cl_owner c = owner \<and> (exclusive \<longrightarrow> cl_exclusive c))"
proof (cases "take_scan res owner exclusive None cs")
  case (Inl b)
  then show ?thesis using t by (auto simp: take_locked_def)
next
  case (Inr m)
  note g = scan_granted [OF Inr]
  have d: "distinct (map cl_at cs)" using ok by (simp add: claims_ok_def)
  show ?thesis
  proof (cases m)
    case (Some c)
    have c: "c \<in> set cs" "cl_name c = res" "cl_owner c = owner" using g Some by auto
    let ?f = "\<lambda>c. c\<lparr>cl_exclusive := (cl_exclusive c \<or> exclusive), cl_refs := (cl_refs c + 1) mod 65536\<rparr>"
    have r: "r = Inr (cl_at c)" "cs' = upd_claim (cl_at c) ?f cs" using t Inr Some by (auto simp: take_locked_def)
    have cc: "counted H c" "cl_exclusive c \<longrightarrow> sole c cs" using ok c(1) by (simp_all add: claims_ok_def)
    have "count_list H (cl_at c) \<le> length H" by (rule count_le_length)
    then have "(cl_refs c + 1) mod 65536 = cl_refs c + 1" using cc(1) few by (simp add: counted_def)
    then have "counted (cl_at c # H) (?f c)" using cc(1) by (simp add: counted_def)
    moreover have "sole c cs" if "cl_exclusive (?f c)"
      using that cc(2) g c by (auto simp: sole_def)
    ultimately have "claims_ok (cl_at c # H) cs'"
      unfolding r(2) using c(1) ok by (intro ok_upd [OF ok]) (auto simp: claims_ok_def)
    moreover have "\<exists>e\<in>set cs'. cl_at e = cl_at c \<and> cl_name e = res \<and> cl_owner e = owner \<and> (exclusive \<longrightarrow> cl_exclusive e)"
      unfolding r(2) upd_claim_map [OF d] using c by (intro bexI [of _ "?f c"]) auto
    ultimately show ?thesis using r by auto
  next
    case None
    show ?thesis
    proof (cases alloc)
      case None
      then show ?thesis using t Inr \<open>m = None\<close> by (auto simp: take_locked_def)
    next
      case (Some a)
      let ?c = "\<lparr>cl_at = a, cl_name = res, cl_owner = owner, cl_exclusive = exclusive, cl_reserved = False, cl_refs = 1, cl_failsafe = None\<rparr>"
      have r: "r = Inr a" "cs' = ?c # cs" using t Inr None Some fits by (auto simp: take_locked_def fits_cstr)
      have "count_list H a = 0" using ok fresh [OF Some] by (auto simp: claims_ok_def count_list_0_iff)
      then have "claims_ok (a # H) (?c # cs)"
        using g None fresh [OF Some] fits ok
        by (intro ok_new [OF ok]) (auto simp: counted_def sole_def claims_ok_def)
      then show ?thesis using r by auto
    qed
  qed
qed

text \<open>One reference less: the record lives on while somebody else holds it.\<close>

lemma ok_drop:
  assumes d: "distinct (map cl_at cs)" and c: "c \<in> set cs" and refs: "cl_refs c = Suc n"
    and keep: "0 < n \<Longrightarrow> claims_ok H' (upd_claim (cl_at c) (\<lambda>c. c\<lparr>cl_refs := n\<rparr>) cs)"
    and gone: "n = 0 \<Longrightarrow> claims_ok H' (remove1 c cs)"
  shows "claims_ok H' (drop_locked (cl_at c) cs)"
  using find_claim_mem [OF d c] refs keep gone by (auto simp: drop_locked_def Let_def)

lemma count_remove1: "b \<noteq> a \<Longrightarrow> count_list (remove1 a H) b = count_list H b"
  "a \<in> set H \<Longrightarrow> Suc (count_list (remove1 a H) a) = count_list H a"
  by (induction H) auto

lemma ok_close:
  assumes ok: "claims_ok H cs" and a: "a \<in> set H"
  shows "claims_ok (remove1 a H) (drop_locked a cs)"
proof -
  have "set H \<subseteq> cl_at ` set cs" using ok by (simp add: claims_ok_def)
  then obtain c where c: "c \<in> set cs" "cl_at c = a" using a by auto
  have cc: "counted H c" "cl_exclusive c \<longrightarrow> sole c cs" "distinct (map cl_at cs)" using ok c(1) by (simp_all add: claims_ok_def)
  define n where "n = count_list (remove1 a H) a + (if cl_reserved c then 1 else 0)"
  have refs: "cl_refs c = Suc n" using cc(1) count_remove1(2) [OF a] c(2) by (simp add: counted_def n_def)
  have "claims_ok (remove1 a H) (drop_locked (cl_at c) cs)"
  proof (rule ok_drop [OF cc(3) c(1) refs])
    assume "0 < n"
    then show "claims_ok (remove1 a H) (upd_claim (cl_at c) (\<lambda>c. c\<lparr>cl_refs := n\<rparr>) cs)"
      using cc c(2) ok set_remove1_subset [of a H]
      by (intro ok_upd [OF ok c(1)]) (auto simp: counted_def n_def claims_ok_def count_remove1(1))
  next
    assume "n = 0"
    then have "count_list (remove1 a H) a = 0" by (simp add: n_def)
    then have "a \<notin> set (remove1 a H)" by (simp only: count_list_0_iff not_False_eq_True)
    then show "claims_ok (remove1 a H) (remove1 c cs)"
      using c(2) set_remove1_subset [of a H] by (intro ok_remove [OF ok c(1)]) (auto simp: count_remove1(1))
  qed
  then show ?thesis by (simp only: c(2))
qed

lemma upd_claim_twice: "distinct (map cl_at cs) \<Longrightarrow> cl_at (f c) = cl_at c \<Longrightarrow>
    find_claim (cl_at c) cs = Some c \<Longrightarrow> find_claim (cl_at c) (upd_claim (cl_at c) f cs) = Some (f c)"
proof (induction cs)
  case (Cons d cs)
  then show ?case by (auto simp: find_claim_def upd_claim_def split: if_splits)
qed (simp add: find_claim_def)

lemma remove_upd: "distinct (map cl_at cs) \<Longrightarrow> c \<in> set cs \<Longrightarrow> cl_at (f c) = cl_at c \<Longrightarrow>
    remove1 (f c) (upd_claim (cl_at c) f cs) = remove1 c cs"
proof (induction cs)
  case (Cons d cs)
  show ?case
  proof (cases "cl_at d = cl_at c")
    case True
    then have "d = c" using Cons.prems by auto
    then show ?thesis by (simp add: upd_claim_def)
  next
    case False
    then have "d \<noteq> f c" "c \<in> set cs" "d \<noteq> c" using Cons.prems by auto
    then show ?thesis using False Cons by (simp add: upd_claim_def)
  qed
qed simp

lemma upd_upd: "distinct (map cl_at cs) \<Longrightarrow> (\<And>c. cl_at (f c) = cl_at c) \<Longrightarrow>
    upd_claim a g (upd_claim a f cs) = upd_claim a (\<lambda>c. g (f c)) cs"
  by (induction cs) (auto simp: upd_claim_def)

lemma ok_release:
  assumes ok: "claims_ok H cs"
  shows "claims_ok H (release_one owner cs a) \<and> (\<forall>d\<in>set (release_one owner cs a). cl_owner d = owner \<and> cl_reserved d \<longrightarrow>
      cl_at d \<noteq> a \<and> d \<in> set cs)"
proof (cases "find_claim a cs")
  case None
  then have "\<forall>d\<in>set cs. cl_at d \<noteq> a" by (auto simp: find_claim_def find_None_iff)
  then show ?thesis using None ok by (simp add: release_one_def)
next
  case (Some c)
  note c = find_claim_Some [OF Some]
  let ?f = "\<lambda>c. c\<lparr>cl_reserved := False\<rparr>"
  have cc: "counted H c" "cl_exclusive c \<longrightarrow> sole c cs" "distinct (map cl_at cs)" using ok c by (simp_all add: claims_ok_def)
  show ?thesis
  proof (cases "cl_owner c = owner \<and> cl_reserved c")
    case False
    then show ?thesis using Some ok same_claim [OF ok _ conjunct1 [OF c]] c by (auto simp: release_one_def)
  next
    case True
    let ?n = "count_list H a"
    have refs: "cl_refs c = Suc ?n" using cc(1) True c by (simp add: counted_def)
    have drop: "release_one owner cs a = (if ?n = 0 then remove1 c cs else upd_claim a (\<lambda>c. c\<lparr>cl_reserved := False, cl_refs := ?n\<rparr>) cs)"
      using Some True refs upd_claim_twice [OF cc(3), of ?f c] remove_upd [OF cc(3) conjunct1 [OF c], of ?f] c
      by (auto simp: release_one_def drop_locked_def Let_def upd_upd [OF cc(3)])
    show ?thesis
    proof (cases "?n = 0")
      case True
      have "claims_ok H (remove1 c cs)" using c True by (intro ok_remove [OF ok]) (auto simp: count_list_0_iff)
      moreover have "cl_at d \<noteq> a" if "d \<in> set (remove1 c cs)" for d
        using that same_claim [OF ok _ conjunct1 [OF c], of d] c cc(3) by (auto simp: distinct_map)
      ultimately show ?thesis using drop True set_remove1_subset [of c cs] by auto
    next
      case False
      have "claims_ok H (upd_claim (cl_at c) (\<lambda>c. c\<lparr>cl_reserved := False, cl_refs := ?n\<rparr>) cs)"
        using cc False c ok by (intro ok_upd [OF ok]) (auto simp: counted_def claims_ok_def)
      then show ?thesis using drop False c by (auto simp: upd_claim_map [OF cc(3)])
    qed
  qed
qed


section \<open>Runs\<close>

text \<open>What reaches the table: opens and closes of paths, reservations at fork, ends of processes,
  failsafes. An address \<open>rv9_calloc\<close> gives is not one in use; a handle is dropped by who holds it.
  The I/O manager reserves exclusively only.\<close>

datatype claim_op =
    CTake "nat option" string nat bool
  | CDrop nat
  | CReserve "nat option" string nat
  | CRelease nat
  | CFailsafe string nat nat

definition fresh :: "nat option \<Rightarrow> claimsys \<Rightarrow> nat option" where
  "fresh alloc s = (case alloc of None \<Rightarrow> None | Some a \<Rightarrow> if find_claim a (cs_claims s) = None then Some a else None)"

fun claim_step :: "claimsys \<times> nat list \<Rightarrow> claim_op \<Rightarrow> claimsys \<times> nat list" where
  "claim_step (s, H) (CTake alloc res owner exclusive) =
     (case rv9_claim_take (fresh alloc s) (Some res) owner exclusive s of
        (s', Inr (Some a)) \<Rightarrow> (s', a # H)
      | (s', _) \<Rightarrow> (s', H))"
| "claim_step (s, H) (CDrop a) = (if a \<in> set H then (rv9_claim_drop (Some a) s, remove1 a H) else (s, H))"
| "claim_step (s, H) (CReserve alloc res owner) = (fst (rv9_claim_reserve (fresh alloc s) (Some res) owner True s), H)"
| "claim_step (s, H) (CRelease owner) = (rv9_claim_release_pid owner s, H)"
| "claim_step (s, H) (CFailsafe res owner v) = (fst (rv9_claim_failsafe (Some res) owner v s), H)"

fun op_fits :: "claim_op \<Rightarrow> bool" where
  "op_fits (CTake alloc res owner exclusive) = fits res"
| "op_fits (CReserve alloc res owner) = fits res"
| "op_fits op = True"

lemma fresh_unused: "fresh alloc s = Some a \<Longrightarrow> a \<notin> cl_at ` set (cs_claims s)"
  by (auto simp: fresh_def find_claim_def find_None_iff split: option.splits if_splits)

lemma ok_reserve:
  assumes ok: "claims_ok H (cs_claims s)" and fits: "fits res" and few: "length H < 65534"
  shows "claims_ok H (cs_claims (fst (rv9_claim_reserve (fresh alloc s) (Some res) owner True s)))"
proof (cases "cs_up s")
  case True
  let ?cs = "cs_claims s"
  have d: "distinct (map cl_at ?cs)" using ok by (simp add: claims_ok_def)
  show ?thesis
  proof (cases "find (\<lambda>c. cl_owner c = owner \<and> cl_name c = res \<and> cl_reserved c) ?cs")
    case (Some c)
    then have c: "c \<in> set ?cs" "cl_reserved c" by (auto simp: find_Some_iff)
    then have "counted H c" "cl_exclusive c \<longrightarrow> sole c ?cs" using ok by (simp_all add: claims_ok_def)
    then have "claims_ok H (upd_claim (cl_at c) (\<lambda>c. c\<lparr>cl_exclusive := (cl_exclusive c \<or> True)\<rparr>) ?cs)"
      using c ok by (intro ok_upd [OF ok]) (auto simp: counted_def claims_ok_def)
    then show ?thesis using True Some by (simp add: rv9_claim_reserve_def)
  next
    case None
    obtain cs r where t: "take_locked (fresh alloc s) res owner True ?cs = (cs, r)" by (metis surj_pair)
    have unused: "\<And>a. fresh alloc s = Some a \<Longrightarrow> a \<notin> cl_at ` set ?cs" by (rule fresh_unused)
    note taken = ok_take [OF ok t fits unused few]
    show ?thesis
    proof (cases r)
      case (Inl e)
      then show ?thesis using True None t taken ok by (simp add: rv9_claim_reserve_def)
    next
      case (Inr a)
      then obtain c where ok': "claims_ok (a # H) cs" and c: "c \<in> set cs" "cl_at c = a" "cl_name c = res" "cl_owner c = owner" "cl_exclusive c"
        using taken by auto
      have new: "\<not> cl_reserved c"
      proof
        assume res: "cl_reserved c"
        show False
        proof (cases "take_scan res owner True None ?cs")
          case (Inr m)
          show False
          proof (cases m)
            case None
            have scan: "take_scan res owner True None ?cs = Inr None" using Inr \<open>m = None\<close> by simp
            obtain b where b: "fresh alloc s = Some b"
              using t \<open>r = Inr a\<close> unfolding take_locked_def scan by (cases "fresh alloc s") simp_all
            let ?n = "\<lparr>cl_at = b, cl_name = cstr RV9_CLAIM_NAME_MAX res, cl_owner = owner, cl_exclusive = True,
                  cl_reserved = False, cl_refs = 1, cl_failsafe = None\<rparr>"
            have n: "cs = ?n # ?cs" "a = b" using t \<open>r = Inr a\<close> unfolding take_locked_def scan b by auto
            have "c = ?n" by (rule same_claim [OF ok' c(1)]) (simp_all add: n c(2))
            then show False using res by (metis claim.select_convs(5))
          next
            case (Some e)
            have "e \<in> set ?cs" "cl_name e = res" "cl_owner e = owner" using scan_granted [OF Inr] Some by auto
            moreover have "cs = upd_claim (cl_at e) (\<lambda>c. c\<lparr>cl_exclusive := (cl_exclusive c \<or> True), cl_refs := (cl_refs c + 1) mod 65536\<rparr>) ?cs"
              using t Inr Some by (simp add: take_locked_def)
            ultimately show False using c res None unfolding upd_claim_map [OF d] find_None_iff by auto
          qed
        qed (use t \<open>r = Inr a\<close> in \<open>simp add: take_locked_def\<close>)
      qed
      have "counted (a # H) c" "cl_exclusive c \<longrightarrow> sole c cs" "set (a # H) \<subseteq> cl_at ` set cs"
        using ok' c(1) by (simp_all add: claims_ok_def)
      then have "claims_ok H (upd_claim (cl_at c) (\<lambda>c. c\<lparr>cl_reserved := True\<rparr>) cs)"
        using c new by (intro ok_upd [OF ok' c(1)]) (auto simp: counted_def)
      then show ?thesis using True None t Inr c(2) by (simp add: rv9_claim_reserve_def)
    qed
  qed
qed (use ok in \<open>simp add: rv9_claim_reserve_def\<close>)

lemma ok_map:
  assumes "\<And>c. cl_at (g c) = cl_at c" "\<And>c. cl_name (g c) = cl_name c" "\<And>c. cl_owner (g c) = cl_owner c"
    "\<And>c. cl_exclusive (g c) = cl_exclusive c" "\<And>c. counted H (g c) = counted H c"
  shows "claims_ok H (map g cs) = claims_ok H cs"
  by (simp add: claims_ok_def sole_def image_image comp_def assms)

lemma ok_failsafe:
  assumes ok: "claims_ok H (cs_claims s)"
  shows "claims_ok H (cs_claims (fst (rv9_claim_failsafe (Some res) owner v s)))"
proof -
  let ?P = "\<lambda>c. cl_owner c = owner \<and> cl_name c = res" and ?f = "\<lambda>c. c\<lparr>cl_failsafe := Some v\<rparr>"
  have m: "claims_ok H (map (\<lambda>c. if Q c then ?f c else c) cs) = claims_ok H cs" for Q cs
    by (rule ok_map) (simp_all add: counted_def)
  have "distinct (map (\<lambda>c. (cl_name c, cl_owner c)) (cs_claims s))" using ok by (simp add: claims_ok_def)
  from upd_first_map [OF this, of "(res, owner)" ?f]
  have "upd_first ?P ?f (cs_claims s) = map (\<lambda>c. if ?P c then ?f c else c) (cs_claims s)" by (simp add: conj_commute)
  then have "claims_ok H (upd_first ?P ?f (cs_claims s))" using m ok by (simp only:)
  then show ?thesis using ok by (simp add: rv9_claim_failsafe_def)
qed

lemma upd_claim_from: "d \<in> set (upd_claim a f cs) \<Longrightarrow> (\<And>c. cl_at (f c) = cl_at c \<and> cl_owner (f c) = cl_owner c) \<Longrightarrow>
    \<exists>e\<in>set cs. cl_at e = cl_at d \<and> cl_owner e = cl_owner d"
  by (induction cs) (auto simp: upd_claim_def split: if_splits)

lemma drop_from: "d \<in> set (drop_locked a cs) \<Longrightarrow> \<exists>e\<in>set cs. cl_at e = cl_at d \<and> cl_owner e = cl_owner d"
proof (cases "find_claim a cs")
  case (Some c)
  assume "d \<in> set (drop_locked a cs)"
  then consider "d \<in> set cs" | n where "d \<in> set (upd_claim a (\<lambda>c. c\<lparr>cl_refs := n\<rparr>) cs)"
    using Some set_remove1_subset [of c cs] by (auto simp: drop_locked_def Let_def split: if_splits)
  then show ?thesis
  proof cases
    case (2 n)
    then show ?thesis by (rule upd_claim_from) simp
  qed blast
qed (auto simp: drop_locked_def)

lemma release_from: "d \<in> set (foldl (release_one owner) cs as) \<Longrightarrow> \<exists>e\<in>set cs. cl_at e = cl_at d \<and> cl_owner e = cl_owner d"
proof (induction as arbitrary: cs)
  case (Cons a as)
  then obtain e where e: "e \<in> set (release_one owner cs a)" "cl_at e = cl_at d" "cl_owner e = cl_owner d" by fastforce
  show ?case
  proof (cases "e \<in> set cs")
    case False
    then have "e \<in> set (drop_locked a (upd_claim a (\<lambda>c. c\<lparr>cl_reserved := False\<rparr>) cs))"
      using e(1) by (auto simp: release_one_def split: option.splits if_splits)
    then obtain e' where "e' \<in> set (upd_claim a (\<lambda>c. c\<lparr>cl_reserved := False\<rparr>) cs)" "cl_at e' = cl_at e" "cl_owner e' = cl_owner e"
      using drop_from by blast
    then show ?thesis using upd_claim_from [of e' a _ cs] e(2,3) by fastforce
  qed (use e in blast)
qed auto

lemma ok_release_all: "claims_ok H cs \<Longrightarrow> claims_ok H (foldl (release_one owner) cs as) \<and>
    (\<forall>d\<in>set (foldl (release_one owner) cs as). cl_owner d = owner \<and> cl_reserved d \<longrightarrow> cl_at d \<notin> set as \<and> d \<in> set cs)"
proof (induction as arbitrary: cs)
  case (Cons a as)
  note one = ok_release [OF Cons.prems, of owner a]
  note all = Cons.IH [OF conjunct1 [OF one]]
  show ?case using one all by auto
qed simp

lemma ok_step:
  assumes ok: "claims_ok H (cs_claims s)" and fits: "op_fits op" and few: "length H < 65534"
    and step: "claim_step (s, H) op = (s', H')" and up: "cs_up s"
  shows "claims_ok H' (cs_claims s') \<and> length H' \<le> Suc (length H) \<and> cs_up s'"
proof (cases op)
  case (CTake alloc res owner exclusive)
  obtain cs r where t: "take_locked (fresh alloc s) res owner exclusive (cs_claims s) = (cs, r)" by (metis surj_pair)
  have f: "fits res" using fits CTake by simp
  have unused: "\<And>a. fresh alloc s = Some a \<Longrightarrow> a \<notin> cl_at ` set (cs_claims s)" by (rule fresh_unused)
  note taken = ok_take [OF ok t f unused few]
  show ?thesis using step CTake t taken ok up by (cases r) (auto simp: rv9_claim_take_def split: if_splits)
next
  case (CDrop a)
  then show ?thesis using step ok ok_close [OF ok, of a] up by (auto simp: rv9_claim_drop_def length_remove1 split: if_splits)
next
  case (CReserve alloc res owner)
  moreover have "cs_up (fst (rv9_claim_reserve (fresh alloc s) (Some res) owner True s))"
    using up by (auto simp: rv9_claim_reserve_def split: option.splits sum.splits prod.splits)
  ultimately show ?thesis using step ok_reserve [OF ok _ few, of res alloc owner] fits by auto
next
  case (CRelease owner)
  then show ?thesis using step ok ok_release_all [OF ok, of owner] up by (auto simp: rv9_claim_release_pid_def split: if_splits)
next
  case (CFailsafe res owner v)
  moreover have "cs_up (fst (rv9_claim_failsafe (Some res) owner v s))" using up by (auto simp: rv9_claim_failsafe_def)
  ultimately show ?thesis using step ok_failsafe [OF ok] by auto
qed

lemma ok_run:
  assumes "claims_ok H (cs_claims s)" "cs_up s" "list_all op_fits ops" "length H + length ops < 65535" "foldl claim_step (s, H) ops = (s', H')"
  shows "claims_ok H' (cs_claims s') \<and> cs_up s'"
  using assms
proof (induction ops arbitrary: s H)
  case (Cons op ops)
  obtain s1 H1 where 1: "claim_step (s, H) op = (s1, H1)" by (metis surj_pair)
  have "op_fits op" "length H < 65534" using Cons.prems by simp_all
  note one = ok_step [OF Cons.prems(1) this 1 Cons.prems(2)]
  show ?case using one 1 Cons.prems by (intro Cons.IH [of H1 s1]) auto
qed simp

text \<open>C25. From an empty table, after any opens, closes, reservations, ends and failsafes: two owners of
  one resource both share it; a record's count is exactly the opens that hold it and its
  reservation, and a record nobody holds is gone; every handle an open holds is of a live record.
  And when a process ends with nothing open, it owns nothing.\<close>

theorem devices_exclusive:
  assumes "list_all op_fits ops" "length ops < 65535" "foldl claim_step (\<lparr>cs_up = True, cs_claims = []\<rparr>, []) ops = (s, H)"
  shows "(\<forall>c\<in>set (cs_claims s). \<forall>d\<in>set (cs_claims s). cl_name c = cl_name d \<and> cl_owner c \<noteq> cl_owner d \<longrightarrow>
      \<not> cl_exclusive c \<and> \<not> cl_exclusive d) \<and>
    (\<forall>c\<in>set (cs_claims s). cl_refs c = count_list H (cl_at c) + (if cl_reserved c then 1 else 0) \<and> 0 < cl_refs c) \<and>
    set H \<subseteq> cl_at ` set (cs_claims s) \<and>
    (\<forall>owner. (\<forall>c\<in>set (cs_claims s). cl_owner c = owner \<longrightarrow> cl_at c \<notin> set H) \<longrightarrow>
      (\<forall>c\<in>set (cs_claims (rv9_claim_release_pid owner s)). cl_owner c \<noteq> owner))"
proof -
  have ok: "claims_ok H (cs_claims s)" "cs_up s"
    using ok_run [OF _ _ assms(1) _ assms(3)] assms(2) by (auto simp: claims_ok_def)
  have free: "cl_owner c \<noteq> owner"
    if none: "\<forall>c\<in>set (cs_claims s). cl_owner c = owner \<longrightarrow> cl_at c \<notin> set H"
      and c: "c \<in> set (cs_claims (rv9_claim_release_pid owner s))" for owner c
  proof
    assume own: "cl_owner c = owner"
    let ?cs = "foldl (release_one owner) (cs_claims s) (map cl_at (cs_claims s))"
    note rel = ok_release_all [OF ok(1), of owner "map cl_at (cs_claims s)"]
    have c: "c \<in> set ?cs" using c ok(2) by (simp add: rv9_claim_release_pid_def)
    then have cc: "counted H c" using rel by (simp add: claims_ok_def)
    have "\<not> cl_reserved c" using rel c own by auto
    then have "count_list H (cl_at c) > 0" using cc by (simp add: counted_def)
    then have h: "cl_at c \<in> set H" using count_notin by force
    obtain d where "d \<in> set (cs_claims s)" "cl_at d = cl_at c" "cl_owner d = owner" using release_from [OF c] own by blast
    then show False using none h by auto
  qed
  have "\<not> cl_exclusive c \<and> \<not> cl_exclusive d"
    if "c \<in> set (cs_claims s)" "d \<in> set (cs_claims s)" "cl_name c = cl_name d" "cl_owner c \<noteq> cl_owner d" for c d
    using ok(1) that unfolding claims_ok_def sole_def by metis
  moreover have "cl_refs c = count_list H (cl_at c) + (if cl_reserved c then 1 else 0) \<and> 0 < cl_refs c"
    if "c \<in> set (cs_claims s)" for c
  proof -
    have "counted H c" using ok(1) that by (simp add: claims_ok_def)
    then show ?thesis by (auto simp: counted_def)
  qed
  moreover have "set H \<subseteq> cl_at ` set (cs_claims s)" using ok(1) by (simp add: claims_ok_def)
  ultimately show ?thesis using free by blast
qed


theorem devices_exclusive_witness:
  "let (s, H) = foldl claim_step (\<lparr>cs_up = True, cs_claims = []\<rparr>, [])
       [CReserve (Some 16) ''/pwm0/3'' 7, CTake (Some 32) ''/pwm0/3'' 9 False, CTake (Some 48) ''/term'' 9 False,
        CTake (Some 64) ''/term'' 7 False]
   in map (\<lambda>c. (cl_name c, cl_owner c, cl_exclusive c, cl_refs c)) (cs_claims s) =
        [(''/term'', 7, False, 1), (''/term'', 9, False, 1), (''/pwm0/3'', 7, True, 1)] \<and> H = [64, 48] \<and>
      set H \<subseteq> cl_at ` set (cs_claims s)"
proof -
  let ?ops = "[CReserve (Some 16) ''/pwm0/3'' 7, CTake (Some 32) ''/pwm0/3'' 9 False, CTake (Some 48) ''/term'' 9 False,
        CTake (Some 64) ''/term'' 7 False]"
  obtain s H where r: "foldl claim_step (\<lparr>cs_up = True, cs_claims = []\<rparr>, []) ?ops = (s, H)" by (metis surj_pair)
  have "list_all op_fits ?ops" by (simp add: fits_def RV9_CLAIM_NAME_MAX_def)
  then have "set H \<subseteq> cl_at ` set (cs_claims s)" using devices_exclusive [OF _ _ r] by simp
  moreover have "map (\<lambda>c. (cl_name c, cl_owner c, cl_exclusive c, cl_refs c)) (cs_claims s) =
        [(''/term'', 7, False, 1), (''/term'', 9, False, 1), (''/pwm0/3'', 7, True, 1)] \<and> H = [64, 48]"
    using r by (simp add: fresh_def find_claim_def rv9_claim_reserve_def rv9_claim_take_def take_locked_def upd_claim_def
        cstr_def RV9_CLAIM_NAME_MAX_def) (auto simp: cstr_def RV9_CLAIM_NAME_MAX_def)
  ultimately show ?thesis unfolding r by simp
qed

end
