(* ===== verification/Pipes.thy ===== *)
theory Pipes
  imports Claims
begin

text \<open>
  The pipe file manager (components/rv9_io/src/pipefm.c): named rings of bytes in a store its
  driver lends. A pointer to a pipe is its index in the device's table. A read or a write is
  a loop that sleeps between looks at the pipe; one look, made with the device's lock held,
  is one definition (\<open>pipe_read_turn\<close>, \<open>pipe_write_turn\<close>) and looks of different callers
  interleave freely. \<open>cancelled\<close> is \<open>rv9_task_cancelled\<close>.
\<close>

section \<open>Pipes, the device, and a path to a pipe\<close>

definition PIPE_NAME_MAX :: nat where "PIPE_NAME_MAX = 16"
definition RV9_MODE_READ :: u32 where "RV9_MODE_READ = 1"
definition RV9_MODE_WRITE :: u32 where "RV9_MODE_WRITE = 2"
definition RV9_MODE_CREATE :: u32 where "RV9_MODE_CREATE = 4"
definition RV9_MODE_EXCL :: u32 where "RV9_MODE_EXCL = 8"
definition RV9_GS_READY :: nat where "RV9_GS_READY = 3"

text \<open>\<open>sizeof(pipe_t)\<close> on a 32-bit core.\<close>

definition sizeof_pipe :: nat where "sizeof_pipe = 52"

record pipe =
  pi_name :: string
  pi_in_use :: bool
  pi_head :: nat
  pi_tail :: nat
  pi_count :: nat
  pi_capacity :: nat
  pi_readers :: nat
  pi_writers :: nat
  pi_seen_writer :: bool
  pi_warned :: bool
  pi_data :: "8 word list"

record pipe_dev =
  pd_pipes :: "pipe list"
  pd_capacity :: nat

record pipe_path =
  pp_pipe :: nat
  pp_reading :: bool
  pp_writing :: bool

definition pipe_at :: "pipe_dev \<Rightarrow> nat \<Rightarrow> pipe" where
  "pipe_at d i = pd_pipes d ! i"

definition upd_pipe :: "nat \<Rightarrow> (pipe \<Rightarrow> pipe) \<Rightarrow> pipe_dev \<Rightarrow> pipe_dev" where
  "upd_pipe i f d = d\<lparr>pd_pipes := (pd_pipes d)[i := f (pd_pipes d ! i)]\<rparr>"

text \<open>\<open>memcpy (dst + i, bs, length bs)\<close>.\<close>

definition memcpy_at :: "nat \<Rightarrow> 'a list \<Rightarrow> 'a list \<Rightarrow> 'a list" where
  "memcpy_at i bs dst = take i dst @ bs @ drop (i + length bs) dst"

section \<open>Mounting\<close>

text \<open>\<open>arena\<close>: the driver's answer, None when it has no store to lend, else its error, whether a
  base came with it, and the size. \<open>store\<close> is what the lent memory holds.\<close>

definition pipe_mount ::
  "(io_err \<times> bool \<times> nat) option \<Rightarrow> 8 word list \<Rightarrow> nat \<Rightarrow> nat \<Rightarrow> bool \<Rightarrow> bool \<Rightarrow> io_err + pipe_dev" where
  "pipe_mount arena store opt0 opt1 room lock_made =
     (case arena of
        None \<Rightarrow> Inl RV9_IO_ERR_UNSUPPORTED
      | Some (e, based, sz) \<Rightarrow>
          let bytes = (if opt0 \<noteq> 0 then opt0 else 256);
              count = (if opt1 \<noteq> 0 then opt1 else 4);
              need = cast32 (cast32 (count * sizeof_pipe) + cast32 (count * bytes))
          in if e \<noteq> RV9_IO_OK \<or> \<not> based then Inl RV9_IO_ERR_IO
             else if need > sz then Inl RV9_IO_ERR_NOMEM
             else if \<not> room \<or> \<not> lock_made then Inl RV9_IO_ERR_NOMEM
             else Inr \<lparr>pd_pipes = map (\<lambda>i. \<lparr>pi_name = [], pi_in_use = False, pi_head = 0, pi_tail = 0, pi_count = 0,
                      pi_capacity = bytes, pi_readers = 0, pi_writers = 0, pi_seen_writer = False, pi_warned = False,
                      pi_data = take bytes (drop (count * sizeof_pipe + i * bytes) store)\<rparr>) [0..<count],
                    pd_capacity = bytes\<rparr>)"

section \<open>Opening and closing\<close>

definition find_pipe :: "string \<Rightarrow> pipe_dev \<Rightarrow> nat option" where
  "find_pipe name d = find_index (\<lambda>p. pi_in_use p \<and> pi_name p = name) (pd_pipes d)"

definition make_pipe :: "string \<Rightarrow> pipe_dev \<Rightarrow> (pipe_dev \<times> nat) option" where
  "make_pipe name d =
     (case find_index (\<lambda>p. \<not> pi_in_use p) (pd_pipes d) of
        None \<Rightarrow> None
      | Some i \<Rightarrow>
          Some (upd_pipe i (\<lambda>p. p\<lparr>pi_name := cstr PIPE_NAME_MAX name, pi_in_use := True, pi_head := 0, pi_tail := 0,
                  pi_count := 0, pi_readers := 0, pi_writers := 0, pi_seen_writer := False\<rparr>) d, i))"

definition attach_path :: "pipe_path \<Rightarrow> pipe \<Rightarrow> pipe" where
  "attach_path st p =
     p\<lparr>pi_readers := (if pp_reading st then cast32 (pi_readers p + 1) else pi_readers p),
       pi_writers := (if pp_writing st then cast32 (pi_writers p + 1) else pi_writers p),
       pi_seen_writer := (pp_writing st \<or> pi_seen_writer p)\<rparr>"

definition pipe_open :: "bool \<Rightarrow> u32 \<Rightarrow> string option \<Rightarrow> pipe_dev \<Rightarrow> pipe_dev \<times> (io_err + pipe_path)" where
  "pipe_open room mode rest d =
     (case rest of
        None \<Rightarrow> (d, Inl RV9_IO_ERR_INVAL)
      | Some name \<Rightarrow>
          if name = [] then (d, Inl RV9_IO_ERR_INVAL)
          else if length name \<ge> PIPE_NAME_MAX then (d, Inl RV9_IO_ERR_INVAL)
          else if \<not> room then (d, Inl RV9_IO_ERR_NOMEM)
          else
            (case (case find_pipe name d of Some i \<Rightarrow> Some (d, i) | None \<Rightarrow> make_pipe name d) of
               None \<Rightarrow> (d, Inl RV9_IO_ERR_NOPATHS)
             | Some (d1, i) \<Rightarrow>
                 let st = \<lparr>pp_pipe = i, pp_reading = (mode AND RV9_MODE_READ \<noteq> 0),
                           pp_writing = (mode AND RV9_MODE_WRITE \<noteq> 0)\<rparr>
                 in if \<not> pp_reading st \<and> \<not> pp_writing st then (d1, Inl RV9_IO_ERR_MODE)
                    else (upd_pipe i (attach_path st) d1, Inr st)))"

definition detach_path :: "pipe_path \<Rightarrow> pipe \<Rightarrow> pipe" where
  "detach_path st p =
     (let r = (if pp_reading st \<and> pi_readers p > 0 then pi_readers p - 1 else pi_readers p);
          w = (if pp_writing st \<and> pi_writers p > 0 then pi_writers p - 1 else pi_writers p);
          p1 = p\<lparr>pi_readers := r, pi_writers := w\<rparr>
      in if r = 0 \<and> w = 0
         then p1\<lparr>pi_in_use := False, pi_seen_writer := False, pi_warned := False,
                 pi_head := 0, pi_tail := 0, pi_count := 0\<rparr>
         else p1)"

definition pipe_close :: "pipe_path option \<Rightarrow> pipe_dev \<Rightarrow> pipe_dev" where
  "pipe_close st d = (case st of None \<Rightarrow> d | Some s \<Rightarrow> upd_pipe (pp_pipe s) (detach_path s) d)"

section \<open>Reading and writing\<close>

datatype 'a io_turn = Finish io_err 'a | Sleep 'a

text \<open>The ring: \<open>n\<close> bytes out, and bytes in, up to the end of the buffer and then from its start.\<close>

definition ring_out :: "nat \<Rightarrow> pipe \<Rightarrow> 8 word list" where
  "ring_out n p =
     (let first = min (pi_capacity p - pi_head p) n
      in take first (drop (pi_head p) (pi_data p)) @ (if n > first then take (n - first) (pi_data p) else []))"

definition ring_in :: "8 word list \<Rightarrow> pipe \<Rightarrow> 8 word list" where
  "ring_in bs p =
     (let first = min (pi_capacity p - pi_tail p) (length bs);
          dat = memcpy_at (pi_tail p) (take first bs) (pi_data p)
      in if length bs > first then memcpy_at 0 (drop first bs) dat else dat)"

definition take_bytes :: "nat \<Rightarrow> pipe \<Rightarrow> pipe" where
  "take_bytes n p = p\<lparr>pi_head := (pi_head p + n) mod pi_capacity p, pi_count := pi_count p - n\<rparr>"

definition put_bytes :: "8 word list \<Rightarrow> pipe \<Rightarrow> pipe" where
  "put_bytes bs p = p\<lparr>pi_data := ring_in bs p, pi_tail := (pi_tail p + length bs) mod pi_capacity p,
                      pi_count := pi_count p + length bs\<rparr>"

definition finished :: "pipe \<Rightarrow> bool" where
  "finished p \<longleftrightarrow> pi_writers p = 0 \<and> pi_seen_writer p"

definition pipe_read_turn :: "bool \<Rightarrow> pipe_path \<Rightarrow> nat \<Rightarrow> pipe_dev \<Rightarrow> pipe_dev \<times> 8 word list io_turn" where
  "pipe_read_turn cancelled st len d =
     (let p = pipe_at d (pp_pipe st); n = min (pi_count p) len in
      if pi_count p > 0 then (upd_pipe (pp_pipe st) (take_bytes n) d, Finish RV9_IO_OK (ring_out n p))
      else if finished p then (d, Finish RV9_IO_OK [])
      else if cancelled then (d, Finish RV9_IO_ERR_IO [])
      else (d, Sleep []))"

text \<open>Before the loop.\<close>

definition pipe_read_check :: "pipe_path option \<Rightarrow> bool \<Rightarrow> nat \<Rightarrow> io_err option" where
  "pipe_read_check st buf len =
     (case st of
        None \<Rightarrow> Some RV9_IO_ERR_INVAL
      | Some s \<Rightarrow> if \<not> buf then Some RV9_IO_ERR_INVAL
                 else if \<not> pp_reading s then Some RV9_IO_ERR_MODE
                 else if len = 0 then Some RV9_IO_OK else None)"

definition pipe_write_check :: "pipe_path option \<Rightarrow> bool \<Rightarrow> nat \<Rightarrow> io_err option" where
  "pipe_write_check st buf len =
     (case st of
        None \<Rightarrow> Some RV9_IO_ERR_INVAL
      | Some s \<Rightarrow> if \<not> buf then Some RV9_IO_ERR_INVAL
                 else if \<not> pp_writing s then Some RV9_IO_ERR_MODE
                 else if len = 0 then Some RV9_IO_OK else None)"

text \<open>A turn with what is left to write; its answer is how much of it was taken. \<open>Sleep n\<close> asks for
  another turn, after a sleep when \<open>n\<close> is 0.\<close>

definition pipe_write_turn :: "bool \<Rightarrow> pipe_path \<Rightarrow> 8 word list \<Rightarrow> pipe_dev \<Rightarrow> pipe_dev \<times> nat io_turn" where
  "pipe_write_turn cancelled st bs d =
     (let p = pipe_at d (pp_pipe st); n = min (length bs) (pi_capacity p - pi_count p) in
      if bs = [] then (d, Finish RV9_IO_OK 0)
      else if pi_capacity p - pi_count p > 0
      then (upd_pipe (pp_pipe st) (put_bytes (take n bs)) d, Sleep n)
      else if \<not> pi_readers p > 0
      then (upd_pipe (pp_pipe st) (\<lambda>p. p\<lparr>pi_warned := True\<rparr>) d, Finish RV9_IO_ERR_IO 0)
      else if cancelled then (d, Finish RV9_IO_ERR_IO 0)
      else (d, Sleep 0))"

definition pipe_seek :: "int \<Rightarrow> nat \<Rightarrow> io_err" where
  "pipe_seek offset whence = RV9_IO_ERR_UNSUPPORTED"

definition pipe_getstat :: "pipe_path option \<Rightarrow> nat \<Rightarrow> bool \<Rightarrow> pipe_dev \<Rightarrow> io_err + nat" where
  "pipe_getstat st code arg d =
     (case st of
        None \<Rightarrow> Inl RV9_IO_ERR_INVAL
      | Some s \<Rightarrow>
          if \<not> arg then Inl RV9_IO_ERR_INVAL
          else if code = RV9_GS_READY
          then Inr (if pi_count (pipe_at d (pp_pipe s)) > 0 \<or> finished (pipe_at d (pp_pipe s)) then 1 else 0)
          else Inl RV9_IO_ERR_UNSUPPORTED)"

section \<open>A stream of bytes\<close>

text \<open>The contract of a buffer that takes and gives bytes in pieces, and what any sequence of
  pieces delivers.\<close>

locale byte_stream =
  fixes ok :: "'s \<Rightarrow> bool"
    and content :: "'s \<Rightarrow> 'a list"
    and room :: "'s \<Rightarrow> nat"
    and put :: "'a list \<Rightarrow> 's \<Rightarrow> 's"
    and get :: "nat \<Rightarrow> 's \<Rightarrow> 's"
    and front :: "nat \<Rightarrow> 's \<Rightarrow> 'a list"
  assumes put_content: "ok s \<Longrightarrow> length bs \<le> room s \<Longrightarrow> ok (put bs s) \<and> content (put bs s) = content s @ bs"
    and get_content: "ok s \<Longrightarrow> n \<le> length (content s) \<Longrightarrow>
      ok (get n s) \<and> front n s = take n (content s) \<and> content (get n s) = drop n (content s)"
begin

fun feed :: "('a list + nat) list \<Rightarrow> 's \<Rightarrow> 's \<times> 'a list \<times> 'a list" where
  "feed [] s = (s, [], [])"
| "feed (Inl bs # es) s =
     (let xs = take (room s) bs; (t, ins, outs) = feed es (put xs s) in (t, xs @ ins, outs))"
| "feed (Inr n # es) s =
     (let k = min n (length (content s)); (t, ins, outs) = feed es (get k s) in (t, ins, front k s @ outs))"

lemma feed_stream: "ok s \<Longrightarrow> feed es s = (t, ins, outs) \<Longrightarrow> ok t \<and> content s @ ins = outs @ content t"
proof (induction es s arbitrary: t ins outs rule: feed.induct)
  case (2 bs es s)
  let ?xs = "take (room s) bs"
  obtain i where f: "feed es (put ?xs s) = (t, i, outs)" "ins = ?xs @ i" using 2(3) by (auto simp: Let_def split: prod.splits)
  have p: "ok (put ?xs s) \<and> content (put ?xs s) = content s @ ?xs" using 2(2) by (intro put_content) simp_all
  show ?case using 2(1) [OF refl _ f(1)] p f(2) by simp
next
  case (3 n es s)
  let ?k = "min n (length (content s))"
  obtain u where f: "feed es (get ?k s) = (t, ins, u)" "outs = front ?k s @ u" using 3(3) by (auto simp: Let_def split: prod.splits)
  have p: "ok (get ?k s) \<and> front ?k s = take ?k (content s) \<and> content (get ?k s) = drop ?k (content s)"
    using 3(2) by (intro get_content) simp_all
  then have "content s = front ?k s @ content (get ?k s)" by (metis append_take_drop_id)
  moreover have "ok t" "content (get ?k s) @ ins = u @ content t" using 3(1) [OF refl _ f(1)] p by simp_all
  ultimately show ?case using f(2) by (metis append.assoc)
qed simp

end

end
