(* ===== verification/PipeProps.thy ===== *)
theory PipeProps
  imports Pipes KSync
begin

text \<open>
  Pipes as streams: nothing written is lost, doubled or reordered, whatever the turns of readers
  and writers, and the end of a stream is when its last writer has gone.
\<close>

section \<open>The ring\<close>

definition pipe_ok :: "pipe \<Rightarrow> bool" where
  "pipe_ok p \<longleftrightarrow> 0 < pi_capacity p \<and> length (pi_data p) = pi_capacity p \<and> pi_head p < pi_capacity p \<and>
     pi_count p \<le> pi_capacity p \<and> pi_tail p = (pi_head p + pi_count p) mod pi_capacity p"

definition pipe_bytes :: "pipe \<Rightarrow> 8 word list" where
  "pipe_bytes p = map (\<lambda>i. pi_data p ! ((pi_head p + i) mod pi_capacity p)) [0..<pi_count p]"

definition pipe_room :: "pipe \<Rightarrow> nat" where
  "pipe_room p = pi_capacity p - pi_count p"

lemma length_pipe_bytes [simp]: "length (pipe_bytes p) = pi_count p"
  by (simp add: pipe_bytes_def)

lemma length_memcpy [simp]: "i + length bs \<le> length dst \<Longrightarrow> length (memcpy_at i bs dst) = length dst"
  by (simp add: memcpy_at_def)

lemma memcpy_nth: "i + length bs \<le> length dst \<Longrightarrow> j < length dst \<Longrightarrow>
    memcpy_at i bs dst ! j = (if i \<le> j \<and> j < i + length bs then bs ! (j - i) else dst ! j)"
  by (auto simp: memcpy_at_def nth_append min_def)

lemma mod_once: "h < (n :: nat) \<Longrightarrow> k \<le> n \<Longrightarrow> (h + k) mod n = (if h + k < n then h + k else h + k - n)"
proof (cases "h + k < n")
  case False
  assume "h < n" "k \<le> n"
  then show ?thesis using False by (metis le_add_diff_inverse2 linorder_not_less mod_add_self2 mod_less nat_add_left_cancel_less add_less_le_mono add.commute)
qed simp

lemma ring_out_bytes:
  assumes "pipe_ok p" "n \<le> pi_count p"
  shows "ring_out n p = take n (pipe_bytes p)"
proof (rule nth_equalityI)
  let ?c = "pi_capacity p" and ?h = "pi_head p" and ?f = "min (pi_capacity p - pi_head p) n"
  have ok: "?h < ?c" "length (pi_data p) = ?c" "n \<le> ?c" using assms by (simp_all add: pipe_ok_def)
  have l: "length (take ?f (drop ?h (pi_data p))) = ?f" "n > ?f \<Longrightarrow> length (take (n - ?f) (pi_data p)) = n - ?f" using ok by auto
  show len: "length (ring_out n p) = length (take n (pipe_bytes p))"
    using l assms(2) by (auto simp: ring_out_def Let_def)
  fix i assume "i < length (ring_out n p)"
  then have i: "i < n" using len by simp
  have "ring_out n p ! i = pi_data p ! ((?h + i) mod ?c)"
  proof (cases "i < ?f")
    case True
    then have "i < ?c - ?h" by simp
    then have "?h + i < ?c" by linarith
    then have m: "(?h + i) mod ?c = ?h + i" by (rule mod_less)
    show ?thesis using True ok l by (simp add: ring_out_def Let_def nth_append m)
  next
    case False
    then have f: "?f = ?c - ?h" "n > ?f" using i by auto
    then have "(?h + i) mod ?c = i - ?f" using False ok i mod_once [of ?h ?c i] by auto
    then show ?thesis using False f ok i l by (auto simp: ring_out_def Let_def nth_append)
  qed
  then show "ring_out n p ! i = take n (pipe_bytes p) ! i" using i assms(2) by (simp add: pipe_bytes_def)
qed

lemma ring_in_nth:
  assumes ok: "pipe_ok p" and room: "length bs \<le> pipe_room p" and i: "i \<le> pi_count p + length bs" "i < pi_capacity p"
  shows "ring_in bs p ! ((pi_head p + i) mod pi_capacity p) =
     (if i < pi_count p then pi_data p ! ((pi_head p + i) mod pi_capacity p)
      else if i < pi_count p + length bs then bs ! (i - pi_count p) else pi_data p ! ((pi_head p + i) mod pi_capacity p))"
    and "length (ring_in bs p) = pi_capacity p"
proof -
  let ?c = "pi_capacity p" and ?h = "pi_head p" and ?n = "pi_count p" and ?t = "pi_tail p" and ?l = "length bs"
  let ?f = "min (?c - ?t) ?l" and ?j = "(?h + i) mod ?c"
  have o: "?h < ?c" "length (pi_data p) = ?c" "?n \<le> ?c" "?t = (?h + ?n) mod ?c" "?n + ?l \<le> ?c"
    using ok room by (auto simp: pipe_ok_def pipe_room_def)
  have t: "?t < ?c" using o by simp
  have tt: "?t = (if ?h + ?n < ?c then ?h + ?n else ?h + ?n - ?c)" using mod_once [OF o(1,3)] o(4) by simp
  have jj: "?j = (if ?h + i < ?c then ?h + i else ?h + i - ?c)" using mod_once [OF o(1), of i] i by simp
  have j: "?j < ?c" using o by simp
  define d where "d = memcpy_at ?t (take ?f bs) (pi_data p)"
  have d: "length d = ?c" unfolding d_def using t o(2) by (subst length_memcpy) auto
  have dn: "d ! ?j = (if ?t \<le> ?j \<and> ?j < ?t + ?f then bs ! (?j - ?t) else pi_data p ! ?j)"
      proof -
    have "take ?f bs ! (?j - ?t) = bs ! (?j - ?t)" if "?t \<le> ?j" "?j < ?t + ?f" using that by (intro nth_take) linarith
    then show ?thesis unfolding d_def using t o(2) j by (subst memcpy_nth) auto
  qed
  have "length (drop ?f bs) \<le> length d" using d o(5) by simp
  then have dl: "length (memcpy_at 0 (drop ?f bs) d) = ?c" using d by simp
  then show "length (ring_in bs p) = ?c" unfolding ring_in_def Let_def d_def [symmetric] using d by metis
  have "ring_in bs p ! ?j = (if ?l > ?f \<and> ?j < ?l - ?f then bs ! (?f + ?j) else d ! ?j)"
  proof -
    have "memcpy_at 0 (drop k bs) d ! ?j = (if ?j < ?l - k then bs ! (k + ?j) else d ! ?j)" if "k \<le> ?l" for k
      using d j o(5) that by (subst memcpy_nth) simp_all
    from this [OF min.cobounded2] show ?thesis
      unfolding ring_in_def Let_def d_def [symmetric] by (cases "?l > ?f") (simp_all only: simp_thms if_True if_False)
  qed
  then have at_j: "ring_in bs p ! ?j = (if ?j < ?l - ?f then bs ! (?f + ?j)
      else if ?t \<le> ?j \<and> ?j < ?t + ?f then bs ! (?j - ?t) else pi_data p ! ?j)"
    unfolding dn by auto
  obtain t j f where x: "?t = t" "?j = j" "min (?c - t) ?l = f" by blast
  have w: "t = ?h + ?n \<or> t + ?c = ?h + ?n" "j = ?h + i \<or> j + ?c = ?h + i" "t < ?c" "j < ?c"
    using tt jj t j x by (auto split: if_splits)
  have f: "f \<le> ?l" "f + t \<le> ?c" "f = ?l \<or> f + t = ?c" using x w(3) by auto
  consider "i < ?n" | "?n \<le> i" "i < ?n + ?l" | "?n + ?l \<le> i" by linarith
  then show "ring_in bs p ! ?j = (if i < ?n then pi_data p ! ?j else if i < ?n + ?l then bs ! (i - ?n) else pi_data p ! ?j)"
  proof cases
    case 1
    then have "\<not> (t \<le> j \<and> j < t + f)" "\<not> j < ?l - f" using w f o(1,5) by (elim disjE; linarith)+
    then show ?thesis using 1 at_j unfolding x by auto
  next
    case 2
    have "f + j = i - ?n" if "j < ?l - f" using that 2 w f o(1,5) by (elim disjE; linarith)
    moreover have "t \<le> j" "j < t + f" "j - t = i - ?n" if "\<not> j < ?l - f"
      using that 2 w f o(1,5) by (elim disjE; linarith)+
    ultimately show ?thesis using 2 at_j unfolding x by auto
  next
    case 3
    then have "\<not> (t \<le> j \<and> j < t + f)" "\<not> j < ?l - f" using w f o(1,5) i by (elim disjE; linarith)+
    then show ?thesis using 3 at_j unfolding x by auto
  qed
qed

lemma pipe_get:
  assumes "pipe_ok p" "n \<le> pi_count p"
  shows "pipe_ok (take_bytes n p) \<and> pipe_bytes (take_bytes n p) = drop n (pipe_bytes p)"
proof -
  have e: "((pi_head p + n) mod pi_capacity p + i) mod pi_capacity p = (pi_head p + (n + i)) mod pi_capacity p" for i
    by (simp add: mod_add_left_eq add.assoc)
  have "pipe_bytes (take_bytes n p) = drop n (pipe_bytes p)"
  proof (rule nth_equalityI)
    fix i assume "i < length (pipe_bytes (take_bytes n p))"
    then have "n + i < pi_count p" "i < pi_count p - n" by (simp_all add: take_bytes_def)
    then show "pipe_bytes (take_bytes n p) ! i = drop n (pipe_bytes p) ! i" by (simp add: pipe_bytes_def take_bytes_def e)
  qed (simp add: take_bytes_def)
  then show ?thesis using assms e [of "pi_count p - n"] by (auto simp: pipe_ok_def take_bytes_def)
qed

lemma pipe_put:
  assumes "pipe_ok p" "length bs \<le> pipe_room p"
  shows "pipe_ok (put_bytes bs p) \<and> pipe_bytes (put_bytes bs p) = pipe_bytes p @ bs"
proof
  have c: "pi_count p + length bs \<le> pi_capacity p" "0 < pi_capacity p" using assms by (auto simp: pipe_room_def pipe_ok_def)
  have "length (ring_in bs p) = pi_capacity p" using ring_in_nth(2) [OF assms, of 0] c by simp
  then show "pipe_ok (put_bytes bs p)" using assms(1) c by (simp add: pipe_ok_def put_bytes_def mod_add_left_eq add.assoc)
  show "pipe_bytes (put_bytes bs p) = pipe_bytes p @ bs"
  proof (rule nth_equalityI)
    fix i assume "i < length (pipe_bytes (put_bytes bs p))"
    then have i: "i < pi_count p + length bs" by (simp add: pipe_bytes_def put_bytes_def)
    then show "pipe_bytes (put_bytes bs p) ! i = (pipe_bytes p @ bs) ! i"
      using ring_in_nth(1) [OF assms, of i] c by (auto simp: pipe_bytes_def put_bytes_def nth_append)
  qed (simp add: put_bytes_def)
qed

interpretation ring: byte_stream pipe_ok pipe_bytes pipe_room put_bytes take_bytes ring_out
  by unfold_locales (use pipe_put pipe_get ring_out_bytes in simp_all)


section \<open>The device\<close>

text \<open>Which of the open paths are on a pipe, and at which end; \<open>G\<close> keeps, of each pipe since it was made, what
  went into it and out of it, and whether any open of it asked to write. None of that is the code's: it
  is what the callers have seen.\<close>

definition on_end :: "(pipe_path \<Rightarrow> bool) \<Rightarrow> nat \<Rightarrow> pipe_path list \<Rightarrow> nat" where
  "on_end f i P = length (filter (\<lambda>st. pp_pipe st = i \<and> f st) P)"

record pipe_past =
  went_in :: "8 word list"
  went_out :: "8 word list"
  had_writer :: bool

definition no_past :: pipe_past where
  "no_past = \<lparr>went_in = [], went_out = [], had_writer = False\<rparr>"

definition opened_for :: "bool \<Rightarrow> pipe_past \<Rightarrow> pipe_past" where
  "opened_for w g = g\<lparr>had_writer := w \<or> had_writer g\<rparr>"

type_synonym history = "nat \<Rightarrow> pipe_past"

definition pipe_law :: "pipe_path list \<Rightarrow> pipe_past \<Rightarrow> nat \<Rightarrow> pipe \<Rightarrow> bool" where
  "pipe_law P g i p \<longleftrightarrow>
     pipe_ok p \<and> pi_readers p = on_end pp_reading i P \<and> pi_writers p = on_end pp_writing i P \<and>
     pi_in_use p = (pi_readers p > 0 \<or> pi_writers p > 0) \<and>
     (pi_in_use p \<longrightarrow> went_in g = went_out g @ pipe_bytes p \<and> pi_seen_writer p = had_writer g \<and> (pi_writers p > 0 \<or> went_in g \<noteq> [] \<longrightarrow> had_writer g))"

definition pipes_ok :: "pipe_dev \<times> pipe_path list \<times> history \<Rightarrow> bool" where
  "pipes_ok s = (case s of (d, P, G) \<Rightarrow>
     (\<forall>i<length (pd_pipes d). pipe_law P (G i) i (pipe_at d i)) \<and>
     (\<forall>i<length (pd_pipes d). \<forall>j<length (pd_pipes d). pi_in_use (pipe_at d i) \<and> pi_in_use (pipe_at d j) \<and>
        pi_name (pipe_at d i) = pi_name (pipe_at d j) \<longrightarrow> i = j) \<and>
     (\<forall>st\<in>set P. pp_pipe st < length (pd_pipes d) \<and> (pp_reading st \<or> pp_writing st)))"

text \<open>What callers do: open, close the \<open>k\<close>-th path they hold, or make one turn of a transfer.\<close>

datatype pipe_op =
    POpen bool u32 string
  | PClose nat
  | PRead bool nat nat
  | PWrite bool nat "8 word list"

fun pipe_step :: "pipe_dev \<times> pipe_path list \<times> history \<Rightarrow> pipe_op \<Rightarrow> pipe_dev \<times> pipe_path list \<times> history" where
  "pipe_step (d, P, G) (POpen room mode name) =
     (case pipe_open room mode (Some name) d of
        (d', Inr st) \<Rightarrow> (d', P @ [st], G(pp_pipe st := opened_for (mode AND RV9_MODE_WRITE \<noteq> 0)
                                  (if pi_in_use (pipe_at d (pp_pipe st)) then G (pp_pipe st) else no_past)))
      | (d', Inl e) \<Rightarrow> (d', P, G))"
| "pipe_step (d, P, G) (PClose k) =
     (if k < length P then (pipe_close (Some (P ! k)) d, take k P @ drop (Suc k) P, G) else (d, P, G))"
| "pipe_step (d, P, G) (PRead cancelled k len) =
     (if k < length P \<and> pipe_read_check (Some (P ! k)) True len = None
      then (case pipe_read_turn cancelled (P ! k) len d of
          (d', Finish e bs) \<Rightarrow> (d', P, G(pp_pipe (P ! k) := (G (pp_pipe (P ! k)))\<lparr>went_out := went_out (G (pp_pipe (P ! k))) @ bs\<rparr>))
        | (d', Sleep bs) \<Rightarrow> (d', P, G))
      else (d, P, G))"
| "pipe_step (d, P, G) (PWrite cancelled k bs) =
     (if k < length P \<and> pipe_write_check (Some (P ! k)) True (length bs) = None
      then (case pipe_write_turn cancelled (P ! k) bs d of
          (d', Sleep n) \<Rightarrow> (d', P, G(pp_pipe (P ! k) := (G (pp_pipe (P ! k)))\<lparr>went_in := went_in (G (pp_pipe (P ! k))) @ take n bs\<rparr>))
        | (d', Finish e n) \<Rightarrow> (d', P, G))
      else (d, P, G))"

text \<open>An open that asks for neither end makes a pipe and leaves it; the I/O manager refuses those.\<close>

fun asks_end :: "pipe_op \<Rightarrow> bool" where
  "asks_end (POpen room mode name) =
     ((mode AND RV9_MODE_READ \<noteq> 0 \<or> mode AND RV9_MODE_WRITE \<noteq> 0) \<and> CHR 0x00 \<notin> set name)"
| "asks_end op = True"

lemma pipe_at_upd [simp]: "j < length (pd_pipes d) \<Longrightarrow> pipe_at (upd_pipe i f d) j = (if i = j then f (pipe_at d j) else pipe_at d j)"
  by (simp add: pipe_at_def upd_pipe_def nth_list_update)

lemma length_upd_pipe [simp]: "length (pd_pipes (upd_pipe i f d)) = length (pd_pipes d)"
  by (simp add: upd_pipe_def)

text \<open>A step that touches one pipe and keeps its name and the paths.\<close>

lemma pipe_one_ok:
  assumes "pipes_ok (d, P, G)" "i < length (pd_pipes d)" "pipe_law P g i (f (pipe_at d i))"
    "pi_in_use (f (pipe_at d i)) = pi_in_use (pipe_at d i)" "pi_name (f (pipe_at d i)) = pi_name (pipe_at d i)"
  shows "pipes_ok (upd_pipe i f d, P, G(i := g))"
proof -
  have "pi_in_use (pipe_at (upd_pipe i f d) j) = pi_in_use (pipe_at d j)" "pi_name (pipe_at (upd_pipe i f d) j) = pi_name (pipe_at d j)"
    if "j < length (pd_pipes d)" for j
    using that assms(4,5) by auto
  then show ?thesis using assms(1-3) by (simp add: pipes_ok_def)
qed


lemma on_end_append: "on_end f i (P @ [st]) = on_end f i P + (if pp_pipe st = i \<and> f st then 1 else 0)"
  by (simp add: on_end_def)

lemma on_end_remove:
  assumes "k < length P"
  shows "on_end f i P = on_end f i (take k P @ drop (Suc k) P) + (if pp_pipe (P ! k) = i \<and> f (P ! k) then 1 else 0)"
proof -
  have "P = take k P @ P ! k # drop (Suc k) P" using assms by (simp add: id_take_nth_drop)
  then have "on_end f i P = on_end f i (take k P @ P ! k # drop (Suc k) P)" by simp
  then show ?thesis by (simp add: on_end_def)
qed

lemma on_end_le: "on_end f i P \<le> length P"
  by (simp add: on_end_def)

lemma on_end_pos: "k < length P \<Longrightarrow> f (P ! k) \<Longrightarrow> 0 < on_end f (pp_pipe (P ! k)) P"
  by (auto simp: on_end_def filter_empty_conv)

text \<open>A path on a pipe keeps it in use.\<close>

lemma path_in_use:
  assumes "pipes_ok (d, P, G)" "k < length P"
  shows "pp_pipe (P ! k) < length (pd_pipes d) \<and> pipe_law P (G (pp_pipe (P ! k))) (pp_pipe (P ! k)) (pipe_at d (pp_pipe (P ! k))) \<and>
    pi_in_use (pipe_at d (pp_pipe (P ! k)))"
proof -
  let ?st = "P ! k"
  have st: "pp_pipe ?st < length (pd_pipes d)" "pp_reading ?st \<or> pp_writing ?st" using assms by (auto simp: pipes_ok_def)
  then have law: "pipe_law P (G (pp_pipe ?st)) (pp_pipe ?st) (pipe_at d (pp_pipe ?st))" using assms(1) by (simp add: pipes_ok_def)
  then show ?thesis using st on_end_pos [OF assms(2), of pp_reading] on_end_pos [OF assms(2), of pp_writing] by (auto simp: pipe_law_def)
qed

lemma pipe_read_ok:
  assumes ok: "pipes_ok (d, P, G)" and k: "k < length P" and check: "pipe_read_check (Some (P ! k)) True len = None"
  shows "pipes_ok (pipe_step (d, P, G) (PRead cancelled k len))"
proof -
  let ?i = "pp_pipe (P ! k)"
  let ?p = "pipe_at d ?i" and ?n = "min (pi_count (pipe_at d (pp_pipe (P ! k)))) len"
  note u = path_in_use [OF ok k]
  show ?thesis
  proof (cases "pi_count ?p > 0")
    case True
    have g: "pipe_ok (take_bytes ?n ?p)" "pipe_bytes (take_bytes ?n ?p) = drop ?n (pipe_bytes ?p)" "ring_out ?n ?p = take ?n (pipe_bytes ?p)"
      using u pipe_get [of ?p ?n] ring_out_bytes [of ?p ?n] by (simp_all add: pipe_law_def)
    have "pipes_ok (upd_pipe ?i (take_bytes ?n) d, P, G(?i := (G ?i)\<lparr>went_out := went_out (G ?i) @ ring_out ?n ?p\<rparr>))"
    proof (rule pipe_one_ok [OF ok conjunct1 [OF u]])
      show "pipe_law P ((G ?i)\<lparr>went_out := went_out (G ?i) @ ring_out ?n ?p\<rparr>) ?i (take_bytes ?n ?p)"
        using u g by (auto simp: pipe_law_def take_bytes_def)
    qed (simp_all add: take_bytes_def)
    then show ?thesis using True k check by (simp add: pipe_read_turn_def Let_def)
  next
    case False
    then show ?thesis using ok k check by (simp add: pipe_read_turn_def Let_def)
  qed
qed

lemma pipe_write_ok:
  assumes ok: "pipes_ok (d, P, G)" and k: "k < length P" and check: "pipe_write_check (Some (P ! k)) True (length bs) = None"
  shows "pipes_ok (pipe_step (d, P, G) (PWrite cancelled k bs))"
proof -
  let ?i = "pp_pipe (P ! k)"
  let ?p = "pipe_at d ?i"
  let ?n = "min (length bs) (pi_capacity ?p - pi_count ?p)"
  note u = path_in_use [OF ok k]
  have w: "pp_writing (P ! k)" "bs \<noteq> []" using check by (auto simp: pipe_write_check_def split: if_splits)
  have law: "pipe_law P (G ?i) ?i ?p" using u by simp
  consider "pi_capacity ?p - pi_count ?p > 0" | "\<not> pi_capacity ?p - pi_count ?p > 0" "\<not> pi_readers ?p > 0"
    | "\<not> pi_capacity ?p - pi_count ?p > 0" "pi_readers ?p > 0" by blast
  then show ?thesis
  proof cases
    case 1
    have g: "pipe_ok (put_bytes (take ?n bs) ?p)" "pipe_bytes (put_bytes (take ?n bs) ?p) = pipe_bytes ?p @ take ?n bs"
      using law pipe_put [of ?p "take ?n bs"] by (simp_all add: pipe_law_def pipe_room_def)
    have "0 < pi_writers ?p" using law on_end_pos [OF k, of pp_writing] w by (simp add: pipe_law_def)
    then have "pipes_ok (upd_pipe ?i (put_bytes (take ?n bs)) d, P, G(?i := (G ?i)\<lparr>went_in := went_in (G ?i) @ take ?n bs\<rparr>))"
      using u g by (intro pipe_one_ok [OF ok conjunct1 [OF u]]) (auto simp: pipe_law_def put_bytes_def)
    then show ?thesis using 1 k check w by (simp add: pipe_write_turn_def Let_def)
  next
    case 2
    have "pipes_ok (upd_pipe ?i (\<lambda>p. p\<lparr>pi_warned := True\<rparr>) d, P, G(?i := G ?i))"
    proof (rule pipe_one_ok [OF ok conjunct1 [OF u]])
      have "pipe_law P g i (p\<lparr>pi_warned := True\<rparr>) = pipe_law P g i p" for g i p
        by (simp add: pipe_law_def pipe_ok_def pipe_bytes_def)
      then show "pipe_law P (G ?i) ?i (?p\<lparr>pi_warned := True\<rparr>)" using law by simp
    qed simp_all
    then show ?thesis using 2 k check w by (simp add: pipe_write_turn_def Let_def)
  next
    case 3
    then show ?thesis using ok k check w by (simp add: pipe_write_turn_def Let_def)
  qed
qed

lemma law_other: "(\<And>f. on_end f i P' = on_end f i P) \<Longrightarrow> pipe_law P' g i p = pipe_law P g i p"
  by (simp add: pipe_law_def)

lemma pipe_close_ok:
  assumes ok: "pipes_ok (d, P, G)"
  shows "pipes_ok (pipe_step (d, P, G) (PClose k))"
proof (cases "k < length P")
  case k: True
  let ?st = "P ! k" and ?P = "take k P @ drop (Suc k) P"
  let ?i = "pp_pipe ?st" and ?d = "pipe_close (Some (P ! k)) d"
  let ?p = "pipe_at d ?i"
  note u = path_in_use [OF ok k]
  have count: "on_end f i P = on_end f i ?P + (if ?i = i \<and> f ?st then 1 else 0)" for f i by (rule on_end_remove [OF k])
  have d: "?d = upd_pipe ?i (detach_path ?st) d" by (simp add: pipe_close_def)
  have rw: "(if pp_reading ?st \<and> pi_readers ?p > 0 then pi_readers ?p - 1 else pi_readers ?p) = on_end pp_reading ?i ?P"
    "(if pp_writing ?st \<and> pi_writers ?p > 0 then pi_writers ?p - 1 else pi_writers ?p) = on_end pp_writing ?i ?P"
    using u count [of pp_reading ?i] count [of pp_writing ?i] by (auto simp: pipe_law_def)
  have new: "pipe_law ?P (G ?i) ?i (detach_path ?st ?p)"
  proof (cases "on_end pp_reading ?i ?P = 0 \<and> on_end pp_writing ?i ?P = 0")
    case True
    then show ?thesis using u unfolding detach_path_def Let_def rw by (simp add: pipe_law_def pipe_ok_def)
  next
    case False
    have "on_end pp_writing ?i ?P > 0 \<longrightarrow> pi_writers ?p > 0" using u count [of pp_writing ?i] by (simp add: pipe_law_def)
    moreover have "pipe_bytes (?p\<lparr>pi_readers := r, pi_writers := w\<rparr>) = pipe_bytes ?p" for r w by (simp add: pipe_bytes_def)
    moreover have "pipe_ok (?p\<lparr>pi_readers := r, pi_writers := w\<rparr>) = pipe_ok ?p" for r w by (simp add: pipe_ok_def)
    ultimately show ?thesis using u False unfolding detach_path_def Let_def rw by (auto simp: pipe_law_def)
  qed
  have law: "pipe_law ?P (G i) i (pipe_at ?d i)" if "i < length (pd_pipes d)" for i
  proof (cases "i = ?i")
    case False
    then have "pipe_law ?P (G i) i (pipe_at d i) = pipe_law P (G i) i (pipe_at d i)"
      using count [of _ i] by (intro law_other) auto
    then show ?thesis using ok that False d by (simp add: pipes_ok_def)
  qed (use new d u in simp)
  have keep: "pi_in_use (pipe_at ?d i) \<longrightarrow> pi_in_use (pipe_at d i)" "pi_name (pipe_at ?d i) = pi_name (pipe_at d i)"
    if "i < length (pd_pipes d)" for i
    using that u unfolding d by (auto simp: detach_path_def Let_def)
  have "set ?P \<subseteq> set P" using set_take_subset [of k P] set_drop_subset [of "Suc k" P] by auto
  then have "\<forall>st\<in>set ?P. pp_pipe st < length (pd_pipes d) \<and> (pp_reading st \<or> pp_writing st)" using ok by (auto simp: pipes_ok_def)
  moreover have "i = j" if "i < length (pd_pipes d)" "j < length (pd_pipes d)" "pi_in_use (pipe_at ?d i)" "pi_in_use (pipe_at ?d j)"
      "pi_name (pipe_at ?d i) = pi_name (pipe_at ?d j)" for i j
    using ok keep that by (simp add: pipes_ok_def)
  moreover have "length (pd_pipes ?d) = length (pd_pipes d)" by (simp add: d)
  ultimately have "pipes_ok (?d, ?P, G)" using law by (simp add: pipes_ok_def)
  then show ?thesis using k by simp
qed (use ok in simp)


lemma pipe_attach_ok:
  assumes "pipes_ok (d, P, G)" "pp_pipe st < length (pd_pipes d)" "pp_reading st \<or> pp_writing st"
    "pipe_law (P @ [st]) g (pp_pipe st) (f (pipe_at d (pp_pipe st)))"
    "\<And>j. j < length (pd_pipes d) \<Longrightarrow> j \<noteq> pp_pipe st \<Longrightarrow> pi_in_use (pipe_at d j) \<Longrightarrow>
       pi_name (pipe_at d j) \<noteq> pi_name (f (pipe_at d (pp_pipe st)))"
  shows "pipes_ok (upd_pipe (pp_pipe st) f d, P @ [st], G(pp_pipe st := g))"
proof -
  let ?d = "upd_pipe (pp_pipe st) f d"
  have "pipe_law (P @ [st]) ((G(pp_pipe st := g)) i) i (pipe_at ?d i)" if i: "i < length (pd_pipes d)" for i
  proof (cases "i = pp_pipe st")
    case False
    then have "pipe_law (P @ [st]) (G i) i (pipe_at d i) = pipe_law P (G i) i (pipe_at d i)"
      by (intro law_other) (simp add: on_end_append)
    then show ?thesis using assms(1) i False by (simp add: pipes_ok_def)
  qed (use assms(2,4) in simp)
  moreover have "i = j" if "i < length (pd_pipes d)" "j < length (pd_pipes d)" "pi_in_use (pipe_at ?d i)" "pi_in_use (pipe_at ?d j)"
      "pi_name (pipe_at ?d i) = pi_name (pipe_at ?d j)" for i j
  proof (cases "i = pp_pipe st \<or> j = pp_pipe st")
    case True
    then show ?thesis using that assms(2) assms(5) [of i] assms(5) [of j] by (cases "i = j") auto
  next
    case False
    then show ?thesis using that assms(1) by (simp add: pipes_ok_def)
  qed
  ultimately show ?thesis using assms(1-3) by (simp add: pipes_ok_def)
qed

lemma upd_pipe_twice: "i < length (pd_pipes d) \<Longrightarrow> upd_pipe i f (upd_pipe i g d) = upd_pipe i (\<lambda>p. f (g p)) d"
  by (simp add: upd_pipe_def)

lemma attach_law:
  assumes "pipe_ok p" "pi_readers p = on_end pp_reading i P" "pi_writers p = on_end pp_writing i P" "pi_in_use p"
    "went_in g = went_out g @ pipe_bytes p" "pi_seen_writer p = had_writer g" "pi_writers p > 0 \<or> went_in g \<noteq> [] \<longrightarrow> had_writer g"
    "pp_pipe st = i" "pp_reading st \<or> pp_writing st" "length P + 1 < W32"
  shows "pipe_law (P @ [st]) (opened_for (pp_writing st) g) i (attach_path st p)"
proof -
  have c: "cast32 (on_end f i P + 1) = on_end f i P + 1" for f using on_end_le [of f i P] assms(10) by (simp add: cast32_def)
  have "pipe_bytes (attach_path st p) = pipe_bytes p" by (simp add: pipe_bytes_def attach_path_def)
  moreover have "pipe_ok (attach_path st p) = pipe_ok p" by (simp add: pipe_ok_def attach_path_def)
  moreover have "pi_readers (attach_path st p) = on_end pp_reading i (P @ [st])" "pi_writers (attach_path st p) = on_end pp_writing i (P @ [st])"
    using assms(2,3,8) c by (simp_all add: attach_path_def on_end_append)
  ultimately show ?thesis using assms by (auto simp: opened_for_def pipe_law_def attach_path_def on_end_append)
qed

lemma find_pipe_at: "find_pipe name d = Some i \<Longrightarrow> i < length (pd_pipes d) \<and> pi_in_use (pipe_at d i) \<and> pi_name (pipe_at d i) = name"
  by (auto simp: find_pipe_def pipe_at_def dest: find_index_Some)

lemma find_pipe_none: "find_pipe name d = None \<Longrightarrow> j < length (pd_pipes d) \<Longrightarrow> pi_in_use (pipe_at d j) \<Longrightarrow> pi_name (pipe_at d j) \<noteq> name"
  by (auto simp: find_pipe_def pipe_at_def find_index_None)

lemma names_differ: "pipes_ok (d, P, G) \<Longrightarrow> i < length (pd_pipes d) \<Longrightarrow> j < length (pd_pipes d) \<Longrightarrow>
    pi_in_use (pipe_at d i) \<Longrightarrow> pi_in_use (pipe_at d j) \<Longrightarrow> i \<noteq> j \<Longrightarrow> pi_name (pipe_at d i) \<noteq> pi_name (pipe_at d j)"
  unfolding pipes_ok_def by blast

lemma pipe_open_ok:
  assumes ok: "pipes_ok (d, P, G)" and asks: "asks_end (POpen room mode name)" and few: "length P + 1 < W32"
  shows "pipes_ok (pipe_step (d, P, G) (POpen room mode name))"
proof (cases "name = [] \<or> length name \<ge> PIPE_NAME_MAX \<or> \<not> room")
  case True
  then show ?thesis using ok by (auto simp: pipe_open_def)
next
  case go: False
  let ?st = "\<lambda>i. \<lparr>pp_pipe = i, pp_reading = (mode AND RV9_MODE_READ \<noteq> 0), pp_writing = (mode AND RV9_MODE_WRITE \<noteq> 0)\<rparr>"
  let ?w = "mode AND RV9_MODE_WRITE \<noteq> 0"
  show ?thesis
  proof (cases "find_pipe name d")
    case (Some i)
    note i = find_pipe_at [OF Some]
    have step: "pipe_step (d, P, G) (POpen room mode name) = (upd_pipe i (attach_path (?st i)) d, P @ [?st i], G(i := opened_for ?w (G i)))"
      using go asks Some i by (auto simp: pipe_open_def Let_def)
    have law: "pipe_law P (G i) i (pipe_at d i)" using ok i by (simp add: pipes_ok_def)
    have "pipe_law (P @ [?st i]) (opened_for (pp_writing (?st i)) (G i)) i (attach_path (?st i) (pipe_at d i))"
    proof (rule attach_law)
      show "0 < pi_writers (pipe_at d i) \<or> went_in (G i) \<noteq> [] \<longrightarrow> had_writer (G i)" using law i by (auto simp: pipe_law_def)
    qed (use law i asks few in \<open>simp_all add: pipe_law_def\<close>)
    then have att: "pipe_law (P @ [?st i]) (opened_for ?w (G i)) i (attach_path (?st i) (pipe_at d i))" by simp
    have only: "pi_name (pipe_at d j) \<noteq> pi_name (attach_path (?st i) (pipe_at d i))"
      if "j < length (pd_pipes d)" "j \<noteq> i" "pi_in_use (pipe_at d j)" for j
      using names_differ [OF ok that(1) _ that(3), of i] that(2) i by (simp add: attach_path_def)
    have "pipes_ok (upd_pipe i (attach_path (?st i)) d, P @ [?st i], G(i := opened_for ?w (G i)))"
      using pipe_attach_ok [OF ok, of "?st i" "opened_for ?w (G i)" "attach_path (?st i)"] att only i asks by simp
    then show ?thesis by (simp only: step)
  next
    case none: None
    show ?thesis
    proof (cases "make_pipe name d")
      case None
      then show ?thesis using go none ok by (simp add: pipe_open_def)
    next
      case (Some x)
      let ?m = "\<lambda>p. p\<lparr>pi_name := cstr PIPE_NAME_MAX name, pi_in_use := True, pi_head := 0, pi_tail := 0,
                  pi_count := 0, pi_readers := 0, pi_writers := 0, pi_seen_writer := False\<rparr>"
      obtain i where x: "x = (upd_pipe i ?m d, i)" "i < length (pd_pipes d)" "\<not> pi_in_use (pipe_at d i)"
        using Some by (auto simp: make_pipe_def pipe_at_def split: option.splits dest: find_index_Some)
      let ?f = "\<lambda>p. attach_path (?st i) (?m p)"
      have step: "pipe_step (d, P, G) (POpen room mode name) = (upd_pipe i ?f d, P @ [?st i], G(i := opened_for ?w no_past))"
        using go asks Some none x upd_pipe_twice [OF x(2)] by (auto simp: pipe_open_def Let_def)
      have law: "pipe_law P (G i) i (pipe_at d i)" using ok x(2) by (simp add: pipes_ok_def)
      have nul: "cstr PIPE_NAME_MAX name = name"
      proof -
        have "takeWhile (\<lambda>c. c \<noteq> CHR 0x00) name = name" using asks by (auto simp: takeWhile_eq_all_conv)
        moreover have "length name \<le> PIPE_NAME_MAX - 1" using go by linarith
        ultimately show ?thesis unfolding cstr_def by (metis take_all)
      qed
      have "pipe_law (P @ [?st i]) (opened_for (pp_writing (?st i)) no_past) i (?f (pipe_at d i))"
        by (rule attach_law) (use law x asks few in \<open>auto simp: pipe_law_def pipe_ok_def pipe_bytes_def no_past_def\<close>)
      moreover have "pi_name (?f (pipe_at d i)) = name" by (simp add: attach_path_def nul)
      ultimately have "pipes_ok (upd_pipe i ?f d, P @ [?st i], G(i := opened_for ?w no_past))"
        using pipe_attach_ok [OF ok, of "?st i" "opened_for ?w no_past" ?f] x(2) asks find_pipe_none [OF none] by simp
      then show ?thesis by (simp only: step)
    qed
  qed
qed

lemma pipe_step_ok:
  assumes "pipes_ok (d, P, G)" "asks_end op" "length P + 1 < W32" "pipe_step (d, P, G) op = (d', P', G')"
  shows "pipes_ok (d', P', G') \<and> length P' \<le> Suc (length P)"
proof
  show "pipes_ok (d', P', G')"
  proof (cases op)
    case (POpen room mode name)
    then show ?thesis using pipe_open_ok [OF assms(1) _ assms(3)] assms(2,4) by metis
  next
    case (PClose k)
    then show ?thesis using pipe_close_ok [OF assms(1)] assms(4) by metis
  next
    case (PRead c k len)
    show ?thesis
    proof (cases "k < length P \<and> pipe_read_check (Some (P ! k)) True len = None")
      case True
      then show ?thesis using pipe_read_ok [OF assms(1)] assms(4) PRead by metis
    qed (use assms(1,4) PRead in auto)
  next
    case (PWrite c k bs)
    show ?thesis
    proof (cases "k < length P \<and> pipe_write_check (Some (P ! k)) True (length bs) = None")
      case True
      then show ?thesis using pipe_write_ok [OF assms(1)] assms(4) PWrite by metis
    qed (use assms(1,4) PWrite in auto)
  qed
  show "length P' \<le> Suc (length P)"
    using assms(4) by (cases op) (auto split: prod.splits sum.splits io_turn.splits if_splits)
qed

lemma pipe_run_ok:
  assumes "pipes_ok (d, P, G)" "list_all asks_end ops" "length P + length ops < W32" "foldl pipe_step (d, P, G) ops = (d', P', G')"
  shows "pipes_ok (d', P', G')"
  using assms
proof (induction ops arbitrary: d P G)
  case (Cons op ops)
  obtain d1 P1 G1 where 1: "pipe_step (d, P, G) op = (d1, P1, G1)" by (metis prod_cases3)
  have "asks_end op" "length P + 1 < W32" using Cons.prems by simp_all
  note one = pipe_step_ok [OF Cons.prems(1) this 1]
  show ?case using one 1 Cons.prems by (intro Cons.IH [of d1 P1 G1]) auto
qed simp


section \<open>From the mount on\<close>

lemma mounted_pipes:
  assumes "pipe_mount (Some (RV9_IO_OK, True, length store)) store opt0 opt1 True True = Inr d"
    "(if opt1 \<noteq> 0 then opt1 else 4) * (sizeof_pipe + (if opt0 \<noteq> 0 then opt0 else 256)) < W32"
  shows "pipes_ok (d, [], \<lambda>_. no_past)"
proof -
  define n b where nb: "n = (if opt1 \<noteq> 0 then opt1 else 4)" "b = (if opt0 \<noteq> 0 then opt0 else 256)"
  have fit: "n * sizeof_pipe + n * b < W32" using assms(2) by (simp add: nb distrib_left)
  then have c: "cast32 (cast32 (n * sizeof_pipe) + cast32 (n * b)) = n * sizeof_pipe + n * b" by (simp add: cast32_def)
  let ?p = "\<lambda>i. \<lparr>pi_name = [], pi_in_use = False, pi_head = 0, pi_tail = 0, pi_count = 0,
     pi_capacity = b, pi_readers = 0, pi_writers = 0, pi_seen_writer = False, pi_warned = False,
     pi_data = take b (drop (n * sizeof_pipe + i * b) store)\<rparr>"
  have d: "d = \<lparr>pd_pipes = map ?p [0..<n], pd_capacity = b\<rparr>" "n * sizeof_pipe + n * b \<le> length store"
    using assms(1) unfolding pipe_mount_def option.case prod.case Let_def nb [symmetric]
    by (auto simp only: c simp_thms sum.inject split: if_splits)
  have ok: "pipe_ok (?p i)" if "i < n" for i
  proof -
    have "Suc i * b \<le> n * b" using that by (intro mult_le_mono1) simp
    moreover have "0 < b" by (simp add: nb)
    ultimately show ?thesis using d(2) by (simp add: pipe_ok_def)
  qed
  have at0: "pipe_at d i = ?p i" if "i < n" for i using that by (simp add: d pipe_at_def)
  then show ?thesis using ok by (simp add: pipes_ok_def pipe_law_def on_end_def d(1))
qed

text \<open>
  C26. A named pipe is a stream. After any opens, closes and turns of reads and writes on a device as
  mounted, for every pipe that somebody holds: the bytes accepted since it was made are the bytes
  delivered followed by the bytes in the ring, in order, and the ring is never over full; its counts
  of readers and writers are the open paths; the next look of a reader finds the end of the stream
  exactly when all that was written has been read, no path is open for writing and an open of this pipe,
  since it was made, has asked to write; the
  next look of a writer fails for want of a reader exactly when the ring is full and no path is open
  for reading; and two pipes held never have one name, so that two who open a name share a pipe.
\<close>

theorem pipe_is_stream:
  assumes mount: "pipe_mount (Some (RV9_IO_OK, True, length store)) store opt0 opt1 True True = Inr d0"
    and fits: "(if opt1 \<noteq> 0 then opt1 else 4) * (sizeof_pipe + (if opt0 \<noteq> 0 then opt0 else 256)) < W32"
    and ops: "list_all asks_end ops" "length ops < W32"
    and run: "foldl pipe_step (d0, [], \<lambda>_. no_past) ops = (d, P, G)"
    and k: "k < length P" "i = pp_pipe (P ! k)" "p = pipe_at d i"
  shows "went_in (G i) = went_out (G i) @ pipe_bytes p \<and> length (pipe_bytes p) \<le> pi_capacity p \<and>
    pi_in_use p \<and> pi_readers p = on_end pp_reading i P \<and> pi_writers p = on_end pp_writing i P \<and>
    (pipe_read_check (Some (P ! k)) True len = None \<longrightarrow>
      (snd (pipe_read_turn False (P ! k) len d) = Finish RV9_IO_OK [] \<longleftrightarrow>
        went_in (G i) = went_out (G i) \<and> on_end pp_writing i P = 0 \<and> had_writer (G i))) \<and>
    (pipe_write_check (Some (P ! k)) True (length bs) = None \<longrightarrow>
      (snd (pipe_write_turn False (P ! k) bs d) = Finish RV9_IO_ERR_IO 0 \<longleftrightarrow>
        length (pipe_bytes p) = pi_capacity p \<and> on_end pp_reading i P = 0)) \<and>
    (\<forall>j<length (pd_pipes d). pi_in_use (pipe_at d j) \<and> pi_name (pipe_at d j) = pi_name p \<longrightarrow> j = i)"
proof -
  have ok: "pipes_ok (d, P, G)" using pipe_run_ok [OF mounted_pipes [OF mount fits] ops(1) _ run] ops(2) by simp
  note u = path_in_use [OF ok k(1), folded k(2), folded k(3)]
  have law: "pipe_ok p" "pi_readers p = on_end pp_reading i P" "pi_writers p = on_end pp_writing i P"
    "went_in (G i) = went_out (G i) @ pipe_bytes p" "pi_seen_writer p = had_writer (G i)" and i: "i < length (pd_pipes d)" "pi_in_use p"
    using u unfolding pipe_law_def by blast+
  have full: "pi_count p \<le> pi_capacity p" using law by (simp add: pipe_ok_def)
  have empty: "(went_in (G i) = went_out (G i)) = (pi_count p = 0)" using law(4) length_pipe_bytes [of p] by (metis append_self_conv length_0_conv)
  have rd: "snd (pipe_read_turn False (P ! k) len d) = Finish RV9_IO_OK [] \<longleftrightarrow>
      went_in (G i) = went_out (G i) \<and> on_end pp_writing i P = 0 \<and> had_writer (G i)"
    if "pipe_read_check (Some (P ! k)) True len = None"
  proof -
    have "len > 0" using that by (auto simp: pipe_read_check_def split: if_splits)
    then have "ring_out (min (pi_count p) len) p \<noteq> []" if "pi_count p > 0"
    proof -
      have "pipe_bytes p \<noteq> []" using that length_pipe_bytes [of p] by (metis length_0_conv less_irrefl)
      then show ?thesis using that \<open>len > 0\<close> ring_out_bytes [OF law(1), of "min (pi_count p) len"] by simp
    qed
    then show ?thesis unfolding empty using law(3,5) k(2,3) by (auto simp: pipe_read_turn_def Let_def finished_def)
  qed
  have "snd (pipe_write_turn False (P ! k) bs d) = Finish RV9_IO_ERR_IO 0 \<longleftrightarrow>
      length (pipe_bytes p) = pi_capacity p \<and> on_end pp_reading i P = 0"
    if "pipe_write_check (Some (P ! k)) True (length bs) = None"
  proof -
    have "bs \<noteq> []" using that by (auto simp: pipe_write_check_def split: if_splits)
    then show ?thesis using law(2) k(2,3) full by (auto simp: pipe_write_turn_def Let_def)
  qed
  moreover have "j = i" if "j < length (pd_pipes d)" "pi_in_use (pipe_at d j)" "pi_name (pipe_at d j) = pi_name p" for j
    using names_differ [OF ok that(1) i(1) that(2)] i(2) that(3) k(3) by blast
  ultimately show ?thesis using law i(2) full rd unfolding length_pipe_bytes by blast
qed

text \<open>A reader and a writer of one pipe of four bytes: six bytes pass through it, past its end.\<close>

definition sample_ops :: "pipe_op list" where
  "sample_ops = [POpen True 1 ''log'', POpen True 2 ''log'', PWrite False 1 [1, 2, 3], PRead False 0 2, PWrite False 1 [4, 5, 6],
     PRead False 0 1]"

definition sample_dev :: pipe_dev where
  "sample_dev = \<lparr>pd_pipes = [\<lparr>pi_name = [], pi_in_use = False, pi_head = 0, pi_tail = 0, pi_count = 0, pi_capacity = 4,
     pi_readers = 0, pi_writers = 0, pi_seen_writer = False, pi_warned = False, pi_data = [0, 0, 0, 0]\<rparr>], pd_capacity = 4\<rparr>"

lemma sample_mount: "pipe_mount (Some (RV9_IO_OK, True, length (replicate 56 0))) (replicate 56 0) 4 1 True True = Inr sample_dev"
proof -
  have "take 4 (drop 52 (replicate 56 0)) = [0, 0, 0, 0 :: 8 word]" by (simp add: take_replicate eval_nat_numeral)
  then show ?thesis by (simp add: pipe_mount_def sizeof_pipe_def cast32_def sample_dev_def)
qed

lemmas pipe_run_defs = pipe_open_def find_pipe_def make_pipe_def upd_pipe_def pipe_at_def attach_path_def cstr_def PIPE_NAME_MAX_def
  RV9_MODE_READ_def RV9_MODE_WRITE_def pipe_write_check_def pipe_write_turn_def pipe_read_check_def pipe_read_turn_def put_bytes_def
  take_bytes_def ring_in_def ring_out_def memcpy_at_def Let_def cast32_def opened_for_def no_past_def

lemma sample_run: "foldl pipe_step (sample_dev, [], \<lambda>_. no_past) sample_ops =
    (sample_dev\<lparr>pd_pipes := [hd (pd_pipes sample_dev)\<lparr>pi_name := ''log'', pi_in_use := True, pi_head := 3, pi_tail := 2, pi_count := 3,
       pi_readers := 1, pi_writers := 1, pi_seen_writer := True, pi_data := [5, 6, 3, 4]\<rparr>]\<rparr>,
     [\<lparr>pp_pipe = 0, pp_reading = True, pp_writing = False\<rparr>, \<lparr>pp_pipe = 0, pp_reading = False, pp_writing = True\<rparr>],
     (\<lambda>_. no_past)(0 := \<lparr>went_in = [1, 2, 3, 4, 5, 6], went_out = [1, 2, 3], had_writer = True\<rparr>))"
  by (simp add: sample_ops_def sample_dev_def pipe_run_defs)

theorem pipe_is_stream_witness:
  "\<exists>d P G. foldl pipe_step (sample_dev, [], \<lambda>_. no_past) sample_ops = (d, P, G) \<and> length P = 2 \<and>
     went_in (G 0) = went_out (G 0) @ pipe_bytes (pipe_at d 0) \<and> went_in (G 0) = [1, 2, 3, 4, 5, 6] \<and> went_out (G 0) = [1, 2, 3] \<and>
     pi_readers (pipe_at d 0) = 1 \<and> had_writer (G 0)"
proof -
  let ?G = "(\<lambda>_. no_past)(0 := \<lparr>went_in = [1, 2, 3, 4, 5, 6], went_out = [1, 2, 3], had_writer = True\<rparr>) :: history"
  have "(if (1 :: nat) \<noteq> 0 then 1 else 4) * (sizeof_pipe + (if (4 :: nat) \<noteq> 0 then 4 else 256)) < W32" "list_all asks_end sample_ops"
    "length sample_ops < W32"
    by (simp_all add: sizeof_pipe_def sample_ops_def RV9_MODE_READ_def RV9_MODE_WRITE_def)
  note run = pipe_is_stream [OF sample_mount this sample_run, of 0, simplified list.size, OF _ refl refl]
  have "went_in (?G 0) = went_out (?G 0) @ pipe_bytes (pipe_at (sample_dev\<lparr>pd_pipes := [hd (pd_pipes sample_dev)\<lparr>pi_name := ''log'',
      pi_in_use := True, pi_head := 3, pi_tail := 2, pi_count := 3, pi_readers := 1, pi_writers := 1, pi_seen_writer := True,
      pi_data := [5, 6, 3, 4]\<rparr>]\<rparr>) 0)"
    using run by simp
  then show ?thesis unfolding sample_run by (simp add: pipe_at_def)
qed

end
