(* ===== verification/Rbf.thy ===== *)
theory Rbf
  imports Pipes
begin

text \<open>
  The block file manager (components/rv9_io/src/rbf.c) below its entry points: the device, the
  structures on the medium, the allocation bitmap, format and mount, the directory, and file
  descriptors with their segments. A sector is the function from offset to byte, so a field is
  read and written at its offset in the packed struct; \<open>m->scratch\<close> holds nothing across
  operations and is the sector last read. A volume, \<open>vol\<close>, is the device and the mount state.
\<close>

section \<open>A block device\<close>

type_synonym sector = "nat \<Rightarrow> 8 word"
type_synonym bytes = "8 word list"

definition SECTOR_SIZE :: nat where "SECTOR_SIZE = 512"
definition MAX_SEGMENTS :: nat where "MAX_SEGMENTS = 62"
definition DIR_ENTRIES_PER_SECTOR :: nat where "DIR_ENTRIES_PER_SECTOR = 16"
definition RBF_MAGIC :: bytes where "RBF_MAGIC = [0x52, 0x56, 0x39, 0x52, 0x42, 0x46, 0, 0]"

text \<open>\<open>dk_rd\<close> and \<open>dk_wr\<close> are what the driver answers for a transfer of a sector; a transfer it refuses
  moves nothing. \<open>dk_geometry\<close> is None for a driver that is no block device.\<close>

record disk =
  dk_at :: "nat \<Rightarrow> sector"
  dk_rd :: "nat \<Rightarrow> io_err"
  dk_wr :: "nat \<Rightarrow> io_err"
  dk_geometry :: "(io_err \<times> nat \<times> nat) option"

definition rd :: "nat \<Rightarrow> disk \<Rightarrow> io_err + sector" where
  "rd lsn d = (if dk_rd d lsn = RV9_IO_OK then Inr (dk_at d lsn) else Inl (dk_rd d lsn))"

definition wr :: "nat \<Rightarrow> sector \<Rightarrow> disk \<Rightarrow> disk \<times> io_err" where
  "wr lsn s d = (if dk_wr d lsn = RV9_IO_OK then (d\<lparr>dk_at := (dk_at d)(lsn := s)\<rparr>, RV9_IO_OK) else (d, dk_wr d lsn))"

text \<open>The RAM disk of drv_ramdisk.c: zeroed memory, and a bound on the sector whose sum can wrap.\<close>

definition ramdisk_bound :: "nat \<Rightarrow> nat \<Rightarrow> io_err" where
  "ramdisk_bound sectors lsn = (if cast32 (lsn + 1) > sectors then RV9_IO_ERR_INVAL else RV9_IO_OK)"

definition ramdisk_init :: "nat \<Rightarrow> bool \<Rightarrow> bool \<Rightarrow> io_err + disk" where
  "ramdisk_init opt2 room store =
     (let sectors = (if opt2 \<noteq> 0 then opt2 else 128) in
      if \<not> room \<or> \<not> store then Inl RV9_IO_ERR_NOMEM
      else Inr \<lparr>dk_at = \<lambda>_ _. 0, dk_rd = ramdisk_bound sectors, dk_wr = ramdisk_bound sectors,
                dk_geometry = Some (RV9_IO_OK, SECTOR_SIZE, sectors)\<rparr>)"

section \<open>The structures on the medium\<close>

definition byte_of :: "nat \<Rightarrow> nat \<Rightarrow> 8 word" where
  "byte_of n k = of_nat (n div 256 ^ k)"

definition u16_at :: "sector \<Rightarrow> nat \<Rightarrow> nat" where
  "u16_at s j = unat (s j) + 256 * unat (s (j + 1))"

definition u32_at :: "sector \<Rightarrow> nat \<Rightarrow> nat" where
  "u32_at s j = u16_at s j + 65536 * u16_at s (j + 2)"

definition load_bytes :: "nat \<Rightarrow> nat \<Rightarrow> sector \<Rightarrow> bytes" where
  "load_bytes n j s = map (\<lambda>i. s (j + i)) [0..<n]"

definition store_bytes :: "nat \<Rightarrow> bytes \<Rightarrow> sector \<Rightarrow> sector" where
  "store_bytes j bs s = (\<lambda>i. if j \<le> i \<and> i < j + length bs then bs ! (i - j) else s i)"

definition bytes16 :: "nat \<Rightarrow> bytes" where
  "bytes16 n = map (byte_of n) [0, 1]"

definition bytes32 :: "nat \<Rightarrow> bytes" where
  "bytes32 n = map (byte_of n) [0, 1, 2, 3]"

record rbf_ident =
  id_magic :: bytes
  id_total_sectors :: nat
  id_sector_size :: nat
  id_reserved :: nat
  id_bitmap_lsn :: nat
  id_bitmap_sectors :: nat
  id_root_lsn :: nat
  id_root_sectors :: nat
  id_volume :: bytes

definition ident_of :: "sector \<Rightarrow> rbf_ident" where
  "ident_of s = \<lparr>id_magic = load_bytes 8 0 s, id_total_sectors = u32_at s 8, id_sector_size = u16_at s 12,
     id_reserved = u16_at s 14, id_bitmap_lsn = u32_at s 16, id_bitmap_sectors = u32_at s 20, id_root_lsn = u32_at s 24,
     id_root_sectors = u32_at s 28, id_volume = load_bytes 16 32 s\<rparr>"

definition ident_bytes :: "rbf_ident \<Rightarrow> bytes" where
  "ident_bytes x = id_magic x @ bytes32 (id_total_sectors x) @ bytes16 (id_sector_size x) @ bytes16 (id_reserved x) @
     bytes32 (id_bitmap_lsn x) @ bytes32 (id_bitmap_sectors x) @ bytes32 (id_root_lsn x) @ bytes32 (id_root_sectors x) @ id_volume x"

record rbf_dirent =
  de_name :: bytes
  de_fd_lsn :: nat

definition dirent_of :: "sector \<Rightarrow> nat \<Rightarrow> rbf_dirent" where
  "dirent_of s i = \<lparr>de_name = load_bytes 28 (32 * i) s, de_fd_lsn = u32_at s (32 * i + 28)\<rparr>"

definition put_dirent :: "nat \<Rightarrow> rbf_dirent \<Rightarrow> sector \<Rightarrow> sector" where
  "put_dirent i e s = store_bytes (32 * i) (de_name e @ bytes32 (de_fd_lsn e)) s"

record rbf_fd =
  fd_size :: nat
  fd_segment_count :: nat
  fd_reserved :: nat
  fd_seg :: "(nat \<times> nat) list"

definition fd_of :: "sector \<Rightarrow> rbf_fd" where
  "fd_of s = \<lparr>fd_size = u32_at s 0, fd_segment_count = u16_at s 4, fd_reserved = u16_at s 6,
     fd_seg = map (\<lambda>i. (u32_at s (8 + 8 * i), u32_at s (12 + 8 * i))) [0..<MAX_SEGMENTS]\<rparr>"

definition fd_bytes :: "rbf_fd \<Rightarrow> bytes" where
  "fd_bytes fd = bytes32 (fd_size fd) @ bytes16 (fd_segment_count fd) @ bytes16 (fd_reserved fd) @
     concat (map (\<lambda>(lsn, n). bytes32 lsn @ bytes32 n) (fd_seg fd))"

definition zero_fd :: rbf_fd where
  "zero_fd = \<lparr>fd_size = 0, fd_segment_count = 0, fd_reserved = 0, fd_seg = replicate MAX_SEGMENTS (0, 0)\<rparr>"

definition zero_sector :: sector where
  "zero_sector = (\<lambda>_. 0)"

record vol =
  vl_disk :: disk
  vl_ident :: rbf_ident
  vl_hint :: nat
  vl_sector_count :: nat
  vl_mounted :: bool

definition vread :: "nat \<Rightarrow> vol \<Rightarrow> io_err + sector" where
  "vread lsn v = rd lsn (vl_disk v)"

definition vwrite :: "nat \<Rightarrow> sector \<Rightarrow> vol \<Rightarrow> vol \<times> io_err" where
  "vwrite lsn s v = (case wr lsn s (vl_disk v) of (d, e) \<Rightarrow> (v\<lparr>vl_disk := d\<rparr>, e))"

section \<open>The allocation bitmap\<close>

definition bit_mask :: "nat \<Rightarrow> 8 word" where
  "bit_mask lsn = push_bit (lsn mod 8) 1"

definition bitmap_set :: "nat \<Rightarrow> bool \<Rightarrow> vol \<Rightarrow> vol \<times> io_err" where
  "bitmap_set lsn used v =
     (let byt = lsn div 8; sec = cast32 (id_bitmap_lsn (vl_ident v) + byt div SECTOR_SIZE); off = byt mod SECTOR_SIZE
      in case vread sec v of
           Inl e \<Rightarrow> (v, e)
         | Inr s \<Rightarrow> vwrite sec (s(off := (if used then s off OR bit_mask lsn else s off AND NOT (bit_mask lsn)))) v)"

definition bitmap_get :: "nat \<Rightarrow> vol \<Rightarrow> bool" where
  "bitmap_get lsn v =
     (let byt = lsn div 8; sec = cast32 (id_bitmap_lsn (vl_ident v) + byt div SECTOR_SIZE); off = byt mod SECTOR_SIZE
      in case vread sec v of Inl e \<Rightarrow> True | Inr s \<Rightarrow> s off AND bit_mask lsn \<noteq> 0)"

text \<open>One bitmap sector: the first clear bit, unless it lies past the end of the volume.\<close>

datatype pick = NoneFree | PastEnd | Picked nat

definition BITS_PER_SECTOR :: nat where "BITS_PER_SECTOR = SECTOR_SIZE * 8"

definition map_pick :: "nat \<Rightarrow> nat \<Rightarrow> sector \<Rightarrow> pick" where
  "map_pick count mp s =
     (case find (\<lambda>i. s (i div 8) \<noteq> 0xFF \<and> s (i div 8) AND bit_mask i = 0 \<and> cast32 (mp * BITS_PER_SECTOR + i) \<noteq> 0)
           [0..<BITS_PER_SECTOR] of
        None \<Rightarrow> NoneFree
      | Some i \<Rightarrow> if cast32 (mp * BITS_PER_SECTOR + i) \<ge> count then PastEnd else Picked i)"

fun alloc_scan :: "nat list \<Rightarrow> vol \<Rightarrow> vol \<times> nat" where
  "alloc_scan [] v = (v, 0)"
| "alloc_scan (mp # mps) v =
     (let sec = cast32 (id_bitmap_lsn (vl_ident v) + mp) in
      case vread sec v of
        Inl e \<Rightarrow> (v, 0)
      | Inr s \<Rightarrow>
          (case map_pick (id_total_sectors (vl_ident v)) mp s of
             NoneFree \<Rightarrow> alloc_scan mps v
           | PastEnd \<Rightarrow> (v, 0)
           | Picked i \<Rightarrow>
               (case vwrite sec (s(i div 8 := s (i div 8) OR bit_mask i)) v of
                  (v1, e) \<Rightarrow> if e \<noteq> RV9_IO_OK then (v1, 0)
                             else (v1\<lparr>vl_hint := mp\<rparr>, cast32 (mp * BITS_PER_SECTOR + i)))))"

definition alloc_sector :: "vol \<Rightarrow> vol \<times> nat" where
  "alloc_sector v =
     (let maps = id_bitmap_sectors (vl_ident v) in
      if maps = 0 then (v, 0)
      else let start = (if vl_hint v < maps then vl_hint v else 0)
           in alloc_scan (map (\<lambda>n. cast32 (start + n) mod maps) [0..<maps]) v)"

section \<open>Format and mount\<close>

fun wr_each :: "(nat \<Rightarrow> vol \<Rightarrow> vol \<times> io_err) \<Rightarrow> nat list \<Rightarrow> vol \<Rightarrow> vol \<times> io_err" where
  "wr_each f [] v = (v, RV9_IO_OK)"
| "wr_each f (x # xs) v = (case f x v of (v1, e) \<Rightarrow> if e \<noteq> RV9_IO_OK then (v1, e) else wr_each f xs v1)"

definition format_ident :: "nat \<Rightarrow> rbf_ident" where
  "format_ident sectors =
     (let b = cast32 (sectors div 8 + SECTOR_SIZE - 1) div SECTOR_SIZE; bitmap_sectors = (if b = 0 then 1 else b)
      in \<lparr>id_magic = RBF_MAGIC, id_total_sectors = sectors, id_sector_size = SECTOR_SIZE, id_reserved = 0,
          id_bitmap_lsn = 1, id_bitmap_sectors = bitmap_sectors, id_root_lsn = 1 + bitmap_sectors,
          id_root_sectors = (if sectors \<ge> 2 ^ 20 then 16 else if sectors \<ge> 2 ^ 16 then 8 else 2),
          id_volume = [0x72, 0x76, 0x39] @ replicate 13 0\<rparr>)"

definition rbf_format :: "nat \<Rightarrow> vol \<Rightarrow> vol \<times> io_err" where
  "rbf_format sectors v =
     (let x = format_ident sectors; v0 = v\<lparr>vl_ident := x\<rparr>;
          (v1, e1) = wr_each (\<lambda>i. vwrite (id_bitmap_lsn x + i) zero_sector) [0..<id_bitmap_sectors x] v0
      in if e1 \<noteq> RV9_IO_OK then (v1, e1) else
      let (v2, e2) = wr_each (\<lambda>i. vwrite (id_root_lsn x + i) zero_sector) [0..<id_root_sectors x] v1
      in if e2 \<noteq> RV9_IO_OK then (v2, e2) else
      let (v3, e3) = vwrite 0 (store_bytes 0 (ident_bytes x) zero_sector) v2
      in if e3 \<noteq> RV9_IO_OK then (v3, e3)
         else wr_each (\<lambda>lsn. bitmap_set lsn True) [0..<id_root_lsn x + id_root_sectors x] v3)"

text \<open>The medium as the mount leaves it, and the volume if there is one.\<close>

definition rbf_mount :: "disk \<Rightarrow> bool \<Rightarrow> bool \<Rightarrow> disk \<times> (io_err + vol)" where
  "rbf_mount d room lock_made =
     (case dk_geometry d of
        None \<Rightarrow> (d, Inl RV9_IO_ERR_UNSUPPORTED)
      | Some (err, sector_size, count) \<Rightarrow>
          if \<not> room \<or> \<not> lock_made then (d, Inl RV9_IO_ERR_NOMEM)
          else if err \<noteq> RV9_IO_OK then (d, Inl err)
          else if sector_size \<noteq> SECTOR_SIZE then (d, Inl RV9_IO_ERR_UNSUPPORTED)
          else
            (case rd 0 d of
               Inl e \<Rightarrow> (d, Inl e)
             | Inr s \<Rightarrow>
                 let v = \<lparr>vl_disk = d, vl_ident = ident_of s, vl_hint = 0, vl_sector_count = count, vl_mounted = False\<rparr>
                 in if id_magic (ident_of s) = RBF_MAGIC then (d, Inr (v\<lparr>vl_mounted := True\<rparr>))
                    else (case rbf_format count v of
                            (v1, e) \<Rightarrow> if e \<noteq> RV9_IO_OK then (vl_disk v1, Inl e)
                                       else (vl_disk v1, Inr (v1\<lparr>vl_mounted := True\<rparr>)))))"

section \<open>The directory\<close>

text \<open>\<open>strncmp (ents[i].name, name, 27) = 0\<close> on strings of bytes.\<close>

definition name_key :: "bytes \<Rightarrow> bytes" where
  "name_key bs = take 27 (takeWhile (\<lambda>b. b \<noteq> 0) bs)"

definition dir_match :: "bytes option \<Rightarrow> rbf_dirent \<Rightarrow> bool" where
  "dir_match name e =
     (case name of
        Some nm \<Rightarrow> de_fd_lsn e \<noteq> 0 \<and> name_key (de_name e) = name_key nm
      | None \<Rightarrow> de_fd_lsn e = 0)"

fun dir_scan :: "bytes option \<Rightarrow> nat list \<Rightarrow> vol \<Rightarrow> (nat \<times> rbf_dirent) option" where
  "dir_scan name [] v = None"
| "dir_scan name (s # ss) v =
     (case vread (cast32 (id_root_lsn (vl_ident v) + s)) v of
        Inl e \<Rightarrow> None
      | Inr b \<Rightarrow>
          (case find (\<lambda>i. dir_match name (dirent_of b i)) [0..<DIR_ENTRIES_PER_SECTOR] of
             Some i \<Rightarrow> Some (s * DIR_ENTRIES_PER_SECTOR + i, dirent_of b i)
           | None \<Rightarrow> dir_scan name ss v))"

definition dir_find :: "bytes option \<Rightarrow> vol \<Rightarrow> (nat \<times> rbf_dirent) option" where
  "dir_find name v = dir_scan name [0..<id_root_sectors (vl_ident v)] v"

definition dir_write :: "nat \<Rightarrow> rbf_dirent \<Rightarrow> vol \<Rightarrow> vol \<times> io_err" where
  "dir_write index e v =
     (let sec = cast32 (id_root_lsn (vl_ident v) + index div DIR_ENTRIES_PER_SECTOR) in
      case vread sec v of
        Inl err \<Rightarrow> (v, err)
      | Inr b \<Rightarrow> vwrite sec (put_dirent (index mod DIR_ENTRIES_PER_SECTOR) e b) v)"

section \<open>File descriptors and segments\<close>

definition fd_read :: "nat \<Rightarrow> vol \<Rightarrow> io_err + rbf_fd" where
  "fd_read lsn v = (case vread lsn v of Inl e \<Rightarrow> Inl e | Inr s \<Rightarrow> Inr (fd_of s))"

definition fd_write :: "nat \<Rightarrow> rbf_fd \<Rightarrow> vol \<Rightarrow> vol \<times> io_err" where
  "fd_write lsn fd v = vwrite lsn (store_bytes 0 (fd_bytes fd) zero_sector) v"

text \<open>The segments in use. A count above \<open>MAX_SEGMENTS\<close>, which only the medium can hold, makes the C
  read past its array; here the array ends.\<close>

definition segments :: "rbf_fd \<Rightarrow> (nat \<times> nat) list" where
  "segments fd = take (fd_segment_count fd) (fd_seg fd)"

fun seg_scan :: "nat \<Rightarrow> (nat \<times> nat) list \<Rightarrow> nat" where
  "seg_scan want [] = 0"
| "seg_scan want ((lsn, n) # segs) = (if want < n then cast32 (lsn + want) else seg_scan (want - n) segs)"

definition offset_to_lsn :: "rbf_fd \<Rightarrow> nat \<Rightarrow> nat" where
  "offset_to_lsn fd offset = seg_scan (offset div SECTOR_SIZE) (segments fd)"

definition fd_add_seg :: "nat \<Rightarrow> rbf_fd \<Rightarrow> rbf_fd" where
  "fd_add_seg lsn fd =
     fd\<lparr>fd_seg := (fd_seg fd)[fd_segment_count fd := (lsn, 1)], fd_segment_count := fd_segment_count fd + 1\<rparr>"

definition fd_grow :: "rbf_fd \<Rightarrow> vol \<Rightarrow> vol \<times> (io_err + rbf_fd)" where
  "fd_grow fd v =
     (case alloc_sector v of
        (v1, lsn) \<Rightarrow>
          if lsn = 0 then (v1, Inl RV9_IO_ERR_IO)
          else
            let last = fd_segment_count fd - 1; (l, n) = fd_seg fd ! last in
            if fd_segment_count fd > 0 \<and> cast32 (l + n) = lsn
            then (v1, Inr (fd\<lparr>fd_seg := (fd_seg fd)[last := (l, n + 1)]\<rparr>))
            else if fd_segment_count fd \<ge> MAX_SEGMENTS
            then (fst (bitmap_set lsn False v1), Inl RV9_IO_ERR_IO)
            else (v1, Inr (fd_add_seg lsn fd)))"

definition fd_sectors :: "rbf_fd \<Rightarrow> nat list" where
  "fd_sectors fd = concat (map (\<lambda>(lsn, n). map (\<lambda>j. cast32 (lsn + j)) [0..<n]) (segments fd))"

definition fd_release :: "rbf_fd \<Rightarrow> vol \<Rightarrow> vol" where
  "fd_release fd v = foldl (\<lambda>v lsn. fst (bitmap_set lsn False v)) v (fd_sectors fd)"

end
