(* ===== verification/RbfOps.thy ===== *)
theory RbfOps
  imports Rbf
begin

text \<open>
  The entry points of the block file manager (components/rv9_io/src/rbf.c): open, close, read,
  write, seek, status, format on request and remove. Each holds the volume's lock throughout, so
  each is one step. A path is its mode, its position and its copy of the file descriptor.
\<close>

definition RV9_GS_SIZE :: nat where "RV9_GS_SIZE = 4"
definition RV9_SS_DRIVER_BASE :: nat where "RV9_SS_DRIVER_BASE = 256"
definition RV9_RBF_SS_FORMAT :: nat where "RV9_RBF_SS_FORMAT = RV9_SS_DRIVER_BASE + 64"
definition RV9_RBF_GS_SPACE :: nat where "RV9_RBF_GS_SPACE = RV9_SS_DRIVER_BASE + 65"

record rbf_path =
  rp_is_dir :: bool
  rp_fd_lsn :: nat
  rp_fd :: rbf_fd
  rp_dirty :: bool
  rp_pos :: int

definition new_path :: rbf_path where
  "new_path = \<lparr>rp_is_dir = False, rp_fd_lsn = 0, rp_fd = zero_fd, rp_dirty = False, rp_pos = 0\<rparr>"

section \<open>Open and close\<close>

definition new_dirent :: "bytes \<Rightarrow> nat \<Rightarrow> rbf_dirent" where
  "new_dirent rest lsn =
     (let key = name_key rest in \<lparr>de_name = key @ replicate (28 - length key) 0, de_fd_lsn = lsn\<rparr>)"

definition create_file :: "bytes \<Rightarrow> vol \<Rightarrow> vol \<times> (io_err + rbf_path)" where
  "create_file rest v =
     (case dir_find None v of
        None \<Rightarrow> (v, Inl RV9_IO_ERR_IO)
      | Some (slot, _) \<Rightarrow>
          (case alloc_sector v of
             (v1, lsn) \<Rightarrow>
               if lsn = 0 then (v1, Inl RV9_IO_ERR_IO)
               else
                 (case dir_write slot (new_dirent rest lsn) v1 of
                    (v2, e) \<Rightarrow>
                      if e \<noteq> RV9_IO_OK then (v2, Inl e)
                      else (case fd_write lsn zero_fd v2 of
                              (v3, e3) \<Rightarrow> if e3 \<noteq> RV9_IO_OK then (v3, Inl e3)
                                         else (v3, Inr (new_path\<lparr>rp_fd_lsn := lsn, rp_dirty := True\<rparr>))))))"

definition rbf_open :: "bool \<Rightarrow> u32 \<Rightarrow> bytes \<Rightarrow> vol \<Rightarrow> vol \<times> (io_err + rbf_path)" where
  "rbf_open room mode rest v =
     (if \<not> vl_mounted v then (v, Inl RV9_IO_ERR_IO)
      else if \<not> room then (v, Inl RV9_IO_ERR_NOMEM)
      else if rest = [] then (v, Inr (new_path\<lparr>rp_is_dir := True\<rparr>))
      else
        (case dir_find (Some rest) v of
           Some (index, e) \<Rightarrow>
             (case fd_read (de_fd_lsn e) v of
                Inl err \<Rightarrow> (v, Inl err)
              | Inr fd \<Rightarrow>
                  if mode AND RV9_MODE_CREATE = 0
                  then (v, Inr (new_path\<lparr>rp_fd_lsn := de_fd_lsn e, rp_fd := fd\<rparr>))
                  else (fd_release fd v, Inr (new_path\<lparr>rp_fd_lsn := de_fd_lsn e, rp_dirty := True\<rparr>)))
         | None \<Rightarrow>
             if mode AND RV9_MODE_CREATE \<noteq> 0 then create_file rest v else (v, Inl RV9_IO_ERR_NOTFOUND)))"

definition rbf_close :: "rbf_path \<Rightarrow> vol \<Rightarrow> vol" where
  "rbf_close st v =
     (if rp_dirty st \<and> \<not> rp_is_dir st then fst (fd_write (rp_fd_lsn st) (rp_fd st) v) else v)"

section \<open>Reading\<close>

text \<open>The bytes a read of \<open>left\<close> bytes at \<open>pos\<close> moves before it ends or meets a sector it cannot read.\<close>

function read_loop :: "rbf_fd \<Rightarrow> vol \<Rightarrow> nat \<Rightarrow> nat \<Rightarrow> bytes" where
  "read_loop fd v pos left =
     (if left = 0 then []
      else let lsn = offset_to_lsn fd pos; within = pos mod SECTOR_SIZE; chunk = min (SECTOR_SIZE - within) left in
        if lsn = 0 then []
        else case vread lsn v of
               Inl e \<Rightarrow> []
             | Inr s \<Rightarrow> load_bytes chunk within s @ read_loop fd v (cast32 (pos + chunk)) (left - chunk))"
  by pat_completeness auto
termination
  by (relation "measure (\<lambda>(fd, v, pos, left). left)") (auto simp: SECTOR_SIZE_def)

declare read_loop.simps [simp del]

record dirent_out =
  do_name :: bytes
  do_size :: nat

definition listed :: "rbf_dirent \<Rightarrow> vol \<Rightarrow> dirent_out" where
  "listed e v =
     \<lparr>do_name = name_key (de_name e),
      do_size = (case fd_read (de_fd_lsn e) v of Inl _ \<Rightarrow> 0 | Inr fd \<Rightarrow> fd_size fd)\<rparr>"

text \<open>The directory: files from the \<open>skip\<close>-th on, up to \<open>want\<close>, until a sector cannot be read.\<close>

fun dir_entries :: "nat list \<Rightarrow> vol \<Rightarrow> rbf_dirent list" where
  "dir_entries [] v = []"
| "dir_entries (s # ss) v =
     (case vread (cast32 (id_root_lsn (vl_ident v) + s)) v of
        Inl e \<Rightarrow> []
      | Inr b \<Rightarrow> filter (\<lambda>e. de_fd_lsn e \<noteq> 0) (map (dirent_of b) [0..<DIR_ENTRIES_PER_SECTOR]) @ dir_entries ss v)"

definition dir_read :: "rbf_path \<Rightarrow> nat \<Rightarrow> vol \<Rightarrow> rbf_path \<times> (io_err + dirent_out list)" where
  "dir_read st len v =
     (let want = len div 32; skip = cast32 (nat (rp_pos st) div 32) in
      if want = 0 then (st, Inl RV9_IO_ERR_INVAL)
      else let out = map (\<lambda>e. listed e v) (take want (drop skip (dir_entries [0..<id_root_sectors (vl_ident v)] v)))
           in (st\<lparr>rp_pos := rp_pos st + int (length out * 32)\<rparr>, Inr out))"

definition rbf_read :: "rbf_path \<Rightarrow> nat \<Rightarrow> vol \<Rightarrow> rbf_path \<times> bytes" where
  "rbf_read st len v =
     (let pos = cast32 (nat (rp_pos st)) in
      if pos \<ge> fd_size (rp_fd st) then (st, [])
      else let out = read_loop (rp_fd st) v pos (min len (fd_size (rp_fd st) - pos))
           in (st\<lparr>rp_pos := int (cast32 (pos + length out))\<rparr>, out))"

section \<open>Writing\<close>

fun grow_loop :: "nat \<Rightarrow> rbf_fd \<Rightarrow> bool \<Rightarrow> vol \<Rightarrow> vol \<times> rbf_fd \<times> bool \<times> bool" where
  "grow_loop 0 fd dirty v = (v, fd, dirty, True)"
| "grow_loop (Suc n) fd dirty v =
     (case fd_grow fd v of
        (v1, Inl e) \<Rightarrow> (v1, fd, dirty, False)
      | (v1, Inr fd1) \<Rightarrow> grow_loop n fd1 True v1)"

definition sector_have :: "rbf_fd \<Rightarrow> nat" where
  "sector_have fd = foldl (\<lambda>have (lsn, n). cast32 (have + n)) 0 (segments fd)"

text \<open>Of \<open>bs\<close>, what is left to write at \<open>pos\<close>; answers the volume, the descriptor, whether it has
  changed, the position after, and how many bytes were moved.\<close>

function write_loop :: "bytes \<Rightarrow> nat \<Rightarrow> rbf_fd \<Rightarrow> bool \<Rightarrow> vol \<Rightarrow> vol \<times> rbf_fd \<times> bool \<times> nat \<times> nat" where
  "write_loop bs pos fd dirty v =
     (if bs = [] then (v, fd, dirty, pos, 0)
      else case grow_loop (cast32 (pos + SECTOR_SIZE) div SECTOR_SIZE - sector_have fd) fd dirty v of
        (v1, fd1, dirty1, grown) \<Rightarrow>
          let lsn = offset_to_lsn fd1 pos; within = pos mod SECTOR_SIZE; chunk = min (SECTOR_SIZE - within) (length bs) in
          if \<not> grown \<or> lsn = 0 then (v1, fd1, dirty1, pos, 0)
          else
            (case (if within \<noteq> 0 \<or> chunk \<noteq> SECTOR_SIZE then vread lsn v1 else Inr zero_sector) of
               Inl e \<Rightarrow> (v1, fd1, dirty1, pos, 0)
             | Inr s \<Rightarrow>
                 (case vwrite lsn (store_bytes within (take chunk bs) s) v1 of
                    (v2, e) \<Rightarrow>
                      if e \<noteq> RV9_IO_OK then (v2, fd1, dirty1, pos, 0)
                      else (case write_loop (drop chunk bs) (cast32 (pos + chunk)) fd1 dirty1 v2 of
                              (v3, fd3, dirty3, pos3, n) \<Rightarrow> (v3, fd3, dirty3, pos3, chunk + n)))))"
  by pat_completeness auto
termination
  by (relation "measure (\<lambda>(bs, pos, fd, dirty, v). length bs)") (auto simp: SECTOR_SIZE_def)

declare write_loop.simps [simp del]

definition rbf_write :: "rbf_path \<Rightarrow> bytes \<Rightarrow> vol \<Rightarrow> vol \<times> rbf_path \<times> io_err \<times> nat" where
  "rbf_write st bs v =
     (if rp_is_dir st then (v, st, RV9_IO_ERR_UNSUPPORTED, 0)
      else
        (case write_loop bs (cast32 (nat (rp_pos st))) (rp_fd st) (rp_dirty st) v of
           (v1, fd, dirty, pos, moved) \<Rightarrow>
             (v1,
              st\<lparr>rp_fd := (if pos > fd_size fd then fd\<lparr>fd_size := pos\<rparr> else fd),
                 rp_dirty := (dirty \<or> pos > fd_size fd), rp_pos := int pos\<rparr>,
              (if moved > 0 \<or> bs = [] then RV9_IO_OK else RV9_IO_ERR_IO), moved)))"

section \<open>Seek, status, format, remove\<close>

datatype whence = RV9_SEEK_SET | RV9_SEEK_CUR | RV9_SEEK_END | SEEK_OTHER

definition rbf_seek :: "int \<Rightarrow> whence \<Rightarrow> rbf_path \<Rightarrow> rbf_path \<times> io_err" where
  "rbf_seek offset whence st =
     (case (case whence of
              RV9_SEEK_SET \<Rightarrow> Some 0
            | RV9_SEEK_CUR \<Rightarrow> Some (rp_pos st)
            | RV9_SEEK_END \<Rightarrow> Some (if rp_is_dir st then 0 else int (fd_size (rp_fd st)))
            | SEEK_OTHER \<Rightarrow> None) of
        None \<Rightarrow> (st, RV9_IO_ERR_INVAL)
      | Some base \<Rightarrow> if base + offset < 0 then (st, RV9_IO_ERR_INVAL) else (st\<lparr>rp_pos := base + offset\<rparr>, RV9_IO_OK))"

definition pop8 :: "8 word \<Rightarrow> nat" where
  "pop8 w = length (filter (bit w) [0..<8])"

fun count_used :: "nat list \<Rightarrow> vol \<Rightarrow> nat option" where
  "count_used [] v = Some 0"
| "count_used (mp # mps) v =
     (case vread (cast32 (id_bitmap_lsn (vl_ident v) + mp)) v of
        Inl e \<Rightarrow> None
      | Inr s \<Rightarrow> map_option (\<lambda>n. sum_list (map (\<lambda>j. pop8 (s j)) [0..<SECTOR_SIZE]) + n) (count_used mps v))"

record rbf_space =
  sp_sector_size :: nat
  sp_total_sectors :: nat
  sp_free_sectors :: nat

definition rbf_getstat :: "rbf_path \<Rightarrow> nat \<Rightarrow> bool \<Rightarrow> vol \<Rightarrow> io_err + (nat + rbf_space)" where
  "rbf_getstat st code arg v =
     (if code = RV9_GS_SIZE \<and> arg \<and> \<not> rp_is_dir st then Inr (Inl (fd_size (rp_fd st)))
      else if code = RV9_RBF_GS_SPACE \<and> arg \<and> rp_is_dir st
      then if \<not> vl_mounted v then Inl RV9_IO_ERR_IO
           else (case count_used [0..<id_bitmap_sectors (vl_ident v)] v of
                   None \<Rightarrow> Inl RV9_IO_ERR_IO
                 | Some used \<Rightarrow>
                     let all = id_total_sectors (vl_ident v); used = cast32 used
                     in Inr (Inr \<lparr>sp_sector_size = SECTOR_SIZE, sp_total_sectors = all,
                                  sp_free_sectors = (if used < all then all - used else 0)\<rparr>))
      else Inl RV9_IO_ERR_UNSUPPORTED)"

definition rbf_setstat :: "rbf_path \<Rightarrow> nat \<Rightarrow> vol \<Rightarrow> vol \<times> io_err" where
  "rbf_setstat st code v =
     (if code \<noteq> RV9_RBF_SS_FORMAT then (v, RV9_IO_ERR_UNSUPPORTED)
      else if \<not> rp_is_dir st then (v, RV9_IO_ERR_INVAL)
      else case rbf_format (vl_sector_count v) (v\<lparr>vl_mounted := False, vl_hint := 0\<rparr>) of
             (v1, e) \<Rightarrow> (v1\<lparr>vl_mounted := (e = RV9_IO_OK)\<rparr>, e))"

definition rbf_remove :: "bytes \<Rightarrow> vol \<Rightarrow> vol \<times> io_err" where
  "rbf_remove name v =
     (if name = [] then (v, RV9_IO_ERR_INVAL)
      else case dir_find (Some name) v of
             None \<Rightarrow> (v, RV9_IO_ERR_NOTFOUND)
           | Some (index, e) \<Rightarrow>
               let v1 = (case fd_read (de_fd_lsn e) v of Inl _ \<Rightarrow> v | Inr fd \<Rightarrow> fd_release fd v);
                   v2 = fst (bitmap_set (de_fd_lsn e) False v1)
               in dir_write index \<lparr>de_name = replicate 28 0, de_fd_lsn = 0\<rparr> v2)"

end
