(* ===== verification/RbfAlloc.thy ===== *)
theory RbfAlloc
  imports RbfOps
begin

text \<open>
  The medium's structures read back as written, and the allocation bitmap: what a change of one bit
  keeps, which sector an allocation answers, and when it answers none.
\<close>

section \<open>Structures\<close>

lemma bytes_sum: "n mod 256 + 256 * (n div 256 mod 256) + 65536 * (n div 65536 mod 256) + 16777216 * (n div 16777216 mod 256) = n"
  if "n < W32" for n :: nat
proof -
  have d: "n div 65536 = n div 256 div 256" "n div 16777216 = n div 256 div 256 div 256" by (simp_all flip: div_mult2_eq)
  have "n div 16777216 < 256" using that by simp
  then have "n div 16777216 mod 256 = n div 16777216" by simp
  moreover have "m = m mod 256 + 256 * (m div 256)" for m :: nat by simp
  from this [of n] this [of "n div 256"] this [of "n div 256 div 256"] show ?thesis
    using calculation unfolding d by linarith
qed

lemma unat_byte_of: "unat (byte_of n k) = n div 256 ^ k mod 256"
  by (simp add: byte_of_def unat_of_nat)

lemma length_bytes32 [simp]: "length (bytes32 n) = 4" "length (bytes16 n) = 2"
  by (simp_all add: bytes32_def bytes16_def)

lemma store_nth [simp]: "store_bytes j bs s i = (if j \<le> i \<and> i < j + length bs then bs ! (i - j) else s i)"
  by (simp add: store_bytes_def)

text \<open>A field of a stored structure, by what stands before it.\<close>

lemma stored_nth: "k < length bs \<Longrightarrow> store_bytes base (pre @ bs @ post) s (base + length pre + k) = bs ! k"
  by (simp add: nth_append)

lemma u32_field:
  assumes "n < W32" "j = base + length pre"
  shows "u32_at (store_bytes base (pre @ bytes32 n @ post) s) j = n"
proof -
  define S where "S = store_bytes base (pre @ bytes32 n @ post) s"
  have "S (j + k) = bytes32 n ! k" if "k < 4" for k
    using that assms(2) stored_nth [of k "bytes32 n"] by (simp add: S_def del: store_nth)
  from this [of 0] this [of 1] this [of 2] this [of 3]
  have "S j = byte_of n 0" "S (j + 1) = byte_of n 1" "S (j + 2) = byte_of n 2" "S (j + 2 + 1) = byte_of n 3"
    by (simp_all add: bytes32_def eval_nat_numeral)
  then have "u32_at S j = unat (byte_of n 0) + 256 * unat (byte_of n 1) + 65536 * (unat (byte_of n 2) + 256 * unat (byte_of n 3))"
    by (simp only: u32_at_def u16_at_def)
  moreover have "unat (byte_of n 0) = n mod 256" "unat (byte_of n 1) = n div 256 mod 256" "unat (byte_of n 2) = n div 65536 mod 256"
    "unat (byte_of n 3) = n div 16777216 mod 256" by (simp_all add: unat_byte_of)
  moreover have "a + 256 * b + 65536 * (c + 256 * d) = a + 256 * b + 65536 * c + 16777216 * d" for a b c d :: nat by simp
  ultimately have "u32_at S j = n" using bytes_sum [OF assms(1)] by (simp only:)
  then show ?thesis by (simp add: S_def)
qed

lemma u16_field:
  assumes "n < 65536" "j = base + length pre"
  shows "u16_at (store_bytes base (pre @ bytes16 n @ post) s) j = n"
proof -
  have "store_bytes base (pre @ bytes16 n @ post) s (j + k) = bytes16 n ! k" if "k < 2" for k
    using that assms(2) stored_nth [of k "bytes16 n"] by (simp del: store_nth)
  from this [of 0] this [of 1] show ?thesis
    using assms(1) by (simp add: u16_at_def unat_byte_of bytes16_def del: store_nth)
qed

lemma load_field: "j = base + length pre \<Longrightarrow> n = length bs \<Longrightarrow> load_bytes n j (store_bytes base (pre @ bs @ post) s) = bs"
  by (rule nth_equalityI) (auto simp: load_bytes_def nth_append)

lemma concat_pairs: "i < length xs \<Longrightarrow> \<exists>pre post. length pre = 8 * i \<and>
    concat (map (\<lambda>(l, n). bytes32 l @ bytes32 n) xs) = pre @ bytes32 (fst (xs ! i)) @ bytes32 (snd (xs ! i)) @ post"
proof (induction xs arbitrary: i)
  case (Cons x xs)
  obtain l n where x: "x = (l, n)" by (cases x)
  show ?case
  proof (cases i)
    case 0
    let ?post = "concat (map (\<lambda>(l, n). bytes32 l @ bytes32 n) xs)"
    have "concat (map (\<lambda>(l, n). bytes32 l @ bytes32 n) (x # xs)) = [] @ bytes32 (fst ((x # xs) ! i)) @ bytes32 (snd ((x # xs) ! i)) @ ?post"
      using x 0 by simp
    then show ?thesis using 0 by (metis list.size(3) mult_0_right)
  next
    case (Suc i')
    then obtain pre post where p: "length pre = 8 * i'"
      "concat (map (\<lambda>(l, n). bytes32 l @ bytes32 n) xs) = pre @ bytes32 (fst (xs ! i')) @ bytes32 (snd (xs ! i')) @ post"
      using Cons.IH [of i'] Cons.prems by auto
    show ?thesis using x p Suc
      by (intro exI [of _ "(bytes32 l @ bytes32 n) @ pre"] exI [of _ post]) simp
  qed
qed simp

definition fd_fits :: "rbf_fd \<Rightarrow> bool" where
  "fd_fits fd \<longleftrightarrow> fd_size fd < W32 \<and> fd_segment_count fd \<le> MAX_SEGMENTS \<and> fd_reserved fd < 65536 \<and>
     length (fd_seg fd) = MAX_SEGMENTS \<and> (\<forall>(l, n)\<in>set (fd_seg fd). l < W32 \<and> n < W32)"

text \<open>A file descriptor is read back from its sector as it was written.\<close>

lemma fd_roundtrip:
  assumes "fd_fits fd"
  shows "fd_of (store_bytes 0 (fd_bytes fd) s) = fd"
proof -
  let ?c = "concat (map (\<lambda>(lsn, n). bytes32 lsn @ bytes32 n) (fd_seg fd))"
  let ?s = "store_bytes 0 (fd_bytes fd) s"
  have "u32_at ?s 0 = fd_size fd"
    using u32_field [of "fd_size fd" 0 0 "[]"] assms by (simp add: fd_bytes_def fd_fits_def)
  moreover have "u16_at ?s 4 = fd_segment_count fd"
    using u16_field [of "fd_segment_count fd" 4 0 "bytes32 (fd_size fd)"] assms by (simp add: fd_bytes_def fd_fits_def MAX_SEGMENTS_def)
  moreover have "u16_at ?s 6 = fd_reserved fd"
    using u16_field [of "fd_reserved fd" 6 0 "bytes32 (fd_size fd) @ bytes16 (fd_segment_count fd)"] assms
    by (simp add: fd_bytes_def fd_fits_def)
  moreover have "u32_at ?s (8 + 8 * i) = fst (fd_seg fd ! i) \<and> u32_at ?s (12 + 8 * i) = snd (fd_seg fd ! i)" if "i < MAX_SEGMENTS" for i
  proof -
    have i: "i < length (fd_seg fd)" using that assms by (simp add: fd_fits_def)
    obtain pre post where p: "length pre = 8 * i" "?c = pre @ bytes32 (fst (fd_seg fd ! i)) @ bytes32 (snd (fd_seg fd ! i)) @ post"
      using concat_pairs [OF i] by blast
    let ?h = "bytes32 (fd_size fd) @ bytes16 (fd_segment_count fd) @ bytes16 (fd_reserved fd)"
    have "fd_seg fd ! i \<in> set (fd_seg fd)" using i by simp
    then have "fst (fd_seg fd ! i) < W32" "snd (fd_seg fd ! i) < W32" using assms by (auto simp: fd_fits_def)
    then show ?thesis
      using u32_field [of "fst (fd_seg fd ! i)" "8 + 8 * i" 0 "?h @ pre" "bytes32 (snd (fd_seg fd ! i)) @ post" s]
        u32_field [of "snd (fd_seg fd ! i)" "12 + 8 * i" 0 "?h @ pre @ bytes32 (fst (fd_seg fd ! i))" post s] p
      by (simp add: fd_bytes_def)
  qed
  ultimately show ?thesis using assms
    by (auto simp: fd_of_def fd_fits_def intro!: rbf_fd.equality nth_equalityI)
qed

lemma fd_roundtrip_example: "fd_of (store_bytes 0 (fd_bytes (zero_fd\<lparr>fd_size := 1500, fd_segment_count := 1\<rparr>)) zero_sector) =
    zero_fd\<lparr>fd_size := 1500, fd_segment_count := 1\<rparr>"
  by (rule fd_roundtrip) (simp add: fd_fits_def zero_fd_def MAX_SEGMENTS_def)


section \<open>The bitmap\<close>

abbreviation dat :: "vol \<Rightarrow> nat \<Rightarrow> sector" where
  "dat v \<equiv> dk_at (vl_disk v)"

definition maps_of :: "vol \<Rightarrow> nat" where
  "maps_of v = id_bitmap_sectors (vl_ident v)"

definition marks :: "vol \<Rightarrow> nat \<Rightarrow> bool" where
  "marks v l = bit (dat v (1 + l div BITS_PER_SECTOR) (l div 8 mod SECTOR_SIZE)) (l mod 8)"

text \<open>Sectors 0 up to \<open>meta v\<close> hold the identification, the bitmap and the root directory.\<close>

definition meta :: "vol \<Rightarrow> nat" where
  "meta v = id_root_lsn (vl_ident v) + id_root_sectors (vl_ident v)"

definition total_of :: "vol \<Rightarrow> nat" where
  "total_of v = id_total_sectors (vl_ident v)"

definition geom :: "vol \<Rightarrow> bool" where
  "geom v \<longleftrightarrow> id_bitmap_lsn (vl_ident v) = 1 \<and> 0 < maps_of v \<and> maps_of v \<le> 2 ^ 20 \<and> id_root_lsn (vl_ident v) = 1 + maps_of v \<and>
     meta v \<le> total_of v \<and> total_of v < W32"

text \<open>A change of the sectors in \<open>S\<close> only.\<close>

definition same_vol :: "vol \<Rightarrow> vol \<Rightarrow> bool" where
  "same_vol v w \<longleftrightarrow> vl_ident w = vl_ident v \<and> vl_mounted w = vl_mounted v \<and> vl_sector_count w = vl_sector_count v \<and>
     dk_rd (vl_disk w) = dk_rd (vl_disk v) \<and> dk_wr (vl_disk w) = dk_wr (vl_disk v) \<and> dk_geometry (vl_disk w) = dk_geometry (vl_disk v)"

definition kept :: "nat set \<Rightarrow> vol \<Rightarrow> vol \<Rightarrow> bool" where
  "kept S v w \<longleftrightarrow> same_vol v w \<and> (\<forall>l. l \<notin> S \<longrightarrow> dat w l = dat v l)"

definition map_sectors :: "vol \<Rightarrow> nat set" where
  "map_sectors v = {1..maps_of v}"

lemma kept_refl [simp]: "kept S v v"
  by (simp add: kept_def same_vol_def)

lemma kept_trans: "kept S u v \<Longrightarrow> kept T v w \<Longrightarrow> S \<subseteq> R \<Longrightarrow> T \<subseteq> R \<Longrightarrow> kept R u w"
  unfolding kept_def same_vol_def by (metis subsetD)

lemma kept_mono: "kept S v w \<Longrightarrow> S \<subseteq> T \<Longrightarrow> kept T v w"
  by (auto simp: kept_def)

lemma kept_same:
  assumes "kept S v w"
  shows "maps_of w = maps_of v" "meta w = meta v" "total_of w = total_of v" "geom w = geom v" "map_sectors w = map_sectors v"
    "vl_ident w = vl_ident v" "dk_wr (vl_disk w) = dk_wr (vl_disk v)" "dk_rd (vl_disk w) = dk_rd (vl_disk v)" "vl_mounted w = vl_mounted v"
    "vl_sector_count w = vl_sector_count v"
  using assms by (simp_all add: kept_def same_vol_def maps_of_def meta_def total_of_def geom_def map_sectors_def)

lemma vwrite_kept: "vwrite l s v = (w, e) \<Longrightarrow> kept {l} v w \<and> (if dk_wr (vl_disk v) l = RV9_IO_OK then e = RV9_IO_OK \<and> dat w l = s else e \<noteq> RV9_IO_OK \<and> w = v)"
  by (auto simp: vwrite_def wr_def kept_def same_vol_def split: if_splits prod.splits)

lemma bit_place:
  "k div BITS_PER_SECTOR = l div BITS_PER_SECTOR \<Longrightarrow> k div 8 mod SECTOR_SIZE = l div 8 mod SECTOR_SIZE \<Longrightarrow> k mod 8 = l mod 8 \<Longrightarrow> k = l"
proof -
  assume a: "k div BITS_PER_SECTOR = l div BITS_PER_SECTOR" "k div 8 mod SECTOR_SIZE = l div 8 mod SECTOR_SIZE" "k mod 8 = l mod 8"
  have "n div BITS_PER_SECTOR = n div 8 div SECTOR_SIZE" for n :: nat by (simp add: BITS_PER_SECTOR_def SECTOR_SIZE_def flip: div_mult2_eq)
  then have "k div 8 div SECTOR_SIZE = l div 8 div SECTOR_SIZE" using a(1) by simp
  then have "k div 8 = l div 8" using a(2) by (metis div_mult_mod_eq)
  then show "k = l" using a(3) by (metis div_mult_mod_eq)
qed

lemma bit_or_mask: "n < 8 \<Longrightarrow> bit (b OR bit_mask l) n = (bit b n \<or> n = l mod 8)"
  by (auto simp: bit_mask_def bit_simps)

lemma bit_and_mask: "n < 8 \<Longrightarrow> bit (b AND NOT (bit_mask l)) n = (bit b n \<and> n \<noteq> l mod 8)"
  by (auto simp: bit_mask_def bit_simps)

lemma mask_zero: "(b AND bit_mask l = 0) = (\<not> bit b (l mod 8))"
proof -
  have "b AND push_bit n 1 = (if bit b n then push_bit n 1 else 0)" if "n < 8" for n
    by (rule bit_word_eqI) (auto simp: bit_simps)
  moreover have "bit (push_bit (l mod 8) 1 :: 8 word) (l mod 8)" by (simp add: bit_simps)
  then have "push_bit (l mod 8) 1 \<noteq> (0 :: 8 word)" by force
  ultimately show ?thesis by (simp add: bit_mask_def)
qed

text \<open>One bit changed in one sector of the bitmap.\<close>

lemma mark_one:
  assumes "kept {1 + l div BITS_PER_SECTOR} v w" "dat w (1 + l div BITS_PER_SECTOR) = (dat v (1 + l div BITS_PER_SECTOR))(l div 8 mod SECTOR_SIZE := b)"
    "\<And>n. n < 8 \<Longrightarrow> bit b n = (if n = l mod 8 then used else bit (dat v (1 + l div BITS_PER_SECTOR) (l div 8 mod SECTOR_SIZE)) n)"
  shows "marks w k = (if k = l then used else marks v k)"
proof (cases "k div BITS_PER_SECTOR = l div BITS_PER_SECTOR")
  case True
  then show ?thesis using assms(2,3) bit_place [of k l] by (auto simp: marks_def)
next
  case False
  then show ?thesis using assms(1) by (auto simp: marks_def kept_def)
qed

lemma bitmap_set_marks:
  assumes "geom v" "l < W32" "bitmap_set l used v = (w, e)"
  shows "kept {1 + l div BITS_PER_SECTOR} v w \<and> (if e = RV9_IO_OK then marks w = (marks v)(l := used) else w = v)"
proof -
  let ?sec = "1 + l div BITS_PER_SECTOR"
  have sec: "cast32 (id_bitmap_lsn (vl_ident v) + l div 8 div SECTOR_SIZE) = ?sec"
    using assms(1,2) by (simp add: geom_def BITS_PER_SECTOR_def SECTOR_SIZE_def div_mult2_eq cast32_def)
  show ?thesis
  proof (cases "vread ?sec v")
    case (Inl err)
    then have "err \<noteq> RV9_IO_OK" by (auto simp: vread_def rd_def split: if_splits)
    then show ?thesis using assms(3) Inl by (simp add: bitmap_set_def sec Let_def)
  next
    case (Inr s)
    let ?b = "if used then s (l div 8 mod SECTOR_SIZE) OR bit_mask l else s (l div 8 mod SECTOR_SIZE) AND NOT (bit_mask l)"
    have s: "s = dat v ?sec" using Inr by (auto simp: vread_def rd_def split: if_splits)
    have w: "vwrite ?sec (s(l div 8 mod SECTOR_SIZE := ?b)) v = (w, e)" using assms(3) Inr by (simp add: bitmap_set_def sec Let_def)
    note k = vwrite_kept [OF w]
    show ?thesis
    proof (cases "e = RV9_IO_OK")
      case True
      then have "dat w ?sec = (dat v ?sec)(l div 8 mod SECTOR_SIZE := ?b)" using k s by (auto split: if_splits)
      then have "marks w j = (if j = l then used else marks v j)" for j
        by (rule mark_one [OF conjunct1 [OF k]]) (simp add: bit_or_mask bit_and_mask s)
      then show ?thesis using k True by auto
    qed (use k in \<open>auto split: if_splits\<close>)
  qed
qed


section \<open>Allocation\<close>

lemma byte_full: "n < 8 \<Longrightarrow> bit (0xFF :: 8 word) n"
  by (auto simp: numeral_eq_Suc less_Suc_eq)

definition clear_bit :: "nat \<Rightarrow> sector \<Rightarrow> nat \<Rightarrow> bool" where
  "clear_bit mp s i \<longleftrightarrow> \<not> bit (s (i div 8)) (i mod 8) \<and> mp * BITS_PER_SECTOR + i \<noteq> 0"

lemma map_pick_spec:
  assumes "mp < 2 ^ 20"
  shows "case map_pick count mp s of
      NoneFree \<Rightarrow> \<forall>i<BITS_PER_SECTOR. \<not> clear_bit mp s i
    | PastEnd \<Rightarrow> \<exists>i<BITS_PER_SECTOR. count \<le> mp * BITS_PER_SECTOR + i \<and> (\<forall>j<i. \<not> clear_bit mp s j)
    | Picked i \<Rightarrow> i < BITS_PER_SECTOR \<and> clear_bit mp s i \<and> mp * BITS_PER_SECTOR + i < count"
proof -
  let ?P = "\<lambda>i. s (i div 8) \<noteq> 0xFF \<and> s (i div 8) AND bit_mask i = 0 \<and> cast32 (mp * BITS_PER_SECTOR + i) \<noteq> 0"
  have small: "cast32 (mp * BITS_PER_SECTOR + i) = mp * BITS_PER_SECTOR + i" if "i < BITS_PER_SECTOR" for i
    using assms that by (simp add: cast32_def BITS_PER_SECTOR_def SECTOR_SIZE_def)
  have P: "?P i = clear_bit mp s i" if "i < BITS_PER_SECTOR" for i
  proof -
    have "s (i div 8) \<noteq> 0xFF" if "\<not> bit (s (i div 8)) (i mod 8)" using that byte_full [of "i mod 8"] by auto
    then show ?thesis using small [OF that] by (auto simp: clear_bit_def mask_zero)
  qed
  show ?thesis
  proof (cases "find ?P [0..<BITS_PER_SECTOR]")
    case None
    then have "\<forall>i<BITS_PER_SECTOR. \<not> ?P i" unfolding find_None_iff by auto
    then have "\<forall>i<BITS_PER_SECTOR. \<not> clear_bit mp s i" using P by blast
    then show ?thesis using None by (simp add: map_pick_def)
  next
    case (Some i)
    then have i: "i < BITS_PER_SECTOR" "?P i" "\<forall>j<i. \<not> ?P j" unfolding find_Some_iff by auto
    have "clear_bit mp s i" using i(2) P [OF i(1)] by blast
    moreover have "\<not> clear_bit mp s j" if "j < i" for j using i(3) P [OF less_trans [OF that i(1)]] that by blast
    ultimately have "clear_bit mp s i" "\<forall>j<i. \<not> clear_bit mp s j" by blast+
    then show ?thesis using Some small [OF i(1)] i(1) by (auto simp: map_pick_def)
  qed
qed

lemma in_map: "i < BITS_PER_SECTOR \<Longrightarrow> (mp * BITS_PER_SECTOR + i) div BITS_PER_SECTOR = mp \<and>
    (mp * BITS_PER_SECTOR + i) div 8 mod SECTOR_SIZE = i div 8 \<and> (mp * BITS_PER_SECTOR + i) mod 8 = i mod 8"
proof -
  assume i: "i < BITS_PER_SECTOR"
  have "(mp * BITS_PER_SECTOR + i) div 8 = mp * 512 + i div 8" "(mp * BITS_PER_SECTOR + i) mod 8 = i mod 8"
    using div_mult_self2 [of 8 i "mp * 512"] mod_mult_self2 [of i 8 "mp * 512"] by (simp_all add: BITS_PER_SECTOR_def SECTOR_SIZE_def add.commute mult.commute)
  moreover have "i div 8 < 512" using i by (simp add: BITS_PER_SECTOR_def SECTOR_SIZE_def)
  ultimately show ?thesis using i by (simp add: SECTOR_SIZE_def)
qed

lemma clear_marks: "s = dat v (1 + mp) \<Longrightarrow> i < BITS_PER_SECTOR \<Longrightarrow>
    clear_bit mp s i = (\<not> marks v (mp * BITS_PER_SECTOR + i) \<and> mp * BITS_PER_SECTOR + i \<noteq> 0)"
  using in_map [of i mp] by (auto simp: clear_bit_def marks_def)

text \<open>Map sectors are \<open>full\<close> when no sector of the volume they account for is free.\<close>

definition map_full :: "vol \<Rightarrow> nat \<Rightarrow> bool" where
  "map_full v mp \<longleftrightarrow> (\<forall>l. l div BITS_PER_SECTOR = mp \<and> 0 < l \<and> l < total_of v \<longrightarrow> marks v l)"

lemma alloc_scan_spec:
  assumes "geom v" "set mps \<subseteq> {..<maps_of v}" "alloc_scan mps v = (w, l)"
  shows "kept (map_sectors v) v w \<and>
    (if l \<noteq> 0 then l < total_of v \<and> l div BITS_PER_SECTOR \<in> set mps \<and> \<not> marks v l \<and> marks w = (marks v)(l := True)
     else w = v \<and> ((\<forall>mp\<in>set mps. vread (1 + mp) v = Inr (dat v (1 + mp)) \<and> dk_wr (vl_disk v) (1 + mp) = RV9_IO_OK) \<longrightarrow>
       (\<forall>mp\<in>set mps. map_full v mp) \<or>
       (\<exists>xs mp ys. mps = xs @ mp # ys \<and> (\<forall>m\<in>set xs. map_full v m) \<and> map_full v mp \<and> total_of v \<le> (mp + 1) * BITS_PER_SECTOR)))"
  using assms
proof (induction mps arbitrary: w l)
  case (Cons mp mps)
  let ?sec = "1 + mp" and ?full = "map_full v"
  have mp: "mp < maps_of v" "mp < 2 ^ 20" "cast32 (id_bitmap_lsn (vl_ident v) + mp) = ?sec"
    using Cons.prems(1,2) by (auto simp: geom_def cast32_def)
  show ?case
  proof (cases "vread ?sec v")
    case (Inl e)
    then show ?thesis using Cons.prems mp(3) by (auto simp: Let_def)
  next
    case (Inr s)
    have s: "s = dat v ?sec" using Inr by (auto simp: vread_def rd_def split: if_splits)
    note pk = map_pick_spec [OF mp(2), where count = "total_of v" and s = s]
    have whole: "?full mp" if "\<And>i. i < BITS_PER_SECTOR \<Longrightarrow> mp * BITS_PER_SECTOR + i < total_of v \<Longrightarrow> \<not> clear_bit mp s i"
    proof (unfold map_full_def, intro allI impI)
      fix k assume k: "k div BITS_PER_SECTOR = mp \<and> 0 < k \<and> k < total_of v"
      have "0 < BITS_PER_SECTOR" by (simp add: BITS_PER_SECTOR_def SECTOR_SIZE_def)
      then have "k mod BITS_PER_SECTOR < BITS_PER_SECTOR" "mp * BITS_PER_SECTOR + k mod BITS_PER_SECTOR = k" using k by auto
      then show "marks v k" using that [of "k mod BITS_PER_SECTOR"] clear_marks [OF s] k by auto
    qed
    show ?thesis
    proof (cases "map_pick (total_of v) mp s")
      case NoneFree
      then have full: "?full mp" using pk whole by simp
      have "alloc_scan mps v = (w, l)" using Cons.prems(3) mp(3) Inr NoneFree by (simp add: Let_def total_of_def)
      note IH = Cons.IH [OF Cons.prems(1) _ this]
      show ?thesis
      proof (cases "l = 0")
        case True
        have "(\<forall>m\<in>set (mp # mps). ?full m) \<or> (\<exists>xs m ys. mp # mps = xs @ m # ys \<and> (\<forall>m\<in>set xs. ?full m) \<and> ?full m \<and>
            total_of v \<le> (m + 1) * BITS_PER_SECTOR)"
          if good: "\<forall>m\<in>set (mp # mps). vread (1 + m) v = Inr (dat v (1 + m)) \<and> dk_wr (vl_disk v) (1 + m) = RV9_IO_OK"
        proof -
          consider "\<forall>m\<in>set mps. ?full m" | xs m ys where "mps = xs @ m # ys" "\<forall>m\<in>set xs. ?full m" "?full m" "total_of v \<le> (m + 1) * BITS_PER_SECTOR"
            using IH True good Cons.prems(2) by auto
          then show ?thesis
          proof cases
            case (2 xs m ys)
            then have "mp # mps = (mp # xs) @ m # ys \<and> (\<forall>m\<in>set (mp # xs). ?full m)" using full by simp
            then show ?thesis using 2 by blast
          qed (use full in simp)
        qed
        moreover have "kept (map_sectors v) v w" "w = v" using IH True Cons.prems(2) by auto
        ultimately show ?thesis using True by simp
      qed (use IH Cons.prems(2) in auto)
    next
      case PastEnd
      then obtain i where i: "i < BITS_PER_SECTOR" "total_of v \<le> mp * BITS_PER_SECTOR + i" "\<forall>j<i. \<not> clear_bit mp s j" using pk by auto
      have "?full mp"
      proof (rule whole)
        fix j assume "mp * BITS_PER_SECTOR + j < total_of v"
        then have "j < i" using i(2) by linarith
        then show "\<not> clear_bit mp s j" using i(3) by simp
      qed
      moreover have "total_of v \<le> (mp + 1) * BITS_PER_SECTOR" using i by simp
      moreover have "w = v" "l = 0" using Cons.prems(3) mp(3) Inr PastEnd by (simp_all add: Let_def total_of_def)
      ultimately show ?thesis by simp (metis append_Nil empty_iff empty_set)
    next
      case (Picked i)
      then have i: "i < BITS_PER_SECTOR" "clear_bit mp s i" "mp * BITS_PER_SECTOR + i < total_of v" using pk by auto
      let ?l = "mp * BITS_PER_SECTOR + i"
      obtain u e where u: "vwrite ?sec (s(i div 8 := s (i div 8) OR bit_mask i)) v = (u, e)" by (metis surj_pair)
      note k = vwrite_kept [OF u]
      have big: "cast32 ?l = ?l" using i(3) Cons.prems(1) by (simp add: geom_def)
      show ?thesis
      proof (cases "e = RV9_IO_OK")
        case False
        then have "w = v" "l = 0" "dk_wr (vl_disk v) ?sec \<noteq> RV9_IO_OK"
          using Cons.prems(3) mp(3) Inr Picked u k by (auto simp: Let_def total_of_def split: if_splits)
        then show ?thesis by simp
      next
        case True
        have wl: "w = u\<lparr>vl_hint := mp\<rparr>" "l = ?l"
          using Cons.prems(3) mp(3) Inr Picked u True big by (auto simp: Let_def total_of_def)
        have "marks u j = (if j = ?l then True else marks v j)" for j
          using k True in_map [OF i(1), of mp] s by (intro mark_one) (auto simp: bit_or_mask split: if_splits)
        then have "marks w = (marks v)(l := True)" using wl by (auto simp: marks_def fun_eq_iff)
        moreover have "kept (map_sectors v) v w" using k mp(1) wl by (auto simp: kept_def same_vol_def map_sectors_def)
        ultimately show ?thesis using wl i in_map [OF i(1), of mp] clear_marks [OF s i(1)] by simp
      qed
    qed
  qed
qed simp


lemma alloc_spec:
  assumes "geom v" "alloc_sector v = (w, l)"
  shows "kept (map_sectors v) v w \<and>
    (if l \<noteq> 0 then l < total_of v \<and> l div BITS_PER_SECTOR < maps_of v \<and> \<not> marks v l \<and> marks w = (marks v)(l := True) else w = v)"
proof -
  let ?mps = "map (\<lambda>n. cast32 ((if vl_hint v < maps_of v then vl_hint v else 0) + n) mod maps_of v) [0..<maps_of v]"
  have a: "alloc_scan ?mps v = (w, l)" "set ?mps \<subseteq> {..<maps_of v}"
    using assms by (auto simp: alloc_sector_def Let_def maps_of_def geom_def)
  show ?thesis using alloc_scan_spec [OF assms(1) a(2,1)] a(2) by auto
qed

lemma alloc_exact:
  assumes "geom v" "alloc_sector v = (w, l)"
  shows "(l \<noteq> 0 \<longrightarrow> l < total_of v \<and> \<not> marks v l \<and> marks w = (marks v)(l := True) \<and> kept (map_sectors v) v w) \<and>
    (l = 0 \<longrightarrow> w = v \<and>
      ((\<forall>s\<in>map_sectors v. dk_rd (vl_disk v) s = RV9_IO_OK \<and> dk_wr (vl_disk v) s = RV9_IO_OK) \<longrightarrow>
       (\<forall>k. 0 < k \<and> k < total_of v \<and> k div BITS_PER_SECTOR < maps_of v \<and>
          (vl_hint v < maps_of v \<longrightarrow> vl_hint v \<le> k div BITS_PER_SECTOR) \<longrightarrow> marks v k)))"
proof -
  let ?m = "maps_of v"
  let ?h = "if vl_hint v < ?m then vl_hint v else 0"
  let ?mps = "map (\<lambda>n. cast32 (?h + n) mod ?m) [0..<?m]"
  have g: "0 < ?m" "?m \<le> 2 ^ 20" using assms(1) by (simp_all add: geom_def)
  have a: "alloc_scan ?mps v = (w, l)" "set ?mps \<subseteq> {..<?m}"
    using assms by (auto simp: alloc_sector_def Let_def maps_of_def geom_def)
  note spec = alloc_scan_spec [OF assms(1) a(2,1)]
  have first: "?mps = map (\<lambda>n. ?h + n) [0..<?m - ?h] @ map (\<lambda>n. n) [0..<?h]"
  proof (rule nth_equalityI)
    fix i assume "i < length ?mps"
    then have i: "i < ?m" "?h < ?m" using g by auto
    then have c: "cast32 (?h + i) = ?h + i" using g by (simp add: cast32_def)
    show "?mps ! i = (map (\<lambda>n. ?h + n) [0..<?m - ?h] @ map (\<lambda>n. n) [0..<?h]) ! i"
    proof (cases "i < ?m - ?h")
      case True
      then have "?h + i < ?m" by linarith
      then show ?thesis using True i c by (simp add: nth_append)
    next
      case False
      then have "(?h + i) mod ?m = i - (?m - ?h)" using i by (simp add: le_mod_geq)
      then show ?thesis using False i c by (simp add: nth_append)
    qed
  qed (use g in auto)
  have "marks v k" if l: "l = 0" and good: "\<forall>s\<in>map_sectors v. dk_rd (vl_disk v) s = RV9_IO_OK \<and> dk_wr (vl_disk v) s = RV9_IO_OK"
    and k: "0 < k" "k < total_of v" "k div BITS_PER_SECTOR < ?m" "vl_hint v < ?m \<longrightarrow> vl_hint v \<le> k div BITS_PER_SECTOR" for k
  proof -
    let ?k = "k div BITS_PER_SECTOR"
    have "vread (1 + mp) v = Inr (dat v (1 + mp)) \<and> dk_wr (vl_disk v) (1 + mp) = RV9_IO_OK" if "mp < ?m" for mp
      using good that by (simp add: map_sectors_def vread_def rd_def)
    then have "(\<forall>mp\<in>set ?mps. map_full v mp) \<or>
       (\<exists>xs mp ys. ?mps = xs @ mp # ys \<and> (\<forall>m\<in>set xs. map_full v m) \<and> map_full v mp \<and> total_of v \<le> (mp + 1) * BITS_PER_SECTOR)"
      using spec l a(2) by auto
    moreover have j: "?k - ?h < ?m - ?h" "?h + (?k - ?h) = ?k" using k(3,4) by auto
    then have at_k: "?k - ?h < length ?mps" "?mps ! (?k - ?h) = ?k" unfolding first by (simp_all add: nth_append)
    moreover have "map_full v ?k" if s: "?mps = xs @ mp # ys" "\<forall>m\<in>set xs. map_full v m" "map_full v mp" "total_of v \<le> (mp + 1) * BITS_PER_SECTOR" for xs mp ys
    proof -
      let ?p = "length xs" and ?j = "?k - ?h"
      have p: "?mps ! ?p = mp" unfolding s(1) by simp
      have "k < (mp + 1) * BITS_PER_SECTOR" using k(2) s(4) by linarith
      then have mp: "?k \<le> mp" by (simp add: less_mult_imp_div_less flip: less_Suc_eq_le)
      have "\<not> ?p < ?j"
      proof
        assume "?p < ?j"
        then have "?p < ?m - ?h" "?h + ?p < ?k" using j by linarith+
        then have "?mps ! ?p = ?h + ?p" unfolding first by (simp add: nth_append)
        then show False using p mp \<open>?h + ?p < ?k\<close> by simp
      qed
      then consider "?j < ?p" | "?j = ?p" by linarith
      then show ?thesis
      proof cases
        case 1
        then have "?mps ! ?j \<in> set xs" unfolding s(1) by (simp add: nth_append)
        then show ?thesis using s(2) at_k by simp
      next
        case 2
        then show ?thesis using s(3) p at_k by simp
      qed
    qed
    ultimately have "map_full v ?k" by (metis nth_mem)
    then show ?thesis using k by (simp add: map_full_def)
  qed
  then show ?thesis using spec a(2) by auto
qed

text \<open>
  C27: an allocation answers a sector that lies on the volume and was free, and marks that one alone.
  When all of the bitmap can be read and written, it answers none only if no sector is free from the map
  of the last allocation on: nothing there is missed, whatever is free before it.
\<close>

theorem alloc_takes_free:
  assumes "geom v" "alloc_sector v = (w, l)"
  shows "(l \<noteq> 0 \<longrightarrow> l < total_of v \<and> \<not> marks v l \<and> marks w = (marks v)(l := True) \<and> kept (map_sectors v) v w) \<and>
    (l = 0 \<longrightarrow> w = v \<and>
      ((\<forall>s\<in>map_sectors v. dk_rd (vl_disk v) s = RV9_IO_OK \<and> dk_wr (vl_disk v) s = RV9_IO_OK) \<longrightarrow>
       (\<forall>k. 0 < k \<and> k < total_of v \<and> k div BITS_PER_SECTOR < maps_of v \<and>
          (vl_hint v < maps_of v \<longrightarrow> vl_hint v \<le> k div BITS_PER_SECTOR) \<longrightarrow> marks v k)))"
  by (rule alloc_exact [OF assms])

text \<open>A volume of 16 sectors, the first five in use.\<close>

definition small_vol :: "nat \<Rightarrow> nat \<Rightarrow> nat \<Rightarrow> (nat \<Rightarrow> sector) \<Rightarrow> vol" where
  "small_vol sectors maps hint at =
     \<lparr>vl_disk = \<lparr>dk_at = at, dk_rd = \<lambda>_. RV9_IO_OK, dk_wr = \<lambda>_. RV9_IO_OK, dk_geometry = Some (RV9_IO_OK, 512, sectors)\<rparr>,
      vl_ident = (format_ident sectors)\<lparr>id_bitmap_sectors := maps, id_root_lsn := 1 + maps\<rparr>, vl_hint = hint,
      vl_sector_count = sectors, vl_mounted = True\<rparr>"

lemma small_geom: "0 < maps \<Longrightarrow> maps \<le> 8 \<Longrightarrow> maps + 3 \<le> sectors \<Longrightarrow> sectors < 65536 \<Longrightarrow> geom (small_vol sectors maps hint at)"
  by (simp add: geom_def small_vol_def format_ident_def maps_of_def meta_def total_of_def Let_def)

lemma small_simps [simp]: "dat (small_vol sectors maps hint at) = at" "maps_of (small_vol sectors maps hint at) = maps"
    "total_of (small_vol sectors maps hint at) = sectors" "vl_hint (small_vol sectors maps hint at) = hint"
    "dk_rd (vl_disk (small_vol sectors maps hint at)) l = RV9_IO_OK" "dk_wr (vl_disk (small_vol sectors maps hint at)) l = RV9_IO_OK"
  by (simp_all add: small_vol_def maps_of_def total_of_def format_ident_def Let_def)

theorem alloc_takes_free_witness:
  "let v = small_vol 16 1 0 ((\<lambda>_. zero_sector)(1 := zero_sector(0 := 31))) in
   alloc_sector v = (v\<lparr>vl_disk := (vl_disk v)\<lparr>dk_at := (dat v)(1 := zero_sector(0 := 63))\<rparr>\<rparr>, 5) \<and>
   \<not> marks v 5 \<and> marks (fst (alloc_sector v)) = (marks v)(5 := True)"
proof -
  let ?s = "zero_sector(0 := 31) :: sector"
  let ?v = "small_vol 16 1 0 ((\<lambda>_. zero_sector)(1 := ?s))"
  let ?w = "?v\<lparr>vl_disk := (vl_disk ?v)\<lparr>dk_at := (dat ?v)(1 := zero_sector(0 := 63))\<rparr>\<rparr>"
  have "clear_bit 0 ?s 5" "\<not> clear_bit 0 ?s 0" "\<not> clear_bit 0 ?s 1" "\<not> clear_bit 0 ?s 2" "\<not> clear_bit 0 ?s 3" "\<not> clear_bit 0 ?s 4"
    by (simp_all add: clear_bit_def)
  moreover have "j = 0 \<or> j = 1 \<or> j = 2 \<or> j = 3 \<or> j = 4" if "j < 5" for j :: nat using that by linarith
  ultimately have c: "clear_bit 0 ?s 5" "\<And>j. j < 5 \<Longrightarrow> \<not> clear_bit 0 ?s j" by blast+
  have P: "(?s (i div 8) \<noteq> 0xFF \<and> ?s (i div 8) AND bit_mask i = 0 \<and> cast32 (0 * BITS_PER_SECTOR + i) \<noteq> 0) = clear_bit 0 ?s i" if "i < 6" for i
    using that by (simp add: clear_bit_def mask_zero cast32_def)
  have "map_pick 16 0 ?s = Picked 5"
  proof -
    have "find (\<lambda>i. ?s (i div 8) \<noteq> 0xFF \<and> ?s (i div 8) AND bit_mask i = 0 \<and> cast32 (0 * BITS_PER_SECTOR + i) \<noteq> 0) [0..<BITS_PER_SECTOR] = Some 5"
      unfolding find_Some_iff
    proof (intro exI [of _ 5] conjI allI impI)
      fix j :: nat assume "j < 5"
      then show "\<not> (?s ([0..<BITS_PER_SECTOR] ! j div 8) \<noteq> 0xFF \<and> ?s ([0..<BITS_PER_SECTOR] ! j div 8) AND bit_mask ([0..<BITS_PER_SECTOR] ! j) = 0 \<and>
          cast32 (0 * BITS_PER_SECTOR + [0..<BITS_PER_SECTOR] ! j) \<noteq> 0)"
        using c(2) [of j] P [of j] by (simp add: BITS_PER_SECTOR_def SECTOR_SIZE_def)
    qed (use c(1) P [of 5] in \<open>simp_all add: BITS_PER_SECTOR_def SECTOR_SIZE_def\<close>)
    then show ?thesis by (simp add: map_pick_def)
  qed
  moreover have "cast32 (Suc 0) = 1" by (simp add: cast32_def)
  ultimately have a: "alloc_sector ?v = (?w, 5)"
    by (simp add: alloc_sector_def Let_def small_vol_def format_ident_def vread_def rd_def vwrite_def wr_def bit_mask_def)
  have "geom ?v" by (rule small_geom) simp_all
  from alloc_takes_free [OF this a] show ?thesis using a unfolding Let_def by simp
qed

text \<open>C28: the search starts at the map of the last allocation and is meant to wrap, but a clear bit past
  the end of the volume, in the last map, ends it: with the hint there and the tail of the volume in
  use, an allocation is refused whatever is free in the maps before.\<close>

theorem alloc_stops_past_end:
  assumes "geom v" "vl_hint v + 1 = maps_of v" "map_full v (vl_hint v)" "dk_rd (vl_disk v) (1 + vl_hint v) = RV9_IO_OK"
    "total_of v \<le> k" "k div BITS_PER_SECTOR = vl_hint v" "\<not> marks v k"
  shows "alloc_sector v = (v, 0)"
proof -
  let ?h = "vl_hint v" and ?s = "dat v (1 + vl_hint v)"
  have g: "?h < maps_of v" "?h < 2 ^ 20" "cast32 (id_bitmap_lsn (vl_ident v) + ?h) = 1 + ?h" "cast32 (?h + 0) mod maps_of v = ?h"
    using assms(1,2) by (auto simp: geom_def cast32_def)
  have rd: "vread (1 + ?h) v = Inr ?s" using assms(4) by (simp add: vread_def rd_def)
  have "map_pick (total_of v) ?h ?s = PastEnd"
  proof (cases "map_pick (total_of v) ?h ?s")
    case NoneFree
    have "0 < BITS_PER_SECTOR" by (simp add: BITS_PER_SECTOR_def SECTOR_SIZE_def)
    then have m: "k mod BITS_PER_SECTOR < BITS_PER_SECTOR" "?h * BITS_PER_SECTOR + k mod BITS_PER_SECTOR = k"
      using div_mult_mod_eq [of k BITS_PER_SECTOR] by (simp_all add: assms(6))
    have "k \<noteq> 0" using assms(1,5) by (auto simp: geom_def meta_def)
    then have "clear_bit ?h ?s (k mod BITS_PER_SECTOR)" 
      using clear_marks [OF refl m(1), of ?h v] assms(7) unfolding m(2) by blast
    then show ?thesis using map_pick_spec [OF g(2), where count = "total_of v" and s = ?s] NoneFree m(1) by simp
  next
    case (Picked i)
    then have i: "i < BITS_PER_SECTOR" "clear_bit ?h ?s i" "?h * BITS_PER_SECTOR + i < total_of v"
      using map_pick_spec [OF g(2), where count = "total_of v" and s = ?s] by auto
    then show ?thesis using clear_marks [OF refl i(1)] in_map [OF i(1), of ?h] assms(3) by (auto simp: map_full_def)
  qed
  then have "alloc_scan (?h # mps) v = (v, 0)" for mps using rd g(3) by (simp add: Let_def total_of_def)
  moreover have "[0..<maps_of v] = 0 # [1..<maps_of v]" using g(1) by (simp add: upt_conv_Cons)
  moreover have "0 < maps_of v" using g(1) by simp
  ultimately show ?thesis using g(1,4)
    by (simp add: alloc_sector_def Let_def del: alloc_scan.simps flip: maps_of_def)
qed

theorem alloc_stops_past_end_witness:
  "let v = small_vol 5000 2 1 ((\<lambda>_. zero_sector)(2 := (\<lambda>j. if j < 113 then 0xFF else 0))) in
   alloc_sector v = (v, 0) \<and> \<not> marks v 4000"
proof -
  let ?s = "(\<lambda>j. if j < 113 then 0xFF else 0) :: sector"
  let ?v = "small_vol 5000 2 1 ((\<lambda>_. zero_sector)(2 := ?s))"
  have "marks ?v l" if "l div BITS_PER_SECTOR = 1" "l < 5000" for l
  proof -
    have "4096 \<le> l" using that by (simp add: BITS_PER_SECTOR_def SECTOR_SIZE_def)
    then have "512 \<le> l div 8" "l div 8 < 625" using that(2) by linarith+
    then have "l div 8 mod 512 < 113" by (simp add: le_mod_geq)
    then show ?thesis using that(1) byte_full [of "l mod 8"] by (simp add: marks_def SECTOR_SIZE_def)
  qed
  then have "map_full ?v (vl_hint ?v)" by (simp add: map_full_def)
  moreover have "\<not> marks ?v 5000" "(5000 :: nat) div BITS_PER_SECTOR = 1" by (simp_all add: marks_def BITS_PER_SECTOR_def SECTOR_SIZE_def)
  moreover have "geom ?v" by (rule small_geom) simp_all
  ultimately have "alloc_sector ?v = (?v, 0)" by (intro alloc_stops_past_end [where k = 5000]) simp_all
  then show ?thesis by (simp add: marks_def BITS_PER_SECTOR_def SECTOR_SIZE_def zero_sector_def)
qed

end
