(* ===== verification/RbfFile.thy ===== *)
theory RbfFile
  imports RbfAlloc
begin

text \<open>
  A file as an array of bytes: its segments list distinct sectors of the volume, growing appends a
  free one, and a read or a write moves exactly the bytes at its position.
\<close>

section \<open>Sectors of a file\<close>

definition vol_base :: "vol \<Rightarrow> bool" where
  "vol_base v \<longleftrightarrow> geom v \<and> (\<forall>l<meta v. l div BITS_PER_SECTOR < maps_of v \<longrightarrow> marks v l) \<and>
     (\<forall>l<total_of v. dk_wr (vl_disk v) l = RV9_IO_OK)"

definition held :: "vol \<Rightarrow> nat \<Rightarrow> bool" where
  "held v l \<longleftrightarrow> meta v \<le> l \<and> l < total_of v \<and> l div BITS_PER_SECTOR < maps_of v \<and> marks v l"

definition file_ok :: "vol \<Rightarrow> nat set \<Rightarrow> rbf_fd \<Rightarrow> bool" where
  "file_ok v X fd \<longleftrightarrow> fd_fits fd \<and> distinct (fd_sectors fd) \<and> (\<forall>l\<in>set (fd_sectors fd). held v l \<and> l \<notin> X)"

text \<open>What is marked stays marked.\<close>

definition grows :: "vol \<Rightarrow> vol \<Rightarrow> bool" where
  "grows v w \<longleftrightarrow> (\<forall>l. l div BITS_PER_SECTOR < maps_of v \<and> marks v l \<longrightarrow> marks w l)"

lemma grows_refl [simp]: "grows v v"
  by (simp add: grows_def)

lemma grows_trans: "grows u v \<Longrightarrow> grows v w \<Longrightarrow> maps_of v = maps_of u \<Longrightarrow> grows u w"
  by (simp add: grows_def)

lemma grows_held: "grows v w \<Longrightarrow> kept S v w \<Longrightarrow> held v l \<Longrightarrow> held w l"
  by (auto simp: held_def grows_def kept_same)

lemma vol_base_keep:
  assumes "vol_base v" "kept S v w" "grows v w"
  shows "vol_base w"
  using assms by (auto simp: vol_base_def kept_same grows_def)

lemma file_ok_keep: "file_ok v X fd \<Longrightarrow> kept S v w \<Longrightarrow> grows v w \<Longrightarrow> file_ok w X fd"
  by (auto simp: file_ok_def intro: grows_held)

lemma seg_scan_nth: "seg_scan want segs =
    (let ls = concat (map (\<lambda>(lsn, n). map (\<lambda>j. cast32 (lsn + j)) [0..<n]) segs) in if want < length ls then ls ! want else 0)"
  by (induction want segs rule: seg_scan.induct) (auto simp: Let_def nth_append)

lemma offset_nth: "offset_to_lsn fd off = (if off div SECTOR_SIZE < length (fd_sectors fd) then fd_sectors fd ! (off div SECTOR_SIZE) else 0)"
  unfolding offset_to_lsn_def seg_scan_nth fd_sectors_def Let_def ..

lemma have_length: "foldl (\<lambda>have (lsn, n). cast32 (have + n)) a segs =
    (if segs = [] then a else cast32 (a + length (concat (map (\<lambda>(lsn, n). map (\<lambda>j. cast32 (lsn + j)) [0..<n]) segs))))"
proof (induction segs arbitrary: a)
  case (Cons x segs)
  then show ?case by (cases x) (auto simp: cast32_def mod_add_left_eq add.assoc)
qed simp

lemma file_small: "file_ok v X fd \<Longrightarrow> geom v \<Longrightarrow> length (fd_sectors fd) < total_of v"
proof -
  assume f: "file_ok v X fd" and g: "geom v"
  then have "set (fd_sectors fd) \<subseteq> {meta v..<total_of v}" by (auto simp: file_ok_def held_def)
  then have "card (set (fd_sectors fd)) \<le> total_of v - meta v" using card_mono [of "{meta v..<total_of v}"] by fastforce
  moreover have "card (set (fd_sectors fd)) = length (fd_sectors fd)" using f by (simp add: file_ok_def distinct_card)
  moreover have "0 < meta v" "meta v \<le> total_of v" using g by (auto simp: geom_def meta_def)
  ultimately show ?thesis by linarith
qed

lemma sector_have_length: "file_ok v X fd \<Longrightarrow> geom v \<Longrightarrow> sector_have fd = length (fd_sectors fd)"
proof -
  assume f: "file_ok v X fd" and g: "geom v"
  have "length (fd_sectors fd) < W32" using file_small [OF f g] g by (simp add: geom_def)
  then show ?thesis by (simp add: sector_have_def have_length fd_sectors_def)
qed

section \<open>Growing\<close>

lemma sectors_add_seg:
  assumes "fd_fits fd" "fd_segment_count fd < MAX_SEGMENTS" "l < W32"
  shows "fd_sectors (fd_add_seg l fd) = fd_sectors fd @ [l]"
proof -
  have "segments (fd_add_seg l fd) = segments fd @ [(l, 1)]"
    using assms(1,2) by (simp add: segments_def fd_add_seg_def take_Suc_conv_app_nth fd_fits_def)
  then show ?thesis using assms(3) by (simp add: fd_sectors_def)
qed

lemma sectors_extend:
  assumes "fd_fits fd" "0 < fd_segment_count fd" "fd_seg fd ! (fd_segment_count fd - 1) = (b, n)"
  shows "fd_sectors (fd\<lparr>fd_seg := (fd_seg fd)[fd_segment_count fd - 1 := (b, n + 1)]\<rparr>) = fd_sectors fd @ [cast32 (b + n)] \<and>
    n \<le> length (fd_sectors fd)"
proof -
  let ?i = "fd_segment_count fd - 1"
  have i: "?i < length (fd_seg fd)" "fd_segment_count fd = Suc ?i" using assms(1,2) by (auto simp: fd_fits_def)
  have old: "segments fd = take ?i (fd_seg fd) @ [(b, n)]"
    unfolding segments_def using i(1) assms(3) by (subst i(2)) (simp add: take_Suc_conv_app_nth)
  have "segments (fd\<lparr>fd_seg := (fd_seg fd)[?i := (b, n + 1)]\<rparr>) = take ?i (fd_seg fd) @ [(b, n + 1)]"
  proof -
    have "take (Suc ?i) ((fd_seg fd)[?i := (b, n + 1)]) = take ?i (fd_seg fd) @ [(b, n + 1)]"
      using i(1) by (simp add: take_Suc_conv_app_nth)
    then show ?thesis unfolding segments_def using i(2) by (simp del: One_nat_def)
  qed
  then show ?thesis using old by (simp add: fd_sectors_def)
qed

lemma fd_grow_ok:
  assumes "vol_base v" "file_ok v X fd" "\<forall>l\<in>X. held v l" "fd_grow fd v = (w, r)"
  shows "kept (map_sectors v) v w \<and> grows v w \<and>
    (case r of Inl e \<Rightarrow> True | Inr fd' \<Rightarrow> file_ok w X fd' \<and> fd_size fd' = fd_size fd \<and> (\<exists>l. fd_sectors fd' = fd_sectors fd @ [l]))"
proof -
  have g: "geom v" using assms(1) by (simp add: vol_base_def)
  obtain v1 l where a: "alloc_sector v = (v1, l)" by (metis surj_pair)
  note spec = alloc_spec [OF g a]
  show ?thesis
  proof (cases "l = 0")
    case True
    then show ?thesis using assms(4) a spec by (auto simp: fd_grow_def)
  next
    case False
    let ?i = "fd_segment_count fd - 1"
    obtain b n where s: "fd_seg fd ! ?i = (b, n)" by (metis surj_pair)
    have l: "l < total_of v" "l div BITS_PER_SECTOR < maps_of v" "\<not> marks v l" "marks v1 = (marks v)(l := True)" "l < W32"
      and k1: "kept (map_sectors v) v v1"
      using spec False g by (auto simp: geom_def)
    have gr: "grows v v1" using l(4) by (simp add: grows_def)
    have "meta v \<le> l" using l assms(1) by (auto simp: vol_base_def intro: leI)
    then have new: "held v1 l" "l \<notin> X" "l \<notin> set (fd_sectors fd)" using l kept_same [OF k1] assms(2,3) by (auto simp: held_def file_ok_def)
    have fits: "fd_fits fd" using assms(2) by (simp add: file_ok_def)
    have keep: "file_ok v1 X fd" by (rule file_ok_keep [OF assms(2) k1 gr])
    have added: "file_ok v1 X fd'" if "fd_sectors fd' = fd_sectors fd @ [l]" "fd_fits fd'" for fd'
      using keep new that by (auto simp: file_ok_def)
    consider "fd_segment_count fd > 0" "cast32 (b + n) = l" | "\<not> (fd_segment_count fd > 0 \<and> cast32 (b + n) = l)" "MAX_SEGMENTS \<le> fd_segment_count fd"
      | "\<not> (fd_segment_count fd > 0 \<and> cast32 (b + n) = l)" "fd_segment_count fd < MAX_SEGMENTS" by linarith
    then show ?thesis
    proof cases
      case 1
      let ?fd = "fd\<lparr>fd_seg := (fd_seg fd)[?i := (b, n + 1)]\<rparr>"
      note e = sectors_extend [OF fits 1(1) s]
      have "n + 1 < W32" using e file_small [OF assms(2) g] g by (auto simp: geom_def)
      moreover have "(b, n) \<in> set (fd_seg fd)" using s fits 1(1) by (metis diff_less fd_fits_def less_le_trans less_numeral_extra(1) nth_mem)
      then have "b < W32" using fits by (auto simp: fd_fits_def)
      ultimately have "fd_fits ?fd" using fits by (auto simp: fd_fits_def dest!: set_update_subset_insert [THEN subsetD])
      then have "file_ok v1 X ?fd" using added [of ?fd] e 1(2) by simp
      moreover have "w = v1" "r = Inr ?fd" using assms(4) a False 1 s by (simp_all add: fd_grow_def Let_def)
      ultimately show ?thesis using k1 gr e by auto
    next
      case 2
      obtain e where w: "bitmap_set l False v1 = (w, e)" and r: "r = Inl RV9_IO_ERR_IO"
        using assms(4) a False 2 s by (cases "bitmap_set l False v1") (auto simp: fd_grow_def Let_def)
      have "geom v1" using g kept_same [OF k1] by simp
      note u = bitmap_set_marks [OF this l(5) w]
      have "kept (map_sectors v) v w"
        using kept_trans [OF k1 conjunct1 [OF u], of "map_sectors v"] l(2) by (auto simp: map_sectors_def)
      moreover have "grows v w" using u l gr by (auto simp: grows_def split: if_splits)
      ultimately show ?thesis using r by simp
    next
      case 3
      let ?fd = "fd_add_seg l fd"
      have "fd_fits ?fd" using fits 3(2) l(5) by (auto simp: fd_fits_def fd_add_seg_def dest!: set_update_subset_insert [THEN subsetD])
      moreover note sectors_add_seg [OF fits 3(2) l(5)]
      moreover have "w = v1" "r = Inr ?fd" using assms(4) a False 3 s by (auto simp add: fd_grow_def Let_def)
      ultimately show ?thesis using k1 gr added [of ?fd] by (auto simp: fd_add_seg_def)
    qed
  qed
qed

lemma grow_loop_ok:
  assumes "vol_base v" "file_ok v X fd" "\<forall>l\<in>X. held v l" "grow_loop n fd dirty v = (w, fd', dirty', grown)"
  shows "kept (map_sectors v) v w \<and> grows v w \<and> file_ok w X fd' \<and> fd_size fd' = fd_size fd \<and> (dirty \<longrightarrow> dirty') \<and>
    (\<exists>ls. fd_sectors fd' = fd_sectors fd @ ls \<and> (grown \<longrightarrow> length ls = n) \<and> (ls \<noteq> [] \<longrightarrow> dirty') \<and> (ls = [] \<longrightarrow> fd' = fd \<and> dirty' = dirty))"
  using assms
proof (induction n arbitrary: fd dirty v)
  case (Suc n)
  obtain v1 r where r: "fd_grow fd v = (v1, r)" by (metis surj_pair)
  note one = fd_grow_ok [OF Suc.prems(1-3) r]
  show ?case
  proof (cases r)
    case (Inl e)
    then show ?thesis using Suc.prems(2,4) r one file_ok_keep [OF Suc.prems(2)] by auto
  next
    case (Inr fd1)
    have l1: "grow_loop n fd1 True v1 = (w, fd', dirty', grown)" using Suc.prems(4) r Inr by simp
    have o: "kept (map_sectors v) v v1" "grows v v1" "file_ok v1 X fd1" "fd_size fd1 = fd_size fd" using one Inr by simp_all
    obtain l where l: "fd_sectors fd1 = fd_sectors fd @ [l]" using one Inr by auto
    have h: "\<forall>l\<in>X. held v1 l" using Suc.prems(3) grows_held [OF o(2,1)] by blast
    note IH = Suc.IH [OF vol_base_keep [OF Suc.prems(1) o(1,2)] o(3) h l1]
    obtain ls where ls: "fd_sectors fd' = fd_sectors fd1 @ ls" "grown \<longrightarrow> length ls = n" using IH by blast
    have "kept (map_sectors v) v w" "grows v w"
      using IH kept_trans [OF o(1), of "map_sectors v1" w "map_sectors v"] grows_trans [OF o(2)] kept_same [OF o(1)] by auto
    then show ?thesis using IH o(4) l ls by auto
  qed
qed simp


section \<open>Writing and reading\<close>

definition file_byte :: "vol \<Rightarrow> rbf_fd \<Rightarrow> nat \<Rightarrow> 8 word" where
  "file_byte v fd k = dat v (fd_sectors fd ! (k div SECTOR_SIZE)) (k mod SECTOR_SIZE)"

abbreviation room_of :: "rbf_fd \<Rightarrow> nat" where
  "room_of fd \<equiv> SECTOR_SIZE * length (fd_sectors fd)"

lemma room_index: "k < room_of fd \<longleftrightarrow> k div SECTOR_SIZE < length (fd_sectors fd)"
  by (simp add: SECTOR_SIZE_def less_mult_imp_div_less) (auto simp: div_less_iff_less_mult mult.commute)

lemma sector_pos: "0 < SECTOR_SIZE"
  by (simp add: SECTOR_SIZE_def)

text \<open>One sector of a file rewritten from \<open>within\<close> on.\<close>

lemma write_chunk:
  assumes "kept {l} v w" "l = fd_sectors fd ! (pos div SECTOR_SIZE)" "pos div SECTOR_SIZE < length (fd_sectors fd)"
    "distinct (fd_sectors fd)" "dat w l = store_bytes (pos mod SECTOR_SIZE) cs s" "length cs \<le> SECTOR_SIZE - pos mod SECTOR_SIZE"
    "length cs \<noteq> SECTOR_SIZE \<Longrightarrow> s = dat v l" "k < room_of fd"
  shows "file_byte w fd k = (if pos \<le> k \<and> k < pos + length cs then cs ! (k - pos) else file_byte v fd k)"
proof -
  let ?q = "pos div SECTOR_SIZE" and ?r = "pos mod SECTOR_SIZE" and ?j = "k div SECTOR_SIZE" and ?m = "k mod SECTOR_SIZE"
  have p: "pos = SECTOR_SIZE * ?q + ?r" "k = SECTOR_SIZE * ?j + ?m" "?r < SECTOR_SIZE" "?m < SECTOR_SIZE" using sector_pos by simp_all
  have j: "?j < length (fd_sectors fd)" using assms(8) by (simp add: room_index)
  show ?thesis
  proof (cases "?j = ?q")
    case True
    define Q where "Q = SECTOR_SIZE * ?q"
    have pk: "pos = Q + ?r" "k = Q + ?m" using p(1,2) True unfolding Q_def by metis+
    then have "pos \<le> k \<longleftrightarrow> ?r \<le> ?m" "k < pos + length cs \<longleftrightarrow> ?m < ?r + length cs" "k - pos = ?m - ?r"
      using pk p by linarith+
    moreover have "s ?m = dat v l ?m" if "\<not> (?r \<le> ?m \<and> ?m < ?r + length cs)"
      using that assms(6,7) p(4) by (cases "length cs = SECTOR_SIZE") auto
    ultimately show ?thesis using True assms(2,5) by (auto simp: file_byte_def)
  next
    case False
    then have "fd_sectors fd ! ?j \<noteq> l" using assms(2-4) j by (simp add: nth_eq_iff_index_eq)
    then have "file_byte w fd k = file_byte v fd k" using assms(1) by (simp add: file_byte_def kept_def)
    moreover have "\<not> (pos \<le> k \<and> k < pos + length cs)"
    proof (cases "?j < ?q")
      case True
      then have "SECTOR_SIZE * Suc ?j \<le> SECTOR_SIZE * ?q" by (intro mult_le_mono2) simp
      then have "SECTOR_SIZE * ?j + SECTOR_SIZE \<le> SECTOR_SIZE * ?q" by simp
      then have "k < pos" using p by linarith
      then show ?thesis by simp
    next
      case False
      then have "SECTOR_SIZE * Suc ?q \<le> SECTOR_SIZE * ?j" using \<open>?j \<noteq> ?q\<close> by (intro mult_le_mono2) simp
      then have "SECTOR_SIZE * ?q + SECTOR_SIZE \<le> SECTOR_SIZE * ?j" by simp
      then have "pos + length cs \<le> k" using p assms(6) by linarith
      then show ?thesis by simp
    qed
    ultimately show ?thesis by auto
  qed
qed

lemma write_loop_ok:
  assumes "vol_base v" "file_ok v X fd" "\<forall>l\<in>X. held v l" "write_loop bs pos fd dirty v = (w, fd', dirty', pos', moved)"
  shows "kept (map_sectors v \<union> set (fd_sectors fd')) v w \<and> grows v w \<and> file_ok w X fd' \<and> fd_size fd' = fd_size fd \<and>
    moved \<le> length bs \<and> (dirty \<longrightarrow> dirty') \<and> (\<not> dirty' \<longrightarrow> fd' = fd) \<and> (\<exists>ls. fd_sectors fd' = fd_sectors fd @ ls) \<and>
    (pos + length bs + SECTOR_SIZE < W32 \<longrightarrow>
      pos' = pos + moved \<and> (moved > 0 \<longrightarrow> pos + moved \<le> room_of fd') \<and>
      (\<forall>k<room_of fd'. file_byte w fd' k = (if pos \<le> k \<and> k < pos + moved then bs ! (k - pos) else file_byte v fd' k)) \<and>
      ((\<forall>l<total_of v. dk_rd (vl_disk v) l = RV9_IO_OK) \<and> pos + length bs \<le> room_of fd \<longrightarrow> moved = length bs))"
  using assms
proof (induction bs arbitrary: pos fd dirty v moved rule: measure_induct_rule [of length])
  case (less bs)
  show ?case
  proof (cases "bs = []")
    case True
    then have "w = v" "fd' = fd" "dirty' = dirty" "pos' = pos" "moved = 0" using less.prems(4) by (simp_all add: write_loop.simps)
    then show ?thesis using less.prems(2) \<open>bs = []\<close> by auto
  next
    case bs: False
    let ?n = "cast32 (pos + SECTOR_SIZE) div SECTOR_SIZE - sector_have fd"
    obtain v1 fd1 dirty1 grown where gl: "grow_loop ?n fd dirty v = (v1, fd1, dirty1, grown)" by (metis prod_cases4)
    note g = grow_loop_ok [OF less.prems(1-3) gl]
    obtain ls where ls: "fd_sectors fd1 = fd_sectors fd @ ls" "grown \<longrightarrow> length ls = ?n" "ls \<noteq> [] \<longrightarrow> dirty1" "ls = [] \<longrightarrow> fd1 = fd \<and> dirty1 = dirty"
      using g by blast
    let ?lsn = "offset_to_lsn fd1 pos" and ?r = "pos mod SECTOR_SIZE"
    let ?c = "min (SECTOR_SIZE - ?r) (length bs)"
    let ?rd = "if ?r \<noteq> 0 \<or> ?c \<noteq> SECTOR_SIZE then vread ?lsn v1 else Inr zero_sector"
    have geom: "geom v" using less.prems(1) by (simp add: vol_base_def)
    note hv = sector_have_length [OF less.prems(2) geom]
    have k1: "kept (map_sectors v) v v1" "grows v v1" "file_ok v1 X fd1" "fd_size fd1 = fd_size fd" using g by auto
    have b1: "vol_base v1" by (rule vol_base_keep [OF less.prems(1) k1(1,2)])
    have c: "0 < ?c" "?c \<le> length bs" "?c \<le> SECTOR_SIZE - ?r" using bs sector_pos by auto
    have unread: "map_sectors v \<inter> set (fd_sectors fd1) = {}"
      using k1(3) kept_same [OF k1(1)] geom by (auto simp: file_ok_def held_def map_sectors_def geom_def meta_def)
    have same1: "file_byte v1 fd1 k = file_byte v fd1 k" if "k < room_of fd1" for k
    proof -
      have "fd_sectors fd1 ! (k div SECTOR_SIZE) \<in> set (fd_sectors fd1)" using that by (simp add: room_index)
      then show ?thesis using k1(1) unread by (auto simp: file_byte_def kept_def)
    qed
    have stop: ?thesis if "w = v1" "fd' = fd1" "dirty' = dirty1" "pos' = pos" "moved = 0"
      "(\<forall>l<total_of v. dk_rd (vl_disk v) l = RV9_IO_OK) \<and> pos + length bs \<le> room_of fd \<Longrightarrow> pos + length bs + SECTOR_SIZE < W32 \<Longrightarrow> False"
      using that g ls k1 same1 by (auto intro: kept_mono)
    show ?thesis
    proof (cases "grown \<and> ?lsn \<noteq> 0")
      case False
      then have "w = v1" "fd' = fd1" "dirty' = dirty1" "pos' = pos" "moved = 0"
        using less.prems(4) gl bs by (auto simp: write_loop.simps [of bs] Let_def)
      then show ?thesis
      proof (rule stop)
        assume "(\<forall>l<total_of v. dk_rd (vl_disk v) l = RV9_IO_OK) \<and> pos + length bs \<le> room_of fd" "pos + length bs + SECTOR_SIZE < W32"
        then have p: "pos < room_of fd" "cast32 (pos + SECTOR_SIZE) div SECTOR_SIZE = Suc (pos div SECTOR_SIZE)"
          using bs sector_pos div_add_self2 [of SECTOR_SIZE pos] by (cases bs; simp)+
        then have q: "pos div SECTOR_SIZE < length (fd_sectors fd)" by (simp add: room_index)
        then have "?n = 0" using p(2) hv by simp
        then have "grown" "fd1 = fd" using gl by simp_all
        moreover have "held v (fd_sectors fd ! (pos div SECTOR_SIZE))" using less.prems(2) nth_mem [OF q] by (simp add: file_ok_def)
        then have "fd_sectors fd ! (pos div SECTOR_SIZE) \<noteq> 0" using geom by (auto simp: held_def geom_def meta_def)
        ultimately show False using False q by (simp add: offset_nth)
      qed
    next
      case on: True
      then have q: "pos div SECTOR_SIZE < length (fd_sectors fd1)" "?lsn = fd_sectors fd1 ! (pos div SECTOR_SIZE)"
        by (auto simp: offset_nth split: if_splits)
      then have lsn: "?lsn \<in> set (fd_sectors fd1)" by simp
      then have held: "held v1 ?lsn" "?lsn \<notin> X" "?lsn < total_of v" using k1(3) kept_same [OF k1(1)] by (auto simp: file_ok_def held_def)
      show ?thesis
      proof (cases ?rd)
        case (Inl e)
        then have "w = v1" "fd' = fd1" "dirty' = dirty1" "pos' = pos" "moved = 0"
          using less.prems(4) gl bs on by (auto simp: write_loop.simps [of bs] Let_def)
        then show ?thesis
        proof (rule stop)
          assume "(\<forall>l<total_of v. dk_rd (vl_disk v) l = RV9_IO_OK) \<and> pos + length bs \<le> room_of fd"
          then show False using Inl held(3) kept_same [OF k1(1)] by (auto simp: vread_def rd_def split: if_splits)
        qed
      next
        case (Inr s)
        obtain v2 e where w2: "vwrite ?lsn (store_bytes ?r (take ?c bs) s) v1 = (v2, e)" by (metis surj_pair)
        have "dk_wr (vl_disk v1) ?lsn = RV9_IO_OK" using b1 held(1) by (simp add: vol_base_def held_def)
        then have k2: "kept {?lsn} v1 v2" "e = RV9_IO_OK" "dat v2 ?lsn = store_bytes ?r (take ?c bs) s"
          using vwrite_kept [OF w2] by (simp_all split: if_splits)
        have "\<not> ?lsn < meta v1" using held(1) by (simp add: held_def)
        then have marks2: "marks v2 l = marks v1 l" if "l div BITS_PER_SECTOR < maps_of v1" for l
          using k2(1) that b1 by (auto simp: marks_def kept_def vol_base_def geom_def meta_def)
        have g2: "grows v1 v2" using marks2 by (simp add: grows_def)
        obtain n where rest: "write_loop (drop ?c bs) (cast32 (pos + ?c)) fd1 dirty1 v2 = (w, fd', dirty', pos', n)" "moved = ?c + n"
          using less.prems(4) gl bs on Inr w2 k2(2)
          by (auto simp: write_loop.simps [of bs] Let_def simp del: min_def split: prod.splits)
        have "length (drop ?c bs) < length bs" using c by simp
        note IH = less.IH [OF this vol_base_keep [OF b1 k2(1) g2] file_ok_keep [OF k1(3) k2(1) g2] _ rest(1)]
        have X2: "\<forall>l\<in>X. held v2 l"
          using less.prems(3) grows_held [OF k1(2,1)] grows_held [OF g2 k2(1)] by blast
        note IH = IH [OF X2]
        obtain ls' where ls': "fd_sectors fd' = fd_sectors fd1 @ ls'" using IH by blast
        have same: "maps_of v2 = maps_of v" "maps_of v1 = maps_of v" "map_sectors v2 = map_sectors v" "total_of v2 = total_of v"
          "dk_rd (vl_disk v2) = dk_rd (vl_disk v)"
          using kept_same [OF k1(1)] kept_same [OF k2(1)] by simp_all
        have k02: "kept (map_sectors v \<union> set (fd_sectors fd')) v v2"
          using lsn ls' by (intro kept_trans [OF k1(1) k2(1)]) auto
        have kw: "kept (map_sectors v \<union> set (fd_sectors fd')) v w"
          using kept_trans [OF k02 conjunct1 [OF IH]] same by simp
        have gw: "grows v w" using grows_trans [OF grows_trans [OF k1(2) g2 same(2)] _ same(1)] IH by blast
        have content: "file_byte w fd' k = (if pos \<le> k \<and> k < pos + moved then bs ! (k - pos) else file_byte v fd' k)"
          if small: "pos + length bs + SECTOR_SIZE < W32" and k: "k < room_of fd'" for k
        proof -
          have "cast32 (pos + ?c) = pos + ?c" using small c(2) by (simp add: cast32_def del: min_less_iff_conj)
          then have w2: "file_byte w fd' k = (if pos + ?c \<le> k \<and> k < pos + ?c + n then drop ?c bs ! (k - (pos + ?c)) else file_byte v2 fd' k)"
            using IH k small c(2) by simp
          have fok: "file_ok w X fd'" using IH by blast
          then have dist: "distinct (fd_sectors fd')" by (simp add: file_ok_def)
          have len: "length (take ?c bs) = ?c" by simp
          have "s = dat v1 ?lsn" if "length (take ?c bs) \<noteq> SECTOR_SIZE"
            using that Inr unfolding len by (auto simp: vread_def rd_def split: if_splits)
          then have c2: "file_byte v2 fd' k = (if pos \<le> k \<and> k < pos + ?c then take ?c bs ! (k - pos) else file_byte v1 fd' k)"
            using write_chunk [OF k2(1), of fd' pos "take ?c bs" s k] q ls' dist k2(3) c(3) k unfolding len by (simp add: nth_append)
          have "fd_sectors fd' ! (k div SECTOR_SIZE) \<in> set (fd_sectors fd')" using k by (simp add: room_index)
          then have "held w (fd_sectors fd' ! (k div SECTOR_SIZE))" using fok by (simp add: file_ok_def)
          then have "meta v \<le> fd_sectors fd' ! (k div SECTOR_SIZE)" using kept_same(2) [OF kw] by (simp add: held_def)
          then have "fd_sectors fd' ! (k div SECTOR_SIZE) \<notin> map_sectors v" using geom by (simp add: map_sectors_def geom_def meta_def)
          then have "file_byte v1 fd' k = file_byte v fd' k" using k1(1) by (simp add: file_byte_def kept_def)
          then show ?thesis unfolding w2 c2 rest(2) using c(2) by (auto simp del: min_less_iff_conj)
        qed
        have ends: "pos' = pos + moved \<and> pos + moved \<le> room_of fd' \<and>
            ((\<forall>l<total_of v. dk_rd (vl_disk v) l = RV9_IO_OK) \<and> pos + length bs \<le> room_of fd \<longrightarrow> moved = length bs)"
          if small: "pos + length bs + SECTOR_SIZE < W32"
        proof -
          have cc: "cast32 (pos + ?c) = pos + ?c" using small c(2) by (simp add: cast32_def del: min_less_iff_conj)
          have "pos = SECTOR_SIZE * (pos div SECTOR_SIZE) + ?r" "?r < SECTOR_SIZE" using sector_pos by simp_all
          then have "pos + ?c \<le> SECTOR_SIZE * (pos div SECTOR_SIZE) + SECTOR_SIZE" using c(3) by linarith
          also have "\<dots> = SECTOR_SIZE * Suc (pos div SECTOR_SIZE)" by simp
          also have "\<dots> \<le> SECTOR_SIZE * length (fd_sectors fd1)" using q(1) by (intro mult_le_mono2) simp
          also have "\<dots> \<le> room_of fd'" using ls' by simp
          finally have r: "pos + ?c \<le> room_of fd'" .
          have "room_of fd \<le> room_of fd1" using ls(1) by simp
          have left: "pos + ?c + length (drop ?c bs) = pos + length bs" using c(2) by simp
          then have sm: "cast32 (pos + ?c) + length (drop ?c bs) + SECTOR_SIZE < W32" using small unfolding cc by simp
          have E: "pos' = pos + ?c + n" "n > 0 \<longrightarrow> pos + ?c + n \<le> room_of fd'"
            "(\<forall>l<total_of v. dk_rd (vl_disk v) l = RV9_IO_OK) \<and> pos + length bs \<le> room_of fd1 \<longrightarrow> n = length (drop ?c bs)"
            using IH sm unfolding cc same left by blast+
          have "pos + moved \<le> room_of fd'" using E(2) r rest(2) by (cases "n = 0") (simp_all add: add.assoc)
          moreover have "moved = length bs" if "n = length (drop ?c bs)" using that rest(2) c(2) by simp
          ultimately show ?thesis using E(1,3) rest(2) \<open>room_of fd \<le> room_of fd1\<close> by (simp only: add.assoc) (metis order_trans)
        qed
        have "file_ok w X fd'" "fd_size fd' = fd_size fd" using IH k1(4) by simp_all
        moreover have "n \<le> length (drop ?c bs)" using IH by blast
        then have "moved \<le> length bs" using rest(2) c(2) by simp
        moreover have d: "dirty1 \<longrightarrow> dirty'" "\<not> dirty' \<longrightarrow> fd' = fd1" using IH by blast+
        have "dirty \<longrightarrow> dirty'" "\<not> dirty' \<longrightarrow> fd' = fd" using d g ls(3,4) by blast+
        moreover have "\<exists>ls. fd_sectors fd' = fd_sectors fd @ ls" using ls(1) ls' by simp
        ultimately show ?thesis using kw gw content ends by blast
      qed
    qed
  qed
qed


lemma read_loop_ok:
  assumes "geom v" "file_ok v X fd" "pos + left < W32"
  shows "\<exists>m\<le>left. read_loop fd v pos left = map (file_byte v fd) [pos..<pos + m] \<and>
    ((\<forall>l\<in>set (fd_sectors fd). dk_rd (vl_disk v) l = RV9_IO_OK) \<and> pos + left \<le> room_of fd \<longrightarrow> m = left)"
  using assms(3)
proof (induction left arbitrary: pos rule: less_induct)
  case (less left)
  let ?q = "pos div SECTOR_SIZE" and ?r = "pos mod SECTOR_SIZE"
  let ?c = "min (SECTOR_SIZE - ?r) left" and ?lsn = "offset_to_lsn fd pos"
  show ?case
  proof (cases "left = 0")
    case True
    then show ?thesis by (simp add: read_loop.simps)
  next
    case False
    then have c: "0 < ?c" "?c \<le> left" "?c \<le> SECTOR_SIZE - ?r" using sector_pos by auto
    have stop: ?thesis if "read_loop fd v pos left = []"
        "(\<forall>l\<in>set (fd_sectors fd). dk_rd (vl_disk v) l = RV9_IO_OK) \<and> pos + left \<le> room_of fd \<Longrightarrow> False"
      using that by (intro exI [of _ 0]) auto
    have inside: "?q < length (fd_sectors fd) \<and> fd_sectors fd ! ?q \<in> set (fd_sectors fd) \<and> fd_sectors fd ! ?q \<noteq> 0"
      if "pos < room_of fd"
    proof -
      have q: "?q < length (fd_sectors fd)" using that by (simp add: room_index)
      then have "held v (fd_sectors fd ! ?q)" using nth_mem [OF q] assms(2) by (simp add: file_ok_def)
      then have "fd_sectors fd ! ?q \<noteq> 0" using assms(1) by (auto simp: held_def geom_def meta_def)
      then show ?thesis using q by simp
    qed
    show ?thesis
    proof (cases "?lsn = 0")
      case True
      then have "read_loop fd v pos left = []" using False by (simp add: read_loop.simps Let_def)
      then show ?thesis
      proof (rule stop)
        assume "(\<forall>l\<in>set (fd_sectors fd). dk_rd (vl_disk v) l = RV9_IO_OK) \<and> pos + left \<le> room_of fd"
        then have "pos < room_of fd" using False by linarith
        then show False using inside True by (simp add: offset_nth)
      qed
    next
      case lsn: False
      show ?thesis
      proof (cases "vread ?lsn v")
        case (Inl e)
        then have "read_loop fd v pos left = []" using False by (simp add: read_loop.simps Let_def)
        then show ?thesis
        proof (rule stop)
          assume a: "(\<forall>l\<in>set (fd_sectors fd). dk_rd (vl_disk v) l = RV9_IO_OK) \<and> pos + left \<le> room_of fd"
          then have "pos < room_of fd" using False by linarith
          then have "?lsn \<in> set (fd_sectors fd)" using inside by (simp add: offset_nth)
          then show False using a Inl by (auto simp: vread_def rd_def)
        qed
      next
        case (Inr s)
        have q: "?q < length (fd_sectors fd)" "?lsn = fd_sectors fd ! ?q" using lsn by (auto simp: offset_nth split: if_splits)
        have s: "s = dat v ?lsn" using Inr by (auto simp: vread_def rd_def split: if_splits)
        have cc: "cast32 (pos + ?c) = pos + ?c" using less.prems c(2) by (simp add: cast32_def del: min_less_iff_conj)
        have "left - ?c < left" "cast32 (pos + ?c) + (left - ?c) < W32" using c less.prems cc by simp_all
        from less.IH [OF this] obtain m where m: "m \<le> left - ?c" "read_loop fd v (pos + ?c) (left - ?c) = map (file_byte v fd) [pos + ?c..<pos + ?c + m]"
          "(\<forall>l\<in>set (fd_sectors fd). dk_rd (vl_disk v) l = RV9_IO_OK) \<and> pos + ?c + (left - ?c) \<le> room_of fd \<longrightarrow> m = left - ?c"
          unfolding cc by blast
        have "load_bytes ?c ?r s = map (file_byte v fd) [pos..<pos + ?c]"
        proof (rule nth_equalityI)
          fix i assume "i < length (load_bytes ?c ?r s)"
          then have i: "i < ?c" by (simp add: load_bytes_def)
          then have ri: "?r + i < SECTOR_SIZE" using c(3) by linarith
          have "pos + i = SECTOR_SIZE * ?q + (?r + i)" by simp
          then have "(pos + i) div SECTOR_SIZE = ?q" "(pos + i) mod SECTOR_SIZE = ?r + i"
            using ri by (metis div_mult_self4 add.commute div_less add.right_neutral sector_pos less_numeral_extra(3), metis mod_mult_self4 mod_less)
          then show "load_bytes ?c ?r s ! i = map (file_byte v fd) [pos..<pos + ?c] ! i"
            using i q(2) s by (simp add: load_bytes_def file_byte_def del: min_less_iff_conj)
        qed (simp add: load_bytes_def)
        moreover have "read_loop fd v pos left = load_bytes ?c ?r s @ read_loop fd v (pos + ?c) (left - ?c)"
          using False lsn Inr cc by (simp add: read_loop.simps [of fd v pos] Let_def)
        ultimately have "read_loop fd v pos left = map (file_byte v fd) [pos..<pos + (?c + m)]"
          using m(2) upt_add_eq_append [of pos "pos + ?c" m] by (simp add: add.assoc del: min_less_iff_conj)
        then show ?thesis using m(1,3) c(2) by (intro exI [of _ "?c + m"]) auto
      qed
    qed
  qed
qed

text \<open>
  C29: a file is an array of bytes. A write on a path whose file is in order moves its bytes, as many as it
  says, to the position and nothing else of the file changes; the file stays in order, its size covers
  what was written, and the sectors of others (any set \<open>X\<close> in use and not this file's) are as they were.
  When no new sector is needed and all can be read, all of the bytes are moved; and reading back gives
  what was written.
\<close>

theorem write_moves_bytes:
  assumes base: "vol_base v" "file_ok v X (rp_fd st)" "\<forall>l\<in>X. held v l" and st: "\<not> rp_is_dir st" "rp_pos st = int pos"
    and small: "pos + length bs + SECTOR_SIZE < W32" and w: "rbf_write st bs v = (w, st', e, moved)"
  shows "vol_base w \<and> file_ok w X (rp_fd st') \<and> moved \<le> length bs \<and> (e = RV9_IO_OK \<longleftrightarrow> moved > 0 \<or> bs = []) \<and>
    rp_pos st' = int (pos + moved) \<and> fd_size (rp_fd st') = max (fd_size (rp_fd st)) (pos + moved) \<and>
    (\<forall>k<room_of (rp_fd st). file_byte w (rp_fd st') k = (if pos \<le> k \<and> k < pos + moved then bs ! (k - pos) else file_byte v (rp_fd st) k)) \<and>
    (\<forall>l\<in>X. dat w l = dat v l) \<and>
    ((\<forall>l<total_of v. dk_rd (vl_disk v) l = RV9_IO_OK) \<longrightarrow>
      (pos + length bs \<le> room_of (rp_fd st) \<longrightarrow> moved = length bs) \<and>
      snd (rbf_read (st'\<lparr>rp_pos := int pos\<rparr>) moved w) = take moved bs)"
proof -
  let ?fd = "rp_fd st"
  obtain fd dirty p n where loop: "write_loop bs pos ?fd (rp_dirty st) v = (w, fd, dirty, p, n)"
    using w st small by (auto simp: rbf_write_def split: prod.splits)
  have m: "n = moved" "rp_fd st' = (if p > fd_size fd then fd\<lparr>fd_size := p\<rparr> else fd)" "rp_pos st' = int p" "\<not> rp_is_dir st'"
      "e = (if moved > 0 \<or> bs = [] then RV9_IO_OK else RV9_IO_ERR_IO)"
    using w st small loop by (auto simp: rbf_write_def)
  note ok = write_loop_ok [OF base loop]
  have k: "kept (map_sectors v \<union> set (fd_sectors fd)) v w" "grows v w" "file_ok w X fd" "fd_size fd = fd_size ?fd" "moved \<le> length bs"
    using ok m(1) by blast+
  obtain ls where ls: "fd_sectors fd = fd_sectors ?fd @ ls" using ok by blast
  have c: "p = pos + moved" "moved > 0 \<longrightarrow> pos + moved \<le> room_of fd"
    "\<forall>k<room_of fd. file_byte w fd k = (if pos \<le> k \<and> k < pos + moved then bs ! (k - pos) else file_byte v fd k)"
    "(\<forall>l<total_of v. dk_rd (vl_disk v) l = RV9_IO_OK) \<and> pos + length bs \<le> room_of ?fd \<longrightarrow> moved = length bs"
    using ok small m(1) by blast+
  have sec: "fd_sectors (rp_fd st') = fd_sectors fd" "fd_size (rp_fd st') = max (fd_size ?fd) (pos + moved)"
    using m(2) k(4) c(1) by (simp_all add: fd_sectors_def segments_def)
  have fok: "file_ok w X (rp_fd st')"
    using k(3) m(2) c(1) k(5) small by (auto simp: file_ok_def fd_fits_def fd_sectors_def segments_def)
  have byt: "file_byte w (rp_fd st') k = (if pos \<le> k \<and> k < pos + moved then bs ! (k - pos) else file_byte v fd k)" if "k < room_of fd" for k
    using c(3) that sec(1) by (simp add: file_byte_def)
  have old: "file_byte w (rp_fd st') k = (if pos \<le> k \<and> k < pos + moved then bs ! (k - pos) else file_byte v ?fd k)"
    if "k < room_of ?fd" for k
  proof -
    have "k div SECTOR_SIZE < length (fd_sectors ?fd)" using that by (simp add: room_index)
    moreover from this have "k < room_of fd" unfolding room_index using ls by simp
    ultimately have "k div SECTOR_SIZE < length (fd_sectors ?fd)" "k < room_of fd" by blast+
    then show ?thesis using byt [of k] ls by (simp add: file_byte_def nth_append)
  qed
  have gw: "geom w" using base(1) kept_same [OF k(1)] by (simp add: vol_base_def)
  have others: "dat w l = dat v l" if "l \<in> X" for l
  proof -
    have "l \<notin> set (fd_sectors fd)" using k(3) that by (auto simp: file_ok_def)
    moreover have "l \<notin> map_sectors v" using base that by (auto simp: vol_base_def held_def map_sectors_def geom_def meta_def)
    ultimately show ?thesis using k(1) by (simp add: kept_def)
  qed
  have readback: "snd (rbf_read (st'\<lparr>rp_pos := int pos\<rparr>) moved w) = take moved bs" if "\<forall>l<total_of v. dk_rd (vl_disk v) l = RV9_IO_OK"
  proof (cases "moved = 0")
    case True
    then show ?thesis by (simp add: rbf_read_def read_loop.simps Let_def)
  next
    case False
    then have r: "pos + moved \<le> room_of (rp_fd st')" "pos < fd_size (rp_fd st')" "min moved (fd_size (rp_fd st') - pos) = moved"
      using c(2) sec by auto
    have "dk_rd (vl_disk w) l = RV9_IO_OK" if "l \<in> set (fd_sectors (rp_fd st'))" for l
    proof -
      have "held w l" using fok that by (simp add: file_ok_def)
      then have "l < total_of v" using kept_same(3) [OF k(1)] by (simp add: held_def)
      then show ?thesis using \<open>\<forall>l<total_of v. dk_rd (vl_disk v) l = RV9_IO_OK\<close> kept_same(8) [OF k(1)] by simp
    qed
    moreover have "pos + moved < W32" using small k(5) by simp
    ultimately have "read_loop (rp_fd st') w pos moved = map (file_byte w (rp_fd st')) [pos..<pos + moved]"
      using read_loop_ok [OF gw fok, of pos moved] r(1) by auto
    also have "\<dots> = take moved bs"
      using byt r(1) sec(1) k(5) by (intro nth_equalityI) auto
    finally show ?thesis using r small by (simp add: rbf_read_def Let_def)
  qed
  show ?thesis using vol_base_keep [OF base(1) k(1,2)] fok k(5) m(3,5) c(1) sec(2) old others readback c(4) by auto
qed

text \<open>A file of one sector, 5, whose descriptor is in sector 4: three bytes written at 10.\<close>

definition one_file_vol :: vol where
  "one_file_vol = small_vol 16 1 0 ((\<lambda>_. zero_sector)(1 := zero_sector(0 := 63)))"

definition one_file_path :: rbf_path where
  "one_file_path = new_path\<lparr>rp_fd_lsn := 4, rp_pos := 10,
     rp_fd := zero_fd\<lparr>fd_size := 20, fd_segment_count := 1, fd_seg := (5, 1) # replicate 61 (0, 0)\<rparr>\<rparr>"

lemma one_file_marks: "marks one_file_vol l \<longleftrightarrow> l < 6" if "l div BITS_PER_SECTOR < 1"
proof -
  have "l < 4096" using that by (simp add: BITS_PER_SECTOR_def SECTOR_SIZE_def)
  then have l: "l div 8 mod 512 = l div 8" "l div BITS_PER_SECTOR = 0" by (auto simp: BITS_PER_SECTOR_def SECTOR_SIZE_def)
  have b: "bit (63 :: 8 word) n = (n < 6)" if "n < 8" for n
  proof -
    have "n \<in> {0, 1, 2, 3, 4, 5, 6, 7}" using that by auto
    then show ?thesis by (elim insertE emptyE) simp_all
  qed
  show ?thesis
  proof (cases "l < 8")
    case True
    then show ?thesis using l b [of l] by (simp add: marks_def one_file_vol_def SECTOR_SIZE_def)
  next
    case False
    then have "l div 8 \<noteq> 0" by simp
    then show ?thesis using l False by (simp add: marks_def one_file_vol_def SECTOR_SIZE_def zero_sector_def)
  qed
qed

lemma one_file_ok: "vol_base one_file_vol" "file_ok one_file_vol {4} (rp_fd one_file_path)" "\<forall>l\<in>{4}. held one_file_vol l"
proof -
  have g: "geom one_file_vol" unfolding one_file_vol_def by (rule small_geom) simp_all
  have m: "meta one_file_vol = 4" "maps_of one_file_vol = 1" "total_of one_file_vol = 16"
    by (simp_all add: one_file_vol_def meta_def small_vol_def format_ident_def maps_of_def total_of_def Let_def)
  show "vol_base one_file_vol" using g m one_file_marks by (simp add: vol_base_def one_file_vol_def)
  have h: "held one_file_vol l" if "l = 4 \<or> l = 5" for l using that one_file_marks [of l] m
    by (auto simp: held_def BITS_PER_SECTOR_def SECTOR_SIZE_def)
  then show "\<forall>l\<in>{4}. held one_file_vol l" by simp
  have "fd_sectors (rp_fd one_file_path) = [5]" by (simp add: fd_sectors_def segments_def one_file_path_def cast32_def)
  then show "file_ok one_file_vol {4} (rp_fd one_file_path)"
    using h by (simp add: file_ok_def) (simp add: fd_fits_def one_file_path_def zero_fd_def MAX_SEGMENTS_def)
qed

theorem write_moves_bytes_witness:
  "case rbf_write one_file_path [1, 2, 3] one_file_vol of (w, st, e, n) \<Rightarrow>
     n = 3 \<and> e = RV9_IO_OK \<and> fd_size (rp_fd st) = 20 \<and> snd (rbf_read (st\<lparr>rp_pos := 10\<rparr>) 3 w) = [1, 2, 3]"
proof -
  obtain w st e n where r: "rbf_write one_file_path [1, 2, 3] one_file_vol = (w, st, e, n)" by (metis prod_cases4)
  have p: "\<not> rp_is_dir one_file_path" "rp_pos one_file_path = int 10" "(10 :: nat) + length [1, 2, 3 :: 8 word] + SECTOR_SIZE < W32"
    "fd_size (rp_fd one_file_path) = 20" "room_of (rp_fd one_file_path) = 512" "\<forall>l<total_of one_file_vol. dk_rd (vl_disk one_file_vol) l = RV9_IO_OK"
    by (simp_all add: one_file_path_def new_path_def SECTOR_SIZE_def fd_sectors_def segments_def one_file_vol_def)
  note t = write_moves_bytes [OF one_file_ok p(1-3) r]
  have n: "n = 3" using t p by simp
  have "snd (rbf_read (st\<lparr>rp_pos := int 10\<rparr>) n w) = take n [1, 2, 3]" "fd_size (rp_fd st) = max (fd_size (rp_fd one_file_path)) (10 + n)"
    "e = RV9_IO_OK \<longleftrightarrow> n > 0 \<or> [1, 2, 3 :: 8 word] = []"
    using t p(6) by blast+
  then show ?thesis using n p(4) unfolding r by simp
qed

end
