(* ===== verification/RbfVolume.thy ===== *)
theory RbfVolume
  imports RbfFile
begin

text \<open>
  A volume under use: what every file owns, that no two files own the same sector, and that every
  operation keeps it so, as long as no file is open twice and none is removed while open.
\<close>

section \<open>Files of a volume\<close>

definition slots_of :: "vol \<Rightarrow> nat" where
  "slots_of v = id_root_sectors (vl_ident v) * DIR_ENTRIES_PER_SECTOR"

definition slot :: "vol \<Rightarrow> nat \<Rightarrow> rbf_dirent" where
  "slot v i = dirent_of (dat v (id_root_lsn (vl_ident v) + i div DIR_ENTRIES_PER_SECTOR)) (i mod DIR_ENTRIES_PER_SECTOR)"

definition ent :: "vol \<Rightarrow> nat \<Rightarrow> nat" where
  "ent v i = de_fd_lsn (slot v i)"

definition live :: "vol \<Rightarrow> nat set" where
  "live v = {i. i < slots_of v \<and> ent v i \<noteq> 0}"

definition is_file :: "rbf_path \<Rightarrow> nat \<Rightarrow> bool" where
  "is_file p F \<longleftrightarrow> \<not> rp_is_dir p \<and> rp_fd_lsn p = F"

text \<open>An open file's descriptor is its path's copy, a closed one's is on the medium.\<close>

definition open_fd :: "rbf_path list \<Rightarrow> nat \<Rightarrow> rbf_fd option" where
  "open_fd P F = map_option rp_fd (find (\<lambda>p. is_file p F) P)"

definition cur :: "vol \<Rightarrow> rbf_path list \<Rightarrow> nat \<Rightarrow> rbf_fd" where
  "cur v P F = (case open_fd P F of Some fd \<Rightarrow> fd | None \<Rightarrow> fd_of (dat v F))"

definition own :: "vol \<Rightarrow> rbf_path list \<Rightarrow> nat \<Rightarrow> nat set" where
  "own v P F = insert F (set (fd_sectors (cur v P F)))"

definition file_inv :: "vol \<Rightarrow> rbf_path list \<Rightarrow> nat \<Rightarrow> bool" where
  "file_inv v P F \<longleftrightarrow> held v F \<and> file_ok v {F} (cur v P F)"

definition one_path :: "rbf_path list \<Rightarrow> bool" where
  "one_path P \<longleftrightarrow> (\<forall>a<length P. \<forall>b<length P. \<not> rp_is_dir (P ! a) \<and> \<not> rp_is_dir (P ! b) \<and>
     rp_fd_lsn (P ! a) = rp_fd_lsn (P ! b) \<longrightarrow> a = b)"

definition path_ok :: "vol \<Rightarrow> rbf_path \<Rightarrow> bool" where
  "path_ok v p \<longleftrightarrow> rp_is_dir p \<or> rp_fd_lsn p \<in> ent v ` live v \<and> (\<not> rp_dirty p \<longrightarrow> rp_fd p = fd_of (dat v (rp_fd_lsn p)))"

definition vol_inv :: "vol \<times> rbf_path list \<Rightarrow> bool" where
  "vol_inv s = (case s of (v, P) \<Rightarrow>
     vol_base v \<and> vl_mounted v \<and> (\<forall>i\<in>live v. file_inv v P (ent v i)) \<and>
     (\<forall>i\<in>live v. \<forall>j\<in>live v. i \<noteq> j \<longrightarrow> own v P (ent v i) \<inter> own v P (ent v j) = {}) \<and>
     one_path P \<and> (\<forall>p\<in>set P. path_ok v p))"

lemma vol_invD:
  assumes "vol_inv (v, P)"
  shows "vol_base v" "vl_mounted v" "i \<in> live v \<Longrightarrow> file_inv v P (ent v i)"
    "i \<in> live v \<Longrightarrow> j \<in> live v \<Longrightarrow> i \<noteq> j \<Longrightarrow> own v P (ent v i) \<inter> own v P (ent v j) = {}"
    "one_path P" "p \<in> set P \<Longrightarrow> path_ok v p"
  using assms unfolding vol_inv_def by blast+

lemma vol_invI:
  assumes "vol_base v" "vl_mounted v" "\<And>i. i \<in> live v \<Longrightarrow> file_inv v P (ent v i)"
    "\<And>i j. i \<in> live v \<Longrightarrow> j \<in> live v \<Longrightarrow> i \<noteq> j \<Longrightarrow> own v P (ent v i) \<inter> own v P (ent v j) = {}"
    "one_path P" "\<And>p. p \<in> set P \<Longrightarrow> path_ok v p"
  shows "vol_inv (v, P)"
  using assms unfolding vol_inv_def by blast

lemma open_fd_iff:
  assumes "one_path P"
  shows "open_fd P F = Some fd \<longleftrightarrow> (\<exists>a<length P. is_file (P ! a) F \<and> rp_fd (P ! a) = fd)"
proof
  assume "\<exists>a<length P. is_file (P ! a) F \<and> rp_fd (P ! a) = fd"
  then obtain a where a: "a < length P" "is_file (P ! a) F" "rp_fd (P ! a) = fd" by blast
  have "find (\<lambda>p. is_file p F) P = Some (P ! a)"
  proof (cases "find (\<lambda>p. is_file p F) P")
    case None
    then show ?thesis using a(1,2) by (auto simp: find_None_iff)
  next
    case (Some p)
    then obtain b where "b < length P" "is_file (P ! b) F" "p = P ! b" by (auto simp: find_Some_iff)
    moreover from this have "b = a" using assms a(1,2) by (auto simp: one_path_def is_file_def)
    ultimately show ?thesis using Some by simp
  qed
  then show "open_fd P F = Some fd" using a(3) by (simp add: open_fd_def)
qed (auto simp: open_fd_def find_Some_iff)

lemma open_fd_None: "open_fd P F = None \<longleftrightarrow> (\<forall>p\<in>set P. \<not> is_file p F)"
  by (auto simp: open_fd_def find_None_iff)

lemma open_fd_snoc: "open_fd P (rp_fd_lsn p) = None \<Longrightarrow> open_fd (P @ [p]) F =
    (if is_file p F then Some (rp_fd p) else open_fd P F)"
proof -
  assume a: "open_fd P (rp_fd_lsn p) = None"
  have "find Q (P @ [p]) = (case find Q P of None \<Rightarrow> if Q p then Some p else None | Some x \<Rightarrow> Some x)" for Q
    by (induction P) auto
  then show ?thesis using a by (auto simp: open_fd_def is_file_def split: option.splits)
qed

lemma one_path_snoc: "one_path P \<Longrightarrow> open_fd P (rp_fd_lsn p) = None \<or> rp_is_dir p \<Longrightarrow> one_path (P @ [p])"
  unfolding one_path_def open_fd_None is_file_def by (auto simp: nth_append less_Suc_eq all_set_conv_all_nth)

lemma one_path_update: "one_path P \<Longrightarrow> rp_is_dir p = rp_is_dir (P ! k) \<Longrightarrow> rp_fd_lsn p = rp_fd_lsn (P ! k) \<Longrightarrow> one_path (P[k := p])"
proof -
  assume o: "one_path P" and p: "rp_is_dir p = rp_is_dir (P ! k)" "rp_fd_lsn p = rp_fd_lsn (P ! k)"
  have "rp_is_dir (P[k := p] ! a) = rp_is_dir (P ! a) \<and> rp_fd_lsn (P[k := p] ! a) = rp_fd_lsn (P ! a)" if "a < length P" for a
    using p that by (cases "a = k") auto
  then show ?thesis using o unfolding one_path_def by simp
qed

lemma open_fd_update:
  assumes "one_path P" "rp_is_dir p = rp_is_dir (P ! k)" "rp_fd_lsn p = rp_fd_lsn (P ! k)" "k < length P"
  shows "open_fd (P[k := p]) F = (if is_file p F then Some (rp_fd p) else open_fd P F)"
proof -
  note o = one_path_update [OF assms(1-3)]
  show ?thesis
  proof (cases "is_file p F")
    case True
    then show ?thesis using assms(4) open_fd_iff [OF o, of F "rp_fd p"] by auto
  next
    case False
    then have "\<not> is_file (P ! k) F" using assms(2,3) by (simp add: is_file_def)
    then have "open_fd (P[k := p]) F = Some fd \<longleftrightarrow> open_fd P F = Some fd" for fd
    proof -
      have "is_file (P[k := p] ! a) F \<and> rp_fd (P[k := p] ! a) = fd \<longleftrightarrow> is_file (P ! a) F \<and> rp_fd (P ! a) = fd" if "a < length P" for a
        using that False \<open>\<not> is_file (P ! k) F\<close> by (cases "a = k") auto
      then show ?thesis unfolding open_fd_iff [OF o] open_fd_iff [OF assms(1)] by auto
    qed
    then show ?thesis using False by (metis not_None_eq)
  qed
qed

definition without :: "nat \<Rightarrow> 'a list \<Rightarrow> 'a list" where
  "without k P = take k P @ drop (Suc k) P"

lemma without_nth: "k < length P \<Longrightarrow> a < length (without k P) \<Longrightarrow> without k P ! a = P ! (if a < k then a else Suc a) \<and> Suc a < Suc (length P) - (if a < k then 1 else 0) + 1"
  by (auto simp: without_def nth_append min_def)

lemma without_index: "k < length P \<Longrightarrow> b < length P \<Longrightarrow> b \<noteq> k \<Longrightarrow> \<exists>a<length (without k P). without k P ! a = P ! b"
  by (intro exI [of _ "if b < k then b else b - 1"]) (auto simp: without_def nth_append min_def)

lemma without_length: "k < length P \<Longrightarrow> length (without k P) = length P - 1"
  by (simp add: without_def)

lemma one_path_without: "one_path P \<Longrightarrow> k < length P \<Longrightarrow> one_path (without k P)"
proof (unfold one_path_def, intro allI impI)
  fix a b
  assume P: "\<forall>a<length P. \<forall>b<length P. \<not> rp_is_dir (P ! a) \<and> \<not> rp_is_dir (P ! b) \<and> rp_fd_lsn (P ! a) = rp_fd_lsn (P ! b) \<longrightarrow> a = b"
    and k: "k < length P" and ab: "a < length (without k P)" "b < length (without k P)"
    and eq: "\<not> rp_is_dir (without k P ! a) \<and> \<not> rp_is_dir (without k P ! b) \<and> rp_fd_lsn (without k P ! a) = rp_fd_lsn (without k P ! b)"
  let ?f = "\<lambda>a. if a < k then a else Suc a"
  have "?f a < length P" "?f b < length P" using ab k by (auto simp: without_length)
  moreover have "without k P ! a = P ! ?f a" "without k P ! b = P ! ?f b" using without_nth k ab by blast+
  ultimately have "?f a = ?f b" using P [rule_format, of "?f a" "?f b"] eq by simp
  then show "a = b" by (auto split: if_splits)
qed

lemma open_fd_without:
  assumes "one_path P" "k < length P"
  shows "open_fd (without k P) F = (if is_file (P ! k) F then None else open_fd P F)"
proof -
  have "(\<exists>a<length (without k P). is_file (without k P ! a) F \<and> rp_fd (without k P ! a) = fd) \<longleftrightarrow>
      \<not> is_file (P ! k) F \<and> (\<exists>a<length P. is_file (P ! a) F \<and> rp_fd (P ! a) = fd)" for fd
  proof
    assume "\<exists>a<length (without k P). is_file (without k P ! a) F \<and> rp_fd (without k P ! a) = fd"
    then obtain a where a: "a < length (without k P)" "is_file (without k P ! a) F" "rp_fd (without k P ! a) = fd" by blast
    let ?b = "if a < k then a else Suc a"
    have b: "?b < length P" "?b \<noteq> k" "is_file (P ! ?b) F" "rp_fd (P ! ?b) = fd"
      using a without_nth [OF assms(2) a(1)] assms(2) by (auto simp: without_length)
    then have "\<not> is_file (P ! k) F" using assms unfolding one_path_def is_file_def by metis
    then show "\<not> is_file (P ! k) F \<and> (\<exists>a<length P. is_file (P ! a) F \<and> rp_fd (P ! a) = fd)" using b by blast
  next
    assume r: "\<not> is_file (P ! k) F \<and> (\<exists>a<length P. is_file (P ! a) F \<and> rp_fd (P ! a) = fd)"
    then obtain b where "b < length P" "is_file (P ! b) F" "rp_fd (P ! b) = fd" "b \<noteq> k" by blast
    then show "\<exists>a<length (without k P). is_file (without k P ! a) F \<and> rp_fd (without k P ! a) = fd"
      using without_index [OF assms(2), of b] by auto
  qed
  then have "open_fd (without k P) F = Some fd \<longleftrightarrow> \<not> is_file (P ! k) F \<and> open_fd P F = Some fd" for fd
    unfolding open_fd_iff [OF assms(1)] open_fd_iff [OF one_path_without [OF assms]] .
  then show ?thesis by (metis not_None_eq)
qed


section \<open>The directory\<close>

lemma dir_sector: "geom v \<Longrightarrow> i < slots_of v \<Longrightarrow> id_root_lsn (vl_ident v) + i div DIR_ENTRIES_PER_SECTOR < meta v \<and>
    maps_of v < id_root_lsn (vl_ident v) + i div DIR_ENTRIES_PER_SECTOR"
  by (auto simp: slots_of_def meta_def DIR_ENTRIES_PER_SECTOR_def geom_def)

lemma slot_kept: "kept S v w \<Longrightarrow> id_root_lsn (vl_ident v) + i div DIR_ENTRIES_PER_SECTOR \<notin> S \<Longrightarrow> slot w i = slot v i"
  by (auto simp: slot_def kept_def same_vol_def)

lemma slots_kept: "kept S v w \<Longrightarrow> slots_of w = slots_of v"
  by (simp add: slots_of_def kept_def same_vol_def)

lemma live_kept:
  assumes "kept S v w" "geom v" "\<And>l. l \<in> S \<Longrightarrow> l \<le> maps_of v \<or> meta v \<le> l"
  shows "live w = live v \<and> (\<forall>i\<in>live v. ent w i = ent v i)"
proof -
  have "ent w i = ent v i" if "i < slots_of v" for i
  proof -
    have "id_root_lsn (vl_ident v) + i div DIR_ENTRIES_PER_SECTOR \<notin> S"
      using dir_sector [OF assms(2) that] assms(3) [of "id_root_lsn (vl_ident v) + i div DIR_ENTRIES_PER_SECTOR"] by linarith
    then show ?thesis using slot_kept [OF assms(1)] by (simp add: ent_def)
  qed
  then show ?thesis using slots_kept [OF assms(1)] by (auto simp: live_def)
qed

lemma dir_find_slot:
  assumes "geom v" "dir_find name v = Some (i, e)"
  shows "i < slots_of v \<and> e = slot v i \<and> dir_match name e \<and>
    dk_rd (vl_disk v) (id_root_lsn (vl_ident v) + i div DIR_ENTRIES_PER_SECTOR) = RV9_IO_OK"
proof -
  have scan: "i < slots_of v \<and> e = slot v i \<and> dir_match name e \<and>
      dk_rd (vl_disk v) (id_root_lsn (vl_ident v) + i div DIR_ENTRIES_PER_SECTOR) = RV9_IO_OK"
    if "set ss \<subseteq> {..<id_root_sectors (vl_ident v)}" "dir_scan name ss v = Some (i, e)" for ss
    using that
  proof (induction ss)
    case (Cons s ss)
    have s: "cast32 (id_root_lsn (vl_ident v) + s) = id_root_lsn (vl_ident v) + s" "s < id_root_sectors (vl_ident v)"
      using Cons.prems(1) assms(1) by (auto simp: geom_def meta_def cast32_def)
    obtain b where b: "vread (id_root_lsn (vl_ident v) + s) v = Inr b" using Cons.prems(2) s(1) by (auto split: sum.splits)
    then have b': "b = dat v (id_root_lsn (vl_ident v) + s)" "dk_rd (vl_disk v) (id_root_lsn (vl_ident v) + s) = RV9_IO_OK"
      by (auto simp: vread_def rd_def split: if_splits)
    show ?case
    proof (cases "find (\<lambda>i. dir_match name (dirent_of b i)) [0..<DIR_ENTRIES_PER_SECTOR]")
      case None
      then have "dir_scan name ss v = Some (i, e)" using Cons.prems(2) s(1) b by simp
      show ?thesis by (rule Cons.IH) (use Cons.prems(1) \<open>dir_scan name ss v = Some (i, e)\<close> in auto)
    next
      case (Some j)
      then have j: "j < DIR_ENTRIES_PER_SECTOR" "dir_match name (dirent_of b j)" by (auto simp: find_Some_iff)
      have "i = s * DIR_ENTRIES_PER_SECTOR + j" "e = dirent_of b j" using Cons.prems(2) s(1) b Some by simp_all
      moreover from this have "i div DIR_ENTRIES_PER_SECTOR = s" "i mod DIR_ENTRIES_PER_SECTOR = j" using j(1) by simp_all
      moreover have "(s + 1) * DIR_ENTRIES_PER_SECTOR \<le> slots_of v" unfolding slots_of_def using s(2) by (intro mult_le_mono1) simp
      ultimately show ?thesis using j b' by (simp add: slot_def)
    qed
  qed simp
  have "set [0..<id_root_sectors (vl_ident v)] \<subseteq> {..<id_root_sectors (vl_ident v)}" by auto
  then show ?thesis using scan assms(2) unfolding dir_find_def by blast
qed

lemma dirent_put:
  assumes "length (de_name e) = 28" "de_fd_lsn e < W32"
  shows "dirent_of (put_dirent i e s) j = (if j = i then e else dirent_of s j)"
proof (cases "j = i")
  case True
  then show ?thesis using load_field [of "32 * i" "32 * i" "[]" 28 "de_name e" "bytes32 (de_fd_lsn e)" s]
      u32_field [OF assms(2), of "32 * i + 28" "32 * i" "de_name e" "[]" s] assms
    by (simp add: dirent_of_def put_dirent_def)
next
  case False
  have out: "store_bytes (32 * i) (de_name e @ bytes32 (de_fd_lsn e)) s k = s k" if "32 * j \<le> k" "k < 32 * j + 32" for k
    using that assms(1) False by (cases "j < i") auto
  then have "load_bytes 28 (32 * j) (put_dirent i e s) = load_bytes 28 (32 * j) s"
    by (auto simp: load_bytes_def put_dirent_def simp del: store_nth)
  moreover have "u32_at (put_dirent i e s) (32 * j + 28) = u32_at s (32 * j + 28)"
    using out by (simp add: u32_at_def u16_at_def put_dirent_def del: store_nth)
  ultimately show ?thesis using False by (simp add: dirent_of_def)
qed

lemma dir_write_slot:
  assumes "vol_base v" "i < slots_of v" "length (de_name e) = 28" "de_fd_lsn e < W32" "dir_write i e v = (w, r)"
  shows "kept {id_root_lsn (vl_ident v) + i div DIR_ENTRIES_PER_SECTOR} v w \<and>
    (if dk_rd (vl_disk v) (id_root_lsn (vl_ident v) + i div DIR_ENTRIES_PER_SECTOR) = RV9_IO_OK
     then r = RV9_IO_OK \<and> (\<forall>j. slot w j = (if j = i then e else slot v j)) else r \<noteq> RV9_IO_OK \<and> w = v)"
proof -
  let ?q = "i div DIR_ENTRIES_PER_SECTOR"
  let ?s = "id_root_lsn (vl_ident v) + ?q"
  have g: "geom v" using assms(1) by (simp add: vol_base_def)
  have "?s < total_of v" using dir_sector [OF g assms(2)] g by (auto simp: geom_def)
  then have sec: "cast32 ?s = ?s" "dk_wr (vl_disk v) ?s = RV9_IO_OK" using g assms(1) by (auto simp: geom_def vol_base_def)
  show ?thesis
  proof (cases "dk_rd (vl_disk v) ?s = RV9_IO_OK")
    case True
    then have "vwrite ?s (put_dirent (i mod DIR_ENTRIES_PER_SECTOR) e (dat v ?s)) v = (w, r)"
      using assms(5) sec(1) by (simp add: dir_write_def Let_def vread_def rd_def)
    note k = vwrite_kept [OF this]
    have same: "vl_ident w = vl_ident v" using k kept_same by blast
    have "slot w j = (if j = i then e else slot v j)" for j
    proof (cases "j div DIR_ENTRIES_PER_SECTOR = ?q")
      case True
      then have "slot w j = dirent_of (put_dirent (i mod DIR_ENTRIES_PER_SECTOR) e (dat v ?s)) (j mod DIR_ENTRIES_PER_SECTOR)"
        using k sec(2) same by (simp add: slot_def)
      moreover have "j mod DIR_ENTRIES_PER_SECTOR = i mod DIR_ENTRIES_PER_SECTOR \<longleftrightarrow> j = i" using True by (metis div_mult_mod_eq)
      ultimately show ?thesis using dirent_put [OF assms(3,4)] True by (simp add: slot_def)
    next
      case False
      then show ?thesis using slot_kept [OF conjunct1 [OF k], of j] by auto
    qed
    then show ?thesis using k sec(2) True by auto
  next
    case False
    then show ?thesis using assms(5) sec(1) by (auto simp: dir_write_def Let_def vread_def rd_def)
  qed
qed

section \<open>Giving sectors back\<close>

lemma release_spec:
  assumes "vol_base v" "set ls \<subseteq> {l. l < total_of v \<and> l div BITS_PER_SECTOR < maps_of v}"
  shows "kept (map_sectors v) v (foldl (\<lambda>v l. fst (bitmap_set l False v)) v ls) \<and>
    (\<forall>l. l \<notin> set ls \<longrightarrow> marks (foldl (\<lambda>v l. fst (bitmap_set l False v)) v ls) l = marks v l)"
  using assms
proof (induction ls rule: rev_induct)
  case (snoc l ls)
  let ?u = "foldl (\<lambda>v l. fst (bitmap_set l False v)) v ls"
  have IH: "kept (map_sectors v) v ?u" "\<forall>l. l \<notin> set ls \<longrightarrow> marks ?u l = marks v l" using snoc by auto
  have "geom ?u" using snoc.prems(1) kept_same(4) [OF IH(1)] by (simp add: vol_base_def)
  moreover have "l < W32" "l div BITS_PER_SECTOR < maps_of v" using snoc.prems by (auto simp: vol_base_def geom_def)
  moreover obtain w e where w: "bitmap_set l False ?u = (w, e)" by (metis surj_pair)
  ultimately have k: "kept {1 + l div BITS_PER_SECTOR} ?u w" "marks w = (marks ?u)(l := False) \<or> w = ?u" "l div BITS_PER_SECTOR < maps_of v"
    using bitmap_set_marks [of ?u l False w e] by (auto split: if_splits)
  have "kept (map_sectors v) v w" by (rule kept_trans [OF IH(1) k(1)]) (use k(3) in \<open>auto simp: map_sectors_def\<close>)
  then show ?case using k(2) IH(2) w by auto
qed simp


section \<open>One operation\<close>

datatype rbf_op =
    ROpen u32 bytes
  | RClose nat
  | RRead nat nat
  | RWrite nat bytes
  | RSeek nat int whence
  | RRemove bytes
  | RFault "nat \<Rightarrow> io_err"

fun rbf_step :: "vol \<times> rbf_path list \<Rightarrow> rbf_op \<Rightarrow> vol \<times> rbf_path list" where
  "rbf_step (v, P) (ROpen mode name) =
     (case rbf_open True mode name v of (w, Inl e) \<Rightarrow> (w, P) | (w, Inr p) \<Rightarrow> (w, P @ [p]))"
| "rbf_step (v, P) (RClose k) = (if k < length P then (rbf_close (P ! k) v, without k P) else (v, P))"
| "rbf_step (v, P) (RRead k len) =
     (if k < length P then (v, P[k := (if rp_is_dir (P ! k) then fst (dir_read (P ! k) len v) else fst (rbf_read (P ! k) len v))]) else (v, P))"
| "rbf_step (v, P) (RWrite k bs) =
     (if k < length P then (case rbf_write (P ! k) bs v of (w, p, e, n) \<Rightarrow> (w, P[k := p])) else (v, P))"
| "rbf_step (v, P) (RSeek k off wh) = (if k < length P then (v, P[k := fst (rbf_seek off wh (P ! k))]) else (v, P))"
| "rbf_step (v, P) (RRemove name) = (fst (rbf_remove name v), P)"
| "rbf_step (v, P) (RFault f) = (v\<lparr>vl_disk := (vl_disk v)\<lparr>dk_rd := f\<rparr>\<rparr>, P)"

text \<open>The file an operation is about.\<close>

fun about :: "vol \<times> rbf_path list \<Rightarrow> rbf_op \<Rightarrow> nat option" where
  "about (v, P) (ROpen mode name) = map_option (\<lambda>(i, e). de_fd_lsn e) (dir_find (Some name) v)"
| "about (v, P) (RRemove name) = map_option (\<lambda>(i, e). de_fd_lsn e) (dir_find (Some name) v)"
| "about (v, P) (RWrite k bs) = (if k < length P then Some (rp_fd_lsn (P ! k)) else None)"
| "about (v, P) op = None"

text \<open>No file is opened that is open, and none is removed while open.\<close>

fun orderly :: "vol \<times> rbf_path list \<Rightarrow> rbf_op \<Rightarrow> bool" where
  "orderly (v, P) (ROpen mode name) = (case dir_find (Some name) v of None \<Rightarrow> True | Some (i, e) \<Rightarrow> open_fd P (de_fd_lsn e) = None)"
| "orderly (v, P) (RRemove name) = (case dir_find (Some name) v of None \<Rightarrow> True | Some (i, e) \<Rightarrow> open_fd P (de_fd_lsn e) = None)"
| "orderly (v, P) op = True"

text \<open>A file as it was: listed, described, and byte for byte.\<close>

definition untouched :: "vol \<times> rbf_path list \<Rightarrow> vol \<times> rbf_path list \<Rightarrow> nat \<Rightarrow> bool" where
  "untouched s t F = (case s of (v, P) \<Rightarrow> case t of (w, Q) \<Rightarrow>
     F \<in> ent w ` live w \<and> cur w Q F = cur v P F \<and> (\<forall>l\<in>own v P F - {F}. dat w l = dat v l))"

lemma cur_same: "open_fd Q F = open_fd P F \<Longrightarrow> dat w F = dat v F \<Longrightarrow> cur w Q F = cur v P F"
  by (simp add: cur_def split: option.splits)

lemma own_same: "cur w Q F = cur v P F \<Longrightarrow> own w Q F = own v P F"
  by (simp add: own_def)

lemma file_inv_held: "file_inv v P F \<Longrightarrow> l \<in> own v P F \<Longrightarrow> held v l"
  by (auto simp: file_inv_def own_def file_ok_def)

text \<open>All files but the one in slot \<open>i0\<close> are as they were.\<close>

lemma vol_inv_step:
  assumes inv: "vol_inv (v, P)" and k: "vl_ident w = vl_ident v" "vl_mounted w = vl_mounted v" and base: "vol_base w"
    and D: "\<And>i. i \<in> live w \<Longrightarrow> i \<noteq> i0 \<Longrightarrow> i \<in> live v \<and> ent w i = ent v i"
    and others: "\<And>i. i \<in> live w \<Longrightarrow> i \<noteq> i0 \<Longrightarrow> cur w Q (ent v i) = cur v P (ent v i) \<and> (\<forall>l\<in>own v P (ent v i). marks w l)"
    and special: "i0 \<in> live w \<Longrightarrow> file_inv w Q (ent w i0)"
      "\<And>i. i0 \<in> live w \<Longrightarrow> i \<in> live w \<Longrightarrow> i \<noteq> i0 \<Longrightarrow> own w Q (ent w i0) \<inter> own v P (ent v i) = {}"
    and paths: "one_path Q" "\<And>p. p \<in> set Q \<Longrightarrow> path_ok w p"
  shows "vol_inv (w, Q)"
proof (rule vol_invI [OF base _ _ _ paths])
  show "vl_mounted w" using vol_invD(2) [OF inv] k by simp
  have same: "own w Q (ent w i) = own v P (ent v i)" if "i \<in> live w" "i \<noteq> i0" for i
    using D [OF that] others [OF that] own_same by metis
  fix i assume i: "i \<in> live w"
  show "file_inv w Q (ent w i)"
  proof (cases "i = i0")
    case False
    have f: "file_inv v P (ent v i)" using vol_invD(3) [OF inv] D [OF i False] by blast
    have h: "held w l" if "l \<in> own v P (ent v i)" for l
      using file_inv_held [OF f that] others [OF i False] that k by (simp add: held_def meta_def total_of_def maps_of_def)
    have "file_ok w {ent v i} (cur v P (ent v i))"
      using f h by (auto simp: file_inv_def file_ok_def own_def)
    then show ?thesis using h D [OF i False] others [OF i False] by (simp add: file_inv_def own_def)
  qed (use special(1) i in simp)
  fix j assume j: "j \<in> live w" "i \<noteq> j"
  consider "i = i0" | "j = i0" | "i \<noteq> i0" "j \<noteq> i0" by blast
  then show "own w Q (ent w i) \<inter> own w Q (ent w j) = {}"
  proof cases
    case 1
    then show ?thesis using special(2) i j same [OF j(1)] by simp
  next
    case 2
    then show ?thesis using special(2) i j same [OF i] by (simp add: Int_commute)
  next
    case 3
    then show ?thesis using vol_invD(4) [OF inv] D i j same by simp
  qed
qed


lemma own_apart:
  assumes "vol_inv (v, P)" "F \<in> ent v ` live v"
  shows "l \<in> own v P F \<Longrightarrow> meta v \<le> l \<and> l < total_of v \<and> l div BITS_PER_SECTOR < maps_of v \<and> marks v l \<and> maps_of v < l"
    "G \<in> ent v ` live v \<Longrightarrow> G \<noteq> F \<Longrightarrow> own v P F \<inter> own v P G = {}"
proof -
  obtain i where i: "i \<in> live v" "F = ent v i" using assms(2) by blast
  show "meta v \<le> l \<and> l < total_of v \<and> l div BITS_PER_SECTOR < maps_of v \<and> marks v l \<and> maps_of v < l" if "l \<in> own v P F"
    using file_inv_held [OF vol_invD(3) [OF assms(1) i(1)], of l] that i(2) vol_invD(1) [OF assms(1)]
    by (auto simp: held_def vol_base_def geom_def meta_def)
  show "own v P F \<inter> own v P G = {}" if "G \<in> ent v ` live v" "G \<noteq> F"
    using vol_invD(4) [OF assms(1)] i that by blast
qed

lemma file_inv_ent: "vol_inv (v, P) \<Longrightarrow> F \<in> ent v ` live v \<Longrightarrow> file_inv v P F"
  using vol_invD(3) by blast

lemma own_self [simp]: "F \<in> own v P F"
  by (simp add: own_def)

lemma live_pos: "F \<in> ent v ` live v \<Longrightarrow> 0 < F"
  by (auto simp: live_def)

text \<open>Steps that leave the directory alone and are about one file, \<open>F0\<close>, or none.\<close>

lemma vol_inv_files:
  assumes inv: "vol_inv (v, P)" and k: "kept S v w" "\<And>l. l \<in> S \<Longrightarrow> l \<le> maps_of v \<or> meta v \<le> l" and base: "vol_base w"
    and others: "\<And>F. F \<in> ent v ` live v \<Longrightarrow> F \<noteq> F0 \<Longrightarrow>
        open_fd Q F = open_fd P F \<and> own v P F \<inter> S \<subseteq> map_sectors v \<and> (\<forall>l\<in>own v P F. marks w l)"
    and special: "F0 \<in> ent v ` live v \<Longrightarrow> file_inv w Q F0"
      "\<And>F. F0 \<in> ent v ` live v \<Longrightarrow> F \<in> ent v ` live v \<Longrightarrow> F \<noteq> F0 \<Longrightarrow> own w Q F0 \<inter> own v P F = {}"
    and paths: "one_path Q" "\<And>p. p \<in> set Q \<Longrightarrow> \<not> rp_is_dir p \<Longrightarrow>
        rp_fd_lsn p \<in> ent v ` live v \<and> (\<not> rp_dirty p \<longrightarrow> rp_fd p = fd_of (dat w (rp_fd_lsn p)))"
  shows "vol_inv (w, Q) \<and> live w = live v \<and> (\<forall>i\<in>live v. ent w i = ent v i) \<and> (\<forall>F\<in>ent v ` live v. F \<noteq> F0 \<longrightarrow> untouched (v, P) (w, Q) F)"
proof -
  have g: "geom v" using vol_invD(1) [OF inv] by (simp add: vol_base_def)
  note l = live_kept [OF k(1) g k(2)]
  have kept: "dat w m = dat v m" if "F \<in> ent v ` live v" "F \<noteq> F0" "m \<in> own v P F" for F m
  proof -
    have "m \<notin> map_sectors v" using own_apart(1) [OF inv that(1,3)] by (simp add: map_sectors_def)
    then have "m \<notin> S" using others [OF that(1,2)] that(3) by blast
    then show ?thesis using k(1) by (simp add: kept_def)
  qed
  have cur: "cur w Q F = cur v P F" if "F \<in> ent v ` live v" "F \<noteq> F0" for F
    using others [OF that] kept [OF that own_self] by (intro cur_same) auto
  have unt: "untouched (v, P) (w, Q) F" if "F \<in> ent v ` live v" "F \<noteq> F0" for F
  proof -
    have "F \<in> ent w ` live w" using that(1) l by auto
    then show ?thesis using cur [OF that] kept [OF that] by (simp add: untouched_def)
  qed
  obtain i0 where i0: "F0 \<in> ent v ` live v \<longrightarrow> i0 \<in> live v \<and> ent v i0 = F0" "F0 \<notin> ent v ` live v \<longrightarrow> i0 \<notin> live v"
    by (cases "F0 \<in> ent v ` live v") (auto simp: live_def)
  have neq: "ent v i \<noteq> F0" if "i \<in> live v" "i \<noteq> i0" for i
  proof
    assume e: "ent v i = F0"
    then have z: "i0 \<in> live v" "ent v i0 = F0" using i0 that by auto
    have "own v P F0 \<inter> own v P F0 = {}" using vol_invD(4) [OF inv that(1) z(1) that(2)] e z(2) by simp
    then show False by (auto simp: own_def)
  qed
  have "vol_inv (w, Q)"
  proof (rule vol_inv_step [OF inv _ _ base, where ?i0.0 = i0])
    show "vl_ident w = vl_ident v" "vl_mounted w = vl_mounted v" using kept_same [OF k(1)] by auto
    fix i assume i: "i \<in> live w" "i \<noteq> i0"
    then show "i \<in> live v \<and> ent w i = ent v i" using l by auto
    show "cur w Q (ent v i) = cur v P (ent v i) \<and> (\<forall>l\<in>own v P (ent v i). marks w l)"
    proof -
      have "ent v i \<in> ent v ` live v" "ent v i \<noteq> F0" using i l neq by auto
      then show ?thesis using cur others by blast
    qed
  next
    assume "i0 \<in> live w"
    then have z: "i0 \<in> live v" "ent w i0 = F0" "F0 \<in> ent v ` live v" using l i0 by auto
    then show "file_inv w Q (ent w i0)" using special(1) by simp
    fix i assume "i \<in> live w" "i \<noteq> i0"
    then show "own w Q (ent w i0) \<inter> own v P (ent v i) = {}" using z l neq special(2) by auto
  next
    have "ent w ` live w = ent v ` live v" using l by auto
    then show "path_ok w p" if "p \<in> set Q" for p using paths(2) [OF that] by (auto simp: path_ok_def)
  qed (use paths in auto)
  then show ?thesis using l unt by blast
qed

lemma fault_step:
  assumes inv: "vol_inv (v, P)"
  shows "vol_inv (v\<lparr>vl_disk := (vl_disk v)\<lparr>dk_rd := f\<rparr>\<rparr>, P) \<and>
    (\<forall>F\<in>ent v ` live v. untouched (v, P) (v\<lparr>vl_disk := (vl_disk v)\<lparr>dk_rd := f\<rparr>\<rparr>, P) F)"
proof -
  let ?w = "v\<lparr>vl_disk := (vl_disk v)\<lparr>dk_rd := f\<rparr>\<rparr>"
  have s: "live ?w = live v" "ent ?w = ent v" "marks ?w = marks v" "\<And>F. cur ?w P F = cur v P F" "\<And>l. held ?w l = held v l"
    "\<And>X fd. file_ok ?w X fd = file_ok v X fd"
    by (simp_all add: fun_eq_iff live_def ent_def slot_def slots_of_def marks_def cur_def held_def meta_def total_of_def maps_of_def file_ok_def
      split: option.split)
  have "vol_base ?w = vol_base v" "\<And>F. file_inv ?w P F = file_inv v P F" "\<And>F. own ?w P F = own v P F" "\<And>p. path_ok ?w p = path_ok v p"
    using s by (simp_all add: vol_base_def geom_def meta_def total_of_def maps_of_def file_inv_def own_def path_ok_def)
  then have "vol_inv (?w, P)" using inv s unfolding vol_inv_def by simp
  then show ?thesis using s by (simp add: untouched_def)
qed

text \<open>A path moved, its file unchanged.\<close>

lemma move_step:
  assumes inv: "vol_inv (v, P)" and k: "k < length P" and p: "rp_is_dir p = rp_is_dir (P ! k)" "rp_fd_lsn p = rp_fd_lsn (P ! k)"
    "rp_fd p = rp_fd (P ! k)" "rp_dirty p = rp_dirty (P ! k)"
  shows "vol_inv (v, P[k := p]) \<and> (\<forall>F\<in>ent v ` live v. untouched (v, P) (v, P[k := p]) F)"
proof -
  note one = vol_invD(5) [OF inv]
  have o: "open_fd (P[k := p]) F = open_fd P F" for F
  proof (cases "is_file p F")
    case True
    then have "is_file (P ! k) F" using p by (simp add: is_file_def)
    then have "open_fd P F = Some (rp_fd (P ! k))" using k open_fd_iff [OF one] by blast
    then show ?thesis using True p open_fd_update [OF one p(1,2) k] by simp
  qed (use open_fd_update [OF one p(1,2) k] in simp)
  have c: "cur v (P[k := p]) F = cur v P F" for F by (simp add: cur_def o)
  have ok: "path_ok v q" if "q \<in> set (P[k := p])" for q
  proof -
    have "q = p \<or> q \<in> set P" using that set_update_subset_insert [of P k p] by auto
    moreover have "path_ok v p = path_ok v (P ! k)" using p by (simp add: path_ok_def)
    ultimately show ?thesis using vol_invD(6) [OF inv] k by auto
  qed
  have "vol_inv (v, P[k := p])"
  proof (rule vol_invI)
    show "one_path (P[k := p])" by (rule one_path_update [OF one p(1,2)])
    show "file_inv v (P[k := p]) (ent v i)" if "i \<in> live v" for i using vol_invD(3) [OF inv that] by (simp add: file_inv_def c)
    show "own v (P[k := p]) (ent v i) \<inter> own v (P[k := p]) (ent v j) = {}" if "i \<in> live v" "j \<in> live v" "i \<noteq> j" for i j
      using vol_invD(4) [OF inv that] by (simp add: own_def c)
  qed (use vol_invD [OF inv] ok in auto)
  then show ?thesis by (simp add: untouched_def c)
qed


lemma write_loop_pos: "pos < W32 \<Longrightarrow> write_loop bs pos fd dirty v = (w, fd', dirty', pos', n) \<Longrightarrow> pos' < W32"
proof (induction bs arbitrary: pos fd dirty v n rule: measure_induct_rule [of length])
  case (less bs)
  show ?case
  proof (cases "bs = []")
    case False
    obtain v1 fd1 dirty1 grown where g: "grow_loop (cast32 (pos + SECTOR_SIZE) div SECTOR_SIZE - sector_have fd) fd dirty v = (v1, fd1, dirty1, grown)"
      by (metis prod_cases4)
    let ?lsn = "offset_to_lsn fd1 pos" and ?r = "pos mod SECTOR_SIZE"
    let ?c = "min (SECTOR_SIZE - ?r) (length bs)"
    show ?thesis
    proof (cases "\<not> grown \<or> ?lsn = 0")
      case True
      then show ?thesis using less.prems False g by (auto simp: write_loop.simps [of bs] Let_def)
    next
      case on: False
      let ?rd = "if ?r \<noteq> 0 \<or> ?c \<noteq> SECTOR_SIZE then vread ?lsn v1 else Inr zero_sector"
      show ?thesis
      proof (cases ?rd)
        case (Inl e)
        then show ?thesis using less.prems False g on by (auto simp: write_loop.simps [of bs] Let_def)
      next
        case (Inr s)
        obtain v2 e where w: "vwrite ?lsn (store_bytes ?r (take ?c bs) s) v1 = (v2, e)" by (metis surj_pair)
        show ?thesis
        proof (cases "e = RV9_IO_OK")
          case True
          obtain m where "write_loop (drop ?c bs) (cast32 (pos + ?c)) fd1 dirty1 v2 = (w, fd', dirty', pos', m)"
            using less.prems(2) False g on Inr w True by (auto simp: write_loop.simps [of bs] Let_def simp del: min_def split: prod.splits)
          moreover have "length (drop ?c bs) < length bs" using False sector_pos by (simp add: SECTOR_SIZE_def)
          ultimately show ?thesis using less.IH cast32_less by blast
        next
          case no: False
          then show ?thesis using less.prems False g on Inr w by (auto simp: write_loop.simps [of bs] Let_def)
        qed
      qed
    qed
  qed (use less.prems in \<open>simp add: write_loop.simps\<close>)
qed


lemma write_step:
  assumes inv: "vol_inv (v, P)" and k: "k < length P" and st: "rbf_write (P ! k) bs v = (w, p, e, n)"
  shows "vol_inv (w, P[k := p]) \<and> (\<forall>F\<in>ent v ` live v. rp_fd_lsn (P ! k) \<noteq> F \<longrightarrow> untouched (v, P) (w, P[k := p]) F)"
proof (cases "rp_is_dir (P ! k)")
  case True
  then have "w = v" "p = P ! k" using st by (auto simp: rbf_write_def)
  then show ?thesis using move_step [OF inv k, of "P ! k"] by simp
next
  case False
  let ?p = "P ! k"
  let ?F = "rp_fd_lsn ?p" and ?fd = "rp_fd (P ! k)" and ?pos = "cast32 (nat (rp_pos (P ! k)))"
  note base = vol_invD(1) [OF inv] and one = vol_invD(5) [OF inv]
  have g: "geom v" using base by (simp add: vol_base_def)
  obtain fd dirty pos where loop: "write_loop bs ?pos ?fd (rp_dirty ?p) v = (w, fd, dirty, pos, n)"
    and p: "rp_is_dir p = rp_is_dir ?p" "rp_fd_lsn p = ?F" "rp_fd p = (if pos > fd_size fd then fd\<lparr>fd_size := pos\<rparr> else fd)"
      "rp_dirty p = (dirty \<or> pos > fd_size fd)"
    using st False by (auto simp: rbf_write_def split: prod.splits)
  have po: "?F \<in> ent v ` live v" "\<not> rp_dirty ?p \<longrightarrow> ?fd = fd_of (dat v ?F)"
    using vol_invD(6) [OF inv, of ?p] k False by (auto simp: path_ok_def)
  have openF: "open_fd P ?F = Some ?fd" using open_fd_iff [OF one] k False by (auto simp: is_file_def)
  then have cF: "cur v P ?F = ?fd" by (simp add: cur_def)
  have finv: "file_inv v P ?F" by (rule file_inv_ent [OF inv po(1)])
  define X where "X = insert ?F (\<Union>F\<in>ent v ` live v - {?F}. own v P F)"
  have XF: "own v P F \<subseteq> X" if "F \<in> ent v ` live v" "F \<noteq> ?F" for F using that by (auto simp: X_def)
  have heldX: "held v l" if l: "l \<in> X" for l
  proof (cases "l = ?F")
    case True
    then show ?thesis using finv by (simp add: file_inv_def)
  next
    case False
    then obtain F where F: "F \<in> ent v ` live v" "l \<in> own v P F" using l by (auto simp: X_def)
    show ?thesis using own_apart(1) [OF inv F] by (simp add: held_def)
  qed
  have "set (fd_sectors ?fd) \<inter> X = {}"
  proof -
    have "own v P ?F = insert ?F (set (fd_sectors ?fd))" by (simp add: own_def cF)
    then have "set (fd_sectors ?fd) \<inter> own v P F = {}" if "F \<in> ent v ` live v" "F \<noteq> ?F" for F
      using own_apart(2) [OF inv po(1) that] by blast
    moreover have "?F \<notin> set (fd_sectors ?fd)" using finv cF by (auto simp: file_inv_def file_ok_def)
    ultimately show ?thesis unfolding X_def by blast
  qed
  then have fX: "file_ok v X ?fd" using finv cF by (auto simp: file_inv_def file_ok_def)
  note ok = write_loop_ok [OF base fX _ loop]
  have k1: "kept (map_sectors v \<union> set (fd_sectors fd)) v w" "grows v w" "file_ok w X fd" "\<not> dirty \<longrightarrow> fd = ?fd" "rp_dirty ?p \<longrightarrow> dirty"
    using ok heldX by blast+
  have "pos < W32" using write_loop_pos [OF cast32_less loop] .
  then have fp: "file_ok w X (rp_fd p)" "fd_sectors (rp_fd p) = fd_sectors fd"
    using k1(3) p(3) by (auto simp: file_ok_def fd_fits_def fd_sectors_def segments_def)
  let ?Q = "P[k := p]"
  have oQ: "open_fd ?Q F = (if F = ?F then Some (rp_fd p) else open_fd P F)" for F
    using open_fd_update [OF one p(1,2) k, of F] p False by (auto simp: is_file_def)
  have cQ: "cur w ?Q ?F = rp_fd p" by (simp add: cur_def oQ)
  have sX: "l \<notin> map_sectors v \<union> set (fd_sectors fd)" if "l \<in> X" for l
    using heldX [OF that] k1(3) that g by (auto simp: file_ok_def held_def map_sectors_def geom_def meta_def)
  have res: "vol_inv (w, ?Q) \<and> live w = live v \<and> (\<forall>i\<in>live v. ent w i = ent v i) \<and> (\<forall>F\<in>ent v ` live v. F \<noteq> ?F \<longrightarrow> untouched (v, P) (w, ?Q) F)"
  proof (rule vol_inv_files [OF inv k1(1)])
    show "l \<le> maps_of v \<or> meta v \<le> l" if "l \<in> map_sectors v \<union> set (fd_sectors fd)" for l
      using that k1(3) kept_same(2) [OF k1(1)] by (auto simp: file_ok_def held_def map_sectors_def)
    show "vol_base w" by (rule vol_base_keep [OF base k1(1,2)])
    show "open_fd ?Q F = open_fd P F \<and> own v P F \<inter> (map_sectors v \<union> set (fd_sectors fd)) \<subseteq> map_sectors v \<and> (\<forall>l\<in>own v P F. marks w l)"
      if F: "F \<in> ent v ` live v" "F \<noteq> ?F" for F
    proof -
      have "own v P F \<inter> (map_sectors v \<union> set (fd_sectors fd)) = {}" using XF [OF F] sX by blast
      moreover have "marks w l" if "l \<in> own v P F" for l using k1(2) own_apart(1) [OF inv F(1) that] by (simp add: grows_def)
      ultimately show ?thesis using oQ F(2) by simp
    qed
    have h: "held w ?F" by (rule grows_held [OF k1(2,1)]) (use heldX in \<open>simp add: X_def\<close>)
    then show "file_inv w ?Q ?F" using fp(1) by (auto simp: file_inv_def cQ file_ok_def X_def)
    show "own w ?Q ?F \<inter> own v P F = {}" if F: "F \<in> ent v ` live v" "F \<noteq> ?F" for F
    proof -
      have "own w ?Q ?F = insert ?F (set (fd_sectors fd))" by (simp add: own_def cQ fp(2))
      moreover have "set (fd_sectors fd) \<inter> own v P F = {}" using XF [OF F] sX by blast
      moreover have "?F \<notin> own v P F" using own_apart(2) [OF inv po(1) F] own_self by blast
      ultimately show ?thesis by (simp only: Int_insert_left if_False)
    qed
    show "one_path ?Q" by (rule one_path_update [OF one p(1,2)])
    fix q assume q: "q \<in> set ?Q" "\<not> rp_is_dir q"
    then obtain a where a: "a < length P" "q = ?Q ! a" by (auto simp: in_set_conv_nth)
    show "rp_fd_lsn q \<in> ent v ` live v \<and> (\<not> rp_dirty q \<longrightarrow> rp_fd q = fd_of (dat w (rp_fd_lsn q)))"
    proof (cases "a = k")
      case True
      have "dat w ?F = dat v ?F" using k1(1) sX [of ?F] by (simp add: kept_def X_def)
      then show ?thesis using True a k p po k1(4,5) by auto
    next
      case False
      then have qa: "q = P ! a" using a by simp
      then have "path_ok v q" using vol_invD(6) [OF inv] a(1) by simp
      then have pq: "rp_fd_lsn q \<in> ent v ` live v" "\<not> rp_dirty q \<longrightarrow> rp_fd q = fd_of (dat v (rp_fd_lsn q))" using q(2) by (auto simp: path_ok_def)
      have "rp_fd_lsn q \<noteq> ?F" using one a(1) k False q(2) qa \<open>\<not> rp_is_dir (P ! k)\<close> by (auto simp: one_path_def)
      then have "rp_fd_lsn q \<in> X" using pq(1) XF [of "rp_fd_lsn q"] by (auto simp: own_def)
      then have "dat w (rp_fd_lsn q) = dat v (rp_fd_lsn q)" using k1(1) sX by (simp add: kept_def)
      then show ?thesis using pq by simp
    qed
  qed
  show ?thesis
  proof (intro conjI ballI impI)
    show "untouched (v, P) (w, ?Q) F" if "F \<in> ent v ` live v" "?F \<noteq> F" for F
      using res that(1) that(2) [symmetric] by metis
  qed (rule conjunct1 [OF res])
qed

lemma path_listed: "vol_inv (v, P) \<Longrightarrow> p \<in> set P \<Longrightarrow> \<not> rp_is_dir p \<Longrightarrow>
    rp_fd_lsn p \<in> ent v ` live v \<and> (\<not> rp_dirty p \<longrightarrow> rp_fd p = fd_of (dat v (rp_fd_lsn p)))"
  using vol_invD(6) by (force simp: path_ok_def)

lemma close_step:
  assumes inv: "vol_inv (v, P)" and k: "k < length P"
  shows "vol_inv (rbf_close (P ! k) v, without k P) \<and> (\<forall>F\<in>ent v ` live v. untouched (v, P) (rbf_close (P ! k) v, without k P) F)"
proof -
  let ?p = "P ! k" and ?w = "rbf_close (P ! k) v" and ?Q = "without k P"
  let ?F = "if rp_is_dir ?p then 0 else rp_fd_lsn ?p" and ?fd = "rp_fd (P ! k)"
  note base = vol_invD(1) [OF inv] and one = vol_invD(5) [OF inv]
  have g: "geom v" using base by (simp add: vol_base_def)
  have oQ: "open_fd ?Q F = (if is_file ?p F then None else open_fd P F)" for F by (rule open_fd_without [OF one k])
  have fil: "?F \<in> ent v ` live v \<and> cur v P ?F = ?fd \<and> (\<not> rp_dirty ?p \<longrightarrow> ?fd = fd_of (dat v ?F)) \<and> held v ?F \<and> file_ok v {?F} ?fd" if "\<not> rp_is_dir ?p"
  proof -
    have l: "?F \<in> ent v ` live v" "\<not> rp_dirty ?p \<longrightarrow> ?fd = fd_of (dat v ?F)" using path_listed [OF inv nth_mem [OF k]] that by auto
    have "open_fd P ?F = Some ?fd" using open_fd_iff [OF one] k that by (auto simp: is_file_def)
    then have "cur v P ?F = ?fd" by (simp add: cur_def)
    then show ?thesis using l file_inv_ent [OF inv l(1)] by (auto simp: file_inv_def)
  qed
  have w: "kept {?F} v ?w \<and> (\<not> rp_is_dir ?p \<longrightarrow> fd_of (dat ?w ?F) = ?fd)"
  proof (cases "rp_dirty ?p \<and> \<not> rp_is_dir ?p")
    case True
    obtain e where v: "vwrite ?F (store_bytes 0 (fd_bytes ?fd) zero_sector) v = (?w, e)"
      using True by (cases "vwrite ?F (store_bytes 0 (fd_bytes ?fd) zero_sector) v") (auto simp: rbf_close_def fd_write_def)
    have "dk_wr (vl_disk v) ?F = RV9_IO_OK" using fil True base by (auto simp: vol_base_def held_def)
    moreover have "fd_fits ?fd" using fil True by (auto simp: file_ok_def)
    ultimately show ?thesis using vwrite_kept [OF v] fd_roundtrip True by simp
  next
    case False
    then have "?w = v" by (auto simp: rbf_close_def)
    then show ?thesis using fil False by auto
  qed
  have marks: "marks ?w l = marks v l" if "l div BITS_PER_SECTOR < maps_of v" for l
  proof (cases "rp_is_dir ?p")
    case True
    then show ?thesis by (simp add: rbf_close_def)
  next
    case False
    then have "maps_of v < ?F" using fil own_apart(1) [OF inv, of ?F ?F] by auto
    then show ?thesis using w that by (auto simp: marks_def kept_def)
  qed
  have gw: "grows v ?w" using marks by (simp add: grows_def)
  have cF: "cur ?w ?Q ?F = ?fd" if "\<not> rp_is_dir ?p" using that w oQ [of ?F] by (simp add: cur_def is_file_def)
  have res: "vol_inv (?w, ?Q) \<and> live ?w = live v \<and> (\<forall>i\<in>live v. ent ?w i = ent v i) \<and> (\<forall>F\<in>ent v ` live v. F \<noteq> ?F \<longrightarrow> untouched (v, P) (?w, ?Q) F)"
  proof (rule vol_inv_files [OF inv conjunct1 [OF w]])
    show "l \<le> maps_of v \<or> meta v \<le> l" if "l \<in> {?F}" for l
      using that fil by (cases "rp_is_dir ?p") (auto simp: held_def)
    show "vol_base ?w" by (rule vol_base_keep [OF base conjunct1 [OF w] gw])
    show "open_fd ?Q F = open_fd P F \<and> own v P F \<inter> {?F} \<subseteq> map_sectors v \<and> (\<forall>l\<in>own v P F. marks ?w l)"
      if F: "F \<in> ent v ` live v" "F \<noteq> ?F" for F
    proof -
      have "own v P F \<inter> {?F} = {}"
      proof (cases "rp_is_dir ?p")
        case True
        then show ?thesis using own_apart(1) [OF inv F(1), of 0] by auto
      next
        case False
        then show ?thesis using own_apart(2) [OF inv F(1), of ?F] fil F(2) own_self by blast
      qed
      moreover have "\<not> is_file ?p F" using F(2) by (auto simp: is_file_def)
      moreover have "marks ?w l" if "l \<in> own v P F" for l using marks own_apart(1) [OF inv F(1) that] by simp
      ultimately show ?thesis using oQ by simp
    qed
    show "file_inv ?w ?Q ?F" if "?F \<in> ent v ` live v"
    proof -
      have d: "\<not> rp_is_dir ?p" using that live_pos by fastforce
      then show ?thesis using fil cF grows_held [OF gw conjunct1 [OF w]] file_ok_keep [OF _ conjunct1 [OF w] gw] by (auto simp: file_inv_def)
    qed
    show "own ?w ?Q ?F \<inter> own v P F = {}" if "?F \<in> ent v ` live v" "F \<in> ent v ` live v" "F \<noteq> ?F" for F
    proof -
      have d: "\<not> rp_is_dir ?p" using that(1) live_pos by fastforce
      then have "own ?w ?Q ?F = own v P ?F" using fil cF by (simp add: own_def)
      then show ?thesis using own_apart(2) [OF inv that(1,2,3)] by simp
    qed
    show "one_path ?Q" by (rule one_path_without [OF one k])
    fix q assume q: "q \<in> set ?Q" "\<not> rp_is_dir q"
    then obtain a where a: "a < length ?Q" "q = ?Q ! a" by (auto simp: in_set_conv_nth)
    let ?b = "if a < k then a else Suc a"
    have b: "?b < length P" "?b \<noteq> k" "q = P ! ?b" using a without_nth [OF k a(1)] k by (auto simp: without_length)
    then have "q \<in> set P" by simp
    then have l: "rp_fd_lsn q \<in> ent v ` live v" "\<not> rp_dirty q \<longrightarrow> rp_fd q = fd_of (dat v (rp_fd_lsn q))" using path_listed [OF inv] q(2) by blast+
    have "rp_fd_lsn q \<noteq> ?F" 
    proof (cases "rp_is_dir ?p")
      case False
      then show ?thesis using one [unfolded one_path_def, rule_format, of ?b k] b k q(2) by auto
    qed (use live_pos [OF l(1)] in auto)
    then have "dat ?w (rp_fd_lsn q) = dat v (rp_fd_lsn q)" using w by (simp add: kept_def)
    then show "rp_fd_lsn q \<in> ent v ` live v \<and> (\<not> rp_dirty q \<longrightarrow> rp_fd q = fd_of (dat ?w (rp_fd_lsn q)))" using l by simp
  qed
  have "untouched (v, P) (?w, ?Q) ?F" if "?F \<in> ent v ` live v"
  proof -
    have d: "\<not> rp_is_dir ?p" using that live_pos by fastforce
    moreover have "?F \<in> ent ?w ` live ?w" using res that by auto
    ultimately show ?thesis using fil cF w by (auto simp: untouched_def kept_def)
  qed
  note self = this
  have all: "untouched (v, P) (?w, ?Q) F" if "F \<in> ent v ` live v" for F
  proof (cases "F = ?F")
    case True
    show ?thesis unfolding True by (rule self) (use that True in simp)
  next
    case False
    then show ?thesis using res that by metis
  qed
  show ?thesis by (rule conjI [OF conjunct1 [OF res] ballI]) (rule all)
qed


section \<open>Opening\<close>

lemma snoc_listed: "vol_inv (v, P) \<Longrightarrow> q \<in> set (P @ [p]) \<Longrightarrow> \<not> rp_is_dir q \<Longrightarrow> q \<noteq> p \<Longrightarrow>
    rp_fd_lsn q \<in> ent v ` live v \<and> (\<not> rp_dirty q \<longrightarrow> rp_fd q = fd_of (dat v (rp_fd_lsn q)))"
  using path_listed [of v P q] by auto

lemma open_dir_step:
  assumes inv: "vol_inv (v, P)" and p: "rp_is_dir p"
  shows "vol_inv (v, P @ [p]) \<and> (\<forall>F\<in>ent v ` live v. untouched (v, P) (v, P @ [p]) F)"
proof -
  have "find Q (P @ [p]) = (case find Q P of None \<Rightarrow> if Q p then Some p else None | Some x \<Rightarrow> Some x)" for Q
    by (induction P) auto
  then have o: "open_fd (P @ [p]) F = open_fd P F" for F using p by (auto simp: open_fd_def is_file_def split: option.splits)
  have "vol_inv (v, P @ [p]) \<and> live v = live v \<and> (\<forall>i\<in>live v. ent v i = ent v i) \<and> (\<forall>F\<in>ent v ` live v. F \<noteq> 0 \<longrightarrow> untouched (v, P) (v, P @ [p]) F)"
  proof (rule vol_inv_files [OF inv, of "{}"])
    show "one_path (P @ [p])" using one_path_snoc [OF vol_invD(5) [OF inv]] p by blast
    show "rp_fd_lsn q \<in> ent v ` live v \<and> (\<not> rp_dirty q \<longrightarrow> rp_fd q = fd_of (dat v (rp_fd_lsn q)))"
      if "q \<in> set (P @ [p])" "\<not> rp_is_dir q" for q using snoc_listed [OF inv that] that(2) p by blast
    show "open_fd (P @ [p]) F = open_fd P F \<and> own v P F \<inter> {} \<subseteq> map_sectors v \<and> (\<forall>l\<in>own v P F. marks v l)" if "F \<in> ent v ` live v" for F
      using o own_apart(1) [OF inv that] by simp
  qed (use live_pos [of 0 v] vol_invD(1) [OF inv] in auto)
  then show ?thesis using live_pos by blast
qed

text \<open>Opened as it is, or emptied: \<open>fd\<close> is the descriptor the path starts with.\<close>

lemma open_file_step:
  assumes inv: "vol_inv (v, P)" and F: "F \<in> ent v ` live v" "open_fd P F = None"
    and k: "kept (map_sectors v) v w" "vol_base w" "\<And>l. l \<notin> own v P F - {F} \<Longrightarrow> marks w l = marks v l"
    and p: "\<not> rp_is_dir p" "rp_fd_lsn p = F" "\<not> rp_dirty p \<longrightarrow> rp_fd p = fd_of (dat v F)"
    and fd: "file_ok w {F} (rp_fd p)" "set (fd_sectors (rp_fd p)) \<subseteq> own v P F"
  shows "vol_inv (w, P @ [p]) \<and> (\<forall>G\<in>ent v ` live v. F \<noteq> G \<longrightarrow> untouched (v, P) (w, P @ [p]) G)"
proof -
  have o: "open_fd (P @ [p]) G = (if G = F then Some (rp_fd p) else open_fd P G)" for G
    using open_fd_snoc [of P p G] F(2) p(1,2) by (auto simp: is_file_def)
  have ow: "own w (P @ [p]) F \<subseteq> own v P F" using fd(2) o by (auto simp: own_def cur_def)
  have apart: "l \<notin> own v P F" if "G \<in> ent v ` live v" "G \<noteq> F" "l \<in> own v P G" for G l
    using own_apart(2) [OF inv F(1) that(1,2)] that(3) by blast
  have same: "dat w G = dat v G" if "G \<in> ent v ` live v" for G
    using k(1) own_apart(1) [OF inv that own_self] by (simp add: kept_def map_sectors_def)
  have res: "vol_inv (w, P @ [p]) \<and> live w = live v \<and> (\<forall>i\<in>live v. ent w i = ent v i) \<and> (\<forall>G\<in>ent v ` live v. G \<noteq> F \<longrightarrow> untouched (v, P) (w, P @ [p]) G)"
  proof (rule vol_inv_files [OF inv k(1) _ k(2)])
    show "l \<le> maps_of v \<or> meta v \<le> l" if "l \<in> map_sectors v" for l using that by (simp add: map_sectors_def)
    show "open_fd (P @ [p]) G = open_fd P G \<and> own v P G \<inter> map_sectors v \<subseteq> map_sectors v \<and> (\<forall>l\<in>own v P G. marks w l)"
      if G: "G \<in> ent v ` live v" "G \<noteq> F" for G
      using o G(2) k(3) apart [OF G] own_apart(1) [OF inv G(1)] by auto
    show "file_inv w (P @ [p]) F"
    proof -
      have "held v F" using file_inv_ent [OF inv F(1)] by (simp add: file_inv_def)
      then have "held w F" using k(3) [of F] kept_same [OF k(1)] by (simp add: held_def)
      then show ?thesis using fd(1) by (simp add: file_inv_def cur_def o)
    qed
    show "own w (P @ [p]) F \<inter> own v P G = {}" if "G \<in> ent v ` live v" "G \<noteq> F" for G using apart [OF that] ow by blast
    show "one_path (P @ [p])" using one_path_snoc [OF vol_invD(5) [OF inv]] F(2) p(2) by blast
    fix q assume q: "q \<in> set (P @ [p])" "\<not> rp_is_dir q"
    show "rp_fd_lsn q \<in> ent v ` live v \<and> (\<not> rp_dirty q \<longrightarrow> rp_fd q = fd_of (dat w (rp_fd_lsn q)))"
    proof (cases "q = p")
      case True
      then show ?thesis using p F(1) same [OF F(1)] by simp
    next
      case False
      then show ?thesis using snoc_listed [OF inv q False] same [of "rp_fd_lsn q"] by simp
    qed
  qed
  show ?thesis
  proof (rule conjI [OF conjunct1 [OF res]], intro ballI impI)
    show "untouched (v, P) (w, P @ [p]) G" if "G \<in> ent v ` live v" "F \<noteq> G" for G using res that by metis
  qed
qed

lemma zero_fd_ok: "file_ok v X zero_fd" "fd_sectors zero_fd = []"
  by (simp_all add: file_ok_def fd_sectors_def segments_def zero_fd_def fd_fits_def MAX_SEGMENTS_def)

lemma released:
  assumes inv: "vol_inv (v, P)" and F: "F \<in> ent v ` live v"
  shows "kept (map_sectors v) v (fd_release (cur v P F) v) \<and> vol_base (fd_release (cur v P F) v) \<and>
    (\<forall>l. l \<notin> own v P F - {F} \<longrightarrow> marks (fd_release (cur v P F) v) l = marks v l)"
proof -
  let ?ls = "fd_sectors (cur v P F)"
  note base = vol_invD(1) [OF inv]
  have "set ?ls \<subseteq> own v P F" by (auto simp: own_def)
  then have sub: "set ?ls \<subseteq> {l. l < total_of v \<and> l div BITS_PER_SECTOR < maps_of v}" using own_apart(1) [OF inv F] by blast
  have "F \<notin> set ?ls" using file_inv_ent [OF inv F] by (auto simp: file_inv_def file_ok_def)
  then have eq: "own v P F - {F} = set ?ls" by (auto simp: own_def)
  note r = release_spec [OF base sub, folded fd_release_def]
  have "marks (fd_release (cur v P F) v) l" if "l < meta v" "l div BITS_PER_SECTOR < maps_of v" for l
  proof -
    have "l \<notin> set ?ls" using own_apart(1) [OF inv F, of l] that(1) by (auto simp: own_def)
    then show ?thesis using r that base by (simp add: vol_base_def)
  qed
  then have "vol_base (fd_release (cur v P F) v)" using base kept_same [OF conjunct1 [OF r]] by (simp add: vol_base_def)
  then show ?thesis using r eq by simp
qed


lemma marks_far: "kept S v w \<Longrightarrow> (\<And>l. l \<in> S \<Longrightarrow> maps_of v < l) \<Longrightarrow> l div BITS_PER_SECTOR < maps_of v \<Longrightarrow> marks w l = marks v l"
proof -
  assume a: "kept S v w" "\<And>l. l \<in> S \<Longrightarrow> maps_of v < l" "l div BITS_PER_SECTOR < maps_of v"
  then have "1 + l div BITS_PER_SECTOR \<notin> S" by fastforce
  then show ?thesis using a(1) by (simp add: marks_def kept_def)
qed

lemma entry_apart: "vol_inv (v, P) \<Longrightarrow> i \<in> live v \<Longrightarrow> j \<in> live v \<Longrightarrow> i \<noteq> j \<Longrightarrow> ent v i \<noteq> ent v j"
proof
  assume a: "vol_inv (v, P)" "i \<in> live v" "j \<in> live v" "i \<noteq> j" "ent v i = ent v j"
  then have "own v P (ent v i) \<inter> own v P (ent v i) = {}" using vol_invD(4) [of v P i j] by simp
  then show False by (auto simp: own_def)
qed

lemma create_step:
  assumes inv: "vol_inv (v, P)" and st: "create_file rest v = (w, r)"
  shows "case r of Inl e \<Rightarrow> w = v | Inr p \<Rightarrow> vol_inv (w, P @ [p]) \<and> (\<forall>F\<in>ent v ` live v. untouched (v, P) (w, P @ [p]) F)"
proof -
  note base = vol_invD(1) [OF inv]
  have g: "geom v" using base by (simp add: vol_base_def)
  show ?thesis
  proof (cases "dir_find None v")
    case None
    then show ?thesis using st by (auto simp: create_file_def)
  next
    case (Some x)
    then obtain i e0 where i: "dir_find None v = Some (i, e0)" by (cases x) auto
    note found = dir_find_slot [OF g i]
    let ?d = "id_root_lsn (vl_ident v) + i div DIR_ENTRIES_PER_SECTOR"
    obtain v1 l where a: "alloc_sector v = (v1, l)" by (metis surj_pair)
    note spec = alloc_spec [OF g a]
    show ?thesis
    proof (cases "l = 0")
      case True
      then show ?thesis using st i a spec by (auto simp: create_file_def)
    next
      case False
      have l: "l < total_of v" "l div BITS_PER_SECTOR < maps_of v" "\<not> marks v l" "marks v1 = (marks v)(l := True)" and k1: "kept (map_sectors v) v v1"
        using spec False by auto
      have lW: "l < W32" using l(1) g by (simp add: geom_def)
      have ml: "meta v \<le> l" using l base by (auto simp: vol_base_def intro: leI)
      have b1: "vol_base v1" by (rule vol_base_keep [OF base k1]) (simp add: grows_def l(4))
      note s1 = kept_same [OF k1]
      have dsec: "?d < meta v" "maps_of v < ?d" using dir_sector [OF g] found by blast+
      have name: "length (de_name (new_dirent rest l)) = 28" "de_fd_lsn (new_dirent rest l) = l"
        by (simp_all add: new_dirent_def Let_def name_key_def min_def)
      obtain v2 e2 where d2: "dir_write i (new_dirent rest l) v1 = (v2, e2)" by (metis surj_pair)
      have "i < slots_of v1" using found slots_kept [OF k1] by simp
      note dw = dir_write_slot [OF b1 this name(1) _ d2, unfolded name(2), OF lW]
      have k2: "kept {?d} v1 v2" "e2 = RV9_IO_OK" "slot v2 j = (if j = i then new_dirent rest l else slot v1 j)" for j
        using dw found s1(6,8) by auto
      note s2 = kept_same [OF k2(1)]
      obtain v3 e3 where d3: "fd_write l zero_fd v2 = (v3, e3)" by (metis surj_pair)
      have "dk_wr (vl_disk v2) l = RV9_IO_OK" using base l(1) s1 s2 by (simp add: vol_base_def)
      then have k3: "kept {l} v2 v3" "e3 = RV9_IO_OK" using vwrite_kept [OF d3 [unfolded fd_write_def]] by (auto split: if_splits)
      note s3 = kept_same [OF k3(1)]
      let ?p = "new_path\<lparr>rp_fd_lsn := l, rp_dirty := True\<rparr>"
      have out: "w = v3" "r = Inr ?p" using st i a False d2 k2(2) d3 k3(2) by (simp_all add: create_file_def)
      have p: "\<not> rp_is_dir ?p" "rp_fd_lsn ?p = l" "rp_dirty ?p" "rp_fd ?p = zero_fd" by (simp_all add: new_path_def)
      have k23: "kept {?d, l} v1 v3" by (rule kept_trans [OF k2(1) k3(1)]) auto
      have far: "maps_of v1 < m" if "m \<in> {?d, l}" for m
        using that dsec ml s1(1) g by (auto simp: geom_def meta_def)
      have mk: "marks v3 m = (m = l \<or> marks v m)" if "m div BITS_PER_SECTOR < maps_of v" for m
        using marks_far [OF k23 far, of m] that s1(1) l(4) by simp
      have k13: "kept (map_sectors v \<union> {?d, l}) v v3" by (rule kept_trans [OF k1 k23]) auto
      note s13 = kept_same [OF k13]
      have b3: "vol_base v3" by (rule vol_base_keep [OF base k13]) (simp add: grows_def mk)
      have slot3: "slot v3 j = (if j = i then new_dirent rest l else slot v j)" if "j < slots_of v" for j
      proof -
        have "id_root_lsn (vl_ident v) + j div DIR_ENTRIES_PER_SECTOR < meta v" "maps_of v < id_root_lsn (vl_ident v) + j div DIR_ENTRIES_PER_SECTOR"
          using dir_sector [OF g that] by blast+
        then have "slot v3 j = slot v2 j" "slot v1 j = slot v j"
          using slot_kept [OF k3(1), of j] slot_kept [OF k1, of j] s1 s2 ml by (auto simp: map_sectors_def)
        then show ?thesis using k2(3) by simp
      qed
      have ent3: "ent v3 j = (if j = i then l else ent v j)" if "j < slots_of v" for j
        using slot3 [OF that] name(2) by (simp add: ent_def)
      have free: "ent v i = 0" using found by (auto simp: ent_def dir_match_def)
      have lv: "live v3 = insert i (live v)" "i \<notin> live v"
        using ent3 found slots_kept [OF k13] False free by (auto simp: live_def)
      have entv: "ent v3 j = ent v j" if "j \<in> live v" for j using ent3 [of j] that lv(2) by (auto simp: live_def)
      have nl: "l \<notin> own v P F" if "F \<in> ent v ` live v" for F using own_apart(1) [OF inv that, of l] l(3) by blast
      have none: "open_fd P l = None"
      proof (unfold open_fd_None, rule ballI, rule notI)
        fix q assume "q \<in> set P" "is_file q l"
        then have "l \<in> ent v ` live v" using path_listed [OF inv, of q] by (auto simp: is_file_def)
        then show False using nl own_self by blast
      qed
      have o: "open_fd (P @ [?p]) F = (if F = l then Some zero_fd else open_fd P F)" for F
        using open_fd_snoc [of P ?p F] none p by (auto simp: is_file_def)
      have same: "dat v3 m = dat v m" if "F \<in> ent v ` live v" "m \<in> own v P F" for F m
      proof -
        have "m \<notin> map_sectors v \<union> {?d, l}" using own_apart(1) [OF inv that] nl [OF that(1)] that(2) dsec by (auto simp: map_sectors_def)
        then show ?thesis using k13 by (simp add: kept_def)
      qed
      have cur3: "cur v3 (P @ [?p]) F = cur v P F" if "F \<in> ent v ` live v" for F
      proof -
        have "F \<noteq> l" using nl [OF that] own_self by metis
        then show ?thesis using same [OF that own_self] o by (intro cur_same) auto
      qed
      have "vol_inv (v3, P @ [?p])"
      proof (rule vol_inv_step [OF inv _ _ b3, where ?i0.0 = i])
        show "vl_ident v3 = vl_ident v" "vl_mounted v3 = vl_mounted v" using s13 by auto
        fix j assume j: "j \<in> live v3" "j \<noteq> i"
        then have jv: "j \<in> live v" using lv by simp
        then show "j \<in> live v \<and> ent v3 j = ent v j" using entv by blast
        have "ent v j \<in> ent v ` live v" using jv by simp
        then show "cur v3 (P @ [?p]) (ent v j) = cur v P (ent v j) \<and> (\<forall>l\<in>own v P (ent v j). marks v3 l)"
          using cur3 mk own_apart(1) [OF inv] by blast
      next
        have e: "ent v3 i = l" using ent3 [of i] found by simp
        have c: "cur v3 (P @ [?p]) l = zero_fd" by (simp add: cur_def o)
        have "held v3 l" using l(1,2) ml mk s13 by (simp add: held_def)
        then show "file_inv v3 (P @ [?p]) (ent v3 i)" using zero_fd_ok by (simp add: e file_inv_def c)
        fix j assume "j \<in> live v3" "j \<noteq> i"
        then have "ent v j \<in> ent v ` live v" using lv by simp
        then show "own v3 (P @ [?p]) (ent v3 i) \<inter> own v P (ent v j) = {}" using nl zero_fd_ok(2) by (simp add: e own_def [of v3] c)
      next
        show "one_path (P @ [?p])" using one_path_snoc [OF vol_invD(5) [OF inv]] none p(2) by simp
        have imgs: "ent v3 ` live v3 = insert l (ent v ` live v)" using lv entv ent3 found by (auto simp: image_iff)
        show "path_ok v3 q" if q: "q \<in> set (P @ [?p])" for q
        proof (cases "q = ?p")
          case True
          then show ?thesis using p imgs by (simp add: path_ok_def)
        next
          case False
          show ?thesis
          proof (cases "rp_is_dir q")
            case fil: False
            note li = snoc_listed [OF inv q fil False]
            then show ?thesis using same [OF _ own_self, of "rp_fd_lsn q"] imgs by (simp add: path_ok_def)
          qed (simp add: path_ok_def)
        qed
      qed
      moreover have "untouched (v, P) (v3, P @ [?p]) F" if F: "F \<in> ent v ` live v" for F
      proof -
        have "F \<in> ent v3 ` live v3" using F lv entv by force
        then show ?thesis using cur3 [OF F] same [OF F] by (simp add: untouched_def)
      qed
      ultimately show ?thesis unfolding out by simp
    qed
  qed
qed


lemma open_step:
  assumes inv: "vol_inv (v, P)" and ord: "orderly (v, P) (ROpen mode name)"
  shows "vol_inv (rbf_step (v, P) (ROpen mode name)) \<and>
    (\<forall>F\<in>ent v ` live v. about (v, P) (ROpen mode name) \<noteq> Some F \<longrightarrow> untouched (v, P) (rbf_step (v, P) (ROpen mode name)) F)"
proof -
  have g: "geom v" using vol_invD(1) [OF inv] by (simp add: vol_base_def)
  have stay: "untouched (v, P) (v, P) F" if "F \<in> ent v ` live v" for F using that by (simp add: untouched_def)
  have m: "vl_mounted v" by (rule vol_invD(2) [OF inv])
  show ?thesis
  proof (cases "name = []")
    case True
    then show ?thesis using m open_dir_step [OF inv, of "new_path\<lparr>rp_is_dir := True\<rparr>"] by (simp add: rbf_open_def)
  next
    case named: False
    show ?thesis
    proof (cases "dir_find (Some name) v")
      case None
      show ?thesis
      proof (cases "mode AND RV9_MODE_CREATE = 0")
        case True
        then show ?thesis using m named None inv stay by (simp add: rbf_open_def)
      next
        case False
        obtain w r where c: "create_file name v = (w, r)" by (metis surj_pair)
        have o: "rbf_open True mode name v = (w, r)" using m named None False c by (simp add: rbf_open_def)
        show ?thesis
        proof (cases r)
          case (Inl e)
          then show ?thesis using create_step [OF inv c] o inv stay by simp
        next
          case (Inr p)
          then show ?thesis using create_step [OF inv c] o by simp
        qed
      qed
    next
      case (Some x)
      then obtain i e where f: "dir_find (Some name) v = Some (i, e)" by (cases x) auto
      let ?F = "de_fd_lsn e"
      note found = dir_find_slot [OF g f]
      have F: "?F \<in> ent v ` live v" using found by (auto simp: live_def ent_def dir_match_def)
      have none: "open_fd P ?F = None" using ord f by simp
      have about: "about (v, P) (ROpen mode name) = Some ?F" using f by simp
      have cF: "cur v P ?F = fd_of (dat v ?F)" by (simp add: cur_def none)
      show ?thesis
      proof (cases "fd_read ?F v")
        case (Inl err)
        then show ?thesis using m named f inv stay by (simp add: rbf_open_def)
      next
        case (Inr fd)
        then have fd: "fd = fd_of (dat v ?F)" by (auto simp: fd_read_def vread_def rd_def split: sum.splits if_splits)
        have fi: "file_ok v {?F} fd" using file_inv_ent [OF inv F] cF fd by (simp add: file_inv_def)
        show ?thesis
        proof (cases "mode AND RV9_MODE_CREATE = 0")
          case True
          let ?p = "new_path\<lparr>rp_fd_lsn := ?F, rp_fd := fd\<rparr>"
          have "vol_inv (v, P @ [?p]) \<and> (\<forall>G\<in>ent v ` live v. ?F \<noteq> G \<longrightarrow> untouched (v, P) (v, P @ [?p]) G)"
            by (rule open_file_step [OF inv F none])
              (use fd fi cF vol_invD(1) [OF inv] in \<open>auto simp: new_path_def own_def\<close>)
          then show ?thesis using m named f Inr True about by (simp add: rbf_open_def)
        next
          case False
          let ?p = "new_path\<lparr>rp_fd_lsn := ?F, rp_dirty := True\<rparr>"
          note rel = released [OF inv F, unfolded cF, folded fd]
          have "vol_inv (fd_release fd v, P @ [?p]) \<and> (\<forall>G\<in>ent v ` live v. ?F \<noteq> G \<longrightarrow> untouched (v, P) (fd_release fd v, P @ [?p]) G)"
            by (rule open_file_step [OF inv F none]) (use rel zero_fd_ok in \<open>auto simp: new_path_def\<close>)
          then show ?thesis using m named f Inr False about by (simp add: rbf_open_def)
        qed
      qed
    qed
  qed
qed

lemma remove_step:
  assumes inv: "vol_inv (v, P)" and ord: "orderly (v, P) (RRemove name)"
  shows "vol_inv (fst (rbf_remove name v), P) \<and>
    (\<forall>F\<in>ent v ` live v. about (v, P) (RRemove name) \<noteq> Some F \<longrightarrow> untouched (v, P) (fst (rbf_remove name v), P) F)"
proof -
  note base = vol_invD(1) [OF inv]
  have g: "geom v" using base by (simp add: vol_base_def)
  have stay: "untouched (v, P) (v, P) F" if "F \<in> ent v ` live v" for F using that by (simp add: untouched_def)
  show ?thesis
  proof (cases "name = [] \<or> dir_find (Some name) v = None")
    case True
    then have "rbf_remove name v = (v, RV9_IO_ERR_INVAL) \<or> rbf_remove name v = (v, RV9_IO_ERR_NOTFOUND)" by (auto simp: rbf_remove_def)
    then show ?thesis using inv stay by auto
  next
    case False
    then obtain i e where f: "name \<noteq> []" "dir_find (Some name) v = Some (i, e)" by auto
    let ?F = "de_fd_lsn e" and ?d = "id_root_lsn (vl_ident v) + i div DIR_ENTRIES_PER_SECTOR"
    let ?z = "\<lparr>de_name = replicate 28 0, de_fd_lsn = 0\<rparr>"
    note found = dir_find_slot [OF g f(2)]
    have i: "i \<in> live v" "ent v i = ?F" using found by (auto simp: live_def ent_def dir_match_def)
    have F: "?F \<in> ent v ` live v" using i by force
    have none: "open_fd P ?F = None" using ord f by simp
    have cF: "cur v P ?F = fd_of (dat v ?F)" by (simp add: cur_def none)
    define v1 where "v1 = (case fd_read ?F v of Inl _ \<Rightarrow> v | Inr fd \<Rightarrow> fd_release fd v)"
    have v1: "kept (map_sectors v) v v1 \<and> vol_base v1 \<and> (\<forall>l. l \<notin> own v P ?F \<longrightarrow> marks v1 l = marks v l)"
    proof (cases "fd_read ?F v")
      case (Inl x)
      then show ?thesis using base by (simp add: v1_def)
    next
      case (Inr fd)
      then have "fd = cur v P ?F" by (auto simp: cF fd_read_def vread_def rd_def split: sum.splits if_splits)
      then show ?thesis using released [OF inv F] Inr by (simp add: v1_def)
    qed
    note s1 = kept_same [OF conjunct1 [OF v1]]
    obtain v2 e2 where b: "bitmap_set ?F False v1 = (v2, e2)" by (metis surj_pair)
    have FW: "?F < W32" "?F div BITS_PER_SECTOR < maps_of v" using own_apart(1) [OF inv F own_self] g by (auto simp: geom_def)
    have "geom v1" using v1 by (simp add: vol_base_def)
    note bs = bitmap_set_marks [OF this FW(1) b]
    have k2: "kept (map_sectors v) v v2"
      by (rule kept_trans [OF conjunct1 [OF v1] conjunct1 [OF bs]]) (use FW in \<open>auto simp: map_sectors_def\<close>)
    have m2: "marks v2 l = marks v l" if "l \<notin> own v P ?F" for l
      using bs v1 that own_self [of ?F v P] by (cases "e2 = RV9_IO_OK") auto
    note s2 = kept_same [OF k2]
    have b2: "vol_base v2"
    proof -
      have "marks v2 l" if "l < meta v" "l div BITS_PER_SECTOR < maps_of v" for l
        using that base m2 [of l] own_apart(1) [OF inv F, of l] by (auto simp: vol_base_def)
      then show ?thesis using base s2 by (simp add: vol_base_def)
    qed
    obtain w r where d: "dir_write i ?z v2 = (w, r)" by (metis surj_pair)
    have "i < slots_of v2" using found slots_kept [OF k2] by simp
    note dw = dir_write_slot [OF b2 this _ _ d, simplified]
    have dsec: "?d < meta v" "maps_of v < ?d" using dir_sector [OF g] found by blast+
    have kw: "kept {?d} v2 w" and slotw: "slot w j = (if j = i then ?z else slot v2 j)" for j
      using dw found s2 by (auto split: if_splits)
    have k: "kept (map_sectors v \<union> {?d}) v w" by (rule kept_trans [OF k2 kw]) auto
    note sw = kept_same [OF k]
    have mw: "marks w l = marks v l" if "l \<notin> own v P ?F" "l div BITS_PER_SECTOR < maps_of v" for l
      using marks_far [OF kw, of l] dsec s2 that m2 [OF that(1)] by simp
    have bw: "vol_base w"
    proof -
      have "marks w l" if "l < meta v" "l div BITS_PER_SECTOR < maps_of v" for l
        using that base mw [of l] own_apart(1) [OF inv F, of l] by (auto simp: vol_base_def)
      then show ?thesis using base sw by (simp add: vol_base_def)
    qed
    have rem: "fst (rbf_remove name v) = w" using f b d by (simp add: rbf_remove_def v1_def [symmetric] Let_def)
    have slot2: "slot v2 j = slot v j" if "j < slots_of v" for j
      using slot_kept [OF k2, of j] dir_sector [OF g that] by (simp add: map_sectors_def)
    have lv: "live w = live v - {i}" "\<And>j. j \<in> live w \<Longrightarrow> ent w j = ent v j"
      using slotw slot2 slots_kept [OF k] by (auto simp: live_def ent_def)
    have apart: "m \<notin> own v P ?F \<and> m \<notin> map_sectors v \<union> {?d} \<and> marks w m" if "G \<in> ent v ` live v" "G \<noteq> ?F" "m \<in> own v P G" for G m
    proof -
      have "m \<notin> own v P ?F" using own_apart(2) [OF inv F that(1,2)] that(3) by blast
      then show ?thesis using own_apart(1) [OF inv that(1,3)] mw [of m] dsec by (auto simp: map_sectors_def)
    qed
    have same: "dat w m = dat v m" if "G \<in> ent v ` live v" "G \<noteq> ?F" "m \<in> own v P G" for G m
      using apart [OF that] k by (simp add: kept_def)
    have cur: "cur w P G = cur v P G" if "G \<in> ent v ` live v" "G \<noteq> ?F" for G
      using same [OF that own_self] by (intro cur_same) auto
    have in_w: "G \<in> ent w ` live w" if "G \<in> ent v ` live v" "G \<noteq> ?F" for G using that lv i by (force simp: image_iff)
    have res: "vol_inv (w, P)"
    proof (rule vol_inv_step [OF inv _ _ bw, where ?i0.0 = i])
      show "vl_ident w = vl_ident v" "vl_mounted w = vl_mounted v" using sw by auto
      fix j assume j: "j \<in> live w" "j \<noteq> i"
      then have jv: "j \<in> live v" using lv by simp
      then show "j \<in> live v \<and> ent w j = ent v j" using lv(2) j by simp
      have "ent v j \<in> ent v ` live v" "ent v j \<noteq> ?F" using jv entry_apart [OF inv i(1) jv] j(2) i(2) by auto
      then show "cur w P (ent v j) = cur v P (ent v j) \<and> (\<forall>l\<in>own v P (ent v j). marks w l)" using cur apart by blast
    next
      show "one_path P" by (rule vol_invD(5) [OF inv])
      show "path_ok w q" if q: "q \<in> set P" for q
      proof (cases "rp_is_dir q")
        case False
        note li = path_listed [OF inv q False]
        have "rp_fd_lsn q \<noteq> ?F" using none q False by (auto simp: open_fd_None is_file_def)
        then show ?thesis using li in_w same [OF _ _ own_self] by (simp add: path_ok_def)
      qed (simp add: path_ok_def)
    qed (use lv in auto)
    moreover have "untouched (v, P) (w, P) G" if "G \<in> ent v ` live v" "?F \<noteq> G" for G
    proof -
      have "G \<noteq> ?F" using that(2) by simp
      then show ?thesis using in_w [OF that(1)] cur [OF that(1)] same [OF that(1)] by (simp add: untouched_def)
    qed
    ultimately show ?thesis using rem f by simp
  qed
qed

end
