(* ===== verification/RbfRun.thy ===== *)
theory RbfRun
  imports RbfVolume "HOL-Library.Disjoint_Sets"
begin

text \<open>
  From an empty device on: formatting leaves an empty volume in order, and every orderly run keeps
  it so, each operation leaving alone the files it is not about.
\<close>

section \<open>Formatting\<close>

lemma wr_each_zero:
  assumes "wr_each (\<lambda>i. vwrite (b + i) z) xs v = (w, RV9_IO_OK)"
  shows "kept ((+) b ` set xs) v w \<and> (\<forall>i\<in>set xs. dat w (b + i) = z)"
  using assms
proof (induction xs arbitrary: v)
  case (Cons x xs)
  obtain u e where u: "vwrite (b + x) z v = (u, e)" by (metis surj_pair)
  have e: "e = RV9_IO_OK" "wr_each (\<lambda>i. vwrite (b + i) z) xs u = (w, RV9_IO_OK)" using Cons.prems u by (auto split: if_splits)
  note one = vwrite_kept [OF u] and rest = Cons.IH [OF e(2)]
  have k: "kept ((+) b ` set (x # xs)) v w" by (rule kept_trans [OF conjunct1 [OF one] conjunct1 [OF rest]]) auto
  have "dat w (b + x) = z"
  proof (cases "x \<in> set xs")
    case False
    then have "b + x \<notin> (+) b ` set xs" by auto
    then have "dat w (b + x) = dat u (b + x)" using rest by (simp add: kept_def)
    then show ?thesis using one e(1) by (auto split: if_splits)
  qed (use rest in blast)
  then show ?case using k rest by auto
qed simp

lemma wr_each_marks:
  assumes "geom v" "\<forall>l\<in>set xs. l < W32" "wr_each (\<lambda>l. bitmap_set l True) xs v = (w, RV9_IO_OK)"
  shows "kept ((\<lambda>l. 1 + l div BITS_PER_SECTOR) ` set xs) v w \<and> (\<forall>l. marks w l \<longleftrightarrow> l \<in> set xs \<or> marks v l)"
  using assms
proof (induction xs arbitrary: v)
  case (Cons x xs)
  obtain u e where u: "bitmap_set x True v = (u, e)" by (metis surj_pair)
  have e: "e = RV9_IO_OK" "wr_each (\<lambda>l. bitmap_set l True) xs u = (w, RV9_IO_OK)" using Cons.prems(3) u by (auto split: if_splits)
  have x: "x < W32" "\<forall>l\<in>set xs. l < W32" using Cons.prems(2) by simp_all
  note one = bitmap_set_marks [OF Cons.prems(1) x(1) u]
  have "geom u" using one kept_same Cons.prems(1) by blast
  note rest = Cons.IH [OF this x(2) e(2)]
  have "kept ((\<lambda>l. 1 + l div BITS_PER_SECTOR) ` set (x # xs)) v w"
    by (rule kept_trans [OF conjunct1 [OF one] conjunct1 [OF rest]]) auto
  then show ?case using one e(1) rest by auto
qed simp

lemma format_geometry:
  assumes "4 \<le> n" "n < W32" "vl_ident v = format_ident n"
  shows "geom v" "total_of v = n" "l < meta v \<Longrightarrow> l div BITS_PER_SECTOR < maps_of v"
proof -
  let ?b = "(n div 8 + 511) div 512"
  have c: "cast32 (n div 8 + 511) = n div 8 + 511" using assms(2) by (simp add: cast32_def)
  have m: "maps_of v = (if ?b = 0 then 1 else ?b)" "total_of v = n" "id_bitmap_lsn (vl_ident v) = 1" "id_root_lsn (vl_ident v) = 1 + maps_of v"
    "id_root_sectors (vl_ident v) = (if n \<ge> 2 ^ 20 then 16 else if n \<ge> 2 ^ 16 then 8 else 2)"
    using assms(3) c by (simp_all add: format_ident_def Let_def SECTOR_SIZE_def maps_of_def total_of_def add.commute)
  have mm: "maps_of v \<le> 1 + n div 4096" "0 < maps_of v" "maps_of v \<le> 2 ^ 20" using m(1) assms(2) by (auto split: if_splits)
  have meta: "meta v = 1 + maps_of v + id_root_sectors (vl_ident v)" by (simp add: meta_def m)
  have "meta v \<le> n"
  proof (cases "n \<ge> 2 ^ 16")
    case True
    then have "id_root_sectors (vl_ident v) \<le> 16" using m(5) by simp
    then show ?thesis using True mm(1) meta by simp
  next
    case False
    then have r: "id_root_sectors (vl_ident v) = 2" using m(5) by simp
    show ?thesis
    proof (cases "n < 4096")
      case True
      then have "maps_of v = 1" using mm by simp
      then show ?thesis using r meta assms(1) by simp
    next
      case False
      then show ?thesis using r meta mm(1) by simp
    qed
  qed
  then show "geom v" using m mm assms(2) by (simp add: geom_def)
  show "total_of v = n" by (rule m(2))
  show "l div BITS_PER_SECTOR < maps_of v" if "l < meta v"
  proof -
    have "l < maps_of v + 17" using that meta m(5) by (auto split: if_splits)
    then have "l div 4096 < maps_of v" using mm(2) by (simp add: div_less_iff_less_mult)
    then show ?thesis by (simp add: BITS_PER_SECTOR_def SECTOR_SIZE_def)
  qed
qed

lemma zero_u32: "u32_at zero_sector j = 0"
  by (simp add: u32_at_def u16_at_def zero_sector_def)

lemma format_empty:
  assumes n: "4 \<le> n" "n < W32" and wr: "\<forall>l<n. dk_wr (vl_disk v) l = RV9_IO_OK" and f: "rbf_format n v = (w, RV9_IO_OK)"
  shows "vol_base w \<and> live w = {} \<and> total_of w = n \<and> vl_ident w = format_ident n \<and> (\<forall>l. meta w \<le> l \<and> l div BITS_PER_SECTOR < maps_of w \<longrightarrow> \<not> marks w l)"
proof -
  let ?x = "format_ident n"
  define v0 where "v0 = v\<lparr>vl_ident := ?x\<rparr>"
  obtain v1 e1 where 1: "wr_each (\<lambda>i. vwrite (id_bitmap_lsn ?x + i) zero_sector) [0..<id_bitmap_sectors ?x] v0 = (v1, e1)" by (metis surj_pair)
  obtain v2 e2 where 2: "wr_each (\<lambda>i. vwrite (id_root_lsn ?x + i) zero_sector) [0..<id_root_sectors ?x] v1 = (v2, e2)" by (metis surj_pair)
  obtain v3 e3 where 3: "vwrite 0 (store_bytes 0 (ident_bytes ?x) zero_sector) v2 = (v3, e3)" by (metis surj_pair)
  have e: "e1 = RV9_IO_OK" "e2 = RV9_IO_OK" "e3 = RV9_IO_OK"
    and 4: "wr_each (\<lambda>lsn. bitmap_set lsn True) [0..<id_root_lsn ?x + id_root_sectors ?x] v3 = (w, RV9_IO_OK)"
    using f 1 2 3 by (auto simp: rbf_format_def Let_def v0_def [symmetric] split: if_splits)
  have x: "vl_ident v0 = ?x" "vl_disk v0 = vl_disk v" by (simp_all add: v0_def)
  note g0 = format_geometry [OF n x(1)]
  have id: "id_bitmap_lsn ?x = 1" "id_bitmap_sectors ?x = maps_of v0" "id_root_lsn ?x = 1 + maps_of v0" "id_root_lsn ?x + id_root_sectors ?x = meta v0"
    using g0(1) x by (simp_all add: geom_def maps_of_def meta_def)
  note k1 = wr_each_zero [OF 1 [unfolded e]] and k2 = wr_each_zero [OF 2 [unfolded e]] and k3 = vwrite_kept [OF 3]
  have k03: "kept {l. l < meta v0} v0 v3"
  proof (rule kept_trans [OF conjunct1 [OF k1]])
    show "kept {l. l < meta v0} v1 v3" by (rule kept_trans [OF conjunct1 [OF k2] conjunct1 [OF k3]]) (use id g0(1) in \<open>auto simp: geom_def meta_def\<close>)
    show "(+) (id_bitmap_lsn ?x) ` set [0..<id_bitmap_sectors ?x] \<subseteq> {l. l < meta v0}" using id by (auto simp: meta_def)
  qed simp
  note s3 = kept_same [OF k03]
  have g3: "geom v3" "meta v3 = meta v0" "maps_of v3 = maps_of v0" using s3 g0(1) by simp_all
  have "\<forall>l\<in>set [0..<id_root_lsn ?x + id_root_sectors ?x]. l < W32" using id(4) g0(1) by (auto simp: geom_def)
  note k4 = wr_each_marks [OF g3(1) this 4]
  have sub: "(\<lambda>l. 1 + l div BITS_PER_SECTOR) ` set [0..<id_root_lsn ?x + id_root_sectors ?x] \<subseteq> map_sectors v0"
    using g0(3) id(4) by (auto simp: map_sectors_def Suc_le_eq)
  have k4': "kept (map_sectors v0) v3 w" by (rule kept_mono [OF conjunct1 [OF k4] sub])
  note s4 = kept_same [OF k4']
  have "marks w l" if "l < meta v0" for l using k4 id(4) that by simp
  moreover have "dk_wr (vl_disk w) = dk_wr (vl_disk v)" using s4 s3 x by simp
  ultimately have "vol_base w" using s4 s3 g0 wr by (simp add: vol_base_def)
  moreover have "ent w i = 0" if i: "i < slots_of w" for i
  proof -
    have same: "vl_ident w = ?x" using s4 s3 x by simp
    let ?q = "i div DIR_ENTRIES_PER_SECTOR"
    have q: "?q < id_root_sectors ?x" using i same by (simp add: slots_of_def DIR_ENTRIES_PER_SECTOR_def less_mult_imp_div_less)
    then have "dat v2 (id_root_lsn ?x + ?q) = zero_sector" using k2 by simp
    moreover have "dat v3 (id_root_lsn ?x + ?q) = dat v2 (id_root_lsn ?x + ?q)" using k3 id(3) by (simp add: kept_def)
    moreover have "dat w (id_root_lsn ?x + ?q) = dat v3 (id_root_lsn ?x + ?q)" using k4' id(3) by (simp add: kept_def map_sectors_def)
    ultimately show ?thesis using same by (simp add: ent_def slot_def dirent_of_def zero_u32)
  qed
  moreover have "\<not> marks w l" if l: "meta w \<le> l" "l div BITS_PER_SECTOR < maps_of w" for l
  proof -
    let ?q = "l div BITS_PER_SECTOR"
    have q: "?q < maps_of v0" "meta v0 \<le> l" using l s4 s3 by simp_all
    then have "dat v1 (1 + ?q) = zero_sector" using k1 id(1,2) by simp
    moreover have "1 + ?q \<notin> (+) (id_root_lsn ?x) ` set [0..<id_root_sectors ?x]" using q(1) id(3) by auto
    then have "dat v2 (1 + ?q) = dat v1 (1 + ?q)" using conjunct1 [OF k2] unfolding kept_def by blast
    moreover have "dat v3 (1 + ?q) = dat v2 (1 + ?q)" using conjunct1 [OF k3] by (simp add: kept_def)
    ultimately have "\<not> marks v3 l" by (simp add: marks_def zero_sector_def)
    then show ?thesis using k4 id(4) q(2) by simp
  qed
  ultimately show ?thesis using s4 s3 g0(2) x by (auto simp: live_def)
qed

lemma mount_empty:
  assumes "4 \<le> n" "n < W32" "\<forall>l<n. dk_wr d l = RV9_IO_OK" "dk_geometry d = Some (RV9_IO_OK, SECTOR_SIZE, n)"
    "id_magic (ident_of (dk_at d 0)) \<noteq> RBF_MAGIC" "rbf_mount d True True = (d', Inr v)"
  shows "vol_inv (v, []) \<and> live v = {} \<and> total_of v = n \<and> vl_ident v = format_ident n \<and> (\<forall>l. meta v \<le> l \<and> l div BITS_PER_SECTOR < maps_of v \<longrightarrow> \<not> marks v l)"
proof -
  define v0 where "v0 = \<lparr>vl_disk = d, vl_ident = ident_of (dk_at d 0), vl_hint = 0, vl_sector_count = n, vl_mounted = False\<rparr>"
  obtain w e where f: "rbf_format n v0 = (w, e)" by (metis surj_pair)
  have "e = RV9_IO_OK" "v = w\<lparr>vl_mounted := True\<rparr>"
    using assms(4-6) f by (auto simp: rbf_mount_def rd_def Let_def v0_def [symmetric] split: if_splits)
  moreover have "\<forall>l<n. dk_wr (vl_disk v0) l = RV9_IO_OK" using assms(3) by (simp add: v0_def)
  ultimately have v: "vol_base w" "live w = {}" "total_of w = n" "v = w\<lparr>vl_mounted := True\<rparr>"
    "\<forall>l. meta w \<le> l \<and> l div BITS_PER_SECTOR < maps_of w \<longrightarrow> \<not> marks w l" "vl_ident w = format_ident n"
    using format_empty [OF assms(1,2) _ f [unfolded \<open>e = RV9_IO_OK\<close>]] by simp_all
  have "vol_base v = vol_base w" "live v = live w" "total_of v = total_of w" "meta v = meta w" "maps_of v = maps_of w" "marks v = marks w"
    unfolding v(4) by (simp_all add: vol_base_def geom_def meta_def total_of_def maps_of_def marks_def [abs_def] live_def ent_def slot_def slots_of_def)
  then show ?thesis using v by (simp add: vol_inv_def one_path_def)
qed

section \<open>Runs\<close>

fun orderly_run :: "vol \<times> rbf_path list \<Rightarrow> rbf_op list \<Rightarrow> bool" where
  "orderly_run s [] \<longleftrightarrow> True"
| "orderly_run s (op # ops) \<longleftrightarrow> orderly s op \<and> orderly_run (rbf_step s op) ops"

lemma rbf_step_ok:
  assumes inv: "vol_inv (v, P)" and ord: "orderly (v, P) op"
  shows "vol_inv (rbf_step (v, P) op) \<and> (\<forall>F\<in>ent v ` live v. about (v, P) op \<noteq> Some F \<longrightarrow> untouched (v, P) (rbf_step (v, P) op) F)"
proof -
  have stay: "vol_inv (v, P) \<and> (\<forall>F\<in>ent v ` live v. untouched (v, P) (v, P) F)" using inv by (auto simp: untouched_def)
  show ?thesis
  proof (cases op)
    case (ROpen mode name)
    then show ?thesis using open_step [OF inv] ord by simp
  next
    case (RClose k)
    then show ?thesis using close_step [OF inv, of k] stay by (cases "k < length P") simp_all
  next
    case (RRead k len)
    show ?thesis
    proof (cases "k < length P")
      case True
      let ?p = "if rp_is_dir (P ! k) then fst (dir_read (P ! k) len v) else fst (rbf_read (P ! k) len v)"
      have "rp_is_dir ?p = rp_is_dir (P ! k) \<and> rp_fd_lsn ?p = rp_fd_lsn (P ! k) \<and> rp_fd ?p = rp_fd (P ! k) \<and> rp_dirty ?p = rp_dirty (P ! k)"
        by (simp add: dir_read_def rbf_read_def Let_def)
      then show ?thesis using move_step [OF inv True, of ?p] RRead True by simp
    qed (use stay RRead in simp)
  next
    case (RWrite k bs)
    show ?thesis
    proof (cases "k < length P")
      case True
      obtain w p e n where w: "rbf_write (P ! k) bs v = (w, p, e, n)" by (metis prod_cases4)
      then show ?thesis using write_step [OF inv True w] RWrite True by simp
    qed (use stay RWrite in simp)
  next
    case (RSeek k off wh)
    show ?thesis
    proof (cases "k < length P")
      case True
      let ?p = "fst (rbf_seek off wh (P ! k))"
      have "rp_is_dir ?p = rp_is_dir (P ! k) \<and> rp_fd_lsn ?p = rp_fd_lsn (P ! k) \<and> rp_fd ?p = rp_fd (P ! k) \<and> rp_dirty ?p = rp_dirty (P ! k)"
        by (simp add: rbf_seek_def split: option.splits)
      then show ?thesis using move_step [OF inv True, of ?p] RSeek True by simp
    qed (use stay RSeek in simp)
  next
    case (RRemove name)
    then show ?thesis using remove_step [OF inv, of name] ord by simp
  next
    case (RFault f)
    then show ?thesis using fault_step [OF inv, of f] by simp
  qed
qed

lemma rbf_run_ok: "vol_inv s \<Longrightarrow> orderly_run s ops \<Longrightarrow> vol_inv (foldl rbf_step s ops)"
proof (induction ops arbitrary: s)
  case (Cons op ops)
  obtain v P where s: "s = (v, P)" by (metis surj_pair)
  then have "vol_inv (rbf_step s op)" using rbf_step_ok [of v P op] Cons.prems by simp
  then show ?case using Cons by simp
qed simp


text \<open>
  C30: no two files share a sector. Mount a device that holds no volume, and open, read, write, seek,
  close and remove files, with reads failing as they may, as long as writes succeed, no file is opened
  while open and none removed while open. Then the sectors the files own (descriptor and data) are
  pairwise apart, lie behind the metadata and inside the volume and are marked in use; none is twice
  in one file; the metadata stays marked; and every open path is of a file that is listed.
\<close>

theorem files_apart:
  assumes "4 \<le> n" "n < W32" "\<forall>l<n. dk_wr d l = RV9_IO_OK" "dk_geometry d = Some (RV9_IO_OK, SECTOR_SIZE, n)"
    "id_magic (ident_of (dk_at d 0)) \<noteq> RBF_MAGIC" "rbf_mount d True True = (d', Inr v0)"
    and run: "orderly_run (v0, []) ops" "foldl rbf_step (v0, []) ops = (v, P)"
  shows "disjoint_family_on (\<lambda>i. own v P (ent v i)) (live v) \<and>
    (\<Union>i\<in>live v. own v P (ent v i)) \<subseteq> {meta v..<total_of v} \<inter> {l. marks v l} \<and>
    {i \<in> live v. \<not> distinct (ent v i # fd_sectors (cur v P (ent v i)))} = {} \<and>
    {l. l < meta v \<and> l div BITS_PER_SECTOR < maps_of v} \<subseteq> {l. marks v l} \<and>
    rp_fd_lsn ` {p \<in> set P. \<not> rp_is_dir p} \<subseteq> ent v ` live v"
proof -
  have inv: "vol_inv (v, P)" using rbf_run_ok [OF _ run(1)] mount_empty [OF assms(1-6)] run(2) by simp
  have "disjoint_family_on (\<lambda>i. own v P (ent v i)) (live v)" using vol_invD(4) [OF inv] by (simp add: disjoint_family_on_def)
  moreover have "own v P (ent v i) \<subseteq> {meta v..<total_of v} \<inter> {l. marks v l}" if "i \<in> live v" for i
    using own_apart(1) [OF inv, of "ent v i"] that by auto
  moreover have "distinct (ent v i # fd_sectors (cur v P (ent v i)))" if "i \<in> live v" for i
    using vol_invD(3) [OF inv that] by (auto simp: file_inv_def file_ok_def)
  moreover have "{l. l < meta v \<and> l div BITS_PER_SECTOR < maps_of v} \<subseteq> {l. marks v l}"
    using vol_invD(1) [OF inv] by (auto simp: vol_base_def)
  moreover have "rp_fd_lsn ` {p \<in> set P. \<not> rp_is_dir p} \<subseteq> ent v ` live v" using path_listed [OF inv] by blast
  ultimately show ?thesis by blast
qed

text \<open>
  C31: each operation leaves alone the files it is not about. After any such run, an orderly operation keeps
  every file but the one it names or writes to: the file stays listed, its size and its sectors are the
  same and so is every byte of them.
\<close>

theorem others_untouched:
  assumes "4 \<le> n" "n < W32" "\<forall>l<n. dk_wr d l = RV9_IO_OK" "dk_geometry d = Some (RV9_IO_OK, SECTOR_SIZE, n)"
    "id_magic (ident_of (dk_at d 0)) \<noteq> RBF_MAGIC" "rbf_mount d True True = (d', Inr v0)"
    and run: "orderly_run (v0, []) ops" "foldl rbf_step (v0, []) ops = (v, P)"
    and op: "orderly (v, P) op" "rbf_step (v, P) op = (w, Q)" and F: "i \<in> live v" "F = ent v i" "about (v, P) op \<noteq> Some F"
  shows "F \<in> ent w ` live w \<and> fd_size (cur w Q F) = fd_size (cur v P F) \<and> fd_sectors (cur w Q F) = fd_sectors (cur v P F) \<and>
    map (file_byte w (cur w Q F)) [0..<room_of (cur w Q F)] = map (file_byte v (cur v P F)) [0..<room_of (cur v P F)]"
proof -
  have inv: "vol_inv (v, P)" using rbf_run_ok [OF _ run(1)] mount_empty [OF assms(1-6)] run(2) by simp
  have Fl: "F \<in> ent v ` live v" using F(1,2) by simp
  have u: "untouched (v, P) (w, Q) F" using conjunct2 [OF rbf_step_ok [OF inv op(1)]] Fl F(3) unfolding op(2) by blast
  then have c: "cur w Q F = cur v P F" "F \<in> ent w ` live w" "\<forall>l\<in>own v P F - {F}. dat w l = dat v l" by (simp_all add: untouched_def)
  have "F \<notin> set (fd_sectors (cur v P F))" using file_inv_ent [OF inv Fl] by (auto simp: file_inv_def file_ok_def)
  then have s: "dat w l = dat v l" if "l \<in> set (fd_sectors (cur v P F))" for l using c(3) that by (auto simp: own_def)
  have "file_byte w (cur v P F) k = file_byte v (cur v P F) k" if "k < room_of (cur v P F)" for k
    using s that by (simp add: file_byte_def room_index)
  then show ?thesis using c by simp
qed


section \<open>A device that never fails\<close>

definition sound_dev :: "vol \<Rightarrow> bool" where
  "sound_dev v \<longleftrightarrow> (\<forall>l. dk_rd (vl_disk v) l = RV9_IO_OK \<and> dk_wr (vl_disk v) l = RV9_IO_OK)"

lemma sound_write: "sound_dev v \<Longrightarrow> snd (vwrite l s v) = RV9_IO_OK \<and> sound_dev (fst (vwrite l s v))"
  by (simp add: sound_dev_def vwrite_def wr_def)

lemma sound_set: "sound_dev v \<Longrightarrow> snd (bitmap_set l u v) = RV9_IO_OK \<and> sound_dev (fst (bitmap_set l u v))"
proof -
  assume s: "sound_dev v"
  then have "vread k v = Inr (dat v k)" for k by (simp add: sound_dev_def vread_def rd_def)
  then show ?thesis using sound_write [OF s] by (simp add: bitmap_set_def Let_def)
qed

lemma sound_each: "(\<And>x u. sound_dev u \<Longrightarrow> snd (f x u) = RV9_IO_OK \<and> sound_dev (fst (f x u))) \<Longrightarrow> sound_dev v \<Longrightarrow>
    snd (wr_each f xs v) = RV9_IO_OK \<and> sound_dev (fst (wr_each f xs v))"
proof (induction xs arbitrary: v)
  case (Cons x xs)
  obtain u e where u: "f x v = (u, e)" by (metis surj_pair)
  then have "e = RV9_IO_OK" "sound_dev u" using Cons.prems(1) [OF Cons.prems(2), of x] by simp_all
  then show ?case using Cons.IH [OF Cons.prems(1)] u by simp
qed simp

lemma sound_format:
  assumes "sound_dev v"
  shows "snd (rbf_format n v) = RV9_IO_OK \<and> sound_dev (fst (rbf_format n v))"
proof -
  let ?x = "format_ident n"
  have s0: "sound_dev (v\<lparr>vl_ident := ?x\<rparr>)" using assms by (simp add: sound_dev_def)
  obtain v1 e1 where 1: "wr_each (\<lambda>i. vwrite (id_bitmap_lsn ?x + i) zero_sector) [0..<id_bitmap_sectors ?x] (v\<lparr>vl_ident := ?x\<rparr>) = (v1, e1)" by (metis surj_pair)
  have s1: "e1 = RV9_IO_OK" "sound_dev v1" using sound_each [where f="\<lambda>i. vwrite (id_bitmap_lsn ?x + i) zero_sector", OF sound_write s0] 1 by (metis fst_conv snd_conv)+
  obtain v2 e2 where 2: "wr_each (\<lambda>i. vwrite (id_root_lsn ?x + i) zero_sector) [0..<id_root_sectors ?x] v1 = (v2, e2)" by (metis surj_pair)
  have s2: "e2 = RV9_IO_OK" "sound_dev v2" using sound_each [where f="\<lambda>i. vwrite (id_root_lsn ?x + i) zero_sector", OF sound_write s1(2)] 2 by (metis fst_conv snd_conv)+
  obtain v3 e3 where 3: "vwrite 0 (store_bytes 0 (ident_bytes ?x) zero_sector) v2 = (v3, e3)" by (metis surj_pair)
  have s3: "e3 = RV9_IO_OK" "sound_dev v3" using sound_write [OF s2(2), of 0 "store_bytes 0 (ident_bytes ?x) zero_sector"] 3 by simp_all
  have "snd (wr_each (\<lambda>l. bitmap_set l True) [0..<id_root_lsn ?x + id_root_sectors ?x] v3) = RV9_IO_OK \<and>
      sound_dev (fst (wr_each (\<lambda>l. bitmap_set l True) [0..<id_root_lsn ?x + id_root_sectors ?x] v3))"
    by (rule sound_each [OF sound_set s3(2)])
  then show ?thesis using 1 2 3 s1(1) s2(1) s3(1) by (simp add: rbf_format_def Let_def)
qed

definition blank_disk :: disk where
  "blank_disk = \<lparr>dk_at = \<lambda>_. zero_sector, dk_rd = \<lambda>_. RV9_IO_OK, dk_wr = \<lambda>_. RV9_IO_OK, dk_geometry = Some (RV9_IO_OK, SECTOR_SIZE, 16)\<rparr>"

lemma blank_facts: "(4 :: nat) \<le> 16" "(16 :: nat) < W32" "\<forall>l<16. dk_wr blank_disk l = RV9_IO_OK"
    "dk_geometry blank_disk = Some (RV9_IO_OK, SECTOR_SIZE, 16)" "id_magic (ident_of (dk_at blank_disk 0)) \<noteq> RBF_MAGIC"
  by (simp_all add: blank_disk_def ident_of_def load_bytes_def zero_sector_def RBF_MAGIC_def upt_conv_Cons)

lemma blank_mount: "\<exists>v. rbf_mount blank_disk True True = (vl_disk v, Inr v) \<and> sound_dev v"
proof -
  define v0 where "v0 = \<lparr>vl_disk = blank_disk, vl_ident = ident_of (dk_at blank_disk 0), vl_hint = 0, vl_sector_count = 16, vl_mounted = False\<rparr>"
  have s: "sound_dev v0" by (simp add: v0_def sound_dev_def blank_disk_def)
  obtain w e where f: "rbf_format 16 v0 = (w, e)" by (metis surj_pair)
  have w: "e = RV9_IO_OK" "sound_dev w" using sound_format [OF s, of 16] f by simp_all
  have "rd 0 blank_disk = Inr (dk_at blank_disk 0)" by (simp add: rd_def blank_disk_def)
  then have "rbf_mount blank_disk True True = (vl_disk w, Inr (w\<lparr>vl_mounted := True\<rparr>))"
    using f w(1) blank_facts(4,5) by (simp add: rbf_mount_def Let_def v0_def [symmetric])
  then show ?thesis using w(2) by (intro exI [of _ "w\<lparr>vl_mounted := True\<rparr>"]) (simp add: sound_dev_def)
qed

lemma find_unused:
  assumes g: "geom v" "0 < id_root_sectors (vl_ident v)" "sound_dev v" and none: "live v = {}"
  shows "dir_find None v = Some (0, slot v 0)" "dir_find (Some nm) v = None"
proof -
  have z: "0 < slots_of v" using g(2) by (simp add: slots_of_def DIR_ENTRIES_PER_SECTOR_def)
  then have "ent v 0 = 0" using none by (auto simp: live_def)
  then have m: "dir_match None (dirent_of (dat v (id_root_lsn (vl_ident v))) 0)" by (simp add: dir_match_def ent_def slot_def)
  have c: "cast32 (id_root_lsn (vl_ident v)) = id_root_lsn (vl_ident v)" using g(1) by (auto simp: geom_def meta_def cast32_def)
  have r: "vread (id_root_lsn (vl_ident v)) v = Inr (dat v (id_root_lsn (vl_ident v)))" using g(3) by (simp add: sound_dev_def vread_def rd_def)
  have "[0..<DIR_ENTRIES_PER_SECTOR] = 0 # [1..<DIR_ENTRIES_PER_SECTOR]" by (simp add: DIR_ENTRIES_PER_SECTOR_def upt_conv_Cons)
  then have f: "find (\<lambda>i. dir_match None (dirent_of (dat v (id_root_lsn (vl_ident v))) i)) [0..<DIR_ENTRIES_PER_SECTOR] = Some 0" using m by simp
  have u: "[0..<id_root_sectors (vl_ident v)] = 0 # [1..<id_root_sectors (vl_ident v)]" using g(2) by (simp add: upt_conv_Cons)
  show "dir_find None v = Some (0, slot v 0)" by (simp add: dir_find_def u c r f slot_def)
  show "dir_find (Some nm) v = None"
  proof (cases "dir_find (Some nm) v")
    case (Some x)
    then obtain i e where "dir_find (Some nm) v = Some (i, e)" by (cases x) auto
    then have "i \<in> live v" using dir_find_slot [OF g(1), of "Some nm" i e] by (auto simp: live_def ent_def dir_match_def)
    then show ?thesis using none by simp
  qed
qed

lemma sound_kept: "kept S v w \<Longrightarrow> sound_dev v \<Longrightarrow> sound_dev w"
  by (simp add: sound_dev_def kept_def same_vol_def)

lemma first_file:
  assumes inv: "vol_inv (v, [])" and none: "live v = {}" and g: "sound_dev v" "vl_ident v = format_ident 16"
    and free: "\<forall>l. meta v \<le> l \<and> l div BITS_PER_SECTOR < maps_of v \<longrightarrow> \<not> marks v l"
  shows "\<exists>w p. create_file nm v = (w, Inr p) \<and> \<not> rp_is_dir p"
proof -
  have geo: "geom v" using vol_invD(1) [OF inv] by (simp add: vol_base_def)
  have x: "maps_of v = 1" "meta v = 4" "total_of v = 16" "0 < id_root_sectors (vl_ident v)"
    by (simp_all add: g(2) maps_of_def meta_def total_of_def format_ident_def Let_def SECTOR_SIZE_def cast32_def)
  note fu = find_unused(1) [OF geo x(4) g(1) none]
  obtain v1 k where a: "alloc_sector v = (v1, k)" by (metis surj_pair)
  note ax = alloc_exact [OF geo a]
  have k: "k \<noteq> 0"
  proof
    assume "k = 0"
    then have "\<forall>k. 0 < k \<and> k < 16 \<and> k div BITS_PER_SECTOR < 1 \<and> (vl_hint v < 1 \<longrightarrow> vl_hint v \<le> k div BITS_PER_SECTOR) \<longrightarrow> marks v k"
      using ax g(1) unfolding x sound_dev_def by blast
    then have "marks v 4" by (simp add: BITS_PER_SECTOR_def SECTOR_SIZE_def)
    then show False using free x by (simp add: BITS_PER_SECTOR_def SECTOR_SIZE_def)
  qed
  then have "kept (map_sectors v) v v1" using ax by blast
  then have s1: "sound_dev v1" by (rule sound_kept [OF _ g(1)])
  obtain v2 e2 where d: "dir_write 0 (new_dirent nm k) v1 = (v2, e2)" by (metis surj_pair)
  have "vread l v1 = Inr (dat v1 l)" for l using s1 by (simp add: sound_dev_def vread_def rd_def)
  then have s2: "e2 = RV9_IO_OK" "sound_dev v2" using sound_write [OF s1] d by (auto simp: dir_write_def Let_def) (metis fst_conv snd_conv)+
  obtain v3 e3 where f: "fd_write k zero_fd v2 = (v3, e3)" by (metis surj_pair)
  have "e3 = RV9_IO_OK" using sound_write [OF s2(2), of k "store_bytes 0 (fd_bytes zero_fd) zero_sector"] f by (simp add: fd_write_def)
  then show ?thesis using fu a k d s2(1) f by (simp add: create_file_def new_path_def)
qed

text \<open>A blank device of 16 sectors: mounted, it is formatted, and its first file can be created.\<close>

lemma blank_volume: "\<exists>v0 v p. rbf_mount blank_disk True True = (vl_disk v0, Inr v0) \<and> orderly_run (v0, []) [ROpen 6 [97]] \<and>
    foldl rbf_step (v0, []) [ROpen 6 [97]] = (v, [p]) \<and> \<not> rp_is_dir p \<and> rp_fd_lsn p \<in> ent v ` live v"
proof -
  obtain v0 where m: "rbf_mount blank_disk True True = (vl_disk v0, Inr v0)" "sound_dev v0" using blank_mount by blast
  note e = mount_empty [OF blank_facts m(1)]
  then obtain v p where c: "create_file [97] v0 = (v, Inr p)" "\<not> rp_is_dir p" using first_file [of v0 "[97]"] m(2) by blast
  have i: "vol_inv (v0, [])" using e by blast
  then have "geom v0" "vl_mounted v0" using vol_invD(1,2) [OF i] by (simp_all add: vol_base_def)
  moreover have "0 < id_root_sectors (vl_ident v0)" using e by (simp add: format_ident_def Let_def)
  ultimately have n: "dir_find (Some [97]) v0 = None" "vl_mounted v0" using find_unused(2) m(2) e by blast+
  then have s: "rbf_step (v0, []) (ROpen 6 [97]) = (v, [p])" using c(1) by (simp add: rbf_open_def RV9_MODE_CREATE_def)
  have "vol_inv (v, [p])" using create_step [OF i c(1)] by simp
  then have "rp_fd_lsn p \<in> ent v ` live v" using path_listed c(2) by (metis list.set_intros(1))
  then show ?thesis using m(1) n s c(2) by (intro exI [of _ v0] exI [of _ v] exI [of _ p]) simp
qed

theorem files_apart_witness:
  "\<exists>v0 v P. rbf_mount blank_disk True True = (vl_disk v0, Inr v0) \<and> orderly_run (v0, []) [ROpen 6 [97], RWrite 0 [1, 2, 3]] \<and>
    foldl rbf_step (v0, []) [ROpen 6 [97], RWrite 0 [1, 2, 3]] = (v, P) \<and> live v \<noteq> {} \<and>
    (\<Union>i\<in>live v. own v P (ent v i)) \<subseteq> {meta v..<total_of v} \<inter> {l. marks v l}"
proof -
  obtain v0 u p where b: "rbf_mount blank_disk True True = (vl_disk v0, Inr v0)" "orderly_run (v0, []) [ROpen 6 [97]]"
      "foldl rbf_step (v0, []) [ROpen 6 [97]] = (u, [p])" "\<not> rp_is_dir p"
    using blank_volume by blast
  obtain v P where w: "rbf_step (u, [p]) (RWrite 0 [1, 2, 3]) = (v, P)" by (metis surj_pair)
  have "orderly (u, [p]) (RWrite 0 [1, 2, 3])" by simp
  then have o: "orderly_run (v0, []) [ROpen 6 [97], RWrite 0 [1, 2, 3]]" using b(2,3) by simp
  have f: "foldl rbf_step (v0, []) [ROpen 6 [97], RWrite 0 [1, 2, 3]] = (v, P)" using b(3) w by simp
  note a = files_apart [OF blank_facts b(1) o f]
  obtain q where "P = [q]" "\<not> rp_is_dir q"
    using w b(4) by (auto simp: rbf_write_def Let_def split: prod.splits if_splits)
  then have n: "live v \<noteq> {}" using a by auto
  note m = conjunct1 [OF conjunct2 [OF a]]
  show ?thesis
    by (rule exI [of _ v0], rule exI [of _ v], rule exI [of _ P], rule conjI [OF b(1) conjI [OF o conjI [OF f conjI [OF n m]]]])
qed

theorem others_untouched_witness:
  "\<exists>v0 v p w Q i. rbf_mount blank_disk True True = (vl_disk v0, Inr v0) \<and> foldl rbf_step (v0, []) [ROpen 6 [97]] = (v, [p]) \<and>
    rbf_step (v, [p]) (RClose 0) = (w, Q) \<and> i \<in> live v \<and> ent v i \<in> ent w ` live w \<and>
    fd_sectors (cur w Q (ent v i)) = fd_sectors (cur v [p] (ent v i))"
proof -
  obtain v0 v p where b: "rbf_mount blank_disk True True = (vl_disk v0, Inr v0)" "orderly_run (v0, []) [ROpen 6 [97]]"
      "foldl rbf_step (v0, []) [ROpen 6 [97]] = (v, [p])" "rp_fd_lsn p \<in> ent v ` live v"
    using blank_volume by blast
  obtain w Q where w: "rbf_step (v, [p]) (RClose 0) = (w, Q)" by (metis surj_pair)
  obtain i where i: "i \<in> live v" using b(4) by blast
  have "orderly (v, [p]) (RClose 0)" "about (v, [p]) (RClose 0) \<noteq> Some (ent v i)" by simp_all
  note u = others_untouched [OF blank_facts b(1-3) this(1) w i refl this(2)]
  note u2 = conjunct1 [OF conjunct2 [OF conjunct2 [OF u]]]
  show ?thesis
    by (rule exI [of _ v0], rule exI [of _ v], rule exI [of _ p], rule exI [of _ w], rule exI [of _ Q], rule exI [of _ i],
        rule conjI [OF b(1) conjI [OF b(3) conjI [OF w conjI [OF i conjI [OF conjunct1 [OF u] u2]]]]])
qed

end
