(* ===== verification/Io.thy ===== *)
theory Io
  imports Pipes
begin

text \<open>
  The I/O manager (components/rv9_io/src/io.c): registries, devices, the path tables of processes,
  opening, closing and sharing paths, the sessions of devices that have them, and what happens to
  paths when processes start and end. A pointer to a device is its name, which \<open>rv9_io_attach\<close> keeps
  unique; a pointer to a path descriptor is its address in \<open>io_paths\<close>, the descriptors allocated and
  not yet freed. What drivers and file managers are told is kept in \<open>io_told\<close>, last first, and what
  they answer is an argument. A definition is one section under the I/O lock, or one call outside it.
\<close>

definition MAX_FILEMGRS :: nat where "MAX_FILEMGRS = 8"
definition MAX_DRIVERS :: nat where "MAX_DRIVERS = 32"
definition RV9_MAX_PATHS :: nat where "RV9_MAX_PATHS = 12"
definition RV9_STDIN :: nat where "RV9_STDIN = 0"
definition RV9_STDOUT :: nat where "RV9_STDOUT = 1"
definition RV9_STDERR :: nat where "RV9_STDERR = 2"
definition RV9_MODE_RW :: u32 where "RV9_MODE_RW = (RV9_MODE_READ OR RV9_MODE_WRITE)"
definition RV9_SS_HANGUP :: nat where "RV9_SS_HANGUP = 6"
definition MAX_FAILSAFES :: nat where "MAX_FAILSAFES = 8"

section \<open>State\<close>

text \<open>Entry points that may be NULL are flags.\<close>

record filemgr =
  fm_name :: string
  fm_open :: bool
  fm_close :: bool
  fm_read :: bool
  fm_write :: bool
  fm_seek :: bool
  fm_getstat :: bool
  fm_setstat :: bool
  fm_remove :: bool
  fm_mount :: bool
  fm_reserve_writer :: bool
  fm_provided :: bool
  fm_ended :: bool

record driver =
  dr_name :: string
  dr_retains :: bool
  dr_init :: bool
  dr_open :: bool
  dr_close :: bool
  dr_hangup :: bool

record dev =
  dv_name :: string
  dv_fmgr :: filemgr
  dv_drv :: driver
  dv_opt :: "nat list"
  dv_drv_state :: nat
  dv_initialised :: bool
  dv_open_count :: nat
  dv_session :: nat
  dv_busy :: nat
  dv_hanging :: bool

record path =
  pa_at :: nat
  pa_dev :: string
  pa_mode :: u32
  pa_refs :: nat
  pa_session :: nat
  pa_claim :: "nat option"

record proc_paths =
  pp_pid :: nat
  pp_paths :: "nat option list"

datatype call =
    DrvInit string | FmMount string
  | DrvOpen string u32 | DrvClose string | DrvHangup string
  | FmOpen nat string | FmClose nat
  | FmCall nat "nat list" | FmRemove string string | FmEnded string nat int
  | FmReserve string string nat string

record iosys =
  io_filemgrs :: "filemgr list"
  io_drivers :: "driver list"
  io_refused :: nat
  io_devs :: "dev list"
  io_tables :: "proc_paths list"
  io_paths :: "path list"
  io_claims :: claimsys
  io_std_in :: string
  io_std_out :: string
  io_told :: "call list"

text \<open>Addresses the allocator gives (or not), and answers of driver and file manager, for one operation.\<close>

record io_env =
  ie_table :: bool
  ie_path :: "nat option"
  ie_claim :: "nat option"
  ie_drv_open :: io_err
  ie_fm_open :: io_err

definition tell_io :: "call list \<Rightarrow> iosys \<Rightarrow> iosys" where
  "tell_io cs s = s\<lparr>io_told := rev cs @ io_told s\<rparr>"

section \<open>Registries\<close>

definition find_filemgr :: "string \<Rightarrow> iosys \<Rightarrow> filemgr option" where
  "find_filemgr name s = find (\<lambda>f. fm_name f = name) (io_filemgrs s)"

definition find_driver :: "string \<Rightarrow> iosys \<Rightarrow> driver option" where
  "find_driver name s = find (\<lambda>d. dr_name d = name) (io_drivers s)"

definition rv9_io_register_filemgr :: "filemgr option \<Rightarrow> iosys \<Rightarrow> iosys \<times> io_err" where
  "rv9_io_register_filemgr fm s =
     (case fm of
        None \<Rightarrow> (s, RV9_IO_ERR_INVAL)
      | Some f \<Rightarrow>
          if find_filemgr (fm_name f) s \<noteq> None then (s, RV9_IO_ERR_EXISTS)
          else if length (io_filemgrs s) < MAX_FILEMGRS then (s\<lparr>io_filemgrs := io_filemgrs s @ [f]\<rparr>, RV9_IO_OK)
          else (s\<lparr>io_refused := cast32 (io_refused s + 1)\<rparr>, RV9_IO_ERR_NOMEM))"

definition rv9_io_register_driver :: "driver option \<Rightarrow> iosys \<Rightarrow> iosys \<times> io_err" where
  "rv9_io_register_driver drv s =
     (case drv of
        None \<Rightarrow> (s, RV9_IO_ERR_INVAL)
      | Some d \<Rightarrow>
          if find_driver (dr_name d) s \<noteq> None then (s, RV9_IO_ERR_EXISTS)
          else if length (io_drivers s) < MAX_DRIVERS then (s\<lparr>io_drivers := io_drivers s @ [d]\<rparr>, RV9_IO_OK)
          else (s\<lparr>io_refused := cast32 (io_refused s + 1)\<rparr>, RV9_IO_ERR_NOMEM))"

definition find_dev :: "string \<Rightarrow> iosys \<Rightarrow> dev option" where
  "find_dev name s = find (\<lambda>d. dv_name d = name) (io_devs s)"

definition upd_dev :: "string \<Rightarrow> (dev \<Rightarrow> dev) \<Rightarrow> iosys \<Rightarrow> iosys" where
  "upd_dev name f s = s\<lparr>io_devs := upd_first (\<lambda>d. dv_name d = name) f (io_devs s)\<rparr>"

section \<open>Devices\<close>

text \<open>A descriptor off the medium: three fields of 16 characters, perhaps unterminated, and options.\<close>

record devdesc =
  ds_name :: string
  ds_filemgr :: string
  ds_driver :: string
  ds_opt :: "nat list"

definition new_dev :: "string \<Rightarrow> filemgr \<Rightarrow> driver \<Rightarrow> nat list \<Rightarrow> nat \<Rightarrow> dev" where
  "new_dev name fm drv opt st =
     \<lparr>dv_name = name, dv_fmgr = fm, dv_drv = drv, dv_opt = opt, dv_drv_state = st, dv_initialised = True,
      dv_open_count = 0, dv_session = 0, dv_busy = 0, dv_hanging = False\<rparr>"

definition rv9_io_attach :: "bool \<Rightarrow> io_err \<times> nat \<Rightarrow> io_err \<Rightarrow> devdesc option \<Rightarrow> iosys \<Rightarrow> iosys \<times> io_err" where
  "rv9_io_attach room init mount desc s =
     (case desc of
        None \<Rightarrow> (s, RV9_IO_ERR_INVAL)
      | Some ds \<Rightarrow>
          let name = cstr 16 (ds_name ds) in
          if find_dev name s \<noteq> None then (s, RV9_IO_ERR_EXISTS)
          else case find_filemgr (cstr 16 (ds_filemgr ds)) s of
            None \<Rightarrow> (s, RV9_IO_ERR_NOTFOUND)
          | Some fm \<Rightarrow>
            (case find_driver (cstr 16 (ds_driver ds)) s of
               None \<Rightarrow> (s, RV9_IO_ERR_NOTFOUND)
             | Some drv \<Rightarrow>
                 if \<not> room then (s, RV9_IO_ERR_NOMEM)
                 else
                   let s1 = (if dr_init drv then tell_io [DrvInit name] s else s) in
                   if dr_init drv \<and> fst init \<noteq> RV9_IO_OK then (s1, fst init)
                   else
                     let s2 = (if fm_mount fm then tell_io [FmMount name] s1 else s1) in
                     if fm_mount fm \<and> mount \<noteq> RV9_IO_OK then (s2, mount)
                     else (s2\<lparr>io_devs := new_dev name fm drv (ds_opt ds) (if dr_init drv then snd init else 0) # io_devs s2\<rparr>, RV9_IO_OK)))"

section \<open>Path tables\<close>

definition find_table :: "nat \<Rightarrow> iosys \<Rightarrow> proc_paths option" where
  "find_table pid s = find (\<lambda>t. pp_pid t = pid) (io_tables s)"

definition table_for :: "nat \<Rightarrow> bool \<Rightarrow> bool \<Rightarrow> iosys \<Rightarrow> iosys \<times> proc_paths option" where
  "table_for pid create room s =
     (case find_table pid s of
        Some t \<Rightarrow> (s, Some t)
      | None \<Rightarrow>
          if \<not> create \<or> \<not> room then (s, None)
          else let t = \<lparr>pp_pid = pid, pp_paths = replicate RV9_MAX_PATHS None\<rparr>
               in (s\<lparr>io_tables := t # io_tables s\<rparr>, Some t))"

definition set_slot :: "nat \<Rightarrow> nat \<Rightarrow> nat option \<Rightarrow> iosys \<Rightarrow> iosys" where
  "set_slot pid i v s =
     s\<lparr>io_tables := upd_first (\<lambda>t. pp_pid t = pid) (\<lambda>t. t\<lparr>pp_paths := (pp_paths t)[i := v]\<rparr>) (io_tables s)\<rparr>"

definition slot_of :: "nat \<Rightarrow> nat \<Rightarrow> iosys \<Rightarrow> nat option" where
  "slot_of pid i s = (case find_table pid s of None \<Rightarrow> None | Some t \<Rightarrow> if i < RV9_MAX_PATHS then pp_paths t ! i else None)"

definition find_path :: "nat \<Rightarrow> iosys \<Rightarrow> path option" where
  "find_path a s = find (\<lambda>p. pa_at p = a) (io_paths s)"

definition upd_path :: "nat \<Rightarrow> (path \<Rightarrow> path) \<Rightarrow> iosys \<Rightarrow> iosys" where
  "upd_path a f s = s\<lparr>io_paths := upd_first (\<lambda>p. pa_at p = a) f (io_paths s)\<rparr>"

text \<open>The cache in task-local storage answers what the search would.\<close>

definition path_for_caller :: "nat \<Rightarrow> int \<Rightarrow> iosys \<Rightarrow> nat option" where
  "path_for_caller pid num s = (if num < 0 \<or> num \<ge> int RV9_MAX_PATHS then None else slot_of pid (nat num) s)"

section \<open>Making and freeing a path\<close>

definition split_path :: "string \<Rightarrow> string \<times> string" where
  "split_path full =
     (case full of
        [] \<Rightarrow> ([], [])
      | c # cs \<Rightarrow>
          if c = CHR ''/'' \<and> CHR ''/'' \<in> set cs
          then (take 15 (c # takeWhile (\<lambda>x. x \<noteq> CHR ''/'') cs), drop 1 (dropWhile (\<lambda>x. x \<noteq> CHR ''/'') cs))
          else (take 15 full, []))"

definition path_new :: "io_env \<Rightarrow> dev \<Rightarrow> string \<Rightarrow> u32 \<Rightarrow> nat \<Rightarrow> iosys \<Rightarrow> iosys \<times> (io_err + nat)" where
  "path_new env d rest mode owner s =
     (case rv9_claim_take (ie_claim env) (rv9_claim_resource RV9_CLAIM_NAME_MAX (dv_name d) rest) owner
             (mode AND RV9_MODE_EXCL \<noteq> 0) (io_claims s) of
        (cs, Inl e) \<Rightarrow> (s\<lparr>io_claims := cs\<rparr>, Inl e)
      | (cs, Inr c) \<Rightarrow>
          (case ie_path env of
             None \<Rightarrow> (s\<lparr>io_claims := rv9_claim_drop c cs\<rparr>, Inl RV9_IO_ERR_NOMEM)
           | Some a \<Rightarrow>
               (s\<lparr>io_claims := cs,
                  io_paths := \<lparr>pa_at = a, pa_dev = dv_name d, pa_mode = mode, pa_refs = 1,
                               pa_session = dv_session d, pa_claim = c\<rparr> # io_paths s\<rparr>, Inr a)))"

definition path_free :: "nat \<Rightarrow> iosys \<Rightarrow> iosys" where
  "path_free a s =
     (case find_path a s of
        None \<Rightarrow> s
      | Some p \<Rightarrow> s\<lparr>io_claims := rv9_claim_drop (pa_claim p) (io_claims s), io_paths := remove1 p (io_paths s)\<rparr>)"

definition path_open :: "io_env \<Rightarrow> nat \<Rightarrow> dev \<Rightarrow> string \<Rightarrow> iosys \<Rightarrow> iosys \<times> io_err" where
  "path_open env a d rest s =
     (if fm_open (dv_fmgr d) then (tell_io [FmOpen a rest] s, ie_fm_open env) else (s, RV9_IO_OK))"

definition dev_first_open :: "io_env \<Rightarrow> dev \<Rightarrow> u32 \<Rightarrow> iosys \<Rightarrow> iosys \<times> io_err" where
  "dev_first_open env d mode s =
     (if dr_open (dv_drv d) then (tell_io [DrvOpen (dv_name d) mode] s, ie_drv_open env) else (s, RV9_IO_OK))"

definition dev_open_refused :: "dev \<Rightarrow> bool" where
  "dev_open_refused d \<longleftrightarrow> dr_open (dv_drv d) \<and> (dv_open_count d > 0 \<or> dv_hanging d)"

definition dev_last_close :: "string \<Rightarrow> iosys \<Rightarrow> iosys" where
  "dev_last_close name s =
     (case find_dev name s of
        None \<Rightarrow> s
      | Some d \<Rightarrow> if dr_close (dv_drv d) then tell_io [DrvClose name] s else s)"

text \<open>First the driver, if the device was idle, then the file manager.\<close>

definition both_open :: "io_env \<Rightarrow> bool \<Rightarrow> nat \<Rightarrow> dev \<Rightarrow> string \<Rightarrow> u32 \<Rightarrow> iosys \<Rightarrow> iosys \<times> io_err" where
  "both_open env fst_open a d rest mode s =
     (case (if fst_open then dev_first_open env d mode s else (s, RV9_IO_OK)) of
        (s1, e) \<Rightarrow> if e = RV9_IO_OK then path_open env a d rest s1 else (s1, e))"

definition uncount :: "dev \<Rightarrow> dev" where
  "uncount d = (if dv_open_count d > 0 then d\<lparr>dv_open_count := dv_open_count d - 1\<rparr> else d)"

definition count_open :: "dev \<Rightarrow> dev" where
  "count_open d = d\<lparr>dv_open_count := cast32 (dv_open_count d + 1)\<rparr>"

text \<open>An open all under the lock, for the standard paths of a process without a parent.\<close>

definition path_alloc :: "io_env \<Rightarrow> dev \<Rightarrow> string \<Rightarrow> u32 \<Rightarrow> nat \<Rightarrow> iosys \<Rightarrow> iosys \<times> (io_err + nat)" where
  "path_alloc env d rest mode owner s =
     (if dev_open_refused d then (s, Inl RV9_IO_ERR_EXISTS)
      else case path_new env d rest mode owner s of
        (s1, Inl e) \<Rightarrow> (s1, Inl e)
      | (s1, Inr a) \<Rightarrow>
          let fst_open = (dv_open_count d = 0) in
          (case both_open env fst_open a d rest mode s1 of
             (s2, e) \<Rightarrow>
               if e \<noteq> RV9_IO_OK
               then (path_free a (if fst_open then dev_last_close (dv_name d) s2 else s2), Inl e)
               else (upd_dev (dv_name d) count_open s2, Inr a)))"

text \<open>One reference less; with the last, the device if it has become idle. A path of a session that was
  hung up is not counted in its device any more.\<close>

definition stale :: "path \<Rightarrow> dev \<Rightarrow> bool" where
  "stale p d \<longleftrightarrow> dr_open (dv_drv d) \<and> pa_session p \<noteq> dv_session d"

definition path_release :: "nat option \<Rightarrow> iosys \<Rightarrow> iosys \<times> string option" where
  "path_release a s =
     (case Option.bind a (\<lambda>a. find_path a s) of
        None \<Rightarrow> (s, None)
      | Some p \<Rightarrow>
          let refs = cast32 (pa_refs p + UINT32_MAX) in
          if refs > 0 then (upd_path (pa_at p) (\<lambda>p. p\<lparr>pa_refs := refs\<rparr>) s, None)
          else case find_dev (pa_dev p) s of
            None \<Rightarrow> (s, None)
          | Some d \<Rightarrow>
              let s1 = (if fm_close (dv_fmgr d) then tell_io [FmClose (pa_at p)] s else s) in
              if stale p d then (path_free (pa_at p) s1, None)
              else (path_free (pa_at p) (upd_dev (dv_name d) uncount s1),
                    if dv_open_count d \<le> 1 then Some (dv_name d) else None))"

section \<open>Open and close\<close>

text \<open>Up to where the lock is let go: the slot is reserved and the device counted.\<close>

definition rv9_io_open_begin :: "io_env \<Rightarrow> nat \<Rightarrow> string option \<Rightarrow> u32 \<Rightarrow> iosys \<Rightarrow> iosys \<times> (io_err + nat \<times> nat \<times> bool)" where
  "rv9_io_open_begin env pid name mode s =
     (case name of
        None \<Rightarrow> (s, Inl RV9_IO_ERR_INVAL)
      | Some nm \<Rightarrow>
          if mode AND RV9_MODE_RW = 0 then (s, Inl RV9_IO_ERR_INVAL)
          else case find_dev (fst (split_path nm)) s of
            None \<Rightarrow> (s, Inl RV9_IO_ERR_NOTFOUND)
          | Some d \<Rightarrow>
              if dev_open_refused d then (s, Inl RV9_IO_ERR_EXISTS)
              else case table_for pid True (ie_table env) s of
                (s1, None) \<Rightarrow> (s1, Inl RV9_IO_ERR_NOMEM)
              | (s1, Some t) \<Rightarrow>
                  (case find (\<lambda>i. pp_paths t ! i = None) [0..<RV9_MAX_PATHS] of
                     None \<Rightarrow> (s1, Inl RV9_IO_ERR_NOPATHS)
                   | Some num \<Rightarrow>
                       (case path_new env d (snd (split_path nm)) mode pid s1 of
                          (s2, Inl e) \<Rightarrow> (s2, Inl e)
                        | (s2, Inr a) \<Rightarrow>
                            (upd_dev (dv_name d) count_open (set_slot pid num (Some a) s2),
                             Inr (num, a, dv_open_count d = 0)))))"

definition open_undo :: "bool \<Rightarrow> nat \<Rightarrow> string \<Rightarrow> iosys \<Rightarrow> iosys" where
  "open_undo fst_open a dname s =
     path_free a (upd_dev dname uncount (if fst_open then dev_last_close dname s else s))"

text \<open>The driver's and the file manager's part, with the lock let go, and what a failure undoes.\<close>

definition rv9_io_open_end :: "io_env \<Rightarrow> nat \<Rightarrow> string \<Rightarrow> u32 \<Rightarrow> nat \<times> nat \<times> bool \<Rightarrow> iosys \<Rightarrow> iosys \<times> (io_err + nat)" where
  "rv9_io_open_end env pid nm mode x s =
     (case x of
        (num, a, fst_open) \<Rightarrow>
          (case find_dev (fst (split_path nm)) s of
             None \<Rightarrow> (s, Inl RV9_IO_ERR_NOTFOUND)
           | Some d \<Rightarrow>
               (case both_open env fst_open a d (snd (split_path nm)) mode s of
                  (s1, e) \<Rightarrow>
                    if e \<noteq> RV9_IO_OK then (open_undo fst_open a (dv_name d) (set_slot pid num None s1), Inl e)
                    else (s1, Inr num))))"

definition rv9_io_open :: "io_env \<Rightarrow> nat \<Rightarrow> string option \<Rightarrow> u32 \<Rightarrow> iosys \<Rightarrow> iosys \<times> (io_err + nat)" where
  "rv9_io_open env pid name mode s =
     (case rv9_io_open_begin env pid name mode s of
        (s1, Inl e) \<Rightarrow> (s1, Inl e)
      | (s1, Inr x) \<Rightarrow> rv9_io_open_end env pid (the name) mode x s1)"

definition last_closes :: "string list \<Rightarrow> iosys \<Rightarrow> iosys" where
  "last_closes ds s = foldl (\<lambda>s d. dev_last_close d s) s ds"

text \<open>A close under the lock, and the device it leaves idle, whose driver is told once the lock is free.\<close>

definition rv9_io_close_begin :: "nat \<Rightarrow> int \<Rightarrow> iosys \<Rightarrow> iosys \<times> io_err \<times> string option" where
  "rv9_io_close_begin pid num s =
     (case path_for_caller pid num s of
        None \<Rightarrow> (s, RV9_IO_ERR_BADPATH, None)
      | Some a \<Rightarrow> (case path_release (Some a) s of (s1, idle) \<Rightarrow> (set_slot pid (nat num) None s1, RV9_IO_OK, idle)))"

definition rv9_io_close :: "nat \<Rightarrow> int \<Rightarrow> iosys \<Rightarrow> iosys \<times> io_err" where
  "rv9_io_close pid num s =
     (case rv9_io_close_begin pid num s of
        (s1, e, idle) \<Rightarrow> (last_closes (case idle of None \<Rightarrow> [] | Some d \<Rightarrow> [d]) s1, e))"

definition rv9_io_dup2_begin :: "bool \<Rightarrow> nat \<Rightarrow> int \<Rightarrow> int \<Rightarrow> iosys \<Rightarrow> iosys \<times> io_err \<times> string option" where
  "rv9_io_dup2_begin room pid src dst s =
     (if src = dst then (s, RV9_IO_OK, None)
      else if dst < 0 \<or> dst \<ge> int RV9_MAX_PATHS then (s, RV9_IO_ERR_BADPATH, None)
      else case table_for pid True room s of (s1, t) \<Rightarrow>
        (case path_for_caller pid src s1 of
           None \<Rightarrow> (s1, RV9_IO_ERR_BADPATH, None)
         | Some a \<Rightarrow>
             (case path_release (slot_of pid (nat dst) s1) s1 of
                (s2, idle) \<Rightarrow>
                  (set_slot pid (nat dst) (Some a) (upd_path a (\<lambda>p. p\<lparr>pa_refs := cast32 (pa_refs p + 1)\<rparr>) s2),
                   RV9_IO_OK, idle))))"

definition rv9_io_dup2 :: "bool \<Rightarrow> nat \<Rightarrow> int \<Rightarrow> int \<Rightarrow> iosys \<Rightarrow> iosys \<times> io_err" where
  "rv9_io_dup2 room pid src dst s =
     (case rv9_io_dup2_begin room pid src dst s of
        (s1, e, idle) \<Rightarrow> (last_closes (case idle of None \<Rightarrow> [] | Some d \<Rightarrow> [d]) s1, e))"

section \<open>Paths a driver holds\<close>

definition rv9_io_open_detached_begin :: "io_env \<Rightarrow> string option \<Rightarrow> u32 \<Rightarrow> iosys \<Rightarrow> iosys \<times> (io_err + nat \<times> bool)" where
  "rv9_io_open_detached_begin env name mode s =
     (case name of
        None \<Rightarrow> (s, Inl RV9_IO_ERR_INVAL)
      | Some nm \<Rightarrow>
          if mode AND RV9_MODE_RW = 0 then (s, Inl RV9_IO_ERR_INVAL)
          else case find_dev (fst (split_path nm)) s of
            None \<Rightarrow> (s, Inl RV9_IO_ERR_NOTFOUND)
          | Some d \<Rightarrow>
              if dev_open_refused d then (s, Inl RV9_IO_ERR_EXISTS)
              else case path_new env d (snd (split_path nm)) mode RV9_PID_NONE s of
                (s1, Inl e) \<Rightarrow> (s1, Inl e)
              | (s1, Inr a) \<Rightarrow> (upd_dev (dv_name d) count_open s1, Inr (a, dv_open_count d = 0)))"

definition rv9_io_open_detached_end :: "io_env \<Rightarrow> string \<Rightarrow> u32 \<Rightarrow> nat \<times> bool \<Rightarrow> iosys \<Rightarrow> iosys \<times> (io_err + nat)" where
  "rv9_io_open_detached_end env nm mode x s =
     (case x of
        (a, fst_open) \<Rightarrow>
          (case find_dev (fst (split_path nm)) s of
             None \<Rightarrow> (s, Inl RV9_IO_ERR_NOTFOUND)
           | Some d \<Rightarrow>
               (case both_open env fst_open a d (snd (split_path nm)) mode s of
                  (s1, e) \<Rightarrow> if e \<noteq> RV9_IO_OK then (open_undo fst_open a (dv_name d) s1, Inl e) else (s1, Inr a))))"

definition rv9_io_open_detached :: "io_env \<Rightarrow> string option \<Rightarrow> u32 \<Rightarrow> iosys \<Rightarrow> iosys \<times> (io_err + nat)" where
  "rv9_io_open_detached env name mode s =
     (case rv9_io_open_detached_begin env name mode s of
        (s1, Inl e) \<Rightarrow> (s1, Inl e)
      | (s1, Inr x) \<Rightarrow> rv9_io_open_detached_end env (the name) mode x s1)"

definition rv9_io_close_path :: "nat option \<Rightarrow> iosys \<Rightarrow> iosys" where
  "rv9_io_close_path a s =
     (case path_release a s of (s1, idle) \<Rightarrow> last_closes (case idle of None \<Rightarrow> [] | Some d \<Rightarrow> [d]) s1)"

end
