(* ===== verification/IoOps.thy ===== *)
theory IoOps
  imports Io
begin

text \<open>
  Calls through a path and the sessions they enter, and paths over the life of a process
  (components/rv9_io/src/io.c): reading, writing, seeking, status, hangup, removal; what a child
  inherits, what an end gives back, where actuators are left; and the lists of devices.
\<close>

section \<open>Sessions\<close>

text \<open>Count first, then check: a hangup that has moved the session sees every call that got in. The two are
  atomics with no lock between, so they are two definitions, and others may act between them.\<close>

definition count_busy :: "dev \<Rightarrow> dev" where
  "count_busy d = d\<lparr>dv_busy := cast32 (dv_busy d + 1)\<rparr>"

definition uncount_busy :: "dev \<Rightarrow> dev" where
  "uncount_busy d = d\<lparr>dv_busy := cast32 (dv_busy d + UINT32_MAX)\<rparr>"

definition session_count :: "path \<Rightarrow> iosys \<Rightarrow> iosys" where
  "session_count p s =
     (case find_dev (pa_dev p) s of
        None \<Rightarrow> s
      | Some d \<Rightarrow> if dr_open (dv_drv d) then upd_dev (dv_name d) count_busy s else s)"

definition session_check :: "path \<Rightarrow> iosys \<Rightarrow> iosys \<times> bool" where
  "session_check p s =
     (case find_dev (pa_dev p) s of
        None \<Rightarrow> (s, False)
      | Some d \<Rightarrow>
          if \<not> dr_open (dv_drv d) \<or> pa_session p = dv_session d then (s, True)
          else (upd_dev (dv_name d) uncount_busy s, False))"

definition session_leave :: "path \<Rightarrow> iosys \<Rightarrow> iosys" where
  "session_leave p s =
     (case find_dev (pa_dev p) s of
        None \<Rightarrow> s
      | Some d \<Rightarrow> if dr_open (dv_drv d) then upd_dev (dv_name d) uncount_busy s else s)"

text \<open>Until the lock is let go again and, if calls are inside, the driver is asked to send them out.
  The device whose calls are then waited for, or that it was already over.\<close>

definition hangup_begin :: "path \<Rightarrow> dev \<Rightarrow> iosys \<Rightarrow> iosys \<times> (io_err + string)" where
  "hangup_begin p d s =
     (if \<not> dr_open (dv_drv d) then (s, Inl RV9_IO_ERR_UNSUPPORTED)
      else if pa_session p = dv_session d \<and> dv_open_count d > 0 \<and> \<not> dv_hanging d then
        let s1 = upd_dev (dv_name d) (\<lambda>d. d\<lparr>dv_hanging := True, dv_session := cast32 (dv_session d + 1), dv_open_count := 0\<rparr>) s
        in (if dv_busy d \<noteq> 0 \<and> dr_hangup (dv_drv d) then tell_io [DrvHangup (dv_name d)] s1 else s1, Inr (dv_name d))
      else (s, Inl RV9_IO_OK))"

definition hangup_end :: "bool \<Rightarrow> string \<Rightarrow> iosys \<Rightarrow> iosys" where
  "hangup_end freed name s =
     upd_dev name (\<lambda>d. d\<lparr>dv_hanging := False\<rparr>)
       (if freed then dev_last_close name s else upd_dev name (\<lambda>d. d\<lparr>dv_drv_state := 0\<rparr>) s)"

text \<open>One look at the calls inside: none, and the session is freed; time up, and it is abandoned; else again.\<close>

definition hangup_turn :: "bool \<Rightarrow> string \<Rightarrow> iosys \<Rightarrow> iosys \<times> bool" where
  "hangup_turn time_up name s =
     (case find_dev name s of
        None \<Rightarrow> (s, True)
      | Some d \<Rightarrow>
          if dv_busy d = 0 then (hangup_end True name s, True)
          else if time_up then (hangup_end False name s, True)
          else (s, False))"

section \<open>Calls through a path\<close>

datatype entry = ReadCall | WriteCall | SeekCall | GetstatCall | SetstatCall

fun provides :: "filemgr \<Rightarrow> entry \<Rightarrow> bool" where
  "provides f ReadCall = fm_read f"
| "provides f WriteCall = fm_write f"
| "provides f SeekCall = fm_seek f"
| "provides f GetstatCall = fm_getstat f"
| "provides f SetstatCall = fm_setstat f"

fun mode_ok :: "path \<Rightarrow> entry \<Rightarrow> bool" where
  "mode_ok p ReadCall = (pa_mode p AND RV9_MODE_READ \<noteq> 0)"
| "mode_ok p WriteCall = (pa_mode p AND RV9_MODE_WRITE \<noteq> 0)"
| "mode_ok p e = True"

text \<open>Up to where the call is counted; from there into the file manager, or not; and after it.\<close>

definition call_enter :: "entry \<Rightarrow> nat option \<Rightarrow> iosys \<Rightarrow> iosys \<times> (io_err + path)" where
  "call_enter e a s =
     (case Option.bind a (\<lambda>a. find_path a s) of
        None \<Rightarrow> (s, Inl RV9_IO_ERR_BADPATH)
      | Some p \<Rightarrow>
          (case find_dev (pa_dev p) s of
             None \<Rightarrow> (s, Inl RV9_IO_ERR_BADPATH)
           | Some d \<Rightarrow>
               if \<not> mode_ok p e then (s, Inl RV9_IO_ERR_MODE)
               else if \<not> provides (dv_fmgr d) e then (s, Inl RV9_IO_ERR_UNSUPPORTED)
               else (session_count p s, Inr p)))"

definition call_inside :: "path \<Rightarrow> nat list \<Rightarrow> iosys \<Rightarrow> iosys \<times> (io_err + nat)" where
  "call_inside p bs s =
     (case session_check p s of
        (s1, inside) \<Rightarrow> if inside then (tell_io [FmCall (pa_at p) bs] s1, Inr (pa_at p)) else (s1, Inl RV9_IO_ERR_IO))"

definition call_begin :: "entry \<Rightarrow> nat option \<Rightarrow> nat list \<Rightarrow> iosys \<Rightarrow> iosys \<times> (io_err + nat)" where
  "call_begin e a bs s =
     (case call_enter e a s of
        (s1, Inl err) \<Rightarrow> (s1, Inl err)
      | (s1, Inr p) \<Rightarrow> call_inside p bs s1)"

definition call_end :: "nat \<Rightarrow> iosys \<Rightarrow> iosys" where
  "call_end a s = (case find_path a s of None \<Rightarrow> s | Some p \<Rightarrow> session_leave p s)"

definition call_through :: "entry \<Rightarrow> nat option \<Rightarrow> nat list \<Rightarrow> io_err \<times> nat \<Rightarrow> iosys \<Rightarrow> iosys \<times> io_err \<times> nat" where
  "call_through e a bs answer s =
     (case call_begin e a bs s of
        (s1, Inl err) \<Rightarrow> (s1, err, 0)
      | (s1, Inr a) \<Rightarrow> (call_end a s1, answer))"

text \<open>The answer is the file manager's: an error code, and how many bytes it moved.\<close>

definition rv9_io_read :: "nat \<Rightarrow> int \<Rightarrow> bool \<Rightarrow> io_err \<times> nat \<Rightarrow> iosys \<Rightarrow> iosys \<times> io_err \<times> nat" where
  "rv9_io_read pid num buf answer s =
     (if \<not> buf then (s, RV9_IO_ERR_INVAL, 0) else call_through ReadCall (path_for_caller pid num s) [] answer s)"

definition rv9_io_write :: "nat \<Rightarrow> int \<Rightarrow> nat list option \<Rightarrow> io_err \<times> nat \<Rightarrow> iosys \<Rightarrow> iosys \<times> io_err \<times> nat" where
  "rv9_io_write pid num buf answer s =
     (case buf of
        None \<Rightarrow> (s, RV9_IO_ERR_INVAL, 0)
      | Some bs \<Rightarrow> call_through WriteCall (path_for_caller pid num s) bs answer s)"

definition rv9_io_read_path :: "nat option \<Rightarrow> bool \<Rightarrow> io_err \<times> nat \<Rightarrow> iosys \<Rightarrow> iosys \<times> io_err \<times> nat" where
  "rv9_io_read_path a buf answer s =
     (if a = None \<or> \<not> buf then (s, RV9_IO_ERR_INVAL, 0) else call_through ReadCall a [] answer s)"

definition rv9_io_write_path :: "nat option \<Rightarrow> nat list option \<Rightarrow> io_err \<times> nat \<Rightarrow> iosys \<Rightarrow> iosys \<times> io_err \<times> nat" where
  "rv9_io_write_path a buf answer s =
     (case buf of
        None \<Rightarrow> (s, RV9_IO_ERR_INVAL, 0)
      | Some bs \<Rightarrow> if a = None then (s, RV9_IO_ERR_INVAL, 0) else call_through WriteCall a bs answer s)"

definition rv9_io_seek :: "nat \<Rightarrow> int \<Rightarrow> io_err \<Rightarrow> iosys \<Rightarrow> iosys \<times> io_err" where
  "rv9_io_seek pid num answer s =
     (case call_through SeekCall (path_for_caller pid num s) [] (answer, 0) s of (s1, e, _) \<Rightarrow> (s1, e))"

definition rv9_io_getstat :: "nat \<Rightarrow> int \<Rightarrow> io_err \<Rightarrow> iosys \<Rightarrow> iosys \<times> io_err" where
  "rv9_io_getstat pid num answer s =
     (case call_through GetstatCall (path_for_caller pid num s) [] (answer, 0) s of (s1, e, _) \<Rightarrow> (s1, e))"

definition rv9_io_setstat_path :: "nat option \<Rightarrow> io_err \<Rightarrow> iosys \<Rightarrow> iosys \<times> io_err" where
  "rv9_io_setstat_path a answer s =
     (if a = None then (s, RV9_IO_ERR_INVAL) else case call_through SetstatCall a [] (answer, 0) s of (s1, e, _) \<Rightarrow> (s1, e))"

text \<open>A hangup of a path whose calls leave in the looks \<open>looks\<close> says; True is that time is up.\<close>

fun hangup_wait :: "bool list \<Rightarrow> string \<Rightarrow> iosys \<Rightarrow> iosys" where
  "hangup_wait [] name s = s"
| "hangup_wait (time_up # looks) name s =
     (case hangup_turn time_up name s of (s1, over) \<Rightarrow> if over then s1 else hangup_wait looks name s1)"

definition hangup :: "bool list \<Rightarrow> path \<Rightarrow> dev \<Rightarrow> iosys \<Rightarrow> iosys \<times> io_err" where
  "hangup looks p d s =
     (case hangup_begin p d s of
        (s1, Inl e) \<Rightarrow> (s1, e)
      | (s1, Inr name) \<Rightarrow> (hangup_wait looks name s1, RV9_IO_OK))"

definition rv9_io_setstat :: "nat \<Rightarrow> int \<Rightarrow> nat \<Rightarrow> bool list \<Rightarrow> io_err \<Rightarrow> iosys \<Rightarrow> iosys \<times> io_err" where
  "rv9_io_setstat pid num code looks answer s =
     (if code = RV9_SS_HANGUP
      then case Option.bind (path_for_caller pid num s) (\<lambda>a. find_path a s) of
             None \<Rightarrow> (s, RV9_IO_ERR_BADPATH)
           | Some p \<Rightarrow> (case find_dev (pa_dev p) s of None \<Rightarrow> (s, RV9_IO_ERR_BADPATH) | Some d \<Rightarrow> hangup looks p d s)
      else case call_through SetstatCall (path_for_caller pid num s) [] (answer, 0) s of (s1, e, _) \<Rightarrow> (s1, e))"

definition rv9_io_remove :: "string option \<Rightarrow> io_err \<Rightarrow> iosys \<Rightarrow> iosys \<times> io_err" where
  "rv9_io_remove name answer s =
     (case name of
        None \<Rightarrow> (s, RV9_IO_ERR_INVAL)
      | Some nm \<Rightarrow>
          (case find_dev (fst (split_path nm)) s of
             None \<Rightarrow> (s, RV9_IO_ERR_NOTFOUND)
           | Some d \<Rightarrow>
               if \<not> fm_remove (dv_fmgr d) then (s, RV9_IO_ERR_UNSUPPORTED)
               else if snd (split_path nm) = [] then (s, RV9_IO_ERR_INVAL)
               else (tell_io [FmRemove (dv_name d) (snd (split_path nm))] s, answer)))"

section \<open>Processes start and end\<close>

text \<open>The standard paths a child shares with its parent.\<close>

definition share_slot :: "nat \<Rightarrow> nat \<Rightarrow> iosys \<Rightarrow> nat \<Rightarrow> iosys" where
  "share_slot parent child s i =
     (case slot_of parent i s of
        None \<Rightarrow> s
      | Some a \<Rightarrow> set_slot child i (Some a) (upd_path a (\<lambda>p. p\<lparr>pa_refs := cast32 (pa_refs p + 1)\<rparr>) s))"

text \<open>A standard path of a process without a parent, and nothing when the open fails.\<close>

definition std_slot :: "io_env \<Rightarrow> nat \<Rightarrow> nat list \<Rightarrow> string \<Rightarrow> u32 \<Rightarrow> iosys \<Rightarrow> iosys" where
  "std_slot env child slots dname mode s =
     (case (if dname = [] then None else find_dev dname s) of
        None \<Rightarrow> s
      | Some d \<Rightarrow>
          (case path_alloc env d [] mode child s of
             (s1, Inl e) \<Rightarrow> s1
           | (s1, Inr a) \<Rightarrow>
               foldl (\<lambda>s i. set_slot child i (Some a) s)
                 (upd_path a (\<lambda>p. p\<lparr>pa_refs := cast32 (pa_refs p + (length slots - 1))\<rparr>) s1) slots))"

definition io_on_fork :: "io_env \<Rightarrow> io_env \<Rightarrow> nat \<Rightarrow> nat \<Rightarrow> iosys \<Rightarrow> iosys" where
  "io_on_fork env_in env_out parent child s =
     (case table_for child True (ie_table env_in) s of
        (s1, None) \<Rightarrow> s1
      | (s1, Some ct) \<Rightarrow>
          if parent \<noteq> RV9_PID_NONE \<and> find_table parent s1 \<noteq> None
          then foldl (share_slot parent child) s1 [0..<3]
          else std_slot env_out child [RV9_STDOUT, RV9_STDERR] (io_std_out s) RV9_MODE_WRITE
                 (std_slot env_in child [RV9_STDIN] (io_std_in s) RV9_MODE_READ s1))"

definition rv9_io_set_system_std :: "string option \<Rightarrow> string option \<Rightarrow> iosys \<Rightarrow> iosys" where
  "rv9_io_set_system_std i out s =
     s\<lparr>io_std_in := (case i of None \<Rightarrow> io_std_in s | Some n \<Rightarrow> cstr 16 n),
       io_std_out := (case out of None \<Rightarrow> io_std_out s | Some n \<Rightarrow> cstr 16 n)\<rparr>"

text \<open>Park one actuator: open its device as the system, write the value, close. The answers are those of
  the open and of the write; what it tells the log is whether it was parked.\<close>

definition u32_bytes :: "nat \<Rightarrow> nat list" where
  "u32_bytes v = map (\<lambda>k. v div 256 ^ k mod 256) [0, 1, 2, 3]"

definition apply_failsafe :: "io_env \<Rightarrow> io_err \<times> nat \<Rightarrow> string \<times> nat \<Rightarrow> iosys \<Rightarrow> iosys \<times> bool" where
  "apply_failsafe env answer fs s =
     (case rv9_io_open_detached env (Some (fst fs)) RV9_MODE_WRITE s of
        (s1, Inl e) \<Rightarrow> (s1, False)
      | (s1, Inr a) \<Rightarrow>
          (case rv9_io_write_path (Some a) (Some (u32_bytes (snd fs))) answer s1 of
             (s2, e, done) \<Rightarrow> (rv9_io_close_path (Some a) s2, e = RV9_IO_OK)))"

fun apply_failsafes :: "(io_env \<times> io_err \<times> nat) list \<Rightarrow> (string \<times> nat) list \<Rightarrow> iosys \<Rightarrow> iosys" where
  "apply_failsafes ((env, answer) # envs) (f # fs) s = apply_failsafes envs fs (fst (apply_failsafe env answer f s))"
| "apply_failsafes _ _ s = s"

definition rv9_io_ended :: "nat \<Rightarrow> int \<Rightarrow> iosys \<Rightarrow> iosys" where
  "rv9_io_ended pid fault s =
     tell_io (map (\<lambda>d. FmEnded (dv_name d) pid fault) (filter (\<lambda>d. fm_ended (dv_fmgr d)) (io_devs s))) s"

definition release_slots :: "nat option list \<Rightarrow> iosys \<Rightarrow> iosys \<times> string list" where
  "release_slots slots s =
     foldl (\<lambda>(s, idle) a. case path_release a s of (s1, i) \<Rightarrow> (s1, idle @ (case i of None \<Rightarrow> [] | Some d \<Rightarrow> [d])))
       (s, []) slots"

text \<open>All of an exit that is done under locks: the paths and the table go, and the claims; the devices left
  idle and the failsafes remain to be seen to.\<close>

definition io_on_exit_begin :: "nat \<Rightarrow> iosys \<Rightarrow> iosys \<times> string list \<times> (string \<times> nat) list" where
  "io_on_exit_begin pid s =
     (let fs = snd (rv9_claim_failsafes pid MAX_FAILSAFES (io_claims s)) in
      case (case find_table pid s of
              None \<Rightarrow> (s, [])
            | Some t \<Rightarrow>
                (case release_slots (pp_paths t) s of
                   (s1, idle) \<Rightarrow> (s1\<lparr>io_tables := remove1 t (io_tables s1)\<rparr>, idle))) of
        (s2, idle) \<Rightarrow> (s2\<lparr>io_claims := rv9_claim_release_pid pid (io_claims s2)\<rparr>, idle, fs))"

definition io_on_exit :: "(io_env \<times> io_err \<times> nat) list \<Rightarrow> nat \<Rightarrow> iosys \<Rightarrow> iosys" where
  "io_on_exit envs pid s =
     (case io_on_exit_begin pid s of (s1, idle, fs) \<Rightarrow> apply_failsafes envs fs (last_closes idle s1))"

section \<open>Asking about devices\<close>

record sys_device =
  sd_name :: string
  sd_filemgr :: string
  sd_driver :: string
  sd_open_count :: nat
  sd_retains :: nat
  sd_sessions :: nat

definition device_row :: "dev \<Rightarrow> sys_device" where
  "device_row d =
     \<lparr>sd_name = cstr 16 (dv_name d), sd_filemgr = cstr 16 (fm_name (dv_fmgr d)), sd_driver = cstr 16 (dr_name (dv_drv d)),
      sd_open_count = dv_open_count d mod 65536, sd_retains = (if dr_retains (dv_drv d) then 1 else 0),
      sd_sessions = (if dr_open (dv_drv d) then 1 else 0)\<rparr>"

definition io_devices_op :: "nat \<Rightarrow> iosys \<Rightarrow> nat \<times> sys_device list" where
  "io_devices_op mx s = (length (io_devs s), take mx (map device_row (io_devs s)))"

definition io_have_op :: "string option \<Rightarrow> iosys \<Rightarrow> int \<times> sys_device option" where
  "io_have_op name s =
     (case name of
        None \<Rightarrow> (- 1, None)
      | Some nm \<Rightarrow>
          let want = cstr 16 nm in
          if want = [] then (- 1, None)
          else
            (case find (\<lambda>d. if hd want = CHR ''/'' then dv_name d = want
                             else dr_name (dv_drv d) = want \<or> fm_name (dv_fmgr d) = want) (io_devs s) of
               None \<Rightarrow> (0, None)
             | Some d \<Rightarrow> (1, Some (device_row d))))"

definition device_retains :: "string \<Rightarrow> iosys \<Rightarrow> bool" where
  "device_retains resource s =
     (case find_dev (fst (split_path resource)) s of None \<Rightarrow> False | Some d \<Rightarrow> dr_retains (dv_drv d))"

end
