(* ===== verification/IoAdmit.thy ===== *)
theory IoAdmit
  imports IoOps Manifest
begin

text \<open>
  What a program declared it needs, checked and claimed before it starts (\<open>io_claim_for_fork\<close> in
  components/rv9_io/src/io.c). A loop over the entries of one tag asks for the entry after the last;
  \<open>each_entry\<close> is such a loop, None if it did not end. Answers of file managers and of the module
  directory (\<open>rv9_mod_declared_meaning\<close>, in Modules) are arguments; the allocator's answer may depend on
  the claims there are.
\<close>

definition RV9_MTAG_DEVICE :: nat where "RV9_MTAG_DEVICE = 0xA"
definition RV9_MTAG_EXCLUSIVE :: nat where "RV9_MTAG_EXCLUSIVE = 0xB"
definition RV9_MTAG_FAILSAFE :: nat where "RV9_MTAG_FAILSAFE = 0xC"
definition RV9_MTAG_PUBLISHES :: nat where "RV9_MTAG_PUBLISHES = 0x11"
definition RV9_MTAG_WATCHES :: nat where "RV9_MTAG_WATCHES = 0x12"
definition RV9_FAILSAFE_MIN_LEN :: nat where "RV9_FAILSAFE_MIN_LEN = 5"
definition RV9_MEANING_MAX :: nat where "RV9_MEANING_MAX = 12"

partial_function (option) each_entry ::
  "image \<Rightarrow> nat \<Rightarrow> nat option \<Rightarrow> (nat \<Rightarrow> nat \<Rightarrow> 's \<Rightarrow> 's \<times> proc_err) \<Rightarrow> 's \<Rightarrow> ('s \<times> proc_err) option" where
  "each_entry img tag after f s =
     (case rv9_mod_manifest_find (Some img) tag after of
        None \<Rightarrow> Some (s, RV9_PROC_OK)
      | Some (v, len) \<Rightarrow>
          (case f v len s of
             (s1, e) \<Rightarrow> if e \<noteq> RV9_PROC_OK then Some (s1, e) else each_entry img tag (Some v) f s1))"

text \<open>A string of the manifest, copied into \<open>char res[RV9_CLAIM_NAME_MAX]\<close> and terminated.\<close>

definition res_string :: "image \<Rightarrow> nat \<Rightarrow> nat \<Rightarrow> string" where
  "res_string img v len =
     takeWhile (\<lambda>c. c \<noteq> CHR 0x00) (map (\<lambda>i. char_of (byte_at img (v + i))) [0..<min len (RV9_CLAIM_NAME_MAX - 1)])"

definition split_meaning :: "string \<Rightarrow> string \<times> string" where
  "split_meaning res = (takeWhile (\<lambda>c. c \<noteq> CHR '':'') res, drop 1 (dropWhile (\<lambda>c. c \<noteq> CHR '':'') res))"

definition device_entry :: "(claim list \<Rightarrow> nat option) \<Rightarrow> nat \<Rightarrow> image \<Rightarrow> bool \<Rightarrow> nat \<Rightarrow> nat \<Rightarrow> iosys \<Rightarrow> iosys \<times> proc_err" where
  "device_entry alloc pid img exclusive v len s =
     (let res = res_string img v len in
      if len = 0 then (s, RV9_PROC_OK)
      else if find_dev (fst (split_path res)) s = None then (s, RV9_PROC_ERR_NODEV)
      else if \<not> exclusive then (s, RV9_PROC_OK)
      else case rv9_claim_reserve (alloc (cs_claims (io_claims s))) (Some res) pid True (io_claims s) of
        (cs, e) \<Rightarrow> (s\<lparr>io_claims := cs\<rparr>,
                   if e = RV9_IO_ERR_BUSY then RV9_PROC_ERR_BUSY
                   else if e \<noteq> RV9_IO_OK then RV9_PROC_ERR_NOMEM else RV9_PROC_OK))"

definition publish_entry ::
  "(string \<Rightarrow> string \<Rightarrow> string \<Rightarrow> io_err) \<Rightarrow> nat \<Rightarrow> image \<Rightarrow> nat \<Rightarrow> nat \<Rightarrow> iosys \<Rightarrow> iosys \<times> proc_err" where
  "publish_entry reserve pid img v len s =
     (let (res, unit) = split_meaning (res_string img v len); means = take (RV9_MEANING_MAX - 1) unit;
          (dname, rest) = split_path res
      in if len = 0 \<or> res = [] then (s, RV9_PROC_OK)
         else case find_dev dname s of
           None \<Rightarrow> (s, RV9_PROC_ERR_NODEV)
         | Some d \<Rightarrow>
             if \<not> fm_reserve_writer (dv_fmgr d) then (s, RV9_PROC_ERR_CONTRACT)
             else let e = reserve dname rest means
                  in (tell_io [FmReserve dname rest pid means] s,
                      if e = RV9_IO_ERR_BUSY then RV9_PROC_ERR_BUSY
                      else if e = RV9_IO_ERR_NOMEM then RV9_PROC_ERR_NOMEM
                      else if e \<noteq> RV9_IO_OK then RV9_PROC_ERR_CONTRACT else RV9_PROC_OK))"

definition watch_entry ::
  "(string \<Rightarrow> bool \<times> string) \<Rightarrow> (string \<Rightarrow> string \<Rightarrow> bool) \<Rightarrow> image \<Rightarrow> nat \<Rightarrow> nat \<Rightarrow> iosys \<Rightarrow> iosys \<times> proc_err" where
  "watch_entry declared provided img v len s =
     (let (res, unit) = split_meaning (res_string img v len); wants = take (RV9_MEANING_MAX - 1) unit;
          (dname, rest) = split_path res; (found, writes) = declared res
      in if len = 0 \<or> res = [] then (s, RV9_PROC_OK)
         else case find_dev dname s of
           None \<Rightarrow> (s, RV9_PROC_ERR_NODEV)
         | Some d \<Rightarrow>
             if \<not> fm_provided (dv_fmgr d) then (s, RV9_PROC_ERR_CONTRACT)
             else if \<not> found \<and> \<not> provided dname rest then (s, RV9_PROC_ERR_NOPUB)
             else if wants \<noteq> [] \<and> writes \<noteq> [] \<and> wants \<noteq> writes then (s, RV9_PROC_ERR_MEANING)
             else (s, RV9_PROC_OK))"

definition failsafe_entry :: "nat \<Rightarrow> image \<Rightarrow> nat \<Rightarrow> nat \<Rightarrow> iosys \<Rightarrow> iosys \<times> proc_err" where
  "failsafe_entry pid img v len s =
     (if len < RV9_FAILSAFE_MIN_LEN then (s, RV9_PROC_ERR_CONTRACT)
      else case rv9_claim_failsafe (Some (res_string img (v + 4) (len - 4))) pid (le32 img v) (io_claims s) of
        (cs, e) \<Rightarrow> (s\<lparr>io_claims := cs\<rparr>, if e \<noteq> RV9_IO_OK then RV9_PROC_ERR_CONTRACT else RV9_PROC_OK))"

definition claim_failsafes :: "nat \<Rightarrow> image \<Rightarrow> iosys \<Rightarrow> (iosys \<times> proc_err) option" where
  "claim_failsafes pid img s = each_entry img RV9_MTAG_FAILSAFE None (failsafe_entry pid img) s"

record claim_env =
  ce_alloc :: "claim list \<Rightarrow> nat option"
  ce_reserve :: "string \<Rightarrow> string \<Rightarrow> string \<Rightarrow> io_err"
  ce_declared :: "string \<Rightarrow> bool \<times> string"
  ce_provided :: "string \<Rightarrow> string \<Rightarrow> bool"

definition and_then :: "('s \<times> proc_err) option \<Rightarrow> ('s \<Rightarrow> ('s \<times> proc_err) option) \<Rightarrow> ('s \<times> proc_err) option" where
  "and_then r k =
     (case r of None \<Rightarrow> None | Some (s, e) \<Rightarrow> if e \<noteq> RV9_PROC_OK then Some (s, e) else k s)"

definition io_claim_for_fork :: "claim_env \<Rightarrow> nat \<Rightarrow> image \<Rightarrow> iosys \<Rightarrow> (iosys \<times> proc_err) option" where
  "io_claim_for_fork env pid img s =
     and_then (each_entry img RV9_MTAG_DEVICE None (device_entry (ce_alloc env) pid img False) s) (\<lambda>s.
     and_then (each_entry img RV9_MTAG_EXCLUSIVE None (device_entry (ce_alloc env) pid img True) s) (\<lambda>s.
     and_then (each_entry img RV9_MTAG_PUBLISHES None (publish_entry (ce_reserve env) pid img) s) (\<lambda>s.
     and_then (each_entry img RV9_MTAG_WATCHES None (watch_entry (ce_declared env) (ce_provided env) img) s)
       (claim_failsafes pid img))))"

end
