(* ===== verification/AdmissionProps.thy ===== *)
theory AdmissionProps
  imports IoAdmit ManifestProps ClaimProps
begin

text \<open>
  Admission of a program by what its manifest declares: the loop over the entries of a tag visits
  each once, in order, and ends; and what holds when a program is let in.
\<close>

section \<open>The loop over a tag\<close>

text \<open>The entries of a tag, and the loop over them.\<close>

definition tagged :: "image \<Rightarrow> nat \<Rightarrow> (nat \<times> nat) list" where
  "tagged img tag = map snd (filter (\<lambda>e. tag_number (fst e) = tag_number tag) (manifest_entries img))"

fun each :: "(nat \<Rightarrow> nat \<Rightarrow> 's \<Rightarrow> 's \<times> proc_err) \<Rightarrow> (nat \<times> nat) list \<Rightarrow> 's \<Rightarrow> 's \<times> proc_err" where
  "each f [] s = (s, RV9_PROC_OK)"
| "each f ((v, len) # es) s = (case f v len s of (s1, e) \<Rightarrow> if e \<noteq> RV9_PROC_OK then (s1, e) else each f es s1)"

definition entry_of :: "nat \<Rightarrow> tlv list \<Rightarrow> (nat \<times> nat) option" where
  "entry_of tag es = map_option snd (find (\<lambda>e. tag_number (fst e) = tag) es)"

lemma visit_armed: "f_armed c \<Longrightarrow> f_found c = None \<Longrightarrow>
    map_option (\<lambda>v. (v, f_len (visit find_visit es c))) (f_found (visit find_visit es c)) = entry_of (f_want c) es"
  by (simp add: visit_find entry_of_def split: option.splits)

lemma visit_arming:
  assumes "\<not> f_armed c" "f_after c = Some a" "f_found c = None" "fst (snd x) = a" "tag_number (fst x) = f_want c"
    "\<forall>e\<in>set pre. fst (snd e) \<noteq> a"
  shows "visit find_visit (pre @ x # post) c = visit find_visit post (c\<lparr>f_armed := True\<rparr>)"
  using assms(6)
proof (induction pre)
  case Nil
  then show ?case using assms by (cases x) (auto simp: find_visit_def)
next
  case (Cons e pre)
  then show ?case using assms(1,2) by (cases e) (auto simp: find_visit_def)
qed

lemma find_next:
  assumes "manifest_entries img = pre @ (t, v, len) # post" "tag_number t = tag_number tag" "\<forall>e\<in>set pre. fst (snd e) \<noteq> v"
  shows "rv9_mod_manifest_find (Some img) tag (Some v) = entry_of (tag_number tag) post"
proof -
  let ?c = "\<lparr>f_want = tag_number tag, f_after = Some v, f_armed = False, f_found = None, f_len = 0\<rparr>"
  have "visit find_visit (pre @ (t, v, len) # post) ?c = visit find_visit post (?c\<lparr>f_armed := True\<rparr>)"
    by (rule visit_arming) (use assms(2,3) in simp_all)
  then show ?thesis using visit_armed [of "?c\<lparr>f_armed := True\<rparr>" post]
    by (simp add: rv9_mod_manifest_find_def manifest_visits assms(1))
qed

lemma entry_of_first: "entry_of n es = (case filter (\<lambda>e. tag_number (fst e) = n) es of [] \<Rightarrow> None | e # _ \<Rightarrow> Some (snd e))"
  by (induction es) (auto simp: entry_of_def)

lemma offsets_distinct:
  assumes "h_module_len (header_of img) + 65536 \<le> W32"
  shows "distinct (map (\<lambda>e. fst (snd e)) (manifest_entries img))"
proof -
  have "sorted_wrt apart (manifest_entries img)"
    using entries_sound [OF assms, of "h_manifest_offset (header_of img)"] by (auto simp: manifest_entries_eq Let_def)
  then have "sorted_wrt (<) (map (\<lambda>e. fst (snd e)) (manifest_entries img))"
    by (auto simp: sorted_wrt_map apart_def elim!: sorted_wrt_mono_rel [rotated])
  then show ?thesis by (simp add: strict_sorted_iff)
qed

lemma each_from:
  assumes d: "distinct (map (\<lambda>e. fst (snd e)) (manifest_entries img))" and es: "manifest_entries img = pre @ post"
    and start: "rv9_mod_manifest_find (Some img) tag after = entry_of (tag_number tag) post"
  shows "each_entry img tag after f s = Some (each f (map snd (filter (\<lambda>e. tag_number (fst e) = tag_number tag) post)) s)"
  using es start
proof (induction "length post" arbitrary: pre post after s rule: less_induct)
  case less
  let ?P = "\<lambda>e. tag_number (fst e) = tag_number tag"
  show ?case
  proof (cases "filter ?P post")
    case Nil
    then have "rv9_mod_manifest_find (Some img) tag after = None" using less.prems(2) by (simp add: entry_of_first)
    then show ?thesis by (subst each_entry.simps) (simp add: Nil)
  next
    case (Cons e rest)
    obtain us ws where u: "post = us @ e # ws" "?P e" "rest = filter ?P ws" "\<forall>x\<in>set us. \<not> ?P x"
      using Cons by (auto simp: filter_eq_Cons_iff)
    obtain t v len where e: "e = (t, v, len)" by (cases e) auto
    have here: "rv9_mod_manifest_find (Some img) tag after = Some (v, len)"
      using less.prems(2) Cons e by (simp add: entry_of_first)
    have pre: "manifest_entries img = (pre @ us) @ (t, v, len) # ws" using less.prems(1) u(1) e by simp
    have "v \<notin> set (map (\<lambda>e. fst (snd e)) (pre @ us))" using d unfolding pre by (simp add: image_iff)
    then have "\<forall>x\<in>set (pre @ us). fst (snd x) \<noteq> v" by (simp only: set_map) blast
    then have nx: "rv9_mod_manifest_find (Some img) tag (Some v) = entry_of (tag_number tag) ws"
      using u(2) e by (intro find_next [OF pre]) simp_all
    have pre': "manifest_entries img = (pre @ us @ [e]) @ ws" using pre e by simp
    have "length ws < length post" using u(1) by simp
    from less.hyps [OF this pre' nx] have IH: "each_entry img tag (Some v) f s1 = Some (each f (map snd rest) s1)" for s1
      using u(3) by simp
    show ?thesis using Cons e
      by (subst each_entry.simps) (simp add: here IH split: prod.split)
  qed
qed

lemma each_entry_all:
  assumes "h_module_len (header_of img) + 65536 \<le> W32"
  shows "each_entry img tag None f s = Some (each f (tagged img tag) s)"
proof -
  have "rv9_mod_manifest_find (Some img) tag None = entry_of (tag_number tag) (manifest_entries img)"
    by (simp add: manifest_find_first lookup_def entry_of_def)
  from each_from [OF offsets_distinct [OF assms] _ this, of "[]"] show ?thesis by (simp add: tagged_def)
qed

section \<open>What each entry does\<close>

text \<open>Claims only grow while a program is admitted, and nothing else changes but what managers are told.\<close>

definition grown :: "claim list \<Rightarrow> claim list \<Rightarrow> bool" where
  "grown cs ds \<longleftrightarrow> (\<forall>c\<in>set cs. \<exists>d\<in>set ds. cl_name d = cl_name c \<and> cl_owner d = cl_owner c \<and>
     (cl_exclusive c \<longrightarrow> cl_exclusive d) \<and> (cl_reserved c \<longrightarrow> cl_reserved d) \<and> (cl_failsafe c \<noteq> None \<longrightarrow> cl_failsafe d \<noteq> None))"

definition admitting :: "iosys \<Rightarrow> iosys \<Rightarrow> bool" where
  "admitting s t \<longleftrightarrow> io_devs t = io_devs s \<and> io_tables t = io_tables s \<and> io_paths t = io_paths s \<and>
     set (io_told s) \<subseteq> set (io_told t) \<and> grown (cs_claims (io_claims s)) (cs_claims (io_claims t))"

definition claims_in_order :: "nat list \<Rightarrow> iosys \<Rightarrow> bool" where
  "claims_in_order H s \<longleftrightarrow> cs_up (io_claims s) \<and> claims_ok H (cs_claims (io_claims s)) \<and> length H < 65534"

lemma grown_refl [simp]: "grown cs cs"
  by (auto simp: grown_def)

lemma grown_trans: "grown a b \<Longrightarrow> grown b c \<Longrightarrow> grown a c"
  unfolding grown_def by (metis (no_types, lifting))

lemma grown_one: "grown cs ds \<Longrightarrow> \<exists>c\<in>set cs. cl_name c = n \<and> cl_owner c = w \<and> cl_exclusive c \<and> cl_reserved c \<Longrightarrow>
    \<exists>c\<in>set ds. cl_name c = n \<and> cl_owner c = w \<and> cl_exclusive c \<and> cl_reserved c"
  unfolding grown_def by (metis (no_types, lifting))

lemma grown_failsafe: "grown cs ds \<Longrightarrow> \<exists>c\<in>set cs. cl_name c = n \<and> cl_owner c = w \<and> cl_failsafe c \<noteq> None \<Longrightarrow>
    \<exists>c\<in>set ds. cl_name c = n \<and> cl_owner c = w \<and> cl_failsafe c \<noteq> None"
  unfolding grown_def by (metis (no_types, lifting))

lemma admitting_refl [simp]: "admitting s s"
  by (simp add: admitting_def)

lemma admitting_trans: "admitting a b \<Longrightarrow> admitting b c \<Longrightarrow> admitting a c"
  unfolding admitting_def by (auto intro: grown_trans)

lemma grown_upd: "(\<And>c. cl_name (f c) = cl_name c \<and> cl_owner (f c) = cl_owner c \<and> (cl_exclusive c \<longrightarrow> cl_exclusive (f c)) \<and>
      (cl_reserved c \<longrightarrow> cl_reserved (f c)) \<and> (cl_failsafe c \<noteq> None \<longrightarrow> cl_failsafe (f c) \<noteq> None)) \<Longrightarrow> grown cs (upd_first P f cs)"
proof (induction cs)
  case (Cons c cs)
  have IH: "grown cs (upd_first P f cs)" by (rule Cons.IH [OF Cons.prems])
  have f: "cl_name (f c) = cl_name c" "cl_owner (f c) = cl_owner c" "cl_exclusive c \<longrightarrow> cl_exclusive (f c)"
    "cl_reserved c \<longrightarrow> cl_reserved (f c)" "cl_failsafe c \<noteq> None \<longrightarrow> cl_failsafe (f c) \<noteq> None"
    using Cons.prems [of c] by blast+
  show ?case
  proof (cases "P c")
    case True
    then show ?thesis using f by (auto simp: grown_def)
  next
    case False
    then show ?thesis using IH by (auto simp: grown_def)
  qed
qed (simp add: grown_def)

lemma grown_take: "take_locked alloc res owner True cs = (ds, r) \<Longrightarrow> grown cs ds"
  unfolding take_locked_def upd_claim_def
  by (auto split: sum.splits option.splits intro!: grown_upd) (auto simp: grown_def)

lemma upd_here: "c \<in> set cs \<Longrightarrow> P c \<Longrightarrow> \<exists>d\<in>set (upd_first P f cs). \<exists>e\<in>set cs. P e \<and> d = f e"
  by (induction cs) auto

lemma reserve_grown:
  assumes ok: "claims_ok H (cs_claims s)" "cs_up s" "length H < 65534" and fits: "fits res"
    and r: "rv9_claim_reserve (fresh alloc s) (Some res) owner True s = (t, e)"
  shows "cs_up t \<and> claims_ok H (cs_claims t) \<and> grown (cs_claims s) (cs_claims t) \<and>
    (e = RV9_IO_OK \<longrightarrow> (\<exists>c\<in>set (cs_claims t). cl_name c = res \<and> cl_owner c = owner \<and> cl_exclusive c \<and> cl_reserved c))"
proof -
  have k: "claims_ok H (cs_claims t)" using ok_reserve [OF ok(1) fits ok(3), of alloc owner] r by simp
  show ?thesis
  proof (cases "find (\<lambda>c. cl_owner c = owner \<and> cl_name c = res \<and> cl_reserved c) (cs_claims s)")
    case (Some c)
    let ?f = "\<lambda>c. c\<lparr>cl_exclusive := True\<rparr>"
    have t: "t = s\<lparr>cs_claims := upd_first (\<lambda>d. cl_at d = cl_at c) ?f (cs_claims s)\<rparr>" "e = RV9_IO_OK"
      using r Some ok(2) by (simp_all add: rv9_claim_reserve_def upd_claim_def)
    have c: "c \<in> set (cs_claims s)" "cl_owner c = owner" "cl_name c = res" "cl_reserved c" using Some by (auto simp: find_Some_iff)
    obtain d x where "d \<in> set (cs_claims t)" "x \<in> set (cs_claims s)" "cl_at x = cl_at c" "d = ?f x"
      using upd_here [OF c(1), of "\<lambda>d. cl_at d = cl_at c" ?f] t(1) by auto
    moreover from this have "x = c" using same_claim [OF ok(1) _ c(1)] by simp
    ultimately have "\<exists>c\<in>set (cs_claims t). cl_name c = res \<and> cl_owner c = owner \<and> cl_exclusive c \<and> cl_reserved c"
      using c by (intro bexI [of _ d]) simp_all
    moreover have "grown (cs_claims s) (cs_claims t)" unfolding t(1) by (simp, rule grown_upd) simp
    moreover have "cs_up t" using t(1) ok(2) by simp
    ultimately show ?thesis using k by simp
  next
    case None
    obtain cs q where tl: "take_locked (fresh alloc s) res owner True (cs_claims s) = (cs, q)" by (metis surj_pair)
    note g = grown_take [OF tl]
    show ?thesis
    proof (cases q)
      case (Inl x)
      moreover have "x \<noteq> RV9_IO_OK" using tl Inl by (auto simp: take_locked_def split: sum.splits option.splits)
      ultimately show ?thesis using r None ok(2) tl k g by (auto simp: rv9_claim_reserve_def)
    next
      case (Inr a)
      let ?f = "\<lambda>c. c\<lparr>cl_reserved := True\<rparr>"
      have t: "t = s\<lparr>cs_claims := upd_first (\<lambda>d. cl_at d = a) ?f cs\<rparr>"
        using r None ok(2) tl Inr by (simp add: rv9_claim_reserve_def upd_claim_def)
      have taken: "claims_ok (a # H) cs \<and> (\<exists>c\<in>set cs. cl_at c = a \<and> cl_name c = res \<and> cl_owner c = owner \<and> cl_exclusive c)"
        using ok_take [OF ok(1) tl fits fresh_unused ok(3)] Inr by simp
      then obtain c where c: "c \<in> set cs" "cl_at c = a" "cl_name c = res" "cl_owner c = owner" "cl_exclusive c" by blast
      obtain d x where "d \<in> set (cs_claims t)" "x \<in> set cs" "cl_at x = a" "d = ?f x"
        using upd_here [OF c(1), of "\<lambda>d. cl_at d = a" ?f] t c(2) by auto
      moreover from this have "x = c" using same_claim [OF conjunct1 [OF taken] _ c(1)] c(2) by simp
      ultimately have "\<exists>c\<in>set (cs_claims t). cl_name c = res \<and> cl_owner c = owner \<and> cl_exclusive c \<and> cl_reserved c"
        using c by (intro bexI [of _ d]) simp_all
      moreover have "grown cs (cs_claims t)" unfolding t by (simp, rule grown_upd) simp
      moreover have "cs_up t" using t ok(2) by simp
      ultimately show ?thesis using k grown_trans [OF g] by blast
    qed
  qed
qed

lemma reserve_refused:
  assumes r: "rv9_claim_reserve alloc (Some res) owner True s = (t, e)" and up: "cs_up s" and e: "e \<noteq> RV9_IO_OK"
  shows "t = s \<and> ((\<exists>c\<in>set (cs_claims s). cl_name c = res \<and> cl_owner c \<noteq> owner) \<or> alloc = None)"
proof -
  have scan: "take_scan res owner True mine cs = Inl b \<Longrightarrow> \<exists>c\<in>set cs. cl_name c = res \<and> cl_owner c \<noteq> owner" for mine cs b
    by (induction cs arbitrary: mine) (auto split: if_splits)
  have none: "find (\<lambda>c. cl_owner c = owner \<and> cl_name c = res \<and> cl_reserved c) (cs_claims s) = None"
    using r up e by (auto simp: rv9_claim_reserve_def split: option.splits)
  obtain cs q where q: "take_locked alloc res owner True (cs_claims s) = (cs, q)" by (metis surj_pair)
  show ?thesis
  proof (cases q)
    case (Inl x)
    then have "t = s\<lparr>cs_claims := cs\<rparr>" using r up none q by (simp add: rv9_claim_reserve_def)
    moreover have "cs = cs_claims s" "(\<exists>b. take_scan res owner True None (cs_claims s) = Inl b) \<or> alloc = None"
      using q Inl by (auto simp: take_locked_def split: sum.splits option.splits)
    ultimately show ?thesis using scan by auto
  next
    case (Inr a)
    then show ?thesis using r up none q e by (simp add: rv9_claim_reserve_def)
  qed
qed

lemma failsafe_grown:
  assumes ok: "claims_ok H (cs_claims s)" "cs_up s" and r: "rv9_claim_failsafe (Some res) owner v s = (t, e)"
  shows "cs_up t \<and> claims_ok H (cs_claims t) \<and> grown (cs_claims s) (cs_claims t) \<and>
    (e = RV9_IO_OK \<longrightarrow> (\<exists>c\<in>set (cs_claims t). cl_name c = res \<and> cl_owner c = owner \<and> cl_failsafe c \<noteq> None))"
proof -
  let ?P = "\<lambda>c. cl_owner c = owner \<and> cl_name c = res" and ?f = "\<lambda>c. c\<lparr>cl_failsafe := Some v\<rparr>"
  have k: "claims_ok H (cs_claims t)" using ok_failsafe [OF ok(1), of res owner v] r by simp
  show ?thesis
  proof (cases "find ?P (cs_claims s)")
    case None
    then show ?thesis using r ok(2) k by (auto simp: rv9_claim_failsafe_def)
  next
    case (Some c)
    then have t: "t = s\<lparr>cs_claims := upd_first ?P ?f (cs_claims s)\<rparr>" using r ok(2) by (simp add: rv9_claim_failsafe_def)
    have c: "c \<in> set (cs_claims s)" "?P c" using Some by (auto simp: find_Some_iff)
    have "\<exists>c\<in>set (cs_claims t). cl_name c = res \<and> cl_owner c = owner \<and> cl_failsafe c \<noteq> None"
    proof -
      obtain d x where "d \<in> set (cs_claims t)" "?P x" "d = ?f x" using upd_here [OF c(1), of ?P ?f] c(2) t by auto
      then show ?thesis by (intro bexI [of _ d]) simp_all
    qed
    moreover have "grown (cs_claims s) (cs_claims t)" unfolding t by (simp, rule grown_upd) simp
    ultimately show ?thesis using k t ok(2) by simp
  qed
qed

section \<open>A loop of entries that share a contract\<close>

text \<open>
  What every kind of entry promises: it keeps the claims in order, takes nothing away, and answers well
  only when what the entry asks for, \<open>granted\<close>, is the case, and badly only when something the entry
  needs is \<open>missing\<close>; and no later entry undoes what was granted.
\<close>

locale entry_kind =
  fixes entry :: "nat \<Rightarrow> nat \<Rightarrow> iosys \<Rightarrow> iosys \<times> proc_err"
    and granted :: "nat \<Rightarrow> nat \<Rightarrow> iosys \<Rightarrow> bool"
    and missing :: "nat \<Rightarrow> nat \<Rightarrow> iosys \<Rightarrow> bool"
  assumes entry_step: "claims_in_order H s \<Longrightarrow> entry v len s = (t, e) \<Longrightarrow>
      claims_in_order H t \<and> admitting s t \<and> (if e = RV9_PROC_OK then granted v len t else missing v len t)"
    and granted_stays: "granted v len s \<Longrightarrow> admitting s t \<Longrightarrow> granted v len t"
begin

lemma loop_step:
  assumes "claims_in_order H s" "each entry es s = (t, e)"
  shows "claims_in_order H t \<and> admitting s t \<and>
    (if e = RV9_PROC_OK then \<forall>(v, len)\<in>set es. granted v len t else \<exists>(v, len)\<in>set es. missing v len t)"
  using assms
proof (induction es arbitrary: s)
  case (Cons x es)
  obtain v len where x: "x = (v, len)" by (cases x)
  obtain s1 e1 where 1: "entry v len s = (s1, e1)" by (metis surj_pair)
  note one = entry_step [OF Cons.prems(1) 1]
  show ?case
  proof (cases "e1 = RV9_PROC_OK")
    case True
    then have rest: "each entry es s1 = (t, e)" using Cons.prems(2) 1 x by simp
    note IH = Cons.IH [OF conjunct1 [OF one] rest]
    have "admitting s t" using one IH admitting_trans by blast
    moreover have "granted v len t" using one IH True granted_stays by auto
    ultimately show ?thesis using IH x by (auto split: if_splits)
  next
    case False
    then show ?thesis using Cons.prems(2) 1 x one by auto
  qed
qed simp

end

text \<open>The allocator never gives an address a claim has.\<close>

definition unused :: "(claim list \<Rightarrow> nat option) \<Rightarrow> claim list \<Rightarrow> nat option" where
  "unused alloc cs = (case alloc cs of None \<Rightarrow> None | Some a \<Rightarrow> if find_claim a cs = None then Some a else None)"

lemma unused_fresh: "unused alloc (cs_claims c) = fresh (alloc (cs_claims c)) c"
  by (simp add: unused_def fresh_def)

definition device_granted :: "nat \<Rightarrow> image \<Rightarrow> bool \<Rightarrow> nat \<Rightarrow> nat \<Rightarrow> iosys \<Rightarrow> bool" where
  "device_granted pid img exclusive v len s \<longleftrightarrow> len = 0 \<or> find_dev (fst (split_path (res_string img v len))) s \<noteq> None \<and>
     (exclusive \<longrightarrow> (\<exists>c\<in>set (cs_claims (io_claims s)). cl_name c = res_string img v len \<and> cl_owner c = pid \<and> cl_exclusive c \<and> cl_reserved c))"

text \<open>What an entry finds missing: no such device; and for an exclusive one a claim of somebody else on the name,
  or no memory for a claim of its own.\<close>

definition device_missing :: "(claim list \<Rightarrow> nat option) \<Rightarrow> nat \<Rightarrow> image \<Rightarrow> bool \<Rightarrow> nat \<Rightarrow> nat \<Rightarrow> iosys \<Rightarrow> bool" where
  "device_missing alloc pid img exclusive v len s \<longleftrightarrow> len \<noteq> 0 \<and> (find_dev (fst (split_path (res_string img v len))) s = None \<or>
     exclusive \<and> ((\<exists>c\<in>set (cs_claims (io_claims s)). cl_name c = res_string img v len \<and> cl_owner c \<noteq> pid) \<or>
       alloc (cs_claims (io_claims s)) = None))"

definition publish_missing :: "(string \<Rightarrow> string \<Rightarrow> string \<Rightarrow> io_err) \<Rightarrow> image \<Rightarrow> nat \<Rightarrow> nat \<Rightarrow> iosys \<Rightarrow> bool" where
  "publish_missing reserve img v len s \<longleftrightarrow>
     (case split_meaning (res_string img v len) of (res, unit) \<Rightarrow> len \<noteq> 0 \<and> res \<noteq> [] \<and>
        (case split_path res of (dname, rest) \<Rightarrow>
           (case find_dev dname s of None \<Rightarrow> True | Some d \<Rightarrow> \<not> fm_reserve_writer (dv_fmgr d)) \<or> reserve dname rest (take 11 unit) \<noteq> RV9_IO_OK))"

definition watch_missing :: "(string \<Rightarrow> bool \<times> string) \<Rightarrow> (string \<Rightarrow> string \<Rightarrow> bool) \<Rightarrow> image \<Rightarrow> nat \<Rightarrow> nat \<Rightarrow> iosys \<Rightarrow> bool" where
  "watch_missing declared provided img v len s \<longleftrightarrow>
     (case split_meaning (res_string img v len) of (res, unit) \<Rightarrow> len \<noteq> 0 \<and> res \<noteq> [] \<and>
        (case split_path res of (dname, rest) \<Rightarrow>
           (case find_dev dname s of None \<Rightarrow> True | Some d \<Rightarrow> \<not> fm_provided (dv_fmgr d)) \<or>
           \<not> fst (declared res) \<and> \<not> provided dname rest \<or>
           take 11 unit \<noteq> [] \<and> snd (declared res) \<noteq> [] \<and> take 11 unit \<noteq> snd (declared res)))"

definition failsafe_missing :: "nat \<Rightarrow> image \<Rightarrow> nat \<Rightarrow> nat \<Rightarrow> iosys \<Rightarrow> bool" where
  "failsafe_missing pid img v len s \<longleftrightarrow> len < RV9_FAILSAFE_MIN_LEN \<or>
     \<not> (\<exists>c\<in>set (cs_claims (io_claims s)). cl_name c = res_string img (v + 4) (len - 4) \<and> cl_owner c = pid)"

definition publish_granted :: "(string \<Rightarrow> string \<Rightarrow> string \<Rightarrow> io_err) \<Rightarrow> nat \<Rightarrow> image \<Rightarrow> nat \<Rightarrow> nat \<Rightarrow> iosys \<Rightarrow> bool" where
  "publish_granted reserve pid img v len s \<longleftrightarrow>
     (case split_meaning (res_string img v len) of (res, unit) \<Rightarrow> len = 0 \<or> res = [] \<or>
        (case split_path res of (dname, rest) \<Rightarrow> find_dev dname s \<noteq> None \<and> reserve dname rest (take 11 unit) = RV9_IO_OK \<and>
           FmReserve dname rest pid (take 11 unit) \<in> set (io_told s)))"

definition watch_granted :: "(string \<Rightarrow> bool \<times> string) \<Rightarrow> (string \<Rightarrow> string \<Rightarrow> bool) \<Rightarrow> image \<Rightarrow> nat \<Rightarrow> nat \<Rightarrow> iosys \<Rightarrow> bool" where
  "watch_granted declared provided img v len s \<longleftrightarrow>
     (case split_meaning (res_string img v len) of (res, unit) \<Rightarrow> len = 0 \<or> res = [] \<or>
        (case split_path res of (dname, rest) \<Rightarrow> find_dev dname s \<noteq> None \<and> (fst (declared res) \<or> provided dname rest) \<and>
           (take 11 unit = [] \<or> snd (declared res) = [] \<or> take 11 unit = snd (declared res))))"

definition failsafe_granted :: "nat \<Rightarrow> image \<Rightarrow> nat \<Rightarrow> nat \<Rightarrow> iosys \<Rightarrow> bool" where
  "failsafe_granted pid img v len s \<longleftrightarrow> RV9_FAILSAFE_MIN_LEN \<le> len \<and>
     (\<exists>c\<in>set (cs_claims (io_claims s)). cl_name c = res_string img (v + 4) (len - 4) \<and> cl_owner c = pid \<and> cl_failsafe c \<noteq> None)"

lemma find_dev_admitting: "admitting s t \<Longrightarrow> find_dev n t = find_dev n s"
  by (simp add: find_dev_def admitting_def)

lemma res_fits: "fits (res_string img v len)"
proof -
  let ?l = "map (\<lambda>i. char_of (byte_at img (v + i)) :: char) [0..<min len (RV9_CLAIM_NAME_MAX - 1)]"
  have "length (takeWhile (\<lambda>c. c \<noteq> CHR 0x00) ?l) \<le> length ?l" by (rule length_takeWhile_le)
  then show ?thesis by (auto simp: fits_def res_string_def RV9_CLAIM_NAME_MAX_def dest: set_takeWhileD)
qed

interpretation device_kind: entry_kind "device_entry (unused alloc) pid img exclusive" "device_granted pid img exclusive" "device_missing (unused alloc) pid img exclusive"
proof
  fix H v len s t e
  assume c: "claims_in_order H s" and st: "device_entry (unused alloc) pid img exclusive v len s = (t, e)"
  let ?res = "res_string img v len"
  have c': "claims_ok H (cs_claims (io_claims s))" "cs_up (io_claims s)" "length H < 65534" using c by (simp_all add: claims_in_order_def)
  obtain cs q where r: "rv9_claim_reserve (fresh (alloc (cs_claims (io_claims s))) (io_claims s)) (Some ?res) pid True (io_claims s) = (cs, q)"
    by (metis surj_pair)
  note g = reserve_grown [OF c' res_fits r]
  have ad: "claims_in_order H (s\<lparr>io_claims := cs\<rparr>) \<and> admitting s (s\<lparr>io_claims := cs\<rparr>)"
    using g c'(3) by (simp add: claims_in_order_def admitting_def)
  have fd: "find_dev n (s\<lparr>io_claims := cs\<rparr>) = find_dev n s" for n by (simp add: find_dev_def)
  show "claims_in_order H t \<and> admitting s t \<and>
    (if e = RV9_PROC_OK then device_granted pid img exclusive v len t else device_missing (unused alloc) pid img exclusive v len t)"
  proof (cases "len \<noteq> 0 \<and> find_dev (fst (split_path ?res)) s \<noteq> None \<and> exclusive")
    case True
    then have t: "t = s\<lparr>io_claims := cs\<rparr>" "e = RV9_PROC_OK \<longleftrightarrow> q = RV9_IO_OK"
      using st r by (auto simp: device_entry_def unused_fresh Let_def split: if_splits)
    have "device_missing (unused alloc) pid img exclusive v len t" if "e \<noteq> RV9_PROC_OK"
      using reserve_refused [OF r c'(2)] t that True unused_fresh [of alloc "io_claims s"] by (auto simp: device_missing_def)
    then show ?thesis using ad g True fd t by (simp add: device_granted_def)
  next
    case False
    then have "t = s" "if e = RV9_PROC_OK then device_granted pid img exclusive v len s else device_missing (unused alloc) pid img exclusive v len s"
      using st by (auto simp: device_entry_def device_granted_def device_missing_def Let_def split: if_splits)
    then show ?thesis using c by simp
  qed
next
  fix v len s t assume "device_granted pid img exclusive v len s" "admitting s t"
  then show "device_granted pid img exclusive v len t"
    using grown_one find_dev_admitting [of s t] unfolding device_granted_def admitting_def by metis
qed

interpretation publish_kind: entry_kind "publish_entry reserve pid img" "publish_granted reserve pid img" "publish_missing reserve img"
proof
  fix H v len s t e
  assume c: "claims_in_order H s" and st: "publish_entry reserve pid img v len s = (t, e)"
  obtain res unit where sm: "split_meaning (res_string img v len) = (res, unit)" by (metis surj_pair)
  obtain dname rest where sp: "split_path res = (dname, rest)" by (metis surj_pair)
  let ?t = "tell_io [FmReserve dname rest pid (take 11 unit)] s"
  have "claims_in_order H ?t" "admitting s ?t" "find_dev n ?t = find_dev n s" for n
    using c by (auto simp: claims_in_order_def admitting_def tell_io_def find_dev_def)
  then show "claims_in_order H t \<and> admitting s t \<and>
      (if e = RV9_PROC_OK then publish_granted reserve pid img v len t else publish_missing reserve img v len t)"
    using st c by (auto simp: publish_entry_def publish_granted_def publish_missing_def sm sp Let_def RV9_MEANING_MAX_def tell_io_def split: if_splits option.splits)
next
  fix v len s t assume "publish_granted reserve pid img v len s" "admitting s t"
  then show "publish_granted reserve pid img v len t"
    using find_dev_admitting [of s t] by (auto simp: publish_granted_def admitting_def split: prod.splits)
qed

interpretation watch_kind: entry_kind "watch_entry declared provided img" "watch_granted declared provided img" "watch_missing declared provided img"
proof
  fix H v len s t e
  assume c: "claims_in_order H s" and st: "watch_entry declared provided img v len s = (t, e)"
  then show "claims_in_order H t \<and> admitting s t \<and>
      (if e = RV9_PROC_OK then watch_granted declared provided img v len t else watch_missing declared provided img v len t)"
    by (auto simp: watch_entry_def watch_granted_def watch_missing_def Let_def RV9_MEANING_MAX_def split: prod.splits if_splits option.splits)
next
  fix v len s t assume "watch_granted declared provided img v len s" "admitting s t"
  then show "watch_granted declared provided img v len t"
    using find_dev_admitting [of s t] by (auto simp: watch_granted_def split: prod.splits)
qed

interpretation failsafe_kind: entry_kind "failsafe_entry pid img" "failsafe_granted pid img" "failsafe_missing pid img"
proof
  fix H v len s t e
  assume c: "claims_in_order H s" and st: "failsafe_entry pid img v len s = (t, e)"
  have c': "claims_ok H (cs_claims (io_claims s))" "cs_up (io_claims s)" "length H < 65534" using c by (simp_all add: claims_in_order_def)
  obtain cs q where r: "rv9_claim_failsafe (Some (res_string img (v + 4) (len - 4))) pid (le32 img v) (io_claims s) = (cs, q)" by (metis surj_pair)
  note g = failsafe_grown [OF c'(1,2) r]
  have "claims_in_order H (s\<lparr>io_claims := cs\<rparr>) \<and> admitting s (s\<lparr>io_claims := cs\<rparr>)"
    using g c'(3) by (simp add: claims_in_order_def admitting_def)
  moreover have "cs = io_claims s \<and> \<not> (\<exists>c\<in>set (cs_claims cs). cl_name c = res_string img (v + 4) (len - 4) \<and> cl_owner c = pid)" if "q \<noteq> RV9_IO_OK"
    using r that c'(2) by (auto simp: rv9_claim_failsafe_def find_None_iff split: if_splits)
  ultimately show "claims_in_order H t \<and> admitting s t \<and>
      (if e = RV9_PROC_OK then failsafe_granted pid img v len t else failsafe_missing pid img v len t)"
    using st r g c by (auto simp: failsafe_entry_def failsafe_granted_def failsafe_missing_def split: if_splits)
next
  fix v len s t assume "failsafe_granted pid img v len s" "admitting s t"
  then show "failsafe_granted pid img v len t"
    using grown_failsafe unfolding failsafe_granted_def admitting_def by metis
qed

section \<open>Admission\<close>

lemma and_then_each:
  assumes b: "h_module_len (header_of img) + 65536 \<le> W32" and k: "entry_kind entry granted missing"
    and s: "claims_in_order H s" "admitting s0 s"
    and cont: "\<And>t. claims_in_order H t \<Longrightarrow> admitting s0 t \<Longrightarrow> admitting s t \<Longrightarrow> \<forall>(v, len)\<in>set (tagged img tag). granted v len t \<Longrightarrow>
      \<exists>u e. k t = Some (u, e) \<and> claims_in_order H u \<and> admitting s0 u \<and> admitting t u \<and> (if e = RV9_PROC_OK then P u else Q u)"
  shows "\<exists>u e. and_then (each_entry img tag None entry s) k = Some (u, e) \<and> claims_in_order H u \<and> admitting s0 u \<and> admitting s u \<and>
    (if e = RV9_PROC_OK then P u \<and> (\<forall>(v, len)\<in>set (tagged img tag). granted v len u)
     else (\<exists>(v, len)\<in>set (tagged img tag). missing v len u) \<or> Q u)"
proof -
  obtain t e where t: "each entry (tagged img tag) s = (t, e)" by (metis surj_pair)
  note l = entry_kind.loop_step [OF k s(1) t]
  have eq: "each_entry img tag None entry s = Some (t, e)" using each_entry_all [OF b] t by metis
  have a: "admitting s0 t" using l s(2) admitting_trans by blast
  show ?thesis
  proof (cases "e = RV9_PROC_OK")
    case True
    then have gr: "\<forall>(v, len)\<in>set (tagged img tag). granted v len t" using l by simp
    obtain u e' where u: "k t = Some (u, e')" "claims_in_order H u" "admitting s0 u" "admitting t u" "if e' = RV9_PROC_OK then P u else Q u"
      using cont [OF _ a _ gr] l by blast
    have "\<forall>(v, len)\<in>set (tagged img tag). granted v len u" using gr entry_kind.granted_stays [OF k] u(4) by blast
    moreover have "admitting s u" using l u(4) admitting_trans by blast
    ultimately show ?thesis using eq True u by (intro exI [of _ u] exI [of _ e']) (simp add: and_then_def)
  next
    case False
    then show ?thesis using eq l a by (intro exI [of _ t] exI [of _ e]) (simp add: and_then_def)
  qed
qed

text \<open>
  C32: admission keeps its word, both ways. For any module shorter than 4 GB less 64 KB, checking what it
  declares ends, and leaves devices, paths and claims in order. If it answers well, every device the manifest
  names exists, every exclusive one is reserved for this process alone, every publication was reserved by its
  file manager, every watched one is published or declared by somebody in the same unit, and every failsafe is
  recorded against a claim. If it refuses, some entry could not be had, as things stand when it refuses: its
  device does not exist, or is claimed by somebody else or there is no memory for the claim; its file manager
  does not publish, or did not reserve the cell; nobody publishes what is watched, or in another unit; a
  failsafe is too short or names nothing this process has claimed.
\<close>

theorem admission_grants:
  assumes "h_module_len (header_of img) + 65536 \<le> W32" "claims_in_order H s"
    and alloc: "\<forall>cs a. ce_alloc env cs = Some a \<longrightarrow> find_claim a cs = None"
  shows "\<exists>t e. io_claim_for_fork env pid img s = Some (t, e) \<and> claims_in_order H t \<and> admitting s t \<and>
    (if e = RV9_PROC_OK then
      (\<forall>(v, len)\<in>set (tagged img RV9_MTAG_DEVICE). device_granted pid img False v len t) \<and>
      (\<forall>(v, len)\<in>set (tagged img RV9_MTAG_EXCLUSIVE). device_granted pid img True v len t \<and>
         (0 < len \<longrightarrow> (\<forall>c\<in>set (cs_claims (io_claims t)). cl_name c = res_string img v len \<longrightarrow> cl_owner c = pid))) \<and>
      (\<forall>(v, len)\<in>set (tagged img RV9_MTAG_PUBLISHES). publish_granted (ce_reserve env) pid img v len t) \<and>
      (\<forall>(v, len)\<in>set (tagged img RV9_MTAG_WATCHES). watch_granted (ce_declared env) (ce_provided env) img v len t) \<and>
      (\<forall>(v, len)\<in>set (tagged img RV9_MTAG_FAILSAFE). failsafe_granted pid img v len t)
    else
      (\<exists>(v, len)\<in>set (tagged img RV9_MTAG_DEVICE). device_missing (ce_alloc env) pid img False v len t) \<or>
      (\<exists>(v, len)\<in>set (tagged img RV9_MTAG_EXCLUSIVE). device_missing (ce_alloc env) pid img True v len t) \<or>
      (\<exists>(v, len)\<in>set (tagged img RV9_MTAG_PUBLISHES). publish_missing (ce_reserve env) img v len t) \<or>
      (\<exists>(v, len)\<in>set (tagged img RV9_MTAG_WATCHES). watch_missing (ce_declared env) (ce_provided env) img v len t) \<or>
      (\<exists>(v, len)\<in>set (tagged img RV9_MTAG_FAILSAFE). failsafe_missing pid img v len t))"
proof -
  note b = assms(1)
  have un: "ce_alloc env = unused (ce_alloc env)"
  proof
    fix cs show "ce_alloc env cs = unused (ce_alloc env) cs" using alloc by (cases "ce_alloc env cs") (auto simp: unused_def)
  qed
  have dk: "entry_kind (device_entry (ce_alloc env) pid img ex) (device_granted pid img ex) (device_missing (ce_alloc env) pid img ex)" for ex
    using device_kind.entry_kind_axioms [of "ce_alloc env" pid img ex] un by simp
  let ?P = "\<lambda>t. \<forall>(v, len)\<in>set (tagged img RV9_MTAG_FAILSAFE). failsafe_granted pid img v len t"
  let ?Q = "\<lambda>t. \<exists>(v, len)\<in>set (tagged img RV9_MTAG_FAILSAFE). failsafe_missing pid img v len t"
  have fs: "\<exists>u e. claim_failsafes pid img t = Some (u, e) \<and> claims_in_order H u \<and> admitting s u \<and> admitting t u \<and>
      (if e = RV9_PROC_OK then ?P u else ?Q u)"
    if t: "claims_in_order H t" "admitting s t" for t
  proof -
    obtain u e where u: "each (failsafe_entry pid img) (tagged img RV9_MTAG_FAILSAFE) t = (u, e)" by (metis surj_pair)
    note l = failsafe_kind.loop_step [OF t(1) u]
    have "claim_failsafes pid img t = Some (u, e)" using each_entry_all [OF b] u unfolding claim_failsafes_def by metis
    then show ?thesis using l t(2) admitting_trans by blast
  qed
  obtain t e where t: "io_claim_for_fork env pid img s = Some (t, e)" "claims_in_order H t" "admitting s t"
    and ends: "if e = RV9_PROC_OK then
      (((?P t \<and> (\<forall>(v, len)\<in>set (tagged img RV9_MTAG_WATCHES). watch_granted (ce_declared env) (ce_provided env) img v len t)) \<and>
        (\<forall>(v, len)\<in>set (tagged img RV9_MTAG_PUBLISHES). publish_granted (ce_reserve env) pid img v len t)) \<and>
       (\<forall>(v, len)\<in>set (tagged img RV9_MTAG_EXCLUSIVE). device_granted pid img True v len t)) \<and>
      (\<forall>(v, len)\<in>set (tagged img RV9_MTAG_DEVICE). device_granted pid img False v len t)
      else (\<exists>(v, len)\<in>set (tagged img RV9_MTAG_DEVICE). device_missing (ce_alloc env) pid img False v len t) \<or>
      (\<exists>(v, len)\<in>set (tagged img RV9_MTAG_EXCLUSIVE). device_missing (ce_alloc env) pid img True v len t) \<or>
      (\<exists>(v, len)\<in>set (tagged img RV9_MTAG_PUBLISHES). publish_missing (ce_reserve env) img v len t) \<or>
      (\<exists>(v, len)\<in>set (tagged img RV9_MTAG_WATCHES). watch_missing (ce_declared env) (ce_provided env) img v len t) \<or> ?Q t"
    using and_then_each [OF b dk assms(2) admitting_refl, of RV9_MTAG_DEVICE False, OF
      and_then_each [OF b dk, of H _ s RV9_MTAG_EXCLUSIVE True, OF _ _
      and_then_each [OF b publish_kind.entry_kind_axioms, of H _ s RV9_MTAG_PUBLISHES, OF _ _
      and_then_each [OF b watch_kind.entry_kind_axioms, of H _ s RV9_MTAG_WATCHES, OF _ _ fs]]]]
    unfolding io_claim_for_fork_def by blast
  have sole: "cl_owner c = pid" if "(v, len) \<in> set (tagged img RV9_MTAG_EXCLUSIVE)" "0 < len" "c \<in> set (cs_claims (io_claims t))"
      "cl_name c = res_string img v len" "e = RV9_PROC_OK" for v len c
  proof -
    have pos: "len \<noteq> 0" and "device_granted pid img True v len t" using ends that by auto
    then obtain d where d: "d \<in> set (cs_claims (io_claims t))" "cl_name d = res_string img v len" "cl_owner d = pid" "cl_exclusive d"
      by (auto simp: device_granted_def)
    then have "sole d (cs_claims (io_claims t))" using t(2) by (simp add: claims_in_order_def claims_ok_def)
    then show ?thesis using that d by (auto simp: sole_def)
  qed
  show ?thesis
  proof (cases "e = RV9_PROC_OK")
    case True
    note E = ends [unfolded if_P [OF True]]
    have "\<forall>(v, len)\<in>set (tagged img RV9_MTAG_EXCLUSIVE). device_granted pid img True v len t \<and>
        (0 < len \<longrightarrow> (\<forall>c\<in>set (cs_claims (io_claims t)). cl_name c = res_string img v len \<longrightarrow> cl_owner c = pid))"
      using E sole True by blast
    then show ?thesis using t E True by (intro exI [of _ t] exI [of _ e]) simp
  next
    case False
    then show ?thesis using t ends by (intro exI [of _ t] exI [of _ e]) simp
  qed
qed

text \<open>A module that asks for \<open>/g\<close> alone, and a machine that has it.\<close>

definition wish_image :: image where
  "wish_image = demo_front @ concat (map encode_tlv [(0x800B, [0x2f, 0x67]), (5, [1])]) @ enc16 0 @ enc16 0 @ [0x13, 0, 0, 0]"

definition wish_env :: claim_env where
  "wish_env = \<lparr>ce_alloc = \<lambda>cs. Some (Suc (sum_list (map cl_at cs))), ce_reserve = \<lambda>_ _ _. RV9_IO_OK,
     ce_declared = \<lambda>_. (False, []), ce_provided = \<lambda>_ _. False\<rparr>"

definition wish_dev :: dev where
  "wish_dev = new_dev ''/g'' \<lparr>fm_name = ''pio'', fm_open = True, fm_close = True, fm_read = True, fm_write = True, fm_seek = False,
     fm_getstat = True, fm_setstat = True, fm_remove = False, fm_mount = False, fm_reserve_writer = False, fm_provided = False, fm_ended = False\<rparr>
     \<lparr>dr_name = ''gpio'', dr_retains = True, dr_init = True, dr_open = False, dr_close = False, dr_hangup = False\<rparr> [] 0"

definition wish_sys :: iosys where
  "wish_sys = \<lparr>io_filemgrs = [], io_drivers = [], io_refused = 0, io_devs = [wish_dev], io_tables = [], io_paths = [],
     io_claims = \<lparr>cs_up = True, cs_claims = []\<rparr>, io_std_in = [], io_std_out = [], io_told = []\<rparr>"

lemma zero_bytes: "replicate 2 (0 :: 8 word) = [0, 0]" "replicate 3 (0 :: 8 word) = [0, 0, 0]"
  by (simp_all add: numeral_2_eq_2 numeral_3_eq_3)

lemma wish_bytes: "wish_image = [82, 86, 57, 77, 40, 0, 15, 0, 68, 0, 0, 0, 40, 0, 0, 0, 64, 0, 0, 0, 0, 0, 0, 0, 0, 0, 0, 0, 1, 0, 1, 0, 0, 0, 0, 0, 44, 0, 0, 0, 97, 0, 0, 0, 11, 128, 2, 0, 47, 103, 0, 0, 5, 0, 1, 0, 1, 0, 0, 0, 0, 0, 0, 0, 19, 0, 0, 0]"
  by (simp add: wish_image_def demo_front_def encode_tlv_def enc16_def zero_bytes)

lemma wish_header: "h_manifest_offset (header_of wish_image) = 44" "h_header_len (header_of wish_image) = 40" "h_module_len (header_of wish_image) = 68"
  by (simp_all add: header_of_def le32_def le16_def byte_at_def wish_bytes)

lemma wish_le16: "le16 wish_image 44 = 0x800B" "le16 wish_image 46 = 2" "le16 wish_image 52 = 5" "le16 wish_image 54 = 1" "le16 wish_image 60 = 0"
  by (simp_all add: le16_def byte_at_def wish_bytes)

lemma wish_entries: "manifest_entries wish_image = [(0x800B, 48, 2), (5, 56, 1)]"
proof -
  have e: "entry_at wish_image 44" "entry_at wish_image 52" "\<not> entry_at wish_image 60"
    by (simp_all add: entry_at_def wish_header wish_le16 tag_number_def RV9_MTAG_END_def)
  have n: "next_entry wish_image 44 = 52" "next_entry wish_image 52 = 60"
    by (simp_all add: next_entry_def wish_le16 tlv_next_def cast32_def)
  have "entries_from wish_image 44 = [(0x800B, 48, 2), (5, 56, 1)]"
    by (simp add: entries_from_rec [of wish_image 44] entries_from_rec [of wish_image 52] entries_from_rec [of wish_image 60] e n wish_le16)
  then show ?thesis by (simp add: manifest_entries_eq wish_header Let_def)
qed

lemma wish_tags: "tagged wish_image RV9_MTAG_DEVICE = []" "tagged wish_image RV9_MTAG_EXCLUSIVE = [(48, 2)]" "tagged wish_image RV9_MTAG_PUBLISHES = []"
    "tagged wish_image RV9_MTAG_WATCHES = []" "tagged wish_image RV9_MTAG_FAILSAFE = []"
  by (simp_all add: tagged_def wish_entries tag_number_def RV9_MTAG_DEVICE_def RV9_MTAG_EXCLUSIVE_def RV9_MTAG_PUBLISHES_def
      RV9_MTAG_WATCHES_def RV9_MTAG_FAILSAFE_def)

lemma wish_name: "res_string wish_image 48 2 = ''/g''"
  by (simp add: res_string_def byte_at_def wish_bytes RV9_CLAIM_NAME_MAX_def upt_rec char_of_def bit_0)

lemma wish_bound: "h_module_len (header_of wish_image) + 65536 \<le> W32"
  by (simp add: wish_header)

lemma wish_admitted: "snd (the (io_claim_for_fork wish_env 7 wish_image wish_sys)) = RV9_PROC_OK"
  unfolding io_claim_for_fork_def claim_failsafes_def each_entry_all [OF wish_bound] wish_tags
  by (simp add: and_then_def device_entry_def wish_name split_path_def wish_sys_def find_dev_def wish_dev_def new_dev_def
      rv9_claim_reserve_def wish_env_def take_locked_def Let_def)

theorem admission_grants_witness:
  "\<exists>t. io_claim_for_fork wish_env 7 wish_image wish_sys = Some (t, RV9_PROC_OK) \<and>
    (\<exists>c\<in>set (cs_claims (io_claims t)). cl_name c = ''/g'' \<and> cl_owner c = 7 \<and> cl_exclusive c \<and> cl_reserved c)"
proof -
  have o: "claims_in_order [] wish_sys" by (simp add: claims_in_order_def claims_ok_def wish_sys_def)
  have "find_claim (Suc (sum_list (map cl_at cs))) cs = None" for cs
  proof -
    have "c \<in> set cs \<Longrightarrow> cl_at c \<le> sum_list (map cl_at cs)" for c by (rule member_le_sum_list) auto
    then show ?thesis by (force simp: find_claim_def find_None_iff)
  qed
  then have a: "\<forall>cs a. ce_alloc wish_env cs = Some a \<longrightarrow> find_claim a cs = None" by (simp add: wish_env_def)
  show ?thesis using admission_grants [OF wish_bound o a, of 7] wish_admitted
    by (elim exE conjE) (simp add: wish_tags device_granted_def wish_name)
qed

end
