(* ===== verification/IoProps.thy ===== *)
theory IoProps
  imports IoOps ClaimProps "HOL-Library.Multiset"
begin

text \<open>
  What the I/O manager's counts mean: references of a path, opens of a device, claims of a
  resource. \<open>K\<close> is the multiset of all handles on paths (slots of tables, and paths drivers hold);
  \<open>X\<close> the paths an operation under way has not yet counted in their device, or no longer counts.
\<close>

section \<open>Claims behind paths\<close>

definition from_rec :: "claim list \<Rightarrow> claim \<Rightarrow> bool" where
  "from_rec cs d \<longleftrightarrow> (\<exists>e\<in>set cs. cl_at e = cl_at d \<and> cl_name e = cl_name d \<and> cl_owner e = cl_owner d \<and> (cl_exclusive e \<longrightarrow> cl_exclusive d))"

lemma from_self: "d \<in> set cs \<Longrightarrow> from_rec cs d"
  by (auto simp: from_rec_def)

lemma from_trans: "from_rec cs e \<Longrightarrow> e \<in> set ds \<Longrightarrow> from_rec ds d \<Longrightarrow> (\<And>e. e \<in> set ds \<Longrightarrow> from_rec cs e) \<Longrightarrow> from_rec cs d"
  unfolding from_rec_def by metis

lemma from_upd: "(\<And>c. cl_at (f c) = cl_at c \<and> cl_name (f c) = cl_name c \<and> cl_owner (f c) = cl_owner c \<and> (cl_exclusive c \<longrightarrow> cl_exclusive (f c))) \<Longrightarrow>
    d \<in> set (upd_first P f cs) \<Longrightarrow> from_rec cs d"
proof (induction cs)
  case (Cons c cs)
  have f: "cl_at (f c) = cl_at c" "cl_name (f c) = cl_name c" "cl_owner (f c) = cl_owner c" "cl_exclusive c \<longrightarrow> cl_exclusive (f c)"
    using Cons.prems(1) [of c] by blast+
  show ?case
  proof (cases "P c")
    case True
    then consider "d = f c" | "d \<in> set cs" using Cons.prems(2) by auto
    then show ?thesis by cases (use f in \<open>auto simp: from_rec_def\<close>)
  next
    case False
    then consider "d = c" | "d \<in> set (upd_first P f cs)" using Cons.prems(2) by auto
    then show ?thesis
    proof cases
      case 2
      then have "from_rec cs d" by (rule Cons.IH [OF Cons.prems(1)])
      then show ?thesis by (auto simp: from_rec_def)
    qed (auto simp: from_rec_def)
  qed
qed simp

lemma from_drop: "d \<in> set (drop_locked a cs) \<Longrightarrow> from_rec cs d"
proof (cases "find_claim a cs")
  case (Some c)
  assume "d \<in> set (drop_locked a cs)"
  then consider "d \<in> set cs" | n where "d \<in> set (upd_claim a (\<lambda>c. c\<lparr>cl_refs := n\<rparr>) cs)"
    using Some set_remove1_subset [of c cs] by (auto simp: drop_locked_def Let_def split: if_splits)
  then show ?thesis
  proof cases
    case (2 n)
    then show ?thesis unfolding upd_claim_def by (intro from_upd) auto
  qed (rule from_self)
qed (auto simp: drop_locked_def from_self)

lemma from_release: "d \<in> set (release_one owner cs a) \<Longrightarrow> from_rec cs d"
proof (cases "d \<in> set (drop_locked a (upd_claim a (\<lambda>c. c\<lparr>cl_reserved := False\<rparr>) cs))")
  case True
  then obtain e where e: "e \<in> set (upd_claim a (\<lambda>c. c\<lparr>cl_reserved := False\<rparr>) cs)" "cl_at e = cl_at d" "cl_name e = cl_name d"
      "cl_owner e = cl_owner d" "cl_exclusive e \<longrightarrow> cl_exclusive d"
    using from_drop unfolding from_rec_def by blast
  have "from_rec cs e" using e(1) unfolding upd_claim_def by (intro from_upd) auto
  then show ?thesis using e(2-) unfolding from_rec_def by auto
qed (auto simp: release_one_def from_self split: option.splits if_splits)

lemma from_release_all: "d \<in> set (foldl (release_one owner) cs as) \<Longrightarrow> from_rec cs d"
proof (induction as arbitrary: cs)
  case (Cons a as)
  then have "from_rec (release_one owner cs a) d" by simp
  then show ?case using from_release [of _ owner cs a] unfolding from_rec_def by metis
qed (simp add: from_self)

lemma from_take: "take_locked alloc res owner ex cs = (ds, Inr a) \<Longrightarrow> d \<in> set ds \<Longrightarrow> cl_at d \<noteq> a \<Longrightarrow> from_rec cs d"
  unfolding take_locked_def upd_claim_def
  by (auto split: sum.splits option.splits intro: from_self) (auto elim!: from_upd [rotated])

lemma from_take_any: "take_locked alloc res owner ex cs = (ds, Inr a) \<Longrightarrow> d \<in> set ds \<Longrightarrow> a \<in> cl_at ` set cs \<Longrightarrow>
    (\<And>a. alloc = Some a \<Longrightarrow> a \<notin> cl_at ` set cs) \<Longrightarrow> from_rec cs d"
  unfolding take_locked_def upd_claim_def
  by (auto split: sum.splits option.splits) (auto elim!: from_upd [rotated])

lemma claims_ok_mset: "mset H = mset H' \<Longrightarrow> claims_ok H cs = claims_ok H' cs"
proof -
  assume m: "mset H = mset H'"
  have "count_list H = count_list H'" using m by (metis count_mset ext)
  then have "counted H = counted H'" by (auto simp: counted_def [abs_def])
  moreover have "set H = set H'" using m by (metis set_mset_mset)
  ultimately show ?thesis by (simp add: claims_ok_def)
qed

section \<open>The balance\<close>

definition claim_of :: "path \<Rightarrow> nat" where
  "claim_of p = the (pa_claim p)"

definition path_bal :: "nat multiset \<Rightarrow> iosys \<Rightarrow> path \<Rightarrow> bool" where
  "path_bal K s p \<longleftrightarrow> pa_refs p = count K (pa_at p) \<and> 0 < pa_refs p \<and> pa_claim p \<noteq> None \<and>
     (\<exists>d\<in>set (io_devs s). dv_name d = pa_dev p \<and> pa_session p \<le> dv_session d) \<and>
     (\<exists>c\<in>set (cs_claims (io_claims s)). cl_at c = claim_of p \<and> (pa_mode p AND RV9_MODE_EXCL \<noteq> 0 \<longrightarrow> cl_exclusive c) \<and>
        (\<exists>rest. rv9_claim_resource RV9_CLAIM_NAME_MAX (pa_dev p) rest = Some (cl_name c)))"

definition counts :: "nat set \<Rightarrow> dev \<Rightarrow> path \<Rightarrow> bool" where
  "counts X d p \<longleftrightarrow> pa_dev p = dv_name d \<and> pa_at p \<notin> X \<and> \<not> stale p d"

definition bal :: "nat \<Rightarrow> nat multiset \<Rightarrow> nat set \<Rightarrow> iosys \<Rightarrow> bool" where
  "bal N K X s \<longleftrightarrow>
     distinct (map pa_at (io_paths s)) \<and> distinct (map dv_name (io_devs s)) \<and> length (io_paths s) < 65534 \<and>
     (\<forall>p\<in>set (io_paths s). path_bal K s p) \<and> set_mset K \<subseteq> pa_at ` set (io_paths s) \<and>
     (\<forall>d\<in>set (io_devs s). dv_session d \<le> N \<and> CHR 0x00 \<notin> set (dv_name d) \<and> dv_open_count d = length (filter (counts X d) (io_paths s))) \<and>
     cs_up (io_claims s) \<and> claims_ok (map claim_of (io_paths s)) (cs_claims (io_claims s))"

lemma balD:
  assumes "bal N K X s"
  shows "distinct (map pa_at (io_paths s))" "distinct (map dv_name (io_devs s))" "length (io_paths s) < 65534"
    "p \<in> set (io_paths s) \<Longrightarrow> path_bal K s p" "set_mset K \<subseteq> pa_at ` set (io_paths s)"
    "d \<in> set (io_devs s) \<Longrightarrow> dv_session d \<le> N" "d \<in> set (io_devs s) \<Longrightarrow> CHR 0x00 \<notin> set (dv_name d)"
    "d \<in> set (io_devs s) \<Longrightarrow> dv_open_count d = length (filter (counts X d) (io_paths s))"
    "cs_up (io_claims s)" "claims_ok (map claim_of (io_paths s)) (cs_claims (io_claims s))"
  using assms unfolding bal_def by blast+

lemma balI:
  assumes "distinct (map pa_at (io_paths s))" "distinct (map dv_name (io_devs s))" "length (io_paths s) < 65534"
    "\<And>p. p \<in> set (io_paths s) \<Longrightarrow> path_bal K s p" "set_mset K \<subseteq> pa_at ` set (io_paths s)"
    "\<And>d. d \<in> set (io_devs s) \<Longrightarrow> dv_session d \<le> N \<and> CHR 0x00 \<notin> set (dv_name d) \<and> dv_open_count d = length (filter (counts X d) (io_paths s))"
    "cs_up (io_claims s)" "claims_ok (map claim_of (io_paths s)) (cs_claims (io_claims s))"
  shows "bal N K X s"
  using assms unfolding bal_def by blast

lemma find_path_Some: "find_path a s = Some p \<Longrightarrow> p \<in> set (io_paths s) \<and> pa_at p = a"
  by (auto simp: find_path_def find_Some_iff)

lemma find_dev_Some: "find_dev n s = Some d \<Longrightarrow> d \<in> set (io_devs s) \<and> dv_name d = n"
  by (auto simp: find_dev_def find_Some_iff)

lemma find_key: "distinct (map k xs) \<Longrightarrow> x \<in> set xs \<Longrightarrow> find (\<lambda>y. k y = k x) xs = Some x"
  by (induction xs) auto

lemma find_path_mem: "bal N K X s \<Longrightarrow> p \<in> set (io_paths s) \<Longrightarrow> find_path (pa_at p) s = Some p"
  unfolding find_path_def by (rule find_key [OF balD(1)])

lemma find_dev_mem: "bal N K X s \<Longrightarrow> d \<in> set (io_devs s) \<Longrightarrow> find_dev (dv_name d) s = Some d"
  unfolding find_dev_def by (rule find_key [OF balD(2)])

lemma handle_path:
  assumes "bal N K X s" "a \<in># K"
  obtains p where "find_path a s = Some p" "p \<in> set (io_paths s)" "pa_at p = a"
proof -
  obtain p where p: "p \<in> set (io_paths s)" "pa_at p = a" using balD(5) [OF assms(1)] assms(2) by auto
  show thesis using that [of p] find_path_mem [OF assms(1) p(1)] p by simp
qed

lemma path_device:
  assumes "bal N K X s" "p \<in> set (io_paths s)"
  obtains d where "find_dev (pa_dev p) s = Some d" "d \<in> set (io_devs s)" "dv_name d = pa_dev p" "pa_session p \<le> dv_session d"
proof -
  obtain d where d: "d \<in> set (io_devs s)" "dv_name d = pa_dev p" "pa_session p \<le> dv_session d"
    using balD(4) [OF assms] unfolding path_bal_def by blast
  show thesis using that [of d] find_dev_mem [OF assms(1) d(1)] d by simp
qed

text \<open>What does not matter to the balance.\<close>

lemma bal_frame:
  assumes b: "bal N K X s" and same: "io_paths t = io_paths s" "io_claims t = io_claims s" "io_devs t = map f (io_devs s)"
    and f: "\<And>d. dv_name (f d) = dv_name d \<and> dv_drv (f d) = dv_drv d \<and> dv_session (f d) = dv_session d \<and> dv_open_count (f d) = dv_open_count d"
  shows "bal N K X t"
proof (rule balI)
  have n: "map dv_name (io_devs t) = map dv_name (io_devs s)" using f by (simp add: same(3))
  show "distinct (map dv_name (io_devs t))" unfolding n by (rule balD(2) [OF b])
  show "path_bal K t p" if "p \<in> set (io_paths t)" for p
    using balD(4) [OF b, of p] that f unfolding path_bal_def same by auto
  fix d assume "d \<in> set (io_devs t)"
  then obtain d0 where d: "d0 \<in> set (io_devs s)" "d = f d0" by (auto simp: same(3))
  have "counts X d = counts X d0" using f [of d0] by (auto simp: counts_def [abs_def] stale_def d(2))
  then show "dv_session d \<le> N \<and> CHR 0x00 \<notin> set (dv_name d) \<and> dv_open_count d = length (filter (counts X d) (io_paths t))"
    using balD(6-8) [OF b d(1)] f [of d0] by (simp add: d(2) same(1))
qed (use balD [OF b] same in simp_all)

lemma upd_dev_map: "bal N K X s \<Longrightarrow> io_devs (upd_dev n f s) = map (\<lambda>d. if dv_name d = n then f d else d) (io_devs s)"
  unfolding upd_dev_def by (simp add: upd_first_map [OF balD(2)])

lemma bal_tell [simp]: "bal N K X (tell_io cs s) = bal N K X s"
  by (simp add: bal_def path_bal_def tell_io_def)

lemma bal_last_close [simp]: "bal N K X (dev_last_close n s) = bal N K X s"
  by (simp add: dev_last_close_def split: option.split)

lemma bal_slot [simp]: "bal N K X (set_slot pid i v s) = bal N K X s"
  by (simp add: bal_def path_bal_def set_slot_def)

lemma bal_tables [simp]: "bal N K X (s\<lparr>io_tables := ts\<rparr>) = bal N K X s"
  by (simp add: bal_def path_bal_def)

section \<open>Claims change under the paths\<close>

lemma claim_persists:
  assumes "claims_ok H cs" "c \<in> set cs" "cl_at c \<in> cl_at ` set ds" "\<And>d. d \<in> set ds \<Longrightarrow> cl_at d = cl_at c \<Longrightarrow> from_rec cs d"
  shows "\<exists>d\<in>set ds. cl_at d = cl_at c \<and> cl_name d = cl_name c \<and> cl_owner d = cl_owner c \<and> (cl_exclusive c \<longrightarrow> cl_exclusive d)"
proof -
  obtain d where d: "d \<in> set ds" "cl_at d = cl_at c" using assms(3) by auto
  then obtain e where e: "e \<in> set cs" "cl_at e = cl_at d" "cl_name e = cl_name d" "cl_owner e = cl_owner d" "cl_exclusive e \<longrightarrow> cl_exclusive d"
    using assms(4) unfolding from_rec_def by blast
  have "e = c" using same_claim [OF assms(1) e(1) assms(2)] e(2) d(2) by simp
  then show ?thesis using d e by (intro bexI [of _ d]) auto
qed

lemma path_bal_claims:
  assumes p: "path_bal K s p" and ok: "claims_ok H (cs_claims (io_claims s))" "claim_of p \<in> cl_at ` set (cs_claims cs)"
    and "\<And>d. d \<in> set (cs_claims cs) \<Longrightarrow> cl_at d = claim_of p \<Longrightarrow> from_rec (cs_claims (io_claims s)) d"
    and t: "io_claims t = cs" "io_devs t = io_devs s" "count K' (pa_at p) = count K (pa_at p)"
  shows "path_bal K' t p"
proof -
  obtain c where c: "c \<in> set (cs_claims (io_claims s))" "cl_at c = claim_of p" "pa_mode p AND RV9_MODE_EXCL \<noteq> 0 \<longrightarrow> cl_exclusive c"
      "\<exists>rest. rv9_claim_resource RV9_CLAIM_NAME_MAX (pa_dev p) rest = Some (cl_name c)"
    using p unfolding path_bal_def by blast
  have "\<exists>d\<in>set (cs_claims cs). cl_at d = cl_at c \<and> cl_name d = cl_name c \<and> cl_owner d = cl_owner c \<and> (cl_exclusive c \<longrightarrow> cl_exclusive d)"
    by (rule claim_persists [OF ok(1) c(1)]) (use ok(2) c(2) assms(4) in auto)
  then have "\<exists>d\<in>set (cs_claims cs). cl_at d = claim_of p \<and> (pa_mode p AND RV9_MODE_EXCL \<noteq> 0 \<longrightarrow> cl_exclusive d) \<and>
      (\<exists>rest. rv9_claim_resource RV9_CLAIM_NAME_MAX (pa_dev p) rest = Some (cl_name d))"
    using c(2-4) by metis
  moreover have "pa_refs p = count K (pa_at p) \<and> 0 < pa_refs p \<and> pa_claim p \<noteq> None \<and>
      (\<exists>d\<in>set (io_devs s). dv_name d = pa_dev p \<and> pa_session p \<le> dv_session d)"
    using p unfolding path_bal_def by blast
  ultimately show ?thesis unfolding path_bal_def t by blast
qed

lemma resource_fits: "CHR 0x00 \<notin> set dn \<Longrightarrow> CHR 0x00 \<notin> set rest \<Longrightarrow> \<exists>res. rv9_claim_resource RV9_CLAIM_NAME_MAX dn rest = Some res \<and> fits res"
  by (auto simp: rv9_claim_resource_def fits_def RV9_CLAIM_NAME_MAX_def dest!: in_set_takeD)

text \<open>The claims of the open paths stay held.\<close>

lemma bal_claims:
  assumes b: "bal N K X s" and cs: "cs_up cs" "claims_ok (map claim_of (io_paths s)) (cs_claims cs)"
    and f: "\<And>d. d \<in> set (cs_claims cs) \<Longrightarrow> cl_at d \<in> claim_of ` set (io_paths s) \<Longrightarrow> from_rec (cs_claims (io_claims s)) d"
  shows "bal N K X (s\<lparr>io_claims := cs\<rparr>)"
proof (rule balI)
  fix p assume p: "p \<in> set (io_paths (s\<lparr>io_claims := cs\<rparr>))"
  then have "claim_of p \<in> cl_at ` set (cs_claims cs)" using cs(2) by (auto simp: claims_ok_def)
  then show "path_bal K (s\<lparr>io_claims := cs\<rparr>) p"
    using p f by (intro path_bal_claims [OF balD(4) [OF b] balD(10) [OF b]]) auto
qed (use balD [OF b] cs in auto)

lemma bal_release_pid: "bal N K X s \<Longrightarrow> bal N K X (s\<lparr>io_claims := rv9_claim_release_pid pid (io_claims s)\<rparr>)"
  using ok_release_all [OF balD(10), of N K X s pid "map cl_at (cs_claims (io_claims s))"] balD(9) [of N K X s]
  by (intro bal_claims) (auto simp: rv9_claim_release_pid_def dest: from_release_all)

section \<open>New paths\<close>

text \<open>What the allocator gives is not in use, and there is memory for 65533 paths at most.\<close>

definition env_ok :: "io_env \<Rightarrow> iosys \<Rightarrow> bool" where
  "env_ok env s \<longleftrightarrow> (\<forall>a. ie_path env = Some a \<longrightarrow> a \<notin> pa_at ` set (io_paths s) \<and> length (io_paths s) < 65533) \<and>
     (\<forall>a. ie_claim env = Some a \<longrightarrow> a \<notin> cl_at ` set (cs_claims (io_claims s)))"

lemma bal_new:
  assumes b: "bal N K X s" and d: "d \<in> set (io_devs s)" and nul: "CHR 0x00 \<notin> set rest" and env: "env_ok env s"
    and st: "path_new env d rest mode owner s = (t, r)"
  shows "io_devs t = io_devs s \<and> io_tables t = io_tables s \<and>
    (case r of Inl e \<Rightarrow> bal N K X t \<and> io_paths t = io_paths s
     | Inr a \<Rightarrow> bal N (add_mset a K) (insert a X) t \<and> a \<notin> pa_at ` set (io_paths s) \<and>
         (\<exists>p. io_paths t = p # io_paths s \<and> pa_at p = a \<and> pa_dev p = dv_name d \<and> pa_session p = dv_session d \<and> pa_mode p = mode))"
proof -
  let ?cs = "cs_claims (io_claims s)" and ?H = "map claim_of (io_paths s)" and ?ex = "mode AND RV9_MODE_EXCL \<noteq> 0"
  obtain res where res: "rv9_claim_resource RV9_CLAIM_NAME_MAX (dv_name d) rest = Some res" "fits res"
    using resource_fits balD(7) [OF b d] nul by blast
  obtain ds q where tl: "take_locked (ie_claim env) res owner ?ex ?cs = (ds, q)" by (metis surj_pair)
  have fresh: "\<And>a. ie_claim env = Some a \<Longrightarrow> a \<notin> cl_at ` set ?cs" using env by (simp add: env_ok_def)
  have few: "length ?H < 65534" using balD(3) [OF b] by simp
  note tk = ok_take [OF balD(10) [OF b] tl res(2) fresh few]
  show ?thesis
  proof (cases q)
    case (Inl e)
    then have "ds = ?cs" using tk by simp
    then have "t = s\<lparr>io_claims := io_claims s\<rparr>" "r = Inl e" using st tl Inl res(1) balD(9) [OF b] by (auto simp: path_new_def rv9_claim_take_def)
    then show ?thesis using b by simp
  next
    case (Inr c)
    then have ok: "claims_ok (c # ?H) ds"
      and rec: "\<exists>x\<in>set ds. cl_at x = c \<and> cl_name x = res \<and> cl_owner x = owner \<and> (?ex \<longrightarrow> cl_exclusive x)" using tk by simp_all
    have fr: "from_rec ?cs x" if "x \<in> set ds" "cl_at x \<in> claim_of ` set (io_paths s)" for x
    proof (cases "cl_at x = c")
      case True
      then have "c \<in> cl_at ` set ?cs" using that(2) balD(10) [OF b] by (auto simp: claims_ok_def)
      then show ?thesis using from_take_any [of "ie_claim env" res owner ?ex ?cs ds c x] tl Inr that(1) fresh by blast
    next
      case False
      then show ?thesis using from_take [of "ie_claim env" res owner ?ex ?cs ds c x] tl Inr that(1) by blast
    qed
    have take: "rv9_claim_take (ie_claim env) (Some res) owner ?ex (io_claims s) = ((io_claims s)\<lparr>cs_claims := ds\<rparr>, Inr (Some c))"
      using tl Inr balD(9) [OF b] by (simp add: rv9_claim_take_def)
    let ?c' = "(io_claims s)\<lparr>cs_claims := ds\<rparr>"
    show ?thesis
    proof (cases "ie_path env")
      case None
      have "claims_ok ?H (drop_locked c ds)" using ok_close [OF ok, of c] by simp
      then have "bal N K X (s\<lparr>io_claims := ?c'\<lparr>cs_claims := drop_locked c ds\<rparr>\<rparr>)"
      proof (intro bal_claims [OF b])
        fix x assume x: "x \<in> set (cs_claims (?c'\<lparr>cs_claims := drop_locked c ds\<rparr>))" "cl_at x \<in> claim_of ` set (io_paths s)"
        then obtain e where e: "e \<in> set ds" "cl_at e = cl_at x" "cl_name e = cl_name x" "cl_owner e = cl_owner x" "cl_exclusive e \<longrightarrow> cl_exclusive x"
          using from_drop [of x c ds] unfolding from_rec_def by auto
        then show "from_rec ?cs x" using fr [of e] x(2) unfolding from_rec_def by metis
      qed (use balD(9) [OF b] in simp_all)
      moreover have "t = s\<lparr>io_claims := ?c'\<lparr>cs_claims := drop_locked c ds\<rparr>\<rparr>" "r = Inl RV9_IO_ERR_NOMEM"
        using st take res(1) None balD(9) [OF b] by (simp_all add: path_new_def rv9_claim_drop_def)
      ultimately show ?thesis by simp
    next
      case (Some a)
      let ?p = "\<lparr>pa_at = a, pa_dev = dv_name d, pa_mode = mode, pa_refs = 1, pa_session = dv_session d, pa_claim = Some c\<rparr>"
      have t: "t = s\<lparr>io_claims := ?c', io_paths := ?p # io_paths s\<rparr>" "r = Inr a"
        using st take res(1) Some by (simp_all add: path_new_def)
      have a: "a \<notin> pa_at ` set (io_paths s)" "length (io_paths s) < 65533" using env Some by (simp_all add: env_ok_def)
      then have ak: "a \<notin># K" using balD(5) [OF b] by blast
      have new: "path_bal (add_mset a K) t ?p"
        using ak d rec res(1) unfolding path_bal_def t by (auto simp: claim_of_def not_in_iff)
      have "bal N (add_mset a K) (insert a X) t"
      proof (rule balI)
        fix p assume "p \<in> set (io_paths t)"
        then consider "p = ?p" | "p \<in> set (io_paths s)" by (auto simp: t)
        then show "path_bal (add_mset a K) t p"
        proof cases
          case 2
          then have "claim_of p \<in> cl_at ` set ds" using ok by (auto simp: claims_ok_def)
          moreover have "pa_at p \<noteq> a" using a 2 by auto
          ultimately show ?thesis using 2 fr
            by (intro path_bal_claims [OF balD(4) [OF b 2] balD(10) [OF b], of ?c']) (auto simp: t)
        qed (use new in simp)
      next
        fix x assume "x \<in> set (io_devs t)"
        then have x: "x \<in> set (io_devs s)" by (simp add: t)
        have "filter (counts (insert a X) x) (io_paths t) = filter (counts X x) (io_paths s)"
          using a(1) by (auto simp: t counts_def intro!: filter_cong)
        then show "dv_session x \<le> N \<and> CHR 0x00 \<notin> set (dv_name x) \<and> dv_open_count x = length (filter (counts (insert a X) x) (io_paths t))"
          using balD(6-8) [OF b x] by simp
      qed (use balD [OF b] a ok in \<open>auto simp: t claim_of_def\<close>)
      then show ?thesis using t a(1) by simp
    qed
  qed
qed

section \<open>Devices change under the paths\<close>

lemma bal_devs:
  assumes b: "bal N K X s" and same: "io_paths t = io_paths s" "io_claims t = io_claims s" "io_devs t = map f (io_devs s)"
    and f: "\<And>d. d \<in> set (io_devs s) \<Longrightarrow> dv_name (f d) = dv_name d \<and> dv_session d \<le> dv_session (f d) \<and> dv_session (f d) \<le> M \<and>
      dv_open_count (f d) = length (filter (counts Y (f d)) (io_paths s))"
  shows "bal M K Y t"
proof (rule balI)
  have n: "map dv_name (io_devs t) = map dv_name (io_devs s)" using f by (simp add: same(3))
  show "distinct (map dv_name (io_devs t))" unfolding n by (rule balD(2) [OF b])
  show "path_bal K t p" if "p \<in> set (io_paths t)" for p
  proof -
    have p: "path_bal K s p" using balD(4) [OF b, of p] that by (simp add: same(1))
    then obtain d where d: "d \<in> set (io_devs s)" "dv_name d = pa_dev p" "pa_session p \<le> dv_session d" unfolding path_bal_def by blast
    then have "\<exists>d\<in>set (io_devs t). dv_name d = pa_dev p \<and> pa_session p \<le> dv_session d"
      using f [OF d(1)] by (intro bexI [of _ "f d"]) (auto simp: same(3))
    then show ?thesis using p unfolding path_bal_def same by blast
  qed
  fix d assume "d \<in> set (io_devs t)"
  then obtain d0 where d: "d0 \<in> set (io_devs s)" "d = f d0" by (auto simp: same(3))
  then show "dv_session d \<le> M \<and> CHR 0x00 \<notin> set (dv_name d) \<and> dv_open_count d = length (filter (counts Y d) (io_paths t))"
    using balD(7) [OF b d(1)] f [OF d(1)] by (simp add: same(1))
qed (use balD [OF b] same in simp_all)

lemma length_filter_add: "distinct xs \<Longrightarrow> x \<in> set xs \<Longrightarrow> \<not> P x \<Longrightarrow> (\<And>y. y \<in> set xs \<Longrightarrow> Q y = (P y \<or> y = x)) \<Longrightarrow>
    length (filter Q xs) = Suc (length (filter P xs))"
proof (induction xs)
  case (Cons y xs)
  have rest: "length (filter Q xs) = length (filter P xs)" if "y = x"
  proof -
    have "filter Q xs = filter P xs" using Cons.prems that by (intro filter_cong) auto
    then show ?thesis by simp
  qed
  show ?case using Cons rest by (cases "y = x") auto
qed simp

lemma paths_distinct: "bal N K X s \<Longrightarrow> distinct (io_paths s)"
  using balD(1) by (metis distinct_map)

lemma same_path: "bal N K X s \<Longrightarrow> p \<in> set (io_paths s) \<Longrightarrow> q \<in> set (io_paths s) \<Longrightarrow> pa_at p = pa_at q \<Longrightarrow> p = q"
  using balD(1) by (metis distinct_map inj_onD)

lemma open_count_small: "bal N K X s \<Longrightarrow> d \<in> set (io_devs s) \<Longrightarrow> dv_open_count d < 65534"
  using balD(8) [of N K X s d] balD(3) [of N K X s] length_filter_le [of "counts X d" "io_paths s"] by linarith

lemma bal_count:
  assumes b: "bal N K X s" and p: "p \<in> set (io_paths s)" "pa_at p \<in> X" and d: "d \<in> set (io_devs s)" "pa_dev p = dv_name d" "\<not> stale p d"
  shows "bal N K (X - {pa_at p}) (upd_dev (dv_name d) count_open s)"
proof (rule bal_devs [OF b _ _ upd_dev_map [OF b]])
  fix x assume x: "x \<in> set (io_devs s)"
  let ?x = "if dv_name x = dv_name d then count_open x else x"
  have c: "counts Y (count_open x) = counts Y x" for Y by (auto simp: counts_def [abs_def] stale_def count_open_def)
  have "dv_open_count ?x = length (filter (counts (X - {pa_at p}) x) (io_paths s))"
  proof (cases "dv_name x = dv_name d")
    case True
    then have xd: "x = d" using balD(2) [OF b] x d(1) by (metis distinct_map inj_onD)
    have "length (filter (counts (X - {pa_at p}) d) (io_paths s)) = Suc (length (filter (counts X d) (io_paths s)))"
      by (rule length_filter_add [OF paths_distinct [OF b] p(1)]) (use p d same_path [OF b] in \<open>auto simp: counts_def\<close>)
    then show ?thesis using balD(8) [OF b d(1)] open_count_small [OF b d(1)] xd by (simp add: count_open_def)
  next
    case False
    have "filter (counts (X - {pa_at p}) x) (io_paths s) = filter (counts X x) (io_paths s)"
      using False d(2) same_path [OF b _ p(1)] by (intro filter_cong) (force simp: counts_def)+
    then show ?thesis using balD(8) [OF b x] False by simp
  qed
  then show "dv_name ?x = dv_name x \<and> dv_session x \<le> dv_session ?x \<and> dv_session ?x \<le> N \<and>
      dv_open_count ?x = length (filter (counts (X - {pa_at p}) ?x) (io_paths s))"
    using balD(6) [OF b x] c by (simp add: count_open_def)
qed (simp_all add: upd_dev_def)

lemma bal_uncount:
  assumes b: "bal N K X s" and p: "p \<in> set (io_paths s)" "pa_at p \<notin> X" and d: "d \<in> set (io_devs s)" "pa_dev p = dv_name d" "\<not> stale p d"
  shows "bal N K (insert (pa_at p) X) (upd_dev (dv_name d) uncount s)"
proof (rule bal_devs [OF b _ _ upd_dev_map [OF b]])
  fix x assume x: "x \<in> set (io_devs s)"
  let ?x = "if dv_name x = dv_name d then uncount x else x" and ?X = "insert (pa_at p) X"
  have c: "counts Y (uncount x) = counts Y x" "dv_name (uncount x) = dv_name x" "dv_session (uncount x) = dv_session x" for Y
    by (auto simp: counts_def [abs_def] stale_def uncount_def)
  have "dv_open_count ?x = length (filter (counts ?X x) (io_paths s))"
  proof (cases "dv_name x = dv_name d")
    case True
    then have xd: "x = d" using balD(2) [OF b] x d(1) by (metis distinct_map inj_onD)
    have "length (filter (counts X d) (io_paths s)) = Suc (length (filter (counts ?X d) (io_paths s)))"
      by (rule length_filter_add [OF paths_distinct [OF b] p(1)]) (use p d same_path [OF b] in \<open>auto simp: counts_def\<close>)
    then show ?thesis using balD(8) [OF b d(1)] xd by (simp add: uncount_def)
  next
    case False
    have "filter (counts ?X x) (io_paths s) = filter (counts X x) (io_paths s)"
      using False d(2) same_path [OF b _ p(1)] by (intro filter_cong) (force simp: counts_def)+
    then show ?thesis using balD(8) [OF b x] False by simp
  qed
  then show "dv_name ?x = dv_name x \<and> dv_session x \<le> dv_session ?x \<and> dv_session ?x \<le> N \<and>
      dv_open_count ?x = length (filter (counts ?X ?x) (io_paths s))"
    using balD(6) [OF b x] c by simp
qed (simp_all add: upd_dev_def)

section \<open>References\<close>

lemma bal_refs:
  assumes b: "bal N K X s" and a: "a \<in># K" "\<And>x. x \<noteq> a \<Longrightarrow> count K' x = count K x" "0 < count K' a"
    and h: "\<And>p. p \<in> set (io_paths s) \<Longrightarrow> pa_at p = a \<Longrightarrow> h p = count K' a"
  shows "bal N K' X (upd_path a (\<lambda>p. p\<lparr>pa_refs := h p\<rparr>) s)"
proof -
  let ?g = "\<lambda>p. if pa_at p = a then p\<lparr>pa_refs := h p\<rparr> else p" and ?t = "upd_path a (\<lambda>p. p\<lparr>pa_refs := h p\<rparr>) s"
  have t: "io_paths ?t = map ?g (io_paths s)" unfolding upd_path_def by (simp add: upd_first_map [OF balD(1) [OF b]])
  have o: "io_devs ?t = io_devs s" "io_claims ?t = io_claims s" by (simp_all add: upd_path_def)
  have g: "pa_at (?g p) = pa_at p" "claim_of (?g p) = claim_of p" "counts Y d (?g p) = counts Y d p" for p Y d
    by (simp_all add: claim_of_def counts_def stale_def)
  show ?thesis
  proof (rule balI)
    fix p assume "p \<in> set (io_paths ?t)"
    then obtain q where q: "q \<in> set (io_paths s)" "p = ?g q" by (auto simp: t)
    have "pa_refs p = count K' (pa_at p) \<and> 0 < pa_refs p"
    proof (cases "pa_at q = a")
      case True
      then show ?thesis using q h [OF q(1)] a(3) by simp
    next
      case False
      then show ?thesis using q balD(4) [OF b q(1)] a(2) unfolding path_bal_def by auto
    qed
    moreover have "pa_mode p = pa_mode q" "pa_dev p = pa_dev q" "pa_session p = pa_session q" "pa_claim p = pa_claim q" "claim_of p = claim_of q"
      using q(2) by (simp_all add: claim_of_def)
    ultimately show "path_bal K' ?t p" using balD(4) [OF b q(1)] unfolding path_bal_def o by metis
  next
    have "x \<in># K" if "x \<in># K'" for x using that a(1) a(2) [of x] by (metis count_eq_zero_iff)
    then have "set_mset K' \<subseteq> set_mset K" by (rule subsetI)
    from subset_trans [OF this balD(5) [OF b]] have sub: "set_mset K' \<subseteq> pa_at ` set (io_paths s)" .
    have "map pa_at (map ?g xs) = map pa_at xs" for xs by (induction xs) simp_all
    then have "map pa_at (io_paths ?t) = map pa_at (io_paths s)" unfolding t .
    then have "set (map pa_at (io_paths ?t)) = set (map pa_at (io_paths s))" by (rule arg_cong)
    then have "pa_at ` set (io_paths ?t) = pa_at ` set (io_paths s)" by (simp only: set_map)
    then show "set_mset K' \<subseteq> pa_at ` set (io_paths ?t)" using sub by simp
  next
    fix d assume "d \<in> set (io_devs ?t)"
    then show "dv_session d \<le> N \<and> CHR 0x00 \<notin> set (dv_name d) \<and> dv_open_count d = length (filter (counts X d) (io_paths ?t))"
      using balD(6-8) [OF b, of d] by (simp add: o t filter_map comp_def g)
  qed (use balD [OF b] in \<open>simp_all add: t o comp_def g\<close>)
qed

lemma refs_count: "bal N K X s \<Longrightarrow> p \<in> set (io_paths s) \<Longrightarrow> pa_refs p = count K (pa_at p)"
  using balD(4) unfolding path_bal_def by blast

lemma bal_share:
  assumes b: "bal N K X s" and a: "a \<in># K" and small: "size K < UINT32_MAX"
  shows "bal N (add_mset a K) X (upd_path a (\<lambda>p. p\<lparr>pa_refs := cast32 (pa_refs p + 1)\<rparr>) s)"
proof (rule bal_refs [OF b a])
  fix p assume p: "p \<in> set (io_paths s)" "pa_at p = a"
  have "count K a \<le> size K" by (simp add: count_le_size)
  then show "cast32 (pa_refs p + 1) = count (add_mset a K) a" using refs_count [OF b p(1)] p(2) small by simp
qed simp_all

lemma bal_unshare:
  assumes b: "bal N K X s" and a: "1 < count K a"
  shows "bal N (K - {#a#}) X (upd_path a (\<lambda>p. p\<lparr>pa_refs := count K a - 1\<rparr>) s)"
  by (rule bal_refs [OF b]) (use a in \<open>auto simp: count_inI\<close>)

lemma mset_map_remove1: "x \<in> set xs \<Longrightarrow> mset (map f (remove1 x xs)) = mset (remove1 (f x) (map f xs))"
  by (simp add: image_mset_Diff)

lemma bal_free:
  assumes b: "bal N K X s" and p: "find_path a s = Some p" "count K a = 1"
    and out: "a \<in> X \<or> (\<exists>d\<in>set (io_devs s). dv_name d = pa_dev p \<and> stale p d)"
  shows "bal N (K - {#a#}) (X - {a}) (path_free a s)"
proof -
  let ?t = "path_free a s" and ?H = "map claim_of (io_paths s)"
  have pp: "p \<in> set (io_paths s)" "pa_at p = a" using find_path_Some [OF p(1)] by simp_all
  have c: "pa_claim p = Some (claim_of p)" using balD(4) [OF b pp(1)] by (auto simp: path_bal_def claim_of_def)
  have t: "io_paths ?t = remove1 p (io_paths s)" "io_devs ?t = io_devs s"
    "io_claims ?t = (io_claims s)\<lparr>cs_claims := drop_locked (claim_of p) (cs_claims (io_claims s))\<rparr>"
    using p(1) c balD(9) [OF b] by (simp_all add: path_free_def rv9_claim_drop_def)
  have sub: "set (io_paths ?t) \<subseteq> set (io_paths s)" unfolding t by (rule set_remove1_subset)
  have left: "q \<in> set (io_paths ?t) \<longleftrightarrow> q \<in> set (io_paths s) \<and> q \<noteq> p" for q
    unfolding t using paths_distinct [OF b] by simp
  then have na: "pa_at q \<noteq> a" if "q \<in> set (io_paths ?t)" for q using that same_path [OF b _ pp(1)] pp(2) by auto
  have ok: "claims_ok (map claim_of (io_paths ?t)) (cs_claims (io_claims ?t))"
  proof -
    have "claims_ok (remove1 (claim_of p) ?H) (drop_locked (claim_of p) (cs_claims (io_claims s)))"
      by (rule ok_close [OF balD(10) [OF b]]) (use pp in simp)
    then show ?thesis using claims_ok_mset [OF mset_map_remove1 [OF pp(1), of claim_of]] unfolding t by simp
  qed
  show ?thesis
  proof (rule balI)
    show "distinct (map pa_at (io_paths ?t))" unfolding t using balD(1) [OF b] by (auto simp: distinct_map inj_on_def)
    show "distinct (map dv_name (io_devs ?t))" unfolding t by (rule balD(2) [OF b])
    have "length (io_paths ?t) \<le> length (io_paths s)" unfolding t by (simp add: length_remove1)
    then show "length (io_paths ?t) < 65534" using balD(3) [OF b] by simp
    show "cs_up (io_claims ?t)" using balD(9) [OF b] unfolding t by simp
    show "set_mset (K - {#a#}) \<subseteq> pa_at ` set (io_paths ?t)"
    proof
      fix x assume x: "x \<in># K - {#a#}"
      then have "x \<in># K" "x \<noteq> a" using p(2) by (auto dest: in_diffD simp: count_greater_zero_iff [symmetric] simp del: count_greater_zero_iff)
      then obtain q where "q \<in> set (io_paths s)" "pa_at q = x" using balD(5) [OF b] by auto
      then show "x \<in> pa_at ` set (io_paths ?t)" using left pp(2) \<open>x \<noteq> a\<close> by auto
    qed
    fix q assume q: "q \<in> set (io_paths ?t)"
    have "claim_of q \<in> cl_at ` set (cs_claims (io_claims ?t))" using ok q by (auto simp: claims_ok_def)
    then show "path_bal (K - {#a#}) ?t q"
      using q left na [OF q] by (intro path_bal_claims [OF balD(4) [OF b] balD(10) [OF b]]) (auto simp: t dest: from_drop)
  next
    fix d assume d: "d \<in> set (io_devs ?t)"
    then have ds: "d \<in> set (io_devs s)" by (simp add: t)
    have "\<not> counts X d p"
    proof
      assume cp: "counts X d p"
      then obtain e where "e \<in> set (io_devs s)" "dv_name e = pa_dev p" "stale p e" using out pp(2) by (auto simp: counts_def)
      moreover from this have "e = d" using balD(2) [OF b] ds cp by (metis counts_def distinct_map inj_onD)
      ultimately show False using cp by (simp add: counts_def)
    qed
    then have "filter (counts X d) (io_paths s) = filter (counts X d) (io_paths ?t)" unfolding t by (simp add: filter_remove1)
    also have "\<dots> = filter (counts (X - {a}) d) (io_paths ?t)" using na by (intro filter_cong) (auto simp: counts_def)
    finally show "dv_session d \<le> N \<and> CHR 0x00 \<notin> set (dv_name d) \<and> dv_open_count d = length (filter (counts (X - {a}) d) (io_paths ?t))"
      using balD(6-8) [OF b ds] by simp
  qed (rule ok)
qed

lemma find_path_devs [simp]: "find_path a (upd_dev n f s) = find_path a s" "find_path a (tell_io cs s) = find_path a s"
  by (simp_all add: find_path_def upd_dev_def tell_io_def)

lemma tables_kept [simp]: "io_tables (upd_dev n f s) = io_tables s" "io_tables (tell_io cs s) = io_tables s"
    "io_tables (upd_path a g s) = io_tables s" "io_tables (path_free a s) = io_tables s" "io_tables (dev_last_close n s) = io_tables s"
  by (simp_all add: upd_dev_def tell_io_def upd_path_def path_free_def dev_last_close_def split: option.split)

lemma bal_release:
  assumes b: "bal N K {} s" and a: "a \<in># K" and small: "size K < W32" and st: "path_release (Some a) s = (t, i)"
  shows "bal N (K - {#a#}) {} t \<and> io_tables t = io_tables s"
proof -
  obtain p where p: "find_path a s = Some p" "p \<in> set (io_paths s)" "pa_at p = a" by (rule handle_path [OF b a])
  obtain d where d: "find_dev (pa_dev p) s = Some d" "d \<in> set (io_devs s)" "dv_name d = pa_dev p" by (rule path_device [OF b p(2)])
  have r: "pa_refs p = count K a" "0 < count K a" using refs_count [OF b p(2)] p(3) a by simp_all
  have "count K a \<le> size K" by (simp add: count_le_size)
  then have c: "cast32 (pa_refs p + UINT32_MAX) = count K a - 1"
    using r small unfolding cast32_def by (cases "count K a") (simp_all add: mod_if)
  show ?thesis
  proof (cases "count K a = 1")
    case False
    then have "1 < count K a" using r(2) by linarith
    then show ?thesis using st p c bal_unshare [OF b, of a] by (simp add: path_release_def Let_def) auto
  next
    case one: True
    let ?s1 = "if fm_close (dv_fmgr d) then tell_io [FmClose a] s else s"
    have b1: "bal N K {} ?s1" using b by simp
    have s1: "find_path a ?s1 = Some p" "io_paths ?s1 = io_paths s" "io_devs ?s1 = io_devs s" "io_tables ?s1 = io_tables s"
      using p(1) by (simp_all add: tell_io_def find_path_def)
    show ?thesis
    proof (cases "stale p d")
      case True
      have "t = path_free a ?s1" using st p(1) c one d(1) True by (auto simp: path_release_def Let_def p(3))
      moreover have "\<exists>e\<in>set (io_devs ?s1). dv_name e = pa_dev p \<and> stale p e" using True d s1(3) by metis
      then have "bal N (K - {#a#}) ({} - {a}) (path_free a ?s1)" by (intro bal_free [OF b1 s1(1) one] disjI2)
      ultimately show ?thesis using s1(4) by simp
    next
      case False
      have t: "t = path_free a (upd_dev (dv_name d) uncount ?s1)" using st p(1) c one d(1) False by (auto simp: path_release_def Let_def p(3))
      have "bal N K {a} (upd_dev (dv_name d) uncount ?s1)"
        using bal_uncount [OF b1, of p d] p d False s1 by simp
      moreover have "find_path a (upd_dev (dv_name d) uncount ?s1) = Some p" using s1(1) by simp
      ultimately show ?thesis using bal_free [of N K "{a}" _ a p] one t s1(4) by simp
    qed
  qed
qed

lemma bal_hangup:
  assumes b: "bal N K {} s" and d: "find_dev (pa_dev p) s = Some d" and N: "Suc N < W32" and st: "hangup_begin p d s = (t, r)"
  shows "bal (Suc N) K {} t \<and> io_tables t = io_tables s"
proof (cases "dr_open (dv_drv d) \<and> pa_session p = dv_session d \<and> dv_open_count d > 0 \<and> \<not> dv_hanging d")
  case True
  let ?f = "\<lambda>d. d\<lparr>dv_hanging := True, dv_session := cast32 (dv_session d + 1), dv_open_count := 0\<rparr>"
  let ?t = "upd_dev (dv_name d) ?f s"
  have dd: "d \<in> set (io_devs s)" using find_dev_Some [OF d] by simp
  have "bal (Suc N) K {} ?t"
  proof (rule bal_devs [OF b _ _ upd_dev_map [OF b]])
    fix x assume x: "x \<in> set (io_devs s)"
    let ?x = "if dv_name x = dv_name d then ?f x else x"
    have sx: "dv_session x \<le> N" by (rule balD(6) [OF b x])
    have "dv_open_count ?x = length (filter (counts {} ?x) (io_paths s))"
    proof (cases "dv_name x = dv_name d")
      case same: True
      then have xd: "x = d" using balD(2) [OF b] x dd by (metis distinct_map inj_onD)
      have "\<not> counts {} (?f d) q" if q: "q \<in> set (io_paths s)" for q
      proof
        assume cq: "counts {} (?f d) q"
        obtain e where e: "e \<in> set (io_devs s)" "dv_name e = pa_dev q" "pa_session q \<le> dv_session e" by (rule path_device [OF b q])
        have "pa_dev q = dv_name d" using cq by (simp add: counts_def)
        then have "e = d" using balD(2) [OF b] e(1,2) dd by (metis distinct_map inj_onD)
        then show False using cq e(3) sx xd N True by (auto simp: counts_def stale_def)
      qed
      then have "filter (counts {} (?f d)) (io_paths s) = []" by (simp add: filter_empty_conv)
      then show ?thesis using same xd by simp
    next
      case False
      then show ?thesis using balD(8) [OF b x] by simp
    qed
    then show "dv_name ?x = dv_name x \<and> dv_session x \<le> dv_session ?x \<and> dv_session ?x \<le> Suc N \<and>
        dv_open_count ?x = length (filter (counts {} ?x) (io_paths s))"
      using sx N by simp
  qed (simp_all add: upd_dev_def)
  then show ?thesis using st True by (auto simp: hangup_begin_def Let_def split: if_splits)
next
  case False
  have "bal (Suc N) K {} s" by (rule bal_devs [OF b, of s id]) (use balD(6,8) [OF b] in \<open>auto intro: le_SucI\<close>)
  then show ?thesis using st False by (auto simp: hangup_begin_def split: if_splits)
qed

section \<open>Tables\<close>

definition opts :: "nat option list \<Rightarrow> nat multiset" where
  "opts xs = mset (map the (filter (\<lambda>x. x \<noteq> None) xs))"

definition held_by :: "iosys \<Rightarrow> nat multiset" where
  "held_by s = sum_list (map (\<lambda>t. opts (pp_paths t)) (io_tables s))"

definition tabs_ok :: "iosys \<Rightarrow> bool" where
  "tabs_ok s \<longleftrightarrow> distinct (map pp_pid (io_tables s)) \<and> (\<forall>t\<in>set (io_tables s). length (pp_paths t) = RV9_MAX_PATHS)"

lemma opts_simps [simp]: "opts [] = {#}" "opts (None # xs) = opts xs" "opts (Some a # xs) = add_mset a (opts xs)" "opts (replicate n None) = {#}"
  by (simp_all add: opts_def)

lemma opts_update: "i < length xs \<Longrightarrow> opts (xs[i := v]) + opts [xs ! i] = opts xs + opts [v]"
proof (induction xs arbitrary: i)
  case (Cons x xs)
  show ?case
  proof (cases i)
    case 0
    then show ?thesis by (cases x; cases v) simp_all
  next
    case (Suc j)
    then show ?thesis using Cons by (cases x) simp_all
  qed
qed simp

lemma opts_nth: "i < length xs \<Longrightarrow> xs ! i = Some a \<Longrightarrow> a \<in># opts xs"
  by (force simp: opts_def image_iff in_set_conv_nth)

lemma find_table_Some: "find_table pid s = Some t \<Longrightarrow> t \<in> set (io_tables s) \<and> pp_pid t = pid"
  by (auto simp: find_table_def find_Some_iff)

lemma table_opts: "t \<in> set (io_tables s) \<Longrightarrow> opts (pp_paths t) \<subseteq># held_by s"
  unfolding held_by_def by (metis mset_subset_eq_add_left sum_list_map_remove1)

lemma slot_held:
  assumes "tabs_ok s" "slot_of pid i s = Some a"
  shows "a \<in># held_by s"
proof -
  obtain t where t: "find_table pid s = Some t" "i < RV9_MAX_PATHS" "pp_paths t ! i = Some a"
    using assms(2) by (auto simp: slot_of_def split: option.splits if_splits)
  have m: "t \<in> set (io_tables s)" using find_table_Some [OF t(1)] by simp
  then have "a \<in># opts (pp_paths t)" using opts_nth t assms(1) by (simp add: tabs_ok_def)
  then show ?thesis using table_opts [OF m] mset_subset_eqD by metis
qed

lemma set_slot_tabs [simp]: "tabs_ok s \<Longrightarrow> tabs_ok (set_slot pid i v s)"
proof -
  assume t: "tabs_ok s"
  have m: "upd_first (\<lambda>t. pp_pid t = pid) f ts = map (\<lambda>t. if pp_pid t = pid then f t else t) ts" if "distinct (map pp_pid ts)" for ts f
    by (rule upd_first_map [OF that])
  have "map pp_pid (map (\<lambda>t. if pp_pid t = pid then t\<lparr>pp_paths := (pp_paths t)[i := v]\<rparr> else t) (io_tables s)) = map pp_pid (io_tables s)" by simp
  then show ?thesis using t by (auto simp: tabs_ok_def set_slot_def m simp del: map_map)
qed

lemma held_set_slot:
  assumes t: "tabs_ok s" "find_table pid s = Some x" and i: "i < RV9_MAX_PATHS"
  shows "held_by (set_slot pid i v s) + opts [pp_paths x ! i] = held_by s + opts [v]"
proof -
  have d: "distinct (map pp_pid (io_tables s))" "length (pp_paths x) = RV9_MAX_PATHS" "x \<in> set (io_tables s)" "pp_pid x = pid"
    using t find_table_Some [OF t(2)] by (auto simp: tabs_ok_def)
  have "sum_list (map (\<lambda>t. opts (pp_paths t)) (upd_first (\<lambda>t. pp_pid t = pid) (\<lambda>t. t\<lparr>pp_paths := (pp_paths t)[i := v]\<rparr>) ts)) + opts [pp_paths x ! i] =
      sum_list (map (\<lambda>t. opts (pp_paths t)) ts) + opts [v]" if "find (\<lambda>t. pp_pid t = pid) ts = Some x" for ts
    using that
  proof (induction ts)
    case (Cons y ts)
    then show ?case using opts_update [of i "pp_paths x" v] i d(2) by (auto simp: algebra_simps split: if_splits)
  qed simp
  then show ?thesis using t(2) by (simp add: held_by_def set_slot_def find_table_def)
qed

end
