(* ===== verification/IoSteps.thy ===== *)
theory IoSteps
  imports IoProps
begin

text \<open>
  The operations of the I/O manager keep its counts, so every run does. \<open>D\<close> is the multiset of paths
  drivers hold; an open counts as one operation, whatever driver and file manager answer.
\<close>

section \<open>Each operation\<close>

definition io_inv :: "nat \<Rightarrow> nat \<Rightarrow> iosys \<Rightarrow> nat multiset \<Rightarrow> bool" where
  "io_inv N M s D \<longleftrightarrow> bal N (held_by s + D) {} s \<and> tabs_ok s \<and> size (held_by s + D) \<le> M"

lemma io_invD: "io_inv N M s D \<Longrightarrow> bal N (held_by s + D) {} s" "io_inv N M s D \<Longrightarrow> tabs_ok s"
    "io_inv N M s D \<Longrightarrow> size (held_by s + D) \<le> M"
  by (simp_all add: io_inv_def)

lemma held_same: "io_tables t = io_tables s \<Longrightarrow> held_by t = held_by s"
  by (simp add: held_by_def)

lemma held_kept [simp]: "held_by (upd_dev n f s) = held_by s" "held_by (tell_io cs s) = held_by s" "held_by (upd_path a g s) = held_by s"
    "held_by (path_free a s) = held_by s" "held_by (dev_last_close n s) = held_by s"
  by (simp_all add: held_by_def)

lemma last_close_same [simp]: "io_paths (dev_last_close n s) = io_paths s" "io_devs (dev_last_close n s) = io_devs s"
    "io_claims (dev_last_close n s) = io_claims s"
  by (simp_all add: dev_last_close_def tell_io_def split: option.split)

lemma tabs_kept [simp]: "tabs_ok (upd_dev n f s) = tabs_ok s" "tabs_ok (tell_io cs s) = tabs_ok s" "tabs_ok (upd_path a g s) = tabs_ok s"
    "tabs_ok (path_free a s) = tabs_ok s" "tabs_ok (dev_last_close n s) = tabs_ok s"
  by (simp_all add: tabs_ok_def)

lemma tabs_same: "io_tables t = io_tables s \<Longrightarrow> tabs_ok t = tabs_ok s"
  by (simp add: tabs_ok_def)

lemma io_inv_mono: "io_inv N M s D \<Longrightarrow> M \<le> M' \<Longrightarrow> io_inv N M' s D"
  by (simp add: io_inv_def)

lemma io_inv_tell [simp]: "io_inv N M (tell_io cs s) D = io_inv N M s D"
  by (simp add: io_inv_def)

lemma io_inv_last_closes [simp]: "io_inv N M (last_closes ds s) D = io_inv N M s D"
proof -
  have "io_inv N M (dev_last_close d s) D = io_inv N M s D" for d s by (simp add: dev_last_close_def split: option.split)
  then show ?thesis unfolding last_closes_def by (induction ds arbitrary: s) simp_all
qed

lemma table_for_ok:
  assumes i: "io_inv N M s D" and t: "table_for pid c room s = (s1, x)"
  shows "io_inv N M s1 D \<and> held_by s1 = held_by s \<and> io_devs s1 = io_devs s \<and> io_paths s1 = io_paths s \<and> io_claims s1 = io_claims s \<and>
    (\<forall>y. x = Some y \<longrightarrow> find_table pid s1 = Some y)"
proof (cases "find_table pid s = None \<and> c \<and> room")
  case True
  let ?y = "\<lparr>pp_pid = pid, pp_paths = replicate RV9_MAX_PATHS None\<rparr>"
  have s1: "s1 = s\<lparr>io_tables := ?y # io_tables s\<rparr>" "x = Some ?y" using t True by (simp_all add: table_for_def Let_def)
  have "pid \<notin> pp_pid ` set (io_tables s)" using True by (auto simp: find_table_def find_None_iff)
  then have "tabs_ok s1" using io_invD(2) [OF i] by (simp add: s1 tabs_ok_def)
  moreover have "held_by s1 = held_by s" by (simp add: s1 held_by_def)
  moreover have "bal N K {} s1 = bal N K {} s" for K by (simp add: s1)
  ultimately show ?thesis using i by (simp add: io_inv_def s1 find_table_def)
next
  case False
  then show ?thesis using i t by (auto simp: table_for_def split: option.splits if_splits)
qed

lemma find_same: "io_devs t = io_devs s \<Longrightarrow> find_dev n t = find_dev n s" "io_paths t = io_paths s \<Longrightarrow> find_path a t = find_path a s"
  by (simp_all add: find_dev_def find_path_def)

lemma both_open_tells: "both_open env fo a d rest mode s = (t, e) \<Longrightarrow> \<exists>cs. t = tell_io cs s"
proof -
  assume b: "both_open env fo a d rest mode s = (t, e)"
  have n: "tell_io [] s = s" and a: "tell_io xs (tell_io ys s) = tell_io (ys @ xs) s" for xs ys s by (simp_all add: tell_io_def)
  have "t = s \<or> t = tell_io [DrvOpen (dv_name d) mode] s \<or> t = tell_io [FmOpen a rest] s \<or> t = tell_io [FmOpen a rest] (tell_io [DrvOpen (dv_name d) mode] s)"
    using b by (auto simp: both_open_def dev_first_open_def path_open_def split: if_splits)
  then show ?thesis using n a by metis
qed

text \<open>The two ends of a new path: counted in its device, or taken down again.\<close>

lemma counted_new:
  assumes b: "bal N K X s" and d: "d \<in> set (io_devs s)" and n: "bal N (add_mset a K) (insert a X) t" "a \<notin> X" "io_devs t = io_devs s"
    and p: "io_paths t = p # io_paths s" "pa_at p = a" "pa_dev p = dv_name d" "pa_session p = dv_session d"
  shows "bal N (add_mset a K) X (upd_dev (dv_name d) count_open t)"
proof -
  have "bal N (add_mset a K) (insert a X - {pa_at p}) (upd_dev (dv_name d) count_open t)"
    by (rule bal_count [OF n(1)]) (use p d n(3) in \<open>auto simp: stale_def\<close>)
  then show ?thesis using n(2) p(2) by simp
qed

lemma fresh_count: "bal N K X s \<Longrightarrow> a \<notin> pa_at ` set (io_paths s) \<Longrightarrow> count (add_mset a K) a = 1"
proof -
  assume "bal N K X s" "a \<notin> pa_at ` set (io_paths s)"
  then have "a \<notin># K" using balD(5) by blast
  then show ?thesis by (simp add: not_in_iff)
qed

lemma undone_new:
  assumes b: "bal N (add_mset a K) {} t" and one: "count (add_mset a K) a = 1"
    and p: "p \<in> set (io_paths t)" "pa_at p = a" "d \<in> set (io_devs t)" "pa_dev p = dv_name d" "\<not> stale p d"
  shows "bal N K {} (open_undo fo a (dv_name d) t) \<and> io_tables (open_undo fo a (dv_name d) t) = io_tables t"
proof -
  let ?s = "if fo then dev_last_close (dv_name d) t else t"
  have s: "bal N (add_mset a K) {} ?s" "io_paths ?s = io_paths t" "io_devs ?s = io_devs t" "io_tables ?s = io_tables t"
    using b by simp_all
  have u: "bal N (add_mset a K) {a} (upd_dev (dv_name d) uncount ?s)"
    using bal_uncount [OF s(1), of p d] p s by simp
  have "find_path a t = Some p" using find_path_mem [OF b p(1)] p(2) by simp
  then have "find_path a (upd_dev (dv_name d) uncount ?s) = Some p" by (simp add: find_path_def upd_dev_def)
  from bal_free [OF u this one] show ?thesis using s(4) by (simp add: open_undo_def)
qed

lemma split_rest: "CHR 0x00 \<notin> set nm \<Longrightarrow> CHR 0x00 \<notin> set (snd (split_path nm))"
  by (auto simp: split_path_def split: list.split dest!: in_set_dropD set_dropWhileD)

lemma find_table_slot: "find_table pid (set_slot pid i v s) = map_option (\<lambda>t. t\<lparr>pp_paths := (pp_paths t)[i := v]\<rparr>) (find_table pid s)"
proof -
  have "find (\<lambda>t. pp_pid t = pid) (upd_first (\<lambda>t. pp_pid t = pid) (\<lambda>t. t\<lparr>pp_paths := (pp_paths t)[i := v]\<rparr>) ts) =
      map_option (\<lambda>t. t\<lparr>pp_paths := (pp_paths t)[i := v]\<rparr>) (find (\<lambda>t. pp_pid t = pid) ts)" for ts by (induction ts) auto
  then show ?thesis by (simp add: find_table_def set_slot_def)
qed

lemma find_table_kept [simp]: "find_table pid (upd_dev n f s) = find_table pid s" "find_table pid (tell_io cs s) = find_table pid s"
    "find_table pid (upd_path a g s) = find_table pid s" "find_table pid (dev_last_close n s) = find_table pid s"
  by (simp_all add: find_table_def)

lemma open_ok:
  assumes i: "io_inv N M s D" and nul: "CHR 0x00 \<notin> set nm" and env: "env_ok env s" and st: "rv9_io_open env pid (Some nm) mode s = (t, r)"
  shows "io_inv N (Suc M) t D"
proof -
  have keep: "io_inv N (Suc M) s D" by (rule io_inv_mono [OF i]) simp
  show ?thesis
  proof (cases "mode AND RV9_MODE_RW = 0 \<or> find_dev (fst (split_path nm)) s = None \<or> dev_open_refused (the (find_dev (fst (split_path nm)) s))")
    case True
    then have "t = s" using st by (auto simp: rv9_io_open_def rv9_io_open_begin_def split: option.splits if_splits)
    then show ?thesis using keep by simp
  next
    case False
    then obtain d where d: "find_dev (fst (split_path nm)) s = Some d" "mode AND RV9_MODE_RW \<noteq> 0" "\<not> dev_open_refused d" by auto
    obtain s1 x where x: "table_for pid True (ie_table env) s = (s1, x)" by (metis surj_pair)
    note tf = table_for_ok [OF i x]
    have i1: "io_inv N M s1 D" using tf by simp
    have keep1: "io_inv N (Suc M) s1 D" by (rule io_inv_mono [OF i1]) simp
    have d1: "d \<in> set (io_devs s1)" "find_dev (fst (split_path nm)) s1 = Some d" "dv_name d = fst (split_path nm)"
      using find_dev_Some [OF d(1)] tf d(1) by (auto simp: find_dev_def)
    have env1: "env_ok env s1" using env tf by (simp add: env_ok_def)
    show ?thesis
    proof (cases "x = None \<or> find (\<lambda>i. pp_paths (the x) ! i = None) [0..<RV9_MAX_PATHS] = None")
      case True
      then have "t = s1" using st d x by (auto simp: rv9_io_open_def rv9_io_open_begin_def split: option.splits if_splits)
      then show ?thesis using keep1 by simp
    next
      case False
      then obtain y num where y: "x = Some y" "find (\<lambda>i. pp_paths y ! i = None) [0..<RV9_MAX_PATHS] = Some num" by auto
      have num: "num < RV9_MAX_PATHS" "pp_paths y ! num = None" using y(2) by (auto simp: find_Some_iff)
      have fy: "find_table pid s1 = Some y" using tf y(1) by simp
      obtain s2 q where q: "path_new env d (snd (split_path nm)) mode pid s1 = (s2, q)" by (metis surj_pair)
      note bn = bal_new [OF io_invD(1) [OF i1] d1(1) split_rest [OF nul] env1 q]
      show ?thesis
      proof (cases q)
        case (Inl e)
        then have "t = s2" using st d x y q by (simp add: rv9_io_open_def rv9_io_open_begin_def)
        moreover have "io_inv N (Suc M) s2 D" using bn Inl keep1 by (simp add: io_inv_def tabs_same [of s2 s1] held_same [of s2 s1])
        ultimately show ?thesis by simp
      next
        case (Inr a)
        let ?K = "held_by s1 + D"
        obtain p where p: "io_paths s2 = p # io_paths s1" "pa_at p = a" "pa_dev p = dv_name d" "pa_session p = dv_session d"
          and b2: "bal N (add_mset a ?K) {a} s2" and fr: "a \<notin> pa_at ` set (io_paths s1)" and same: "io_devs s2 = io_devs s1" "io_tables s2 = io_tables s1"
          using bn Inr by auto
        let ?s3 = "upd_dev (dv_name d) count_open (set_slot pid num (Some a) s2)"
        have t2: "tabs_ok s2" "find_table pid s2 = Some y" using io_invD(2) [OF i1] same(2) fy by (simp_all add: tabs_same [of s2 s1] find_table_def)
        have h3: "held_by ?s3 = add_mset a (held_by s1)"
          using held_set_slot [OF t2 num(1), of "Some a"] num(2) held_same [OF same(2)] by simp
        have b3: "bal N (add_mset a ?K) {} ?s3"
        proof (rule counted_new [OF io_invD(1) [OF i1] d1(1)])
          show "bal N (add_mset a ?K) {a} (set_slot pid num (Some a) s2)" using b2 by simp
        qed (use p same in \<open>simp_all add: set_slot_def\<close>)
        have st': "rv9_io_open_end env pid nm mode (num, a, dv_open_count d = 0) ?s3 = (t, r)"
          using st d x y q Inr by (simp add: rv9_io_open_def rv9_io_open_begin_def)
        have d3: "find_dev (fst (split_path nm)) ?s3 = Some (count_open d)"
        proof -
          have "d \<in> set (io_devs (set_slot pid num (Some a) s2))" using d1(1) same by (simp add: set_slot_def)
          then have "count_open d \<in> set (io_devs ?s3)"
            using upd_dev_map [of N "add_mset a ?K" "{a}" "set_slot pid num (Some a) s2" "dv_name d" count_open] b2 by force
          from find_dev_mem [OF b3 this] show ?thesis using d1(3) by (simp add: count_open_def)
        qed
        obtain s4 e where be: "both_open env (dv_open_count d = 0) a (count_open d) (snd (split_path nm)) mode ?s3 = (s4, e)" by (metis surj_pair)
        obtain cs where s4: "s4 = tell_io cs ?s3" using both_open_tells [OF be] by blast
        have tab3: "tabs_ok ?s3" using t2(1) by simp
        have size: "size (add_mset a ?K) \<le> Suc M" using io_invD(3) [OF i1] by simp
        show ?thesis
        proof (cases "e = RV9_IO_OK")
          case True
          then have "t = s4" using st' d3 be by (simp add: rv9_io_open_end_def)
          then show ?thesis using b3 h3 tab3 size by (simp add: s4 io_inv_def)
        next
          case False
          let ?s5 = "set_slot pid num None s4" and ?fo = "dv_open_count d = 0"
          have t: "t = open_undo ?fo a (dv_name (count_open d)) ?s5" using st' d3 be False by (simp add: rv9_io_open_end_def)
          have b5: "bal N (add_mset a ?K) {} ?s5" using b3 by (simp add: s4)
          have cd: "count_open d \<in> set (io_devs ?s5)" using find_dev_Some [OF d3] by (simp add: s4 set_slot_def tell_io_def)
          have "bal N ?K {} t \<and> io_tables t = io_tables ?s5" unfolding t
          proof (rule undone_new [OF b5 fresh_count [OF io_invD(1) [OF i1] fr] _ p(2) cd])
            show "p \<in> set (io_paths ?s5)" using p(1) by (simp add: s4 set_slot_def tell_io_def upd_dev_def)
            show "pa_dev p = dv_name (count_open d)" "\<not> stale p (count_open d)" using p(3,4) by (simp_all add: count_open_def stale_def)
          qed
          moreover have "held_by ?s5 = held_by s1"
          proof -
            have ft: "find_table pid s4 = Some (y\<lparr>pp_paths := (pp_paths y)[num := Some a]\<rparr>)"
              by (simp add: s4 find_table_slot t2(2))
            have "num < length (pp_paths y)" using num(1) io_invD(2) [OF i1] find_table_Some [OF fy] by (auto simp: tabs_ok_def)
            then show ?thesis
              using held_set_slot [OF _ ft num(1), of None] tab3 h3 by (simp add: tabs_same [of s4 ?s3] s4)
          qed
          moreover have "tabs_ok ?s5" using tab3 by (simp add: s4)
          ultimately show ?thesis using io_invD(3) [OF i1] by (simp add: io_inv_def tabs_same [of t ?s5] held_same [of t ?s5])
        qed
      qed
    qed
  qed
qed

lemma open_detached_ok:
  assumes i: "io_inv N M s D" and nul: "CHR 0x00 \<notin> set nm" and env: "env_ok env s" and st: "rv9_io_open_detached env (Some nm) mode s = (t, r)"
  shows "case r of Inl e \<Rightarrow> io_inv N (Suc M) t D | Inr a \<Rightarrow> io_inv N (Suc M) t (add_mset a D)"
proof -
  have keep: "io_inv N (Suc M) s D" by (rule io_inv_mono [OF i]) simp
  show ?thesis
  proof (cases "mode AND RV9_MODE_RW = 0 \<or> find_dev (fst (split_path nm)) s = None \<or> dev_open_refused (the (find_dev (fst (split_path nm)) s))")
    case True
    then have "t = s \<and> (\<exists>e. r = Inl e)"
      using st by (auto simp: rv9_io_open_detached_def rv9_io_open_detached_begin_def split: option.splits if_splits)
    then show ?thesis using keep by auto
  next
    case False
    then obtain d where d: "find_dev (fst (split_path nm)) s = Some d" "mode AND RV9_MODE_RW \<noteq> 0" "\<not> dev_open_refused d" by auto
    have dd: "d \<in> set (io_devs s)" "dv_name d = fst (split_path nm)" using find_dev_Some [OF d(1)] by simp_all
    obtain s2 q where q: "path_new env d (snd (split_path nm)) mode RV9_PID_NONE s = (s2, q)" by (metis surj_pair)
    note bn = bal_new [OF io_invD(1) [OF i] dd(1) split_rest [OF nul] env q]
    show ?thesis
    proof (cases q)
      case (Inl e)
      then have "t = s2" "r = Inl e" using st d q by (simp_all add: rv9_io_open_detached_def rv9_io_open_detached_begin_def)
      then show ?thesis using bn Inl keep by (simp add: io_inv_def tabs_same [of s2 s] held_same [of s2 s])
    next
      case (Inr a)
      let ?K = "held_by s + D" and ?s3 = "upd_dev (dv_name d) count_open s2" and ?fo = "dv_open_count d = 0"
      obtain p where p: "io_paths s2 = p # io_paths s" "pa_at p = a" "pa_dev p = dv_name d" "pa_session p = dv_session d"
        and b2: "bal N (add_mset a ?K) {a} s2" and fr: "a \<notin> pa_at ` set (io_paths s)" and same: "io_devs s2 = io_devs s" "io_tables s2 = io_tables s"
        using bn Inr by auto
      have b3: "bal N (add_mset a ?K) {} ?s3" by (rule counted_new [OF io_invD(1) [OF i] dd(1) b2 _ same(1) p]) simp
      have h3: "held_by ?s3 = held_by s" "tabs_ok ?s3" using held_same [OF same(2)] tabs_same [OF same(2)] io_invD(2) [OF i] by simp_all
      have d3: "find_dev (fst (split_path nm)) ?s3 = Some (count_open d)"
      proof -
        have "count_open d \<in> set (io_devs ?s3)" using upd_dev_map [OF b2, of "dv_name d" count_open] dd(1) same(1) by force
        from find_dev_mem [OF b3 this] show ?thesis using dd(2) by (simp add: count_open_def)
      qed
      obtain s4 e where be: "both_open env ?fo a (count_open d) (snd (split_path nm)) mode ?s3 = (s4, e)" by (metis surj_pair)
      obtain cs where s4: "s4 = tell_io cs ?s3" using both_open_tells [OF be] by blast
      have st': "rv9_io_open_detached_end env nm mode (a, ?fo) ?s3 = (t, r)"
        using st d q Inr by (simp add: rv9_io_open_detached_def rv9_io_open_detached_begin_def)
      show ?thesis
      proof (cases "e = RV9_IO_OK")
        case True
        then have "t = s4" "r = Inr a" using st' d3 be by (simp_all add: rv9_io_open_detached_end_def)
        then show ?thesis using b3 h3 io_invD(3) [OF i] by (simp add: s4 io_inv_def)
      next
        case False
        have t: "t = open_undo ?fo a (dv_name (count_open d)) s4" "r = Inl e" using st' d3 be False by (simp_all add: rv9_io_open_detached_end_def)
        have b4: "bal N (add_mset a ?K) {} s4" using b3 by (simp add: s4)
        have cd: "count_open d \<in> set (io_devs s4)" using find_dev_Some [OF d3] by (simp add: s4 tell_io_def)
        have "bal N ?K {} t \<and> io_tables t = io_tables s4" unfolding t(1)
        proof (rule undone_new [OF b4 fresh_count [OF io_invD(1) [OF i] fr] _ p(2) cd])
          show "p \<in> set (io_paths s4)" using p(1) by (simp add: s4 tell_io_def upd_dev_def)
          show "pa_dev p = dv_name (count_open d)" "\<not> stale p (count_open d)" using p(3,4) by (simp_all add: count_open_def stale_def)
        qed
        then show ?thesis using h3 io_invD(3) [OF i] t(2) by (simp add: io_inv_def tabs_same [of t s4] held_same [of t s4] s4)
      qed
    qed
  qed
qed

lemma close_path_ok:
  assumes i: "io_inv N M s (add_mset a D)" and M: "M < W32"
  shows "io_inv N M (rv9_io_close_path (Some a) s) D"
proof -
  obtain t x where st: "path_release (Some a) s = (t, x)" by (metis surj_pair)
  have "bal N (held_by s + D) {} t \<and> io_tables t = io_tables s"
    using bal_release [OF io_invD(1) [OF i] _ _ st] io_invD(3) [OF i] M by simp
  then have "io_inv N M t D" using i by (simp add: io_inv_def tabs_same [of t s] held_same [of t s])
  then show ?thesis using st by (simp add: rv9_io_close_path_def)
qed

lemma slot_table: "slot_of pid i s = Some a \<Longrightarrow> \<exists>y. find_table pid s = Some y \<and> i < RV9_MAX_PATHS \<and> pp_paths y ! i = Some a"
  by (auto simp: slot_of_def split: option.splits if_splits)

lemma caller_slot: "path_for_caller pid num s = Some a \<Longrightarrow> slot_of pid (nat num) s = Some a \<and> 0 \<le> num \<and> nat num < RV9_MAX_PATHS"
  by (auto simp: path_for_caller_def split: if_splits)

lemma close_ok:
  assumes i: "io_inv N M s D" and M: "M < W32" and st: "rv9_io_close pid num s = (t, e)"
  shows "io_inv N M t D"
proof (cases "path_for_caller pid num s")
  case None
  then show ?thesis using st i by (auto simp: rv9_io_close_def rv9_io_close_begin_def last_closes_def)
next
  case (Some a)
  note c = caller_slot [OF Some]
  obtain y where y: "find_table pid s = Some y" "pp_paths y ! nat num = Some a" using slot_table c by blast
  obtain s1 x where r: "path_release (Some a) s = (s1, x)" by (metis surj_pair)
  let ?s2 = "set_slot pid (nat num) None s1"
  have ak: "a \<in># held_by s" using slot_held [OF io_invD(2) [OF i]] c by blast
  have b1: "bal N (held_by s + D - {#a#}) {} s1 \<and> io_tables s1 = io_tables s"
    using bal_release [OF io_invD(1) [OF i] _ _ r] io_invD(3) [OF i] M ak by simp
  then have t1: "tabs_ok s1" "find_table pid s1 = Some y" "held_by s1 = held_by s"
    using io_invD(2) [OF i] y(1) by (simp_all add: tabs_same [of s1 s] held_same [of s1 s] find_table_def)
  have "add_mset a (held_by ?s2) = held_by s" using held_set_slot [OF t1(1,2), of "nat num" None] c y(2) t1(3) by simp
  then have "held_by ?s2 + D = held_by s + D - {#a#}" by (metis add_mset_remove_trivial union_mset_add_mset_left)
  then have "io_inv N M ?s2 D" using b1 t1(1) io_invD(3) [OF i] ak by (simp add: io_inv_def size_Diff_singleton)
  then show ?thesis using st Some r by (auto simp: rv9_io_close_def rv9_io_close_begin_def split: option.splits)
qed

lemma dup2_ok:
  assumes i: "io_inv N M s D" and M: "Suc M < UINT32_MAX" and st: "rv9_io_dup2 room pid src dst s = (t, e)"
  shows "io_inv N (Suc M) t D"
proof -
  obtain s1 x where tf: "table_for pid True room s = (s1, x)" by (metis surj_pair)
  have i1: "io_inv N M s1 D" using table_for_ok [OF i tf] by simp
  have keep: "io_inv N (Suc M) s D" "io_inv N (Suc M) s1 D" using i i1 io_inv_mono by auto
  show ?thesis
  proof (cases "src = dst \<or> dst < 0 \<or> int RV9_MAX_PATHS \<le> dst \<or> path_for_caller pid src s1 = None")
    case True
    then have "t = s \<or> t = s1" using st tf
      by (cases "src = dst"; cases "dst < 0 \<or> int RV9_MAX_PATHS \<le> dst") (auto simp: rv9_io_dup2_def rv9_io_dup2_begin_def last_closes_def)
    then show ?thesis using keep by blast
  next
    case False
    then obtain a where a: "path_for_caller pid src s1 = Some a" "src \<noteq> dst" "0 \<le> dst" "nat dst < RV9_MAX_PATHS" by auto
    note c = caller_slot [OF a(1)]
    obtain y where y: "find_table pid s1 = Some y" "pp_paths y ! nat src = Some a" using slot_table c by blast
    have in_range: "\<not> int RV9_MAX_PATHS \<le> dst" using a(3,4) by linarith
    have ne: "nat src \<noteq> nat dst" using a(2,3) c by auto
    let ?old = "pp_paths y ! nat dst" and ?n = "set_slot pid (nat dst) None s1"
    have old: "slot_of pid (nat dst) s1 = ?old" using y(1) a(4) by (simp add: slot_of_def)
    have h: "held_by ?n + opts [?old] = held_by s1" using held_set_slot [OF io_invD(2) [OF i1] y(1) a(4), of None] by simp
    have "slot_of pid (nat src) ?n = Some a" using y ne c by (simp add: slot_of_def find_table_slot)
    then have an: "a \<in># held_by ?n" using slot_held io_invD(2) [OF i1] by simp
    obtain s2 idle where r: "path_release ?old s1 = (s2, idle)" by (metis surj_pair)
    have b2: "bal N (held_by ?n + D) {} s2 \<and> io_tables s2 = io_tables s1"
    proof (cases ?old)
      case None
      then show ?thesis using r h io_invD(1) [OF i1] by (auto simp: path_release_def)
    next
      case (Some b)
      then have k: "held_by s1 + D = add_mset b (held_by ?n + D)" using h by simp
      show ?thesis using bal_release [OF io_invD(1) [OF i1, unfolded k] _ _ r [unfolded Some]] io_invD(3) [OF i1, unfolded k] M by simp
    qed
    let ?s3 = "upd_path a (\<lambda>p. p\<lparr>pa_refs := cast32 (pa_refs p + 1)\<rparr>) s2"
    let ?s4 = "set_slot pid (nat dst) (Some a) ?s3"
    have sz: "size (held_by ?n + D) \<le> M"
    proof -
      have "size (held_by s1) = size (held_by ?n) + size (opts [?old])" unfolding h [symmetric] by simp
      then show ?thesis using io_invD(3) [OF i1] by simp
    qed
    have b3: "bal N (add_mset a (held_by ?n + D)) {} ?s3" by (rule bal_share) (use b2 an sz M in simp_all)
    have t3: "tabs_ok ?s3" "find_table pid ?s3 = Some y" "held_by ?s3 = held_by s1"
      using b2 io_invD(2) [OF i1] y(1) by (simp_all add: tabs_same [of s2 s1] held_same [of s2 s1] find_table_def)
    have "held_by ?s4 + opts [?old] = add_mset a (held_by ?n + opts [?old])" using held_set_slot [OF t3(1,2) a(4), of "Some a"] t3(3) h by simp
    then have "held_by ?s4 + opts [?old] = add_mset a (held_by ?n) + opts [?old]" by simp
    then have "held_by ?s4 = add_mset a (held_by ?n)" by (rule add_right_imp_eq)
    then have "io_inv N (Suc M) ?s4 D" using b3 t3(1) sz by (simp add: io_inv_def)
    moreover have "t = last_closes (case idle of None \<Rightarrow> [] | Some d \<Rightarrow> [d]) ?s4"
      using st tf a r old in_range by (auto simp: rv9_io_dup2_def rv9_io_dup2_begin_def)
    ultimately show ?thesis by simp
  qed
qed

end
