(* ===== verification/IoRun.thy ===== *)
theory IoRun
  imports IoSteps
begin

text \<open>
  Processes start and end, sessions are hung up, calls run through paths; then every run of the I/O
  manager, with the opens and closes of IoSteps. An open counts as one step; the calls inside a
  session and the looks of a hangup are steps of their own, so they may come in any order, and so
  are the failsafes an end leaves to be parked.
\<close>

section \<open>Standard paths\<close>

lemma path_alloc_ok:
  assumes b: "bal N K {} s" and d: "find_dev n s = Some d" and env: "env_ok env s" and st: "path_alloc env d [] mode owner s = (t, r)"
  shows "io_tables t = io_tables s \<and> (case r of Inl e \<Rightarrow> bal N K {} t | Inr a \<Rightarrow> bal N (add_mset a K) {} t \<and> count (add_mset a K) a = 1)"
proof -
  have dd: "d \<in> set (io_devs s)" "dv_name d = n" using find_dev_Some [OF d] by simp_all
  obtain s1 q where q: "path_new env d [] mode owner s = (s1, q)" by (metis surj_pair)
  have nul: "CHR 0x00 \<notin> set ([] :: string)" by simp
  note bn = bal_new [OF b dd(1) nul env q]
  show ?thesis
  proof (cases q)
    case (Inl e)
    then have "t = s \<and> r = Inl RV9_IO_ERR_EXISTS \<or> t = s1 \<and> r = Inl e" using st q by (auto simp: path_alloc_def split: if_splits)
    then show ?thesis using bn Inl b by auto
  next
    case (Inr a)
    let ?fo = "dv_open_count d = 0"
    obtain p where p: "io_paths s1 = p # io_paths s" "pa_at p = a" "pa_dev p = dv_name d" "pa_session p = dv_session d"
      and b1: "bal N (add_mset a K) {a} s1" and fr: "a \<notin> pa_at ` set (io_paths s)" and same: "io_devs s1 = io_devs s" "io_tables s1 = io_tables s"
      using bn Inr by auto
    have one: "count (add_mset a K) a = 1" by (rule fresh_count [OF b fr])
    obtain s2 e where be: "both_open env ?fo a d [] mode s1 = (s2, e)" by (metis surj_pair)
    obtain cs where s2: "s2 = tell_io cs s1" using both_open_tells [OF be] by blast
    let ?s3 = "if ?fo then dev_last_close (dv_name d) s2 else s2"
    consider "t = s" "r = Inl RV9_IO_ERR_EXISTS" | "t = path_free a ?s3" "r = Inl e" | "t = upd_dev (dv_name d) count_open s2" "r = Inr a"
      using st q Inr be by (auto simp: path_alloc_def Let_def split: if_splits)
    then show ?thesis
    proof cases
      case 1
      then show ?thesis using b by simp
    next
      case 2
      have "find_path a ?s3 = Some p"
        using p by (simp add: find_path_def s2 tell_io_def)
      moreover have "bal N (add_mset a K) {a} ?s3" using b1 by (simp add: s2)
      ultimately have "bal N (add_mset a K - {#a#}) ({a} - {a}) (path_free a ?s3)" using one by (intro bal_free) auto
      then show ?thesis using 2 same(2) by (simp add: s2)
    next
      case 3
      have "bal N (add_mset a K) {a} s2" using b1 by (simp add: s2)
      then have "bal N (add_mset a K) {} t" unfolding 3(1)
        by (rule counted_new [OF b dd(1)]) (use p same in \<open>simp_all add: s2 tell_io_def\<close>)
      then show ?thesis using 3 same(2) one by (simp add: s2)
    qed
  qed
qed

lemma fill_slots:
  assumes "tabs_ok s" "find_table c s = Some y" "distinct is" "\<And>i. i \<in> set is \<Longrightarrow> i < RV9_MAX_PATHS \<and> pp_paths y ! i = None"
  shows "held_by (foldl (\<lambda>s i. set_slot c i (Some a) s) s is) = replicate_mset (length is) a + held_by s \<and>
    tabs_ok (foldl (\<lambda>s i. set_slot c i (Some a) s) s is)"
  using assms
proof (induction "is" arbitrary: s y)
  case (Cons i js)
  let ?s = "set_slot c i (Some a) s" and ?y = "y\<lparr>pp_paths := (pp_paths y)[i := Some a]\<rparr>"
  have h: "held_by ?s = add_mset a (held_by s)" using held_set_slot [OF Cons.prems(1,2), of i "Some a"] Cons.prems(4) [of i] by simp
  have "find_table c ?s = Some ?y" using Cons.prems(2) by (simp add: find_table_slot)
  moreover have "\<And>j. j \<in> set js \<Longrightarrow> j < RV9_MAX_PATHS \<and> pp_paths ?y ! j = None"
    using Cons.prems(3,4) by (metis (no_types, lifting) distinct.simps(2) list.set_intros(2) nth_list_update_neq proc_paths.select_convs(2) proc_paths.surjective proc_paths.update_convs(2))
  ultimately show ?case using Cons.IH [of ?s ?y] Cons.prems(1,3) h by simp
qed simp

text \<open>What a fork keeps of the child's table: the slots not named stay as they are.\<close>

lemma fold_slot_table: "find_table c s = Some y \<Longrightarrow> \<exists>z. find_table c (foldl (\<lambda>s i. set_slot c i v s) s is) = Some z \<and>
    (\<forall>j. j \<notin> set is \<longrightarrow> pp_paths z ! j = pp_paths y ! j)"
proof (induction "is" arbitrary: s y)
  case (Cons i js)
  have "find_table c (set_slot c i v s) = Some (y\<lparr>pp_paths := (pp_paths y)[i := v]\<rparr>)" using Cons.prems by (simp add: find_table_slot)
  from Cons.IH [OF this] show ?case by auto
qed simp

lemma std_slot_ok:
  assumes i: "io_inv N M s D" and y: "find_table c s = Some y" and env: "env_ok env s"
    and sl: "distinct sl" "sl \<noteq> []" "\<And>i. i \<in> set sl \<Longrightarrow> i < RV9_MAX_PATHS \<and> pp_paths y ! i = None" and M: "M + length sl < UINT32_MAX"
  shows "io_inv N (M + length sl) (std_slot env c sl dn mode s) D \<and>
    (\<exists>z. find_table c (std_slot env c sl dn mode s) = Some z \<and> (\<forall>j. j \<notin> set sl \<longrightarrow> pp_paths z ! j = pp_paths y ! j))"
proof -
  have keep: "io_inv N (M + length sl) s D" by (rule io_inv_mono [OF i]) simp
  show ?thesis
  proof (cases "if dn = [] then None else find_dev dn s")
    case None
    then show ?thesis using keep y by (simp add: std_slot_def)
  next
    case (Some d)
    then have fd: "find_dev dn s = Some d" by (simp split: if_splits)
    obtain s1 r where a: "path_alloc env d [] mode c s = (s1, r)" by (metis surj_pair)
    note pa = path_alloc_ok [OF io_invD(1) [OF i] fd env a]
    have t1: "tabs_ok s1" "held_by s1 = held_by s" "find_table c s1 = Some y"
      using pa io_invD(2) [OF i] y by (simp_all add: tabs_same [of s1 s] held_same [of s1 s] find_table_def)
    show ?thesis
    proof (cases r)
      case (Inl e)
      then have "std_slot env c sl dn mode s = s1" using Some a by (simp add: std_slot_def)
      then show ?thesis using pa Inl t1 io_invD(3) [OF keep] by (simp add: io_inv_def)
    next
      case (Inr a')
      let ?K = "held_by s + D" and ?f = "\<lambda>p. p\<lparr>pa_refs := cast32 (pa_refs p + (length sl - 1))\<rparr>"
      let ?K' = "replicate_mset (length sl) a' + ?K" and ?s2 = "upd_path a' ?f s1"
      have n: "0 < length sl" using sl(2) by simp
      have b1: "bal N (add_mset a' ?K) {} s1" "count (add_mset a' ?K) a' = 1" using pa Inr by simp_all
      have zero: "count ?K a' = 0" using b1(2) by (simp only: count_add_mset) simp
      have b2: "bal N ?K' {} ?s2"
      proof (rule bal_refs [OF b1(1)])
        show "count ?K' x = count (add_mset a' ?K) x" if "x \<noteq> a'" for x using that by simp
        show "0 < count ?K' a'" using n by (simp only: count_union count_replicate_mset) simp
        fix p assume p: "p \<in> set (io_paths s1)" "pa_at p = a'"
        then have "pa_refs p = 1" using refs_count [OF b1(1) p(1)] b1(2) by simp
        moreover have "count ?K' a' = length sl" using zero by (simp only: count_union count_replicate_mset) simp
        ultimately show "cast32 (pa_refs p + (length sl - 1)) = count ?K' a'" using M n by (simp add: cast32_def)
      qed simp
      have std: "std_slot env c sl dn mode s = foldl (\<lambda>s i. set_slot c i (Some a') s) ?s2 sl" using Some a Inr by (simp add: std_slot_def)
      have fold: "bal N K {} (foldl (\<lambda>s i. set_slot c i (Some a') s) s is) = bal N K {} s" for K s "is" by (induction "is" arbitrary: s) simp_all
      have t2: "tabs_ok ?s2" "find_table c ?s2 = Some y" "held_by ?s2 = held_by s" using t1 by simp_all
      note filled = fill_slots [OF t2(1,2) sl(1,3), of a']
      have "io_inv N (M + length sl) (std_slot env c sl dn mode s) D"
        using b2 filled t2(3) io_invD(3) [OF i] unfolding std io_inv_def fold by (simp add: union_assoc)
      moreover have "\<exists>z. find_table c (std_slot env c sl dn mode s) = Some z \<and> (\<forall>j. j \<notin> set sl \<longrightarrow> pp_paths z ! j = pp_paths y ! j)"
        unfolding std by (rule fold_slot_table [OF t2(2)])
      ultimately show ?thesis by blast
    qed
  qed
qed

section \<open>Fork\<close>

lemma share_slot_ok:
  assumes i: "io_inv N M s D" and y: "find_table c s = Some y" and sl: "j < RV9_MAX_PATHS" "pp_paths y ! j = None" and M: "Suc M < UINT32_MAX"
  shows "io_inv N (Suc M) (share_slot p c s j) D \<and>
    (\<exists>z. find_table c (share_slot p c s j) = Some z \<and> (\<forall>k. k \<noteq> j \<longrightarrow> pp_paths z ! k = pp_paths y ! k))"
proof (cases "slot_of p j s")
  case None
  then show ?thesis using io_inv_mono [OF i, of "Suc M"] y by (simp add: share_slot_def)
next
  case (Some a)
  let ?s1 = "upd_path a (\<lambda>p. p\<lparr>pa_refs := cast32 (pa_refs p + 1)\<rparr>) s"
  have a: "a \<in># held_by s + D" using slot_held [OF io_invD(2) [OF i] Some] by simp
  have b1: "bal N (add_mset a (held_by s + D)) {} ?s1"
    by (rule bal_share [OF io_invD(1) [OF i] a]) (use io_invD(3) [OF i] M in simp)
  have t1: "tabs_ok ?s1" "find_table c ?s1 = Some y" using io_invD(2) [OF i] y by simp_all
  have h: "held_by (set_slot c j (Some a) ?s1) = add_mset a (held_by s)" using held_set_slot [OF t1 sl(1), of "Some a"] sl(2) by simp
  have e: "share_slot p c s j = set_slot c j (Some a) ?s1" using Some by (simp add: share_slot_def)
  have "io_inv N (Suc M) (set_slot c j (Some a) ?s1) D" unfolding io_inv_def h using b1 t1(1) io_invD(3) [OF i] by simp
  then show ?thesis unfolding e using t1(2) by (auto simp: find_table_slot)
qed

lemma shares_ok:
  assumes "io_inv N M s D" "find_table c s = Some y" "distinct js" "\<And>j. j \<in> set js \<Longrightarrow> j < RV9_MAX_PATHS \<and> pp_paths y ! j = None"
    "M + length js < UINT32_MAX"
  shows "io_inv N (M + length js) (foldl (share_slot p c) s js) D"
  using assms
proof (induction js arbitrary: s y M)
  case (Cons j js)
  have "j < RV9_MAX_PATHS" "pp_paths y ! j = None" "Suc M < UINT32_MAX" using Cons.prems(4) [of j] Cons.prems(5) by simp_all
  from share_slot_ok [OF Cons.prems(1,2) this, of p] obtain z where
    z: "io_inv N (Suc M) (share_slot p c s j) D" "find_table c (share_slot p c s j) = Some z" "\<forall>k. k \<noteq> j \<longrightarrow> pp_paths z ! k = pp_paths y ! k"
    by blast
  have "io_inv N (Suc M + length js) (foldl (share_slot p c) (share_slot p c s j) js) D"
  proof (rule Cons.IH [OF z(1,2)])
    show "k < RV9_MAX_PATHS \<and> pp_paths z ! k = None" if "k \<in> set js" for k
      using that Cons.prems(3) Cons.prems(4) [of k] z(3) by (cases "k = j") simp_all
  qed (use Cons.prems(3,5) in simp_all)
  then show ?case by simp
qed simp

text \<open>A child has a table of its own only from its fork on.\<close>

lemma fork_ok:
  assumes i: "io_inv N M s D" and M: "M + 3 < UINT32_MAX" and child: "find_table c s = None"
    and env: "env_ok ei s" "env_ok eo (std_slot ei c [RV9_STDIN] (io_std_in s) RV9_MODE_READ (fst (table_for c True (ie_table ei) s)))"
  shows "io_inv N (M + 3) (io_on_fork ei eo p c s) D"
proof -
  obtain s1 x where tf: "table_for c True (ie_table ei) s = (s1, x)" by (metis surj_pair)
  note t = table_for_ok [OF i tf]
  then have i1: "io_inv N M s1 D" by simp
  show ?thesis
  proof (cases x)
    case None
    then show ?thesis using tf io_inv_mono [OF i1, of "M + 3"] by (simp add: io_on_fork_def)
  next
    case (Some y)
    have fy: "find_table c s1 = Some y" using t Some by simp
    have y: "y = \<lparr>pp_pid = c, pp_paths = replicate RV9_MAX_PATHS None\<rparr>" using tf Some child by (auto simp: table_for_def Let_def split: if_splits)
    have free: "j < 3 \<Longrightarrow> j < RV9_MAX_PATHS \<and> pp_paths y ! j = None" for j by (simp add: y RV9_MAX_PATHS_def)
    show ?thesis
    proof (cases "p \<noteq> RV9_PID_NONE \<and> find_table p s1 \<noteq> None")
      case True
      have len: "length [0..<3] = 3" by simp
      have "io_inv N (M + length [0..<3]) (foldl (share_slot p c) s1 [0..<3]) D"
      proof (rule shares_ok [OF i1 fy])
        show "distinct [0..<3]" by (rule distinct_upt)
        show "j < RV9_MAX_PATHS \<and> pp_paths y ! j = None" if "j \<in> set [0..<3]" for j using that free by simp
        show "M + length [0..<3] < UINT32_MAX" using M by simp
      qed
      then have "io_inv N (M + 3) (foldl (share_slot p c) s1 [0..<3]) D" unfolding len .
      then show ?thesis using True tf Some by (simp add: io_on_fork_def)
    next
      case False
      let ?s2 = "std_slot ei c [RV9_STDIN] (io_std_in s) RV9_MODE_READ s1"
      have env1: "env_ok ei s1" using env(1) t by (simp add: env_ok_def)
      have "io_inv N (M + length [RV9_STDIN]) ?s2 D \<and> (\<exists>z. find_table c ?s2 = Some z \<and> (\<forall>j. j \<notin> set [RV9_STDIN] \<longrightarrow> pp_paths z ! j = pp_paths y ! j))"
        by (rule std_slot_ok [OF i1 fy env1]) (use free M in \<open>auto simp: RV9_STDIN_def\<close>)
      then obtain z where i2: "io_inv N (M + 1) ?s2 D" and z: "find_table c ?s2 = Some z" "\<forall>j. j \<notin> set [RV9_STDIN] \<longrightarrow> pp_paths z ! j = pp_paths y ! j"
        by auto
      have "io_inv N (M + 1 + length [RV9_STDOUT, RV9_STDERR]) (std_slot eo c [RV9_STDOUT, RV9_STDERR] (io_std_out s) RV9_MODE_WRITE ?s2) D"
        by (rule conjunct1 [OF std_slot_ok [OF i2 z(1)]])
          (use env(2) tf free z(2) M in \<open>auto simp: RV9_STDIN_def RV9_STDOUT_def RV9_STDERR_def\<close>)
      then have "io_inv N (M + 3) (std_slot eo c [RV9_STDOUT, RV9_STDERR] (io_std_out s) RV9_MODE_WRITE ?s2) D"
        by (simp add: numeral_3_eq_3)
      then show ?thesis using False tf Some by (auto simp: io_on_fork_def)
    qed
  qed
qed

section \<open>Exit\<close>

lemma release_slots_ok:
  assumes "bal N (opts xs + R) {} s" "size (opts xs + R) < W32" "release_slots xs s = (t, idle)"
  shows "bal N R {} t \<and> io_tables t = io_tables s"
proof -
  let ?f = "\<lambda>(s, idle) a. case path_release a s of (s1, i) \<Rightarrow> (s1, idle @ (case i of None \<Rightarrow> [] | Some d \<Rightarrow> [d]))"
  have "bal N R {} t \<and> io_tables t = io_tables s" if "bal N (opts xs + R) {} s" "size (opts xs + R) < W32" "foldl ?f (s, ds) xs = (t, idle)" for ds
    using that
  proof (induction xs arbitrary: s ds)
    case (Cons x xs)
    obtain s1 i where r: "path_release x s = (s1, i)" by (metis surj_pair)
    have 1: "bal N (opts xs + R) {} s1 \<and> io_tables s1 = io_tables s"
    proof (cases x)
      case None
      then show ?thesis using r Cons.prems(1) by (simp add: path_release_def)
    next
      case (Some a)
      then have e: "opts (x # xs) + R = add_mset a (opts xs + R)" by simp
      show ?thesis using bal_release [OF Cons.prems(1) [unfolded e] _ _ r [unfolded Some]] Cons.prems(2) e by simp
    qed
    moreover have "size (opts xs + R) < W32" using Cons.prems(2) by (cases x) simp_all
    ultimately show ?case using Cons.IH [of s1] Cons.prems(3) r by simp
  qed simp
  then show ?thesis using assms unfolding release_slots_def by blast
qed

lemma exit_ok:
  assumes i: "io_inv N M s D" and M: "M < W32" and st: "io_on_exit_begin pid s = (t, idle, fs)"
  shows "io_inv N M (last_closes idle t) D"
proof (cases "find_table pid s")
  case None
  then have "t = s\<lparr>io_claims := rv9_claim_release_pid pid (io_claims s)\<rparr>" using st by (simp add: io_on_exit_begin_def Let_def)
  moreover have "io_inv N M (s\<lparr>io_claims := rv9_claim_release_pid pid (io_claims s)\<rparr>) D"
    using bal_release_pid [OF io_invD(1) [OF i], of pid] i by (simp add: io_inv_def held_by_def tabs_ok_def)
  ultimately show ?thesis by simp
next
  case (Some y)
  obtain s1 ds where r: "release_slots (pp_paths y) s = (s1, ds)" by (metis surj_pair)
  have m: "y \<in> set (io_tables s)" using find_table_Some [OF Some] by simp
  define H where "H = sum_list (map (\<lambda>t. opts (pp_paths t)) (remove1 y (io_tables s)))"
  have h: "held_by s = opts (pp_paths y) + H" unfolding H_def held_by_def by (rule sum_list_map_remove1 [OF m])
  have b: "bal N (opts (pp_paths y) + (H + D)) {} s" "size (opts (pp_paths y) + (H + D)) < W32"
    using io_invD(1,3) [OF i] M unfolding h by (simp_all add: union_assoc)
  have 1: "bal N (H + D) {} s1 \<and> io_tables s1 = io_tables s" by (rule release_slots_ok [OF b r])
  let ?t = "s1\<lparr>io_tables := remove1 y (io_tables s1)\<rparr>"
  have t: "t = ?t\<lparr>io_claims := rv9_claim_release_pid pid (io_claims ?t)\<rparr>" using st Some r by (simp add: io_on_exit_begin_def Let_def)
  have ht: "held_by t = H" using 1 by (simp add: t held_by_def H_def)
  have "bal N (H + D) {} t" unfolding t by (rule bal_release_pid) (use 1 in simp)
  moreover have "tabs_ok t"
  proof -
    have "distinct (map pp_pid (remove1 y ts))" if "distinct (map pp_pid ts)" for ts using that by (auto simp: distinct_map inj_on_def)
    then show ?thesis using io_invD(2) [OF i] 1 by (auto simp: tabs_ok_def t dest: notin_set_remove1)
  qed
  moreover have "size (H + D) \<le> M" using io_invD(3) [OF i] unfolding h by simp
  ultimately have "io_inv N M t D" by (simp add: io_inv_def ht)
  then show ?thesis by simp
qed

section \<open>Calls, hangups, claims, new devices\<close>

lemma busy_ok:
  assumes i: "io_inv N M s D" and f: "\<And>d. dv_name (f d) = dv_name d \<and> dv_drv (f d) = dv_drv d \<and> dv_session (f d) = dv_session d \<and> dv_open_count (f d) = dv_open_count d"
  shows "io_inv N M (upd_dev n f s) D"
proof -
  note b = io_invD(1) [OF i]
  have "bal N (held_by s + D) {} (upd_dev n f s)"
    by (rule bal_frame [OF b _ _ upd_dev_map [OF b]]) (use f in \<open>simp_all add: upd_dev_def\<close>)
  then show ?thesis using i by (simp add: io_inv_def)
qed

lemma call_enter_ok: "io_inv N M s D \<Longrightarrow> call_enter e a s = (t, r) \<Longrightarrow> io_inv N M t D"
  unfolding call_enter_def session_count_def
  by (auto split: option.splits if_splits intro!: busy_ok simp: count_busy_def)

lemma call_inside_ok: "io_inv N M s D \<Longrightarrow> call_inside p bs s = (t, r) \<Longrightarrow> io_inv N M t D"
  unfolding call_inside_def session_check_def
  by (auto split: option.splits if_splits intro!: busy_ok simp: uncount_busy_def)

lemma call_begin_ok: "io_inv N M s D \<Longrightarrow> call_begin e a bs s = (t, r) \<Longrightarrow> io_inv N M t D"
proof -
  assume i: "io_inv N M s D" and c: "call_begin e a bs s = (t, r)"
  obtain s1 q where e: "call_enter e a s = (s1, q)" by (metis surj_pair)
  have i1: "io_inv N M s1 D" by (rule call_enter_ok [OF i e])
  show ?thesis
  proof (cases q)
    case (Inl x)
    then show ?thesis using c e i1 by (simp add: call_begin_def)
  next
    case (Inr p)
    then have "call_inside p bs s1 = (t, r)" using c e by (simp add: call_begin_def)
    then show ?thesis by (rule call_inside_ok [OF i1])
  qed
qed

lemma session_leave_ok: "io_inv N M s D \<Longrightarrow> io_inv N M (session_leave p s) D"
  unfolding session_leave_def by (auto split: option.splits intro!: busy_ok simp: uncount_busy_def)

lemma call_end_ok: "io_inv N M s D \<Longrightarrow> io_inv N M (call_end a s) D"
  unfolding call_end_def by (auto split: option.splits intro: session_leave_ok)

lemma hangup_turn_ok: "io_inv N M s D \<Longrightarrow> hangup_turn up n s = (t, x) \<Longrightarrow> io_inv N M t D"
  unfolding hangup_turn_def hangup_end_def
  by (auto split: option.splits if_splits intro!: busy_ok) (simp_all add: io_inv_def)

lemma hangup_ok:
  assumes i: "io_inv N M s D" and d: "find_dev (pa_dev p) s = Some d" and N: "Suc N < W32" and st: "hangup_begin p d s = (t, r)"
  shows "io_inv (Suc N) M t D"
  using bal_hangup [OF io_invD(1) [OF i] d N st] i by (simp add: io_inv_def held_same [of t s] tabs_same [of t s])

lemma io_inv_session: "io_inv N M s D \<Longrightarrow> N \<le> N' \<Longrightarrow> io_inv N' M s D"
proof -
  assume i: "io_inv N M s D" and n: "N \<le> N'"
  note b = io_invD(1) [OF i]
  have "bal N' (held_by s + D) {} s"
    by (rule bal_devs [OF b, of s id]) (use balD(6,8) [OF b] n in \<open>auto intro: le_trans\<close>)
  then show ?thesis using i by (simp add: io_inv_def)
qed

lemma from_reserve: "d \<in> set (cs_claims (fst (rv9_claim_reserve (fresh al cs) (Some res) owner ex cs))) \<Longrightarrow>
    cl_at d \<in> cl_at ` set (cs_claims cs) \<Longrightarrow> from_rec (cs_claims cs) d"
proof -
  assume d: "d \<in> set (cs_claims (fst (rv9_claim_reserve (fresh al cs) (Some res) owner ex cs)))" "cl_at d \<in> cl_at ` set (cs_claims cs)"
  obtain ds r where t: "take_locked (fresh al cs) res owner ex (cs_claims cs) = (ds, r)" by (metis surj_pair)
  consider "d \<in> set (cs_claims cs)"
    | c :: claim where "d \<in> set (upd_claim (cl_at c) (\<lambda>c. c\<lparr>cl_exclusive := (cl_exclusive c \<or> ex)\<rparr>) (cs_claims cs))"
    | e where "r = Inl e" "d \<in> set ds" | a where "r = Inr a" "d \<in> set (upd_claim a (\<lambda>c. c\<lparr>cl_reserved := True\<rparr>) ds)"
  proof (cases "find (\<lambda>c. cl_owner c = owner \<and> cl_name c = res \<and> cl_reserved c) (cs_claims cs)")
    case (Some c)
    then show thesis using that(1) that(2) d(1) by (auto simp: rv9_claim_reserve_def split: if_splits)
  next
    case None
    then show thesis using that(1,3,4) d(1) t by (auto simp: rv9_claim_reserve_def split: if_splits sum.splits)
  qed
  then show ?thesis
  proof cases
    case (2 c)
    then show ?thesis unfolding upd_claim_def by (intro from_upd) auto
  next
    case (3 e)
    then have "d \<in> set (cs_claims cs)" using t by (auto simp: take_locked_def split: sum.splits option.splits)
    then show ?thesis by (rule from_self)
  next
    case (4 a)
    then have "from_rec ds d" unfolding upd_claim_def by (intro from_upd) auto
    then obtain e where e: "e \<in> set ds" "cl_at e = cl_at d" "cl_name e = cl_name d" "cl_owner e = cl_owner d" "cl_exclusive e \<longrightarrow> cl_exclusive d"
      unfolding from_rec_def by blast
    have "from_rec (cs_claims cs) e"
    proof (cases "cl_at e = a")
      case True
      then show ?thesis using from_take_any [of "fresh al cs" res owner ex "cs_claims cs" ds a e] t 4 e(1,2) d(2) fresh_unused by force
    next
      case False
      then show ?thesis using from_take [of "fresh al cs" res owner ex "cs_claims cs" ds a e] t 4 e(1) by simp
    qed
    then show ?thesis using e unfolding from_rec_def by metis
  qed (rule from_self)
qed

lemma claims_change_ok:
  assumes i: "io_inv N M s D" and cs: "cs_up cs" "claims_ok (map claim_of (io_paths s)) (cs_claims cs)"
    and f: "\<And>d. d \<in> set (cs_claims cs) \<Longrightarrow> cl_at d \<in> cl_at ` set (cs_claims (io_claims s)) \<Longrightarrow> from_rec (cs_claims (io_claims s)) d"
  shows "io_inv N M (s\<lparr>io_claims := cs\<rparr>) D"
proof -
  note b = io_invD(1) [OF i]
  have "claim_of ` set (io_paths s) \<subseteq> cl_at ` set (cs_claims (io_claims s))" using balD(10) [OF b] by (simp add: claims_ok_def)
  then have "bal N (held_by s + D) {} (s\<lparr>io_claims := cs\<rparr>)" using f by (intro bal_claims [OF b cs]) blast
  then show ?thesis using i by (simp add: io_inv_def held_by_def tabs_ok_def)
qed

lemma reserve_ok:
  assumes i: "io_inv N M s D" and res: "fits res"
  shows "io_inv N M (s\<lparr>io_claims := fst (rv9_claim_reserve (fresh al (io_claims s)) (Some res) owner True (io_claims s))\<rparr>) D"
proof (rule claims_change_ok [OF i])
  note b = io_invD(1) [OF i]
  have "length (map claim_of (io_paths s)) < 65534" using balD(3) [OF b] by simp
  from ok_reserve [OF balD(10) [OF b] res this, of al owner]
  show "claims_ok (map claim_of (io_paths s)) (cs_claims (fst (rv9_claim_reserve (fresh al (io_claims s)) (Some res) owner True (io_claims s))))" .
  show "cs_up (fst (rv9_claim_reserve (fresh al (io_claims s)) (Some res) owner True (io_claims s)))"
    using balD(9) [OF b] by (auto simp: rv9_claim_reserve_def split: option.splits sum.splits prod.splits)
qed (rule from_reserve)

lemma failsafe_ok:
  assumes i: "io_inv N M s D"
  shows "io_inv N M (s\<lparr>io_claims := fst (rv9_claim_failsafe (Some res) owner v (io_claims s))\<rparr>) D"
proof (rule claims_change_ok [OF i])
  show "claims_ok (map claim_of (io_paths s)) (cs_claims (fst (rv9_claim_failsafe (Some res) owner v (io_claims s))))"
    by (rule ok_failsafe [OF balD(10) [OF io_invD(1) [OF i]]])
  show "cs_up (fst (rv9_claim_failsafe (Some res) owner v (io_claims s)))"
    using balD(9) [OF io_invD(1) [OF i]] by (auto simp: rv9_claim_failsafe_def)
  fix d assume "d \<in> set (cs_claims (fst (rv9_claim_failsafe (Some res) owner v (io_claims s))))"
  then have "d \<in> set (cs_claims (io_claims s)) \<or>
      d \<in> set (upd_first (\<lambda>c. cl_owner c = owner \<and> cl_name c = res) (\<lambda>c. c\<lparr>cl_failsafe := Some v\<rparr>) (cs_claims (io_claims s)))"
    by (auto simp: rv9_claim_failsafe_def split: if_splits)
  then show "from_rec (cs_claims (io_claims s)) d" by (auto intro: from_self from_upd [rotated])
qed

lemma attach_ok:
  assumes i: "io_inv N M s D" and st: "rv9_io_attach room init mount (Some ds) s = (t, e)"
  shows "io_inv N M t D"
proof -
  note b = io_invD(1) [OF i]
  consider cs where "t = tell_io cs s"
    | cs fm drv o' st where "find_dev (cstr 16 (ds_name ds)) s = None" "t = (tell_io cs s)\<lparr>io_devs := new_dev (cstr 16 (ds_name ds)) fm drv o' st # io_devs s\<rparr>"
  proof -
    have n: "tell_io [] s = s" and a: "tell_io xs (tell_io ys s) = tell_io (ys @ xs) s" for xs ys by (simp_all add: tell_io_def)
    have dv: "io_devs (tell_io xs s) = io_devs s" for xs by (simp add: tell_io_def)
    have "(\<exists>cs. t = tell_io cs s) \<or> (\<exists>cs fm drv o' st. find_dev (cstr 16 (ds_name ds)) s = None \<and>
        t = (tell_io cs s)\<lparr>io_devs := new_dev (cstr 16 (ds_name ds)) fm drv o' st # io_devs s\<rparr>)"
      using st unfolding rv9_io_attach_def Let_def
      by (auto simp: a dv split: option.splits if_splits) (metis n)+
    then show thesis using that by blast
  qed
  then show ?thesis
  proof cases
    case 1
    then show ?thesis using i by simp
  next
    case (2 cs fm drv o' st)
    let ?n = "new_dev (cstr 16 (ds_name ds)) fm drv o' st"
    have other: "dv_name d \<noteq> dv_name ?n" if "d \<in> set (io_devs s)" for d
      using 2(1) that by (auto simp: find_dev_def find_None_iff new_dev_def)
    have t: "io_paths t = io_paths s" "io_claims t = io_claims s" "io_devs t = ?n # io_devs s" "io_tables t = io_tables s"
      by (simp_all add: 2(2) tell_io_def)
    have none: "pa_dev p \<noteq> dv_name ?n" if p: "p \<in> set (io_paths s)" for p
      using path_device [OF b p] other by metis
    have "bal N (held_by s + D) {} t"
    proof (rule balI)
      show "distinct (map dv_name (io_devs t))" using balD(2) [OF b] by (simp add: t) (use other in fastforce)
      fix p assume "p \<in> set (io_paths t)"
      then show "path_bal (held_by s + D) t p" using balD(4) [OF b, of p] unfolding path_bal_def t by auto
    next
      fix d assume "d \<in> set (io_devs t)"
      then consider "d = ?n" | "d \<in> set (io_devs s)" by (auto simp: t)
      then show "dv_session d \<le> N \<and> CHR 0x00 \<notin> set (dv_name d) \<and> dv_open_count d = length (filter (counts {} d) (io_paths t))"
      proof cases
        case 1
        have "filter (counts {} d) (io_paths s) = []" unfolding filter_empty_conv counts_def 1 using none by blast
        moreover have "CHR 0x00 \<notin> set (dv_name d)" by (auto simp: 1 new_dev_def cstr_def dest!: in_set_takeD set_takeWhileD)
        ultimately show ?thesis by (simp add: 1 t new_dev_def)
      qed (use balD(6-8) [OF b] t in simp)
    qed (use balD [OF b] t in simp_all)
    then show ?thesis using i by (simp add: io_inv_def held_same [of t s] tabs_same [of t s] t(4))
  qed
qed

end
