(* ===== verification/IoReach.thy ===== *)
theory IoReach
  imports IoRun
begin

text \<open>
  Every run of the I/O manager, and what is always true of paths, devices and claims after it. The
  allocator is asked through \<open>fresh_env\<close>: an address that is in use is answered as no memory.
\<close>

section \<open>Runs\<close>

datatype io_op =
    IRegFm filemgr | IRegDrv driver
  | IAttach bool "io_err \<times> nat" io_err devdesc
  | IOpen io_env nat string u32 | IClose nat int | IDup2 bool nat int int
  | IDetach io_env string u32 | IDrop nat
  | IFork io_env io_env nat nat | IExit nat | IPark io_env "io_err \<times> nat" string nat
  | IEnter entry nat | IInside path "nat list" | ILeave path
  | IHangup nat int | ILook bool string
  | IReserve "nat option" string nat | IFailsafe string nat nat
  | ISetStd "string option" "string option"

definition fresh_env :: "io_env \<Rightarrow> iosys \<Rightarrow> io_env" where
  "fresh_env env s =
     env\<lparr>ie_path := (case ie_path env of None \<Rightarrow> None
                     | Some a \<Rightarrow> if find_path a s = None \<and> length (io_paths s) < 65533 then Some a else None),
         ie_claim := fresh (ie_claim env) (io_claims s)\<rparr>"

text \<open>The handles drivers hold are the second part of the state.\<close>

fun io_step :: "iosys \<times> nat list \<Rightarrow> io_op \<Rightarrow> iosys \<times> nat list" where
  "io_step (s, D) (IRegFm f) = (fst (rv9_io_register_filemgr (Some f) s), D)"
| "io_step (s, D) (IRegDrv d) = (fst (rv9_io_register_driver (Some d) s), D)"
| "io_step (s, D) (IAttach room init mount ds) = (fst (rv9_io_attach room init mount (Some ds) s), D)"
| "io_step (s, D) (IOpen env pid nm mode) = (fst (rv9_io_open (fresh_env env s) pid (Some nm) mode s), D)"
| "io_step (s, D) (IClose pid num) = (fst (rv9_io_close pid num s), D)"
| "io_step (s, D) (IDup2 room pid src dst) = (fst (rv9_io_dup2 room pid src dst s), D)"
| "io_step (s, D) (IDetach env nm mode) =
     (case rv9_io_open_detached (fresh_env env s) (Some nm) mode s of
        (t, Inl e) \<Rightarrow> (t, D)
      | (t, Inr a) \<Rightarrow> (t, a # D))"
| "io_step (s, D) (IDrop a) = (if a \<in> set D then (rv9_io_close_path (Some a) s, remove1 a D) else (s, D))"
| "io_step (s, D) (IFork ei eo parent child) =
     (if find_table child s \<noteq> None then (s, D)
      else let ei' = fresh_env ei s;
               s1 = std_slot ei' child [RV9_STDIN] (io_std_in s) RV9_MODE_READ (fst (table_for child True (ie_table ei') s))
           in (io_on_fork ei' (fresh_env eo s1) parent child s, D))"
| "io_step (s, D) (IExit pid) = (case io_on_exit_begin pid s of (t, idle, fs) \<Rightarrow> (last_closes idle t, D))"
| "io_step (s, D) (IPark env answer nm v) = (fst (apply_failsafe (fresh_env env s) answer (nm, v) s), D)"
| "io_step (s, D) (IEnter e a) = (fst (call_enter e (Some a) s), D)"
| "io_step (s, D) (IInside p bs) = (fst (call_inside p bs s), D)"
| "io_step (s, D) (ILeave p) = (session_leave p s, D)"
| "io_step (s, D) (IHangup pid num) =
     (case Option.bind (path_for_caller pid num s) (\<lambda>a. find_path a s) of
        None \<Rightarrow> (s, D)
      | Some p \<Rightarrow> (case find_dev (pa_dev p) s of None \<Rightarrow> (s, D) | Some d \<Rightarrow> (fst (hangup_begin p d s), D)))"
| "io_step (s, D) (ILook up nm) = (fst (hangup_turn up nm s), D)"
| "io_step (s, D) (IReserve al res owner) =
     (s\<lparr>io_claims := fst (rv9_claim_reserve (fresh al (io_claims s)) (Some res) owner True (io_claims s))\<rparr>, D)"
| "io_step (s, D) (IFailsafe res owner v) =
     (s\<lparr>io_claims := fst (rv9_claim_failsafe (Some res) owner v (io_claims s))\<rparr>, D)"
| "io_step (s, D) (ISetStd i out) = (rv9_io_set_system_std i out s, D)"

text \<open>Names are C strings, and those of resources fit.\<close>

fun io_op_ok :: "io_op \<Rightarrow> bool" where
  "io_op_ok (IOpen env pid nm mode) = (CHR 0x00 \<notin> set nm)"
| "io_op_ok (IDetach env nm mode) = (CHR 0x00 \<notin> set nm)"
| "io_op_ok (IPark env answer nm v) = (CHR 0x00 \<notin> set nm)"
| "io_op_ok (IReserve al res owner) = fits res"
| "io_op_ok op = True"

definition io_boot :: iosys where
  "io_boot = \<lparr>io_filemgrs = [], io_drivers = [], io_refused = 0, io_devs = [], io_tables = [], io_paths = [],
     io_claims = \<lparr>cs_up = True, cs_claims = []\<rparr>, io_std_in = [], io_std_out = [], io_told = []\<rparr>"

lemma fresh_env_ok: "env_ok (fresh_env env s) s"
  by (auto simp: env_ok_def fresh_env_def find_path_def find_None_iff fresh_unused split: option.splits if_splits)

lemma io_inv_regs: "io_inv N M s D \<Longrightarrow> io_paths t = io_paths s \<Longrightarrow> io_claims t = io_claims s \<Longrightarrow> io_devs t = io_devs s \<Longrightarrow>
    io_tables t = io_tables s \<Longrightarrow> io_inv N M t D"
proof -
  assume i: "io_inv N M s D" and t: "io_paths t = io_paths s" "io_claims t = io_claims s" "io_devs t = io_devs s" "io_tables t = io_tables s"
  have "bal N (held_by s + D) {} t" by (rule bal_frame [OF io_invD(1) [OF i] t(1,2), of id]) (use t in simp_all)
  then show ?thesis using i by (simp add: io_inv_def held_same [OF t(4)] tabs_same [OF t(4)])
qed

lemma park_ok:
  assumes i: "io_inv N M s D" and M: "Suc M < W32" and nul: "CHR 0x00 \<notin> set (fst f)" and env: "env_ok env s"
  shows "io_inv N (Suc M) (fst (apply_failsafe env answer f s)) D"
proof -
  obtain s1 r where o: "rv9_io_open_detached env (Some (fst f)) RV9_MODE_WRITE s = (s1, r)" by (metis surj_pair)
  note od = open_detached_ok [OF i nul env o]
  show ?thesis
  proof (cases r)
    case (Inl e)
    then show ?thesis using od o by (simp add: apply_failsafe_def)
  next
    case (Inr a)
    obtain s2 e n where w: "rv9_io_write_path (Some a) (Some (u32_bytes (snd f))) answer s1 = (s2, e, n)" by (metis surj_pair)
    have i1: "io_inv N (Suc M) s1 (add_mset a D)" using od Inr by simp
    have "io_inv N (Suc M) s2 (add_mset a D)"
    proof -
      obtain s1' q where c: "call_begin WriteCall (Some a) (u32_bytes (snd f)) s1 = (s1', q)" by (metis surj_pair)
      have "io_inv N (Suc M) s1' (add_mset a D)" by (rule call_begin_ok [OF i1 c])
      then show ?thesis using w c call_end_ok by (auto simp: rv9_io_write_path_def call_through_def split: sum.splits)
    qed
    then have "io_inv N (Suc M) (rv9_io_close_path (Some a) s2) D" using M by (rule close_path_ok)
    then show ?thesis using o Inr w by (simp add: apply_failsafe_def)
  qed
qed

lemma io_step_ok:
  assumes i: "io_inv N M s (mset D)" and op: "io_op_ok op" and M: "M + 3 < UINT32_MAX" and N: "Suc N < W32" and st: "io_step (s, D) op = (t, D')"
  shows "io_inv (Suc N) (M + 3) t (mset D')"
proof -
  have up: "io_inv (Suc N) (M + 3) t (mset D')" if "io_inv N m t (mset D')" "m \<le> M + 3" for m
    using io_inv_session [OF io_inv_mono [OF that]] by simp
  have keep: "io_inv N M (s\<lparr>io_filemgrs := fs\<rparr>) (mset D)" "io_inv N M (s\<lparr>io_drivers := ds\<rparr>) (mset D)" "io_inv N M (s\<lparr>io_refused := n\<rparr>) (mset D)" for fs ds n
    by (rule io_inv_regs [OF i]; simp)+
  have M': "M < W32" "Suc M < UINT32_MAX" "Suc M < W32" using M by simp_all
  show ?thesis
  proof (cases op)
    case (IRegFm f)
    then have "io_inv N M t (mset D')" using st i keep by (auto simp: rv9_io_register_filemgr_def)
    then show ?thesis by (rule up) simp
  next
    case (IRegDrv d)
    then have "io_inv N M t (mset D')" using st i keep by (auto simp: rv9_io_register_driver_def)
    then show ?thesis by (rule up) simp
  next
    case (IAttach room init mount ds)
    obtain t' e where "rv9_io_attach room init mount (Some ds) s = (t', e)" by (metis surj_pair)
    from attach_ok [OF i this] this have "io_inv N M t (mset D')" using st IAttach by simp
    then show ?thesis by (rule up) simp
  next
    case (IOpen env pid nm mode)
    obtain t' r where "rv9_io_open (fresh_env env s) pid (Some nm) mode s = (t', r)" by (metis surj_pair)
    from open_ok [OF i _ fresh_env_ok this] this have "io_inv N (Suc M) t (mset D')" using st IOpen op by simp
    then show ?thesis by (rule up) simp
  next
    case (IClose pid num)
    obtain t' r where "rv9_io_close pid num s = (t', r)" by (metis surj_pair)
    from close_ok [OF i M'(1) this] this have "io_inv N M t (mset D')" using st IClose by simp
    then show ?thesis by (rule up) simp
  next
    case (IDup2 room pid src dst)
    obtain t' r where "rv9_io_dup2 room pid src dst s = (t', r)" by (metis surj_pair)
    from dup2_ok [OF i M'(2) this] this have "io_inv N (Suc M) t (mset D')" using st IDup2 by simp
    then show ?thesis by (rule up) simp
  next
    case (IDetach env nm mode)
    obtain t' r where o: "rv9_io_open_detached (fresh_env env s) (Some nm) mode s = (t', r)" by (metis surj_pair)
    from open_detached_ok [OF i _ fresh_env_ok o] have "io_inv N (Suc M) t (mset D')" using st IDetach op o by (cases r) auto
    then show ?thesis by (rule up) simp
  next
    case (IDrop a)
    show ?thesis
    proof (cases "a \<in> set D")
      case True
      then have "io_inv N M s (add_mset a (mset D'))" using st IDrop i by auto
      from close_path_ok [OF this M'(1)] have "io_inv N M t (mset D')" using st IDrop True by simp
      then show ?thesis by (rule up) simp
    next
      case False
      then have "io_inv N M t (mset D')" using st IDrop i by simp
      then show ?thesis by (rule up) simp
    qed
  next
    case (IFork ei eo parent child)
    show ?thesis
    proof (cases "find_table child s = None")
      case True
      have t: "t = io_on_fork (fresh_env ei s) (fresh_env eo (std_slot (fresh_env ei s) child [RV9_STDIN] (io_std_in s) RV9_MODE_READ
          (fst (table_for child True (ie_table (fresh_env ei s)) s)))) parent child s" "D' = D" using st IFork True by (auto simp: Let_def)
      have "io_inv N (M + 3) t (mset D')" unfolding t by (rule fork_ok [OF i M True fresh_env_ok fresh_env_ok])
      then show ?thesis by (rule up) simp
    next
      case False
      then have "io_inv N M t (mset D')" using st IFork i by simp
      then show ?thesis by (rule up) simp
    qed
  next
    case (IExit pid)
    obtain t' idle fs where e: "io_on_exit_begin pid s = (t', idle, fs)" by (metis surj_pair)
    from exit_ok [OF i M'(1) e] have "io_inv N M t (mset D')" using st IExit e by auto
    then show ?thesis by (rule up) simp
  next
    case (IPark env answer nm v)
    have "io_inv N (Suc M) t (mset D')" using park_ok [OF i M'(3) _ fresh_env_ok, of "(nm, v)" env answer] st IPark op by simp
    then show ?thesis by (rule up) simp
  next
    case (IEnter e a)
    obtain t' r where c: "call_enter e (Some a) s = (t', r)" by (metis surj_pair)
    from call_enter_ok [OF i c] have "io_inv N M t (mset D')" using st IEnter c by simp
    then show ?thesis by (rule up) simp
  next
    case (IInside p bs)
    obtain t' r where c: "call_inside p bs s = (t', r)" by (metis surj_pair)
    from call_inside_ok [OF i c] have "io_inv N M t (mset D')" using st IInside c by simp
    then show ?thesis by (rule up) simp
  next
    case (ILeave p)
    then have "io_inv N M t (mset D')" using session_leave_ok [OF i, of p] st by simp
    then show ?thesis by (rule up) simp
  next
    case (ISetStd i' out)
    have "io_inv N M t (mset D)" by (rule io_inv_regs [OF i]) (use st ISetStd in \<open>auto simp: rv9_io_set_system_std_def\<close>)
    then have "io_inv N M t (mset D')" using st ISetStd by simp
    then show ?thesis by (rule up) simp
  next
    case (IHangup pid num)
    have "io_inv N M t (mset D') \<or> io_inv (Suc N) M t (mset D')"
    proof (cases "Option.bind (path_for_caller pid num s) (\<lambda>a. find_path a s)")
      case (Some p)
      show ?thesis
      proof (cases "find_dev (pa_dev p) s")
        case (Some d)
        obtain t' r where h: "hangup_begin p d s = (t', r)" by (metis surj_pair)
        from hangup_ok [OF i Some N h] show ?thesis using st IHangup Some h \<open>_ = Some p\<close> by simp
      qed (use st IHangup Some i in simp)
    qed (use st IHangup i in simp)
    then show ?thesis using io_inv_mono [of "Suc N" M t "mset D'" "M + 3"] up [of M] by auto
  next
    case (ILook upt nm)
    obtain t' r where c: "hangup_turn upt nm s = (t', r)" by (metis surj_pair)
    from hangup_turn_ok [OF i c] have "io_inv N M t (mset D')" using st ILook c by simp
    then show ?thesis by (rule up) simp
  next
    case (IReserve al res owner)
    then have "io_inv N M t (mset D')" using reserve_ok [OF i, of res al owner] st op by simp
    then show ?thesis by (rule up) simp
  next
    case (IFailsafe res owner v)
    then have "io_inv N M t (mset D')" using failsafe_ok [OF i, of res owner v] st by simp
    then show ?thesis by (rule up) simp
  qed
qed

lemma io_run_ok:
  assumes "io_inv N M s (mset D)" "list_all io_op_ok ops" "M + 3 * length ops < UINT32_MAX" "N + length ops < W32" "foldl io_step (s, D) ops = (t, D')"
  shows "io_inv (N + length ops) (M + 3 * length ops) t (mset D')"
  using assms
proof (induction ops arbitrary: s D N M)
  case (Cons op ops)
  obtain s1 D1 where 1: "io_step (s, D) op = (s1, D1)" by (metis surj_pair)
  have "io_inv (Suc N) (M + 3) s1 (mset D1)" by (rule io_step_ok [OF Cons.prems(1) _ _ _ 1]) (use Cons.prems in simp_all)
  then have "io_inv (Suc N + length ops) (M + 3 + 3 * length ops) t (mset D')"
    by (rule Cons.IH) (use Cons.prems 1 in simp_all)
  then show ?case by (simp add: algebra_simps)
qed simp

lemma io_boot_ok: "io_inv 0 0 io_boot (mset [])"
  by (simp add: io_inv_def bal_def io_boot_def held_by_def tabs_ok_def claims_ok_def)

lemma io_reach:
  assumes "list_all io_op_ok ops" "length ops < 2 ^ 30" "foldl io_step (io_boot, []) ops = (s, D)"
  shows "io_inv (length ops) (3 * length ops) s (mset D)"
  using io_run_ok [OF io_boot_ok assms(1) _ _ assms(3)] assms(2) by simp

section \<open>What always holds\<close>

definition handles :: "nat \<Rightarrow> iosys \<Rightarrow> nat list \<Rightarrow> nat" where
  "handles a s D = length (filter (\<lambda>x. x = Some a) (concat (map pp_paths (io_tables s)))) + count_list D a"

lemma count_opts: "count (opts xs) a = length (filter (\<lambda>x. x = Some a) xs)"
proof (induction xs)
  case (Cons x xs)
  then show ?case by (cases x) auto
qed simp

lemma handles_count: "count (held_by s + mset D) a = handles a s D"
proof -
  have "count (sum_list (map (\<lambda>t. opts (pp_paths t)) ts)) a = length (filter (\<lambda>x. x = Some a) (concat (map pp_paths ts)))" for ts
    by (induction ts) (simp_all add: count_opts)
  then show ?thesis by (simp add: handles_def held_by_def count_mset)
qed

lemma claims_of_paths: "\<forall>p\<in>set ps. pa_claim p \<noteq> None \<Longrightarrow> count_list (map claim_of ps) a = length (filter (\<lambda>p. pa_claim p = Some a) ps)"
  by (induction ps) (auto simp: claim_of_def)

text \<open>C33. However programs open, close, share, fork, end, call and hang up, in any order and whatever
  drivers, file managers and the allocator answer: a path's references are the slots that name it
  and the handles drivers hold on it, and at least one; every slot and every handle names a live
  path; a device's open count is its paths of the present session; and a claim's count is the paths
  opened under it and its reservation.\<close>

theorem paths_balanced:
  assumes "list_all io_op_ok ops" "length ops < 2 ^ 30" "foldl io_step (io_boot, []) ops = (s, D)"
  shows "distinct (map pa_at (io_paths s)) \<and>
    (\<forall>p\<in>set (io_paths s). pa_refs p = handles (pa_at p) s D \<and> 0 < pa_refs p) \<and>
    (\<forall>t\<in>set (io_tables s). \<forall>a. Some a \<in> set (pp_paths t) \<longrightarrow> a \<in> pa_at ` set (io_paths s)) \<and> set D \<subseteq> pa_at ` set (io_paths s) \<and>
    (\<forall>d\<in>set (io_devs s). dv_open_count d = length (filter (\<lambda>p. pa_dev p = dv_name d \<and> \<not> stale p d) (io_paths s))) \<and>
    (\<forall>c\<in>set (cs_claims (io_claims s)). cl_refs c = length (filter (\<lambda>p. pa_claim p = Some (cl_at c)) (io_paths s)) + (if cl_reserved c then 1 else 0))"
proof -
  note i = io_reach [OF assms]
  note b = io_invD(1) [OF i]
  have "pa_refs p = handles (pa_at p) s D \<and> 0 < pa_refs p" if "p \<in> set (io_paths s)" for p
    using balD(4) [OF b that] unfolding path_bal_def handles_count by blast
  moreover have "a \<in> pa_at ` set (io_paths s)" if "t \<in> set (io_tables s)" "Some a \<in> set (pp_paths t)" for t a
  proof -
    have "a \<in># opts (pp_paths t)" using that(2) by (force simp: opts_def)
    then have "a \<in># held_by s + mset D" using mset_subset_eqD [OF table_opts [OF that(1)]] by simp
    then show ?thesis using balD(5) [OF b] by blast
  qed
  moreover have "set D \<subseteq> pa_at ` set (io_paths s)" using balD(5) [OF b] by simp
  moreover have "dv_open_count d = length (filter (\<lambda>p. pa_dev p = dv_name d \<and> \<not> stale p d) (io_paths s))" if "d \<in> set (io_devs s)" for d
    using balD(8) [OF b that] by (simp add: counts_def [abs_def])
  moreover have "cl_refs c = length (filter (\<lambda>p. pa_claim p = Some (cl_at c)) (io_paths s)) + (if cl_reserved c then 1 else 0)"
    if c: "c \<in> set (cs_claims (io_claims s))" for c
  proof -
    have "\<forall>p\<in>set (io_paths s). pa_claim p \<noteq> None" using balD(4) [OF b] unfolding path_bal_def by blast
    moreover have "counted (map claim_of (io_paths s)) c" using balD(10) [OF b] c by (simp add: claims_ok_def)
    ultimately show ?thesis by (simp add: counted_def claims_of_paths)
  qed
  ultimately show ?thesis using balD(1) [OF b] by blast
qed

text \<open>C34. A path opened exclusively is held under a claim on a resource of its device, and no other
  process has any claim on that resource: nobody else has it open, nobody has it reserved; and
  another's open of it is refused as busy, with nothing changed.\<close>

theorem exclusive_open_alone:
  assumes "list_all io_op_ok ops" "length ops < 2 ^ 30" "foldl io_step (io_boot, []) ops = (s, D)"
    and p: "p \<in> set (io_paths s)" "pa_mode p AND RV9_MODE_EXCL \<noteq> 0"
  shows "\<exists>c\<in>set (cs_claims (io_claims s)). pa_claim p = Some (cl_at c) \<and>
    (\<exists>rest. rv9_claim_resource RV9_CLAIM_NAME_MAX (pa_dev p) rest = Some (cl_name c)) \<and>
    (\<forall>e\<in>set (cs_claims (io_claims s)). cl_name e = cl_name c \<longrightarrow> cl_owner e = cl_owner c) \<and>
    (\<forall>env d rest mode owner. rv9_claim_resource RV9_CLAIM_NAME_MAX (dv_name d) rest = Some (cl_name c) \<and> owner \<noteq> cl_owner c \<longrightarrow>
      path_new env d rest mode owner s = (s, Inl RV9_IO_ERR_BUSY))"
proof -
  note i = io_reach [OF assms(1-3)]
  note b = io_invD(1) [OF i]
  obtain c where c: "c \<in> set (cs_claims (io_claims s))" "cl_at c = claim_of p" "cl_exclusive c"
      "\<exists>rest. rv9_claim_resource RV9_CLAIM_NAME_MAX (pa_dev p) rest = Some (cl_name c)" and cl: "pa_claim p \<noteq> None"
    using balD(4) [OF b p(1)] p(2) unfolding path_bal_def by blast
  have "sole c (cs_claims (io_claims s))" using balD(10) [OF b] c(1,3) by (simp add: claims_ok_def)
  moreover have "pa_claim p = Some (cl_at c)" using cl c(2) by (auto simp: claim_of_def)
  moreover have "path_new env d rest mode owner s = (s, Inl RV9_IO_ERR_BUSY)"
    if "rv9_claim_resource RV9_CLAIM_NAME_MAX (dv_name d) rest = Some (cl_name c)" "owner \<noteq> cl_owner c" for env d rest mode owner
  proof -
    have "\<exists>x. take_scan (cl_name c) owner (mode AND RV9_MODE_EXCL \<noteq> 0) None (cs_claims (io_claims s)) = Inl x"
    proof (cases "take_scan (cl_name c) owner (mode AND RV9_MODE_EXCL \<noteq> 0) None (cs_claims (io_claims s))")
      case (Inr m)
      then show ?thesis using scan_granted [OF Inr] c that(2) by auto
    qed simp
    then show ?thesis using that(1) balD(9) [OF b] by (auto simp: path_new_def rv9_claim_take_def take_locked_def)
  qed
  ultimately show ?thesis using c(1,4) unfolding sole_def by blast
qed

end
