(* ===== verification/IoCalls.thy ===== *)
theory IoCalls
  imports IoReach
begin

text \<open>
  The calls inside a device, with the atomics of a call as steps of their own: a call is counted, then it
  looks whether its session is still the device's, and it leaves. Any step of the I/O manager may come
  between; the count of a device is always the calls that are past its counting and have not left.
\<close>

section \<open>What a step does to the counts\<close>

text \<open>A device's count of calls, its session, and its driver.\<close>

definition busy_view :: "iosys \<Rightarrow> string \<Rightarrow> (nat \<times> nat \<times> driver) option" where
  "busy_view s n = map_option (\<lambda>d. (dv_busy d, dv_session d, dv_drv d)) (find_dev n s)"

lemma find_dev_upd: "(\<And>d. dv_name (f d) = dv_name d) \<Longrightarrow>
    find_dev n (upd_dev m f s) = (if n = m then map_option f (find_dev n s) else find_dev n s)"
proof -
  assume f: "\<And>d. dv_name (f d) = dv_name d"
  have "find (\<lambda>d. dv_name d = n) (upd_first (\<lambda>d. dv_name d = m) f ds) =
      (if n = m then map_option f (find (\<lambda>d. dv_name d = n) ds) else find (\<lambda>d. dv_name d = n) ds)" for ds
    by (induction ds) (auto simp: f)
  then show ?thesis by (simp add: find_dev_def upd_dev_def)
qed

lemma busy_view_upd [simp]:
  assumes "\<And>d. dv_name (f d) = dv_name d \<and> dv_busy (f d) = dv_busy d \<and> dv_session (f d) = dv_session d \<and> dv_drv (f d) = dv_drv d"
  shows "busy_view (upd_dev m f s) = busy_view s"
  using assms by (auto simp: busy_view_def find_dev_upd option.map_comp comp_def fun_eq_iff)

lemma busy_view_devs: "io_devs t = io_devs s \<Longrightarrow> busy_view t = busy_view s"
  by (simp add: busy_view_def find_dev_def fun_eq_iff)

lemma busy_view_plain [simp]:
  "busy_view (tell_io cs s) = busy_view s" "busy_view (set_slot pid i v s) = busy_view s" "busy_view (upd_path a g s) = busy_view s"
  "busy_view (path_free a s) = busy_view s" "busy_view (s\<lparr>io_claims := c\<rparr>) = busy_view s" "busy_view (s\<lparr>io_tables := ts\<rparr>) = busy_view s"
  "busy_view (s\<lparr>io_filemgrs := fs\<rparr>) = busy_view s" "busy_view (s\<lparr>io_drivers := ds\<rparr>) = busy_view s" "busy_view (s\<lparr>io_refused := k\<rparr>) = busy_view s"
  "busy_view (s\<lparr>io_claims := c, io_paths := ps\<rparr>) = busy_view s" "busy_view (rv9_io_set_system_std i' out s) = busy_view s"
  "busy_view (dev_last_close n s) = busy_view s"
  by (rule busy_view_devs, simp add: tell_io_def set_slot_def upd_path_def path_free_def rv9_io_set_system_std_def dev_last_close_def split: option.split)+

lemma busy_view_parts [simp]:
  "busy_view (fst (path_new env d rest mode owner s)) = busy_view s" "busy_view (fst (table_for pid c room s)) = busy_view s"
  "busy_view (fst (both_open env fo a d rest mode s)) = busy_view s" "busy_view (open_undo fo a n s) = busy_view s"
  "busy_view (last_closes ns s) = busy_view s" "busy_view (fst (path_release x s)) = busy_view s"
proof -
  show "busy_view (fst (path_new env d rest mode owner s)) = busy_view s"
    by (simp add: path_new_def split: prod.split sum.split option.split)
  show "busy_view (fst (table_for pid c room s)) = busy_view s" by (simp add: table_for_def Let_def split: option.split)
  show "busy_view (fst (both_open env fo a d rest mode s)) = busy_view s"
    by (simp add: both_open_def dev_first_open_def path_open_def)
  show "busy_view (open_undo fo a n s) = busy_view s" by (simp add: open_undo_def uncount_def)
  show "busy_view (last_closes ns s) = busy_view s" by (induction ns arbitrary: s) (simp_all add: last_closes_def)
  show "busy_view (fst (path_release x s)) = busy_view s"
    by (simp add: path_release_def Let_def uncount_def split: option.split)
qed

lemma busy_view_dest:
  "path_new env d rest mode owner s = (t, r1) \<Longrightarrow> busy_view t = busy_view s"
  "table_for pid c room s = (t, r2) \<Longrightarrow> busy_view t = busy_view s"
  "both_open env fo a d rest mode s = (t, r3) \<Longrightarrow> busy_view t = busy_view s"
  "path_release x s = (t, r4) \<Longrightarrow> busy_view t = busy_view s"
  using busy_view_parts(1) [of env d rest mode owner s] busy_view_parts(2) [of pid c room s] busy_view_parts(3) [of env fo a d rest mode s]
    busy_view_parts(6) [of x s]
  by simp_all

lemma open_view: "busy_view (fst (rv9_io_open env pid nm mode s)) = busy_view s"
proof -
  have b: "busy_view t = busy_view s" if "rv9_io_open_begin env pid nm mode s = (t, r)" for t r
    using that by (auto simp: rv9_io_open_begin_def count_open_def split: option.splits if_splits prod.splits sum.splits dest: busy_view_dest) (metis busy_view_dest(1,2))+
  have e: "busy_view (fst (rv9_io_open_end env pid n mode x t)) = busy_view t" for n x t
    by (auto simp: rv9_io_open_end_def split: option.splits prod.splits dest: busy_view_dest)
  show ?thesis using b e by (auto simp: rv9_io_open_def split: prod.splits sum.splits)
qed

lemma open_detached_view: "rv9_io_open_detached env nm mode s = (t, r) \<Longrightarrow> busy_view t = busy_view s"
proof -
  have b: "busy_view t = busy_view s" if "rv9_io_open_detached_begin env nm mode s = (t, r)" for t r
    using that by (auto simp: rv9_io_open_detached_begin_def count_open_def split: option.splits if_splits prod.splits sum.splits dest: busy_view_dest)
  have e: "busy_view (fst (rv9_io_open_detached_end env n mode x t)) = busy_view t" for n x t
    by (auto simp: rv9_io_open_detached_end_def split: option.splits prod.splits dest: busy_view_dest)
  show "rv9_io_open_detached env nm mode s = (t, r) \<Longrightarrow> busy_view t = busy_view s"
    using b e by (auto simp: rv9_io_open_detached_def split: prod.splits sum.splits) (metis fst_conv)+
qed

lemma close_view: "busy_view (fst (rv9_io_close pid num s)) = busy_view s" "busy_view (rv9_io_close_path a s) = busy_view s"
  by (auto simp: rv9_io_close_def rv9_io_close_begin_def rv9_io_close_path_def split: option.splits prod.splits dest: busy_view_dest)

lemma dup2_view: "busy_view (fst (rv9_io_dup2 room pid src dst s)) = busy_view s"
  by (auto simp: rv9_io_dup2_def rv9_io_dup2_begin_def split: option.splits prod.splits if_splits dest: busy_view_dest) (metis busy_view_dest(2,4))+

lemma path_alloc_view: "path_alloc env d rest mode owner s = (t, r) \<Longrightarrow> busy_view t = busy_view s"
  by (auto simp: path_alloc_def Let_def count_open_def split: option.splits prod.splits if_splits sum.splits dest: busy_view_dest)
    (metis busy_view_dest(1,3))+

lemma std_slot_view: "busy_view (std_slot env c sl dn mode s) = busy_view s"
proof -
  have "busy_view (foldl (\<lambda>s i. set_slot c i v s) s is) = busy_view s" for v s "is" by (induction "is" arbitrary: s) simp_all
  then show ?thesis by (auto simp: std_slot_def split: option.splits prod.splits sum.splits dest: path_alloc_view)
qed

lemma fork_view: "busy_view (io_on_fork ei eo p c s) = busy_view s"
proof -
  have "busy_view (share_slot p c s i) = busy_view s" for s i by (simp add: share_slot_def split: option.split)
  then have "busy_view (foldl (share_slot p c) s is) = busy_view s" for s "is" by (induction "is" arbitrary: s) simp_all
  then show ?thesis by (auto simp: io_on_fork_def std_slot_view split: option.splits prod.splits dest: busy_view_dest)
qed

lemma exit_view: "io_on_exit_begin pid s = (t, idle, fs) \<Longrightarrow> busy_view t = busy_view s"
proof -
  have "busy_view (fst (foldl (\<lambda>(s, idle) a. case path_release a s of (s1, i) \<Rightarrow> (s1, idle @ (case i of None \<Rightarrow> [] | Some d \<Rightarrow> [d]))) (s, ds) xs)) =
      busy_view s" for xs s ds
  proof (induction xs arbitrary: s ds)
    case (Cons x xs)
    obtain s1 i where r: "path_release x s = (s1, i)" by (metis surj_pair)
    then show ?case using Cons.IH [of s1] busy_view_dest(4) [OF r] by simp
  qed simp
  then have "release_slots xs s = (u, ds) \<Longrightarrow> busy_view u = busy_view s" for xs u ds
    unfolding release_slots_def by (metis fst_conv)
  then show "io_on_exit_begin pid s = (t, idle, fs) \<Longrightarrow> busy_view t = busy_view s"
    by (auto simp: io_on_exit_begin_def Let_def split: option.splits prod.splits)
qed

lemma hangup_turn_view: "busy_view (fst (hangup_turn up n s)) = busy_view s"
  by (auto simp: hangup_turn_def hangup_end_def Let_def split: option.splits)

text \<open>A hangup moves its device to the next session.\<close>

lemma hangup_begin_view:
  "busy_view (fst (hangup_begin p d s)) n = busy_view s n \<or>
   n = dv_name d \<and> busy_view (fst (hangup_begin p d s)) n = map_option (\<lambda>(b, ses, dr). (b, cast32 (ses + 1), dr)) (busy_view s n)"
proof -
  let ?f = "\<lambda>d. d\<lparr>dv_hanging := True, dv_session := cast32 (dv_session d + 1), dv_open_count := 0\<rparr>"
  have "busy_view (upd_dev (dv_name d) ?f s) n =
      (if n = dv_name d then map_option (\<lambda>(b, ses, dr). (b, cast32 (ses + 1), dr)) (busy_view s n) else busy_view s n)"
    by (simp add: busy_view_def find_dev_upd option.map_comp comp_def)
  then show ?thesis by (auto simp: hangup_begin_def Let_def)
qed

text \<open>A device that is attached has no calls inside.\<close>

lemma attach_view:
  "busy_view (fst (rv9_io_attach room init mount (Some ds) s)) n = busy_view s n \<or>
   busy_view s n = None \<and> (\<exists>dr. busy_view (fst (rv9_io_attach room init mount (Some ds) s)) n = Some (0, 0, dr))"
proof -
  have "busy_view (s\<lparr>io_devs := new_dev (cstr 16 (ds_name ds)) fm drv o' st # io_devs s\<rparr>) n = busy_view s n \<or>
      busy_view s n = None \<and> (\<exists>dr. busy_view (s\<lparr>io_devs := new_dev (cstr 16 (ds_name ds)) fm drv o' st # io_devs s\<rparr>) n = Some (0, 0, dr))"
    if "find_dev (cstr 16 (ds_name ds)) s = None" for fm drv o' st s
    using that by (auto simp: busy_view_def find_dev_def new_dev_def)
  moreover have "find_dev m (tell_io cs s) = find_dev m s" for m cs s by (simp add: find_dev_def tell_io_def)
  ultimately show ?thesis by (auto simp: rv9_io_attach_def Let_def split: option.split) (metis busy_view_plain(1))+
qed

text \<open>What the counting of a call does to its device, and the leaving of it.\<close>

definition counted_dev :: "iosys \<Rightarrow> path \<Rightarrow> bool" where
  "counted_dev s p \<longleftrightarrow> (\<exists>b ses dr. busy_view s (pa_dev p) = Some (b, ses, dr) \<and> dr_open dr)"

lemma count_view: "busy_view (session_count p s) n =
    (if n = pa_dev p \<and> counted_dev s p then map_option (\<lambda>(b, x). (cast32 (b + 1), x)) (busy_view s n) else busy_view s n)"
  by (auto simp: session_count_def counted_dev_def busy_view_def find_dev_upd count_busy_def split: option.split dest: find_dev_Some)

lemma leave_view: "busy_view (session_leave p s) n =
    (if n = pa_dev p \<and> counted_dev s p then map_option (\<lambda>(b, x). (cast32 (b + UINT32_MAX), x)) (busy_view s n) else busy_view s n)"
  by (auto simp: session_leave_def counted_dev_def busy_view_def find_dev_upd uncount_busy_def split: option.split dest: find_dev_Some)

lemma inside_view: "call_inside p bs s = (t, r) \<Longrightarrow>
    (case r of Inr a \<Rightarrow> busy_view t = busy_view s | Inl e \<Rightarrow> busy_view t = busy_view (session_leave p s))"
  by (auto simp: call_inside_def session_check_def session_leave_def split: option.splits if_splits)

lemma enter_view: "call_enter e a s = (t, r) \<Longrightarrow>
    (case r of Inl x \<Rightarrow> t = s | Inr p \<Rightarrow> t = session_count p s \<and> busy_view s (pa_dev p) \<noteq> None)"
  by (auto simp: call_enter_def busy_view_def split: option.splits if_splits)

lemma count_leave:
  assumes "\<And>n b x. busy_view s n = Some (b, x) \<Longrightarrow> b < W32"
  shows "busy_view (session_leave p (session_count p s)) = busy_view s"
proof
  fix n
  have c: "counted_dev (session_count p s) p = counted_dev s p" by (auto simp: counted_dev_def count_view)
  have "cast32 (cast32 (b + 1) + UINT32_MAX) = b" if "b < W32" for b
    using that by (cases "b + 1 = W32") (simp_all add: cast32_def)
  then show "busy_view (session_leave p (session_count p s)) n = busy_view s n"
    using assms by (auto simp: leave_view count_view c option.map_comp split: option.split) (cases "busy_view s n"; auto)
qed

lemma park_view:
  assumes "\<And>n b x. busy_view s n = Some (b, x) \<Longrightarrow> b < W32"
  shows "busy_view (fst (apply_failsafe env answer f s)) = busy_view s"
proof -
  obtain s1 r where o: "rv9_io_open_detached env (Some (fst f)) RV9_MODE_WRITE s = (s1, r)" by (metis surj_pair)
  have v1: "busy_view s1 = busy_view s" by (rule open_detached_view [OF o])
  have w: "busy_view (fst (call_through e (Some a) bs answer s1)) = busy_view s1" for e a bs
  proof -
    obtain s2 q where c: "call_enter e (Some a) s1 = (s2, q)" by (metis surj_pair)
    show ?thesis
    proof (cases q)
      case (Inl x)
      then show ?thesis using c enter_view [OF c] by (simp add: call_through_def call_begin_def)
    next
      case (Inr p)
      have s2: "s2 = session_count p s1" using enter_view [OF c] Inr by simp
      have p: "find_path a s1 = Some p" using c Inr by (auto simp: call_enter_def split: option.splits if_splits)
      have bk: "busy_view (session_leave p s2) = busy_view s1" unfolding s2 by (rule count_leave) (use assms v1 in simp)
      obtain s3 z where i: "call_inside p bs s2 = (s3, z)" by (metis surj_pair)
      show ?thesis
      proof (cases z)
        case (Inl x)
        then show ?thesis using c Inr i inside_view [OF i] bk by (simp add: call_through_def call_begin_def)
      next
        case (Inr b)
        have s3: "s3 = tell_io [FmCall (pa_at p) bs] s2" "b = pa_at p"
          using i Inr by (auto simp: call_inside_def session_check_def split: option.splits if_splits)
        have "find_path b s3 = Some p"
        proof -
          have "io_paths s2 = io_paths s1" by (simp add: s2 session_count_def upd_dev_def split: option.split)
          moreover have "pa_at p = a" using p by (auto simp: find_path_def find_Some_iff)
          ultimately show ?thesis using p s3 by (simp add: find_path_def tell_io_def)
        qed
        then have "fst (call_through e (Some a) bs answer s1) = session_leave p s3"
          using c \<open>q = Inr p\<close> i Inr by (simp add: call_through_def call_begin_def call_end_def)
        moreover have "busy_view (session_leave p s3) = busy_view (session_leave p s2)"
        proof
          have "counted_dev s3 p = counted_dev s2 p" by (simp add: counted_dev_def s3)
          then show "busy_view (session_leave p s3) n = busy_view (session_leave p s2) n" for n by (simp add: leave_view s3)
        qed
        ultimately show ?thesis using bk by simp
      qed
    qed
  qed
  show ?thesis using o v1 w by (auto simp: apply_failsafe_def rv9_io_write_path_def close_view split: sum.split prod.split) (metis fst_conv w)+
qed

section \<open>Calls as steps\<close>

text \<open>The calls past their counting: the path, and whether the session was found to be the device's. Steps of
  the I/O manager that are parts of a call are made only for these.\<close>

datatype call_op = Other io_op | Enter entry nat | Inside nat "nat list" | Leave nat

fun part_of_call :: "io_op \<Rightarrow> bool" where
  "part_of_call (IEnter e a) = True"
| "part_of_call (IInside p bs) = True"
| "part_of_call (ILeave p) = True"
| "part_of_call op = False"

definition drop_nth :: "nat \<Rightarrow> 'a list \<Rightarrow> 'a list" where
  "drop_nth k xs = take k xs @ drop (Suc k) xs"

fun calls_step :: "(iosys \<times> nat list) \<times> (path \<times> bool) list \<Rightarrow> call_op \<Rightarrow> (iosys \<times> nat list) \<times> (path \<times> bool) list" where
  "calls_step (sd, C) (Other op) = (if part_of_call op then (sd, C) else (io_step sd op, C))"
| "calls_step (sd, C) (Enter e a) =
     (io_step sd (IEnter e a), case snd (call_enter e (Some a) (fst sd)) of Inl err \<Rightarrow> C | Inr p \<Rightarrow> C @ [(p, False)])"
| "calls_step (sd, C) (Inside k bs) =
     (if k < length C \<and> \<not> snd (C ! k)
      then (io_step sd (IInside (fst (C ! k)) bs),
            case snd (call_inside (fst (C ! k)) bs (fst sd)) of Inl err \<Rightarrow> drop_nth k C | Inr a \<Rightarrow> C[k := (fst (C ! k), True)])
      else (sd, C))"
| "calls_step (sd, C) (Leave k) =
     (if k < length C \<and> snd (C ! k) then (io_step sd (ILeave (fst (C ! k))), drop_nth k C) else (sd, C))"

fun call_op_ok :: "call_op \<Rightarrow> bool" where
  "call_op_ok (Other op) = io_op_ok op"
| "call_op_ok c = True"

text \<open>A run of these is a run of the I/O manager.\<close>

lemma calls_are_io: "list_all call_op_ok cs \<Longrightarrow> foldl calls_step (sd, C) cs = (te, E) \<Longrightarrow>
    \<exists>ops. list_all io_op_ok ops \<and> length ops \<le> length cs \<and> foldl io_step sd ops = te"
proof (induction cs arbitrary: sd C)
  case (Cons c cs)
  obtain sd1 C1 where 1: "calls_step (sd, C) c = (sd1, C1)" by (metis surj_pair)
  obtain ops where ops: "list_all io_op_ok ops" "length ops \<le> length cs" "foldl io_step sd1 ops = te"
    using Cons.IH [of sd1 C1] Cons.prems 1 by auto
  have "sd1 = sd \<or> (\<exists>op. io_op_ok op \<and> sd1 = io_step sd op)"
    using 1 Cons.prems(1) by (cases c) (auto split: if_splits, (metis io_op_ok.simps)+)
  then show ?case
  proof
    assume "sd1 = sd"
    then show ?thesis using ops by (intro exI [of _ ops]) simp
  next
    assume "\<exists>op. io_op_ok op \<and> sd1 = io_step sd op"
    then obtain op where "io_op_ok op" "sd1 = io_step sd op" by blast
    then show ?thesis using ops by (intro exI [of _ "op # ops"]) simp
  qed
qed (auto intro: exI [of _ "[]"])

section \<open>The count is the calls\<close>

definition calls_on :: "iosys \<Rightarrow> string \<Rightarrow> (path \<times> bool) list \<Rightarrow> nat" where
  "calls_on s n C = length (filter (\<lambda>p. pa_dev p = n \<and> counted_dev s p) (map fst C))"

definition calls_inv :: "iosys \<Rightarrow> (path \<times> bool) list \<Rightarrow> bool" where
  "calls_inv s C \<longleftrightarrow> (\<forall>n b ses dr. busy_view s n = Some (b, ses, dr) \<longrightarrow> b = calls_on s n C) \<and>
     (\<forall>(p, i)\<in>set C. \<exists>b ses dr. busy_view s (pa_dev p) = Some (b, ses, dr) \<and> pa_session p \<le> ses)"

lemma calls_on_le: "calls_on s n C \<le> length C"
  unfolding calls_on_def using length_filter_le [of _ "map fst C"] by simp

lemma calls_on_drop: "k < length C \<Longrightarrow> calls_on s n C = calls_on s n (drop_nth k C) + (if pa_dev (fst (C ! k)) = n \<and> counted_dev s (fst (C ! k)) then 1 else 0)"
proof -
  assume k: "k < length C"
  have "C = take k C @ C ! k # drop (Suc k) C" using k by (simp add: id_take_nth_drop)
  then have "calls_on s n C = calls_on s n (take k C @ C ! k # drop (Suc k) C)" by simp
  then show ?thesis by (simp add: calls_on_def drop_nth_def)
qed

lemma calls_inv_view: "busy_view t = busy_view s \<Longrightarrow> calls_inv s C \<Longrightarrow> calls_inv t C"
  by (simp add: calls_inv_def calls_on_def counted_dev_def)

lemma calls_invD:
  assumes "calls_inv s C"
  shows "busy_view s n = Some (b, x) \<Longrightarrow> b = calls_on s n C"
    "(p, i) \<in> set C \<Longrightarrow> \<exists>b ses dr. busy_view s (pa_dev p) = Some (b, ses, dr) \<and> pa_session p \<le> ses"
proof -
  show "busy_view s n = Some (b, x) \<Longrightarrow> b = calls_on s n C" using assms unfolding calls_inv_def by (cases x) blast
  show "(p, i) \<in> set C \<Longrightarrow> \<exists>b ses dr. busy_view s (pa_dev p) = Some (b, ses, dr) \<and> pa_session p \<le> ses"
    using assms unfolding calls_inv_def by blast
qed

text \<open>Steps that leave every device's count, and let no session go back.\<close>

lemma calls_inv_later:
  assumes i: "calls_inv s C"
    and v: "\<And>n. busy_view t n = busy_view s n \<or> busy_view s n = None \<and> (\<exists>dr. busy_view t n = Some (0, 0, dr)) \<or>
      (\<exists>b ses ses' dr. busy_view s n = Some (b, ses, dr) \<and> busy_view t n = Some (b, ses', dr) \<and> ses \<le> ses')"
  shows "calls_inv t C"
proof -
  have c: "counted_dev t p = counted_dev s p" if "(p, i) \<in> set C" for p i
    using v [of "pa_dev p"] calls_invD(2) [OF i that] by (auto simp: counted_dev_def)
  have "filter (\<lambda>p. pa_dev p = n \<and> counted_dev t p) (map fst C) = filter (\<lambda>p. pa_dev p = n \<and> counted_dev s p) (map fst C)" for n
    by (rule filter_cong [OF refl]) (use c in force)
  then have on: "calls_on t n C = calls_on s n C" for n by (simp add: calls_on_def)
  have none: "calls_on s n C = 0" if "busy_view s n = None" for n
    using that by (auto simp: calls_on_def filter_empty_conv counted_dev_def)
  show ?thesis unfolding calls_inv_def on
  proof (intro conjI allI impI ballI)
    fix n b ses dr assume "busy_view t n = Some (b, ses, dr)"
    then show "b = calls_on s n C" using v [of n] none [of n] calls_invD(1) [OF i, of n] by (cases "busy_view s n") auto
  next
    fix x assume "x \<in> set C"
    moreover obtain p k where xp: "x = (p, k)" by (metis surj_pair)
    ultimately have x: "x = (p, k)" "(p, k) \<in> set C" by simp_all
    then show "case x of (p, i) \<Rightarrow> \<exists>b ses dr. busy_view t (pa_dev p) = Some (b, ses, dr) \<and> pa_session p \<le> ses"
      using v [of "pa_dev p"] calls_invD(2) [OF i x(2)] by force
  qed
qed

lemma other_view:
  assumes op: "\<not> part_of_call op" and st: "io_step (s, D) op = (t, D')" and i: "io_inv N M s E" and N: "Suc N < W32"
    and small: "\<And>n b x. busy_view s n = Some (b, x) \<Longrightarrow> b < W32"
  shows "busy_view t n = busy_view s n \<or> busy_view s n = None \<and> (\<exists>dr. busy_view t n = Some (0, 0, dr)) \<or>
      (\<exists>b ses ses' dr. busy_view s n = Some (b, ses, dr) \<and> busy_view t n = Some (b, ses', dr) \<and> ses \<le> ses')"
proof (cases op)
  case (IAttach room init mount ds)
  then show ?thesis using st attach_view [of room init mount ds s n] by auto
next
  case (IHangup pid num)
  have "cast32 (ses + 1) = ses + 1" if v: "busy_view s n = Some (b, ses, dr)" for n b ses dr
  proof -
    obtain d where d: "find_dev n s = Some d" "dv_session d = ses" using v by (auto simp: busy_view_def)
    then have "d \<in> set (io_devs s)" using find_dev_Some by simp
    then have "ses \<le> N" using balD(6) [OF io_invD(1) [OF i]] d(2) by blast
    then show ?thesis using N by (simp add: cast32_def)
  qed
  then have on: "busy_view (fst (hangup_begin p d s)) n = busy_view s n \<or>
      (\<exists>b ses ses' dr. busy_view s n = Some (b, ses, dr) \<and> busy_view (fst (hangup_begin p d s)) n = Some (b, ses', dr) \<and> ses \<le> ses')" for p d
    using hangup_begin_view [of p d s n] by (cases "busy_view s n") auto
  have "t = s \<or> (\<exists>p d. t = fst (hangup_begin p d s))" using st IHangup by (auto split: option.splits)
  then show ?thesis using on by blast
next
  case (IExit pid)
  obtain u idle fs where e: "io_on_exit_begin pid s = (u, idle, fs)" by (metis surj_pair)
  then show ?thesis using st IExit exit_view [OF e] by auto
next
  case (IPark env answer nm v)
  have "busy_view (fst (apply_failsafe (fresh_env env s) answer (nm, v) s)) = busy_view s" by (rule park_view) (rule small)
  then show ?thesis using st IPark by simp
next
  case (IDetach env nm mode)
  then show ?thesis using st by (auto split: prod.splits sum.splits dest: open_detached_view)
qed (use op st in \<open>auto simp: open_view close_view dup2_view fork_view hangup_turn_view Let_def rv9_io_register_filemgr_def rv9_io_register_driver_def split: if_splits\<close>)

lemma leave_inv:
  assumes inv: "calls_inv s C" and k: "k < length C" and C: "length C < W32"
  shows "calls_inv (session_leave (fst (C ! k)) s) (drop_nth k C)"
proof -
  let ?p = "fst (C ! k)"
  let ?u = "session_leave ?p s" and ?E = "drop_nth k C"
  have cd: "counted_dev ?u q = counted_dev s q" for q by (auto simp: counted_dev_def leave_view)
  have on: "calls_on ?u n ?E = calls_on s n ?E" for n by (simp add: calls_on_def cd)
  have "b = calls_on ?u n ?E" if b: "busy_view ?u n = Some (b, x)" for n b x
  proof -
    obtain b0 where b0: "busy_view s n = Some (b0, x)" "b = (if n = pa_dev ?p \<and> counted_dev s ?p then cast32 (b0 + UINT32_MAX) else b0)"
      using b by (auto simp: leave_view split: if_splits)
    have e: "b0 = calls_on s n C" by (rule calls_invD(1) [OF inv b0(1)])
    have "b0 < W32" using e calls_on_le [of s n C] C by simp
    moreover have "cast32 (b0 + UINT32_MAX) = b0 - 1" if "0 < b0" "b0 < W32"
    proof -
      have "b0 + UINT32_MAX = (b0 - 1) + W32" using that by simp
      moreover have "b0 - 1 < W32" using that by simp
      ultimately show ?thesis unfolding cast32_def by (metis mod_add_self2 mod_less)
    qed
    ultimately show ?thesis using b0(2) e calls_on_drop [OF k, of s n] on by auto
  qed
  moreover have "\<exists>b ses dr. busy_view ?u (pa_dev q) = Some (b, ses, dr) \<and> pa_session q \<le> ses" if "(q, j) \<in> set ?E" for q j
  proof -
    have "(q, j) \<in> set C" using that by (auto simp: drop_nth_def dest: in_set_takeD in_set_dropD)
    from calls_invD(2) [OF inv this] obtain b ses dr where "busy_view s (pa_dev q) = Some (b, ses, dr)" "pa_session q \<le> ses" by blast
    then show ?thesis by (auto simp: leave_view)
  qed
  ultimately show ?thesis unfolding calls_inv_def by blast
qed

text \<open>Every step.\<close>

lemma calls_step_ok:
  assumes inv: "calls_inv s C" and i: "io_inv N M s (mset D)" and N: "Suc N < W32" and C: "Suc (length C) < W32"
    and st: "calls_step ((s, D), C) c = ((t, D'), C')"
  shows "calls_inv t C' \<and> length C' \<le> Suc (length C)"
proof (cases c)
  case (Other op)
  show ?thesis
  proof (cases "part_of_call op")
    case False
    then have t: "io_step (s, D) op = (t, D')" "C' = C" using st Other by auto
    have "b < W32" if "busy_view s n = Some (b, x)" for n b x
      using calls_invD(1) [OF inv that] calls_on_le [of s n C] C by simp
    then have "calls_inv t C" by (intro calls_inv_later [OF inv] other_view [OF False t(1) i N])
    then show ?thesis using t by simp
  qed (use st Other inv in simp)
next
  case (Enter e a)
  obtain u r where r: "call_enter e (Some a) s = (u, r)" by (metis surj_pair)
  have t: "t = u" "C' = (case r of Inl err \<Rightarrow> C | Inr p \<Rightarrow> C @ [(p, False)])" using st Enter r by simp_all
  show ?thesis
  proof (cases r)
    case (Inl x)
    then show ?thesis using t enter_view [OF r] inv by simp
  next
    case (Inr p)
    have u: "u = session_count p s" using enter_view [OF r] Inr by simp
    have fp: "find_path a s = Some p" using r Inr by (auto simp: call_enter_def split: option.splits if_splits)
    have cd: "counted_dev u q = counted_dev s q" for q by (auto simp: u counted_dev_def count_view)
    have on: "calls_on u n C' = calls_on s n C + (if n = pa_dev p \<and> counted_dev s p then 1 else 0)" for n
      by (simp add: t(2) Inr calls_on_def cd)
    have "p \<in> set (io_paths s)" using fp by (auto simp: find_path_def find_Some_iff)
    then obtain d where d: "d \<in> set (io_devs s)" "dv_name d = pa_dev p" "pa_session p \<le> dv_session d"
      using path_device [OF io_invD(1) [OF i]] by metis
    have "find_dev (pa_dev p) s = Some d" using find_dev_mem [OF io_invD(1) [OF i] d(1)] d(2) by simp
    then have bp: "busy_view s (pa_dev p) = Some (dv_busy d, dv_session d, dv_drv d)" by (simp add: busy_view_def)
    have "b = calls_on u n C'" if b: "busy_view u n = Some (b, x)" for n b x
    proof -
      obtain b0 where b0: "busy_view s n = Some (b0, x)" "b = (if n = pa_dev p \<and> counted_dev s p then cast32 (b0 + 1) else b0)"
        using b by (auto simp: u count_view split: if_splits)
      have e: "b0 = calls_on s n C" by (rule calls_invD(1) [OF inv b0(1)])
      then have "b0 + 1 < W32" using calls_on_le [of s n C] C by simp
      then have "cast32 (b0 + 1) = b0 + 1" unfolding cast32_def by (rule mod_less)
      then show ?thesis using b0(2) on e by (cases "n = pa_dev p \<and> counted_dev s p") auto
    qed
    moreover have "\<exists>b ses dr. busy_view u (pa_dev q) = Some (b, ses, dr) \<and> pa_session q \<le> ses" if "(q, j) \<in> set C'" for q j
    proof -
      have "\<exists>b ses dr. busy_view s (pa_dev q) = Some (b, ses, dr) \<and> pa_session q \<le> ses"
        using that bp d(3) calls_invD(2) [OF inv, of q j] by (auto simp: t(2) Inr)
      then show ?thesis by (auto simp: u count_view)
    qed
    ultimately have "calls_inv u C'" unfolding calls_inv_def by blast
    then show ?thesis using t by (simp add: Inr)
  qed
next
  case (Inside k bs)
  show ?thesis
  proof (cases "k < length C \<and> \<not> snd (C ! k)")
    case True
    obtain u r where r: "call_inside (fst (C ! k)) bs s = (u, r)" by (metis surj_pair)
    have t: "t = u" "C' = (case r of Inl err \<Rightarrow> drop_nth k C | Inr a \<Rightarrow> C[k := (fst (C ! k), True)])" using st Inside True r by simp_all
    show ?thesis
    proof (cases r)
      case (Inl x)
      have "calls_inv (session_leave (fst (C ! k)) s) (drop_nth k C)" using leave_inv [OF inv] True C by simp
      then show ?thesis using inside_view [OF r] calls_inv_view t Inl by (auto simp: drop_nth_def)
    next
      case (Inr a)
      let ?C = "C[k := (fst (C ! k), True)]"
      have m: "map fst ?C = map fst C" using True by (simp add: map_update list_update_same_conv)
      have "(q, j) \<in> set ?C \<Longrightarrow> \<exists>j. (q, j) \<in> set C" for q j
        using True nth_mem [of k C] by (cases "C ! k") (auto simp: in_set_conv_nth nth_list_update split: if_splits)
      then have "calls_inv s ?C" using inv unfolding calls_inv_def calls_on_def m by blast
      then show ?thesis using inside_view [OF r] calls_inv_view t Inr by auto
    qed
  qed (use st Inside inv in auto)
next
  case (Leave k)
  show ?thesis
  proof (cases "k < length C \<and> snd (C ! k)")
    case True
    then have "t = session_leave (fst (C ! k)) s" "C' = drop_nth k C" using st Leave by simp_all
    then show ?thesis using leave_inv [OF inv] True C by (simp add: drop_nth_def)
  qed (use st Leave inv in auto)
qed

lemma calls_reach:
  "list_all call_op_ok cs \<Longrightarrow> length cs < 2 ^ 30 \<Longrightarrow> foldl calls_step ((io_boot, []), []) cs = ((s, D), C) \<Longrightarrow>
    io_inv (length cs) (3 * length cs) s (mset D) \<and> calls_inv s C \<and> length C \<le> length cs"
proof (induction cs arbitrary: s D C rule: rev_induct)
  case Nil
  then show ?case using io_boot_ok by (auto simp: calls_inv_def calls_on_def busy_view_def io_boot_def find_dev_def)
next
  case (snoc c cs)
  obtain s1 D1 C1 where 1: "foldl calls_step ((io_boot, []), []) cs = ((s1, D1), C1)" by (metis surj_pair)
  have IH: "io_inv (length cs) (3 * length cs) s1 (mset D1)" "calls_inv s1 C1" "length C1 \<le> length cs"
    using snoc.IH [OF _ _ 1] snoc.prems(1,2) by simp_all
  have st: "calls_step ((s1, D1), C1) c = ((s, D), C)" using snoc.prems(3) 1 by simp
  have "calls_inv s C \<and> length C \<le> Suc (length C1)" by (rule calls_step_ok [OF IH(2,1) _ _ st]) (use IH(3) snoc.prems(2) in simp_all)
  moreover have "io_inv (length (cs @ [c])) (3 * length (cs @ [c])) s (mset D)"
  proof -
    obtain ops where ops: "list_all io_op_ok ops" "length ops \<le> length (cs @ [c])" "foldl io_step (io_boot, []) ops = (s, D)"
      using calls_are_io [OF snoc.prems(1,3)] by blast
    have "io_inv (length ops) (3 * length ops) s (mset D)" by (rule io_reach [OF ops(1) _ ops(3)]) (use ops(2) snoc.prems(2) in simp)
    then show ?thesis using ops(2) io_inv_session io_inv_mono by (meson mult_le_mono2)
  qed
  ultimately show ?case using IH(3) by simp
qed

section \<open>Hanging up\<close>

text \<open>C35. Hanging up a session, in any state the system can reach, with calls of any number counted, inside or
  leaving. The device has no opens left and refuses new ones until the driver is done; every path of it is
  stale, its calls fail, and closing one, or the end of its owner, changes the device no more and closes no
  driver; and a call that was counted before the hangup and looks at the session only after it is turned
  back. Of a device with sessions the count is exactly the calls past their counting, so no look frees
  anything under one of them: while there is one, the driver is not told to close, whether the time is up
  or not; when it is, the session is abandoned, its driver's state let go; and when there is none, the
  look frees the session and the device may be opened again.\<close>

theorem hangup_ends_session:
  assumes "list_all call_op_ok cs" "length cs < 2 ^ 30" "foldl calls_step ((io_boot, []), []) cs = ((s, D), C)"
  shows "(find_path a s = Some p \<and> find_dev (pa_dev p) s = Some d \<and> hangup_begin p d s = (t, Inr n) \<longrightarrow>
     (\<exists>x. find_dev n t = Some x \<and> dv_open_count x = 0 \<and> dev_open_refused x \<and>
       (\<forall>q\<in>set (io_paths t). pa_dev q = n \<longrightarrow>
          stale q x \<and> (\<forall>e bs. \<exists>err. snd (call_begin e (Some (pa_at q)) bs t) = Inl err) \<and>
          (case path_release (Some (pa_at q)) t of (u, idle) \<Rightarrow> idle = None \<and> find_dev n u = Some x)) \<and>
       (\<forall>(q, inside)\<in>set C. pa_dev q = n \<longrightarrow> (\<forall>bs. \<exists>err. snd (call_inside q bs t) = Inl err)))) \<and>
    (find_dev m s = Some y \<and> dr_open (dv_drv y) \<longrightarrow>
      dv_busy y = length (filter (\<lambda>(q, inside). pa_dev q = m) C) \<and>
      (case hangup_turn up m s of (u, over) \<Rightarrow>
        if \<exists>(q, inside)\<in>set C. pa_dev q = m
        then io_told u = io_told s \<and> over = up \<and>
          find_dev m u = Some (if up then y\<lparr>dv_hanging := False, dv_drv_state := 0\<rparr> else y)
        else io_told u = (if dr_close (dv_drv y) then DrvClose m # io_told s else io_told s) \<and> over \<and>
          find_dev m u = Some (y\<lparr>dv_hanging := False\<rparr>)))"
proof (intro conjI impI)
  note R = calls_reach [OF assms]
  then have i: "io_inv (length cs) (3 * length cs) s (mset D)" and inv: "calls_inv s C" and few: "length C \<le> length cs" by simp_all
  note b = io_invD(1) [OF i]
  {
    assume h: "find_path a s = Some p \<and> find_dev (pa_dev p) s = Some d \<and> hangup_begin p d s = (t, Inr n)"
    let ?f = "\<lambda>d. d\<lparr>dv_hanging := True, dv_session := cast32 (dv_session d + 1), dv_open_count := 0\<rparr>"
    have h2: "find_dev (pa_dev p) s = Some d" and h3: "hangup_begin p d s = (t, Inr n)" using h by simp_all
    have N: "Suc (length cs) < W32" using assms(2) by simp
    note bt = conjunct1 [OF bal_hangup [OF b h2 N h3]]
    have dd: "d \<in> set (io_devs s)" using find_dev_Some [OF h2] by simp
    have st: "dr_open (dv_drv d)" "n = dv_name d" "io_devs t = io_devs (upd_dev n ?f s)" "io_paths t = io_paths s"
      using h3 by (auto simp: hangup_begin_def Let_def tell_io_def upd_dev_def split: if_splits)
    let ?x = "?f d"
    have xm: "?x \<in> set (io_devs t)" unfolding st(3) upd_dev_map [OF b] st(2) using dd by force
    have x: "find_dev n t = Some ?x" using find_dev_mem [OF bt xm] st(2) by simp
    have rx: "dr_open (dv_drv ?x)" "dv_session ?x = Suc (dv_session d)" "dv_name ?x = n" using st(1,2) balD(6) [OF b dd] N by simp_all
    have stale: "stale q ?x" if q: "q \<in> set (io_paths t)" "pa_dev q = n" for q
    proof -
      obtain e where e: "e \<in> set (io_devs s)" "dv_name e = pa_dev q" "pa_session q \<le> dv_session e"
        using path_device [OF b, of q] q(1) st(4) by metis
      have "e = d" using balD(2) [OF b] e(1,2) dd q(2) st(2) by (metis distinct_map inj_onD)
      then show ?thesis using e(3) rx by (simp add: stale_def)
    qed
    have turned: "\<exists>err. snd (call_inside q bs u) = Inl err"
      if "find_dev n u = Some z" "dr_open (dv_drv z)" "dv_session z = dv_session ?x" "pa_dev q = n" "pa_session q \<noteq> dv_session ?x" for q bs u z
      using that by (simp add: call_inside_def session_check_def)
    have fails: "\<exists>err. snd (call_begin e (Some (pa_at q)) bs t) = Inl err" if q: "q \<in> set (io_paths t)" "pa_dev q = n" for q e bs
    proof -
      have s: "pa_session q \<noteq> dv_session ?x" using stale [OF q] by (simp add: stale_def)
      have f: "find_dev n (session_count q t) = Some (count_busy ?x)"
        using x q(2) rx(1,3) find_dev_upd [of count_busy n n t] by (simp add: session_count_def count_busy_def)
      have "\<exists>err. snd (call_inside q bs (session_count q t)) = Inl err"
        by (rule turned [OF f _ _ q(2) s]) (use rx in \<open>simp_all add: count_busy_def\<close>)
      then show ?thesis using find_path_mem [OF bt q(1)] q(2) x by (auto simp: call_begin_def call_enter_def split: prod.split)
    qed
    have away: "case path_release (Some (pa_at q)) t of (u, idle) \<Rightarrow> idle = None \<and> find_dev n u = Some ?x" if q: "q \<in> set (io_paths t)" "pa_dev q = n" for q
    proof -
      have same: "find_dev n (upd_path a g t) = find_dev n t" "find_dev n (path_free a t) = find_dev n t"
          "find_dev n (path_free a (tell_io cs t)) = find_dev n t" for a g cs
        by (simp_all add: find_dev_def upd_path_def path_free_def tell_io_def split: option.split)
      show ?thesis using stale [OF q] find_path_mem [OF bt q(1)] q(2) x by (simp add: path_release_def Let_def same)
    qed
    have pending: "\<exists>err. snd (call_inside q bs t) = Inl err" if q: "(q, k) \<in> set C" "pa_dev q = n" for q k bs
    proof -
      obtain c ses dr where v: "busy_view s (pa_dev q) = Some (c, ses, dr)" "pa_session q \<le> ses" using calls_invD(2) [OF inv q(1)] by blast
      have "find_dev n s = Some d" using find_dev_mem [OF b dd] st(2) by simp
      then have "pa_session q \<le> dv_session d" using v q(2) by (simp add: busy_view_def)
      then show ?thesis using turned [OF x rx(1) refl q(2)] rx(2) by simp
    qed
    show "\<exists>x. find_dev n t = Some x \<and> dv_open_count x = 0 \<and> dev_open_refused x \<and>
       (\<forall>q\<in>set (io_paths t). pa_dev q = n \<longrightarrow>
          stale q x \<and> (\<forall>e bs. \<exists>err. snd (call_begin e (Some (pa_at q)) bs t) = Inl err) \<and>
          (case path_release (Some (pa_at q)) t of (u, idle) \<Rightarrow> idle = None \<and> find_dev n u = Some x)) \<and>
       (\<forall>(q, inside)\<in>set C. pa_dev q = n \<longrightarrow> (\<forall>bs. \<exists>err. snd (call_inside q bs t) = Inl err))"
      using x stale fails away pending rx(1) by (intro exI [of _ ?x]) (auto simp: dev_open_refused_def)
  }
  assume y: "find_dev m s = Some y \<and> dr_open (dv_drv y)"
  have v: "busy_view s m = Some (dv_busy y, dv_session y, dv_drv y)" using y by (simp add: busy_view_def)
  have "calls_on s m C = length (filter (\<lambda>(q, inside). pa_dev q = m) C)"
  proof -
    have "counted_dev s q" if "pa_dev q = m" for q using that v y by (auto simp: counted_dev_def)
    then have "calls_on s m C = length (filter (\<lambda>q. pa_dev q = m) (map fst C))" unfolding calls_on_def by (metis (mono_tags, lifting))
    moreover have "(\<lambda>(q, inside). pa_dev q = m) = (\<lambda>x :: path \<times> bool. pa_dev (fst x) = m)" by auto
    ultimately show ?thesis by (simp add: filter_map comp_def)
  qed
  then show busy: "dv_busy y = length (filter (\<lambda>(q, inside). pa_dev q = m) C)" using calls_invD(1) [OF inv v] by simp
  have none: "(dv_busy y = 0) = (\<not> (\<exists>(q, inside)\<in>set C. pa_dev q = m))" unfolding busy by (auto simp: filter_empty_conv)
  have nm: "dv_name y = m" using y find_dev_Some by blast
  have told: "io_told (upd_dev k f u) = io_told u" for k f u by (simp add: upd_dev_def)
  have fd: "find_dev k (tell_io cs u) = find_dev k u" for k cs u by (simp add: find_dev_def tell_io_def)
  show "case hangup_turn up m s of (u, over) \<Rightarrow>
        if \<exists>(q, inside)\<in>set C. pa_dev q = m
        then io_told u = io_told s \<and> over = up \<and>
          find_dev m u = Some (if up then y\<lparr>dv_hanging := False, dv_drv_state := 0\<rparr> else y)
        else io_told u = (if dr_close (dv_drv y) then DrvClose m # io_told s else io_told s) \<and> over \<and>
          find_dev m u = Some (y\<lparr>dv_hanging := False\<rparr>)"
  proof (cases "dv_busy y = 0")
    case True
    from iffD1 [OF none this] have E: "\<not> (\<exists>(q, inside)\<in>set C. pa_dev q = m)" .
    show ?thesis unfolding if_not_P [OF E] using y True
      by (simp add: hangup_turn_def hangup_end_def told find_dev_upd fd dev_last_close_def) (simp add: tell_io_def)
  next
    case False
    have E: "\<exists>(q, inside)\<in>set C. pa_dev q = m"
    proof (rule ccontr)
      assume "\<not> (\<exists>(q, inside)\<in>set C. pa_dev q = m)"
      from iffD2 [OF none this] False show "False" by simp
    qed
    show ?thesis unfolding if_P [OF E] using y False
      by (simp add: hangup_turn_def hangup_end_def told find_dev_upd)
  qed
qed

end
