(* ===== verification/IoEnd.thy ===== *)
theory IoEnd
  imports IoCalls
begin

text \<open>
  A run of the I/O manager to its end, and the properties of IoReach and IoCalls at the states it passes through.
\<close>

section \<open>A run\<close>

text \<open>A shell opens the network terminal twice for itself, sends its error output there too, and starts a
  child, which shares the first three paths; the terminal's driver has one session at a time.\<close>

definition some_fmgr :: filemgr where
  "some_fmgr = \<lparr>fm_name = ''scf'', fm_open = False, fm_close = False, fm_read = True, fm_write = True, fm_seek = False,
     fm_getstat = True, fm_setstat = True, fm_remove = False, fm_mount = False, fm_reserve_writer = False, fm_provided = False, fm_ended = False\<rparr>"

definition some_driver :: "string \<Rightarrow> bool \<Rightarrow> driver" where
  "some_driver nm sessions = \<lparr>dr_name = nm, dr_retains = False, dr_init = False, dr_open = sessions, dr_close = sessions, dr_hangup = False\<rparr>"

definition some_env :: "nat \<Rightarrow> nat \<Rightarrow> io_env" where
  "some_env p c = \<lparr>ie_table = True, ie_path = Some p, ie_claim = Some c, ie_drv_open = RV9_IO_OK, ie_fm_open = RV9_IO_OK\<rparr>"

definition boot_ops :: "io_op list" where
  "boot_ops = [IRegFm some_fmgr, IRegDrv (some_driver ''net'' True), IRegDrv (some_driver ''pwm'' False),
     IAttach True (RV9_IO_OK, 0) RV9_IO_OK \<lparr>ds_name = ''/net'', ds_filemgr = ''scf'', ds_driver = ''net'', ds_opt = []\<rparr>,
     IAttach True (RV9_IO_OK, 0) RV9_IO_OK \<lparr>ds_name = ''/pwm'', ds_filemgr = ''scf'', ds_driver = ''pwm'', ds_opt = []\<rparr>]"

definition booted :: iosys where
  "booted = io_boot\<lparr>io_filemgrs := [some_fmgr], io_drivers := [some_driver ''net'' True, some_driver ''pwm'' False],
     io_devs := [new_dev ''/pwm'' some_fmgr (some_driver ''pwm'' False) [] 0, new_dev ''/net'' some_fmgr (some_driver ''net'' True) [] 0]\<rparr>"

lemma boot_run: "foldl io_step (io_boot, []) boot_ops = (booted, [])"
  by (simp add: boot_ops_def booted_def io_boot_def rv9_io_register_filemgr_def rv9_io_register_driver_def find_filemgr_def find_driver_def
      MAX_FILEMGRS_def MAX_DRIVERS_def rv9_io_attach_def Let_def cstr_def find_dev_def new_dev_def some_fmgr_def some_driver_def)

lemma twelve: "replicate 12 x = [x, x, x, x, x, x, x, x, x, x, x, x]" "replicate 9 x = [x, x, x, x, x, x, x, x, x]"
    "[0..<12] = [0, 1, 2, 3, 4, 5, 6, 7, 8, 9, 10, 11]" "[0..<3] = [0, 1, 2]"
  by (simp_all add: numeral_eq_Suc)

lemmas run_eval = fresh_env_def find_path_def fresh_def some_env_def find_dev_def find_table_def find_claim_def new_dev_def some_driver_def some_fmgr_def
  RV9_MODE_RW_def RV9_MODE_READ_def RV9_MODE_WRITE_def RV9_MODE_EXCL_def RV9_CLAIM_NAME_MAX_def RV9_PID_NONE_def RV9_MAX_PATHS_def twelve
  upd_dev_def upd_path_def upd_claim_def set_slot_def slot_of_def tell_io_def path_for_caller_def stale_def count_open_def cstr_def

lemmas open_eval = rv9_io_open_def rv9_io_open_begin_def rv9_io_open_end_def split_path_def dev_open_refused_def table_for_def path_new_def
  rv9_claim_resource_def rv9_claim_take_def take_locked_def both_open_def dev_first_open_def path_open_def

text \<open>Path 100 in slots 0 and 1 of process 7, path 101 in slot 2; then the child 8 shares all three, and reads.\<close>

definition tables_at :: "(nat \<times> nat list) list \<Rightarrow> proc_paths list" where
  "tables_at ts = map (\<lambda>(pid, ps). \<lparr>pp_pid = pid, pp_paths = map Some ps @ replicate (12 - length ps) None\<rparr>) ts"

definition claim_at :: "nat \<Rightarrow> string \<Rightarrow> bool \<Rightarrow> claim" where
  "claim_at a nm ex = \<lparr>cl_at = a, cl_name = nm, cl_owner = 7, cl_exclusive = ex, cl_reserved = False, cl_refs = 1, cl_failsafe = None\<rparr>"

definition opened :: iosys where
  "opened = booted\<lparr>
     io_devs := [(new_dev ''/pwm'' some_fmgr (some_driver ''pwm'' False) [] 0)\<lparr>dv_open_count := 1\<rparr>,
                 (new_dev ''/net'' some_fmgr (some_driver ''net'' True) [] 0)\<lparr>dv_open_count := 1\<rparr>],
     io_tables := tables_at [(7, [100, 100, 101])],
     io_paths := [\<lparr>pa_at = 101, pa_dev = ''/pwm'', pa_mode = 10, pa_refs = 1, pa_session = 0, pa_claim = Some 201\<rparr>,
                  \<lparr>pa_at = 100, pa_dev = ''/net'', pa_mode = 3, pa_refs = 2, pa_session = 0, pa_claim = Some 200\<rparr>],
     io_claims := \<lparr>cs_up = True, cs_claims = [claim_at 201 ''/pwm/2'' True, claim_at 200 ''/net'' False]\<rparr>,
     io_told := [DrvOpen ''/net'' 3]\<rparr>"

lemma open_run: "foldl io_step (booted, []) [IOpen (some_env 100 200) 7 ''/net'' 3, IDup2 True 7 0 1, IOpen (some_env 101 201) 7 ''/pwm/2'' 10] = (opened, [])"
  by (simp add: run_eval open_eval booted_def io_boot_def Let_def rv9_io_dup2_def rv9_io_dup2_begin_def path_release_def last_closes_def
      opened_def tables_at_def claim_at_def)

definition forked :: iosys where
  "forked = opened\<lparr>
     io_devs := [(new_dev ''/pwm'' some_fmgr (some_driver ''pwm'' False) [] 0)\<lparr>dv_open_count := 1\<rparr>,
                 (new_dev ''/net'' some_fmgr (some_driver ''net'' True) [] 0)\<lparr>dv_open_count := 1, dv_busy := 1\<rparr>],
     io_tables := tables_at [(8, [100, 100, 101]), (7, [100, 100, 101])],
     io_paths := [\<lparr>pa_at = 101, pa_dev = ''/pwm'', pa_mode = 10, pa_refs = 2, pa_session = 0, pa_claim = Some 201\<rparr>,
                  \<lparr>pa_at = 100, pa_dev = ''/net'', pa_mode = 3, pa_refs = 4, pa_session = 0, pa_claim = Some 200\<rparr>],
     io_told := [FmCall 100 [], DrvOpen ''/net'' 3]\<rparr>"

definition net_path :: path where
  "net_path = \<lparr>pa_at = 100, pa_dev = ''/net'', pa_mode = 3, pa_refs = 4, pa_session = 0, pa_claim = Some 200\<rparr>"

lemma fork_run: "foldl io_step (opened, []) [IFork (some_env 102 202) (some_env 103 203) 7 8, IEnter ReadCall 100, IInside net_path []] = (forked, [])"
  by (simp add: run_eval booted_def io_boot_def Let_def opened_def tables_at_def claim_at_def io_on_fork_def table_for_def share_slot_def
      call_enter_def call_inside_def session_count_def session_check_def count_busy_def net_path_def forked_def)

definition run_ops :: "io_op list" where
  "run_ops = boot_ops @ [IOpen (some_env 100 200) 7 ''/net'' 3, IDup2 True 7 0 1, IOpen (some_env 101 201) 7 ''/pwm/2'' 10,
     IFork (some_env 102 202) (some_env 103 203) 7 8, IEnter ReadCall 100, IInside net_path []]"

lemma run_end: "list_all io_op_ok run_ops" "length run_ops < 2 ^ 30" "foldl io_step (io_boot, []) run_ops = (forked, [])"
proof -
  have "foldl io_step (io_boot, []) run_ops = foldl io_step (foldl io_step (foldl io_step (io_boot, []) boot_ops)
      [IOpen (some_env 100 200) 7 ''/net'' 3, IDup2 True 7 0 1, IOpen (some_env 101 201) 7 ''/pwm/2'' 10])
      [IFork (some_env 102 202) (some_env 103 203) 7 8, IEnter ReadCall 100, IInside net_path []]" by (simp only: run_ops_def foldl_append foldl.simps append.simps)
  then show "foldl io_step (io_boot, []) run_ops = (forked, [])" by (simp only: boot_run open_run fork_run)
qed (simp_all add: run_ops_def boot_ops_def)

text \<open>The machine then names \<open>/pwm\<close> the system's standard input and output, and starts a process without a
  parent: path 102 in its slot 0, path 103 in 1 and 2.\<close>

definition adopted :: iosys where
  "adopted = forked\<lparr>
     io_devs := [(new_dev ''/pwm'' some_fmgr (some_driver ''pwm'' False) [] 0)\<lparr>dv_open_count := 3\<rparr>,
                 (new_dev ''/net'' some_fmgr (some_driver ''net'' True) [] 0)\<lparr>dv_open_count := 1, dv_busy := 1\<rparr>],
     io_tables := tables_at [(9, [102, 103, 103]), (8, [100, 100, 101]), (7, [100, 100, 101])],
     io_paths := [\<lparr>pa_at = 103, pa_dev = ''/pwm'', pa_mode = 2, pa_refs = 2, pa_session = 0, pa_claim = Some 202\<rparr>,
                  \<lparr>pa_at = 102, pa_dev = ''/pwm'', pa_mode = 1, pa_refs = 1, pa_session = 0, pa_claim = Some 202\<rparr>,
                  \<lparr>pa_at = 101, pa_dev = ''/pwm'', pa_mode = 10, pa_refs = 2, pa_session = 0, pa_claim = Some 201\<rparr>,
                  \<lparr>pa_at = 100, pa_dev = ''/net'', pa_mode = 3, pa_refs = 4, pa_session = 0, pa_claim = Some 200\<rparr>],
     io_claims := \<lparr>cs_up = True, cs_claims = [\<lparr>cl_at = 202, cl_name = ''/pwm'', cl_owner = 9, cl_exclusive = False, cl_reserved = False,
        cl_refs = 2, cl_failsafe = None\<rparr>, claim_at 201 ''/pwm/2'' True, claim_at 200 ''/net'' False]\<rparr>,
     io_std_in := ''/pwm'', io_std_out := ''/pwm''\<rparr>"

lemma adopt_run: "foldl io_step (forked, []) [ISetStd (Some ''/pwm'') (Some ''/pwm''), IFork (some_env 102 202) (some_env 103 203) 0 9] = (adopted, [])"
  by (simp add: run_eval open_eval booted_def io_boot_def Let_def opened_def tables_at_def claim_at_def forked_def io_on_fork_def std_slot_def
      path_alloc_def rv9_io_set_system_std_def RV9_STDIN_def RV9_STDOUT_def RV9_STDERR_def adopted_def)

lemma adopt_end: "list_all io_op_ok (run_ops @ [ISetStd (Some ''/pwm'') (Some ''/pwm''), IFork (some_env 102 202) (some_env 103 203) 0 9])"
  "length (run_ops @ [ISetStd (Some ''/pwm'') (Some ''/pwm''), IFork (some_env 102 202) (some_env 103 203) 0 9]) < 2 ^ 30"
  "foldl io_step (io_boot, []) (run_ops @ [ISetStd (Some ''/pwm'') (Some ''/pwm''), IFork (some_env 102 202) (some_env 103 203) 0 9]) = (adopted, [])"
proof -
  show "foldl io_step (io_boot, []) (run_ops @ [ISetStd (Some ''/pwm'') (Some ''/pwm''), IFork (some_env 102 202) (some_env 103 203) 0 9]) = (adopted, [])"
    by (simp only: foldl_append run_end(3) adopt_run)
qed (simp_all add: run_ops_def boot_ops_def)

section \<open>The properties there\<close>

theorem paths_balanced_witness:
  "map (\<lambda>p. (pa_at p, pa_refs p)) (io_paths adopted) = [(103, 2), (102, 1), (101, 2), (100, 4)] \<and>
   handles 103 adopted [] = 2 \<and> handles 102 adopted [] = 1 \<and> handles 101 adopted [] = 2 \<and> handles 100 adopted [] = 4"
proof -
  have "\<forall>p\<in>set (io_paths adopted). pa_refs p = handles (pa_at p) adopted [] \<and> 0 < pa_refs p" using paths_balanced [OF adopt_end] by blast
  then show ?thesis by (simp add: adopted_def)
qed

theorem exclusive_open_alone_witness:
  "path_new (some_env 104 204) (hd (io_devs forked)) ''2'' 3 9 forked = (forked, Inl RV9_IO_ERR_BUSY)"
proof -
  let ?p = "hd (io_paths forked)"
  have p: "?p \<in> set (io_paths forked)" "pa_mode ?p AND RV9_MODE_EXCL \<noteq> 0" by (simp_all add: forked_def RV9_MODE_EXCL_def)
  obtain c where c: "c \<in> set (cs_claims (io_claims forked))" "pa_claim ?p = Some (cl_at c)"
      "\<forall>env d rest mode owner. rv9_claim_resource RV9_CLAIM_NAME_MAX (dv_name d) rest = Some (cl_name c) \<and> owner \<noteq> cl_owner c \<longrightarrow>
        path_new env d rest mode owner forked = (forked, Inl RV9_IO_ERR_BUSY)"
    using exclusive_open_alone [OF run_end p] by blast
  have "c = claim_at 201 ''/pwm/2'' True" using c(1,2) by (auto simp: forked_def opened_def claim_at_def)
  moreover have "rv9_claim_resource RV9_CLAIM_NAME_MAX (dv_name (hd (io_devs forked))) ''2'' = Some ''/pwm/2''"
    by (simp add: rv9_claim_resource_def RV9_CLAIM_NAME_MAX_def forked_def new_dev_def)
  ultimately show ?thesis using c(3) by (simp add: claim_at_def)
qed

text \<open>The same run with its call as steps; another call through the network terminal is counted, and does not
  look yet.\<close>

definition call_ops :: "call_op list" where
  "call_ops = map Other (boot_ops @ [IOpen (some_env 100 200) 7 ''/net'' 3, IDup2 True 7 0 1, IOpen (some_env 101 201) 7 ''/pwm/2'' 10,
     IFork (some_env 102 202) (some_env 103 203) 7 8]) @ [Enter ReadCall 100, Inside 0 [], Enter WriteCall 100]"

definition calling :: iosys where
  "calling = forked\<lparr>io_devs := [(new_dev ''/pwm'' some_fmgr (some_driver ''pwm'' False) [] 0)\<lparr>dv_open_count := 1\<rparr>,
                 (new_dev ''/net'' some_fmgr (some_driver ''net'' True) [] 0)\<lparr>dv_open_count := 1, dv_busy := 2\<rparr>]\<rparr>"

lemma others_run: "\<not> list_ex part_of_call ops \<Longrightarrow> foldl calls_step (sd, C) (map Other ops) = (foldl io_step sd ops, C)"
  by (induction ops arbitrary: sd) simp_all

lemma call_run: "list_all call_op_ok call_ops" "length call_ops < 2 ^ 30"
  "foldl calls_step ((io_boot, []), []) call_ops = ((calling, []), [(net_path, True), (net_path, False)])"
proof -
  let ?fork = "IFork (some_env 102 202) (some_env 103 203) 7 8"
  let ?init = "boot_ops @ [IOpen (some_env 100 200) 7 ''/net'' 3, IDup2 True 7 0 1, IOpen (some_env 101 201) 7 ''/pwm/2'' 10]"
  have none: "\<not> list_ex part_of_call (?init @ [?fork])" by (simp add: boot_ops_def)
  have "foldl io_step (io_boot, []) ?init = foldl io_step (foldl io_step (io_boot, []) boot_ops)
      [IOpen (some_env 100 200) 7 ''/net'' 3, IDup2 True 7 0 1, IOpen (some_env 101 201) 7 ''/pwm/2'' 10]" by (simp only: foldl_append)
  then have 1: "foldl io_step (io_boot, []) ?init = (opened, [])" by (simp only: boot_run open_run)
  have "foldl calls_step ((io_boot, []), []) call_ops =
      foldl calls_step (io_step (opened, []) ?fork, []) [Enter ReadCall 100, Inside 0 [], Enter WriteCall 100]"
    using others_run [OF none, of "(io_boot, [])" "[]"] 1 unfolding call_ops_def by (simp only: foldl_append append_assoc append.simps foldl.simps)
  also have "\<dots> = ((calling, []), [(net_path, True), (net_path, False)])"
    by (simp add: run_eval booted_def io_boot_def Let_def opened_def tables_at_def claim_at_def io_on_fork_def table_for_def share_slot_def
      call_enter_def call_inside_def session_count_def session_check_def count_busy_def net_path_def forked_def calling_def cast32_def)
  finally show "foldl calls_step ((io_boot, []), []) call_ops = ((calling, []), [(net_path, True), (net_path, False)])" .
qed (simp_all add: call_ops_def boot_ops_def)

theorem hangup_ends_session_witness:
  "let (t, r) = hangup_begin net_path (io_devs calling ! 1) calling
   in r = Inr ''/net'' \<and> hangup_turn False ''/net'' calling = (calling, False) \<and> io_told (fst (hangup_turn True ''/net'' calling)) = io_told calling \<and>
     (\<exists>err. snd (call_begin WriteCall (Some 100) [65] t) = Inl err) \<and> (\<exists>err. snd (call_inside net_path [65] t) = Inl err)"
proof -
  obtain t r where h: "hangup_begin net_path (io_devs calling ! 1) calling = (t, r)" by (metis surj_pair)
  have r: "r = Inr ''/net''" and t: "io_paths t = io_paths calling"
    using h by (auto simp: hangup_begin_def net_path_def calling_def forked_def new_dev_def some_driver_def Let_def upd_dev_def)
  have f: "find_path 100 calling = Some net_path" "find_dev (pa_dev net_path) calling = Some (io_devs calling ! 1)"
    by (simp_all add: find_path_def find_dev_def calling_def forked_def net_path_def new_dev_def)
  have n: "pa_dev net_path = ''/net''" "net_path \<in> set (io_paths t)" "pa_at net_path = 100" by (simp_all add: net_path_def t calling_def forked_def)
  have o: "dr_open (dv_drv (io_devs calling ! 1))" by (simp add: calling_def new_dev_def some_driver_def)
  note P = hangup_ends_session [OF call_run]
  obtain x where x: "\<forall>q\<in>set (io_paths t). pa_dev q = ''/net'' \<longrightarrow> (\<forall>e bs. \<exists>err. snd (call_begin e (Some (pa_at q)) bs t) = Inl err)"
      "\<forall>bs. \<exists>err. snd (call_inside net_path bs t) = Inl err"
    using P [of 100 net_path "io_devs calling ! 1" t "''/net''", THEN conjunct1] f h r n by auto
  have look: "io_told u = io_told calling \<and> over = up" if "hangup_turn up ''/net'' calling = (u, over)" for up u over
    using P [THEN conjunct2, of "''/net''" "io_devs calling ! 1" up] f(2) n(1) o that by simp
  have "hangup_turn False ''/net'' calling = (calling, False)"
    using f(2) n(1) by (simp add: hangup_turn_def calling_def new_dev_def)
  moreover have "io_told (fst (hangup_turn True ''/net'' calling)) = io_told calling" using look [of True] by (metis prod.collapse)
  moreover have "\<exists>err. snd (call_begin WriteCall (Some 100) [65] t) = Inl err" using x(1) n by (metis n(3))
  ultimately show ?thesis using h r x(2) by simp
qed

section \<open>A close that comes late\<close>

text \<open>The last close of a session tells the driver once the lock is free. An open in between starts a new
  session, and it is that one the driver then closes: the device has an open, and its driver is shut.\<close>

lemma late_close_ends_new_session:
  "let s1 = fst (rv9_io_open (fresh_env (some_env 100 200) booted) 7 (Some ''/net'') 3 booted);
       (s2, e, idle) = rv9_io_close_begin 7 0 s1;
       s3 = fst (rv9_io_open (fresh_env (some_env 101 201) s2) 8 (Some ''/net'') 3 s2);
       s4 = last_closes [the idle] s3
   in e = RV9_IO_OK \<and> map dv_open_count (io_devs s4) = [0, 1] \<and> io_told s4 = [DrvClose ''/net'', DrvOpen ''/net'' 3, DrvOpen ''/net'' 3]"
  by (simp add: run_eval open_eval booted_def io_boot_def Let_def rv9_io_close_begin_def path_release_def last_closes_def uncount_def
      path_free_def rv9_claim_drop_def drop_locked_def dev_last_close_def cast32_def)

end
