(* ===== verification/Pub.thy ===== *)
theory Pub
  imports IoAdmit RbfOps
begin

text \<open>
  Publications (components/rv9_io/src/pfm.c, and the store of drv_pubmem.c): cells that hold the last
  value written and nothing else. A pointer to a cell is its index in the store. What is done under
  the device's lock is one definition. The value itself is written and read with no lock: a write is
  the list of its stores, \<open>publication\<close>, a read the loads of \<open>read_step\<close>, so the two may interleave
  anywhere. A 64-bit store is two, as it is on a 32-bit core.
\<close>

definition PFM_MAX_WAITERS :: nat where "PFM_MAX_WAITERS = 4"
definition PFM_MAX_TRIES :: nat where "PFM_MAX_TRIES = 8"
definition RV9_PUB_MAX_NAME :: nat where "RV9_PUB_MAX_NAME = 24"
definition RV9_PUB_GS_WAIT :: nat where "RV9_PUB_GS_WAIT = 48"
definition RV9_PUB_GS_INFO :: nat where "RV9_PUB_GS_INFO = 49"
definition RV9_PUB_GS_MEANING :: nat where "RV9_PUB_GS_MEANING = 50"

text \<open>\<open>sizeof(rv9_pub_t)\<close>, and \<open>sizeof(pub_cell_t)\<close> on a 32-bit core.\<close>

definition sizeof_pub :: nat where "sizeof_pub = 16"
definition sizeof_cell :: nat where "sizeof_cell = 88"

section \<open>Cells, the device, a path\<close>

record pub_cell =
  pc_name :: string
  pc_cap :: nat
  pc_held :: bool
  pc_writer :: nat
  pc_readers :: nat
  pc_torn :: nat
  pc_reserved_by :: nat
  pc_last_writer :: nat
  pc_fault :: nat
  pc_meaning :: string
  pc_seq :: nat
  pc_len :: nat
  pc_stamp :: nat
  pc_value :: "8 word list"

record pub_waiter =
  pw_sem :: nat
  pw_cell :: "nat option"
  pw_armed :: bool

record pub_dev =
  pu_cells :: "pub_cell list"
  pu_cap :: nat
  pu_stride :: nat
  pu_waiters :: "pub_waiter list"

record pub_path =
  px_cell :: "nat option"
  px_mode :: u32
  px_writer :: bool
  px_slot :: "nat option"
  px_dirpos :: nat

definition upd_cell :: "nat \<Rightarrow> (pub_cell \<Rightarrow> pub_cell) \<Rightarrow> pub_dev \<Rightarrow> pub_dev" where
  "upd_cell i f d = d\<lparr>pu_cells := (pu_cells d)[i := f (pu_cells d ! i)]\<rparr>"

definition upd_waiter :: "nat \<Rightarrow> (pub_waiter \<Rightarrow> pub_waiter) \<Rightarrow> pub_dev \<Rightarrow> pub_dev" where
  "upd_waiter i f d = d\<lparr>pu_waiters := (pu_waiters d)[i := f (pu_waiters d ! i)]\<rparr>"

section \<open>The store and the mount\<close>

definition DEFAULT_CELL_BYTES :: nat where "DEFAULT_CELL_BYTES = 64"
definition DEFAULT_CELL_COUNT :: nat where "DEFAULT_CELL_COUNT = 16"
definition MAX_STORE_BYTES :: nat where "MAX_STORE_BYTES = 8192"

text \<open>The size of the store, when it can be had.\<close>

definition pubmem_init :: "nat \<Rightarrow> nat \<Rightarrow> bool \<Rightarrow> io_err + nat" where
  "pubmem_init opt0 opt1 room =
     (let bytes = (if opt0 \<noteq> 0 then opt0 else DEFAULT_CELL_BYTES);
          count = (if opt1 \<noteq> 0 then opt1 else DEFAULT_CELL_COUNT);
          sz = cast32 (count * cast32 (bytes + 64))
      in if sz = 0 \<or> sz > MAX_STORE_BYTES then Inl RV9_IO_ERR_INVAL
         else if \<not> room then Inl RV9_IO_ERR_NOMEM else Inr sz)"

definition up8 :: "nat \<Rightarrow> nat" where
  "up8 n = cast32 (n + 7) div 8 * 8"

definition unused_cell :: "nat \<Rightarrow> pub_cell" where
  "unused_cell cap =
     \<lparr>pc_name = [], pc_cap = cap, pc_held = False, pc_writer = 0, pc_readers = 0, pc_torn = 0, pc_reserved_by = 0,
      pc_last_writer = 0, pc_fault = 0, pc_meaning = [], pc_seq = 0, pc_len = 0, pc_stamp = 0, pc_value = replicate cap 0\<rparr>"

text \<open>\<open>arena\<close> is the driver's answer, None when it has none; \<open>made\<close> whether memory, lock and semaphores are had.\<close>

definition pfm_mount :: "(io_err \<times> bool \<times> nat) option \<Rightarrow> nat \<Rightarrow> bool \<Rightarrow> io_err + pub_dev" where
  "pfm_mount arena opt0 made =
     (case arena of
        None \<Rightarrow> Inl RV9_IO_ERR_UNSUPPORTED
      | Some (e, based, sz) \<Rightarrow>
          if e \<noteq> RV9_IO_OK then Inl e
          else if \<not> based \<or> sz = 0 then Inl RV9_IO_ERR_IO
          else
            let cap = up8 (if opt0 \<noteq> 0 then opt0 else 64);
                stride = up8 (cast32 (sizeof_cell + cap));
                count = sz div stride
            in if count = 0 then Inl RV9_IO_ERR_NOMEM
               else if \<not> made then Inl RV9_IO_ERR_NOMEM
               else Inr \<lparr>pu_cells = replicate count (unused_cell cap), pu_cap = cap, pu_stride = stride,
                        pu_waiters = replicate PFM_MAX_WAITERS \<lparr>pw_sem = 0, pw_cell = None, pw_armed = False\<rparr>\<rparr>)"

section \<open>Finding and making cells\<close>

definition pub_find_cell :: "string \<Rightarrow> pub_dev \<Rightarrow> nat option" where
  "pub_find_cell name d = find_index (\<lambda>c. pc_name c \<noteq> [] \<and> pc_name c = name) (pu_cells d)"

definition make_cell :: "string \<Rightarrow> pub_dev \<Rightarrow> (pub_dev \<times> nat) option" where
  "make_cell name d =
     (case find_index (\<lambda>c. pc_name c = []) (pu_cells d) of
        None \<Rightarrow> None
      | Some i \<Rightarrow> Some (upd_cell i (\<lambda>c. c\<lparr>pc_name := take (RV9_PUB_MAX_NAME - 1) name, pc_cap := pu_cap d\<rparr>) d, i))"

definition name_char :: "char \<Rightarrow> bool" where
  "name_char ch \<longleftrightarrow>
     (let n = (of_char ch :: nat)
      in 65 \<le> n \<and> n \<le> 90 \<or> 97 \<le> n \<and> n \<le> 122 \<or> 48 \<le> n \<and> n \<le> 57 \<or> ch = CHR ''_'' \<or> ch = CHR ''.'' \<or> ch = CHR ''-'')"

definition name_ok :: "string \<Rightarrow> bool" where
  "name_ok rest \<longleftrightarrow> rest \<noteq> [] \<and> list_all name_char rest \<and> length rest < RV9_PUB_MAX_NAME"

section \<open>Open and close\<close>

text \<open>The part of an open that has found or made its cell, with the lock held.\<close>

definition open_cell :: "nat \<Rightarrow> u32 \<Rightarrow> nat \<Rightarrow> pub_dev \<Rightarrow> pub_dev \<times> (io_err + pub_path)" where
  "open_cell me mode i d =
     (let w = (mode AND RV9_MODE_WRITE \<noteq> 0); r = (mode AND RV9_MODE_READ \<noteq> 0); c = pu_cells d ! i
      in if w \<and> pc_reserved_by c \<noteq> 0 \<and> pc_reserved_by c \<noteq> me then (d, Inl RV9_IO_ERR_BUSY)
         else if w \<and> pc_held c then (d, Inl RV9_IO_ERR_BUSY)
         else (upd_cell i (\<lambda>c. if r then c\<lparr>pc_readers := cast32 (pc_readers c + 1)\<rparr> else c)
                 (if w then upd_cell i (\<lambda>c. c\<lparr>pc_held := True, pc_writer := me, pc_last_writer := me, pc_fault := 0\<rparr>) d else d),
               Inr \<lparr>px_cell = Some i, px_mode = mode, px_writer = w, px_slot = None, px_dirpos = 0\<rparr>))"

definition pfm_open :: "bool \<Rightarrow> nat \<Rightarrow> u32 \<Rightarrow> string \<Rightarrow> pub_dev \<Rightarrow> pub_dev \<times> (io_err + pub_path)" where
  "pfm_open room me mode rest d =
     (if \<not> room then (d, Inl RV9_IO_ERR_NOMEM)
      else if rest = [] then
        (d, if mode AND RV9_MODE_WRITE \<noteq> 0 then Inl RV9_IO_ERR_MODE
            else Inr \<lparr>px_cell = None, px_mode = mode, px_writer = False, px_slot = None, px_dirpos = 0\<rparr>)
      else if \<not> name_ok rest then (d, Inl RV9_IO_ERR_INVAL)
      else case pub_find_cell rest d of
        Some i \<Rightarrow> open_cell me mode i d
      | None \<Rightarrow>
          if mode AND RV9_MODE_WRITE = 0 then (d, Inl RV9_IO_ERR_NOTFOUND)
          else (case make_cell rest d of
                  None \<Rightarrow> (d, Inl RV9_IO_ERR_NOMEM)
                | Some (d1, i) \<Rightarrow> open_cell me mode i d1))"

definition pfm_close :: "pub_path \<Rightarrow> pub_dev \<Rightarrow> pub_dev" where
  "pfm_close st d =
     (case px_cell st of
        None \<Rightarrow> d
      | Some i \<Rightarrow>
          let d1 = (if px_writer st then upd_cell i (\<lambda>c. c\<lparr>pc_held := False, pc_writer := 0\<rparr>) d else d);
              d2 = (if px_mode st AND RV9_MODE_READ \<noteq> 0 then upd_cell i (\<lambda>c. c\<lparr>pc_readers := pc_readers c - 1\<rparr>) d1 else d1)
          in case px_slot st of
               None \<Rightarrow> d2
             | Some k \<Rightarrow> upd_waiter k (\<lambda>w. w\<lparr>pw_armed := False, pw_cell := None\<rparr>) d2)"

section \<open>Publishing\<close>

datatype pub_store = SetSeq nat | SetByte nat "8 word" | SetLen nat | SetStampLow nat | SetStampHigh nat

fun store_to :: "pub_store \<Rightarrow> pub_cell \<Rightarrow> pub_cell" where
  "store_to (SetSeq n) c = c\<lparr>pc_seq := n\<rparr>"
| "store_to (SetByte i b) c = c\<lparr>pc_value := (pc_value c)[i := b]\<rparr>"
| "store_to (SetLen n) c = c\<lparr>pc_len := n\<rparr>"
| "store_to (SetStampLow n) c = c\<lparr>pc_stamp := pc_stamp c div W32 * W32 + n mod W32\<rparr>"
| "store_to (SetStampHigh n) c = c\<lparr>pc_stamp := n div W32 * W32 + pc_stamp c mod W32\<rparr>"

text \<open>Odd, copy, even.\<close>

definition publication :: "nat \<Rightarrow> nat \<Rightarrow> 8 word list \<Rightarrow> pub_store list" where
  "publication seq stamp v =
     SetSeq (cast32 (seq + 1)) # map (\<lambda>i. SetByte i (v ! i)) [0..<length v] @
     [SetLen (length v), SetStampLow stamp, SetStampHigh stamp, SetSeq (cast32 (seq + 2))]"

text \<open>What a publisher does to its cell and to those who wait, an act at a time. It looks at each slot in turn
  (\<open>wake_watchers\<close>): a slot of the cell that is armed is disarmed, and then its semaphore is given, which is
  another act, so a process may time out or arm again in between.\<close>

datatype pub_act = Put pub_store | Look nat | Give nat

definition look_at :: "nat \<Rightarrow> pub_waiter \<Rightarrow> pub_waiter \<times> bool" where
  "look_at i w = (if pw_cell w = Some i \<and> pw_armed w then (w\<lparr>pw_armed := False\<rparr>, True) else (w, False))"

text \<open>One act on the cell \<open>i\<close> and its device, and what is to be done next because of it.\<close>

fun act_step :: "nat \<Rightarrow> pub_act \<Rightarrow> pub_dev \<Rightarrow> pub_dev \<times> pub_act list" where
  "act_step i (Put x) d = (upd_cell i (store_to x) d, [])"
| "act_step i (Look k) d =
     (case look_at i (pu_waiters d ! k) of (w, got) \<Rightarrow> (upd_waiter k (\<lambda>_. w) d, if got then [Give k] else []))"
| "act_step i (Give k) d = (upd_waiter k (\<lambda>w. w\<lparr>pw_sem := 1\<rparr>) d, [])"

definition act_done :: "nat \<Rightarrow> pub_act \<Rightarrow> pub_dev \<Rightarrow> pub_dev" where
  "act_done i a d = (case act_step i a d of (d1, next_acts) \<Rightarrow> fold (\<lambda>b e. fst (act_step i b e)) next_acts d1)"

definition wake_watchers :: "nat \<Rightarrow> pub_act list" where
  "wake_watchers n = map Look [0..<n]"

text \<open>The whole of a publication on a device of \<open>n\<close> slots: the stores, and then the looks.\<close>

definition publish :: "nat \<Rightarrow> nat \<Rightarrow> nat \<Rightarrow> 8 word list \<Rightarrow> pub_act list" where
  "publish n seq stamp v = map Put (publication seq stamp v) @ wake_watchers n"

fun le_bytes :: "8 word list \<Rightarrow> nat" where
  "le_bytes [] = 0"
| "le_bytes (b # bs) = unat b + 256 * le_bytes bs"

text \<open>A write up to its first store: an error, or the value to publish, and its stamp.\<close>

definition pfm_write_begin :: "nat \<Rightarrow> pub_path \<Rightarrow> 8 word list \<Rightarrow> pub_dev \<Rightarrow> io_err + nat \<times> 8 word list" where
  "pfm_write_begin now st buf d =
     (case px_cell st of
        None \<Rightarrow> Inl RV9_IO_ERR_MODE
      | Some i \<Rightarrow>
          if \<not> px_writer st then Inl RV9_IO_ERR_MODE
          else if length buf < sizeof_pub then Inl RV9_IO_ERR_INVAL
          else
            let hlen = le_bytes (take 4 (drop 4 buf)); hstamp = le_bytes (take 8 (drop 8 buf));
                avail = length buf - sizeof_pub; vlen = (if hlen \<noteq> 0 then hlen else avail)
            in if vlen > avail \<or> vlen > pc_cap (pu_cells d ! i) then Inl RV9_IO_ERR_INVAL
               else Inr (if hstamp \<noteq> 0 then hstamp else now, take vlen (drop sizeof_pub buf)))"

definition pfm_write :: "nat \<Rightarrow> pub_path \<Rightarrow> 8 word list \<Rightarrow> pub_dev \<Rightarrow> pub_dev \<times> (io_err + nat)" where
  "pfm_write now st buf d =
     (case pfm_write_begin now st buf d of
        Inl e \<Rightarrow> (d, Inl e)
      | Inr (stamp, v) \<Rightarrow>
          let i = the (px_cell st)
          in (fold (act_done i) (publish (length (pu_waiters d)) (pc_seq (pu_cells d ! i)) stamp v) d,
              Inr (sizeof_pub + length v)))"

section \<open>Observing\<close>

text \<open>A directory read goes on where the last one stopped: how many cells it passes, and the entries.\<close>

fun dir_loop :: "nat \<Rightarrow> pub_cell list \<Rightarrow> nat \<times> (string \<times> nat) list" where
  "dir_loop 0 cs = (0, [])"
| "dir_loop (Suc room) [] = (0, [])"
| "dir_loop (Suc room) (c # cs) =
     (if pc_name c = [] then (case dir_loop (Suc room) cs of (n, es) \<Rightarrow> (Suc n, es))
      else case dir_loop room cs of (n, es) \<Rightarrow> (Suc n, (pc_name c, pc_len c) # es))"

definition read_directory :: "pub_path \<Rightarrow> nat \<Rightarrow> pub_dev \<Rightarrow> pub_path \<times> (string \<times> nat) list" where
  "read_directory st room d =
     (case dir_loop room (drop (px_dirpos st) (pu_cells d)) of (n, es) \<Rightarrow> (st\<lparr>px_dirpos := px_dirpos st + n\<rparr>, es))"

text \<open>Where a read has got to: its try, the sequence it began with, what it has loaded. The last two are its
  ends: a snapshot (its number, true length, stamp, and the bytes that fit), or outrun.\<close>

datatype reading =
    Trying nat
  | GotSeq nat nat
  | GotLen nat nat nat
  | GotLow nat nat nat nat
  | Copying nat nat nat nat "8 word list"
  | Snapshot nat nat nat "8 word list"
  | Outrun

fun read_step :: "nat \<Rightarrow> pub_cell \<Rightarrow> reading \<Rightarrow> reading" where
  "read_step room c (Trying t) =
     (if t \<ge> PFM_MAX_TRIES then Outrun
      else if odd (pc_seq c) then Trying (t + 1)
      else GotSeq t (pc_seq c))"
| "read_step room c (GotSeq t b) = GotLen t b (pc_len c)"
| "read_step room c (GotLen t b n) = GotLow t b n (pc_stamp c mod W32)"
| "read_step room c (GotLow t b n lo) = Copying t b n (pc_stamp c div W32 * W32 + lo) []"
| "read_step room c (Copying t b n st bs) =
     (if length bs < min n room then Copying t b n st (bs @ [pc_value c ! length bs])
      else if pc_seq c \<noteq> b then Trying (t + 1)
      else Snapshot (b div 2) n st bs)"
| "read_step room c r = r"

text \<open>What a read that is over answers, and its count of the times it was outrun.\<close>

definition read_end :: "nat \<Rightarrow> reading \<Rightarrow> pub_dev \<Rightarrow> pub_dev \<times> (io_err + nat \<times> nat \<times> nat \<times> 8 word list)" where
  "read_end i r d =
     (case r of
        Snapshot k n st bs \<Rightarrow> (d, Inr (k, n, st, bs))
      | _ \<Rightarrow> (upd_cell i (\<lambda>c. c\<lparr>pc_torn := cast32 (pc_torn c + 1)\<rparr>) d, Inl RV9_IO_ERR_WOULDBLOCK))"

text \<open>A read of \<open>len\<close> bytes: of the directory, with room for so many entries, or of a cell and so many bytes of
  its value; the latter then begins with \<open>Trying 0\<close>.\<close>

datatype read_of = Directory nat | CellValue nat nat

definition pfm_read_begin :: "pub_path \<Rightarrow> nat \<Rightarrow> io_err + read_of" where
  "pfm_read_begin st len =
     (case px_cell st of
        None \<Rightarrow> Inr (Directory (len div 32))
      | Some i \<Rightarrow> if len < sizeof_pub then Inl RV9_IO_ERR_INVAL else Inr (CellValue i (len - sizeof_pub)))"

section \<open>Waiting\<close>

definition pub_claim_slot :: "nat \<Rightarrow> pub_dev \<Rightarrow> pub_dev \<times> nat option" where
  "pub_claim_slot i d =
     (case find_index (\<lambda>w. pw_cell w = None) (pu_waiters d) of
        None \<Rightarrow> (d, None)
      | Some k \<Rightarrow> (upd_waiter k (\<lambda>w. w\<lparr>pw_sem := 0, pw_armed := False, pw_cell := Some i\<rparr>) d, Some k))"

text \<open>A wait up to its loop: over at once, or asleep on a slot. \<open>seen\<close> is the sequence last seen.\<close>

definition pfm_wait_begin :: "nat \<Rightarrow> nat \<Rightarrow> pub_path \<Rightarrow> pub_dev \<Rightarrow> pub_dev \<times> pub_path \<times> (io_err \<times> nat + nat)" where
  "pfm_wait_begin seen timeout st d =
     (case px_cell st of
        None \<Rightarrow> (d, st, Inl (RV9_IO_ERR_MODE, seen))
      | Some i \<Rightarrow>
          let now = pc_seq (pu_cells d ! i) div 2
          in if now \<noteq> seen then (d, st, Inl (RV9_IO_OK, now))
             else if timeout = 0 then (d, st, Inl (RV9_IO_ERR_TIMEOUT, seen))
             else case px_slot st of
               Some k \<Rightarrow> (d, st, Inr k)
             | None \<Rightarrow>
                 (case pub_claim_slot i d of
                    (d1, None) \<Rightarrow> (d1, st, Inl (RV9_IO_ERR_NOPATHS, seen))
                  | (d1, Some k) \<Rightarrow> (d1, st\<lparr>px_slot := Some k\<rparr>, Inr k)))"

text \<open>The loop, between its looks at what others change: arm, look, sleep, and at the end of the time disarm
  and look once more. \<open>up\<close>: the time is up.\<close>

datatype waiting = Arming | Looking | Disarming nat | Sleeping | Leaving | LastLook | Waited io_err nat

fun wait_step :: "nat \<Rightarrow> nat \<Rightarrow> bool \<Rightarrow> pub_waiter \<times> waiting \<Rightarrow> pub_waiter \<times> waiting" where
  "wait_step seen seq up (w, Arming) = (w\<lparr>pw_armed := True\<rparr>, Looking)"
| "wait_step seen seq up (w, Looking) =
     (w, if seq div 2 \<noteq> seen then Disarming (seq div 2) else if up then Leaving else Sleeping)"
| "wait_step seen seq up (w, Disarming n) = (w\<lparr>pw_armed := False\<rparr>, Waited RV9_IO_OK n)"
| "wait_step seen seq up (w, Sleeping) =
     (if pw_sem w > 0 then (w\<lparr>pw_sem := 0\<rparr>, Arming) else if up then (w, Arming) else (w, Sleeping))"
| "wait_step seen seq up (w, Leaving) = (w\<lparr>pw_armed := False\<rparr>, LastLook)"
| "wait_step seen seq up (w, LastLook) =
     (w, if seq div 2 \<noteq> seen then Waited RV9_IO_OK (seq div 2) else Waited RV9_IO_ERR_TIMEOUT seen)"
| "wait_step seen seq up (w, Waited e n) = (w, Waited e n)"

section \<open>Asking, removing, seeking\<close>

text \<open>None: the cell of a path to the directory is NULL, and is read all the same.\<close>

definition pub_meaning :: "pub_path \<Rightarrow> pub_dev \<Rightarrow> string option" where
  "pub_meaning st d =
     (case px_cell st of None \<Rightarrow> None | Some i \<Rightarrow> Some (take (RV9_MEANING_MAX - 1) (pc_meaning (pu_cells d ! i))))"

record pub_info =
  pn_name :: string
  pn_seq :: nat
  pn_len :: nat
  pn_cap :: nat
  pn_stamp :: nat
  pn_writer :: nat
  pn_readers :: nat
  pn_held :: bool
  pn_fault :: nat
  pn_reserved_by :: nat
  pn_torn :: nat

definition pub_info_of :: "pub_path \<Rightarrow> pub_dev \<Rightarrow> io_err + pub_info" where
  "pub_info_of st d =
     (case px_cell st of
        None \<Rightarrow> Inl RV9_IO_ERR_MODE
      | Some i \<Rightarrow>
          let c = pu_cells d ! i
          in Inr \<lparr>pn_name = pc_name c, pn_seq = pc_seq c div 2, pn_len = pc_len c, pn_cap = pc_cap c, pn_stamp = pc_stamp c,
                 pn_writer = pc_writer c mod 65536, pn_readers = pc_readers c mod 65536, pn_held = pc_held c,
                 pn_fault = pc_fault c mod 256, pn_reserved_by = pc_reserved_by c mod 65536, pn_torn = pc_torn c\<rparr>)"

definition pub_size :: "pub_path \<Rightarrow> pub_dev \<Rightarrow> nat" where
  "pub_size st d = (case px_cell st of None \<Rightarrow> length (pu_cells d) | Some i \<Rightarrow> pc_cap (pu_cells d ! i))"

definition pfm_remove :: "string \<Rightarrow> pub_dev \<Rightarrow> pub_dev \<times> io_err" where
  "pfm_remove name d =
     (case pub_find_cell name d of
        None \<Rightarrow> (d, RV9_IO_ERR_NOTFOUND)
      | Some i \<Rightarrow>
          let c = pu_cells d ! i
          in if pc_held c \<or> pc_readers c \<noteq> 0 \<or> pc_reserved_by c \<noteq> 0 then (d, RV9_IO_ERR_BUSY)
             else (upd_cell i (\<lambda>c. unused_cell (pu_cap d)) d, RV9_IO_OK))"

definition pfm_seek :: "int \<Rightarrow> whence \<Rightarrow> pub_path \<Rightarrow> pub_path \<times> io_err" where
  "pfm_seek offset whence st =
     (if px_cell st \<noteq> None \<or> whence \<noteq> RV9_SEEK_SET \<or> offset \<noteq> 0 then (st, RV9_IO_ERR_UNSUPPORTED)
      else (st\<lparr>px_dirpos := 0\<rparr>, RV9_IO_OK))"

section \<open>Declared in a manifest\<close>

definition reserve_cell :: "nat \<Rightarrow> string \<Rightarrow> nat \<Rightarrow> pub_dev \<Rightarrow> pub_dev \<times> io_err" where
  "reserve_cell pid meaning i d =
     (let c = pu_cells d ! i;
          other = (if pc_reserved_by c \<noteq> 0 \<and> pc_reserved_by c \<noteq> pid then pc_reserved_by c
                   else if pc_held c \<and> pc_writer c \<noteq> pid then pc_writer c else 0);
          other2 = (if other = 0 \<and> pc_held c \<and> pc_writer c = 0 then UINT32_MAX else other)
      in if other2 \<noteq> 0 then (d, RV9_IO_ERR_BUSY)
         else (upd_cell i (\<lambda>c. c\<lparr>pc_reserved_by := pid, pc_last_writer := pid,
                 pc_meaning := (if meaning \<noteq> [] then take (RV9_MEANING_MAX - 1) meaning else pc_meaning c)\<rparr>) d, RV9_IO_OK))"

definition pfm_reserve_writer :: "string \<Rightarrow> nat \<Rightarrow> string \<Rightarrow> pub_dev \<Rightarrow> pub_dev \<times> io_err" where
  "pfm_reserve_writer rest pid meaning d =
     (if \<not> name_ok rest then (d, RV9_IO_ERR_INVAL)
      else case pub_find_cell rest d of
        Some i \<Rightarrow> reserve_cell pid meaning i d
      | None \<Rightarrow> (case make_cell rest d of None \<Rightarrow> (d, RV9_IO_ERR_NOMEM) | Some (d1, i) \<Rightarrow> reserve_cell pid meaning i d1))"

definition pfm_provided :: "string \<Rightarrow> pub_dev \<Rightarrow> bool" where
  "pfm_provided rest d \<longleftrightarrow> name_ok rest \<and> pub_find_cell rest d \<noteq> None"

text \<open>The cell an end leaves, and whether its watchers are woken.\<close>

definition end_cell :: "nat \<Rightarrow> nat \<Rightarrow> pub_cell \<Rightarrow> pub_cell \<times> bool" where
  "end_cell pid fault c =
     (if pc_name c = [] then (c, False)
      else
        let c1 = (if pc_reserved_by c = pid then c\<lparr>pc_reserved_by := 0\<rparr> else c)
        in if pc_last_writer c \<noteq> pid then (c1, False)
           else
             let c2 = c1\<lparr>pc_last_writer := 0\<rparr>
             in if fault = RV9_FAULT_NONE \<or> pc_held c2 \<or> pc_fault c2 \<noteq> 0 then (c2, False)
                else (store_to (SetSeq (cast32 (pc_seq c2 + 2)))
                        (c2\<lparr>pc_fault := (if fault = RV9_FAULT_RUNAWAY then RV9_FAULT_DEADLINE else fault)\<rparr>), True))"

definition pfm_ended :: "nat \<Rightarrow> nat \<Rightarrow> pub_dev \<Rightarrow> pub_dev" where
  "pfm_ended pid fault d =
     (if pid = RV9_PID_NONE then d
      else fold (\<lambda>i d. case end_cell pid fault (pu_cells d ! i) of
                         (c, wake) \<Rightarrow>
                           fold (act_done i) (if wake then wake_watchers (length (pu_waiters d)) else []) (upd_cell i (\<lambda>_. c) d))
             [0..<length (pu_cells d)] d)"

end
