(* ===== verification/PubSeq.thy ===== *)
theory PubSeq
  imports Pub
begin

text \<open>
  Reading and waiting while a publication is under way. A device of one cell, the process that publishes
  into it, any number of readers, and processes that wait, one a slot, each an act at a time. The log is
  what has been published, in order, from a first entry for a cell never written; \<open>ps_next\<close> is what is
  being published.
\<close>

section \<open>One cell and those who use it\<close>

record pub_sys =
  ps_dev :: pub_dev
  ps_acts :: "pub_act list"
  ps_next :: "nat \<times> 8 word list"
  ps_log :: "(nat \<times> 8 word list) list"
  ps_readers :: "(nat \<times> nat \<times> reading) list"
  ps_waits :: "(nat \<times> waiting) list"

abbreviation ps_cell :: "pub_sys \<Rightarrow> pub_cell" where
  "ps_cell s \<equiv> pu_cells (ps_dev s) ! 0"

fun wake_act :: "pub_act \<Rightarrow> bool" where
  "wake_act (Put x) = False"
| "wake_act _ = True"

text \<open>A process opens the cell for writing and closes it, and between them publishes, its acts taken one at a
  time by \<open>Work\<close>; a publication is logged at its last store. \<open>Fault\<close> is the notice of a process's end, with
  no publication under way. A reader is its room, how much had been published when it began, and where it
  is. A process that waits claims a slot, may wait again on it, and gives it up when it closes its path;
  where it is, and the sequence it last saw, are under the number of its slot.\<close>

datatype pub_event =
    Own nat | Disown | Publish nat "8 word list" | Work | Fault nat nat
  | StartRead nat | Load nat
  | StartWait nat | WaitAgain nat nat | WaitStep nat bool | EndWait nat

fun waited :: "waiting \<Rightarrow> bool" where
  "waited (Waited e n) = True"
| "waited _ = False"

definition may_go :: "nat \<Rightarrow> pub_sys \<Rightarrow> bool" where
  "may_go k s \<longleftrightarrow> k < length (ps_waits s) \<and> waited (snd (ps_waits s ! k)) \<and> pw_cell (pu_waiters (ps_dev s) ! k) = Some 0"

fun pub_step :: "pub_sys \<Rightarrow> pub_event \<Rightarrow> pub_sys" where
  "pub_step s (Own pid) = s\<lparr>ps_dev := fst (open_cell pid RV9_MODE_WRITE 0 (ps_dev s))\<rparr>"
| "pub_step s Disown =
     (if ps_acts s = []
      then s\<lparr>ps_dev := pfm_close \<lparr>px_cell = Some 0, px_mode = RV9_MODE_WRITE, px_writer = True, px_slot = None, px_dirpos = 0\<rparr> (ps_dev s)\<rparr>
      else s)"
| "pub_step s (Publish st v) =
     (if ps_acts s = [] \<and> pc_held (ps_cell s) \<and> length v \<le> length (pc_value (ps_cell s))
      then s\<lparr>ps_acts := publish (length (pu_waiters (ps_dev s))) (pc_seq (ps_cell s)) st v, ps_next := (st, v)\<rparr> else s)"
| "pub_step s Work =
     (case ps_acts s of
        [] \<Rightarrow> s
      | a # rest \<Rightarrow>
          (case act_step 0 a (ps_dev s) of
             (d, next_acts) \<Rightarrow>
               s\<lparr>ps_dev := d, ps_acts := next_acts @ rest,
                 ps_log := (if \<not> wake_act a \<and> list_all wake_act rest then ps_log s @ [ps_next s] else ps_log s)\<rparr>))"
| "pub_step s (Fault pid f) =
     (if ps_acts s = []
      then (case end_cell pid f (ps_cell s) of
              (c, wake) \<Rightarrow>
                s\<lparr>ps_dev := upd_cell 0 (\<lambda>_. c) (ps_dev s),
                  ps_acts := (if wake then wake_watchers (length (pu_waiters (ps_dev s))) else []),
                  ps_log := (if wake then ps_log s @ [last (ps_log s)] else ps_log s)\<rparr>)
      else s)"
| "pub_step s (StartRead room) = s\<lparr>ps_readers := ps_readers s @ [(room, length (ps_log s), Trying 0)]\<rparr>"
| "pub_step s (Load r) =
     (if r < length (ps_readers s)
      then s\<lparr>ps_readers := (ps_readers s)[r := (case ps_readers s ! r of (room, n, at) \<Rightarrow> (room, n, read_step room (ps_cell s) at))]\<rparr> else s)"
| "pub_step s (StartWait seen) =
     (case pub_claim_slot 0 (fst (open_cell 0 RV9_MODE_READ 0 (ps_dev s))) of
        (d, None) \<Rightarrow> s
      | (d, Some k) \<Rightarrow> s\<lparr>ps_dev := d, ps_waits := (ps_waits s)[k := (seen, Arming)]\<rparr>)"
| "pub_step s (WaitAgain k seen) = (if may_go k s then s\<lparr>ps_waits := (ps_waits s)[k := (seen, Arming)]\<rparr> else s)"
| "pub_step s (WaitStep k up) =
     (if k < length (ps_waits s)
      then (case ps_waits s ! k of (seen, wt) \<Rightarrow>
              (case wait_step seen (pc_seq (ps_cell s)) up (pu_waiters (ps_dev s) ! k, wt) of
                 (w, wt1) \<Rightarrow> s\<lparr>ps_dev := upd_waiter k (\<lambda>_. w) (ps_dev s), ps_waits := (ps_waits s)[k := (seen, wt1)]\<rparr>))
      else s)"
| "pub_step s (EndWait k) =
     (if may_go k s
      then s\<lparr>ps_dev := pfm_close \<lparr>px_cell = Some 0, px_mode = RV9_MODE_READ, px_writer = False, px_slot = Some k, px_dirpos = 0\<rparr> (ps_dev s)\<rparr>
      else s)"

definition pub_fresh :: "nat \<Rightarrow> pub_sys" where
  "pub_fresh cap =
     \<lparr>ps_dev = \<lparr>pu_cells = [(unused_cell cap)\<lparr>pc_name := ''c''\<rparr>], pu_cap = cap, pu_stride = up8 (sizeof_cell + cap),
        pu_waiters = replicate PFM_MAX_WAITERS \<lparr>pw_sem = 0, pw_cell = None, pw_armed = False\<rparr>\<rparr>,
      ps_acts = [], ps_next = (0, []), ps_log = [(0, [])], ps_readers = [], ps_waits = replicate PFM_MAX_WAITERS (0, Waited RV9_IO_OK 0)\<rparr>"

section \<open>The cell between stores\<close>

text \<open>The cell shows publication \<open>k\<close>.\<close>

definition shows_pub :: "pub_cell \<Rightarrow> nat \<Rightarrow> nat \<times> 8 word list \<Rightarrow> bool" where
  "shows_pub c k e \<longleftrightarrow> pc_seq c = 2 * k \<and> pc_stamp c = fst e \<and> pc_len c = length (snd e) \<and>
     length (snd e) \<le> length (pc_value c) \<and> take (length (snd e)) (pc_value c) = snd e"

fun data_store :: "pub_store \<Rightarrow> bool" where
  "data_store (SetSeq n) = False"
| "data_store _ = True"

text \<open>The stores still to come end with the even number, and what they leave shows the next publication.
  As long as there are any, no slot has been looked at.\<close>

definition todo_ok :: "pub_cell \<Rightarrow> (nat \<times> 8 word list) list \<Rightarrow> nat \<times> 8 word list \<Rightarrow> nat \<Rightarrow> pub_store list \<Rightarrow> pub_act list \<Rightarrow> bool" where
  "todo_ok c lg nx k todo wk \<longleftrightarrow> lg \<noteq> [] \<and> list_all wake_act wk \<and>
     (let n = length lg
      in if todo = [] then shows_pub c (n - 1) (last lg)
         else wk = wake_watchers k \<and> shows_pub (fold store_to todo c) n nx \<and>
            (\<exists>xs. list_all data_store xs \<and>
              (todo = SetSeq (2 * n - 1) # xs @ [SetSeq (2 * n)] \<and> shows_pub c (n - 1) (last lg) \<or>
               todo = xs @ [SetSeq (2 * n)] \<and> pc_seq c = 2 * n - 1)))"

lemma store_bytes: "length v \<le> length (pc_value c) \<Longrightarrow> n \<le> length v \<Longrightarrow>
    fold store_to (map (\<lambda>i. SetByte i (v ! i)) [0..<n]) c = c\<lparr>pc_value := take n v @ drop n (pc_value c)\<rparr>"
proof (induction n)
  case (Suc n)
  have "(take n v @ drop n (pc_value c))[n := v ! n] = take (Suc n) v @ drop (Suc n) (pc_value c)"
    using Suc.prems by (simp add: list_update_append take_Suc_conv_app_nth upd_conv_take_nth_drop min_def Cons_nth_drop_Suc [symmetric])
  then show ?case using Suc by simp
qed simp

lemma stamp_parts: "(st div W32 * W32 + (x div W32 * W32 + st mod W32) mod W32) = (st :: nat)"
  by (simp add: mod_mult_self3 div_mult_mod_eq)

lemma publication_shows:
  assumes "length v \<le> length (pc_value c)" "pc_seq c + 2 < W32" "pc_seq c = 2 * k"
  shows "shows_pub (fold store_to (publication (pc_seq c) st v) c) (Suc k) (st, v)"
  using assms store_bytes [of v "c\<lparr>pc_seq := pc_seq c + 1\<rparr>" "length v"]
  by (simp add: publication_def shows_pub_def stamp_parts)

lemma data_keeps_seq: "data_store x \<Longrightarrow> pc_seq (store_to x c) = pc_seq c"
  by (cases x) auto

lemma todo_seq:
  assumes "todo_ok c lg nx k todo wk"
  shows "pc_seq c = 2 * (length lg - 1) \<or> todo \<noteq> [] \<and> pc_seq c = 2 * length lg - 1"
    "even (pc_seq c) \<Longrightarrow> shows_pub c (length lg - 1) (last lg)"
proof -
  have "shows_pub c (length lg - 1) (last lg) \<or> todo \<noteq> [] \<and> pc_seq c = 2 * length lg - 1 \<and> 0 < length lg"
    using assms unfolding todo_ok_def Let_def by (auto split: if_splits)
  moreover have "odd (2 * n - 1)" if "0 < n" for n :: nat using that by (cases n) simp_all
  ultimately show "pc_seq c = 2 * (length lg - 1) \<or> todo \<noteq> [] \<and> pc_seq c = 2 * length lg - 1"
    "even (pc_seq c) \<Longrightarrow> shows_pub c (length lg - 1) (last lg)"
    by (auto simp: shows_pub_def)
qed

text \<open>Opens and closes change nothing of what is published.\<close>

definition same_pub :: "pub_cell \<Rightarrow> pub_cell \<Rightarrow> bool" where
  "same_pub c c' \<longleftrightarrow> pc_seq c' = pc_seq c \<and> pc_len c' = pc_len c \<and> pc_stamp c' = pc_stamp c \<and> pc_value c' = pc_value c"

lemma same_shows: "same_pub c c' \<Longrightarrow> shows_pub c' k e = shows_pub c k e"
  by (simp add: same_pub_def shows_pub_def)

lemma same_stores: "same_pub c c' \<Longrightarrow> same_pub (fold store_to xs c) (fold store_to xs c')"
proof (induction xs arbitrary: c c')
  case (Cons x xs)
  have "same_pub (store_to x c) (store_to x c')" using Cons.prems by (cases x) (simp_all add: same_pub_def)
  then show ?case using Cons.IH by simp
qed simp

lemma same_todo: "same_pub c c' \<Longrightarrow> todo_ok c' lg nx k todo wk = todo_ok c lg nx k todo wk"
proof -
  assume s: "same_pub c c'"
  then have q: "pc_seq c' = pc_seq c" by (simp add: same_pub_def)
  show ?thesis unfolding todo_ok_def Let_def same_shows [OF s] same_shows [OF same_stores [OF s]] q ..
qed

section \<open>A read in progress\<close>

text \<open>What a reader has loaded agrees with the cell as long as the sequence is the one it began with.\<close>

fun read_ok :: "pub_cell \<Rightarrow> (nat \<times> 8 word list) list \<Rightarrow> nat \<times> nat \<times> reading \<Rightarrow> bool" where
  "read_ok c lg (room, n, Trying t) = (0 < n \<and> n \<le> length lg)"
| "read_ok c lg (room, n, GotSeq t b) = (even b \<and> 0 < n \<and> n \<le> Suc (b div 2) \<and> b \<le> pc_seq c)"
| "read_ok c lg (room, n, GotLen t b l) = (even b \<and> 0 < n \<and> n \<le> Suc (b div 2) \<and> b \<le> pc_seq c \<and> (pc_seq c = b \<longrightarrow> l = pc_len c))"
| "read_ok c lg (room, n, GotLow t b l lo) =
     (even b \<and> 0 < n \<and> n \<le> Suc (b div 2) \<and> b \<le> pc_seq c \<and> (pc_seq c = b \<longrightarrow> l = pc_len c \<and> lo = pc_stamp c mod W32))"
| "read_ok c lg (room, n, Copying t b l st bs) =
     (even b \<and> 0 < n \<and> n \<le> Suc (b div 2) \<and> b \<le> pc_seq c \<and> length bs \<le> min l room \<and>
      (pc_seq c = b \<longrightarrow> l = pc_len c \<and> st = pc_stamp c \<and> bs = take (length bs) (pc_value c)))"
| "read_ok c lg (room, n, Snapshot k l st bs) =
     (0 < n \<and> n \<le> Suc k \<and> k < length lg \<and> (\<exists>v. lg ! k = (st, v) \<and> l = length v \<and> bs = take room v))"
| "read_ok c lg (room, n, Outrun) = True"

text \<open>After a store no sequence a reader may hold is the present one.\<close>

lemma read_ok_store:
  assumes "read_ok c lg r" "pc_seq c \<le> pc_seq c'" "\<And>b. even b \<Longrightarrow> b \<le> pc_seq c \<Longrightarrow> pc_seq c' \<noteq> b" "lg' = lg @ ex"
  shows "read_ok c' lg' r"
proof -
  obtain room n q where r: "r = (room, n, q)" by (metis prod_cases3)
  show ?thesis using assms unfolding r by (cases q) (auto simp: nth_append)
qed

lemma read_ok_load:
  assumes r: "read_ok c lg (room, n, q)" and s: "even (pc_seq c) \<Longrightarrow> shows_pub c (length lg - 1) (last lg)"
    and seq: "pc_seq c = 2 * (length lg - 1) \<or> pc_seq c = 2 * length lg - 1" and lg: "lg \<noteq> []"
  shows "read_ok c lg (room, n, read_step room c q)"
proof (cases q)
  case (Trying t)
  have "n \<le> Suc (pc_seq c div 2)" if "even (pc_seq c)" using r seq that Trying lg by (cases lg) auto
  then show ?thesis using r Trying by auto
next
  case (Copying t b l st bs)
  show ?thesis
  proof (cases "length bs < min l room")
    case True
    have "Suc (length bs) \<le> length (pc_value c) \<and> bs @ [pc_value c ! length bs] = take (Suc (length bs)) (pc_value c)" if b: "pc_seq c = b"
    proof -
      have sh: "shows_pub c (length lg - 1) (last lg)" using s r b Copying by simp
      have "l = pc_len c" "bs = take (length bs) (pc_value c)" using r Copying b by auto
      then have "length bs < length (pc_value c)" using True sh by (simp add: shows_pub_def)
      from take_Suc_conv_app_nth [OF this] this show ?thesis using \<open>bs = _\<close> by simp
    qed
    then show ?thesis using r True Copying by (auto simp: min_absorb2)
  next
    case False
    show ?thesis
    proof (cases "pc_seq c = b")
      case True
      have sh: "shows_pub c (length lg - 1) (last lg)" using s r True Copying by simp
      obtain v where v: "last lg = (st, v)" "l = length v" "take (length v) (pc_value c) = v"
        using sh r Copying True by (cases "last lg") (auto simp: shows_pub_def)
      have k: "b div 2 = length lg - 1" using sh True by (simp add: shows_pub_def)
      have "length bs = min l room" using False r Copying by auto
      then have "bs = take (min (length v) room) (pc_value c)" using r Copying True v(2) by auto
      also have "\<dots> = take room v" using v(3) by (metis min.commute take_take)
      finally have "bs = take room v" .
      moreover have "lg ! (length lg - 1) = (st, v)" using lg v(1) by (simp add: last_conv_nth)
      ultimately show ?thesis using r Copying False True k v(2) lg by auto
    next
      case other: False
      have "n \<le> length lg" using r Copying seq lg by (cases lg) auto
      then show ?thesis using r Copying False other by simp
    qed
  qed
qed (use r in \<open>auto simp: mod_mult_self3\<close>)

lemma same_read: "same_pub c c' \<Longrightarrow> read_ok c' lg r = read_ok c lg r"
proof -
  obtain room n q where r: "r = (room, n, q)" by (metis prod_cases3)
  show "same_pub c c' \<Longrightarrow> read_ok c' lg r = read_ok c lg r" unfolding r by (cases q) (simp_all add: same_pub_def)
qed

section \<open>A wait in progress\<close>

fun wait_ok :: "nat \<Rightarrow> pub_act list \<Rightarrow> nat \<Rightarrow> pub_waiter \<Rightarrow> nat \<times> waiting \<Rightarrow> bool" where
  "wait_ok q acts k w (seen, Looking) = (pw_cell w = Some 0 \<and> (pw_armed w \<or> pw_sem w > 0 \<or> Give k \<in> set acts))"
| "wait_ok q acts k w (seen, Sleeping) =
     (pw_cell w = Some 0 \<and> (pw_armed w \<or> pw_sem w > 0 \<or> Give k \<in> set acts) \<and>
      (q div 2 \<noteq> seen \<longrightarrow> pw_sem w > 0 \<or> Give k \<in> set acts \<or> Look k \<in> set acts))"
| "wait_ok q acts k w (seen, Waited e n) = True"
| "wait_ok q acts k w (seen, wt) = (pw_cell w = Some 0)"

lemma wait_ok_step: "wait_ok q acts k w (seen, wt) \<Longrightarrow> wait_step seen q up (w, wt) = (w', wt') \<Longrightarrow> wait_ok q acts k w' (seen, wt')"
  by (cases wt) (auto split: if_splits)

lemma wait_ok_look: "wait_ok q (Look k # acts) k w (seen, wt) \<Longrightarrow> look_at 0 w = (w', got) \<Longrightarrow>
    wait_ok q ((if got then [Give k] else []) @ acts) k w' (seen, wt)"
  by (cases wt) (auto simp: look_at_def split: if_splits)

lemma wait_ok_give: "wait_ok q (Give k # acts) k w (seen, wt) \<Longrightarrow> wait_ok q acts k (w\<lparr>pw_sem := 1\<rparr>) (seen, wt)"
  by (cases wt) auto

lemma wait_ok_acts:
  assumes "wait_ok q acts k w (seen, wt)" "q' div 2 = q div 2 \<or> Look k \<in> set acts'" "Give k \<in> set acts \<longrightarrow> Give k \<in> set acts'"
    "Look k \<in> set acts \<longrightarrow> Look k \<in> set acts'"
  shows "wait_ok q' acts' k w (seen, wt)"
  using assms by (cases wt) auto

section \<open>A publication done at once\<close>

lemma puts_done: "fold (act_done i) (map Put xs) d = upd_cell i (fold store_to xs) d"
proof (induction xs arbitrary: d)
  case (Cons x xs)
  have "upd_cell i g (upd_cell i f d) = upd_cell i (\<lambda>c. g (f c)) d" for f g
    by (cases "i < length (pu_cells d)") (simp_all add: upd_cell_def list_update_beyond)
  then show ?case using Cons by (simp add: act_done_def comp_def)
qed (simp add: upd_cell_def)

text \<open>A look with what follows from it.\<close>

lemma look_done: "act_done i (Look k) d =
    upd_waiter k (\<lambda>w. if pw_cell w = Some i \<and> pw_armed w then w\<lparr>pw_armed := False, pw_sem := 1\<rparr> else w) d"
  by (cases "k < length (pu_waiters d)") (auto simp: act_done_def look_at_def upd_waiter_def list_update_beyond)

lemma looks_done: "pu_cells (fold (act_done i) (map Look ks) d) = pu_cells d \<and> pu_cap (fold (act_done i) (map Look ks) d) = pu_cap d"
  by (induction ks arbitrary: d) (simp_all add: look_done upd_waiter_def)

lemma wakes_done: "pu_cells (fold (act_done i) (wake_watchers n) d) = pu_cells d" "pu_cap (fold (act_done i) (wake_watchers n) d) = pu_cap d"
  using looks_done [of i "[0..<n]" d] by (simp_all add: wake_watchers_def)

lemma publish_done:
  "pu_cells (fold (act_done i) (publish n q st v) d) = pu_cells (upd_cell i (fold store_to (publication q st v)) d)"
  "pu_cap (fold (act_done i) (publish n q st v) d) = pu_cap d"
  by (simp_all add: publish_def puts_done wakes_done upd_cell_def)

section \<open>Every step\<close>

definition waits_ok :: "pub_sys \<Rightarrow> bool" where
  "waits_ok s \<longleftrightarrow> (\<forall>k < length (ps_waits s). wait_ok (pc_seq (ps_cell s)) (ps_acts s) k (pu_waiters (ps_dev s) ! k) (ps_waits s ! k))"

definition acts_ok :: "pub_sys \<Rightarrow> bool" where
  "acts_ok s \<longleftrightarrow> (\<exists>todo wk. ps_acts s = map Put todo @ wk \<and>
     todo_ok (ps_cell s) (ps_log s) (ps_next s) (length (pu_waiters (ps_dev s))) todo wk)"

definition pub_inv :: "pub_sys \<Rightarrow> bool" where
  "pub_inv s \<longleftrightarrow> pu_cells (ps_dev s) \<noteq> [] \<and> length (ps_waits s) = length (pu_waiters (ps_dev s)) \<and> length (ps_waits s) = PFM_MAX_WAITERS \<and> acts_ok s \<and>
     (\<forall>r\<in>set (ps_readers s). read_ok (ps_cell s) (ps_log s) r) \<and> waits_ok s"

lemma todo_store:
  assumes t: "todo_ok c lg nx k (x # xs) wk" and n: "2 * length lg < W32"
  defines "c' \<equiv> store_to x c" and "lg' \<equiv> if xs = [] then lg @ [nx] else lg"
  shows "todo_ok c' lg' nx k xs wk \<and> pc_seq c \<le> pc_seq c' \<and> (\<forall>b. even b \<longrightarrow> b \<le> pc_seq c \<longrightarrow> pc_seq c' \<noteq> b) \<and>
    (pc_seq c' div 2 = pc_seq c div 2 \<or> xs = [])"
proof -
  let ?n = "length lg"
  have n0: "lg \<noteq> []" "0 < ?n" and w: "list_all wake_act wk" "wk = wake_watchers k" and sh: "shows_pub (fold store_to (x # xs) c) ?n nx"
    using t unfolding todo_ok_def Let_def by auto
  obtain ys where ys: "list_all data_store ys" "x # xs = SetSeq (2 * ?n - 1) # ys @ [SetSeq (2 * ?n)] \<and> shows_pub c (?n - 1) (last lg) \<or>
      x # xs = ys @ [SetSeq (2 * ?n)] \<and> pc_seq c = 2 * ?n - 1"
    using t unfolding todo_ok_def Let_def by auto
  have two: "2 * ?n - 1 = Suc (2 * (?n - 1))" using n0(2) by arith
  consider "x = SetSeq (2 * ?n - 1)" "xs = ys @ [SetSeq (2 * ?n)]" "pc_seq c = 2 * (?n - 1)"
    | "x = SetSeq (2 * ?n)" "xs = []" "pc_seq c = 2 * ?n - 1"
    | z zs where "ys = z # zs" "x = z" "xs = zs @ [SetSeq (2 * ?n)]" "pc_seq c = 2 * ?n - 1"
    using ys by (cases ys) (auto simp: shows_pub_def)
  then show ?thesis
  proof cases
    case 1
    then have "todo_ok c' lg' nx k xs wk" using n0 w sh ys(1) by (auto simp: c'_def lg'_def todo_ok_def Let_def)
    moreover have "pc_seq c' = 2 * ?n - 1" using 1 by (simp add: c'_def)
    ultimately show ?thesis using 1 two by auto
  next
    case 2
    then have "todo_ok c' lg' nx k xs wk" using n0 w sh by (auto simp: c'_def lg'_def todo_ok_def Let_def)
    moreover have "pc_seq c' = 2 * ?n" using 2 by (simp add: c'_def)
    ultimately show ?thesis using 2 two by auto
  next
    case 3
    then have z: "data_store x" "list_all data_store zs" using ys(1) by auto
    have q: "pc_seq c' = 2 * ?n - 1" using 3 z(1) by (simp add: c'_def data_keeps_seq)
    moreover have "todo_ok c' lg' nx k xs wk" using 3 n0 w sh z(2) q by (auto simp: c'_def lg'_def todo_ok_def Let_def)
    ultimately show ?thesis using 3 two by auto
  qed
qed

text \<open>What opens, closes and waits do leaves the cell as published.\<close>

lemma upd_cell_zero: "pu_cells d \<noteq> [] \<Longrightarrow> pu_cells (upd_cell 0 f d) ! 0 = f (pu_cells d ! 0) \<and> pu_cells (upd_cell 0 f d) \<noteq> [] \<and> pu_waiters (upd_cell 0 f d) = pu_waiters d"
  by (cases "pu_cells d") (simp_all add: upd_cell_def)

lemma upd_waiter_slots: "pu_waiters (upd_waiter k f d) = (pu_waiters d)[k := f (pu_waiters d ! k)]" "pu_cells (upd_waiter k f d) = pu_cells d"
  by (simp_all add: upd_waiter_def)

lemma open_cell_keeps:
  assumes "pu_cells d \<noteq> []" "fst (open_cell me mode 0 d) = e"
  shows "pu_cells e \<noteq> [] \<and> same_pub (pu_cells d ! 0) (pu_cells e ! 0) \<and> pu_waiters e = pu_waiters d"
  using assms(1) unfolding assms(2) [symmetric] by (simp add: open_cell_def Let_def upd_cell_zero same_pub_def)

lemma pfm_close_keeps:
  assumes "pu_cells d \<noteq> []" "pfm_close st d = e" "px_cell st = Some 0"
  shows "pu_cells e \<noteq> [] \<and> same_pub (pu_cells d ! 0) (pu_cells e ! 0)"
    "pu_waiters e = (case px_slot st of None \<Rightarrow> pu_waiters d
       | Some k \<Rightarrow> (pu_waiters d)[k := (pu_waiters d ! k)\<lparr>pw_armed := False, pw_cell := None\<rparr>])"
  using assms(1,3) unfolding assms(2) [symmetric] by (simp_all add: pfm_close_def Let_def upd_cell_zero upd_waiter_slots same_pub_def split: option.split)

lemma claim_slot_keeps:
  assumes "pub_claim_slot 0 d = (e, Some k)"
  shows "k < length (pu_waiters d) \<and> pu_cells e = pu_cells d \<and>
    pu_waiters e = (pu_waiters d)[k := (pu_waiters d ! k)\<lparr>pw_sem := 0, pw_armed := False, pw_cell := Some 0\<rparr>]"
proof -
  have k: "find_index (\<lambda>w. pw_cell w = None) (pu_waiters d) = Some k" and e: "e = upd_waiter k (\<lambda>w. w\<lparr>pw_sem := 0, pw_armed := False, pw_cell := Some 0\<rparr>) d"
    using assms by (auto simp: pub_claim_slot_def split: option.splits)
  then show ?thesis using find_index_Some [OF k] by (simp add: upd_waiter_slots)
qed

lemma pub_inv_dev:
  assumes i: "pub_inv s" and d: "pu_cells d \<noteq> [] \<and> same_pub (ps_cell s) (pu_cells d ! 0)"
    and n: "length ws = length (pu_waiters d)" "length (pu_waiters d) = length (pu_waiters (ps_dev s))"
    and w: "\<And>k. k < length ws \<Longrightarrow> wait_ok (pc_seq (ps_cell s)) (ps_acts s) k (pu_waiters d ! k) (ws ! k)"
  shows "pub_inv (s\<lparr>ps_dev := d, ps_waits := ws\<rparr>)"
proof -
  have c: "same_pub (ps_cell s) (pu_cells d ! 0)" "pc_seq (pu_cells d ! 0) = pc_seq (ps_cell s)" using d by (simp_all add: same_pub_def)
  show ?thesis using i d n w unfolding pub_inv_def acts_ok_def waits_ok_def
    by (simp add: same_todo [OF c(1)] same_read [OF c(1)] c(2))
qed

lemma pub_invD:
  assumes "pub_inv s"
  shows "pu_cells (ps_dev s) \<noteq> []" "length (ps_waits s) = length (pu_waiters (ps_dev s))"
    "k < length (pu_waiters (ps_dev s)) \<Longrightarrow> wait_ok (pc_seq (ps_cell s)) (ps_acts s) k (pu_waiters (ps_dev s) ! k) (ps_waits s ! k)"
    "r \<in> set (ps_readers s) \<Longrightarrow> read_ok (ps_cell s) (ps_log s) r"
    "\<exists>todo wk. ps_acts s = map Put todo @ wk \<and> todo_ok (ps_cell s) (ps_log s) (ps_next s) (length (pu_waiters (ps_dev s))) todo wk"
    "length (ps_waits s) = PFM_MAX_WAITERS"
  using assms by (simp_all add: pub_inv_def waits_ok_def acts_ok_def)

lemma wait_event_ok:
  assumes i: "pub_inv s" and e: "e \<in> {Own p, Disown, StartWait n, WaitAgain k n, WaitStep k up, EndWait k}"
  shows "pub_inv (pub_step s e) \<and> ps_log (pub_step s e) = ps_log s"
proof -
  note I = pub_invD [OF i]
  let ?q = "pc_seq (ps_cell s)"
  consider "e = Own p" | "e = Disown" | "e = StartWait n" | "e = WaitAgain k n" | "e = WaitStep k up" | "e = EndWait k" using e by blast
  then show ?thesis
  proof cases
    case 1
    have "pub_inv (s\<lparr>ps_dev := fst (open_cell p RV9_MODE_WRITE 0 (ps_dev s)), ps_waits := ps_waits s\<rparr>)"
      by (rule pub_inv_dev [OF i]) (use open_cell_keeps [OF I(1) refl, of p RV9_MODE_WRITE] I(2,3) in simp_all)
    then show ?thesis using 1 by simp
  next
    case 2
    let ?st = "\<lparr>px_cell = Some 0, px_mode = RV9_MODE_WRITE, px_writer = True, px_slot = None, px_dirpos = 0\<rparr>"
    have "pub_inv (s\<lparr>ps_dev := pfm_close ?st (ps_dev s), ps_waits := ps_waits s\<rparr>)"
      by (rule pub_inv_dev [OF i]) (use pfm_close_keeps [OF I(1) refl, of ?st] I(2,3) in simp_all)
    then show ?thesis using 2 i by simp
  next
    case 3
    let ?d = "fst (open_cell 0 RV9_MODE_READ 0 (ps_dev s))"
    note op = open_cell_keeps [OF I(1) refl, of 0 RV9_MODE_READ]
    obtain d ko where d: "pub_claim_slot 0 ?d = (d, ko)" by (metis surj_pair)
    show ?thesis
    proof (cases ko)
      case (Some j)
      note cl = claim_slot_keeps [OF d [unfolded Some]]
      have "pub_inv (s\<lparr>ps_dev := d, ps_waits := (ps_waits s)[j := (n, Arming)]\<rparr>)"
        by (rule pub_inv_dev [OF i]) (use cl op I(2,3) in \<open>auto simp: nth_list_update\<close>)
      then show ?thesis using 3 d Some by simp
    qed (use 3 d i in simp)
  next
    case 4
    have "pub_inv (s\<lparr>ps_dev := ps_dev s, ps_waits := (ps_waits s)[k := (n, Arming)]\<rparr>)" if "may_go k s"
      by (rule pub_inv_dev [OF i]) (use I that in \<open>auto simp: nth_list_update may_go_def same_pub_def\<close>)
    then show ?thesis using 4 i by simp
  next
    case 5
    show ?thesis
    proof (cases "k < length (ps_waits s)")
      case True
      obtain seen wt where x: "ps_waits s ! k = (seen, wt)" by (metis surj_pair)
      obtain w wt1 where y: "wait_step seen ?q up (pu_waiters (ps_dev s) ! k, wt) = (w, wt1)" by (metis surj_pair)
      have "wait_ok ?q (ps_acts s) k w (seen, wt1)" by (rule wait_ok_step [OF _ y]) (use I(2,3) True x in metis)
      then have "pub_inv (s\<lparr>ps_dev := upd_waiter k (\<lambda>_. w) (ps_dev s), ps_waits := (ps_waits s)[k := (seen, wt1)]\<rparr>)"
        by (intro pub_inv_dev [OF i]) (use I True in \<open>auto simp: nth_list_update upd_waiter_slots same_pub_def\<close>)
      then show ?thesis using 5 True x y by simp
    qed (use 5 i in simp)
  next
    case 6
    let ?st = "\<lparr>px_cell = Some 0, px_mode = RV9_MODE_READ, px_writer = False, px_slot = Some k, px_dirpos = 0\<rparr>"
    have "pub_inv (s\<lparr>ps_dev := pfm_close ?st (ps_dev s), ps_waits := ps_waits s\<rparr>)" if m: "may_go k s"
    proof -
      obtain seen wt where x: "ps_waits s ! k = (seen, wt)" by (metis surj_pair)
      then have "waited wt" using m by (simp add: may_go_def)
      then obtain a b where wt: "wt = Waited a b" by (cases wt) auto
      have w: "wait_ok ?q (ps_acts s) j ((pu_waiters (ps_dev s))[k := (pu_waiters (ps_dev s) ! k)\<lparr>pw_armed := False, pw_cell := None\<rparr>] ! j) (ps_waits s ! j)"
        if "j < length (pu_waiters (ps_dev s))" for j
        using I(3) [OF that] x wt that by (cases "j = k") simp_all
      show ?thesis
        by (rule pub_inv_dev [OF i]) (use pfm_close_keeps [OF I(1) refl, of ?st] I(2) w in simp_all)
    qed
    then show ?thesis using 6 i by simp
  qed
qed

lemma pub_inv_wake:
  assumes i: "pub_inv s" and T: "ps_dev t = upd_waiter j f (ps_dev s)" "ps_acts t = acts" "ps_log t = ps_log s" "ps_readers t = ps_readers s"
      "ps_waits t = ps_waits s" "ps_next t = ps_next s"
    and a: "todo_ok (ps_cell s) (ps_log s) (ps_next s) (length (pu_waiters (ps_dev s))) [] acts"
    and w: "\<And>m. m < length (pu_waiters (ps_dev s)) \<Longrightarrow>
      wait_ok (pc_seq (ps_cell s)) acts m ((pu_waiters (ps_dev s))[j := f (pu_waiters (ps_dev s) ! j)] ! m) (ps_waits s ! m)"
  shows "pub_inv t"
proof -
  have d: "ps_cell t = ps_cell s" "pu_cells (ps_dev t) = pu_cells (ps_dev s)" "pu_waiters (ps_dev t) = (pu_waiters (ps_dev s))[j := f (pu_waiters (ps_dev s) ! j)]"
    unfolding T(1) upd_waiter_slots by simp_all
  have "acts_ok t" unfolding acts_ok_def d T(2-6) by (rule exI [where x = "[] :: pub_store list"], rule exI [where x = acts]) (use a in simp)
  moreover have "waits_ok t" unfolding waits_ok_def d T(2-6) using w pub_invD(2) [OF i] by simp
  moreover have "\<forall>r\<in>set (ps_readers t). read_ok (ps_cell t) (ps_log t) r" unfolding d T(2-6) using pub_invD(4) [OF i] by blast
  ultimately show ?thesis using pub_invD(1,2,6) [OF i] unfolding pub_inv_def d T(2-6) by simp
qed

lemma work_ok:
  assumes i: "pub_inv s" and n: "2 * length (ps_log s) + 2 < W32" and work: "pub_step s Work = t"
  shows "pub_inv t \<and> length (ps_log t) \<le> Suc (length (ps_log s))"
proof (cases "ps_acts s")
  case (Cons a rest)
  note I = pub_invD [OF i]
  let ?c = "ps_cell s" and ?k = "length (pu_waiters (ps_dev s))"
  obtain todo wk where td0: "ps_acts s = map Put todo @ wk" "todo_ok ?c (ps_log s) (ps_next s) ?k todo wk" using I(5) by blast
  have wk: "list_all wake_act wk" using td0(2) by (simp add: todo_ok_def)
  have looks: "a = Look j \<or> a = Give j \<Longrightarrow> todo = []" for j using td0(1) Cons by (cases todo) auto
  show ?thesis
  proof (cases a)
    case (Put x)
    obtain xs where xs: "todo = x # xs" "rest = map Put xs @ wk" using td0(1) Cons Put wk by (cases todo) auto
    have last: "list_all wake_act rest \<longleftrightarrow> xs = []" using xs(2) wk by (cases xs) auto
    have small: "2 * length (ps_log s) < W32" using n by simp
    note st = todo_store [OF td0(2) [unfolded xs(1)] small]
    have T: "ps_cell t = store_to x ?c" "pu_cells (ps_dev t) \<noteq> []" "pu_waiters (ps_dev t) = pu_waiters (ps_dev s)" "ps_acts t = rest"
      "ps_log t = (if xs = [] then ps_log s @ [ps_next s] else ps_log s)" "ps_next t = ps_next s" "ps_readers t = ps_readers s" "ps_waits t = ps_waits s"
      unfolding work [symmetric] using Cons Put last upd_cell_zero [OF I(1)] by auto
    have R: "read_ok (ps_cell t) (ps_log t) y" if "y \<in> set (ps_readers s)" for y
      by (rule read_ok_store [OF I(4) [OF that], where ex = "if xs = [] then [ps_next s] else []"]) (use st T in auto)
    have W: "wait_ok (pc_seq (ps_cell t)) rest j (pu_waiters (ps_dev s) ! j) (ps_waits s ! j)" if j: "j < ?k" for j
    proof -
      obtain seen wt where x: "ps_waits s ! j = (seen, wt)" by (metis surj_pair)
      have look: "Look j \<in> set rest" using td0(2) xs j by (auto simp: todo_ok_def Let_def wake_watchers_def)
      have "wait_ok (pc_seq ?c) (ps_acts s) j (pu_waiters (ps_dev s) ! j) (seen, wt)" using I(3) [OF j] x by simp
      from wait_ok_acts [OF this] look show ?thesis unfolding x by (simp add: Cons Put)
    qed
    have A: "acts_ok t" unfolding acts_ok_def T xs(2) using st [THEN conjunct1] by blast
    have "waits_ok t" using W I(2) unfolding waits_ok_def T(3,4,8) by simp
    moreover have "length (ps_log t) \<le> Suc (length (ps_log s))" unfolding T(5) by simp
    ultimately show ?thesis using A R I(2,6) T(2) unfolding pub_inv_def T(3,7,8) by blast
  next
    case (Look j)
    obtain w got where g: "look_at 0 (pu_waiters (ps_dev s) ! j) = (w, got)" by (metis surj_pair)
    let ?acts = "(if got then [Give j] else []) @ rest"
    have T: "ps_dev t = upd_waiter j (\<lambda>_. w) (ps_dev s)" "ps_acts t = ?acts" "ps_log t = ps_log s" "ps_readers t = ps_readers s" "ps_waits t = ps_waits s"
      "ps_next t = ps_next s"
      unfolding work [symmetric] using Cons Look g by simp_all
    have td: "todo = []" "wk = a # rest" using looks Look td0(1) Cons by auto
    have "todo_ok ?c (ps_log s) (ps_next s) ?k [] ?acts" using td0(2) td Look by (simp add: todo_ok_def)
    moreover have "wait_ok (pc_seq ?c) ?acts m ((pu_waiters (ps_dev s))[j := w] ! m) (ps_waits s ! m)" if m: "m < ?k" for m
    proof -
      obtain seen wt where x: "ps_waits s ! m = (seen, wt)" by (metis surj_pair)
      have ok: "wait_ok (pc_seq ?c) (Look j # rest) m (pu_waiters (ps_dev s) ! m) (seen, wt)" using I(3) [OF m] Cons Look x by simp
      show ?thesis
      proof (cases "m = j")
        case True
        then show ?thesis using wait_ok_look [of "pc_seq ?c" j rest] ok g x m by simp
      next
        case False
        then show ?thesis using wait_ok_acts [OF ok, of "pc_seq ?c" ?acts] x by simp
      qed
    qed
    ultimately have "pub_inv t" by (rule pub_inv_wake [OF i T])
    then show ?thesis unfolding T by simp
  next
    case (Give j)
    have T: "ps_dev t = upd_waiter j (\<lambda>w. w\<lparr>pw_sem := 1\<rparr>) (ps_dev s)" "ps_acts t = rest" "ps_log t = ps_log s" "ps_readers t = ps_readers s" "ps_waits t = ps_waits s"
      "ps_next t = ps_next s"
      unfolding work [symmetric] using Cons Give by simp_all
    have td: "todo = []" "wk = a # rest" using looks Give td0(1) Cons by auto
    have "todo_ok ?c (ps_log s) (ps_next s) ?k [] rest" using td0(2) td Give by (simp add: todo_ok_def)
    moreover have "wait_ok (pc_seq ?c) rest m ((pu_waiters (ps_dev s))[j := (pu_waiters (ps_dev s) ! j)\<lparr>pw_sem := 1\<rparr>] ! m) (ps_waits s ! m)" if m: "m < ?k" for m
    proof -
      obtain seen wt where x: "ps_waits s ! m = (seen, wt)" by (metis surj_pair)
      have ok: "wait_ok (pc_seq ?c) (Give j # rest) m (pu_waiters (ps_dev s) ! m) (seen, wt)" using I(3) [OF m] Cons Give x by simp
      show ?thesis
      proof (cases "m = j")
        case True
        then show ?thesis using wait_ok_give [of "pc_seq ?c" j rest] ok x m by simp
      next
        case False
        then show ?thesis using wait_ok_acts [OF ok, of "pc_seq ?c" rest] x by simp
      qed
    qed
    ultimately have "pub_inv t" by (rule pub_inv_wake [OF i T])
    then show ?thesis unfolding T by simp
  qed
qed (use i work in simp)

lemma publish_ok:
  assumes i: "pub_inv s" and n: "2 * length (ps_log s) + 2 < W32"
  shows "pub_inv (pub_step s (Publish st v)) \<and> ps_log (pub_step s (Publish st v)) = ps_log s"
proof (cases "ps_acts s = [] \<and> pc_held (ps_cell s) \<and> length v \<le> length (pc_value (ps_cell s))")
  case True
  note I = pub_invD [OF i]
  let ?c = "ps_cell s" and ?n = "length (ps_log s)" and ?k = "length (pu_waiters (ps_dev s))"
  have t: "todo_ok ?c (ps_log s) (ps_next s) ?k [] []" using I(5) True by auto
  then have n0: "ps_log s \<noteq> []" and sh: "shows_pub ?c (?n - 1) (last (ps_log s))" by (simp_all add: todo_ok_def Let_def)
  then have q: "pc_seq ?c = 2 * (?n - 1)" by (simp add: shows_pub_def)
  have new: "shows_pub (fold store_to (publication (pc_seq ?c) st v) ?c) (Suc (?n - 1)) (st, v)"
    by (rule publication_shows) (use True q n in simp_all)
  define xs where "xs = map (\<lambda>i. SetByte i (v ! i)) [0..<length v] @ [SetLen (length v), SetStampLow st, SetStampHigh st]"
  have xs: "publication (pc_seq ?c) st v = SetSeq (2 * ?n - 1) # xs @ [SetSeq (2 * ?n)]" "list_all data_store xs"
  proof -
    obtain m where m: "?n = Suc m" using n0 by (cases ?n) simp_all
    show "publication (pc_seq ?c) st v = SetSeq (2 * ?n - 1) # xs @ [SetSeq (2 * ?n)]"
      using n unfolding publication_def xs_def q m by simp
    show "list_all data_store xs" by (auto simp: xs_def list_all_iff)
  qed
  have "todo_ok ?c (ps_log s) (st, v) ?k (publication (pc_seq ?c) st v) (wake_watchers ?k)"
    using new xs sh n0 by (auto simp: todo_ok_def Let_def wake_watchers_def list_all_iff)
  then have a: "\<exists>todo wk. publish ?k (pc_seq ?c) st v = map Put todo @ wk \<and> todo_ok ?c (ps_log s) (st, v) ?k todo wk"
    unfolding publish_def by blast
  have "wait_ok (pc_seq ?c) (publish ?k (pc_seq ?c) st v) j (pu_waiters (ps_dev s) ! j) (ps_waits s ! j)" if j: "j < ?k" for j
  proof -
    obtain seen wt where x: "ps_waits s ! j = (seen, wt)" by (metis surj_pair)
    show ?thesis unfolding x by (rule wait_ok_acts [of "pc_seq ?c" "ps_acts s"]) (use I(3) [OF j] x True in simp_all)
  qed
  then show ?thesis using True a I by (simp add: pub_inv_def acts_ok_def waits_ok_def)
qed (use i in auto)

lemma fault_ok:
  assumes i: "pub_inv s" and n: "2 * length (ps_log s) + 2 < W32"
  shows "pub_inv (pub_step s (Fault pid f)) \<and> length (ps_log (pub_step s (Fault pid f))) \<le> Suc (length (ps_log s))"
proof (cases "ps_acts s = []")
  case True
  note I = pub_invD [OF i]
  let ?c = "ps_cell s" and ?n = "length (ps_log s)" and ?k = "length (pu_waiters (ps_dev s))"
  have t: "todo_ok ?c (ps_log s) (ps_next s) ?k [] []" using I(5) True by auto
  then have n0: "ps_log s \<noteq> []" and sh: "shows_pub ?c (?n - 1) (last (ps_log s))" by (simp_all add: todo_ok_def Let_def)
  then have q: "pc_seq ?c = 2 * (?n - 1)" by (simp add: shows_pub_def)
  obtain c wake where e: "end_cell pid f ?c = (c, wake)" by (metis surj_pair)
  have u: "pu_cells (upd_cell 0 (\<lambda>_. c) (ps_dev s)) ! 0 = c" "pu_cells (upd_cell 0 (\<lambda>_. c) (ps_dev s)) \<noteq> []" "pu_waiters (upd_cell 0 (\<lambda>_. c) (ps_dev s)) = pu_waiters (ps_dev s)"
    using upd_cell_zero [OF I(1), of "\<lambda>_. c"] by simp_all
  show ?thesis
  proof (cases wake)
    case False
    have s: "same_pub ?c c" using e False by (auto simp: end_cell_def Let_def same_pub_def split: if_splits)
    have "pub_inv (s\<lparr>ps_dev := upd_cell 0 (\<lambda>_. c) (ps_dev s), ps_waits := ps_waits s\<rparr>)"
      by (rule pub_inv_dev [OF i]) (use u s I(2,3) in simp_all)
    then show ?thesis using True e False by (simp add: pub_inv_def acts_ok_def waits_ok_def)
  next
    case wk: True
    have c: "pc_seq c = cast32 (pc_seq ?c + 2)" "pc_len c = pc_len ?c" "pc_stamp c = pc_stamp ?c" "pc_value c = pc_value ?c"
      using e wk by (auto simp: end_cell_def Let_def split: if_splits)
    have m: "Suc (?n - 1) = ?n" using n0 by (cases "ps_log s") simp_all
    have "pc_seq ?c + 2 < W32" using n q by linarith
    then have seq: "pc_seq c = pc_seq ?c + 2" "pc_seq c = 2 * ?n" using c(1) q m by simp_all
    let ?lg = "ps_log s @ [last (ps_log s)]"
    have "todo_ok c ?lg (ps_next s) ?k [] (wake_watchers ?k)"
      using sh seq c by (simp add: todo_ok_def shows_pub_def wake_watchers_def list_all_iff)
    then have a: "\<exists>todo wk. wake_watchers ?k = map Put todo @ wk \<and> todo_ok c ?lg (ps_next s) ?k todo wk"
      by (intro exI [of _ "[]"] exI [of _ "wake_watchers ?k"]) simp
    have "wait_ok (pc_seq c) (wake_watchers ?k) j (pu_waiters (ps_dev s) ! j) (ps_waits s ! j)" if j: "j < ?k" for j
    proof -
      obtain seen wt where x: "ps_waits s ! j = (seen, wt)" by (metis surj_pair)
      show ?thesis unfolding x
        by (rule wait_ok_acts [of "pc_seq ?c" "ps_acts s"]) (use I(3) [OF j] x True j in \<open>simp_all add: wake_watchers_def\<close>)
    qed
    moreover have "read_ok c ?lg y" if "y \<in> set (ps_readers s)" for y
      by (rule read_ok_store [OF I(4) [OF that]]) (use seq(1) in auto)
    ultimately show ?thesis using True wk e a u I(2,6) unfolding pub_inv_def acts_ok_def waits_ok_def by simp
  qed
qed (use i in simp)

lemma reader_ok:
  assumes i: "pub_inv s" and e: "e \<in> {StartRead room, Load k}"
  shows "pub_inv (pub_step s e) \<and> ps_log (pub_step s e) = ps_log s"
proof -
  note I = pub_invD [OF i]
  let ?c = "ps_cell s"
  obtain todo wk where t: "todo_ok ?c (ps_log s) (ps_next s) (length (pu_waiters (ps_dev s))) todo wk" using I(5) by blast
  have n0: "ps_log s \<noteq> []" using t by (simp add: todo_ok_def)
  have frame: "pub_inv (s\<lparr>ps_readers := rs\<rparr>)" if "\<And>y. y \<in> set rs \<Longrightarrow> read_ok ?c (ps_log s) y" for rs
    using i that by (simp add: pub_inv_def acts_ok_def waits_ok_def)
  consider "e = StartRead room" | "e = Load k" "k < length (ps_readers s)" | "e = Load k" "\<not> k < length (ps_readers s)" using e by blast
  then show ?thesis
  proof cases
    case 1
    have "pub_inv (s\<lparr>ps_readers := ps_readers s @ [(room, length (ps_log s), Trying 0)]\<rparr>)" by (rule frame) (use I(4) n0 in auto)
    then show ?thesis using 1 by simp
  next
    case 2
    obtain room' m q where q: "ps_readers s ! k = (room', m, q)" by (metis prod_cases3)
    have "read_ok ?c (ps_log s) (room', m, read_step room' ?c q)"
    proof (rule read_ok_load)
      show "read_ok ?c (ps_log s) (room', m, q)" using I(4) [OF nth_mem [OF 2(2)]] q by simp
    qed (use todo_seq [OF t] n0 in auto)
    then have "pub_inv (s\<lparr>ps_readers := (ps_readers s)[k := (room', m, read_step room' ?c q)]\<rparr>)"
      by (intro frame) (use I(4) set_update_subset_insert [of "ps_readers s" k "(room', m, read_step room' ?c q)"] in blast)
    then show ?thesis using 2 q by simp
  qed (use i in simp)
qed

lemma pub_step_ok:
  assumes "pub_inv s" "2 * length (ps_log s) + 2 < W32"
  shows "pub_inv (pub_step s e) \<and> length (ps_log (pub_step s e)) \<le> Suc (length (ps_log s))"
proof -
  consider p n k up where "e \<in> {Own p, Disown, StartWait n, WaitAgain k n, WaitStep k up, EndWait k}" | "e = Work"
    | st v where "e = Publish st v" | pid f where "e = Fault pid f" | room k where "e \<in> {StartRead room, Load k}"
    by (cases e) auto
  then show ?thesis
  proof cases
    case 1
    then show ?thesis using wait_event_ok [OF assms(1) 1] by simp
  next
    case 2
    show ?thesis unfolding 2 by (rule work_ok [OF assms refl])
  next
    case 3
    then show ?thesis using publish_ok [OF assms] by simp
  next
    case 4
    show ?thesis unfolding 4 by (rule fault_ok [OF assms])
  next
    case 5
    then show ?thesis using reader_ok [OF assms(1) 5] by simp
  qed
qed

lemma pub_run_ok:
  assumes "pub_inv s" "2 * (length (ps_log s) + length es) < W32" "foldl pub_step s es = t"
  shows "pub_inv t \<and> length (ps_log t) \<le> length (ps_log s) + length es"
  using assms
proof (induction es arbitrary: s)
  case (Cons e es)
  have st: "pub_inv (pub_step s e) \<and> length (ps_log (pub_step s e)) \<le> Suc (length (ps_log s))"
    by (rule pub_step_ok) (use Cons.prems in simp_all)
  then have "pub_inv t \<and> length (ps_log t) \<le> length (ps_log (pub_step s e)) + length es"
    by (intro Cons.IH [of "pub_step s e"]) (use Cons.prems in simp_all)
  then show ?case using st by simp
qed simp

lemma pub_fresh_ok: "pub_inv (pub_fresh cap)"
  by (simp add: pub_inv_def acts_ok_def waits_ok_def pub_fresh_def todo_ok_def shows_pub_def unused_cell_def)

lemma pub_reach: "length es < 2 ^ 30 \<Longrightarrow> foldl pub_step (pub_fresh cap) es = s \<Longrightarrow> pub_inv s \<and> 2 * length (ps_log s) < W32"
  using pub_run_ok [OF pub_fresh_ok [of cap], of es s] by (simp add: pub_fresh_def)

section \<open>What a reader and a watcher can rely on\<close>

text \<open>C36. However the stores of a writer, the loads of readers and the notices of ends interleave, a read
  that gives a snapshot gives one publication whole: its stamp, its length, and its bytes as far as
  they fit; and one that had not been replaced yet when the read began.\<close>

theorem snapshot_coherent:
  assumes "length es < 2 ^ 30" "foldl pub_step (pub_fresh cap) es = s" "(room, n, Snapshot k l st bs) \<in> set (ps_readers s)"
  shows "n \<le> Suc k \<and> k < length (ps_log s) \<and> (\<exists>v. ps_log s ! k = (st, v) \<and> l = length v \<and> bs = take room v)"
  using pub_reach [OF assms(1,2)] assms(3) by (auto simp: pub_inv_def)

text \<open>C37. No wake is lost: a process asleep on its slot, whose cell has moved past the sequence it saw, has the
  semaphore to take, or the giving of it is the publisher's to do, or the publisher has still to look at
  its slot and will find it armed. So when the publisher is through, the semaphore has been given.\<close>

theorem no_wake_lost:
  assumes "length es < 2 ^ 30" "foldl pub_step (pub_fresh cap) es = s" "k < PFM_MAX_WAITERS"
    "ps_waits s ! k = (seen, Sleeping)" "pc_seq (ps_cell s) div 2 \<noteq> seen"
  defines "w \<equiv> pu_waiters (ps_dev s) ! k"
  shows "pw_sem w > 0 \<or> Give k \<in> set (ps_acts s) \<or> Look k \<in> set (ps_acts s) \<and> look_at 0 w = (w\<lparr>pw_armed := False\<rparr>, True)"
proof -
  have "pub_inv s" using pub_reach [OF assms(1,2)] by simp
  then have "wait_ok (pc_seq (ps_cell s)) (ps_acts s) k w (seen, Sleeping)"
    using pub_invD(2,3,6) [of s] assms(3,4) by (metis w_def)
  then show ?thesis using assms(5) by (auto simp: look_at_def)
qed

lemma read_step_done [simp]: "(read_step room c ^^ m) (Snapshot k l st bs) = Snapshot k l st bs" "(read_step room c ^^ m) Outrun = Outrun"
  by (induction m) simp_all

lemma copy_reads: "length bs \<le> min l room \<Longrightarrow> min l room \<le> length (pc_value c) \<Longrightarrow> bs = take (length bs) (pc_value c) \<Longrightarrow> pc_seq c = b \<Longrightarrow>
    min l room - length bs < m \<Longrightarrow> (read_step room c ^^ m) (Copying t b l st bs) = Snapshot (b div 2) l st (take (min l room) (pc_value c))"
proof (induction m arbitrary: bs)
  case (Suc m)
  show ?case
  proof (cases "length bs < min l room")
    case True
    have x: "bs @ [pc_value c ! length bs] = take (Suc (length bs)) (pc_value c)"
    proof -
      have "length bs < length (pc_value c)" using Suc.prems(2) True by linarith
      from take_Suc_conv_app_nth [OF this] show ?thesis using Suc.prems(3) by simp
    qed
    have "(read_step room c ^^ m) (Copying t b l st (bs @ [pc_value c ! length bs])) = Snapshot (b div 2) l st (take (min l room) (pc_value c))"
      by (rule Suc.IH) (use Suc.prems True x in \<open>auto simp: min_absorb2\<close>)
    then show ?thesis using True by (simp add: funpow_swap1)
  next
    case False
    then have "length bs = min l room" using Suc.prems(1) by linarith
    then show ?thesis using Suc.prems(3,4) False by (simp add: funpow_swap1)
  qed
qed simp

lemma quiet_read: "even (pc_seq c) \<Longrightarrow> min (pc_len c) room \<le> length (pc_value c) \<Longrightarrow> t < PFM_MAX_TRIES \<Longrightarrow>
    (read_step room c ^^ (5 + min (pc_len c) room)) (Trying t) =
      Snapshot (pc_seq c div 2) (pc_len c) (pc_stamp c) (take (min (pc_len c) room) (pc_value c))"
proof -
  assume a: "even (pc_seq c)" "min (pc_len c) room \<le> length (pc_value c)" "t < PFM_MAX_TRIES"
  have five: "5 + m = Suc (Suc (Suc (Suc (Suc m))))" for m :: nat by simp
  have "(read_step room c ^^ (5 + min (pc_len c) room)) (Trying t) =
      (read_step room c ^^ Suc (min (pc_len c) room)) (Copying t (pc_seq c) (pc_len c) (pc_stamp c) [])"
    unfolding five funpow_Suc_right comp_apply using a(1,3) by (simp add: div_mult_mod_eq)
  moreover have "(read_step room c ^^ Suc (min (pc_len c) room)) (Copying t (pc_seq c) (pc_len c) (pc_stamp c) []) =
      Snapshot (pc_seq c div 2) (pc_len c) (pc_stamp c) (take (min (pc_len c) room) (pc_value c))"
    by (rule copy_reads) (use a(2) in simp_all)
  ultimately show ?thesis by (rule trans)
qed

lemma odd_read: "odd (pc_seq c) \<Longrightarrow> (read_step room c ^^ 9) (Trying 0) = Outrun"
  by (simp add: numeral_eq_Suc PFM_MAX_TRIES_def)

text \<open>A read that nobody interrupts ends: with a writer between publications it gives the last one, in
  as many loads as there are bytes and five more; with a writer stopped or preempted inside one it is
  outrun after its eight tries, however few the publications.\<close>

theorem uninterrupted_read_ends:
  assumes "length es < 2 ^ 30" "foldl pub_step (pub_fresh cap) es = s"
  shows "if even (pc_seq (ps_cell s))
    then \<exists>st v. last (ps_log s) = (st, v) \<and> (read_step room (ps_cell s) ^^ (5 + min (length v) room)) (Trying 0) =
        Snapshot (length (ps_log s) - 1) (length v) st (take room v)
    else (read_step room (ps_cell s) ^^ 9) (Trying 0) = Outrun"
proof (cases "even (pc_seq (ps_cell s))")
  case True
  let ?c = "ps_cell s"
  obtain todo wk where t: "todo_ok ?c (ps_log s) (ps_next s) (length (pu_waiters (ps_dev s))) todo wk"
    using pub_invD(5) pub_reach [OF assms] by blast
  have sh: "shows_pub ?c (length (ps_log s) - 1) (last (ps_log s))" by (rule todo_seq(2) [OF t True])
  obtain st v where v: "last (ps_log s) = (st, v)" by (metis surj_pair)
  have c: "pc_seq ?c div 2 = length (ps_log s) - 1" "pc_len ?c = length v" "pc_stamp ?c = st" "length v \<le> length (pc_value ?c)" "take (length v) (pc_value ?c) = v"
    using sh v by (simp_all add: shows_pub_def)
  have "take (min (length v) room) (pc_value ?c) = take room v" using c(5) by (metis min.commute take_take)
  then have "(read_step room ?c ^^ (5 + min (length v) room)) (Trying 0) = Snapshot (length (ps_log s) - 1) (length v) st (take room v)"
    using quiet_read [OF True, of room 0] c by (simp add: PFM_MAX_TRIES_def min_le_iff_disj)
  then show ?thesis using True v by auto
qed (simp add: odd_read)

section \<open>A writer stopped inside a publication\<close>

lemma store_seq: "pc_seq (fold store_to xs c) = fold (\<lambda>x q. case x of SetSeq n \<Rightarrow> n | _ \<Rightarrow> q) xs (pc_seq c)"
  by (induction xs arbitrary: c) (auto split: pub_store.split elim: store_to.elims simp: data_keeps_seq)

lemma data_seq: "list_all data_store xs \<Longrightarrow> pc_seq (fold store_to xs c) = pc_seq c"
  by (induction xs arbitrary: c) (simp_all add: data_keeps_seq)

text \<open>C40. A process stopped between the first and the last store of a publication leaves its cell with an odd
  number. The notice of its end keeps it odd, and so does every publication after it: at rest a read
  is always outrun, and in the middle of a publication, where the number is now even, it is not.\<close>

theorem stopped_writer_inverts:
  assumes "odd (pc_seq c)" "pc_seq c + 2 < W32"
  shows "odd (pc_seq (fst (end_cell pid fault c))) \<and> (read_step room c ^^ 9) (Trying 0) = Outrun \<and>
    odd (pc_seq (fold store_to (publication (pc_seq c) st v) c)) \<and>
    (\<forall>j. 0 < j \<longrightarrow> j < length (publication (pc_seq c) st v) \<longrightarrow> even (pc_seq (fold store_to (take j (publication (pc_seq c) st v)) c)))"
proof -
  define xs where "xs = map (\<lambda>i. SetByte i (v ! i)) [0..<length v] @ [SetLen (length v), SetStampLow st, SetStampHigh st]"
  have xs: "publication (pc_seq c) st v = SetSeq (pc_seq c + 1) # xs @ [SetSeq (pc_seq c + 2)]" "list_all data_store xs"
    using assms(2) by (simp_all add: publication_def xs_def list_all_iff)
  have "odd (pc_seq (fst (end_cell pid fault c)))" using assms by (auto simp: end_cell_def Let_def)
  moreover have "odd (pc_seq (fold store_to (publication (pc_seq c) st v) c))" using assms(1) by (simp add: xs(1))
  moreover have "even (pc_seq (fold store_to (take j (publication (pc_seq c) st v)) c))"
    if j: "0 < j" "j < length (publication (pc_seq c) st v)" for j
  proof -
    obtain i where i: "j = Suc i" "i \<le> length xs" using j xs(1) by (cases j) auto
    have "take j (publication (pc_seq c) st v) = SetSeq (pc_seq c + 1) # take i xs" using i by (simp add: xs(1))
    moreover have "list_all data_store (take i xs)" using xs(2) by (auto simp: list_all_iff dest: in_set_takeD)
    ultimately show ?thesis using assms(1) data_seq by simp
  qed
  ultimately show ?thesis using odd_read [OF assms(1)] by blast
qed

section \<open>Witnesses\<close>

text \<open>A second publication overtakes a read that has copied half of the first.\<close>

definition overtaken :: "pub_event list" where
  "overtaken = [Own 7, Publish 5 [1, 2], Work, Work, Work, Work, Work, Work, Work, Work, Work, Work, Work, StartRead 2, Load 0, Load 0, Load 0, Load 0, Load 0,
     Publish 6 [3, 4], Work, Work, Load 0, Load 0, Work, Work, Work, Work, Work, Load 0, Load 0, Load 0, Load 0, Load 0, Load 0, Load 0]"

text \<open>A process waits for the first publication, which is made while it sleeps; its slot is looked at, and the
  semaphore is still to be given.\<close>

definition asleep :: "pub_event list" where
  "asleep = [StartWait 0, WaitStep 0 False, WaitStep 0 False, Own 7, Publish 5 [1], Work, Work, Work, Work, Work, Work, Work]"

lemma replicate_four: "replicate 4 x = [x, x, x, x]"
  by (simp add: numeral_eq_Suc)

lemmas run_pub_defs = overtaken_def asleep_def pub_fresh_def unused_cell_def publication_def publish_def wake_watchers_def Let_def upt_rec PFM_MAX_TRIES_def
  PFM_MAX_WAITERS_def look_at_def open_cell_def pub_claim_slot_def upd_cell_def upd_waiter_def RV9_MODE_WRITE_def RV9_MODE_READ_def replicate_four

theorem snapshot_coherent_witness:
  "let s = foldl pub_step (pub_fresh 2) overtaken
   in ps_readers s = [(2, 2, Snapshot 2 2 6 [3, 4])] \<and> ps_log s = [(0, []), (5, [1, 2]), (6, [3, 4])] \<and> (\<exists>v. ps_log s ! 2 = (6, v) \<and> [3, 4] = take 2 v)"
proof -
  have l: "length overtaken < 2 ^ 30" by (simp add: overtaken_def)
  obtain s where s: "foldl pub_step (pub_fresh 2) overtaken = s" by simp
  have r: "ps_readers s = [(2, 2, Snapshot 2 2 6 [3, 4])]" "ps_log s = [(0, []), (5, [1, 2]), (6, [3, 4])]" unfolding s [symmetric]
    by (simp_all add: run_pub_defs)
  have "(2, 2, Snapshot 2 2 6 [3, 4]) \<in> set (ps_readers s)" unfolding r(1) by simp
  from snapshot_coherent [OF l s this] r show ?thesis unfolding s Let_def by simp
qed

theorem no_wake_lost_witness:
  "let s = foldl pub_step (pub_fresh 8) asleep
   in pc_seq (ps_cell s) = 2 \<and> ps_waits s ! 0 = (0, Sleeping) \<and> Give 0 \<in> set (ps_acts s) \<and> \<not> pw_armed (pu_waiters (ps_dev s) ! 0)"
proof -
  have l: "length asleep < 2 ^ 30" by (simp add: asleep_def)
  obtain s where s: "foldl pub_step (pub_fresh 8) asleep = s" by simp
  have r: "ps_waits s ! 0 = (0, Sleeping)" "pc_seq (ps_cell s) = 2" "pu_waiters (ps_dev s) ! 0 = \<lparr>pw_sem = 0, pw_cell = Some 0, pw_armed = False\<rparr>" unfolding s [symmetric]
    by (simp_all add: run_pub_defs)
  have "Give 0 \<in> set (ps_acts s)"
    using no_wake_lost [OF l s, of 0 0] r by (simp add: PFM_MAX_WAITERS_def look_at_def)
  then show ?thesis unfolding s Let_def r by simp
qed

theorem uninterrupted_read_ends_witness:
  "let s = foldl pub_step (pub_fresh 2) overtaken in (read_step 1 (ps_cell s) ^^ 6) (Trying 0) = Snapshot 2 2 6 [3]"
proof -
  have l: "length overtaken < 2 ^ 30" by (simp add: overtaken_def)
  obtain s where s: "foldl pub_step (pub_fresh 2) overtaken = s" by simp
  have r: "ps_log s = [(0, []), (5, [1, 2]), (6, [3, 4])]" "pc_seq (ps_cell s) = 4" unfolding s [symmetric]
    by (simp_all add: run_pub_defs)
  show ?thesis using uninterrupted_read_ends [OF l s, of 1] unfolding s Let_def by (simp add: r)
qed

text \<open>A writer is stopped after two stores of its second publication; the next writer is read after two of
  its own, and the snapshot is neither the one nor the other.\<close>

definition stopped_cell :: pub_cell where
  "stopped_cell = fold store_to (take 2 (publication 2 6 [1, 1])) (fold store_to (publication 0 5 [7, 7]) (unused_cell 2))"

theorem stopped_writer_inverts_witness:
  "let c = fst (end_cell 9 RV9_FAULT_KILLED stopped_cell); c' = fold store_to (take 2 (publication 3 8 [2, 2])) c
   in odd (pc_seq c) \<and> even (pc_seq c') \<and> (read_step 2 c' ^^ 7) (Trying 0) = Snapshot 2 2 5 [2, 7]"
proof -
  have o: "odd (pc_seq stopped_cell)" "pc_seq stopped_cell + 2 < W32" "pc_name stopped_cell = []" by (simp_all add: stopped_cell_def run_pub_defs)
  have e: "fst (end_cell 9 RV9_FAULT_KILLED stopped_cell) = stopped_cell" using o(3) by (simp add: end_cell_def)
  have q: "pc_seq stopped_cell = 3" by (simp add: stopped_cell_def run_pub_defs)
  have "even (pc_seq (fold store_to (take 2 (publication 3 8 [2, 2])) stopped_cell))"
    using stopped_writer_inverts [OF o(1,2), of 9 0 2 8 "[2, 2]"] unfolding q by (auto simp: publication_def)
  moreover have "(read_step 2 (fold store_to (take 2 (publication 3 8 [2, 2])) stopped_cell) ^^ 7) (Trying 0) = Snapshot 2 2 5 [2, 7]"
  proof -
    let ?c = "fold store_to (take 2 (publication 3 8 [2, 2])) stopped_cell"
    have c: "pc_seq ?c = 4" "pc_len ?c = 2" "pc_stamp ?c = 5" "pc_value ?c = [2, 7]"
      by (simp_all add: stopped_cell_def publication_def unused_cell_def upt_rec numeral_2_eq_2)
    show ?thesis using quiet_read [of ?c 2 0] by (simp add: c PFM_MAX_TRIES_def del: funpow.simps)
  qed
  ultimately show ?thesis unfolding e Let_def using o(1) by blast
qed

end
