(* ===== verification/PubProps.thy ===== *)
theory PubProps
  imports PubSeq
begin

text \<open>
  Cells and those who hold them: one publisher at a time, a declared cell only for its declarer, and
  cells well formed, whatever is opened, written, closed, declared, removed and ended.
\<close>

section \<open>What is kept\<close>

definition writers_on :: "pub_path list \<Rightarrow> nat \<Rightarrow> nat" where
  "writers_on P i = length (filter (\<lambda>p. px_cell p = Some i \<and> px_writer p) P)"

definition readers_on :: "pub_path list \<Rightarrow> nat \<Rightarrow> nat" where
  "readers_on P i = length (filter (\<lambda>p. px_cell p = Some i \<and> px_mode p AND RV9_MODE_READ \<noteq> 0) P)"

definition cell_wf :: "nat \<Rightarrow> pub_cell \<Rightarrow> bool" where
  "cell_wf cap c \<longleftrightarrow> pc_cap c = cap \<and> length (pc_value c) = cap \<and> pc_len c \<le> cap \<and> even (pc_seq c) \<and> pc_seq c < W32 \<and>
     (pc_name c = [] \<or> name_ok (pc_name c)) \<and> length (pc_meaning c) < RV9_MEANING_MAX \<and>
     pc_fault c \<in> {RV9_FAULT_NONE, RV9_FAULT_STACK, RV9_FAULT_KILLED, RV9_FAULT_DEADLINE}"

definition cell_held :: "pub_path list \<Rightarrow> nat \<Rightarrow> pub_cell \<Rightarrow> bool" where
  "cell_held P i c \<longleftrightarrow> writers_on P i = (if pc_held c then 1 else 0) \<and> pc_readers c = readers_on P i \<and>
     (pc_held c \<and> pc_reserved_by c \<noteq> 0 \<longrightarrow> pc_writer c = pc_reserved_by c) \<and>
     (\<forall>p\<in>set P. px_cell p = Some i \<longrightarrow> pc_name c \<noteq> [])"

definition names_apart :: "pub_dev \<Rightarrow> bool" where
  "names_apart d \<longleftrightarrow> (\<forall>i < length (pu_cells d). \<forall>j < length (pu_cells d).
     pc_name (pu_cells d ! i) \<noteq> [] \<longrightarrow> pc_name (pu_cells d ! i) = pc_name (pu_cells d ! j) \<longrightarrow> i = j)"

definition path_of_cell :: "pub_dev \<Rightarrow> pub_path \<Rightarrow> bool" where
  "path_of_cell d p \<longleftrightarrow> (case px_cell p of None \<Rightarrow> \<not> px_writer p | Some i \<Rightarrow> i < length (pu_cells d) \<and> (px_writer p \<or> px_mode p AND RV9_MODE_READ \<noteq> 0))"

definition pub_ok :: "pub_dev \<Rightarrow> pub_path list \<Rightarrow> bool" where
  "pub_ok d P \<longleftrightarrow> (\<forall>i < length (pu_cells d). cell_wf (pu_cap d) (pu_cells d ! i) \<and> cell_held P i (pu_cells d ! i)) \<and>
     names_apart d \<and> (\<forall>p\<in>set P. path_of_cell d p)"

lemma pub_okD:
  assumes "pub_ok d P"
  shows "i < length (pu_cells d) \<Longrightarrow> cell_wf (pu_cap d) (pu_cells d ! i)" "i < length (pu_cells d) \<Longrightarrow> cell_held P i (pu_cells d ! i)"
    "names_apart d" "p \<in> set P \<Longrightarrow> path_of_cell d p"
  using assms by (auto simp: pub_ok_def)

lemma cells_upd [simp]: "length (pu_cells (upd_cell i f d)) = length (pu_cells d)" "pu_cap (upd_cell i f d) = pu_cap d"
    "pu_cells (upd_waiter k g d) = pu_cells d" "pu_cap (upd_waiter k g d) = pu_cap d"
  by (simp_all add: upd_cell_def upd_waiter_def)

lemma cell_upd: "i < length (pu_cells d) \<Longrightarrow> pu_cells (upd_cell i f d) ! j = (if j = i then f (pu_cells d ! i) else pu_cells d ! j)"
  by (simp add: upd_cell_def)

lemma upd_cell_twice: "upd_cell i f (upd_cell i g d) = upd_cell i (\<lambda>c. f (g c)) d"
  by (cases "i < length (pu_cells d)") (simp_all add: upd_cell_def list_update_beyond)

text \<open>Changing one cell, and the paths on that cell only.\<close>

lemma pub_ok_change:
  assumes ok: "pub_ok d P" and i: "i < length (pu_cells d)" and c: "cell_wf (pu_cap d) (f (pu_cells d ! i))" "cell_held Q i (f (pu_cells d ! i))"
    and other: "\<And>j. j \<noteq> i \<Longrightarrow> writers_on Q j = writers_on P j \<and> readers_on Q j = readers_on P j"
    and paths: "\<And>p. p \<in> set Q \<Longrightarrow> p \<in> set P \<or> px_cell p = Some i \<and> (px_writer p \<or> px_mode p AND RV9_MODE_READ \<noteq> 0) \<or> px_cell p = None \<and> \<not> px_writer p"
    and name: "\<And>j. j < length (pu_cells d) \<Longrightarrow> j \<noteq> i \<Longrightarrow> pc_name (f (pu_cells d ! i)) \<noteq> [] \<Longrightarrow> pc_name (pu_cells d ! j) \<noteq> pc_name (f (pu_cells d ! i))"
  shows "pub_ok (upd_cell i f d) Q"
proof -
  have held: "cell_held Q j (pu_cells d ! j)" if "j < length (pu_cells d)" "j \<noteq> i" for j
    using pub_okD(2) [OF ok that(1)] other [OF that(2)] paths that(2) unfolding cell_held_def by fastforce
  have "names_apart (upd_cell i f d)"
    unfolding names_apart_def
  proof (intro allI impI)
    fix a b assume a: "a < length (pu_cells (upd_cell i f d))" "b < length (pu_cells (upd_cell i f d))"
      "pc_name (pu_cells (upd_cell i f d) ! a) \<noteq> []" "pc_name (pu_cells (upd_cell i f d) ! a) = pc_name (pu_cells (upd_cell i f d) ! b)"
    show "a = b"
    proof (cases "a = i \<or> b = i")
      case True
      then show ?thesis using a name [of a] name [of b] i by (cases "a = i"; cases "b = i") (auto simp: cell_upd)
    next
      case False
      then show ?thesis using a pub_okD(3) [OF ok] i unfolding names_apart_def by (simp add: cell_upd)
    qed
  qed
  moreover have "path_of_cell (upd_cell i f d) p" if "p \<in> set Q" for p
    using paths [OF that] pub_okD(4) [OF ok, of p] i unfolding path_of_cell_def by (auto split: option.splits)
  moreover have "cell_wf (pu_cap d) (pu_cells (upd_cell i f d) ! j) \<and> cell_held Q j (pu_cells (upd_cell i f d) ! j)" if "j < length (pu_cells d)" for j
    using c held [OF that] pub_okD(1) [OF ok that] i by (cases "j = i") (simp_all add: cell_upd)
  ultimately show ?thesis unfolding pub_ok_def by simp
qed

lemma names_apartD: "names_apart d \<Longrightarrow> i < length (pu_cells d) \<Longrightarrow> j < length (pu_cells d) \<Longrightarrow> pc_name (pu_cells d ! i) \<noteq> [] \<Longrightarrow>
    pc_name (pu_cells d ! i) = pc_name (pu_cells d ! j) \<Longrightarrow> i = j"
  by (simp add: names_apart_def)

lemma pub_find_Some: "pub_find_cell name d = Some i \<Longrightarrow> i < length (pu_cells d) \<and> pc_name (pu_cells d ! i) = name \<and> name \<noteq> []"
  using find_index_Some [of _ "pu_cells d" i] unfolding pub_find_cell_def by fastforce

lemma pub_find_mem: "names_apart d \<Longrightarrow> i < length (pu_cells d) \<Longrightarrow> pc_name (pu_cells d ! i) \<noteq> [] \<Longrightarrow> pub_find_cell (pc_name (pu_cells d ! i)) d = Some i"
proof (cases "pub_find_cell (pc_name (pu_cells d ! i)) d")
  case None
  assume a: "i < length (pu_cells d)" "pc_name (pu_cells d ! i) \<noteq> []"
  have "\<forall>c\<in>set (pu_cells d). \<not> (pc_name c \<noteq> [] \<and> pc_name c = pc_name (pu_cells d ! i))"
    using None unfolding pub_find_cell_def find_index_None by simp
  then show ?thesis using a nth_mem by blast
next
  case (Some j)
  assume a: "names_apart d" "i < length (pu_cells d)" "pc_name (pu_cells d ! i) \<noteq> []"
  have j: "j < length (pu_cells d)" "pc_name (pu_cells d ! j) = pc_name (pu_cells d ! i)" using pub_find_Some [OF Some] by simp_all
  show ?thesis using names_apartD [OF a(1,2) j(1) a(3)] j(2) Some by simp
qed

lemma on_snoc [simp]: "writers_on (P @ [p]) i = writers_on P i + (if px_cell p = Some i \<and> px_writer p then 1 else 0)"
    "readers_on (P @ [p]) i = readers_on P i + (if px_cell p = Some i \<and> px_mode p AND RV9_MODE_READ \<noteq> 0 then 1 else 0)"
  by (simp_all add: writers_on_def readers_on_def)

lemma readers_few: "readers_on P i \<le> length P"
  by (simp add: readers_on_def)

lemma no_path: "cell_held P i c \<Longrightarrow> pc_name c = [] \<Longrightarrow> writers_on P i = 0 \<and> readers_on P i = 0"
  by (auto simp: cell_held_def writers_on_def readers_on_def filter_empty_conv)

section \<open>Each operation\<close>

lemma make_cell_ok:
  assumes ok: "pub_ok d P" and n: "name_ok name" "pub_find_cell name d = None" and m: "make_cell name d = Some (e, i)"
  shows "pub_ok e P \<and> i < length (pu_cells e) \<and> pc_name (pu_cells e ! i) = name \<and> pu_cap e = pu_cap d"
proof -
  have i: "pc_name (pu_cells d ! i) = []" "i < length (pu_cells d)" and e: "e = upd_cell i (\<lambda>c. c\<lparr>pc_name := name, pc_cap := pu_cap d\<rparr>) d"
    using m n(1) find_index_Some [of "\<lambda>c. pc_name c = []" "pu_cells d"] by (auto simp: make_cell_def name_ok_def split: option.splits)
  have absent: "pc_name (pu_cells d ! j) \<noteq> name" if "j < length (pu_cells d)" for j
    using n that unfolding pub_find_cell_def find_index_None name_ok_def by auto
  have wf: "cell_wf (pu_cap d) (pu_cells d ! i)" "cell_held P i (pu_cells d ! i)" using pub_okD(1,2) [OF ok i(2)] by simp_all
  have "pub_ok e P" unfolding e
    by (rule pub_ok_change [OF ok i(2)]) (use wf n(1) i(1) absent in \<open>auto simp: cell_wf_def cell_held_def name_ok_def\<close>)
  then show ?thesis using i(2) by (simp add: e cell_upd)
qed

lemma open_cell_ok:
  assumes ok: "pub_ok d P" and i: "i < length (pu_cells d)" "pc_name (pu_cells d ! i) \<noteq> []" and rw: "mode AND RV9_MODE_RW \<noteq> 0" and few: "Suc (length P) < W32"
    and st: "open_cell me mode i d = (e, r)"
  shows "case r of Inl x \<Rightarrow> e = d | Inr p \<Rightarrow> pub_ok e (P @ [p])"
proof -
  let ?c = "pu_cells d ! i" and ?w = "mode AND RV9_MODE_WRITE \<noteq> 0" and ?r = "mode AND RV9_MODE_READ \<noteq> 0"
  have wf: "cell_wf (pu_cap d) ?c" "cell_held P i ?c" using pub_okD(1,2) [OF ok i(1)] by simp_all
  show ?thesis
  proof (cases "?w \<and> (pc_reserved_by ?c \<noteq> 0 \<and> pc_reserved_by ?c \<noteq> me \<or> pc_held ?c)")
    case True
    then show ?thesis using st by (auto simp: open_cell_def Let_def split: if_splits)
  next
    case False
    let ?p = "\<lparr>px_cell = Some i, px_mode = mode, px_writer = ?w, px_slot = None, px_dirpos = 0\<rparr>"
    let ?g = "\<lambda>c. if ?w then c\<lparr>pc_held := True, pc_writer := me, pc_last_writer := me, pc_fault := 0\<rparr> else c"
    let ?f = "\<lambda>c. if ?r then (?g c)\<lparr>pc_readers := cast32 (pc_readers (?g c) + 1)\<rparr> else ?g c"
    have s1: "(if ?w then upd_cell i (\<lambda>c. c\<lparr>pc_held := True, pc_writer := me, pc_last_writer := me, pc_fault := 0\<rparr>) d else d) = upd_cell i ?g d"
      by (cases ?w) (simp_all add: upd_cell_def)
    have e: "e = upd_cell i ?f d" "r = Inr ?p"
      using st False unfolding open_cell_def Let_def s1 upd_cell_twice by (auto simp: upd_cell_def)
    have few': "pc_readers ?c < length P + 1" using wf(2) readers_few [of P i] by (simp add: cell_held_def)
    have any: "?w \<or> ?r" using rw unfolding RV9_MODE_RW_def by (auto simp: bit.conj_disj_distrib)
    have "pub_ok (upd_cell i ?f d) (P @ [?p])"
    proof (rule pub_ok_change [OF ok i(1)])
      show "cell_wf (pu_cap d) (?f ?c)" using wf(1) by (auto simp: cell_wf_def RV9_FAULT_NONE_def)
      show "cell_held (P @ [?p]) i (?f ?c)" using wf(2) False few few' i(2) by (auto simp: cell_held_def)
      show "writers_on (P @ [?p]) j = writers_on P j \<and> readers_on (P @ [?p]) j = readers_on P j" if "j \<noteq> i" for j using that by simp
      show "p \<in> set P \<or> px_cell p = Some i \<and> (px_writer p \<or> px_mode p AND RV9_MODE_READ \<noteq> 0) \<or> px_cell p = None \<and> \<not> px_writer p"
        if "p \<in> set (P @ [?p])" for p using that any by auto
      show "pc_name (pu_cells d ! j) \<noteq> pc_name (?f ?c)" if "j < length (pu_cells d)" "j \<noteq> i" for j
        using names_apartD [OF pub_okD(3) [OF ok] i(1) that(1) i(2)] that(2) by auto
    qed
    then show ?thesis using e by simp
  qed
qed

lemma dir_path_ok: "pub_ok d P \<Longrightarrow> px_cell p = None \<Longrightarrow> \<not> px_writer p \<Longrightarrow> pub_ok d (P @ [p])"
  by (auto simp: pub_ok_def cell_held_def path_of_cell_def)

lemma open_pub_ok:
  assumes ok: "pub_ok d P" and rw: "mode AND RV9_MODE_RW \<noteq> 0" and few: "Suc (length P) < W32" and st: "pfm_open room me mode rest d = (e, r)"
  shows "case r of Inl x \<Rightarrow> pub_ok e P | Inr p \<Rightarrow> pub_ok e (P @ [p])"
proof -
  consider x where "r = Inl x" "e = d" | p where "r = Inr p" "e = d" "px_cell p = None" "\<not> px_writer p"
    | i where "pub_find_cell rest d = Some i" "open_cell me mode i d = (e, r)"
    | d1 i where "name_ok rest" "pub_find_cell rest d = None" "make_cell rest d = Some (d1, i)" "open_cell me mode i d1 = (e, r)"
    using st by (auto simp: pfm_open_def split: if_splits option.splits prod.splits)
  then show ?thesis
  proof cases
    case 1
    then show ?thesis using ok by simp
  next
    case 2
    then show ?thesis using dir_path_ok [OF ok] by simp
  next
    case (3 i)
    have "case r of Inl x \<Rightarrow> e = d | Inr p \<Rightarrow> pub_ok e (P @ [p])"
      by (rule open_cell_ok [OF ok _ _ rw few 3(2)]) (use pub_find_Some [OF 3(1)] in auto)
    then show ?thesis using ok by (cases r) simp_all
  next
    case (4 d1 i)
    note mk = make_cell_ok [OF ok 4(1-3)]
    have "case r of Inl x \<Rightarrow> e = d1 | Inr p \<Rightarrow> pub_ok e (P @ [p])"
      by (rule open_cell_ok [OF _ _ _ rw few 4(4)]) (use mk 4(1) in \<open>auto simp: name_ok_def\<close>)
    then show ?thesis using mk by (cases r) simp_all
  qed
qed

lemma pub_ok_same: "pu_cells e = pu_cells d \<Longrightarrow> pu_cap e = pu_cap d \<Longrightarrow> pub_ok e P = pub_ok d P"
  by (simp add: pub_ok_def names_apart_def path_of_cell_def cong: option.case_cong)

lemma pub_ok_waiter [simp]: "pub_ok (upd_waiter k g d) P = pub_ok d P"
  by (rule pub_ok_same; simp)

lemma in_remove1: "x \<in> set (remove1 y xs) \<Longrightarrow> x \<in> set xs"
  using notin_set_remove1 by metis

lemma writers_remove: "p \<in> set P \<Longrightarrow> writers_on (remove1 p P) i = writers_on P i - (if px_cell p = Some i \<and> px_writer p then 1 else 0)"
    "p \<in> set P \<Longrightarrow> readers_on (remove1 p P) i = readers_on P i - (if px_cell p = Some i \<and> px_mode p AND RV9_MODE_READ \<noteq> 0 then 1 else 0)"
  by (auto simp: writers_on_def readers_on_def filter_remove1 length_remove1)

lemma close_pub_ok:
  assumes ok: "pub_ok d P" and p: "p \<in> set P"
  shows "pub_ok (pfm_close p d) (remove1 p P)"
proof (cases "px_cell p")
  case None
  have "cell_held (remove1 p P) i (pu_cells d ! i)" if "i < length (pu_cells d)" for i
    using pub_okD(2) [OF ok that] p None by (auto simp: cell_held_def writers_remove dest: in_remove1)
  then show ?thesis using ok None by (auto simp: pub_ok_def pfm_close_def dest: in_remove1)
next
  case (Some i)
  let ?c = "pu_cells d ! i" and ?r = "px_mode p AND RV9_MODE_READ \<noteq> 0"
  let ?f = "\<lambda>c. if ?r then (if px_writer p then c\<lparr>pc_held := False, pc_writer := 0\<rparr> else c)\<lparr>pc_readers := pc_readers c - 1\<rparr>
      else if px_writer p then c\<lparr>pc_held := False, pc_writer := 0\<rparr> else c"
  have i: "i < length (pu_cells d)" using pub_okD(4) [OF ok p] Some by (simp add: path_of_cell_def)
  have wf: "cell_wf (pu_cap d) ?c" "cell_held P i ?c" using pub_okD(1,2) [OF ok i] by simp_all
  have kept: "pub_ok (upd_cell i ?f d) (remove1 p P)"
  proof (rule pub_ok_change [OF ok i])
    show "cell_wf (pu_cap d) (?f ?c)" using wf(1) by (auto simp: cell_wf_def)
    have one: "px_writer p \<Longrightarrow> 0 < writers_on P i" using p Some by (auto simp: writers_on_def filter_empty_conv)
    show "cell_held (remove1 p P) i (?f ?c)"
    proof -
      have h: "writers_on P i = (if pc_held ?c then 1 else 0)" "pc_readers ?c = readers_on P i"
          "pc_held ?c \<and> pc_reserved_by ?c \<noteq> 0 \<longrightarrow> pc_writer ?c = pc_reserved_by ?c" "pc_name ?c \<noteq> []"
        using wf(2) p Some unfolding cell_held_def by blast+
      have f: "pc_held (?f ?c) = (pc_held ?c \<and> \<not> px_writer p)" "pc_readers (?f ?c) = pc_readers ?c - (if ?r then 1 else 0)"
          "pc_reserved_by (?f ?c) = pc_reserved_by ?c" "pc_name (?f ?c) = pc_name ?c" "\<not> px_writer p \<Longrightarrow> pc_writer (?f ?c) = pc_writer ?c"
        by simp_all
      show ?thesis unfolding cell_held_def f(1-4)
        using h one f(5) by (simp add: writers_remove [OF p] Some split: if_splits)
    qed
    show "writers_on (remove1 p P) j = writers_on P j \<and> readers_on (remove1 p P) j = readers_on P j" if "j \<noteq> i" for j
      using that p Some by (simp add: writers_remove)
    show "q \<in> set P \<or> px_cell q = Some i \<and> (px_writer q \<or> px_mode q AND RV9_MODE_READ \<noteq> 0) \<or> px_cell q = None \<and> \<not> px_writer q"
      if "q \<in> set (remove1 p P)" for q using that in_remove1 by fastforce
    show "pc_name (pu_cells d ! j) \<noteq> pc_name (?f ?c)" if "j < length (pu_cells d)" "j \<noteq> i" "pc_name (?f ?c) \<noteq> []" for j
    proof -
      have "pc_name (?f ?c) = pc_name ?c" by simp
      then show ?thesis using names_apartD [OF pub_okD(3) [OF ok] i that(1)] that(2,3) by metis
    qed
  qed
  have c1: "pu_cells (pfm_close p d) = pu_cells (upd_cell i ?f d)"
    using Some i by (auto simp: pfm_close_def Let_def upd_cell_def split: option.split)
  have c2: "pu_cap (pfm_close p d) = pu_cap (upd_cell i ?f d)"
    using Some by (simp add: pfm_close_def Let_def split: option.split)
  show ?thesis by (rule iffD2 [OF pub_ok_same [OF c1 c2] kept])
qed

text \<open>Changes of a cell that its paths do not see.\<close>

lemma cell_change_ok:
  assumes ok: "pub_ok d P" and i: "i < length (pu_cells d)"
    and f: "cell_wf (pu_cap d) (f (pu_cells d ! i))" "pc_name (f (pu_cells d ! i)) = pc_name (pu_cells d ! i)" "cell_held P i (f (pu_cells d ! i))"
  shows "pub_ok (upd_cell i f d) P"
proof (rule pub_ok_change [where f = f, OF ok i])
  show "cell_wf (pu_cap d) (f (pu_cells d ! i))" "cell_held P i (f (pu_cells d ! i))" using f by simp_all
  show "pc_name (pu_cells d ! j) \<noteq> pc_name (f (pu_cells d ! i))" if "j < length (pu_cells d)" "j \<noteq> i" "pc_name (f (pu_cells d ! i)) \<noteq> []" for j
    using names_apartD [OF pub_okD(3) [OF ok] i that(1)] that(2,3) f(2) by metis
qed simp_all

lemma stores_keep: "pc_name (fold store_to xs c) = pc_name c \<and> pc_cap (fold store_to xs c) = pc_cap c \<and> pc_held (fold store_to xs c) = pc_held c \<and>
    pc_writer (fold store_to xs c) = pc_writer c \<and> pc_readers (fold store_to xs c) = pc_readers c \<and> pc_reserved_by (fold store_to xs c) = pc_reserved_by c \<and>
    pc_meaning (fold store_to xs c) = pc_meaning c \<and> pc_fault (fold store_to xs c) = pc_fault c \<and> length (pc_value (fold store_to xs c)) = length (pc_value c)"
proof (induction xs arbitrary: c)
  case (Cons x xs)
  have "pc_name (store_to x c) = pc_name c \<and> pc_cap (store_to x c) = pc_cap c \<and> pc_held (store_to x c) = pc_held c \<and> pc_writer (store_to x c) = pc_writer c \<and>
    pc_readers (store_to x c) = pc_readers c \<and> pc_reserved_by (store_to x c) = pc_reserved_by c \<and> pc_meaning (store_to x c) = pc_meaning c \<and>
    pc_fault (store_to x c) = pc_fault c \<and> length (pc_value (store_to x c)) = length (pc_value c)" by (cases x) simp_all
  then show ?case using Cons.IH [of "store_to x c"] by simp
qed simp

lemma publication_end: "pc_seq (fold store_to (publication q st v) c) = cast32 (q + 2)" "pc_len (fold store_to (publication q st v) c) = length v"
  by (simp_all add: publication_def)

lemma even_cast32: "even (cast32 n) = even n"
  by (simp add: cast32_def dvd_mod_iff)

lemma write_pub_ok:
  assumes ok: "pub_ok d P" and p: "p \<in> set P" and st: "pfm_write now p buf d = (e, r)"
  shows "pub_ok e P"
proof (cases "pfm_write_begin now p buf d")
  case (Inl x)
  then show ?thesis using st ok by (simp add: pfm_write_def)
next
  case (Inr y)
  obtain stamp v where y: "y = (stamp, v)" by (metis surj_pair)
  obtain i where i: "px_cell p = Some i" "length v \<le> pc_cap (pu_cells d ! i)"
    using Inr y by (auto simp: pfm_write_begin_def Let_def split: option.splits if_splits)
  have il: "i < length (pu_cells d)" using pub_okD(4) [OF ok p] i by (simp add: path_of_cell_def)
  let ?f = "fold store_to (publication (pc_seq (pu_cells d ! i)) stamp v)"
  have wf: "cell_wf (pu_cap d) (pu_cells d ! i)" "cell_held P i (pu_cells d ! i)" using pub_okD(1,2) [OF ok il] by simp_all
  have "cell_wf (pu_cap d) (?f (pu_cells d ! i))"
    using wf(1) i(2) unfolding cell_wf_def by (simp add: stores_keep publication_end even_cast32 cast32_less)
  moreover have "cell_held P i (?f (pu_cells d ! i))" using wf(2) by (simp add: cell_held_def stores_keep)
  ultimately have "pub_ok (upd_cell i ?f d) P" by (intro cell_change_ok [OF ok il]) (simp_all add: stores_keep)
  moreover have "pu_cells e = pu_cells (upd_cell i ?f d)" "pu_cap e = pu_cap (upd_cell i ?f d)"
    using st Inr y i(1) by (auto simp: pfm_write_def Let_def publish_done upd_cell_def)
  ultimately show ?thesis using pub_ok_same by blast
qed

lemma reserve_cell_ok: "pub_ok d P \<Longrightarrow> i < length (pu_cells d) \<Longrightarrow> reserve_cell pid meaning i d = (e, r) \<Longrightarrow> pub_ok e P"
proof -
  assume ok: "pub_ok d P" and i: "i < length (pu_cells d)" and st: "reserve_cell pid meaning i d = (e, r)"
  let ?c = "pu_cells d ! i" and ?f = "\<lambda>c. c\<lparr>pc_reserved_by := pid, pc_last_writer := pid,
                 pc_meaning := (if meaning \<noteq> [] then take (RV9_MEANING_MAX - 1) meaning else pc_meaning c)\<rparr>"
  have wf: "cell_wf (pu_cap d) ?c" "cell_held P i ?c" using pub_okD(1,2) [OF ok i] by simp_all
  consider "e = d" | "e = upd_cell i ?f d" "\<not> (pc_held ?c \<and> pc_writer ?c \<noteq> pid)"
    using st by (auto simp: reserve_cell_def Let_def split: if_splits)
  then show "pub_ok e P"
  proof cases
    case 2
    have "pub_ok (upd_cell i ?f d) P"
      by (rule cell_change_ok [OF ok i]) (use wf 2(2) in \<open>auto simp: cell_wf_def cell_held_def RV9_MEANING_MAX_def\<close>)
    then show ?thesis using 2 by simp
  qed (use ok in simp)
qed

lemma reserve_pub_ok: "pub_ok d P \<Longrightarrow> pfm_reserve_writer rest pid meaning d = (e, r) \<Longrightarrow> pub_ok e P"
proof -
  assume ok: "pub_ok d P" and st: "pfm_reserve_writer rest pid meaning d = (e, r)"
  consider "e = d" | i where "pub_find_cell rest d = Some i" "reserve_cell pid meaning i d = (e, r)"
    | d1 i where "name_ok rest" "pub_find_cell rest d = None" "make_cell rest d = Some (d1, i)" "reserve_cell pid meaning i d1 = (e, r)"
    using st by (auto simp: pfm_reserve_writer_def split: if_splits option.splits prod.splits)
  then show "pub_ok e P"
  proof cases
    case (2 i)
    then show ?thesis using reserve_cell_ok [OF ok] pub_find_Some by blast
  next
    case (3 d1 i)
    then show ?thesis using make_cell_ok [OF ok 3(1-3)] reserve_cell_ok by blast
  qed (use ok in simp)
qed

lemma remove_pub_ok: "pub_ok d P \<Longrightarrow> pfm_remove name d = (e, r) \<Longrightarrow> pub_ok e P"
proof -
  assume ok: "pub_ok d P" and st: "pfm_remove name d = (e, r)"
  consider "e = d" | i where "pub_find_cell name d = Some i" "e = upd_cell i (\<lambda>c. unused_cell (pu_cap d)) d"
      "\<not> pc_held (pu_cells d ! i)" "pc_readers (pu_cells d ! i) = 0"
    using st by (auto simp: pfm_remove_def Let_def split: option.splits if_splits)
  then show "pub_ok e P"
  proof cases
    case (2 i)
    have i: "i < length (pu_cells d)" using pub_find_Some [OF 2(1)] by simp
    have h: "writers_on P i = 0" "readers_on P i = 0" using pub_okD(2) [OF ok i] 2(3,4) by (simp_all add: cell_held_def)
    have none: "px_cell p \<noteq> Some i" if "p \<in> set P" for p
      using h that pub_okD(4) [OF ok that] by (auto simp: writers_on_def readers_on_def filter_empty_conv path_of_cell_def)
    have "pub_ok (upd_cell i (\<lambda>c. unused_cell (pu_cap d)) d) P"
      by (rule pub_ok_change [OF ok i])
        (use h none in \<open>auto simp: cell_wf_def cell_held_def unused_cell_def RV9_MEANING_MAX_def RV9_FAULT_NONE_def\<close>)
    then show ?thesis using 2 by simp
  qed (use ok in simp)
qed

lemma end_cells: "pid \<noteq> RV9_PID_NONE \<Longrightarrow> pu_cells (pfm_ended pid fault d) = map (fst \<circ> end_cell pid fault) (pu_cells d) \<and> pu_cap (pfm_ended pid fault d) = pu_cap d"
proof -
  assume n: "pid \<noteq> RV9_PID_NONE"
  define G where "G = (\<lambda>i d. case end_cell pid fault (pu_cells d ! i) of (c, wake) \<Rightarrow>
      fold (act_done i) (if wake then wake_watchers (length (pu_waiters d)) else []) (upd_cell i (\<lambda>_. c) d))"
  have g: "pu_cells (G i d) = (pu_cells d)[i := fst (end_cell pid fault (pu_cells d ! i))]" "pu_cap (G i d) = pu_cap d" for i d
    by (auto simp: G_def wakes_done upd_cell_def split: prod.split)
  have "pu_cells (fold G [0..<m] d) = map (fst \<circ> end_cell pid fault) (take m (pu_cells d)) @ drop m (pu_cells d) \<and> pu_cap (fold G [0..<m] d) = pu_cap d"
    if "m \<le> length (pu_cells d)" for m using that
  proof (induction m)
    case (Suc m)
    then have m: "m < length (pu_cells d)" by simp
    let ?A = "map (fst \<circ> end_cell pid fault) (take m (pu_cells d)) @ drop m (pu_cells d)"
    have a: "?A ! m = pu_cells d ! m" using m by (simp add: nth_append min_def)
    have "?A[m := x] = map (fst \<circ> end_cell pid fault) (take m (pu_cells d)) @ x # drop (Suc m) (pu_cells d)" for x
      using m by (simp add: list_update_append min_def Cons_nth_drop_Suc [symmetric])
    then have "?A[m := fst (end_cell pid fault (?A ! m))] = map (fst \<circ> end_cell pid fault) (take (Suc m) (pu_cells d)) @ drop (Suc m) (pu_cells d)"
      unfolding a using m by (simp add: take_Suc_conv_app_nth)
    then show ?case using Suc m by (simp add: g comp_def)
  qed simp
  from this [of "length (pu_cells d)"] show ?thesis using n by (simp add: pfm_ended_def G_def)
qed

lemma end_cell_keeps:
  assumes "cell_wf cap c" "fault \<in> {RV9_FAULT_NONE, RV9_FAULT_STACK, RV9_FAULT_KILLED, RV9_FAULT_DEADLINE, RV9_FAULT_RUNAWAY}"
  shows "cell_wf cap (fst (end_cell pid fault c)) \<and> pc_name (fst (end_cell pid fault c)) = pc_name c \<and> (cell_held P i c \<longrightarrow> cell_held P i (fst (end_cell pid fault c)))"
  using assms by (auto simp: end_cell_def Let_def cell_wf_def cell_held_def even_cast32 cast32_less)

lemma ended_pub_ok:
  assumes ok: "pub_ok d P" and f: "fault \<in> {RV9_FAULT_NONE, RV9_FAULT_STACK, RV9_FAULT_KILLED, RV9_FAULT_DEADLINE, RV9_FAULT_RUNAWAY}"
  shows "pub_ok (pfm_ended pid fault d) P"
proof (cases "pid = RV9_PID_NONE")
  case False
  let ?e = "pfm_ended pid fault d"
  have e: "pu_cells ?e = map (fst \<circ> end_cell pid fault) (pu_cells d)" "pu_cap ?e = pu_cap d" using end_cells [OF False] by simp_all
  have k: "cell_wf (pu_cap d) (pu_cells ?e ! i)" "pc_name (pu_cells ?e ! i) = pc_name (pu_cells d ! i)" "cell_held P i (pu_cells ?e ! i)"
    if "i < length (pu_cells d)" for i
    using end_cell_keeps [OF pub_okD(1) [OF ok that] f] pub_okD(2) [OF ok that] that by (simp_all add: e)
  have "names_apart ?e" using pub_okD(3) [OF ok] k(2) by (auto simp: names_apart_def e(1))
  moreover have "path_of_cell ?e p" if "p \<in> set P" for p using pub_okD(4) [OF ok that] by (simp add: path_of_cell_def e(1) split: option.splits)
  ultimately show ?thesis using k unfolding pub_ok_def e(2) by (simp add: e(1))
qed (use ok in \<open>simp add: pfm_ended_def\<close>)

section \<open>Runs\<close>

datatype pub_op =
    POpen bool nat u32 string | PClose nat | PWrite nat nat "8 word list"
  | PReserve string nat string | PEnded nat nat | PRemove string

text \<open>Paths are named by their place among those open.\<close>

fun pubfm_step :: "pub_dev \<times> pub_path list \<Rightarrow> pub_op \<Rightarrow> pub_dev \<times> pub_path list" where
  "pubfm_step (d, P) (POpen room me mode rest) =
     (case pfm_open room me mode rest d of (e, Inl x) \<Rightarrow> (e, P) | (e, Inr p) \<Rightarrow> (e, P @ [p]))"
| "pubfm_step (d, P) (PClose k) = (if k < length P then (pfm_close (P ! k) d, remove1 (P ! k) P) else (d, P))"
| "pubfm_step (d, P) (PWrite now k buf) = (if k < length P then (fst (pfm_write now (P ! k) buf d), P) else (d, P))"
| "pubfm_step (d, P) (PReserve rest pid meaning) = (fst (pfm_reserve_writer rest pid meaning d), P)"
| "pubfm_step (d, P) (PEnded pid fault) = (pfm_ended pid fault d, P)"
| "pubfm_step (d, P) (PRemove name) = (fst (pfm_remove name d), P)"

text \<open>The I/O manager opens nothing that neither reads nor writes; an end has one of the five reasons.\<close>

fun pub_op_ok :: "pub_op \<Rightarrow> bool" where
  "pub_op_ok (POpen room me mode rest) = (mode AND RV9_MODE_RW \<noteq> 0)"
| "pub_op_ok (PEnded pid fault) = (fault \<in> {RV9_FAULT_NONE, RV9_FAULT_STACK, RV9_FAULT_KILLED, RV9_FAULT_DEADLINE, RV9_FAULT_RUNAWAY})"
| "pub_op_ok op = True"

lemma pubfm_step_ok:
  assumes ok: "pub_ok d P" and op: "pub_op_ok op" and few: "Suc (length P) < W32" and st: "pubfm_step (d, P) op = (e, Q)"
  shows "pub_ok e Q \<and> length Q \<le> Suc (length P)"
proof (cases op)
  case (POpen room me mode rest)
  obtain d1 r where o: "pfm_open room me mode rest d = (d1, r)" by (metis surj_pair)
  have "case r of Inl x \<Rightarrow> pub_ok d1 P | Inr p \<Rightarrow> pub_ok d1 (P @ [p])"
    by (rule open_pub_ok [OF ok _ few o]) (use op POpen in simp)
  then show ?thesis using st POpen o by (cases r) auto
next
  case (PClose k)
  then show ?thesis using st ok close_pub_ok [OF ok, of "P ! k"] by (auto simp: length_remove1 split: if_splits)
next
  case (PWrite now k buf)
  obtain d1 r where w: "pfm_write now (P ! k) buf d = (d1, r)" by (metis surj_pair)
  then show ?thesis using st ok PWrite write_pub_ok [OF ok nth_mem w] by (auto split: if_splits)
next
  case (PReserve rest pid meaning)
  obtain d1 r where w: "pfm_reserve_writer rest pid meaning d = (d1, r)" by (metis surj_pair)
  then show ?thesis using st PReserve reserve_pub_ok [OF ok w] by auto
next
  case (PEnded pid fault)
  then show ?thesis using st ended_pub_ok [OF ok, of fault pid] op by auto
next
  case (PRemove name)
  obtain d1 r where w: "pfm_remove name d = (d1, r)" by (metis surj_pair)
  then show ?thesis using st PRemove remove_pub_ok [OF ok w] by auto
qed

lemma pubfm_run_ok:
  assumes "pub_ok d P" "list_all pub_op_ok ops" "length P + length ops < UINT32_MAX" "foldl pubfm_step (d, P) ops = (e, Q)"
  shows "pub_ok e Q"
  using assms
proof (induction ops arbitrary: d P)
  case (Cons op ops)
  obtain d1 P1 where 1: "pubfm_step (d, P) op = (d1, P1)" by (metis surj_pair)
  have few: "Suc (length P) < W32" and o: "pub_op_ok op" using Cons.prems by simp_all
  note st = pubfm_step_ok [OF Cons.prems(1) o few 1]
  show ?case by (rule Cons.IH [of d1 P1]) (use Cons.prems st 1 in auto)
qed simp

lemma mount_pub_ok: "pfm_mount arena opt0 made = Inr d \<Longrightarrow> pub_ok d []"
  by (auto simp: pfm_mount_def Let_def pub_ok_def cell_wf_def cell_held_def names_apart_def unused_cell_def writers_on_def readers_on_def
      RV9_MEANING_MAX_def RV9_FAULT_NONE_def split: option.splits if_splits)

text \<open>C39. Cells keep their shape: the value has room for exactly the capacity, the length is within it, the
  number is even between operations, the name is empty or a publication name, the meaning fits, and a
  fault is one of those a reader is told of: RUNAWAY never is.\<close>

theorem cells_well_formed:
  assumes "pfm_mount arena opt0 made = Inr d" "list_all pub_op_ok ops" "length ops < 2 ^ 31" "foldl pubfm_step (d, []) ops = (e, P)"
  shows "pu_cap e = pu_cap d \<and> length (pu_cells e) = length (pu_cells d) \<and> (\<forall>c\<in>set (pu_cells e). cell_wf (pu_cap e) c)"
proof -
  have "pub_ok e P" by (rule pubfm_run_ok [OF mount_pub_ok [OF assms(1)] assms(2) _ assms(4)]) (use assms(3) in simp)
  then have "\<forall>c\<in>set (pu_cells e). cell_wf (pu_cap e) c" unfolding pub_ok_def by (metis in_set_conv_nth)
  moreover have "pu_cap (fst s) = pu_cap d \<and> length (pu_cells (fst s)) = length (pu_cells d)"
    if "foldl pubfm_step (d, P0) xs = s" for s xs P0 using that
  proof (induction xs arbitrary: s rule: rev_induct)
    case (snoc op xs)
    obtain f Q where f: "foldl pubfm_step (d, P0) xs = (f, Q)" by (metis surj_pair)
    have i: "pu_cap f = pu_cap d \<and> length (pu_cells f) = length (pu_cells d)" using snoc.IH [OF f] by simp
    have k: "pu_cap (fst (pubfm_step (f, Q) op)) = pu_cap f \<and> length (pu_cells (fst (pubfm_step (f, Q) op))) = length (pu_cells f)"
    proof (cases op)
      case (PEnded pid fault)
      then show ?thesis using end_cells [of pid fault f] by (cases "pid = RV9_PID_NONE") (simp_all add: pfm_ended_def)
    qed (auto simp: pfm_open_def open_cell_def make_cell_def pfm_close_def pfm_write_def publish_done pfm_reserve_writer_def reserve_cell_def pfm_remove_def Let_def
        split: option.split sum.split prod.split)
    show ?case using snoc.prems f i k by simp
  qed simp
  ultimately show ?thesis using assms(4) by (metis fst_conv)
qed

text \<open>C38. A cell has at most one path open to publish into it, and knows whether it has and how many read
  it; no two cells have one name, and no path is left on a cell that was removed. A cell that is being
  published, or is declared by another process, refuses every further open for writing, and nothing
  changes; and a declared cell that is being published is published by its declarer.\<close>

theorem one_publisher:
  assumes "pfm_mount arena opt0 made = Inr d" "list_all pub_op_ok ops" "length ops < 2 ^ 31" "foldl pubfm_step (d, []) ops = (e, P)"
    and i: "i < length (pu_cells e)"
  shows "writers_on P i = (if pc_held (pu_cells e ! i) then 1 else 0) \<and> pc_readers (pu_cells e ! i) = readers_on P i \<and>
    (\<forall>p\<in>set P. px_cell p = Some i \<longrightarrow> pub_find_cell (pc_name (pu_cells e ! i)) e = Some i) \<and>
    (pc_held (pu_cells e ! i) \<and> pc_reserved_by (pu_cells e ! i) \<noteq> 0 \<longrightarrow> pc_writer (pu_cells e ! i) = pc_reserved_by (pu_cells e ! i)) \<and>
    (\<forall>me mode. pc_name (pu_cells e ! i) \<noteq> [] \<and> mode AND RV9_MODE_WRITE \<noteq> 0 \<and>
       (pc_held (pu_cells e ! i) \<or> pc_reserved_by (pu_cells e ! i) \<notin> {0, me}) \<longrightarrow>
       pfm_open True me mode (pc_name (pu_cells e ! i)) e = (e, Inl RV9_IO_ERR_BUSY))"
proof -
  have ok: "pub_ok e P" by (rule pubfm_run_ok [OF mount_pub_ok [OF assms(1)] assms(2) _ assms(4)]) (use assms(3) in simp)
  let ?c = "pu_cells e ! i"
  have h: "cell_held P i ?c" "cell_wf (pu_cap e) ?c" using pub_okD(1,2) [OF ok i] by simp_all
  have find: "pub_find_cell (pc_name ?c) e = Some i" if "pc_name ?c \<noteq> []" by (rule pub_find_mem [OF pub_okD(3) [OF ok] i that])
  have "pfm_open True me mode (pc_name ?c) e = (e, Inl RV9_IO_ERR_BUSY)"
    if "pc_name ?c \<noteq> []" "mode AND RV9_MODE_WRITE \<noteq> 0" "pc_held ?c \<or> pc_reserved_by ?c \<notin> {0, me}" for me mode
    using find [OF that(1)] h(2) that by (auto simp: pfm_open_def open_cell_def Let_def cell_wf_def)
  then show ?thesis using h(1) find unfolding cell_held_def by blast
qed

section \<open>Witnesses\<close>

text \<open>A store asked for 16 cells of 64 bytes, as its driver sizes it, holds 13 of them.\<close>

lemma default_store: "pubmem_init 0 0 True = Inr 2048" "map_sum id (\<lambda>d. length (pu_cells d)) (pfm_mount (Some (RV9_IO_OK, True, 2048)) 0 True) = Inr 13"
  by (simp_all add: pubmem_init_def pfm_mount_def DEFAULT_CELL_BYTES_def DEFAULT_CELL_COUNT_def MAX_STORE_BYTES_def Let_def
      up8_def sizeof_cell_def)

text \<open>Two cells of 8 bytes. Process 7 declares the first, opens and publishes it, and 9 watches; then 7 ends
  with its path still open to it, and a third process is refused.\<close>

definition two_cells :: pub_dev where
  "two_cells = \<lparr>pu_cells = [unused_cell 8, unused_cell 8], pu_cap = 8, pu_stride = 96,
     pu_waiters = replicate PFM_MAX_WAITERS \<lparr>pw_sem = 0, pw_cell = None, pw_armed = False\<rparr>\<rparr>"

lemma two_mount: "pfm_mount (Some (RV9_IO_OK, True, 192)) 8 True = Inr two_cells"
  by (simp add: pfm_mount_def two_cells_def Let_def up8_def sizeof_cell_def numeral_2_eq_2)

definition speed_ops :: "pub_op list" where
  "speed_ops = [PReserve ''SPEED'' 7 ''mm'', POpen True 7 2 ''SPEED'', POpen True 9 1 ''SPEED'', PWrite 100 0 (replicate 16 0 @ [5])]"

definition speed_end :: pub_dev where
  "speed_end = two_cells\<lparr>pu_cells := [\<lparr>pc_name = ''SPEED'', pc_cap = 8, pc_held = True, pc_writer = 7, pc_readers = 1, pc_torn = 0, pc_reserved_by = 7,
     pc_last_writer = 7, pc_fault = 0, pc_meaning = ''mm'', pc_seq = 2, pc_len = 1, pc_stamp = 100, pc_value = [5, 0, 0, 0, 0, 0, 0, 0]\<rparr>, unused_cell 8]\<rparr>"

definition speed_paths :: "pub_path list" where
  "speed_paths = [\<lparr>px_cell = Some 0, px_mode = 2, px_writer = True, px_slot = None, px_dirpos = 0\<rparr>,
     \<lparr>px_cell = Some 0, px_mode = 1, px_writer = False, px_slot = None, px_dirpos = 0\<rparr>]"

lemma sixteen: "replicate 16 x = x # x # x # x # x # x # x # x # x # x # x # x # x # x # x # [x]"
  by (simp add: numeral_eq_Suc)

lemma eight: "replicate 8 x = x # x # x # x # x # x # x # [x]"
  by (simp add: numeral_eq_Suc)

lemma no_looks:
  assumes "\<forall>w\<in>set (pu_waiters d). pw_cell w = None"
  shows "fold (act_done i) (wake_watchers n) d = d"
proof -
  have "act_done i (Look k) d = d" for k
  proof (cases "k < length (pu_waiters d)")
    case True
    then have "pw_cell (pu_waiters d ! k) = None" using assms nth_mem by blast
    then show ?thesis by (simp add: look_done upd_waiter_def)
  qed (simp add: look_done upd_waiter_def list_update_beyond)
  then have "fold (act_done i) (map Look ks) d = d" for ks by (induction ks) simp_all
  then show ?thesis by (simp add: wake_watchers_def)
qed

lemma put_done: "act_done i (Put x) d = upd_cell i (store_to x) d"
  by (simp add: act_done_def)

lemma speed_run: "foldl pubfm_step (two_cells, []) speed_ops = (speed_end, speed_paths)"
  by (simp add: speed_ops_def two_cells_def speed_end_def speed_paths_def pfm_reserve_writer_def name_ok_def name_char_def RV9_PUB_MAX_NAME_def
        pub_find_cell_def make_cell_def unused_cell_def upd_cell_def reserve_cell_def Let_def RV9_MEANING_MAX_def pfm_open_def open_cell_def
        RV9_MODE_WRITE_def RV9_MODE_READ_def pfm_write_def pfm_write_begin_def sizeof_pub_def no_looks publish_def put_done publication_def sixteen eight)

lemma speed_ops_ok: "list_all pub_op_ok speed_ops" "length speed_ops < 2 ^ 31"
  by (simp_all add: speed_ops_def RV9_MODE_RW_def RV9_MODE_READ_def RV9_MODE_WRITE_def)

theorem cells_well_formed_witness:
  "\<exists>e P. foldl pubfm_step (two_cells, []) speed_ops = (e, P) \<and> pc_len (pu_cells e ! 0) = 1 \<and> cell_wf 8 (pu_cells e ! 0)"
proof -
  have "pu_cells speed_end ! 0 \<in> set (pu_cells speed_end)" by (simp add: speed_end_def)
  moreover have "pu_cap two_cells = 8" by (simp add: two_cells_def)
  ultimately have "cell_wf 8 (pu_cells speed_end ! 0)" using cells_well_formed [OF two_mount speed_ops_ok speed_run] by auto
  moreover have "pc_len (pu_cells speed_end ! 0) = 1" by (simp add: speed_end_def)
  ultimately show ?thesis using speed_run by blast
qed

theorem one_publisher_witness:
  "\<exists>e P. foldl pubfm_step (two_cells, []) speed_ops = (e, P) \<and> writers_on P 0 = 1 \<and> pc_readers (pu_cells e ! 0) = 1 \<and> pc_writer (pu_cells e ! 0) = 7 \<and>
     pfm_open True 12 2 ''SPEED'' e = (e, Inl RV9_IO_ERR_BUSY)"
proof -
  have i: "0 < length (pu_cells speed_end)" and w: "(2 :: u32) AND RV9_MODE_WRITE \<noteq> 0"
    and c: "pc_name (pu_cells speed_end ! 0) = ''SPEED''" "pc_held (pu_cells speed_end ! 0)" "pc_reserved_by (pu_cells speed_end ! 0) = 7"
    by (simp_all add: speed_end_def RV9_MODE_WRITE_def)
  have r: "readers_on speed_paths 0 = 1" by (simp add: speed_paths_def readers_on_def RV9_MODE_READ_def)
  note p = one_publisher [OF two_mount speed_ops_ok speed_run i]
  have "pfm_open True 12 2 (pc_name (pu_cells speed_end ! 0)) speed_end = (speed_end, Inl RV9_IO_ERR_BUSY)"
    using p [THEN conjunct2, THEN conjunct2, THEN conjunct2, THEN conjunct2, THEN spec [where x = 12], THEN spec [where x = 2]] w c by simp
  moreover have "writers_on speed_paths 0 = 1" "pc_readers (pu_cells speed_end ! 0) = 1" "pc_writer (pu_cells speed_end ! 0) = 7"
    using p c r by simp_all
  ultimately show ?thesis using speed_run c(1) by metis
qed

end
