(* ===== verification/Spec2Isabelle.thy ===== *)
theory Spec2Isabelle
  imports KHeap KSchedProps KSyncProps RtProps ProcProps ScanProps AdmitProps ChainProps ClaimProps PipeProps RbfRun AdmissionProps IoEnd PubProps
begin

text \<open>
  RV-9 verification library.

  RV-9 is an operating system for small RISC-V boards in the manner of OS-9: position independent
  program modules in a store in flash, a process manager that forks them, an I/O manager of file
  managers and drivers, and underneath either FreeRTOS or RV-9's own kernel. The source is C,
  under components/; the parts modelled are these, lowest first.

  \<^item> KHeap: components/rv9_kernel/src/heap.c, the kernel's allocator. A block header is a record,
    the heap a map from addresses to headers; \<open>kalloc\<close>, \<open>kfree\<close> and \<open>kcalloc\<close> are \<open>rv9k_alloc\<close>,
    \<open>rv9k_free\<close> and \<open>rv9k_calloc\<close>.
  \<^item> KThread, KSched, KSync: components/rv9_kernel/src/sched.c. Thread control blocks, creation,
    stacks and priorities; wait queues, the choice of a thread and the switch; then semaphores,
    mutexes and message queues. A function that gives up the CPU is split at \<open>rv9_ctx_switch\<close>;
    what runs after it is a definition of its own. Whether the context holds floating-point
    registers, 28 words or 14, is the parameter \<open>flen\<close>.
  \<^item> RtClock, RtTask: components/rv9_kal/src/kal_rt.c. The release clock with its alarm and
    interrupt; real-time slots, events, waiting for a release, the watchdog and the guard.
  \<^item> ProcTable, Admission, ProcLife, ProcEnd: components/rv9_proc/src/proc.c. Descriptors, pids,
    memory budgets, signals and aging; load, response times and placement of real-time processes;
    fork; chaining, ending, being stopped, waited for and killed. ProcLife's \<open>world\<close> is the
    process table, the module directory and the real-time tasks together, because a fork and an
    end touch all three.
  \<^item> Manifest, Modules: components/rv9_module/src/crc32.c and module.c. The module image, its
    checksum, header and manifest; the scan of the store, find, link and unlink.
  \<^item> Claims: components/rv9_io/src/claim.c, who owns a device. Pipes: pipefm.c, named pipes over a
    store lent by a driver; a read or a write is a turn of its loop.
  \<^item> Io, IoOps: io.c, the I/O manager. Registries, devices, path tables and sessions are the record
    \<open>iosys\<close>; a path descriptor is a record found by its address, with the references \<open>pa_refs\<close>. An
    operation that lets go of the I/O lock is split where it does (\<open>rv9_io_open_begin\<close>,
    \<open>rv9_io_open_end\<close>), a hangup into the looks of its wait, and a call into its count, its look
    at the session, which turns it back or lets it in, and its leave. IoAdmit:
    \<open>io_claim_for_fork\<close>, what a program's manifest declares, checked and reserved before it
    starts.
  \<^item> Rbf, RbfOps: rbf.c, files on a block device, and drv_ramdisk.c. A sector is a function from
    offset to byte, a device what it answers for each sector; every entry point holds the lock of
    the volume and is one function.
  \<^item> Pub: pfm.c, publications, and drv_pubmem.c, their store. A cell is a record; what its lock
    guards is one definition, and the value, which is published and read with no lock, is a list
    of stores (\<open>publication\<close>) and the loads of \<open>read_step\<close>. A publication ends with a look at each
    waiter's slot (\<open>wake_watchers\<close>), and the stores, looks and gives are the acts of \<open>act_step\<close>. A
    wait is the steps of \<open>wait_step\<close>.

  How the C is rendered. A struct is a record and an enum a datatype. Pointers to table entries
  are indices, pointers to processes the pid they carry, task handles numbers with 0 for NULL.
  Unsigned 32-bit arithmetic is either on words or on \<open>nat\<close> with \<open>cast32\<close> written where the C can
  wrap; 64-bit microsecond and millisecond clocks are \<open>nat\<close> and are taken not to wrap. One
  definition is one critical section of the lock that guards its state; a loop that waits is
  modelled a turn at a time, so every interleaving of turns is a run. Failure is a value:
  \<open>option\<close>, or a sum with the error enumeration on the left. What the code asks of hardware,
  FreeRTOS or the heap is an argument: clock readings (\<open>clk\<close>), flash reads (\<open>fe_read\<close>), the
  address \<open>rv9_alloc_exec\<close> gives, whether an allocation succeeds.

  What is shown, by theory.

  \<^item> KHeap: the blocks tile the region and no two free ones touch, whatever was allocated and
    freed; an allocation is refused only when nothing fits; freeing restores what was. A request
    within seven bytes of 4 GB is rounded to 0 and given 16 bytes, and the theorem says so.
  \<^item> KSchedInv holds the invariants of every run of the kernel (priorities, stacks, the current
    thread, wait queues) as locales instantiated for each; KSchedProps the choice of thread, stack
    overruns, waking order, aging and stopping.
  \<^item> KSyncProps: the message queue refines a bounded FIFO, gives hand over, mutexes exclude.
  \<^item> RtProps: due times never drift, and activations and missed periods are the periods that
    passed; lateness, deadlines and the watchdog's flags. RtClock: the interrupt calls exactly
    what is due, and the alarm is the soonest entry or a doubling lead ahead, for at most eight
    tries.
  \<^item> ProcProps: pids are fresh, history is bounded, memory held balances what is owed.
  \<^item> ManifestProps: the walk of a manifest stays inside the module and ends; reading gives back
    what was written; damage to four bytes in a row is caught by verification. ModuleProps and
    ScanProps: executable memory balances, a linked module is whole, the scan of the store ends
    and lists modules that verify, all of them when memory can be had.
  \<^item> AdmitProps: the response-time iteration finds the least solution of the recurrence or that
    there is none by the deadline, unless it is cut off at 64 rounds (\<open>slow_items\<close> is such a set);
    placement meets every deadline it promises, admission keeps all promises made before.
  \<^item> LifeProps, ChainProps: across fork, chain, end, collection and kill, every module is linked
    once for each process living on it; and the one path on which that fails.
  \<^item> ClaimProps: whatever opens, reservations and ends happen, an exclusive owner is alone and a
    record lives exactly as long as somebody holds it. PipeProps: the ring of a pipe meets the
    contract of a byte stream (locale \<open>byte_stream\<close>), and a pipe loses, doubles and reorders
    nothing. Who has been a writer is kept beside the run (\<open>pipe_past\<close>), from the modes asked for.
  \<^item> AdmissionProps: the loops over the entries of a tag end and see each entry once (locale
    \<open>entry_kind\<close>, interpreted for the kinds of declaration), so a program that is admitted has
    been granted all it declares, and of one refused some entry could not be had. IoProps and
    IoSteps: the balance of references, opens and claims under each operation, \<open>bal\<close>; IoRun and
    IoReach: in every run, with exclusive opens. IoCalls: hangups in every run with the counting,
    looking and leaving of calls in any order. IoEnd: runs evaluated, and a close that ends a
    session opened after it.
  \<^item> RbfAlloc: the bitmap as a set of marks, and what an allocation takes. RbfFile: a file is an
    array of bytes under write and read. RbfVolume: what an operation does to every file of a
    volume; RbfRun: in every orderly run from a blank device files stay apart and untouched by
    operations on others.
  \<^item> PubSeq: one cell on its device, its publisher act by act, a reader, and a process waiting on
    every slot, step by step in any order (\<open>pub_sys\<close>): a snapshot is one publication, no wake is
    lost, and what a publisher stopped half way leaves. PubProps: the store in every run of whole
    operations (\<open>pubfm_step\<close>); one publisher to a cell.

  Bounds and fuel. \<open>response_iter\<close> makes the 64 rounds the C makes. \<open>pid_scan\<close> looks at 65536
  candidates, all pids there are, and is shown to find one when one is free. \<open>collect_rounds\<close>
  makes as many rounds as there are processes, each of which ends one. Searches of the heap and
  the store are \<open>partial_function (option)\<close>; that they return is proved (\<open>kalloc_sound\<close>,
  \<open>scan_ends\<close>, \<open>admission_grants\<close>). Runs of the I/O manager are at most \<open>2 ^ 30\<close> operations long,
  with memory for 65533 paths, so that no count wraps; runs of the publications fewer than
  \<open>2 ^ 31\<close> operations, for the count of readers, or \<open>2 ^ 30\<close> steps of one cell.

  Assumed. A critical section is atomic. \<open>fork_inner\<close>, \<open>finish\<close>, \<open>collect_faulted\<close> and a turn of a
  chain are each one step although the C leaves and takes its lock again within them, so what
  another core does in between is not seen, nor the race the flag \<open>collecting\<close> is for;
  \<open>hangup_begin\<close> looks at the count of calls in the step that moves the session. \<open>rv9_exec_addr\<close>
  is the identity, as on all boards but the C3. Hooks are set and do not themselves fork or end
  processes. At most four real-time slots (\<open>MAX_RT_TASKS\<close>). The theorems about whole volumes let
  reads fail but not writes, and need that no file is opened twice at a time nor removed while
  open. In the runs of the I/O manager an open is one step, and a driver closes only a path it
  opened.

  Not modelled. switch.S and the traps (assembly); the KAL's shims over FreeRTOS and the kernel
  (kal_freertos.c, kal_native.c); drivers of devices, the display and raster code and fonts, the
  network and SSH; the speech model under rv9_stt; the boot sequence and self-tests under main/;
  the programs under modules/, which use the system and are no part of it; log lines.
\<close>

end
